(* ===== verification/Kernel_Prelude.thy ===== *)
theory Kernel_Prelude
  imports Main "HOL-Library.Word" "HOL-Library.Multiset"
begin

section \<open>Shared vocabulary of the kernel model\<close>

text \<open>
  What every component theory uses: the machine integer types of the 32-bit ARM target
  (\<open>klibc/include/stdint.h\<close>: \<open>size_t\<close>, \<open>uintptr_t\<close> and pointers are 32 bits wide), the
  ways a kernel operation can stop without returning (\<open>fault\<close>), the sequencing of
  operations that may fault (\<open>bindE\<close>), and generic facts on words, lists and options that
  the component proofs share.
\<close>

unbundle bit_operations_syntax

subsection \<open>Machine integers\<close>

type_synonym u8 = "8 word"
type_synonym u16 = "16 word"
type_synonym u32 = "32 word"
type_synonym u64 = "64 word"

text \<open>A pointer as the integer it is on the target; \<open>NULL\<close> is the address 0.\<close>

type_synonym ptr = u32

abbreviation (input) NULL :: ptr where
  "NULL \<equiv> 0"

subsection \<open>Faults and their sequencing\<close>

text \<open>
  An operation that does not return normally ends in one of these:
  a dereference of \<open>NULL\<close> (a data abort on the target), an access outside the object a
  pointer belongs to, a read of memory that was never written, a failed \<open>assert\<close>
  (\<open>_assert_fail\<close> panics), an explicit \<open>FATAL\<close> / \<open>panic\<close>, and the use of the member of a union
  that was not written last. The last one, \<open>Diverges\<close>, is a loop without end.
\<close>

datatype fault =
    NullDeref
  | OutOfBounds
  | Uninitialised
  | AssertFail
  | FatalPanic
  | WrongMember
  | Diverges

fun bindE :: "'e + 'a \<Rightarrow> ('a \<Rightarrow> 'e + 'b) \<Rightarrow> 'e + 'b" where
  "bindE (Inl e) f = Inl e"
| "bindE (Inr x) f = f x"

text \<open>The \<open>assert\<close> macro of \<open>klibc.h\<close>: a false condition panics, a true one does nothing.\<close>

definition assertE :: "bool \<Rightarrow> fault + unit" where
  "assertE b = (if b then Inr () else Inl AssertFail)"

lemma bindE_cong [fundef_cong]:
  "m = m' \<Longrightarrow> (\<And>x. m' = Inr x \<Longrightarrow> f x = f' x) \<Longrightarrow> bindE m f = bindE m' f'"
  by (cases m) auto

lemma bindE_Inr_iff: "bindE m f = Inr y \<longleftrightarrow> (\<exists>x. m = Inr x \<and> f x = Inr y)"
  by (cases m) auto

lemma bindE_Inl_iff: "bindE m f = Inl e \<longleftrightarrow> m = Inl e \<or> (\<exists>x. m = Inr x \<and> f x = Inl e)"
  by (cases m) auto

lemma bindE_assoc: "bindE (bindE m f) g = bindE m (\<lambda>x. bindE (f x) g)"
  by (cases m) auto

lemma bindE_InrE:
  assumes "bindE m f = Inr y"
  obtains x where "m = Inr x" and "f x = Inr y"
  using assms by (auto simp: bindE_Inr_iff)

lemma assertE_simps [simp]:
  "assertE True = Inr ()"
  "assertE False = Inl AssertFail"
  by (simp_all add: assertE_def)

lemma assertE_Inr_iff [simp]: "assertE b = Inr x \<longleftrightarrow> b"
  by (simp add: assertE_def)

subsection \<open>Collections of simplification rules\<close>

text \<open>
  \<open>kobj_simps\<close> collects the rules of kernel objects (\<open>Kernel_Objects\<close>), \<open>word_simps\<close> the
  rewriting of word arithmetic to arithmetic on \<open>nat\<close>.
\<close>

named_theorems kobj_simps
named_theorems word_simps

subsection \<open>Words\<close>

lemma unat_add_no_wrap:
  "unat a + unat b < 2 ^ LENGTH('a) \<Longrightarrow> unat (a + b) = unat a + unat (b :: 'a::len word)"
  by (simp add: unat_word_ariths)

lemma unat_sub_no_wrap:
  "b \<le> a \<Longrightarrow> unat (a - b) = unat a - unat (b :: 'a::len word)"
  by (rule unat_sub)

lemma unat_mult_no_wrap:
  "unat a * unat b < 2 ^ LENGTH('a) \<Longrightarrow> unat (a * b) = unat a * unat (b :: 'a::len word)"
  by (simp add: unat_word_ariths)

lemma u32_unat_lt: "unat (x :: u32) < 4294967296"
  using unsigned_less [of x] by simp

lemma u8_unat_lt: "unat (x :: u8) < 256"
  using unsigned_less [of x] by simp

lemma unat_of_nat_u32: "n < 4294967296 \<Longrightarrow> unat (of_nat n :: u32) = n"
  by (simp add: unat_of_nat take_bit_nat_eq_self)

lemma of_nat_unat_u32 [simp]: "of_nat (unat (x :: u32)) = x"
  by simp

lemma unat_Suc_u32:
  "unat x + 1 < 4294967296 \<Longrightarrow> unat ((x :: u32) + 1) = Suc (unat x)"
  by (simp add: unat_word_ariths)

lemma u32_less_unat: "a < b \<longleftrightarrow> unat a < unat (b :: u32)"
  by (rule word_less_nat_alt)

lemma u32_le_unat: "a \<le> b \<longleftrightarrow> unat a \<le> unat (b :: u32)"
  by (rule word_le_nat_alt)

lemmas u32_order_unat = u32_less_unat u32_le_unat

lemma unat_drop_bit: "unat (drop_bit n (x :: 'a::len word)) = unat x div 2 ^ n"
  by (rule trans [OF unat_drop_bit_eq drop_bit_eq_div])

subsection \<open>Lists\<close>

lemma map_upt_Suc_snoc: "map f [0..<Suc n] = map f [0..<n] @ [f n]"
  by simp

lemma map_upt_cong: "(\<And>i. i < n \<Longrightarrow> f i = g i) \<Longrightarrow> map f [0..<n] = map g [0..<n]"
  by simp

lemma take_map_upt: "m \<le> n \<Longrightarrow> take m (map f [0..<n]) = map f [0..<m]"
  by (simp add: take_map)

end
