(* ===== verification/Kernel_Objects.thy ===== *)
theory Kernel_Objects
  imports Kernel_Prelude
begin

section \<open>Allocated objects: \<open>klibc/alloc.c\<close> and \<open>klibc/mem.c\<close>\<close>

text \<open>
  An object returned by \<open>kmalloc\<close> is its usable size in bytes and its contents: a cell per
  element, \<open>None\<close> while the element has never been written (\<open>kmalloc\<close> does not clear
  memory). A pointer to such an object is \<open>None\<close> for \<open>NULL\<close>. An access is given the
  element size of the C type the pointer has; it faults on \<open>NULL\<close>, outside the usable
  size, and, for a read, on a cell that was never written.

  The answer of the heap below (\<open>heap_alloc\<close> of the allocator) is an argument of every
  operation that allocates: a \<open>grant\<close> maps the requested size to the usable size of the
  block handed out, or to \<open>None\<close> when the heap returns \<open>NULL\<close>. The locale \<open>kheap\<close> states
  the one law the clients rely on, that a block is at least as large as requested;
  \<open>Heap_Allocator\<close> shows that it holds of the allocator of the kernel.
\<close>

subsection \<open>Objects and accesses\<close>

record 'a kobj =
  osize :: u32
  cells :: "nat \<Rightarrow> 'a option"

type_synonym 'a kptr = "'a kobj option"
type_synonym grant = "u32 \<Rightarrow> u32 option"

definition in_object :: "nat \<Rightarrow> 'a kobj \<Rightarrow> nat \<Rightarrow> bool" where
  "in_object esz ob i \<longleftrightarrow> (i + 1) * esz \<le> unat (osize ob)"

definition kread :: "nat \<Rightarrow> 'a kptr \<Rightarrow> nat \<Rightarrow> fault + 'a" where
  "kread esz p i =
     (case p of
        None \<Rightarrow> Inl NullDeref
      | Some ob \<Rightarrow>
          if in_object esz ob i
          then (case cells ob i of None \<Rightarrow> Inl Uninitialised | Some v \<Rightarrow> Inr v)
          else Inl OutOfBounds)"

definition kwrite :: "nat \<Rightarrow> 'a kptr \<Rightarrow> nat \<Rightarrow> 'a \<Rightarrow> fault + 'a kptr" where
  "kwrite esz p i v =
     (case p of
        None \<Rightarrow> Inl NullDeref
      | Some ob \<Rightarrow>
          if in_object esz ob i
          then Inr (Some (ob\<lparr>cells := (cells ob)(i := Some v)\<rparr>))
          else Inl OutOfBounds)"

text \<open>The accesses through \<open>char *\<close> / \<open>uint8_t *\<close> and through arrays of words.\<close>

abbreviation rd8 :: "u8 kptr \<Rightarrow> nat \<Rightarrow> fault + u8" where
  "rd8 \<equiv> kread (Suc 0)"

abbreviation wr8 :: "u8 kptr \<Rightarrow> nat \<Rightarrow> u8 \<Rightarrow> fault + u8 kptr" where
  "wr8 \<equiv> kwrite (Suc 0)"

abbreviation rd32 :: "u32 kptr \<Rightarrow> nat \<Rightarrow> fault + u32" where
  "rd32 \<equiv> kread 4"

abbreviation wr32 :: "u32 kptr \<Rightarrow> nat \<Rightarrow> u32 \<Rightarrow> fault + u32 kptr" where
  "wr32 \<equiv> kwrite 4"

text \<open>A buffer of the caller that holds exactly the given elements.\<close>

definition kobj_of :: "nat \<Rightarrow> 'a list \<Rightarrow> 'a kptr" where
  "kobj_of esz xs =
     Some \<lparr>osize = of_nat (length xs * esz),
           cells = (\<lambda>i. if i < length xs then Some (xs ! i) else None)\<rparr>"

text \<open>The first \<open>n\<close> elements of an object, where they are initialised.\<close>

definition kcontents :: "'a kptr \<Rightarrow> nat \<Rightarrow> 'a list" where
  "kcontents p n =
     (case p of None \<Rightarrow> [] | Some ob \<Rightarrow> map (\<lambda>i. the (cells ob i)) [0..<n])"

definition kinit :: "nat \<Rightarrow> 'a kptr \<Rightarrow> nat \<Rightarrow> bool" where
  "kinit esz p n \<longleftrightarrow>
     n = 0 \<or>
     (\<exists>ob. p = Some ob \<and> n * esz \<le> unat (osize ob) \<and> (\<forall>i < n. cells ob i \<noteq> None))"

subsection \<open>The allocation functions of \<open>klibc/alloc.c\<close>\<close>

definition kmalloc :: "grant \<Rightarrow> u32 \<Rightarrow> 'a kptr" where
  "kmalloc g sz =
     (case g sz of
        None \<Rightarrow> None
      | Some m \<Rightarrow> Some \<lparr>osize = m, cells = (\<lambda>_. None)\<rparr>)"

text \<open>
  \<open>kcalloc(n, size)\<close> clears the \<open>n * size\<close> bytes it asked for (the product wraps at 32
  bits); \<open>z\<close> is the value whose representation is all zero bytes.
\<close>

definition kcalloc :: "grant \<Rightarrow> 'a \<Rightarrow> u32 \<Rightarrow> u32 \<Rightarrow> 'a kptr" where
  "kcalloc g z n sz =
     (let total_size = n * sz in
      case kmalloc g total_size of
        None \<Rightarrow> None
      | Some ob \<Rightarrow>
          Some (ob\<lparr>cells := (\<lambda>i. if (i + 1) * unat sz \<le> unat total_size
                                   then Some z else None)\<rparr>))"

text \<open>\<open>kmalloc_size\<close>, the size field of the block behind the pointer.\<close>

definition kmalloc_size :: "'a kobj \<Rightarrow> u32" where
  "kmalloc_size ob = osize ob"

text \<open>
  \<open>krealloc\<close>: a null pointer allocates, size 0 frees and gives \<open>NULL\<close>, a size within the
  usable size keeps the block, and a larger one moves the \<open>oldsize\<close> bytes to a new block.
  When the new block cannot be had the result is \<open>NULL\<close> and the old block is kept by the
  heap (but no longer by the caller).
\<close>

definition krealloc :: "nat \<Rightarrow> grant \<Rightarrow> 'a kptr \<Rightarrow> u32 \<Rightarrow> 'a kptr" where
  "krealloc esz g p newsize =
     (case p of
        None \<Rightarrow> kmalloc g newsize
      | Some ob \<Rightarrow>
          let oldsize = kmalloc_size ob in
          if newsize = 0 then None
          else if newsize \<le> oldsize then Some ob
          else
            (case kmalloc g newsize of
               None \<Rightarrow> None
             | Some new \<Rightarrow>
                 Some (new\<lparr>cells := (\<lambda>i. if (i + 1) * esz \<le> unat oldsize
                                          then cells ob i
                                          else cells new i)\<rparr>)))"

subsection \<open>The byte loops of \<open>klibc/mem.c\<close>\<close>

text \<open>
  \<open>memcpy\<close> moves \<open>count\<close> bytes one at a time and returns the destination pointer after
  the last byte written (unlike the C library's). Copying a byte that was never written
  copies its indeterminate value. The offsets are where \<open>dest\<close> and \<open>src\<close> point into their
  objects.
\<close>

definition kcell :: "u8 kptr \<Rightarrow> nat \<Rightarrow> fault + u8 option" where
  "kcell p i =
     (case p of
        None \<Rightarrow> Inl NullDeref
      | Some ob \<Rightarrow> if in_object (Suc 0) ob i then Inr (cells ob i) else Inl OutOfBounds)"

definition kput :: "u8 kptr \<Rightarrow> nat \<Rightarrow> u8 option \<Rightarrow> fault + u8 kptr" where
  "kput p i v =
     (case p of
        None \<Rightarrow> Inl NullDeref
      | Some ob \<Rightarrow>
          if in_object (Suc 0) ob i then Inr (Some (ob\<lparr>cells := (cells ob)(i := v)\<rparr>))
          else Inl OutOfBounds)"

fun memcpy :: "u8 kptr \<Rightarrow> nat \<Rightarrow> u8 kptr \<Rightarrow> nat \<Rightarrow> nat \<Rightarrow> fault + (u8 kptr \<times> nat)" where
  "memcpy dest dp src sp 0 = Inr (dest, dp)"
| "memcpy dest dp src sp (Suc n) =
     bindE (kcell src sp) (\<lambda>c.
     bindE (kput dest dp c) (\<lambda>dest'.
     memcpy dest' (Suc dp) src (Suc sp) n))"

fun memset :: "u8 kptr \<Rightarrow> nat \<Rightarrow> u32 \<Rightarrow> nat \<Rightarrow> fault + u8 kptr" where
  "memset dest off val 0 = Inr dest"
| "memset dest off val (Suc n) =
     bindE (kput dest off (Some (ucast val))) (\<lambda>dest'.
     memset dest' (Suc off) val n)"

fun memsetw :: "u16 kptr \<Rightarrow> nat \<Rightarrow> u16 \<Rightarrow> nat \<Rightarrow> fault + u16 kptr" where
  "memsetw dest off val 0 = Inr dest"
| "memsetw dest off val (Suc n) =
     bindE (kwrite 2 dest off val) (\<lambda>dest'.
     memsetw dest' (Suc off) val n)"

text \<open>\<open>memmove\<close> goes through a temporary array of \<open>n\<close> bytes on the stack.\<close>

definition memmove :: "u8 kptr \<Rightarrow> nat \<Rightarrow> nat \<Rightarrow> nat \<Rightarrow> fault + u8 kptr" where
  "memmove p doff soff n =
     (let tmp = Some \<lparr>osize = of_nat n, cells = (\<lambda>_. None)\<rparr> in
      bindE (memcpy tmp 0 p soff n) (\<lambda>(tmp', _).
      bindE (memcpy p doff tmp' 0 n) (\<lambda>(p', _). Inr p')))"

subsection \<open>Facts on accesses\<close>

lemma kread_Some [kobj_simps]:
  "in_object esz ob i \<Longrightarrow> cells ob i = Some v \<Longrightarrow> kread esz (Some ob) i = Inr v"
  by (simp add: kread_def)

lemma kread_NULL [kobj_simps]: "kread esz None i = Inl NullDeref"
  by (simp add: kread_def)

lemma kwrite_Some [kobj_simps]:
  "in_object esz ob i \<Longrightarrow>
   kwrite esz (Some ob) i v = Inr (Some (ob\<lparr>cells := (cells ob)(i := Some v)\<rparr>))"
  by (simp add: kwrite_def)

lemma kwrite_NULL [kobj_simps]: "kwrite esz None i v = Inl NullDeref"
  by (simp add: kwrite_def)

lemma in_object_upd [simp]: "in_object esz (ob\<lparr>cells := f\<rparr>) i = in_object esz ob i"
  by (simp add: in_object_def)

lemma kread_kwrite_same:
  "kwrite esz p i v = Inr p' \<Longrightarrow> kread esz p' i = Inr v"
  by (auto simp: kwrite_def kread_def split: option.splits if_splits)

lemma kread_kwrite_other:
  "kwrite esz p i v = Inr p' \<Longrightarrow> j \<noteq> i \<Longrightarrow> kread esz p' j = kread esz p j"
  by (auto simp: kwrite_def kread_def split: option.splits if_splits)

lemma kcontents_length [simp]: "p \<noteq> None \<Longrightarrow> length (kcontents p n) = n"
  by (auto simp: kcontents_def)

lemma kcontents_0 [simp]: "kcontents p 0 = []"
  by (simp add: kcontents_def split: option.split)

lemma kcontents_Suc:
  "kcontents (Some ob) (Suc n) = kcontents (Some ob) n @ [the (cells ob n)]"
  by (simp add: kcontents_def)

lemma kcontents_nth: "i < n \<Longrightarrow> kcontents (Some ob) n ! i = the (cells ob i)"
  by (simp add: kcontents_def)

lemma kcontents_upd_ge:
  "n \<le> i \<Longrightarrow> kcontents (Some (ob\<lparr>cells := (cells ob)(i := v)\<rparr>)) n = kcontents (Some ob) n"
  by (auto simp: kcontents_def)

lemma kcontents_cong:
  "(\<And>i. i < n \<Longrightarrow> cells ob i = cells ob' i) \<Longrightarrow> kcontents (Some ob) n = kcontents (Some ob') n"
  by (simp add: kcontents_def)

lemma kinit_0 [simp]: "kinit esz p 0"
  by (simp add: kinit_def)

lemma kinit_kread:
  assumes "kinit esz p n" and "i < n"
  shows "kread esz p i = Inr (kcontents p n ! i)"
proof -
  from assms obtain ob where p: "p = Some ob" and sz: "n * esz \<le> unat (osize ob)"
    and ini: "cells ob i \<noteq> None"
    by (auto simp: kinit_def)
  from \<open>i < n\<close> have "(i + 1) * esz \<le> n * esz"
    by (intro mult_le_mono1) simp
  with sz have "in_object esz ob i" by (simp add: in_object_def)
  with ini \<open>i < n\<close> show ?thesis
    by (auto simp: p kread_def kcontents_nth)
qed

lemma kinit_mono: "kinit esz p n \<Longrightarrow> m \<le> n \<Longrightarrow> kinit esz p m"
  unfolding kinit_def
  by (metis less_le_trans mult_le_mono1 order_trans le_zero_eq)

lemma kobj_of_kinit:
  "length xs * esz < 4294967296 \<Longrightarrow> kinit esz (kobj_of esz xs) (length xs)"
  by (auto simp: kinit_def kobj_of_def unat_of_nat_u32 simp del: of_nat_mult)

lemma kobj_of_kcontents [simp]: "kcontents (kobj_of esz xs) (length xs) = xs"
  by (rule nth_equalityI) (simp_all add: kcontents_def kobj_of_def)

subsection \<open>Facts on the allocation functions\<close>

lemma kmalloc_NULL_iff: "kmalloc g n = None \<longleftrightarrow> g n = None"
  by (simp add: kmalloc_def split: option.split)

lemma krealloc_keeps:
  "krealloc esz g (Some ob) n = Some ob' \<Longrightarrow> in_object esz ob i \<Longrightarrow>
   cells ob' i = cells ob i"
  by (auto simp: in_object_def krealloc_def Let_def kmalloc_size_def split: if_splits option.splits)

lemma krealloc_zero: "krealloc esz g (Some ob) 0 = None"
  by (simp add: krealloc_def)

lemma krealloc_same: "n \<noteq> 0 \<Longrightarrow> n \<le> osize ob \<Longrightarrow> krealloc esz g (Some ob) n = Some ob"
  by (simp add: krealloc_def kmalloc_size_def)

text \<open>The law of the heap: a block is at least as large as it was asked to be.\<close>

locale kheap =
  fixes g :: grant
  assumes grant_ge: "g n = Some m \<Longrightarrow> n \<le> m"
begin

lemma kmalloc_size_ge: "kmalloc g n = Some ob \<Longrightarrow> n \<le> osize ob"
  by (auto simp: kmalloc_def dest: grant_ge split: option.splits)

lemma krealloc_size_ge: "krealloc esz g p n = Some ob \<Longrightarrow> n \<le> osize ob"
  by (auto simp: krealloc_def Let_def kmalloc_size_def
        dest: kmalloc_size_ge split: if_splits option.splits)

lemma krealloc_never_shrinks:
  "krealloc esz g (Some ob) n = Some ob' \<Longrightarrow> osize ob \<le> osize ob'"
  by (auto simp: krealloc_def Let_def kmalloc_size_def
        dest: kmalloc_size_ge split: if_splits option.splits)

end

text \<open>A heap that hands out exactly what is asked for.\<close>

lemma kheap_exact: "kheap (\<lambda>n. Some n)"
  by unfold_locales simp

subsection \<open>What the byte loops compute\<close>

lemma empty_range_if [simp]: "(\<lambda>i. if (a::nat) \<le> i \<and> i < a then f i else h i) = h"
  by (rule ext) auto

lemma kobj_cells_id [simp]: "ob\<lparr>cells := cells ob\<rparr> = ob"
  by simp

lemma kobj_cells_cong: "f = h \<Longrightarrow> ob\<lparr>cells := f\<rparr> = ob\<lparr>cells := h\<rparr>"
  by simp

lemma memcpy_cells:
  "dp + n \<le> unat (osize d) \<Longrightarrow> sp + n \<le> unat (osize s) \<Longrightarrow>
   memcpy (Some d) dp (Some s) sp n =
     Inr (Some (d\<lparr>cells := (\<lambda>i. if dp \<le> i \<and> i < dp + n then cells s (sp + (i - dp))
                              else cells d i)\<rparr>), dp + n)"
proof (induction n arbitrary: d dp sp)
  case 0
  then show ?case by simp
next
  case (Suc n)
  let ?d = "d\<lparr>cells := (cells d)(dp := cells s sp)\<rparr>"
  have "memcpy (Some d) dp (Some s) sp (Suc n) = memcpy (Some ?d) (Suc dp) (Some s) (Suc sp) n"
    using Suc.prems by (simp add: kcell_def kput_def in_object_def)
  also have "\<dots> = Inr (Some (?d\<lparr>cells := (\<lambda>i. if Suc dp \<le> i \<and> i < Suc dp + n
       then cells s (Suc sp + (i - Suc dp)) else cells ?d i)\<rparr>), Suc dp + n)"
    using Suc.prems by (intro Suc.IH) simp_all
  also have "(\<lambda>i. if Suc dp \<le> i \<and> i < Suc dp + n then cells s (Suc sp + (i - Suc dp))
        else cells ?d i) =
      (\<lambda>i. if dp \<le> i \<and> i < dp + Suc n then cells s (sp + (i - dp)) else cells d i)"
    by (auto simp: fun_eq_iff Suc_diff_Suc)
  finally show ?case by simp
qed

lemma memset_cells:
  "off + n \<le> unat (osize d) \<Longrightarrow>
   memset (Some d) off val n =
     Inr (Some (d\<lparr>cells := (\<lambda>i. if off \<le> i \<and> i < off + n then Some (ucast val)
                              else cells d i)\<rparr>))"
proof (induction n arbitrary: d off)
  case 0
  then show ?case by simp
next
  case (Suc n)
  let ?d = "d\<lparr>cells := (cells d)(off := Some (ucast val))\<rparr>"
  have "memset (Some d) off val (Suc n) = memset (Some ?d) (Suc off) val n"
    using Suc.prems by (simp add: kput_def in_object_def)
  also have "\<dots> = Inr (Some (?d\<lparr>cells := (\<lambda>i. if Suc off \<le> i \<and> i < Suc off + n
       then Some (ucast val) else cells ?d i)\<rparr>))"
    using Suc.prems by (intro Suc.IH) simp
  also have "(\<lambda>i. if Suc off \<le> i \<and> i < Suc off + n then Some (ucast val) else cells ?d i) =
      (\<lambda>i. if off \<le> i \<and> i < off + Suc n then Some (ucast val) else cells d i)"
    by (auto simp: fun_eq_iff)
  finally show ?case by simp
qed

text \<open>\<open>memmove\<close> is right for overlapping ranges: every byte moved is the byte that was there.\<close>

lemma memmove_cells:
  assumes "doff + n \<le> unat (osize ob)" and "soff + n \<le> unat (osize ob)"
  shows "memmove (Some ob) doff soff n =
     Inr (Some (ob\<lparr>cells := (\<lambda>i. if doff \<le> i \<and> i < doff + n then cells ob (soff + (i - doff))
                               else cells ob i)\<rparr>))"
proof -
  have n: "unat (of_nat n :: u32) = n"
    using assms(1) u32_unat_lt [of "osize ob"] by (intro unat_of_nat_u32) simp
  show ?thesis
    using assms by (auto simp: memmove_def memcpy_cells n fun_eq_iff intro!: kobj_cells_cong)
qed

end
