(* ===== verification/Klibc_String.thy ===== *)
theory Klibc_String
  imports Kernel_Objects
begin

section \<open>Strings: \<open>klibc/string.c\<close> and the scanners of \<open>klibc/klibc.c\<close>\<close>

text \<open>
  A C string is a pointer into an object: the object and an offset. \<open>char\<close> is unsigned on
  the target. Every loop of the source is a recursion that reads the bytes in the source's
  order; a loop that finds no terminator runs into the end of its object and faults there,
  which is also why every loop ends.
\<close>

definition obj_len :: "'a kptr \<Rightarrow> nat" where
  "obj_len p = (case p of None \<Rightarrow> 0 | Some ob \<Rightarrow> unat (osize ob))"

lemma kread_bound: "kread (Suc 0) p i = Inr c \<Longrightarrow> i < obj_len p"
  by (auto simp: kread_def obj_len_def in_object_def split: option.splits if_splits)

lemma kread_bound_off: "kread (Suc 0) p (off + i) = Inr c \<Longrightarrow> i < obj_len p"
  by (drule kread_bound) simp

subsection \<open>\<open>string.c\<close>\<close>

function strlen_from :: "u8 kptr \<Rightarrow> nat \<Rightarrow> nat \<Rightarrow> fault + nat" where
  "strlen_from s off i =
     bindE (rd8 s (off + i)) (\<lambda>c. if c = 0 then Inr i else strlen_from s off (Suc i))"
  by pat_completeness auto
termination
  by (relation "measure (\<lambda>(s, off, i). obj_len s - i)") (auto dest!: kread_bound_off)

declare strlen_from.simps [simp del]

definition strlen :: "u8 kptr \<Rightarrow> nat \<Rightarrow> fault + u32" where
  "strlen s off = bindE (strlen_from s off 0) (\<lambda>n. Inr (of_nat n))"

function strcpy_loop :: "u8 kptr \<Rightarrow> nat \<Rightarrow> u8 kptr \<Rightarrow> nat \<Rightarrow> nat \<Rightarrow> fault + u8 kptr" where
  "strcpy_loop dst doff src soff i =
     bindE (rd8 src (soff + i)) (\<lambda>c.
     if c \<noteq> 0
     then bindE (wr8 dst (doff + i) c) (\<lambda>dst'. strcpy_loop dst' doff src soff (Suc i))
     else wr8 dst (doff + i) 0)"
  by pat_completeness auto
termination
  by (relation "measure (\<lambda>(dst, doff, src, soff, i). obj_len src - i)")
     (auto dest!: kread_bound_off)

declare strcpy_loop.simps [simp del]

definition strcpy :: "u8 kptr \<Rightarrow> nat \<Rightarrow> u8 kptr \<Rightarrow> nat \<Rightarrow> fault + u8 kptr" where
  "strcpy dst doff src soff = strcpy_loop dst doff src soff 0"

text \<open>
  \<open>while ((*d++ = *s++) && n--)\<close>: the byte is copied before \<open>n\<close> is looked at, so up to
  \<open>n + 1\<close> bytes are written.
\<close>

fun strncpy :: "u8 kptr \<Rightarrow> nat \<Rightarrow> u8 kptr \<Rightarrow> nat \<Rightarrow> nat \<Rightarrow> fault + u8 kptr" where
  "strncpy dest d src s n =
     bindE (rd8 src s) (\<lambda>c.
     bindE (wr8 dest d c) (\<lambda>dest'.
     if c \<noteq> 0
     then (case n of 0 \<Rightarrow> Inr dest' | Suc m \<Rightarrow> strncpy dest' (Suc d) src (Suc s) m)
     else Inr dest'))"

declare strncpy.simps [simp del]

definition strcat :: "u8 kptr \<Rightarrow> nat \<Rightarrow> u8 kptr \<Rightarrow> nat \<Rightarrow> fault + u8 kptr" where
  "strcat dst doff src soff =
     bindE (strlen_from dst doff 0) (\<lambda>i. strcpy_loop dst (doff + i) src soff 0)"

definition strcatc :: "u8 kptr \<Rightarrow> nat \<Rightarrow> u8 \<Rightarrow> fault + u8 kptr" where
  "strcatc dst doff src =
     bindE (strlen_from dst doff 0) (\<lambda>i.
     bindE (wr8 dst (doff + i) src) (\<lambda>dst'.
     wr8 dst' (doff + i + 1) 0))"

function strcmp_loop :: "u8 kptr \<Rightarrow> nat \<Rightarrow> u8 kptr \<Rightarrow> nat \<Rightarrow> nat \<Rightarrow> fault + u32" where
  "strcmp_loop s1 o1 s2 o2 i =
     bindE (rd8 s1 (o1 + i)) (\<lambda>a.
     bindE (rd8 s2 (o2 + i)) (\<lambda>b.
     if a \<noteq> b then Inr (if a < b then - 1 else 1)
     else if a = 0 then Inr 0
     else strcmp_loop s1 o1 s2 o2 (Suc i)))"
  by pat_completeness auto
termination
  by (relation "measure (\<lambda>(s1, o1, s2, o2, i). obj_len s1 - i)") (auto dest!: kread_bound_off)

declare strcmp_loop.simps [simp del]

definition strcmp :: "u8 kptr \<Rightarrow> nat \<Rightarrow> u8 kptr \<Rightarrow> nat \<Rightarrow> fault + u32" where
  "strcmp s1 o1 s2 o2 = strcmp_loop s1 o1 s2 o2 0"

text \<open>
  The loop stops at a zero of \<open>s1\<close>, at a difference, or when \<open>n\<close> is used up; the result is
  the difference of the bytes it stopped at, as an unsigned word.
\<close>

fun strncmp :: "u8 kptr \<Rightarrow> nat \<Rightarrow> u8 kptr \<Rightarrow> nat \<Rightarrow> nat \<Rightarrow> fault + u32" where
  "strncmp s1 i s2 j 0 = Inr 0"
| "strncmp s1 i s2 j (Suc n) =
     bindE (rd8 s1 i) (\<lambda>a.
     if a = 0 then bindE (rd8 s2 j) (\<lambda>b. Inr (ucast a - ucast b))
     else bindE (rd8 s2 j) (\<lambda>b.
          if a = b then strncmp s1 (Suc i) s2 (Suc j) n else Inr (ucast a - ucast b)))"

definition starts_with :: "u8 kptr \<Rightarrow> nat \<Rightarrow> u8 kptr \<Rightarrow> nat \<Rightarrow> fault + bool" where
  "starts_with s1 o1 s2 o2 =
     bindE (strlen s2 o2) (\<lambda>n.
     bindE (strncmp s1 o1 s2 o2 (unat n)) (\<lambda>r. Inr (r = 0)))"

subsection \<open>The scanners of \<open>klibc.c\<close>\<close>

text \<open>Whether \<open>c\<close> is one of the first \<open>n\<close> characters of \<open>set\<close>, from index \<open>i\<close> on.\<close>

fun char_in :: "u8 \<Rightarrow> u8 kptr \<Rightarrow> nat \<Rightarrow> nat \<Rightarrow> fault + bool" where
  "char_in c accept i 0 = Inr False"
| "char_in c accept i (Suc n) =
     bindE (rd8 accept i) (\<lambda>a.
     bindE (char_in c accept (Suc i) n) (\<lambda>r. Inr (c = a \<or> r)))"

function os_strspn_loop :: "u8 kptr \<Rightarrow> nat \<Rightarrow> u8 kptr \<Rightarrow> nat \<Rightarrow> fault + nat" where
  "os_strspn_loop s off accept len =
     bindE (rd8 s (off + len)) (\<lambda>c.
     if c \<noteq> 0
     then bindE (strlen_from accept 0 0) (\<lambda>n.
          bindE (char_in c accept 0 n) (\<lambda>ok.
          if ok then os_strspn_loop s off accept (Suc len) else Inr len))
     else Inr len)"
  by pat_completeness auto
termination
  by (relation "measure (\<lambda>(s, off, accept, len). obj_len s - len)")
     (auto dest!: kread_bound_off)

declare os_strspn_loop.simps [simp del]

definition os_strspn :: "u8 kptr \<Rightarrow> nat \<Rightarrow> u8 kptr \<Rightarrow> fault + nat" where
  "os_strspn s off accept = os_strspn_loop s off accept 0"

function os_strcspn_loop :: "u8 kptr \<Rightarrow> nat \<Rightarrow> u8 kptr \<Rightarrow> nat \<Rightarrow> fault + nat" where
  "os_strcspn_loop s off reject len =
     bindE (rd8 s (off + len)) (\<lambda>c.
     if c \<noteq> 0
     then bindE (strlen_from reject 0 0) (\<lambda>n.
          bindE (char_in c reject 0 n) (\<lambda>hit.
          if hit then Inr len else os_strcspn_loop s off reject (Suc len)))
     else Inr len)"
  by pat_completeness auto
termination
  by (relation "measure (\<lambda>(s, off, reject, len). obj_len s - len)")
     (auto dest!: kread_bound_off)

declare os_strcspn_loop.simps [simp del]

definition os_strcspn :: "u8 kptr \<Rightarrow> nat \<Rightarrow> u8 kptr \<Rightarrow> fault + nat" where
  "os_strcspn s off reject = os_strcspn_loop s off reject 0"

text \<open>
  \<open>os_strtok\<close> keeps its place in the static \<open>p\<close>, an offset into the string being cut
  (\<open>None\<close>: no place). The argument \<open>start\<close> is the offset passed in, \<open>None\<close> for a null
  pointer. The result is the offset of the token, if any, the new place, and the string
  with the delimiter overwritten.
\<close>

definition os_strtok ::
  "u8 kptr \<Rightarrow> nat option \<Rightarrow> nat option \<Rightarrow> u8 kptr \<Rightarrow> fault + (nat option \<times> nat option \<times> u8 kptr)" where
  "os_strtok str p start sep =
     (case (if start = None then p else start) of
        None \<Rightarrow> Inr (None, p, str)
      | Some s0 \<Rightarrow>
          bindE (os_strspn str s0 sep) (\<lambda>k.
          let s = s0 + k in
          bindE (rd8 str s) (\<lambda>c.
          if c = 0 then Inr (None, None, str)
          else
            bindE (os_strcspn str s sep) (\<lambda>m.
            bindE (rd8 str (s + m)) (\<lambda>d.
            if d \<noteq> 0
            then bindE (wr8 str (s + m) 0) (\<lambda>str'. Inr (Some s, Some (s + m + 1), str'))
            else Inr (Some s, None, str))))))"

subsection \<open>Strings as lists of characters\<close>

text \<open>The string \<open>xs\<close> (without its terminator) lies in the object \<open>p\<close> from offset \<open>off\<close>.\<close>

definition cstr :: "u8 kptr \<Rightarrow> nat \<Rightarrow> u8 list \<Rightarrow> bool" where
  "cstr p off xs \<longleftrightarrow>
     0 \<notin> set xs \<and>
     (\<exists>ob. p = Some ob \<and> off + length xs < unat (osize ob) \<and>
           (\<forall>i < length xs. cells ob (off + i) = Some (xs ! i)) \<and>
           cells ob (off + length xs) = Some 0)"

lemma cstr_read_char: "cstr p off xs \<Longrightarrow> i < length xs \<Longrightarrow> rd8 p (off + i) = Inr (xs ! i)"
  by (auto simp: cstr_def kread_def in_object_def)

lemma cstr_read_end: "cstr p off xs \<Longrightarrow> rd8 p (off + length xs) = Inr 0"
  by (auto simp: cstr_def kread_def in_object_def)

lemma cstr_nonzero: "cstr p off xs \<Longrightarrow> i < length xs \<Longrightarrow> xs ! i \<noteq> 0"
  by (auto simp: cstr_def) (metis nth_mem)

lemma cstr_length: "cstr p off xs \<Longrightarrow> off + length xs < 4294967296"
  by (auto simp: cstr_def intro: less_trans u32_unat_lt)

lemma cstr_tail: "cstr p off (x # xs) \<Longrightarrow> cstr p (Suc off) xs"
  by (auto simp: cstr_def) (metis Suc_less_eq add_Suc_right nth_Cons_Suc add_Suc)+

text \<open>A string literal (or any buffer that holds exactly a string).\<close>

definition cstr_obj :: "u8 list \<Rightarrow> u8 kptr" where
  "cstr_obj xs = kobj_of (Suc 0) (xs @ [0])"

lemma cstr_obj_cstr: "0 \<notin> set xs \<Longrightarrow> length xs + 1 < 4294967296 \<Longrightarrow> cstr (cstr_obj xs) 0 xs"
  by (auto simp: cstr_def cstr_obj_def kobj_of_def nth_append unat_of_nat_u32 simp del: of_nat_Suc
        of_nat_add)

lemma strlen_from_cstr:
  assumes "cstr p off xs" and "i \<le> length xs"
  shows "strlen_from p off i = Inr (length xs)"
  using assms
proof (induction "length xs - i" arbitrary: i)
  case 0
  then have "rd8 p (off + i) = Inr 0"
    using cstr_read_end [of p off xs] by simp
  with 0 show ?case by (subst strlen_from.simps) simp
next
  case (Suc k)
  then have "i < length xs" by simp
  moreover from Suc have "strlen_from p off (Suc i) = Inr (length xs)" by simp
  ultimately show ?case
    using Suc.prems
    by (subst strlen_from.simps) (simp add: cstr_read_char cstr_nonzero)
qed

lemma strlen_cstr: "cstr p off xs \<Longrightarrow> strlen p off = Inr (of_nat (length xs))"
  by (simp add: strlen_def strlen_from_cstr)

text \<open>Reading a string at its head, the form the comparison loops need.\<close>

lemma cstr_hd:
  "cstr p off xs \<Longrightarrow> rd8 p off = Inr (case xs of [] \<Rightarrow> 0 | x # _ \<Rightarrow> x)"
  using cstr_read_end [of p off xs] cstr_read_char [of p off xs 0]
  by (cases xs) auto

lemma cstr_Cons_nonzero: "cstr p off (x # xs) \<Longrightarrow> x \<noteq> 0"
  by (auto simp: cstr_def)

lemma cstr_drop: "cstr p off xs \<Longrightarrow> k \<le> length xs \<Longrightarrow> cstr p (off + k) (drop k xs)"
proof (induction k)
  case 0
  then show ?case by simp
next
  case (Suc k)
  then have "cstr p (off + k) (xs ! k # drop (Suc k) xs)"
    by (simp add: Cons_nth_drop_Suc)
  then show ?case using cstr_tail by fastforce
qed

lemma unat_ucast_u8: "unat (ucast (a :: u8) :: u32) = unat a"
  using u8_unat_lt [of a] by (simp add: unsigned_ucast_eq take_bit_nat_eq_self)

lemma ucast_u8_u32_inject: "ucast (a :: u8) = (ucast b :: u32) \<longleftrightarrow> a = b"
  by (metis unat_ucast_u8 word_unat_eq_iff)

lemma ucast_u8_u32_0: "ucast (a :: u8) = (0 :: u32) \<longleftrightarrow> a = 0"
  using ucast_u8_u32_inject [of a 0] by simp

lemma strncmp_cstr:
  assumes "cstr p i xs" and "cstr q j ys"
  shows "\<exists>r. strncmp p i q j n = Inr r \<and> (r = 0 \<longleftrightarrow> take n xs = take n ys)"
  using assms
proof (induction n arbitrary: i j xs ys)
  case 0
  then show ?case by simp
next
  case (Suc n)
  note rd = cstr_hd [OF Suc.prems(1)] cstr_hd [OF Suc.prems(2)]
  show ?case
  proof (cases xs)
    case Nil
    with rd Suc.prems show ?thesis
      using ucast_u8_u32_inject [of 0] by (cases ys) (auto dest: cstr_Cons_nonzero)
  next
    case (Cons x xs')
    with Suc.prems have x: "x \<noteq> 0" by (auto dest: cstr_Cons_nonzero)
    show ?thesis
    proof (cases "\<exists>ys'. ys = x # ys'")
      case True
      then obtain ys' where ys: "ys = x # ys'" by blast
      with Cons Suc.prems have "cstr p (Suc i) xs'" and "cstr q (Suc j) ys'"
        by (auto dest: cstr_tail)
      from Suc.IH [OF this] rd Cons ys x show ?thesis by auto
    next
      case False
      with rd Cons x show ?thesis
        by (cases ys) (auto simp: ucast_u8_u32_inject ucast_u8_u32_0)
    qed
  qed
qed

lemma strcmp_cstr:
  assumes "cstr p i xs" and "cstr q j ys"
  shows "\<exists>r. strcmp p i q j = Inr r \<and> (r = 0 \<longleftrightarrow> xs = ys)"
proof -
  have "k \<le> length xs \<Longrightarrow> k \<le> length ys \<Longrightarrow> take k xs = take k ys \<Longrightarrow>
    \<exists>r. strcmp_loop p i q j k = Inr r \<and> (r = 0 \<longleftrightarrow> xs = ys)" for k
  proof (induction "length xs - k" arbitrary: k)
    case 0
    then have "k = length xs" by simp
    with 0 have tk: "take k ys = xs" by simp
    then have ys: "drop k ys = [] \<longleftrightarrow> xs = ys"
      using \<open>k = length xs\<close> by auto
    note p = cstr_drop [OF assms(1) 0(2)] and q = cstr_drop [OF assms(2) 0(3)]
    note rd = p[THEN cstr_hd] q[THEN cstr_hd]
    from q have "drop k ys = y # zs \<Longrightarrow> y \<noteq> 0" for y zs
      using cstr_Cons_nonzero by metis
    with rd \<open>k = length xs\<close> ys show ?case
      by (subst strcmp_loop.simps) (cases "drop k ys", auto)
  next
    case (Suc m)
    then have k: "k < length xs" by simp
    from assms Suc.prems have p: "cstr p (i + k) (drop k xs)" and q: "cstr q (j + k) (drop k ys)"
      by (auto intro: cstr_drop)
    note rd = p[THEN cstr_hd] q[THEN cstr_hd]
    from k obtain x zs where x: "drop k xs = x # zs" "xs ! k = x"
      by (metis Cons_nth_drop_Suc)
    with p have nz: "x \<noteq> 0" using cstr_Cons_nonzero by metis
    show ?case
    proof (cases "k < length ys \<and> ys ! k = x")
      case True
      with Suc k x have IH: "\<exists>r. strcmp_loop p i q j (Suc k) = Inr r \<and> (r = 0 \<longleftrightarrow> xs = ys)"
        by (intro Suc.hyps(1)) (auto simp: take_Suc_conv_app_nth)
      from True have "drop k ys = x # drop (Suc k) ys" by (metis Cons_nth_drop_Suc)
      with rd x nz IH show ?thesis by (subst strcmp_loop.simps) simp
    next
      case False
      then have "(case drop k ys of [] \<Rightarrow> 0 | y # _ \<Rightarrow> y) \<noteq> x"
        using nz by (cases "k < length ys") (auto simp flip: Cons_nth_drop_Suc)
      moreover from False k x have "xs \<noteq> ys" by auto
      ultimately show ?thesis using rd x nz by (subst strcmp_loop.simps) auto
    qed
  qed
  from this [of 0] show ?thesis by (simp add: strcmp_def)
qed

end
