(* ===== verification/Array_Lists.thy ===== *)
theory Array_Lists
  imports Klibc_String
begin

section \<open>Growable arrays: \<open>ds/u8_array_list.c\<close> and \<open>ds/vp_array_list.c\<close>\<close>

text \<open>
  The two growable arrays of the kernel: of bytes (file contents, paths) and of pointers
  (directory entries, page lists). A list is its C struct: length, capacity, and the array
  object. Operations that allocate take the grants of the heap for their calls.

  For each list an invariant, the contents as a HOL list, and what every operation does to
  them; the contract both share is the locale \<open>growable_array\<close>, interpreted for both.
\<close>

subsection \<open>\<open>U8ArrayList\<close>\<close>

record U8ArrayList =
  u8_length :: u32
  u8_capacity :: u32
  u8_array :: "u8 kptr"

text \<open>\<open>sizeof(U8ArrayList)\<close> and \<open>sizeof(VPArrayList)\<close> on the target: three words.\<close>

definition list_struct_size :: u32 where
  "list_struct_size = 12"

text \<open>The struct is written without a check that \<open>kmalloc\<close> returned a block for it.\<close>

definition u8a_create :: "grant \<Rightarrow> grant \<Rightarrow> u32 \<Rightarrow> fault + U8ArrayList" where
  "u8a_create g g' initial_cap =
     (if g list_struct_size = None then Inl NullDeref
      else Inr \<lparr>u8_length = 0, u8_capacity = initial_cap, u8_array = kmalloc g' initial_cap\<rparr>)"

text \<open>The array objects that \<open>u8a_free\<close> hands to \<open>kfree\<close> (the struct itself always is).\<close>

definition u8a_free :: "U8ArrayList \<Rightarrow> u8 kptr list" where
  "u8a_free arr = (if u8_capacity arr > 0 then [u8_array arr] else [])"

definition u8a_get :: "U8ArrayList \<Rightarrow> u32 \<Rightarrow> fault + u8" where
  "u8a_get l index = rd8 (u8_array l) (unat index)"

definition u8a_set :: "U8ArrayList \<Rightarrow> u32 \<Rightarrow> u8 \<Rightarrow> fault + U8ArrayList" where
  "u8a_set l index data =
     bindE (wr8 (u8_array l) (unat index) data) (\<lambda>arr. Inr (l\<lparr>u8_array := arr\<rparr>))"

text \<open>The growth rule both lists use: a quarter more, at least two more.\<close>

definition grown_capacity :: "u32 \<Rightarrow> u32" where
  "grown_capacity cap =
     (if cap + drop_bit 2 cap > cap + 2 then cap + drop_bit 2 cap else cap + 2)"

definition u8a_push :: "grant \<Rightarrow> U8ArrayList \<Rightarrow> u8 \<Rightarrow> fault + (u32 \<times> U8ArrayList)" where
  "u8a_push g l data =
     bindE
       (if u8_capacity l = 0 \<or> u8_length l \<ge> u8_capacity l - 1
        then
          (let new_size = grown_capacity (u8_capacity l) in
           bindE (assertE (new_size > u8_capacity l)) (\<lambda>_.
           Inr (l\<lparr>u8_capacity := new_size,
                  u8_array := krealloc (Suc 0) g (u8_array l) new_size\<rparr>)))
        else Inr l)
       (\<lambda>l. bindE (wr8 (u8_array l) (unat (u8_length l)) data) (\<lambda>arr.
            Inr (u8_length l + 1, l\<lparr>u8_array := arr, u8_length := u8_length l + 1\<rparr>)))"

definition u8a_resize :: "grant \<Rightarrow> U8ArrayList \<Rightarrow> u32 \<Rightarrow> U8ArrayList" where
  "u8a_resize g l new_size =
     (let l = l\<lparr>u8_array := krealloc (Suc 0) g (u8_array l) new_size, u8_capacity := new_size\<rparr> in
      if u8_length l > u8_capacity l then l\<lparr>u8_length := u8_capacity l\<rparr> else l)"

text \<open>The copy loops of \<open>u8a_push_string\<close> and \<open>u8a_clone\<close>: \<open>n\<close> more bytes from index \<open>i\<close>.\<close>

fun u8a_append_loop :: "U8ArrayList \<Rightarrow> u8 kptr \<Rightarrow> nat \<Rightarrow> nat \<Rightarrow> fault + U8ArrayList" where
  "u8a_append_loop l src i 0 = Inr l"
| "u8a_append_loop l src i (Suc n) =
     bindE (rd8 src i) (\<lambda>c.
     bindE (wr8 (u8_array l) (unat (u8_length l)) c) (\<lambda>arr.
     u8a_append_loop (l\<lparr>u8_array := arr, u8_length := u8_length l + 1\<rparr>) src (Suc i) n))"

definition u8a_push_string :: "grant \<Rightarrow> U8ArrayList \<Rightarrow> u8 kptr \<Rightarrow> fault + (u32 \<times> U8ArrayList)" where
  "u8a_push_string g arr data =
     bindE (strlen data 0) (\<lambda>n.
     bindE (u8a_append_loop (u8a_resize g arr (u8_length arr + n)) data 0 (unat n)) (\<lambda>arr'.
     Inr (u8_length arr', arr')))"

text \<open>A pop returns 0 on an empty list, and halves the capacity when less than half is used.\<close>

definition u8a_pop :: "grant \<Rightarrow> U8ArrayList \<Rightarrow> fault + (u8 \<times> U8ArrayList)" where
  "u8a_pop g l =
     (if u8_length l = 0 then Inr (0, l)
      else
        (let l = l\<lparr>u8_length := u8_length l - 1\<rparr> in
         bindE (rd8 (u8_array l) (unat (u8_length l))) (\<lambda>res.
         if u8_length l < u8_capacity l div 2
         then Inr (res, l\<lparr>u8_capacity := u8_capacity l div 2,
                          u8_array := krealloc (Suc 0) g (u8_array l) (u8_capacity l div 2)\<rparr>)
         else Inr (res, l))))"

definition u8a_clone :: "grant \<Rightarrow> grant \<Rightarrow> U8ArrayList \<Rightarrow> fault + U8ArrayList" where
  "u8a_clone g g' arr =
     bindE (u8a_create g g' (u8_length arr)) (\<lambda>newarr.
     u8a_append_loop newarr (u8_array arr) 0 (unat (u8_length arr)))"

subsection \<open>Invariant, contents and operations of \<open>U8ArrayList\<close>\<close>

definition u8a_inv :: "U8ArrayList \<Rightarrow> bool" where
  "u8a_inv l \<longleftrightarrow>
     u8_length l \<le> u8_capacity l \<and> kinit (Suc 0) (u8_array l) (unat (u8_length l)) \<and>
     (case u8_array l of None \<Rightarrow> u8_capacity l = 0 | Some ob \<Rightarrow> u8_capacity l \<le> osize ob)"

definition u8a_contents :: "U8ArrayList \<Rightarrow> u8 list" where
  "u8a_contents l = kcontents (u8_array l) (unat (u8_length l))"

lemma u8a_inv_Some:
  "u8a_inv \<lparr>u8_length = n, u8_capacity = c, u8_array = Some ob\<rparr> \<longleftrightarrow>
   n \<le> c \<and> c \<le> osize ob \<and> (\<forall>i < unat n. cells ob i \<noteq> None)"
  by (auto simp: u8a_inv_def kinit_def u32_le_unat)

lemma length_u8a_contents: "u8a_inv l \<Longrightarrow> length (u8a_contents l) = unat (u8_length l)"
  by (auto simp: u8a_inv_def u8a_contents_def kcontents_def u32_le_unat split: option.splits)

lemma u8a_get_contents:
  assumes "u8a_inv l" and "i < u8_length l"
  shows "u8a_get l i = Inr (u8a_contents l ! unat i)"
  using assms kinit_kread [of "Suc 0" "u8_array l" "unat (u8_length l)" "unat i"]
  by (simp add: u8a_inv_def u8a_get_def u8a_contents_def u32_less_unat)

lemma unat_grown_capacity:
  assumes "unat cap < 2147483648"
  shows "unat (grown_capacity cap) = max (unat cap + unat cap div 4) (unat cap + 2)"
proof -
  have d: "unat (drop_bit 2 cap) = unat cap div 4"
    by (simp add: unat_drop_bit)
  have a: "unat (cap + drop_bit 2 cap) = unat cap + unat cap div 4"
    using assms by (subst unat_add_no_wrap) (simp_all add: d)
  have b: "unat (cap + 2) = unat cap + 2"
    using assms by (subst unat_add_no_wrap) simp_all
  show ?thesis
    by (simp add: grown_capacity_def u32_less_unat a b)
qed

lemma grown_capacity_gt: "unat cap < 2147483648 \<Longrightarrow> cap < grown_capacity cap"
  by (simp add: u32_less_unat unat_grown_capacity)

text \<open>The write and the increment that end a push, on a list with room in its object.\<close>

lemma u8a_store_ok:
  fixes x :: u8
  assumes inv: "u8a_inv l" and arr: "u8_array l = Some ob"
    and room: "u8_length l < osize ob" and cap: "u8_length l < u8_capacity l"
  defines "l' \<equiv> l\<lparr>u8_array := Some (ob\<lparr>cells := (cells ob)(unat (u8_length l) := Some x)\<rparr>),
                 u8_length := u8_length l + 1\<rparr>"
  shows "wr8 (u8_array l) (unat (u8_length l)) x = Inr (u8_array l')"
    and "u8a_inv l'" and "u8a_contents l' = u8a_contents l @ [x]"
proof -
  let ?n = "unat (u8_length l)"
  have n: "unat (u8_length l + 1) = Suc ?n"
    using cap u32_unat_lt [of "u8_capacity l"] by (intro unat_Suc_u32) (simp add: u32_less_unat)
  show "wr8 (u8_array l) ?n x = Inr (u8_array l')"
    using room by (simp add: arr l'_def kwrite_def in_object_def u32_less_unat)
  show "u8a_inv l'"
    using inv cap n arr
    by (auto simp: l'_def u8a_inv_def kinit_def u32_order_unat less_Suc_eq)
  show "u8a_contents l' = u8a_contents l @ [x]"
    by (simp add: l'_def u8a_contents_def n arr kcontents_Suc kcontents_upd_ge)
qed

text \<open>The list a push writes to, after the growth step, holds the same bytes.\<close>

lemma u8a_grow_ok:
  assumes heap: "kheap g" and inv: "u8a_inv l" and gt: "u8_capacity l < new_size"
    and re: "krealloc (Suc 0) g (u8_array l) new_size = Some ob"
  defines "l' \<equiv> l\<lparr>u8_capacity := new_size, u8_array := Some ob\<rparr>"
  shows "u8a_inv l'" and "u8a_contents l' = u8a_contents l" and "new_size \<le> osize ob"
proof -
  show ge: "new_size \<le> osize ob"
    using kheap.krealloc_size_ge [OF heap re] .
  have same: "cells ob i = cells ob0 i"
    if "u8_array l = Some ob0" and "i < unat (u8_length l)" for ob0 i
    using that inv re krealloc_keeps [of "Suc 0" g ob0 new_size ob i]
    by (auto simp: u8a_inv_def kinit_def in_object_def u32_le_unat)
  show "u8a_inv l'"
    using inv gt ge same
    by (cases "u8_array l") (auto simp: l'_def u8a_inv_def kinit_def u32_order_unat)
  show "u8a_contents l' = u8a_contents l"
    using inv same
    by (cases "u8_array l")
       (auto simp: l'_def u8a_contents_def u8a_inv_def kcontents_def u32_le_unat)
qed

lemma u8a_push_ok:
  assumes heap: "kheap g" and inv: "u8a_inv l" and push: "u8a_push g l x = Inr (n, l')"
  shows "u8a_inv l' \<and> u8a_contents l' = u8a_contents l @ [x] \<and> n = u8_length l' \<and>
         u8_length l' = u8_length l + 1"
proof (cases "u8_capacity l = 0 \<or> u8_length l \<ge> u8_capacity l - 1")
  case True
  let ?c = "grown_capacity (u8_capacity l)"
  from push True obtain ob where gt: "u8_capacity l < ?c"
    and re: "krealloc (Suc 0) g (u8_array l) ?c = Some ob"
    by (cases "krealloc (Suc 0) g (u8_array l) ?c")
       (auto simp: u8a_push_def Let_def bindE_Inr_iff kwrite_NULL)
  define m where "m = l\<lparr>u8_capacity := ?c, u8_array := Some ob\<rparr>"
  note grow = u8a_grow_ok [OF heap inv gt re, folded m_def]
  have arr: "u8_array m = Some ob" and len: "u8_length m = u8_length l"
    by (simp_all add: m_def)
  have cap: "u8_length m < u8_capacity m"
    using inv gt by (simp add: m_def u8a_inv_def u32_order_unat)
  with grow(3) have room: "u8_length m < osize ob"
    by (simp add: m_def u32_order_unat)
  note st = u8a_store_ok [OF grow(1) arr room cap, of x]
  from push True gt re have "bindE (wr8 (u8_array m) (unat (u8_length m)) x) (\<lambda>arr.
       Inr (u8_length m + 1, m\<lparr>u8_array := arr, u8_length := u8_length m + 1\<rparr>)) = Inr (n, l')"
    by (simp add: u8a_push_def Let_def m_def)
  with st(1) have "l' = m\<lparr>u8_array := Some (ob\<lparr>cells := (cells ob)(unat (u8_length m) := Some x)\<rparr>),
      u8_length := u8_length m + 1\<rparr>" and "n = u8_length m + 1"
    by (auto simp: bindE_Inr_iff)
  with st(2,3) grow(2) len show ?thesis by simp
next
  case False
  with inv obtain ob where arr: "u8_array l = Some ob"
    by (auto simp: u8a_inv_def split: option.splits)
  from False inv have cap: "u8_length l < u8_capacity l"
    by (auto simp: u32_order_unat unat_minus_one)
  with inv arr have room: "u8_length l < osize ob"
    by (simp add: u8a_inv_def u32_order_unat)
  note st = u8a_store_ok [OF inv arr room cap, of x]
  from push False st(1) show ?thesis
    using st(2,3) by (auto simp: u8a_push_def bindE_Inr_iff)
qed

text \<open>
  With a heap that always grants the request, a push returns; only a capacity beyond
  \<open>2^31\<close> could stop it (its growth would wrap and the assertion fail).
\<close>

lemma u8a_push_total:
  assumes heap: "kheap g" and grants: "\<And>n. g n \<noteq> None" and inv: "u8a_inv l"
    and small: "unat (u8_capacity l) < 2147483648"
  shows "\<exists>n l'. u8a_push g l x = Inr (n, l')"
proof (cases "u8_capacity l = 0 \<or> u8_length l \<ge> u8_capacity l - 1")
  case True
  let ?c = "grown_capacity (u8_capacity l)"
  note gt = grown_capacity_gt [OF small]
  then have "?c \<noteq> 0" by (auto simp: u32_order_unat)
  then obtain ob where re: "krealloc (Suc 0) g (u8_array l) ?c = Some ob"
    using grants [of ?c]
    by (cases "krealloc (Suc 0) g (u8_array l) ?c")
       (auto simp: krealloc_def kmalloc_def Let_def split: option.splits if_splits)
  have "?c \<le> osize ob" by (rule kheap.krealloc_size_ge [OF heap re])
  with gt inv have "in_object (Suc 0) ob (unat (u8_length l))"
    by (simp add: in_object_def u8a_inv_def u32_order_unat)
  with True gt re show ?thesis
    by (simp add: u8a_push_def Let_def kwrite_Some)
next
  case False
  with inv obtain ob where arr: "u8_array l = Some ob"
    by (auto simp: u8a_inv_def split: option.splits)
  from False have "u8_length l < u8_capacity l"
    by (auto simp: u32_order_unat unat_minus_one)
  with inv arr have "in_object (Suc 0) ob (unat (u8_length l))"
    by (simp add: in_object_def u8a_inv_def u32_order_unat)
  with False arr show ?thesis by (simp add: u8a_push_def kwrite_Some)
qed

lemma u8a_append_loop_ok:
  assumes "u8a_inv l" and "kinit (Suc 0) src (i + n)"
    and "unat (u8_length l) + n \<le> unat (u8_capacity l)"
  shows "\<exists>l'. u8a_append_loop l src i n = Inr l' \<and> u8a_inv l' \<and>
          u8_capacity l' = u8_capacity l \<and>
          u8a_contents l' = u8a_contents l @ drop i (kcontents src (i + n))"
  using assms
proof (induction n arbitrary: l i)
  case 0
  then show ?case by (cases src) (auto simp: kcontents_def)
next
  case (Suc n)
  from Suc.prems(1,3) obtain ob where arr: "u8_array l = Some ob"
    by (cases "u8_array l") (auto simp: u8a_inv_def)
  from Suc.prems(3) have cap: "u8_length l < u8_capacity l"
    by (simp add: u32_order_unat)
  with Suc.prems(1) arr have room: "u8_length l < osize ob"
    by (simp add: u8a_inv_def u32_order_unat)
  define c where "c = kcontents src (i + Suc n) ! i"
  have rd: "rd8 src i = Inr c"
    unfolding c_def by (rule kinit_kread [OF Suc.prems(2)]) simp
  define m where "m = l\<lparr>u8_array := Some (ob\<lparr>cells := (cells ob)(unat (u8_length l) := Some c)\<rparr>),
                 u8_length := u8_length l + 1\<rparr>"
  note st = u8a_store_ok [OF Suc.prems(1) arr room cap, of c, folded m_def]
  have "unat (u8_length m) = Suc (unat (u8_length l))"
    using cap u32_unat_lt [of "u8_capacity l"]
    by (simp add: m_def unat_Suc_u32 u32_less_unat)
  with Suc.prems have "\<exists>l'. u8a_append_loop m src (Suc i) n = Inr l' \<and> u8a_inv l' \<and>
      u8_capacity l' = u8_capacity m \<and>
      u8a_contents l' = u8a_contents m @ drop (Suc i) (kcontents src (Suc i + n))"
    by (intro Suc.IH st(2)) (simp_all add: m_def)
  moreover have "drop i (kcontents src (i + Suc n)) = c # drop (Suc i) (kcontents src (Suc i + n))"
    using Suc.prems(2)
    by (auto simp: c_def kinit_def Cons_nth_drop_Suc)
  ultimately show ?case
    using rd st(1,3) by (auto simp: m_def)
qed

text \<open>\<open>u8a_resize\<close> keeps the bytes that fit, where the heap gives the new block.\<close>

lemma u8a_resize_ok:
  assumes heap: "kheap g" and inv: "u8a_inv l"
    and re: "new_size = 0 \<or> krealloc (Suc 0) g (u8_array l) new_size \<noteq> None"
    and nn: "u8_array l \<noteq> None \<or> new_size \<noteq> 0"
  shows "u8a_inv (u8a_resize g l new_size) \<and>
         u8a_contents (u8a_resize g l new_size) = take (unat new_size) (u8a_contents l) \<and>
         u8_capacity (u8a_resize g l new_size) = new_size"
proof (cases "new_size = 0")
  case True
  with nn show ?thesis
    by (auto simp: u8a_resize_def Let_def krealloc_zero u8a_inv_def u8a_contents_def
        word_gt_0 kcontents_def)
next
  case False
  with re obtain ob where ob: "krealloc (Suc 0) g (u8_array l) new_size = Some ob" by blast
  have ge: "new_size \<le> osize ob" by (rule kheap.krealloc_size_ge [OF heap ob])
  have same: "cells ob i = cells ob0 i"
    if "u8_array l = Some ob0" and "i < unat (u8_length l)" for ob0 i
    using that inv ob krealloc_keeps [of "Suc 0" g ob0 new_size ob i]
    by (auto simp: u8a_inv_def kinit_def in_object_def u32_le_unat)
  let ?n = "if u8_length l > new_size then new_size else u8_length l"
  have l': "u8a_resize g l new_size =
      l\<lparr>u8_array := Some ob, u8_capacity := new_size, u8_length := ?n\<rparr>"
    by (simp add: u8a_resize_def Let_def ob)
  show ?thesis
  proof (cases "u8_array l")
    case None
    with inv have "u8_length l = 0" by (auto simp: u8a_inv_def)
    with None ge show ?thesis
      by (auto simp: l' u8a_inv_def u8a_contents_def kcontents_def word_gt_0)
  next
    case (Some ob0)
    have "u8a_inv (u8a_resize g l new_size)"
      using inv ge same Some by (auto simp: l' u8a_inv_def kinit_def u32_order_unat)
    moreover have "u8a_contents (u8a_resize g l new_size) = take (unat new_size) (u8a_contents l)"
      using same Some by (auto simp: l' u8a_contents_def kcontents_def u32_order_unat take_map)
    ultimately show ?thesis by (simp add: l')
  qed
qed

text \<open>\<open>u8a_push_string\<close> appends the characters of the string, without its terminator.\<close>

lemma cstr_kinit: "cstr p 0 xs \<Longrightarrow> kinit (Suc 0) p (length xs)"
  by (auto simp: cstr_def kinit_def)

lemma cstr_kcontents: "cstr p 0 xs \<Longrightarrow> kcontents p (length xs) = xs"
  by (auto simp: cstr_def kcontents_def intro: nth_equalityI)

lemma u8a_push_string_ok:
  assumes heap: "kheap g" and inv: "u8a_inv l" and str: "cstr d 0 xs" and ne: "xs \<noteq> []"
    and fits: "unat (u8_length l) + length xs < 4294967296"
    and re: "krealloc (Suc 0) g (u8_array l) (u8_length l + of_nat (length xs)) \<noteq> None"
  shows "\<exists>l'. u8a_push_string g l d = Inr (u8_length l', l') \<and> u8a_inv l' \<and>
           u8a_contents l' = u8a_contents l @ xs"
proof -
  let ?n = "u8_length l + of_nat (length xs)"
  have n: "unat (of_nat (length xs) :: u32) = length xs"
    using fits by (intro unat_of_nat_u32) simp
  have un: "unat ?n = unat (u8_length l) + length xs"
    using fits by (subst unat_add_no_wrap) (simp_all add: n)
  have "?n \<noteq> 0" using un ne by (metis add_is_0 length_0_conv unat_eq_zero)
  note rs = u8a_resize_ok [OF heap inv, of ?n, OF disjI2 [OF re] disjI2 [OF this]]
  have keep: "u8a_contents (u8a_resize g l ?n) = u8a_contents l"
    using rs inv by (simp add: un length_u8a_contents)
  then have len: "unat (u8_length (u8a_resize g l ?n)) = unat (u8_length l)"
    using rs inv length_u8a_contents by metis
  have "\<exists>l'. u8a_append_loop (u8a_resize g l ?n) d 0 (length xs) = Inr l' \<and> u8a_inv l' \<and>
      u8_capacity l' = u8_capacity (u8a_resize g l ?n) \<and>
      u8a_contents l' = u8a_contents (u8a_resize g l ?n) @ drop 0 (kcontents d (0 + length xs))"
    using rs str by (intro u8a_append_loop_ok) (simp_all add: cstr_kinit len un)
  then show ?thesis
    using str by (auto simp: u8a_push_string_def strlen_cstr n keep cstr_kcontents)
qed

lemma u8a_create_inv:
  assumes "kheap g'" and "u8a_create g g' n = Inr l" and "u8_array l \<noteq> None"
  shows "u8a_inv l \<and> u8a_contents l = [] \<and> u8_capacity l = n"
  using assms kheap.kmalloc_size_ge [OF assms(1), where 'a = "u8"]
  by (auto simp: u8a_create_def u8a_inv_def u8a_contents_def split: if_splits option.splits)

lemma u8a_clone_ok:
  assumes heap: "kheap g'" and inv: "u8a_inv l"
    and "g list_struct_size \<noteq> None" and "g' (u8_length l) \<noteq> None"
  shows "\<exists>c. u8a_clone g g' l = Inr c \<and> u8a_inv c \<and> u8a_contents c = u8a_contents l"
proof -
  obtain c where c: "u8a_create g g' (u8_length l) = Inr c" and na: "u8_array c \<noteq> None"
    and c0: "u8_length c = 0"
    using assms(3,4) by (auto simp: u8a_create_def kmalloc_def)
  note ci = u8a_create_inv [OF heap c na]
  have "\<exists>c'. u8a_append_loop c (u8_array l) 0 (unat (u8_length l)) = Inr c' \<and> u8a_inv c' \<and>
      u8_capacity c' = u8_capacity c \<and>
      u8a_contents c' = u8a_contents c @ drop 0 (kcontents (u8_array l) (0 + unat (u8_length l)))"
    using ci inv by (intro u8a_append_loop_ok) (simp_all add: u8a_inv_def c0)
  with c ci show ?thesis by (auto simp: u8a_clone_def u8a_contents_def)
qed

lemma u8a_pop_ok:
  assumes heap: "kheap g" and inv: "u8a_inv l" and ne: "u8_length l \<noteq> 0"
  shows "\<exists>l'. u8a_pop g l = Inr (last (u8a_contents l), l') \<and> u8a_inv l' \<and>
           u8a_contents l' = butlast (u8a_contents l)"
proof -
  let ?n = "u8_length l - 1"
  have n: "unat (u8_length l) = Suc (unat ?n)" using ne by (simp add: unat_minus_one unat_gt_0)
  from inv n obtain ob where arr: "u8_array l = Some ob"
    and ini: "\<And>i. i \<le> unat ?n \<Longrightarrow> cells ob i \<noteq> None" and sz: "unat (u8_length l) \<le> unat (osize ob)"
    by (auto simp: u8a_inv_def kinit_def)
  have con: "u8a_contents l = kcontents (Some ob) (unat ?n) @ [the (cells ob (unat ?n))]"
    by (simp add: u8a_contents_def arr n kcontents_Suc)
  have rd: "rd8 (Some ob) (unat ?n) = Inr (the (cells ob (unat ?n)))"
    using ini [of "unat ?n"] sz n by (auto simp: kread_def in_object_def)
  have shr: "krealloc (Suc 0) g (Some ob) (u8_capacity l div 2) = Some ob"
    if "?n < u8_capacity l div 2"
  proof (rule krealloc_same)
    show "u8_capacity l div 2 \<noteq> 0" using that by auto
    show "u8_capacity l div 2 \<le> osize ob"
      using inv arr by (auto simp: u8a_inv_def u32_order_unat unat_div intro: le_trans [OF div_le_dividend])
  qed
  show ?thesis
    using ne rd shr inv ini n arr
    by (auto simp: u8a_pop_def Let_def con u8a_contents_def u8a_inv_def kinit_def u32_order_unat
        unat_div kcontents_Suc)
qed

text \<open>A push followed by a pop gives the byte and the list back.\<close>

lemma u8a_push_pop:
  assumes "kheap g" and "kheap g'" and "u8a_inv l" and "u8a_push g l x = Inr (n, l')"
    and "u8_length l' \<noteq> 0"
  shows "\<exists>l''. u8a_pop g' l' = Inr (x, l'') \<and> u8a_contents l'' = u8a_contents l"
  using u8a_push_ok [OF assms(1,3,4)] u8a_pop_ok [OF assms(2) _ assms(5)] by fastforce


subsection \<open>\<open>VPArrayList\<close>\<close>

record VPArrayList =
  vp_length :: u32
  vp_capacity :: u32
  vp_array :: "u32 kptr"

definition vpa_create :: "grant \<Rightarrow> grant \<Rightarrow> u32 \<Rightarrow> fault + VPArrayList" where
  "vpa_create g g' initial_cap =
     (if g list_struct_size = None then Inl NullDeref
      else Inr \<lparr>vp_length = 0, vp_capacity = initial_cap,
                vp_array = kmalloc g' (initial_cap * 4)\<rparr>)"

text \<open>The elements a loop hands to the caller's free function, in the order of the calls.\<close>

fun vpa_read_list :: "VPArrayList \<Rightarrow> nat list \<Rightarrow> fault + u32 list" where
  "vpa_read_list l [] = Inr []"
| "vpa_read_list l (i # is) =
     bindE (rd32 (vp_array l) i) (\<lambda>v. bindE (vpa_read_list l is) (\<lambda>vs. Inr (v # vs)))"

text \<open>\<open>vpa_free\<close>: the calls of \<open>freefunc\<close> (when it is not \<open>NULL\<close>); the array and the struct go to \<open>kfree\<close>.\<close>

definition vpa_free :: "VPArrayList \<Rightarrow> bool \<Rightarrow> fault + u32 list" where
  "vpa_free arr has_freefunc =
     (if has_freefunc then vpa_read_list arr [0..<unat (vp_length arr)] else Inr [])"

definition vpa_get :: "VPArrayList \<Rightarrow> u32 \<Rightarrow> fault + u32" where
  "vpa_get l index = rd32 (vp_array l) (unat index)"

definition vpa_set :: "VPArrayList \<Rightarrow> u32 \<Rightarrow> u32 \<Rightarrow> fault + VPArrayList" where
  "vpa_set l index data =
     bindE (wr32 (vp_array l) (unat index) data) (\<lambda>arr. Inr (l\<lparr>vp_array := arr\<rparr>))"

text \<open>Unlike \<open>u8a_push\<close>, the element is written first and the array grown afterwards.\<close>

definition vpa_push :: "grant \<Rightarrow> VPArrayList \<Rightarrow> u32 \<Rightarrow> fault + (u32 \<times> VPArrayList)" where
  "vpa_push g l data =
     bindE (wr32 (vp_array l) (unat (vp_length l)) data) (\<lambda>arr.
     (let l = l\<lparr>vp_array := arr, vp_length := vp_length l + 1\<rparr> in
      if vp_length l \<ge> vp_capacity l
      then
        (let new_size = grown_capacity (vp_capacity l) in
         bindE (assertE (new_size > vp_capacity l)) (\<lambda>_.
         Inr (vp_length l, l\<lparr>vp_capacity := new_size,
                             vp_array := krealloc 4 g (vp_array l) (new_size * 4)\<rparr>)))
      else Inr (vp_length l, l)))"

definition vpa_pop :: "grant \<Rightarrow> VPArrayList \<Rightarrow> fault + (u32 \<times> VPArrayList)" where
  "vpa_pop g l =
     (if vp_length l = 0 then Inr (0, l)
      else
        (let l = l\<lparr>vp_length := vp_length l - 1\<rparr> in
         bindE (rd32 (vp_array l) (unat (vp_length l))) (\<lambda>res.
         if vp_length l < vp_capacity l div 2
         then
           (let c = vp_capacity l div 2 in
            Inr (res, l\<lparr>vp_capacity := c, vp_array := krealloc 4 g (vp_array l) (c * 4)\<rparr>))
         else Inr (res, l))))"

text \<open>
  \<open>vpa_resize\<close>: the calls of \<open>freeFunc\<close> run from index \<open>length\<close> down to \<open>capacity + 1\<close>, and
  the array is reallocated to \<open>new_size\<close> bytes (not elements).
\<close>

definition vpa_resize ::
    "grant \<Rightarrow> VPArrayList \<Rightarrow> u32 \<Rightarrow> bool \<Rightarrow> fault + (u32 list \<times> VPArrayList)" where
  "vpa_resize g l new_size has_freefunc =
     (let l = l\<lparr>vp_capacity := new_size\<rparr> in
      bindE
        (if vp_length l > vp_capacity l
         then bindE
                (if has_freefunc
                 then vpa_read_list l
                        (rev [Suc (unat (vp_capacity l))..<Suc (unat (vp_length l))])
                 else Inr [])
                (\<lambda>freed. Inr (freed, l\<lparr>vp_length := vp_capacity l\<rparr>))
         else Inr ([], l))
        (\<lambda>(freed, l). Inr (freed, l\<lparr>vp_array := krealloc 4 g (vp_array l) new_size\<rparr>)))"

subsection \<open>Invariant, contents and operations of \<open>VPArrayList\<close>\<close>

text \<open>Between operations there is always room for one more element.\<close>

definition vpa_inv :: "VPArrayList \<Rightarrow> bool" where
  "vpa_inv l \<longleftrightarrow>
     vp_length l < vp_capacity l \<and>
     (case vp_array l of
        None \<Rightarrow> False
      | Some ob \<Rightarrow> 4 * unat (vp_capacity l) \<le> unat (osize ob) \<and>
                   (\<forall>i < unat (vp_length l). cells ob i \<noteq> None))"

definition vpa_contents :: "VPArrayList \<Rightarrow> u32 list" where
  "vpa_contents l = kcontents (vp_array l) (unat (vp_length l))"

lemma vpa_invE:
  assumes "vpa_inv l"
  obtains ob where "vp_array l = Some ob" and "4 * unat (vp_capacity l) \<le> unat (osize ob)"
    and "unat (vp_length l) < unat (vp_capacity l)"
    and "\<forall>i < unat (vp_length l). cells ob i \<noteq> None"
  using assms by (auto simp: vpa_inv_def u32_less_unat split: option.splits)

lemma length_vpa_contents: "vpa_inv l \<Longrightarrow> length (vpa_contents l) = unat (vp_length l)"
  by (auto simp: vpa_contents_def elim: vpa_invE)

lemma vpa_get_contents:
  assumes "vpa_inv l" and "i < length (vpa_contents l)"
  shows "vpa_get l (of_nat i) = Inr (vpa_contents l ! i)"
proof -
  from assms(1) obtain ob where ob: "vp_array l = Some ob"
      "4 * unat (vp_capacity l) \<le> unat (osize ob)" "unat (vp_length l) < unat (vp_capacity l)"
    and ini: "\<forall>i < unat (vp_length l). cells ob i \<noteq> None"
    by (rule vpa_invE)
  from assms have i: "i < unat (vp_length l)" by (simp add: length_vpa_contents)
  then have "unat (of_nat i :: u32) = i"
    using u32_unat_lt [of "vp_length l"] by (intro unat_of_nat_u32) simp
  with ob i ini show ?thesis
    by (auto simp: vpa_get_def kread_def in_object_def vpa_contents_def kcontents_nth)
qed

lemma vpa_length_Suc: "vpa_inv l \<Longrightarrow> unat (vp_length l + 1) = Suc (unat (vp_length l))"
  using u32_unat_lt [of "vp_capacity l"]
  by (intro unat_Suc_u32) (auto simp: vpa_inv_def u32_less_unat)

text \<open>The write that starts a push; afterwards the array may be full.\<close>

lemma vpa_store_ok:
  fixes x :: u32
  assumes inv: "vpa_inv l" and arr: "vp_array l = Some ob"
  defines "ob' \<equiv> ob\<lparr>cells := (cells ob)(unat (vp_length l) := Some x)\<rparr>"
  shows "wr32 (vp_array l) (unat (vp_length l)) x = Inr (Some ob')"
    and "\<And>i. i < Suc (unat (vp_length l)) \<Longrightarrow> cells ob' i \<noteq> None"
    and "kcontents (Some ob') (Suc (unat (vp_length l))) = vpa_contents l @ [x]"
proof -
  from inv arr have cap: "4 * unat (vp_capacity l) \<le> unat (osize ob)"
    and len: "unat (vp_length l) < unat (vp_capacity l)"
    and ini: "\<forall>i < unat (vp_length l). cells ob i \<noteq> None"
    by (auto elim: vpa_invE)
  show "wr32 (vp_array l) (unat (vp_length l)) x = Inr (Some ob')"
    using cap len by (simp add: arr kwrite_def in_object_def ob'_def)
  show "\<And>i. i < Suc (unat (vp_length l)) \<Longrightarrow> cells ob' i \<noteq> None"
    using ini by (auto simp: ob'_def less_Suc_eq)
  show "kcontents (Some ob') (Suc (unat (vp_length l))) = vpa_contents l @ [x]"
    by (simp add: ob'_def vpa_contents_def arr kcontents_Suc kcontents_upd_ge)
qed

lemma vpa_push_total:
  assumes heap: "kheap g" and grants: "\<And>n. g n \<noteq> None" and inv: "vpa_inv l"
    and small: "length (vpa_contents l) < 500000000"
  shows "\<exists>n l'. vpa_push g l x = Inr (n, l') \<and> vpa_inv l' \<and>
           vpa_contents l' = vpa_contents l @ [x] \<and> n = vp_length l'"
proof -
  from inv obtain ob where arr: "vp_array l = Some ob"
    and cap: "4 * unat (vp_capacity l) \<le> unat (osize ob)"
    and len: "unat (vp_length l) < unat (vp_capacity l)"
    and "\<forall>i < unat (vp_length l). cells ob i \<noteq> None" by (rule vpa_invE)
  let ?n = "unat (vp_length l)"
  let ?ob = "ob\<lparr>cells := (cells ob)(?n := Some x)\<rparr>"
  note st = vpa_store_ok [OF inv arr, where x = x] vpa_length_Suc [OF inv]
  show ?thesis
  proof (cases "Suc ?n \<ge> unat (vp_capacity l)")
    case False
    with st cap show ?thesis
      by (auto simp: vpa_push_def Let_def u32_order_unat vpa_inv_def vpa_contents_def)
  next
    case True
    let ?c = "grown_capacity (vp_capacity l)"
    from True small inv len have c: "unat (vp_capacity l) < 600000000"
      by (simp add: length_vpa_contents)
    then have cap': "unat ?c = max (unat (vp_capacity l) + unat (vp_capacity l) div 4)
                                  (unat (vp_capacity l) + 2)"
      by (intro unat_grown_capacity) simp
    then have gt: "vp_capacity l < ?c" by (simp add: u32_less_unat)
    have c4: "unat (?c * 4) = unat ?c * 4"
      using c cap' by (subst unat_mult_no_wrap) simp_all
    obtain ob2 where re: "krealloc 4 g (Some ?ob) (?c * 4) = Some ob2"
      using grants [of "?c * 4"] gt c4
      by (cases "krealloc 4 g (Some ?ob) (?c * 4)")
         (auto simp: krealloc_def kmalloc_def Let_def u32_order_unat split: option.splits if_splits
            simp flip: unat_eq_zero)
    have "?c * 4 \<le> osize ob2" by (rule kheap.krealloc_size_ge [OF heap re])
    then have sz: "4 * unat ?c \<le> unat (osize ob2)" by (simp add: u32_order_unat c4)
    have same: "cells ob2 i = cells ?ob i" if "i < Suc ?n" for i
      using that cap len krealloc_keeps [OF re, of i] by (auto simp: in_object_def)
    from same have con: "kcontents (Some ob2) (Suc ?n) = kcontents (Some ?ob) (Suc ?n)"
      by (intro kcontents_cong) simp
    have ini: "\<And>i. i < Suc ?n \<Longrightarrow> cells ob2 i \<noteq> None"
      using same st(2) by simp
    from True len have eq: "Suc ?n = unat (vp_capacity l)" by simp
    then show ?thesis
      using st(1,3,4) gt re sz con ini
      by (auto simp: vpa_push_def Let_def u32_order_unat vpa_inv_def vpa_contents_def)
  qed
qed

lemma vpa_pop_ok:
  assumes inv: "vpa_inv l" and ne: "vpa_contents l \<noteq> []"
  shows "\<exists>l'. vpa_pop g l = Inr (last (vpa_contents l), l') \<and> vpa_inv l' \<and>
           vpa_contents l' = butlast (vpa_contents l)"
proof -
  from inv obtain ob where arr: "vp_array l = Some ob"
    and cap: "4 * unat (vp_capacity l) \<le> unat (osize ob)"
    and len: "unat (vp_length l) < unat (vp_capacity l)"
    and ini: "\<forall>i < unat (vp_length l). cells ob i \<noteq> None" by (rule vpa_invE)
  let ?n = "vp_length l - 1"
  from ne have nz: "vp_length l \<noteq> 0" by (auto simp: vpa_contents_def)
  then have n: "unat (vp_length l) = Suc (unat ?n)" by (simp add: unat_minus_one unat_gt_0)
  have con: "vpa_contents l = kcontents (Some ob) (unat ?n) @ [the (cells ob (unat ?n))]"
    by (simp add: vpa_contents_def arr n kcontents_Suc)
  have rd: "rd32 (Some ob) (unat ?n) = Inr (the (cells ob (unat ?n)))"
    using ini cap len n by (auto simp: kread_def in_object_def)
  have h4: "unat (vp_capacity l div 2 * 4) = unat (vp_capacity l) div 2 * 4"
    using cap u32_unat_lt [of "osize ob"] by (subst unat_mult_no_wrap) (simp_all add: unat_div)
  have shr: "krealloc 4 g (Some ob) (vp_capacity l div 2 * 4) = Some ob"
    if "unat ?n < unat (vp_capacity l) div 2"
  proof (rule krealloc_same)
    show "vp_capacity l div 2 * 4 \<noteq> 0" using that h4 by (auto simp flip: unat_eq_zero)
    show "vp_capacity l div 2 * 4 \<le> osize ob"
      using cap by (simp add: u32_order_unat h4)
  qed
  show ?thesis
    using nz rd shr cap len ini n arr h4
    by (auto simp: vpa_pop_def Let_def con vpa_contents_def vpa_inv_def u32_order_unat unat_div
        kcontents_Suc)
qed


subsection \<open>The contract both lists share\<close>

text \<open>
  What the file system relies on when it fills a list: pushes append and never lose an
  element, a read returns what was pushed, a pop undoes a push. \<open>limit\<close> is the number of
  elements up to which the growth arithmetic cannot wrap.
\<close>

locale growable_array =
  fixes inv :: "'l \<Rightarrow> bool" and contents :: "'l \<Rightarrow> 'x list"
    and push :: "grant \<Rightarrow> 'l \<Rightarrow> 'x \<Rightarrow> fault + (u32 \<times> 'l)"
    and pop :: "grant \<Rightarrow> 'l \<Rightarrow> fault + ('x \<times> 'l)"
    and read_at :: "'l \<Rightarrow> u32 \<Rightarrow> fault + 'x"
    and limit :: nat
  assumes push_law: "kheap g \<Longrightarrow> (\<And>n. g n \<noteq> None) \<Longrightarrow> inv l \<Longrightarrow> length (contents l) < limit \<Longrightarrow>
      \<exists>n l'. push g l x = Inr (n, l') \<and> inv l' \<and> contents l' = contents l @ [x] \<and>
             unat n = length (contents l')"
    and pop_law: "kheap g \<Longrightarrow> inv l \<Longrightarrow> contents l \<noteq> [] \<Longrightarrow>
      \<exists>l'. pop g l = Inr (last (contents l), l') \<and> inv l' \<and> contents l' = butlast (contents l)"
    and read_law: "inv l \<Longrightarrow> i < length (contents l) \<Longrightarrow> read_at l (of_nat i) = Inr (contents l ! i)"
begin

fun push_all :: "grant \<Rightarrow> 'l \<Rightarrow> 'x list \<Rightarrow> fault + 'l" where
  "push_all g l [] = Inr l"
| "push_all g l (x # xs) = bindE (push g l x) (\<lambda>(_, l'). push_all g l' xs)"

fun pop_many :: "grant \<Rightarrow> 'l \<Rightarrow> nat \<Rightarrow> fault + ('x list \<times> 'l)" where
  "pop_many g l 0 = Inr ([], l)"
| "pop_many g l (Suc n) =
     bindE (pop g l) (\<lambda>(x, l'). bindE (pop_many g l' n) (\<lambda>(xs, l''). Inr (x # xs, l'')))"

lemma push_all_appends:
  assumes "kheap g" and "\<And>n. g n \<noteq> None" and "inv l"
    and "length (contents l) + length xs \<le> limit"
  shows "\<exists>l'. push_all g l xs = Inr l' \<and> inv l' \<and> contents l' = contents l @ xs"
  using assms(3,4)
proof (induction xs arbitrary: l)
  case (Cons x xs)
  from push_law [OF assms(1,2) Cons.prems(1), of x] Cons.prems(2)
  obtain n l' where "push g l x = Inr (n, l')" "inv l'" "contents l' = contents l @ [x]"
    by auto
  with Cons.IH [of l'] Cons.prems(2) show ?case by auto
qed simp

lemma pop_many_reverses:
  assumes "kheap g" and "inv l" and "contents l = xs @ ys"
  shows "\<exists>l'. pop_many g l (length ys) = Inr (rev ys, l') \<and> inv l' \<and> contents l' = xs"
  using assms(2,3)
proof (induction ys arbitrary: l rule: rev_induct)
  case (snoc y ys)
  from pop_law [OF assms(1) snoc.prems(1)] snoc.prems(2)
  obtain l' where "pop g l = Inr (y, l')" "inv l'" "contents l' = xs @ ys"
    by (auto simp: butlast_append)
  with snoc.IH [of l'] show ?case by auto
qed simp

lemma push_all_read:
  assumes "kheap g" and "\<And>n. g n \<noteq> None" and "inv l" and "contents l = []"
    and "length xs \<le> limit" and "i < length xs"
  shows "\<exists>l'. push_all g l xs = Inr l' \<and> read_at l' (of_nat i) = Inr (xs ! i)"
  using push_all_appends [OF assms(1-3), of xs] assms(4-) read_law by fastforce

end

lemma u8a_get_contents_nat:
  assumes "u8a_inv l" and "i < length (u8a_contents l)"
  shows "u8a_get l (of_nat i) = Inr (u8a_contents l ! i)"
proof -
  have "unat (of_nat i :: u32) = i"
    using assms u32_unat_lt [of "u8_length l"]
    by (intro unat_of_nat_u32) (simp add: length_u8a_contents)
  with u8a_get_contents [OF assms(1), of "of_nat i"] assms show ?thesis
    by (simp add: u32_less_unat length_u8a_contents)
qed

lemma u8a_push_law:
  assumes heap: "kheap g" and grants: "\<And>n. g n \<noteq> None" and inv: "u8a_inv l"
    and small: "length (u8a_contents l) < 1000000000"
  shows "\<exists>n l'. u8a_push g l x = Inr (n, l') \<and> u8a_inv l' \<and>
           u8a_contents l' = u8a_contents l @ [x] \<and> unat n = length (u8a_contents l')"
proof -
  have "\<exists>n l'. u8a_push g l x = Inr (n, l')"
    using u8a_push_total [OF heap grants inv, of x] small
  proof (cases "unat (u8_capacity l) < 2147483648")
    case False
    then have nz: "u8_capacity l \<noteq> 0" by auto
    from False small inv have "\<not> (u8_capacity l = 0 \<or> u8_length l \<ge> u8_capacity l - 1)"
      by (auto simp: length_u8a_contents u32_order_unat unat_minus_one [OF nz])
    moreover from False inv obtain ob where "u8_array l = Some ob"
      by (auto simp: u8a_inv_def split: option.splits)
    ultimately show ?thesis
      using inv by (auto simp: u8a_push_def kwrite_def in_object_def u8a_inv_def u32_order_unat
          unat_minus_one [OF nz])
  qed
  then show ?thesis
    using u8a_push_ok [OF heap inv] length_u8a_contents by metis
qed

lemma vpa_push_law:
  assumes "kheap g" and "\<And>n. g n \<noteq> None" and "vpa_inv l"
    and "length (vpa_contents l) < 500000000"
  shows "\<exists>n l'. vpa_push g l x = Inr (n, l') \<and> vpa_inv l' \<and>
           vpa_contents l' = vpa_contents l @ [x] \<and> unat n = length (vpa_contents l')"
  using vpa_push_total [OF assms, of x] length_vpa_contents by metis

lemma u8a_pop_law:
  assumes "kheap g" and "u8a_inv l" and "u8a_contents l \<noteq> []"
  shows "\<exists>l'. u8a_pop g l = Inr (last (u8a_contents l), l') \<and> u8a_inv l' \<and>
           u8a_contents l' = butlast (u8a_contents l)"
proof -
  have "u8_length l \<noteq> 0" using assms(3) by (auto simp: u8a_contents_def)
  with u8a_pop_ok [OF assms(1,2)] show ?thesis .
qed

interpretation u8_list: growable_array u8a_inv u8a_contents u8a_push u8a_pop u8a_get 1000000000
  by unfold_locales (use u8a_push_law u8a_pop_law u8a_get_contents_nat in blast)+

interpretation vp_list: growable_array vpa_inv vpa_contents vpa_push vpa_pop vpa_get 500000000
  by unfold_locales (use vpa_push_law vpa_pop_ok vpa_get_contents in blast)+

end
