(* ===== verification/Linked_List.thy ===== *)
theory Linked_List
  imports Kernel_Objects
begin

section \<open>The singly linked list: \<open>ds/vp_singly_linked_list.c\<close>\<close>

text \<open>
  The links live in a store from addresses to links; an address outside the store is freed
  or was never allocated, and reading it is a fault. \<open>kmalloc\<close> is the address it returns,
  an argument of the operation that allocates. The loops over the links take fuel, because
  a list that a caller has closed to a cycle makes them run forever; on a list without a
  cycle a fuel above its length is enough (\<open>vpsll_contains_ok\<close>, \<open>vpsll_remove_ok\<close>).

  \<open>links H p ps\<close> says that the addresses \<open>ps\<close> are the links from \<open>p\<close> to \<open>NULL\<close>.
\<close>

record VPSinglyLinkedListLink =
  link_data :: u32
  link_next :: ptr

record VPSinglyLinkedList =
  vpsll_head :: ptr
  vpsll_len :: u32

type_synonym link_store = "ptr \<Rightarrow> VPSinglyLinkedListLink option"

definition link_at :: "link_store \<Rightarrow> ptr \<Rightarrow> fault + VPSinglyLinkedListLink" where
  "link_at H p =
     (if p = NULL then Inl NullDeref
      else case H p of None \<Rightarrow> Inl OutOfBounds | Some l \<Rightarrow> Inr l)"

subsection \<open>Operations\<close>

definition vpsll_create :: "ptr \<Rightarrow> fault + VPSinglyLinkedList" where
  "vpsll_create res =
     (if res = NULL then Inl NullDeref else Inr \<lparr>vpsll_head = NULL, vpsll_len = 0\<rparr>)"

text \<open>\<open>vpsll_free\<close>: the data handed to \<open>freef\<close>, in order, and the store without the links.\<close>

fun vpsll_free_loop ::
    "nat \<Rightarrow> link_store \<Rightarrow> ptr \<Rightarrow> fault + (u32 list \<times> link_store)" where
  "vpsll_free_loop 0 H cur = Inl Diverges"
| "vpsll_free_loop (Suc fuel) H cur =
     (if cur = NULL then Inr ([], H)
      else
        bindE (link_at H cur) (\<lambda>l.
        bindE (vpsll_free_loop fuel (H(cur := None)) (link_next l)) (\<lambda>(ds, H').
        Inr (link_data l # ds, H'))))"

definition vpsll_free ::
    "nat \<Rightarrow> link_store \<Rightarrow> VPSinglyLinkedList \<Rightarrow> bool \<Rightarrow> fault + (u32 list \<times> link_store)" where
  "vpsll_free fuel H lst has_freef =
     bindE (vpsll_free_loop fuel H (vpsll_head lst)) (\<lambda>(ds, H').
     Inr (if has_freef then ds else [], H'))"

definition vpsll_push ::
    "link_store \<Rightarrow> VPSinglyLinkedList \<Rightarrow> u32 \<Rightarrow> ptr \<Rightarrow> fault + (link_store \<times> VPSinglyLinkedList)"
where
  "vpsll_push H lst data node =
     (if node = NULL then Inl NullDeref
      else Inr (H(node \<mapsto> \<lparr>link_data = data, link_next = vpsll_head lst\<rparr>),
                \<lparr>vpsll_head = node, vpsll_len = vpsll_len lst + 1\<rparr>))"

definition vpsll_pop ::
    "link_store \<Rightarrow> VPSinglyLinkedList \<Rightarrow> fault + (u32 \<times> link_store \<times> VPSinglyLinkedList)" where
  "vpsll_pop H lst =
     (let oldhead = vpsll_head lst in
      bindE (link_at H oldhead) (\<lambda>l.
      Inr (link_data l, H(oldhead := None),
           \<lparr>vpsll_head = link_next l, vpsll_len = vpsll_len lst - 1\<rparr>)))"

text \<open>
  The loop of \<open>vpsll_remove\<close>. Only a link after the head is handed to \<open>kfree\<close>; the head
  is unlinked and stays allocated.
\<close>

fun vpsll_remove_loop ::
    "nat \<Rightarrow> (u32 \<Rightarrow> u32 \<Rightarrow> bool) \<Rightarrow> link_store \<Rightarrow> VPSinglyLinkedList \<Rightarrow> u32 \<Rightarrow> ptr \<Rightarrow> ptr \<Rightarrow>
     fault + (u32 \<times> link_store \<times> VPSinglyLinkedList)" where
  "vpsll_remove_loop 0 compf H lst data prev i = Inl Diverges"
| "vpsll_remove_loop (Suc fuel) compf H lst data prev i =
     (if i = NULL then Inr (NULL, H, lst)
      else
        bindE (link_at H i) (\<lambda>l.
        if compf (link_data l) data
        then
          (let lst' = lst\<lparr>vpsll_len := vpsll_len lst - 1\<rparr> in
           if prev = NULL
           then Inr (link_data l, H, lst'\<lparr>vpsll_head := link_next l\<rparr>)
           else
             bindE (link_at H prev) (\<lambda>pl.
             Inr (link_data l, H(prev \<mapsto> pl\<lparr>link_next := link_next l\<rparr>, i := None), lst')))
        else vpsll_remove_loop fuel compf H lst data i (link_next l)))"

definition vpsll_remove ::
    "nat \<Rightarrow> (u32 \<Rightarrow> u32 \<Rightarrow> bool) \<Rightarrow> link_store \<Rightarrow> VPSinglyLinkedList \<Rightarrow> u32 \<Rightarrow>
     fault + (u32 \<times> link_store \<times> VPSinglyLinkedList)" where
  "vpsll_remove fuel compf H lst data =
     vpsll_remove_loop fuel compf H lst data NULL (vpsll_head lst)"

fun link_at_index_loop :: "link_store \<Rightarrow> ptr \<Rightarrow> nat \<Rightarrow> fault + ptr" where
  "link_at_index_loop H i 0 = Inr i"
| "link_at_index_loop H i (Suc index) =
     (if i = NULL then Inr NULL
      else bindE (link_at H i) (\<lambda>l. link_at_index_loop H (link_next l) index))"

definition link_at_index :: "link_store \<Rightarrow> VPSinglyLinkedList \<Rightarrow> u32 \<Rightarrow> fault + ptr" where
  "link_at_index H lst index =
     (if index > vpsll_len lst then Inr NULL
      else link_at_index_loop H (vpsll_head lst) (unat index))"

definition vpsll_get :: "link_store \<Rightarrow> VPSinglyLinkedList \<Rightarrow> u32 \<Rightarrow> fault + u32" where
  "vpsll_get H lst index =
     bindE (link_at_index H lst index) (\<lambda>p. bindE (link_at H p) (\<lambda>l. Inr (link_data l)))"

definition vpsll_set ::
    "link_store \<Rightarrow> VPSinglyLinkedList \<Rightarrow> u32 \<Rightarrow> u32 \<Rightarrow> fault + (u32 \<times> link_store)" where
  "vpsll_set H lst index value =
     bindE (link_at_index H lst index) (\<lambda>link.
     if link = NULL then Inr (NULL, H)
     else bindE (link_at H link) (\<lambda>l.
          Inr (link_data l, H(link \<mapsto> l\<lparr>link_data := value\<rparr>))))"

fun vpsll_contains_loop ::
    "nat \<Rightarrow> (u32 \<Rightarrow> u32 \<Rightarrow> bool) \<Rightarrow> link_store \<Rightarrow> u32 \<Rightarrow> ptr \<Rightarrow> fault + bool" where
  "vpsll_contains_loop 0 compf H value i = Inl Diverges"
| "vpsll_contains_loop (Suc fuel) compf H value i =
     (if i = NULL then Inr False
      else
        bindE (link_at H i) (\<lambda>l.
        if compf (link_data l) value then Inr True
        else vpsll_contains_loop fuel compf H value (link_next l)))"

definition vpsll_contains ::
    "nat \<Rightarrow> (u32 \<Rightarrow> u32 \<Rightarrow> bool) \<Rightarrow> link_store \<Rightarrow> VPSinglyLinkedList \<Rightarrow> u32 \<Rightarrow> fault + bool" where
  "vpsll_contains fuel compf H lst value =
     vpsll_contains_loop fuel compf H value (vpsll_head lst)"

definition vpsll_length :: "VPSinglyLinkedList \<Rightarrow> u32" where
  "vpsll_length lst = vpsll_len lst"

definition vpslli_create :: "VPSinglyLinkedList \<Rightarrow> ptr" where
  "vpslli_create lst = vpsll_head lst"

definition vpslli_next :: "link_store \<Rightarrow> ptr \<Rightarrow> fault + (u32 \<times> ptr)" where
  "vpslli_next H lsti = bindE (link_at H lsti) (\<lambda>l. Inr (link_data l, link_next l))"

definition vpslli_empty :: "ptr \<Rightarrow> bool" where
  "vpslli_empty lsti \<longleftrightarrow> lsti = NULL"

subsection \<open>The list a head pointer represents\<close>

primrec links :: "link_store \<Rightarrow> ptr \<Rightarrow> ptr list \<Rightarrow> bool" where
  "links H p [] \<longleftrightarrow> p = NULL"
| "links H p (a # ps) \<longleftrightarrow>
     p = a \<and> a \<noteq> NULL \<and> (case H a of None \<Rightarrow> False | Some l \<Rightarrow> links H (link_next l) ps)"

definition link_values :: "link_store \<Rightarrow> ptr list \<Rightarrow> u32 list" where
  "link_values H ps = map (\<lambda>a. link_data (the (H a))) ps"

definition vpsll_repr :: "link_store \<Rightarrow> VPSinglyLinkedList \<Rightarrow> ptr list \<Rightarrow> bool" where
  "vpsll_repr H lst ps \<longleftrightarrow>
     links H (vpsll_head lst) ps \<and> unat (vpsll_len lst) = length ps"

lemma links_Cons_iff:
  "links H p (a # ps) \<longleftrightarrow> p = a \<and> a \<noteq> NULL \<and> (\<exists>l. H a = Some l \<and> links H (link_next l) ps)"
  by (auto split: option.split)

declare links.simps(2) [simp del] links_Cons_iff [simp]

lemma links_NULL [simp]: "links H NULL ps \<longleftrightarrow> ps = []"
  by (cases ps) auto

lemma links_functional: "links H p ps \<Longrightarrow> links H p qs \<Longrightarrow> ps = qs"
proof (induction ps arbitrary: p qs)
  case Nil
  then show ?case by simp
next
  case (Cons a ps)
  then show ?case by (cases qs) auto
qed

lemma links_append:
  "links H p (ps @ q # qs) \<Longrightarrow> links H q (q # qs)"
  by (induction ps arbitrary: p) (auto split: option.splits)

lemma links_distinct: "links H p ps \<Longrightarrow> distinct ps"
proof (induction ps arbitrary: p)
  case (Cons a ps)
  then obtain l where l: "H a = Some l" "links H (link_next l) ps" "a \<noteq> NULL" "p = a"
    by (auto split: option.splits)
  have "a \<notin> set ps"
  proof
    assume "a \<in> set ps"
    then obtain us vs where "ps = us @ a # vs" by (meson split_list)
    with links_append [of H "link_next l" us a vs] l have "links H a (a # vs)" by simp
    then have "a # vs = a # ps"
      by (rule links_functional [OF _ Cons.prems [unfolded l(4)]])
    with \<open>ps = us @ a # vs\<close> show False by simp
  qed
  with l Cons.IH show ?case by simp
qed simp

lemma links_dom: "links H p ps \<Longrightarrow> a \<in> set ps \<Longrightarrow> a \<noteq> NULL \<and> H a \<noteq> None"
  by (induction ps arbitrary: p) (auto split: option.splits)

lemma links_cong: "\<forall>a \<in> set ps. H a = H' a \<Longrightarrow> links H p ps = links H' p ps"
  by (induction ps arbitrary: p) auto

lemma links_upd_other: "a \<notin> set ps \<Longrightarrow> links (H(a := v)) p ps = links H p ps"
  by (induction ps arbitrary: p) (auto split: option.splits)

lemma link_values_upd_other: "a \<notin> set ps \<Longrightarrow> link_values (H(a := v)) ps = link_values H ps"
  by (auto simp: link_values_def)

lemma link_values_simps [simp]:
  "link_values H [] = []"
  "link_values H (a # ps) = link_data (the (H a)) # link_values H ps"
  "link_values H (ps @ qs) = link_values H ps @ link_values H qs"
  "length (link_values H ps) = length ps"
  by (simp_all add: link_values_def)

lemma link_at_links: "links H p (a # ps) \<Longrightarrow> link_at H p = Inr (the (H a))"
  by (auto simp: link_at_def split: option.splits)

subsection \<open>What the operations do to it\<close>

lemma vpsll_push_ok:
  assumes "vpsll_repr H lst ps" and "H node = None" and "node \<noteq> NULL"
    and "length ps + 1 < 4294967296"
  shows "\<exists>H' lst'. vpsll_push H lst x node = Inr (H', lst') \<and> vpsll_repr H' lst' (node # ps) \<and>
           link_values H' (node # ps) = x # link_values H ps"
proof -
  have "node \<notin> set ps"
    using assms links_dom by (metis vpsll_repr_def)
  then show ?thesis
    using assms
    by (auto simp: vpsll_push_def vpsll_repr_def links_upd_other link_values_upd_other unat_Suc_u32)
qed

lemma vpsll_pop_ok:
  assumes "vpsll_repr H lst (p # ps)"
  shows "\<exists>H' lst'. vpsll_pop H lst = Inr (hd (link_values H (p # ps)), H', lst') \<and>
           vpsll_repr H' lst' ps \<and> link_values H' ps = tl (link_values H (p # ps)) \<and> H' p = None"
proof -
  from assms have d: "p \<notin> set ps"
    using links_distinct [of H _ "p # ps"] by (auto simp: vpsll_repr_def simp del: links_Cons_iff)
  from assms have nz: "vpsll_len lst \<noteq> 0" by (auto simp: vpsll_repr_def)
  have "unat (vpsll_len lst - 1) = length ps"
    using assms by (simp add: vpsll_repr_def unat_minus_one [OF nz])
  with assms d show ?thesis
    by (auto simp: vpsll_repr_def vpsll_pop_def Let_def link_at_def links_upd_other
        link_values_upd_other split: option.splits)
qed

text \<open>An empty list makes \<open>vpsll_pop\<close> read through \<open>NULL\<close>.\<close>

lemma vpsll_pop_empty: "vpsll_repr H lst [] \<Longrightarrow> vpsll_pop H lst = Inl NullDeref"
  by (simp add: vpsll_repr_def vpsll_pop_def link_at_def)

lemma vpsll_contains_loop_ok:
  "links H p ps \<Longrightarrow> length ps < fuel \<Longrightarrow>
   vpsll_contains_loop fuel compf H x p = Inr (\<exists>y \<in> set (link_values H ps). compf y x)"
proof (induction ps arbitrary: p fuel)
  case Nil
  then show ?case by (cases fuel) auto
next
  case (Cons a ps)
  then show ?case by (cases fuel) (auto simp: link_at_def split: option.splits)
qed

lemma link_at_index_loop_ok:
  "links H p ps \<Longrightarrow>
   link_at_index_loop H p n = Inr (if n < length ps then ps ! n else NULL)"
proof (induction ps arbitrary: p n)
  case Nil
  then show ?case by (cases n) auto
next
  case (Cons a ps)
  then show ?case by (cases n) (auto simp: link_at_def split: option.splits)
qed

lemma vpsll_get_ok:
  assumes "vpsll_repr H lst ps"
  shows "vpsll_get H lst index =
     (if unat index < length ps then Inr (link_values H ps ! unat index) else Inl NullDeref)"
proof -
  have "H (ps ! unat index) \<noteq> None \<and> ps ! unat index \<noteq> NULL" if "unat index < length ps"
    using that assms links_dom nth_mem unfolding vpsll_repr_def by blast
  with assms show ?thesis
    by (auto simp: vpsll_get_def link_at_index_def vpsll_repr_def link_at_index_loop_ok link_at_def
        link_values_def u32_less_unat)
qed

lemma vpsll_set_ok:
  assumes "vpsll_repr H lst ps" and "unat index < length ps"
  shows "\<exists>H'. vpsll_set H lst index x = Inr (link_values H ps ! unat index, H') \<and>
           vpsll_repr H' lst ps \<and> link_values H' ps = (link_values H ps)[unat index := x]"
proof -
  let ?a = "ps ! unat index"
  from assms obtain l where l: "H ?a = Some l" "?a \<noteq> NULL"
    using links_dom nth_mem unfolding vpsll_repr_def by blast
  have d: "distinct ps" using assms(1) by (auto simp: vpsll_repr_def dest: links_distinct)
  let ?H = "H(?a \<mapsto> l\<lparr>link_data := x\<rparr>)"
  have keep: "links ?H p qs" if "links H p qs" for p qs
    using that l(1) by (induction qs arbitrary: p) (auto split: option.splits)
  have "link_values ?H ps = (link_values H ps)[unat index := x]"
    using assms(2) d by (intro nth_equalityI) (auto simp: link_values_def nth_list_update nth_eq_iff_index_eq)
  moreover have "vpsll_set H lst index x = Inr (link_values H ps ! unat index, ?H)"
    using assms l
    by (auto simp: vpsll_set_def link_at_index_def vpsll_repr_def link_at_index_loop_ok link_at_def
        link_values_def u32_less_unat)
  ultimately show ?thesis
    using assms(1) keep by (auto simp: vpsll_repr_def)
qed

text \<open>The free loop hands over every element once and leaves none of the links allocated.\<close>

lemma vpsll_free_loop_ok:
  "links H p ps \<Longrightarrow> length ps < fuel \<Longrightarrow>
   vpsll_free_loop fuel H p = Inr (link_values H ps, \<lambda>a. if a \<in> set ps then None else H a)"
proof (induction ps arbitrary: p fuel H)
  case Nil
  then show ?case by (cases fuel) auto
next
  case (Cons a ps)
  from Cons.prems(2) obtain f where f: "fuel = Suc f" by (cases fuel) auto
  from Cons.prems obtain l where l: "H a = Some l" "links H (link_next l) ps" "p = a" "a \<noteq> NULL"
    by (auto split: option.splits)
  have a: "a \<notin> set ps" using links_distinct [OF Cons.prems(1)] by simp
  have "links (H(a := None)) (link_next l) ps" using l a by (simp add: links_upd_other)
  then have "vpsll_free_loop f (H(a := None)) (link_next l) =
     Inr (link_values (H(a := None)) ps, \<lambda>b. if b \<in> set ps then None else (H(a := None)) b)"
    using Cons.prems(2) f Cons.IH [of "H(a := None)"] by (simp add: fun_upd_def)
  with l f a show ?case
    by (auto simp: link_at_def link_values_upd_other fun_eq_iff)
qed


text \<open>
  \<open>vpsll_remove\<close> unlinks the first element the comparison accepts and no other; it returns
  that element, or \<open>NULL\<close> and the list as it was when no element is accepted.
\<close>

lemma vpsll_remove_loop_found:
  assumes "links H p (us @ a # vs)" and "\<forall>y \<in> set (link_values H us). \<not> compf y x"
    and "compf (link_data (the (H a))) x" and "length us < fuel"
  shows "vpsll_remove_loop fuel compf H lst x prev p =
     (let q = (if us = [] then prev else last us); l = the (H a);
          lst' = lst\<lparr>vpsll_len := vpsll_len lst - 1\<rparr> in
      if q = NULL then Inr (link_data l, H, lst'\<lparr>vpsll_head := link_next l\<rparr>)
      else bindE (link_at H q) (\<lambda>pl.
           Inr (link_data l, H(q \<mapsto> pl\<lparr>link_next := link_next l\<rparr>, a := None), lst')))"
  using assms
proof (induction us arbitrary: p prev fuel)
  case Nil
  then show ?case by (cases fuel) (auto simp: link_at_def Let_def split: option.splits)
next
  case (Cons b us)
  from Cons.prems(4) obtain f where f: "fuel = Suc f" by (cases fuel) auto
  from Cons.prems(1) obtain l where l: "H b = Some l" "links H (link_next l) (us @ a # vs)"
    "p = b" "b \<noteq> NULL"
    by (auto split: option.splits)
  have "vpsll_remove_loop fuel compf H lst x prev p =
        vpsll_remove_loop f compf H lst x b (link_next l)"
    using Cons.prems(2) l f by (simp add: link_at_def)
  then show ?case
    using Cons.IH [OF l(2), of f b] Cons.prems(2-4) f l(4) by (simp add: Let_def)
qed

lemma vpsll_remove_loop_absent:
  "links H p ps \<Longrightarrow> \<forall>y \<in> set (link_values H ps). \<not> compf y x \<Longrightarrow> length ps < fuel \<Longrightarrow>
   vpsll_remove_loop fuel compf H lst x prev p = Inr (NULL, H, lst)"
proof (induction ps arbitrary: p prev fuel)
  case Nil
  then show ?case by (cases fuel) auto
next
  case (Cons a ps)
  then show ?case by (cases fuel) (auto simp: link_at_def split: option.splits)
qed

lemma links_splice:
  assumes "links H p (us @ b # a # vs)"
  shows "links (H(b \<mapsto> (the (H b))\<lparr>link_next := link_next (the (H a))\<rparr>, a := None)) p (us @ b # vs)"
  using assms
proof (induction us arbitrary: p)
  case Nil
  let ?H = "H(b \<mapsto> (the (H b))\<lparr>link_next := link_next (the (H a))\<rparr>, a := None)"
  from links_distinct [OF Nil] have d: "b \<noteq> a" "b \<notin> set vs" "a \<notin> set vs" by auto
  from d have "links ?H (link_next (the (H a))) vs = links H (link_next (the (H a))) vs"
    by (intro links_cong) auto
  moreover from Nil have "links H (link_next (the (H a))) vs" "p = b" "b \<noteq> NULL" by auto
  ultimately show ?case using d(1) by (simp del: fun_upd_apply add: fun_upd_other fun_upd_same)
next
  case (Cons c us)
  from links_distinct [OF Cons.prems] have "c \<noteq> a" "c \<noteq> b" by auto
  with Cons show ?case by (auto split: option.splits)
qed

lemma vpsll_remove_ok:
  assumes repr: "vpsll_repr H lst (us @ a # vs)"
    and first: "\<forall>y \<in> set (link_values H us). \<not> compf y x"
    and hit: "compf (link_data (the (H a))) x" and fuel: "length us < fuel"
  shows "\<exists>H' lst'. vpsll_remove fuel compf H lst x = Inr (link_data (the (H a)), H', lst') \<and>
           vpsll_repr H' lst' (us @ vs) \<and> link_values H' (us @ vs) = link_values H (us @ vs) \<and>
           (H' a = None \<longleftrightarrow> us \<noteq> [])"
proof -
  let ?lst = "lst\<lparr>vpsll_len := vpsll_len lst - 1\<rparr>"
  from repr have ch: "links H (vpsll_head lst) (us @ a # vs)" by (simp add: vpsll_repr_def)
  from repr have nz: "vpsll_len lst \<noteq> 0" by (auto simp: vpsll_repr_def)
  have len: "unat (vpsll_len lst - 1) = length (us @ vs)"
    using repr by (simp add: vpsll_repr_def unat_minus_one [OF nz])
  note loop = vpsll_remove_loop_found [where compf = compf and x = x, OF ch first hit fuel, of lst NULL,
      folded vpsll_remove_def]
  show ?thesis
  proof (cases us rule: rev_cases)
    case Nil
    with ch len loop show ?thesis
      by (auto simp: vpsll_repr_def Let_def split: option.splits)
  next
    case (snoc ws b)
    from links_dom [OF ch, of b] snoc obtain pl where b: "b \<noteq> NULL" "H b = Some pl" by auto
    let ?H = "H(b \<mapsto> pl\<lparr>link_next := link_next (the (H a))\<rparr>, a := None)"
    have d: "distinct (ws @ b # a # vs)" using links_distinct [OF ch] snoc by simp
    have "links ?H (vpsll_head lst) (us @ vs)"
      using links_splice [of H "vpsll_head lst" ws b a vs] ch snoc b by simp
    moreover have "link_values ?H (us @ vs) = link_values H (us @ vs)"
      using d snoc b by (auto simp: link_values_def)
    moreover have "vpsll_remove fuel compf H lst x = Inr (link_data (the (H a)), ?H, ?lst)"
      using loop snoc b by (simp add: link_at_def Let_def)
    ultimately show ?thesis
      using len snoc by (auto simp: vpsll_repr_def)
  qed
qed

end
