(* ===== verification/Asid_Allocator.thy ===== *)
theory Asid_Allocator
  imports Kernel_Prelude
begin

section \<open>Address space identifiers: \<open>vm/asid_allocator.c\<close>\<close>

text \<open>
  The allocator hands out the 256 hardware ASIDs round robin. Each ASID has an iteration
  number, bumped whenever the ASID goes to another process; a process whose descriptor
  carries an old iteration has to flush the TLB before it runs. The globals of the file are
  the record \<open>asid_state\<close>; the context switches of a set of processes are the step
  relation \<open>asid_run\<close>, and its invariant gives the safety property the kernel needs: no two
  processes that share an ASID both believe the TLB is theirs.
\<close>

record ASIDDescriptor =
  asid :: u8
  cache_iteration :: u8

record asid_state =
  asid_curr :: u8
  allocated_ids :: "u8 \<Rightarrow> u8"
  tlb_everything_allocated :: bool

definition asid_init :: asid_state where
  "asid_init = \<lparr>asid_curr = 0, allocated_ids = (\<lambda>_. 0), tlb_everything_allocated = False\<rparr>"

definition asid_request_descriptor :: "asid_state \<Rightarrow> ASIDDescriptor \<times> asid_state" where
  "asid_request_descriptor s =
     (let it = allocated_ids s (asid_curr s) + 1;
          ids = (allocated_ids s)(asid_curr s := it);
          tlb_cache_id = asid_curr s in
      (\<lparr>asid = tlb_cache_id, cache_iteration = it\<rparr>,
       \<lparr>asid_curr = asid_curr s + 1, allocated_ids = ids,
        tlb_everything_allocated = (if tlb_cache_id = 255 then True
                                    else tlb_everything_allocated s)\<rparr>))"

definition asid_check_and_update ::
    "asid_state \<Rightarrow> ASIDDescriptor \<Rightarrow> bool \<times> ASIDDescriptor \<times> asid_state" where
  "asid_check_and_update s desc =
     (if cache_iteration desc \<noteq> allocated_ids s (asid desc)
      then
        (let it = allocated_ids s (asid desc) + 1 in
         (True, desc\<lparr>cache_iteration := it\<rparr>,
          s\<lparr>allocated_ids := (allocated_ids s)(asid desc := it)\<rparr>))
      else (False, desc, s))"

text \<open>\<open>asid_set\<close> on the context ID register (\<open>CONTEXTIDR\<close>, coprocessor 15, c13).\<close>

definition asid_set :: "u32 \<Rightarrow> u8 \<Rightarrow> u32" where
  "asid_set contextidr i = ucast i OR (contextidr AND 0xffffff00)"

subsection \<open>Single operations\<close>

text \<open>A descriptor is fresh when its iteration is the current one of its ASID.\<close>

definition asid_fresh :: "asid_state \<Rightarrow> ASIDDescriptor \<Rightarrow> bool" where
  "asid_fresh s d \<longleftrightarrow> cache_iteration d = allocated_ids s (asid d)"

lemma asid_request_fresh: "asid_request_descriptor s = (d, s') \<Longrightarrow> asid_fresh s' d"
  by (auto simp: asid_request_descriptor_def asid_fresh_def Let_def)

lemma asid_check_fresh: "asid_check_and_update s d = (b, d', s') \<Longrightarrow> asid_fresh s' d'"
  by (auto simp: asid_check_and_update_def asid_fresh_def Let_def split: if_splits)

text \<open>\<open>n\<close> requests in a row.\<close>

fun asid_requests :: "nat \<Rightarrow> asid_state \<Rightarrow> ASIDDescriptor list \<times> asid_state" where
  "asid_requests 0 s = ([], s)"
| "asid_requests (Suc n) s =
     (let (ds, s') = asid_requests n s; (d, s'') = asid_request_descriptor s' in (ds @ [d], s''))"

text \<open>How often ASID \<open>a\<close> has been handed out by the first \<open>n\<close> requests.\<close>

definition asid_handed :: "nat \<Rightarrow> u8 \<Rightarrow> nat" where
  "asid_handed n a = (n + 255 - unat a) div 256"

lemma mod_256_shift:
  assumes "a < (256::nat)"
  shows "n mod 256 = a \<longleftrightarrow> (n + (256 - a)) mod 256 = 0"
proof -
  have "(n + (256 - a)) mod 256 = (n mod 256 + (256 - a)) mod 256"
    by (simp add: mod_add_left_eq)
  moreover have "(r + (256 - a)) mod 256 = 0 \<longleftrightarrow> r = a" if "r < 256" for r
    using that assms by (auto simp: mod_if)
  ultimately show ?thesis by simp
qed

lemma asid_handed_Suc:
  "asid_handed (Suc n) a = asid_handed n a + (if n mod 256 = unat a then 1 else 0)"
proof -
  let ?m = "n + 255 - unat a"
  have a: "unat a < 256" by (rule u8_unat_lt)
  then have suc: "Suc n + 255 - unat a = Suc ?m" and m: "Suc ?m = n + (256 - unat a)" by simp_all
  from mod_256_shift [OF a, of n] m have "n mod 256 = unat a \<longleftrightarrow> Suc ?m mod 256 = 0" by simp
  then show ?thesis
    unfolding asid_handed_def suc div_Suc by simp
qed

lemma unat_of_nat_u8: "unat (of_nat n :: u8) = n mod 256"
  by (simp add: unat_of_nat take_bit_eq_mod)

lemma of_nat_eq_u8: "(of_nat n :: u8) = a \<longleftrightarrow> n mod 256 = unat a"
  by (simp add: word_unat_eq_iff unat_of_nat_u8)

text \<open>The allocator after \<open>n\<close> requests, in closed form.\<close>

lemma asid_requests_state:
  "snd (asid_requests n asid_init) =
     \<lparr>asid_curr = of_nat n, allocated_ids = (\<lambda>a. of_nat (asid_handed n a)),
      tlb_everything_allocated = (256 \<le> n)\<rparr>"
proof (induction n)
  case 0
  then show ?case
    by (auto simp: asid_init_def asid_handed_def fun_eq_iff)
next
  case (Suc n)
  have ids: "(\<lambda>a. of_nat (asid_handed (Suc n) a) :: u8) =
      (\<lambda>a. of_nat (asid_handed n a))(of_nat n := of_nat (asid_handed n (of_nat n)) + 1)"
  proof
    fix a :: u8
    have "n mod 256 = unat a \<longleftrightarrow> a = of_nat n" using of_nat_eq_u8 [of n a] by blast
    then show "(of_nat (asid_handed (Suc n) a) :: u8) = ((\<lambda>a. of_nat (asid_handed n a))
        (of_nat n := of_nat (asid_handed n (of_nat n)) + 1)) a"
      by (simp add: asid_handed_Suc)
  qed
  have "n mod 256 = 255 \<Longrightarrow> 256 \<le> Suc n"
    using mod_less_eq_dividend [of n 256] by simp
  then have all: "256 \<le> Suc n \<longleftrightarrow> (of_nat n :: u8) = 255 \<or> 256 \<le> n"
    by (cases "n < 256") (auto simp: of_nat_eq_u8)
  show ?case
    using Suc unfolding ids all
    by (simp add: asid_request_descriptor_def Let_def split_def add.commute)
qed

lemma asid_requests_length: "length (fst (asid_requests n s)) = n"
  by (induction n) (auto simp: Let_def split_def)

lemma asid_requests_nth:
  "k < n \<Longrightarrow> fst (asid_requests n asid_init) ! k =
     \<lparr>asid = of_nat k, cache_iteration = of_nat (k div 256 + 1)\<rparr>"
proof (induction n)
  case (Suc n)
  have "asid_handed n (of_nat n) = n div 256"
  proof -
    have "n + 255 - n mod 256 = 256 * (n div 256) + 255"
      by (metis add.commute add_diff_assoc2 minus_mod_eq_mult_div mod_less_eq_dividend)
    then show ?thesis by (simp add: asid_handed_def unat_of_nat_u8)
  qed
  with Suc show ?case
    using asid_requests_length [of n asid_init]
    by (auto simp: Let_def split_def nth_append less_Suc_eq asid_requests_state
        asid_request_descriptor_def)
qed simp

subsection \<open>Context switches\<close>

text \<open>
  The processes hold one descriptor each. A step creates a process (\<open>create_vas\<close> requests a
  descriptor) or switches to one (\<open>switch_to_vas\<close> checks it); the last component counts, for
  each ASID, the iterations handed out so far.
\<close>

inductive asid_run :: "asid_state \<Rightarrow> ASIDDescriptor list \<Rightarrow> (u8 \<Rightarrow> nat) \<Rightarrow> bool" where
  start: "asid_run asid_init [] (\<lambda>_. 0)"
| create: "asid_run s ds c \<Longrightarrow> asid_request_descriptor s = (d, s') \<Longrightarrow>
     asid_run s' (ds @ [d]) (c(asid d := Suc (c (asid d))))"
| switch: "asid_run s ds c \<Longrightarrow> i < length ds \<Longrightarrow>
     asid_check_and_update s (ds ! i) = (b, d, s') \<Longrightarrow>
     asid_run s' (ds[i := d]) (if b then c(asid d := Suc (c (asid d))) else c)"

text \<open>
  While an ASID has had fewer than 256 iterations, its counter has not wrapped, no
  descriptor is ahead of it and no two descriptors of the ASID carry the same iteration.
\<close>

definition asid_ok :: "asid_state \<Rightarrow> ASIDDescriptor list \<Rightarrow> (u8 \<Rightarrow> nat) \<Rightarrow> u8 \<Rightarrow> bool" where
  "asid_ok s ds c a \<longleftrightarrow>
     unat (allocated_ids s a) = c a \<and>
     (\<forall>d \<in> set ds. asid d = a \<longrightarrow> unat (cache_iteration d) \<le> c a) \<and>
     (\<forall>i < length ds. \<forall>j < length ds. i \<noteq> j \<longrightarrow> asid (ds ! i) = a \<longrightarrow> ds ! i \<noteq> ds ! j)"

definition asid_inv :: "asid_state \<Rightarrow> ASIDDescriptor list \<Rightarrow> (u8 \<Rightarrow> nat) \<Rightarrow> bool" where
  "asid_inv s ds c \<longleftrightarrow> (\<forall>a. c a < 256 \<longrightarrow> asid_ok s ds c a)"

lemma u8_Suc: "unat x < 255 \<Longrightarrow> unat ((x :: u8) + 1) = Suc (unat x)"
  by (simp add: unat_word_ariths)

lemma asid_bump_new:
  assumes "asid_ok s ds c a" and "c a < 255" and "e \<in> set ds"
  shows "e \<noteq> \<lparr>asid = a, cache_iteration = allocated_ids s a + 1\<rparr>"
proof
  assume "e = \<lparr>asid = a, cache_iteration = allocated_ids s a + 1\<rparr>"
  with assms have "unat (allocated_ids s a + 1) \<le> c a" by (auto simp: asid_ok_def)
  moreover have "unat (allocated_ids s a + 1) = Suc (c a)"
    using assms by (simp add: asid_ok_def u8_Suc)
  ultimately show False by simp
qed

text \<open>A bump of ASID \<open>a\<close>: \<open>ds'\<close> holds the new descriptor at \<open>k\<close> and old ones elsewhere.\<close>

lemma asid_bump_inv:
  assumes inv: "asid_inv s ds c"
    and d: "d = \<lparr>asid = a, cache_iteration = allocated_ids s a + 1\<rparr>"
    and ids: "allocated_ids s' = (allocated_ids s)(a := allocated_ids s a + 1)"
    and k: "k < length ds'" "ds' ! k = d"
    and keep: "\<And>i. i < length ds' \<Longrightarrow> i \<noteq> k \<Longrightarrow> i < length ds \<and> ds' ! i = ds ! i"
  shows "asid_inv s' ds' (c(a := Suc (c a)))"
  unfolding asid_inv_def
proof (intro allI impI)
  fix x assume lt: "(c(a := Suc (c a))) x < 256"
  then have "c x < 256" by (auto split: if_splits)
  with inv have ok: "asid_ok s ds c x" by (simp add: asid_inv_def)
  have b: "unat (allocated_ids s a + 1) = Suc (c a)" if "x = a"
    using that lt ok by (simp add: asid_ok_def u8_Suc)
  have 1: "unat (allocated_ids s' x) = (c(a := Suc (c a))) x"
    using ok b by (auto simp: asid_ok_def ids)
  have "unat (cache_iteration e) \<le> (c(a := Suc (c a))) x" if "e \<in> set ds'" "asid e = x" for e
  proof -
    from that(1) obtain i where i: "i < length ds'" "e = ds' ! i" by (auto simp: in_set_conv_nth)
    show ?thesis
    proof (cases "i = k")
      case True
      with i k d that b show ?thesis by simp
    next
      case False
      with keep i have "e \<in> set ds" by auto
      with ok that have "unat (cache_iteration e) \<le> c x" by (auto simp: asid_ok_def)
      then show ?thesis by (auto intro: le_SucI)
    qed
  qed
  moreover have "ds' ! i \<noteq> ds' ! j"
    if "i < length ds'" "j < length ds'" "i \<noteq> j" "asid (ds' ! i) = x" for i j
  proof (cases "x = a")
    case True
    then have nd: "e \<noteq> d" if "e \<in> set ds" for e
      using that asid_bump_new [of s ds c a e] ok lt d by simp
    from that k keep [of i] keep [of j] nd [of "ds ! i"] nd [of "ds ! j"] ok show ?thesis
      by (cases "i = k"; cases "j = k") (auto simp: asid_ok_def)
  next
    case False
    with that d k have "i \<noteq> k" by auto
    with that k keep [of i] keep [of j] ok d False show ?thesis
      by (cases "j = k") (auto simp: asid_ok_def)
  qed
  ultimately show "asid_ok s' ds' (c(a := Suc (c a))) x"
    using 1 by (simp add: asid_ok_def)
qed

lemma asid_run_inv: "asid_run s ds c \<Longrightarrow> asid_inv s ds c"
proof (induction rule: asid_run.induct)
  case start
  then show ?case by (simp add: asid_inv_def asid_ok_def asid_init_def)
next
  case (create s ds c d s')
  then have d: "d = \<lparr>asid = asid_curr s, cache_iteration = allocated_ids s (asid_curr s) + 1\<rparr>"
    and ids: "allocated_ids s' = (allocated_ids s)(asid_curr s := allocated_ids s (asid_curr s) + 1)"
    by (auto simp: asid_request_descriptor_def Let_def)
  have "asid_inv s' (ds @ [d]) (c(asid_curr s := Suc (c (asid_curr s))))"
    by (rule asid_bump_inv [OF create.IH d ids, of "length ds"]) (auto simp: nth_append)
  then show ?case using d by (simp del: fun_upd_apply)
next
  case (switch s ds c i b d s')
  let ?a = "asid (ds ! i)"
  show ?case
  proof (cases b)
    case True
    with switch.hyps have d: "d = \<lparr>asid = ?a, cache_iteration = allocated_ids s ?a + 1\<rparr>"
      and ids: "allocated_ids s' = (allocated_ids s)(?a := allocated_ids s ?a + 1)"
      by (auto simp: asid_check_and_update_def Let_def split: if_splits)
    have "asid_inv s' (ds[i := d]) (c(?a := Suc (c ?a)))"
      by (rule asid_bump_inv [OF switch.IH d ids, of i]) (auto simp: switch.hyps)
    then show ?thesis using d True by (simp del: fun_upd_apply)
  next
    case False
    with switch show ?thesis
      by (auto simp: asid_check_and_update_def Let_def split: if_splits)
  qed
qed

lemma asid_requests_run:
  "asid_run (snd (asid_requests n asid_init)) (fst (asid_requests n asid_init)) (asid_handed n)"
proof (induction n)
  case 0
  have "asid_handed 0 = (\<lambda>_. 0)" by (auto simp: asid_handed_def fun_eq_iff)
  then show ?case by (simp add: asid_run.start)
next
  case (Suc n)
  let ?s = "snd (asid_requests n asid_init)"
  have "asid (fst (asid_request_descriptor ?s)) = of_nat n"
    by (simp add: asid_request_descriptor_def Let_def asid_requests_state)
  moreover have "(asid_handed n)(of_nat n := Suc (asid_handed n (of_nat n))) = asid_handed (Suc n)"
  proof
    fix a :: u8
    have "n mod 256 = unat a \<longleftrightarrow> a = of_nat n" using of_nat_eq_u8 [of n a] by blast
    then show "((asid_handed n)(of_nat n := Suc (asid_handed n (of_nat n)))) a = asid_handed (Suc n) a"
      by (simp add: asid_handed_Suc)
  qed
  ultimately show ?case
    using asid_run.create [OF Suc, of "fst (asid_request_descriptor ?s)"
        "snd (asid_request_descriptor ?s)"]
    by (simp add: Let_def split_def)
qed

subsection \<open>Properties\<close>

text \<open>
  C11: in any interleaving of process creations and context switches, as long as an ASID has
  had fewer than 256 iterations, at most one process holding that ASID finds its descriptor
  current: every other process that shares the ASID is told to flush the TLB when it is
  switched to.
\<close>

theorem asid_no_stale_tlb:
  assumes "asid_run s ds c" and "i < length ds" and "j < length ds" and "i \<noteq> j"
    and "asid (ds ! i) = asid (ds ! j)" and "c (asid (ds ! i)) < 256"
    and "asid_fresh s (ds ! i)"
  shows "fst (asid_check_and_update s (ds ! j))"
proof -
  have "asid_ok s ds c (asid (ds ! i))"
    using asid_run_inv [OF assms(1)] assms(6) by (simp add: asid_inv_def)
  then have "ds ! i \<noteq> ds ! j" using assms by (auto simp: asid_ok_def)
  then have "\<not> asid_fresh s (ds ! j)"
    using assms(5,7) by (auto simp: asid_fresh_def)
  then show ?thesis by (simp add: asid_fresh_def asid_check_and_update_def Let_def)
qed

theorem asid_no_stale_tlb_witness:
  "fst (asid_check_and_update (snd (asid_requests 257 asid_init))
         (fst (asid_requests 257 asid_init) ! 0))"
proof (rule asid_no_stale_tlb [OF asid_requests_run, of 256])
  have len: "length (fst (asid_requests 257 asid_init)) = 257"
    by (rule asid_requests_length)
  then show "256 < length (fst (asid_requests 257 asid_init))"
    and "0 < length (fst (asid_requests 257 asid_init))" by simp_all
  show "asid (fst (asid_requests 257 asid_init) ! 256) = asid (fst (asid_requests 257 asid_init) ! 0)"
    by (simp add: asid_requests_nth del: asid_requests.simps)
  show "asid_handed 257 (asid (fst (asid_requests 257 asid_init) ! 256)) < 256"
    by (simp add: asid_requests_nth asid_handed_def del: asid_requests.simps)
  show "asid_fresh (snd (asid_requests 257 asid_init)) (fst (asid_requests 257 asid_init) ! 256)"
    by (simp add: asid_requests_nth asid_handed_def asid_requests_state asid_fresh_def
        del: asid_requests.simps)
qed simp

text \<open>
  the \<open>k\<close>-th request gets ASID \<open>k mod 256\<close> and iteration \<open>k div 256 + 1\<close> (both at 8 bits),
  and the flag \<open>tlb_everything_allocated\<close> is set exactly from the 256th request on.
\<close>

theorem asid_round_robin:
  "fst (asid_requests n asid_init) =
     map (\<lambda>k. \<lparr>asid = of_nat k, cache_iteration = of_nat (k div 256 + 1)\<rparr>) [0..<n] \<and>
   (tlb_everything_allocated (snd (asid_requests n asid_init)) \<longleftrightarrow> 256 \<le> n)"
  using asid_requests_nth asid_requests_length
  by (auto simp: asid_requests_state intro!: nth_equalityI simp del: asid_requests.simps)

text \<open>
  The iteration is 8 bits wide: the processes created 65536 requests apart get the same
  descriptor, so that an old one is taken for current.
\<close>

lemma asid_iteration_wraps:
  "fst (asid_requests (k + 65537) asid_init) ! k = fst (asid_requests (k + 65537) asid_init) ! (k + 65536)"
proof -
  have "(k + 65536) div 256 = k div 256 + 256"
    using div_mult_self1 [of 256 k 256] by simp
  then have "(of_nat ((k + 65536) div 256 + 1) :: u8) = of_nat (k div 256 + 1)"
    using mod_add_self2 [of "Suc (k div 256)" 256]
    by (simp add: word_unat_eq_iff unat_of_nat_u8 del: of_nat_add of_nat_Suc mod_add_self2)
  moreover have "(of_nat (k + 65536) :: u8) = of_nat k"
    using mod_mult_self1 [of k 256 256] by (simp add: of_nat_eq_u8 unat_of_nat_u8 del: of_nat_add)
  ultimately show ?thesis by (simp add: asid_requests_nth del: asid_requests.simps of_nat_add of_nat_Suc)
qed

lemma asid_mask_bit: "bit (0xffffff00 :: u32) n \<longleftrightarrow> 8 \<le> n \<and> n < 32"
proof -
  have "(0xffffff00 :: u32) = push_bit 8 (mask 24)"
    by (simp add: mask_eq_exp_minus_1 push_bit_eq_mult)
  then show ?thesis by (auto simp only: bit_push_bit_iff bit_mask_iff) simp_all
qed

lemmas asid_set_bits = asid_set_def bit_or_iff bit_and_iff asid_mask_bit

lemma asid_set_low: "ucast (asid_set r i) = i"
  by (rule bit_word_eqI) (simp only: asid_set_bits bit_unsigned_iff, auto)

lemma asid_set_high: "drop_bit 8 (asid_set r i) = drop_bit 8 r"
  by (rule bit_word_eqI)
     (simp only: asid_set_bits bit_unsigned_iff bit_drop_bit_eq o_def,
      auto dest: bit_imp_le_length)

end
