(* ===== verification/Qstr_Model.thy ===== *)
theory Qstr_Model
  imports Klibc_String "HOL-Library.Sublist"
begin

section \<open>Quick strings: \<open>ds/qstr.c\<close>\<close>

text \<open>
  A \<open>Qstr\<close> is a string with its length and a cached hash (0: not computed yet). A
  comparison computes the hash of the left string while it compares, and stores it; the
  invariant \<open>qstr_ok\<close> says that a cached hash is the hash of the string, which is what makes
  the quick answer of \<open>qstr_eq\<close> on different hashes right.
\<close>

record Qstr =
  qdata :: "u8 kptr"
  qlength :: u32
  qhash :: u32

definition qstr_from_length_string :: "grant \<Rightarrow> u8 kptr \<Rightarrow> u32 \<Rightarrow> fault + Qstr" where
  "qstr_from_length_string g arr len =
     bindE (memcpy (kmalloc g (len + 1)) 0 arr 0 (unat len)) (\<lambda>(data, _).
     bindE (wr8 data (unat len) 0) (\<lambda>data'.
     Inr \<lparr>qdata = data', qlength = len, qhash = 0\<rparr>))"

definition qstr_from_null_terminated_string :: "grant \<Rightarrow> u8 kptr \<Rightarrow> fault + Qstr" where
  "qstr_from_null_terminated_string g arr =
     bindE (strlen arr 0) (\<lambda>len. qstr_from_length_string g arr len)"

text \<open>\<open>qstr_free\<close> hands the data to \<open>kfree\<close>.\<close>

definition qstr_free :: "Qstr \<Rightarrow> u8 kptr" where
  "qstr_free q = qdata q"

text \<open>
  The loop of \<open>__eq\<close>. The right string is read, and its pointer advanced, only while no
  difference has been seen.
\<close>

function qstr_eq_loop ::
    "u8 kptr \<Rightarrow> nat \<Rightarrow> u8 kptr \<Rightarrow> nat \<Rightarrow> u32 \<Rightarrow> bool \<Rightarrow> fault + (u32 \<times> bool)" where
  "qstr_eq_loop leftstr i rightstr j hash eq =
     bindE (rd8 leftstr i) (\<lambda>c.
     if c \<noteq> 0
     then
       (let hash' = (push_bit 5 hash + hash) + ucast c in
        if eq
        then bindE (rd8 rightstr j) (\<lambda>d.
             qstr_eq_loop leftstr (Suc i) rightstr (Suc j) hash' (c = d))
        else qstr_eq_loop leftstr (Suc i) rightstr j hash' False)
     else Inr (hash, eq))"
  by pat_completeness auto
termination
  by (relation "measure (\<lambda>(l, i, r, j, h, e). obj_len l - i)") (auto dest!: kread_bound)

declare qstr_eq_loop.simps [simp del]

text \<open>The hash value stored: never 0, which stands for an empty cache.\<close>

definition qstr_stored_hash :: "u32 \<Rightarrow> u32" where
  "qstr_stored_hash hash = (if hash = 0 then 42 else hash)"

text \<open>
  \<open>__eq\<close>. Its second argument is a \<open>Qstr\<close>, or a character pointer cast to one when \<open>fake\<close>
  is set; the model takes the two cases as the two constructors of a sum.
\<close>

definition qstr_eq_core :: "Qstr \<Rightarrow> Qstr + u8 kptr \<Rightarrow> fault + (bool \<times> Qstr \<times> Qstr option)" where
  "qstr_eq_core left right =
     (case right of
        Inl r \<Rightarrow>
          if qhash left \<noteq> 0 \<and> qhash r \<noteq> 0 \<and> qhash left \<noteq> qhash r then Inr (False, left, Some r)
          else if qlength left \<noteq> qlength r then Inr (False, left, Some r)
          else
            bindE (qstr_eq_loop (qdata left) 0 (qdata r) 0 5381 True) (\<lambda>(hash, eq).
            let h = qstr_stored_hash hash in
            Inr (eq, left\<lparr>qhash := h\<rparr>, Some (if eq then r\<lparr>qhash := h\<rparr> else r)))
      | Inr s \<Rightarrow>
          bindE (qstr_eq_loop (qdata left) 0 s 0 5381 True) (\<lambda>(hash, eq).
          Inr (eq, left\<lparr>qhash := qstr_stored_hash hash\<rparr>, None)))"

definition qstr_eq :: "Qstr \<Rightarrow> Qstr \<Rightarrow> fault + (bool \<times> Qstr \<times> Qstr)" where
  "qstr_eq left right =
     bindE (qstr_eq_core left (Inl right)) (\<lambda>(eq, l, r). Inr (eq, l, the r))"

text \<open>\<open>qstr_hash\<close> compares with the empty string and ignores the answer.\<close>

definition qstr_hash :: "Qstr \<Rightarrow> fault + Qstr" where
  "qstr_hash q = bindE (qstr_eq_core q (Inr (cstr_obj []))) (\<lambda>(_, q', _). Inr q')"

definition qstr_eq_null_terminated :: "Qstr \<Rightarrow> u8 kptr \<Rightarrow> fault + (bool \<times> Qstr)" where
  "qstr_eq_null_terminated left right =
     bindE (qstr_eq_core left (Inr right)) (\<lambda>(eq, l, _). Inr (eq, l))"

subsection \<open>The hash and the invariant\<close>

text \<open>The djb2 hash, \<open>h * 33 + c\<close> for every character from 5381 on.\<close>

definition djb2 :: "u32 \<Rightarrow> u8 list \<Rightarrow> u32" where
  "djb2 h xs = fold (\<lambda>c h. h * 33 + ucast c) xs h"

definition qstr_ok :: "Qstr \<Rightarrow> u8 list \<Rightarrow> bool" where
  "qstr_ok q xs \<longleftrightarrow>
     cstr (qdata q) 0 xs \<and> qlength q = of_nat (length xs) \<and>
     (qhash q = 0 \<or> qhash q = qstr_stored_hash (djb2 5381 xs))"

lemma djb2_step: "push_bit 5 h + h + c = h * 33 + (c :: u32)"
  by (simp add: push_bit_eq_mult algebra_simps)

lemma qstr_eq_loop_differs:
  "cstr p i xs \<Longrightarrow> qstr_eq_loop p i q j h False = Inr (djb2 h xs, False)"
proof (induction xs arbitrary: i h)
  case Nil
  from cstr_hd [OF Nil] show ?case by (subst qstr_eq_loop.simps) (simp add: djb2_def)
next
  case (Cons x xs)
  from cstr_hd [OF Cons.prems] cstr_Cons_nonzero [OF Cons.prems]
    Cons.IH [OF cstr_tail [OF Cons.prems]]
  show ?case by (subst qstr_eq_loop.simps) (simp add: djb2_def djb2_step)
qed

text \<open>The loop answers whether the left string is a prefix of the right one.\<close>

lemma qstr_eq_loop_prefix:
  "cstr p i xs \<Longrightarrow> cstr q j ys \<Longrightarrow>
   qstr_eq_loop p i q j h True = Inr (djb2 h xs, prefix xs ys)"
proof (induction xs arbitrary: i j h ys)
  case Nil
  from cstr_hd [OF Nil(1)] show ?case by (subst qstr_eq_loop.simps) (simp add: djb2_def)
next
  case (Cons x xs)
  note x = cstr_hd [OF Cons.prems(1)] cstr_Cons_nonzero [OF Cons.prems(1)]
  note tl = cstr_tail [OF Cons.prems(1)]
  note y = cstr_hd [OF Cons.prems(2)]
  show ?case
  proof (cases "\<exists>zs. ys = x # zs")
    case True
    then obtain zs where "ys = x # zs" by blast
    with x y Cons.IH [OF tl, of "Suc j" zs] cstr_tail [of q j x zs] Cons.prems(2)
    show ?thesis by (subst qstr_eq_loop.simps) (simp add: djb2_def djb2_step)
  next
    case False
    with x have "(case ys of [] \<Rightarrow> 0 | y # _ \<Rightarrow> y) \<noteq> x" by (cases ys) auto
    with x y False qstr_eq_loop_differs [OF tl, of q "Suc j"]
    show ?thesis
      by (subst qstr_eq_loop.simps) (cases ys; auto simp: djb2_def djb2_step)
  qed
qed

lemma qstr_ok_lengthD: "qstr_ok q xs \<Longrightarrow> unat (qlength q) = length xs"
  by (auto simp: qstr_ok_def dest!: cstr_length intro!: unat_of_nat_u32)

lemma qstr_stored_hash_nonzero [simp]: "qstr_stored_hash h \<noteq> 0"
  by (simp add: qstr_stored_hash_def)

lemma qstr_eq_null_terminated_ok:
  assumes "qstr_ok l xs" and "cstr s 0 ys"
  shows "\<exists>l'. qstr_eq_null_terminated l s = Inr (prefix xs ys, l') \<and> qstr_ok l' xs \<and>
            qhash l' = qstr_stored_hash (djb2 5381 xs)"
  using assms qstr_eq_loop_prefix [of "qdata l" 0 xs s 0 ys 5381]
  by (auto simp: qstr_eq_null_terminated_def qstr_eq_core_def qstr_ok_def)

subsection \<open>Properties\<close>

text \<open>
  C16: on well-formed quick strings \<open>qstr_eq\<close> answers whether the strings are equal, whatever
  the caches held, and leaves both well-formed: a hash it stores is the hash of that string.
\<close>

theorem qstr_eq_correct:
  assumes "qstr_ok l xs" and "qstr_ok r ys"
  shows "\<exists>l' r'. qstr_eq l r = Inr (xs = ys, l', r') \<and> qstr_ok l' xs \<and> qstr_ok r' ys"
proof (cases "length xs = length ys")
  case True
  then have px: "prefix xs ys \<longleftrightarrow> xs = ys"
    by (metis not_equal_is_parallel parallelD1 prefix_order.order_refl)
  from assms have "cstr (qdata l) 0 xs" "cstr (qdata r) 0 ys" by (auto simp: qstr_ok_def)
  note loop = qstr_eq_loop_prefix [OF this, of 5381]
  from assms True have len: "qlength l = qlength r" by (simp add: qstr_ok_def)
  from assms have quick: "xs \<noteq> ys"
    if "qhash l \<noteq> 0" "qhash r \<noteq> 0" "qhash l \<noteq> qhash r"
    using that by (auto simp: qstr_ok_def)
  with assms len loop px show ?thesis
    by (auto simp: qstr_eq_def qstr_eq_core_def Let_def qstr_ok_def)
next
  case False
  with assms have "qlength l \<noteq> qlength r" by (metis qstr_ok_lengthD)
  with assms False show ?thesis by (auto simp: qstr_eq_def qstr_eq_core_def)
qed

theorem qstr_eq_correct_witness:
  "\<exists>l' r'. qstr_eq \<lparr>qdata = cstr_obj [104, 105], qlength = 2, qhash = 0\<rparr>
                  \<lparr>qdata = cstr_obj [104, 111], qlength = 2, qhash = 0\<rparr> =
     Inr ([104, 105] = [104, 111 :: u8], l', r') \<and> qstr_ok l' [104, 105] \<and> qstr_ok r' [104, 111]"
  by (rule qstr_eq_correct) (simp_all add: qstr_ok_def cstr_obj_cstr)

text \<open>
  \<open>qstr_eq_null_terminated\<close> is true exactly when the left string is a prefix of the
  right one (it does not ask that the right one ends there too), and it caches the hash.
\<close>

theorem qstr_eq_null_terminated_prefix:
  assumes "qstr_ok l xs" and "cstr s 0 ys"
  shows "\<exists>l'. qstr_eq_null_terminated l s = Inr (prefix xs ys, l') \<and> qstr_ok l' xs \<and>
            qhash l' = qstr_stored_hash (djb2 5381 xs)"
  by (rule qstr_eq_null_terminated_ok [OF assms])

theorem qstr_eq_null_terminated_prefix_witness:
  "\<exists>l'. qstr_eq_null_terminated \<lparr>qdata = cstr_obj [97], qlength = 1, qhash = 0\<rparr> (cstr_obj [97, 98]) =
     Inr (prefix [97] [97, 98 :: u8], l') \<and> qstr_ok l' [97] \<and>
     qhash l' = qstr_stored_hash (djb2 5381 [97])"
  by (rule qstr_eq_null_terminated_prefix) (simp_all add: qstr_ok_def cstr_obj_cstr)

text \<open>A quick string made from a C string holds it, with an empty cache.\<close>

lemma qstr_from_null_terminated_ok:
  assumes heap: "kheap g" and str: "cstr arr 0 xs" and len: "length xs + 1 < 4294967296"
    and "g (of_nat (length xs) + 1) \<noteq> None"
  shows "\<exists>q. qstr_from_null_terminated_string g arr = Inr q \<and> qstr_ok q xs \<and> qhash q = 0"
proof -
  let ?n = "of_nat (length xs) :: u32"
  have n: "unat ?n = length xs" "unat (?n + 1) = Suc (length xs)"
    using len unat_Suc_u32 [of ?n] by (simp_all add: unat_of_nat_u32)
  from assms(4) obtain ob :: "u8 kobj" where ob: "kmalloc g (?n + 1) = Some ob"
    by (cases "kmalloc g (?n + 1) :: u8 kptr") (auto simp: kmalloc_NULL_iff)
  then have sz: "Suc (length xs) \<le> unat (osize ob)"
    using kheap.kmalloc_size_ge [OF heap ob] by (simp add: u32_le_unat n)
  from str obtain src where src: "arr = Some src" "length xs < unat (osize src)"
    "\<And>i. i < length xs \<Longrightarrow> cells src i = Some (xs ! i)" "0 \<notin> set xs"
    by (auto simp: cstr_def)
  have cp: "memcpy (kmalloc g (?n + 1)) 0 arr 0 (length xs) =
      Inr (Some (ob\<lparr>cells := (\<lambda>i. if i < length xs then cells src i else cells ob i)\<rparr>), length xs)"
    using memcpy_cells [of 0 "length xs" ob 0 src] sz src by (auto simp: ob intro!: kobj_cells_cong)
  let ?d = "ob\<lparr>cells := (\<lambda>i. if i < length xs then cells src i else cells ob i)
                        (length xs \<mapsto> 0)\<rparr>"
  have "qstr_from_null_terminated_string g arr =
      Inr \<lparr>qdata = Some ?d, qlength = ?n, qhash = 0\<rparr>"
    using sz
    by (simp add: qstr_from_null_terminated_string_def strlen_cstr [OF str]
        qstr_from_length_string_def n cp kwrite_def in_object_def)
  moreover have "cstr (Some ?d) 0 xs"
    using src sz by (auto simp: cstr_def)
  ultimately show ?thesis by (simp add: qstr_ok_def)
qed

end
