(* ===== verification/Priority_Queue.thy ===== *)
theory Priority_Queue
  imports Kernel_Objects
begin

section \<open>The priority queue: \<open>ds/priority_queue.c\<close>\<close>

text \<open>
  A binary heap of pointers to nodes, stored from index 1 on; every node carries the index
  it is stored at, so that it can be removed from the middle. The nodes live in a store
  from addresses to nodes, the array is a kernel object of pointers.

  C's \<open>int\<close> is \<open>int\<close> here: a heap array has fewer than \<open>2^30\<close> entries (its size in bytes is
  a 32-bit number), so no index computed by the code (at most twice the count, plus one)
  leaves the range of a 32-bit integer; priorities are only compared.
\<close>

record prq_node =
  prq_index :: int
  priority :: int
  prq_data :: u32

record prq_handle =
  prq_heap :: "u32 kptr"
  prq_cnt :: int
  prq_heap_size :: int

type_synonym node_store = "ptr \<Rightarrow> prq_node option"

subsection \<open>Accesses\<close>

definition node_at :: "node_store \<Rightarrow> ptr \<Rightarrow> fault + prq_node" where
  "node_at S p =
     (if p = NULL then Inl NullDeref
      else case S p of None \<Rightarrow> Inl OutOfBounds | Some nd \<Rightarrow> Inr nd)"

definition set_index :: "node_store \<Rightarrow> ptr \<Rightarrow> int \<Rightarrow> fault + node_store" where
  "set_index S p idx = bindE (node_at S p) (\<lambda>nd. Inr (S(p \<mapsto> nd\<lparr>prq_index := idx\<rparr>)))"

definition heap_at :: "prq_handle \<Rightarrow> int \<Rightarrow> fault + ptr" where
  "heap_at q idx = (if idx < 0 then Inl OutOfBounds else rd32 (prq_heap q) (nat idx))"

definition heap_put :: "prq_handle \<Rightarrow> int \<Rightarrow> ptr \<Rightarrow> fault + prq_handle" where
  "heap_put q idx p =
     (if idx < 0 then Inl OutOfBounds
      else bindE (wr32 (prq_heap q) (nat idx) p) (\<lambda>hp. Inr (q\<lparr>prq_heap := hp\<rparr>)))"

definition priority_at :: "node_store \<Rightarrow> prq_handle \<Rightarrow> int \<Rightarrow> fault + int" where
  "priority_at S q idx =
     bindE (heap_at q idx) (\<lambda>p. bindE (node_at S p) (\<lambda>nd. Inr (priority nd)))"

subsection \<open>Operations\<close>

function prq_shift_up ::
    "node_store \<Rightarrow> prq_handle \<Rightarrow> int \<Rightarrow> fault + (node_store \<times> prq_handle)" where
  "prq_shift_up S q idx =
     (if idx > 1
      then
        bindE (priority_at S q idx) (\<lambda>pi.
        bindE (priority_at S q (idx div 2)) (\<lambda>pj.
        if pi < pj
        then
          bindE (heap_at q idx) (\<lambda>node.
          bindE (heap_at q (idx div 2)) (\<lambda>parent.
          bindE (set_index S parent idx) (\<lambda>S.
          bindE (set_index S node (idx div 2)) (\<lambda>S.
          bindE (heap_put q idx parent) (\<lambda>q.
          bindE (heap_put q (idx div 2) node) (\<lambda>q.
          prq_shift_up S q (idx div 2)))))))
        else Inr (S, q)))
      else Inr (S, q))"
  by pat_completeness auto
termination
  by (relation "measure (\<lambda>(S, q, idx). nat idx)") auto

declare prq_shift_up.simps [simp del]

lemma heap_put_count: "heap_put q i p = Inr q' \<Longrightarrow> prq_cnt q' = prq_cnt q"
  by (auto simp: heap_put_def bindE_Inr_iff split: if_splits)

lemma priority_at_nonneg: "priority_at S q idx = Inr x \<Longrightarrow> 0 \<le> idx"
  by (auto simp: priority_at_def heap_at_def bindE_Inr_iff split: if_splits)

function prq_shift_down ::
    "node_store \<Rightarrow> prq_handle \<Rightarrow> int \<Rightarrow> fault + (node_store \<times> prq_handle)" where
  "prq_shift_down S q idx =
     (if idx * 2 > prq_cnt q then Inr (S, q)
      else
        bindE
          (if idx * 2 < prq_cnt q
           then bindE (priority_at S q (idx * 2)) (\<lambda>a.
                bindE (priority_at S q (idx * 2 + 1)) (\<lambda>b.
                Inr (if a > b then idx * 2 + 1 else idx * 2)))
           else Inr (idx * 2))
          (\<lambda>cidx.
        bindE (priority_at S q cidx) (\<lambda>pc.
        bindE (priority_at S q idx) (\<lambda>pi.
        if pc < pi
        then
          bindE (heap_at q cidx) (\<lambda>node.
          bindE (heap_at q idx) (\<lambda>child.
          bindE (set_index S node idx) (\<lambda>S.
          bindE (set_index S child cidx) (\<lambda>S.
          bindE (heap_put q cidx child) (\<lambda>q.
          bindE (heap_put q idx node) (\<lambda>q.
          prq_shift_down S q cidx))))))
        else Inr (S, q)))))"
  by pat_completeness auto
termination
proof (relation "measure (\<lambda>(S, q, idx). nat (prq_cnt q - idx))", goal_cases)
  case 1
  then show ?case by simp
next
  case (2 S q idx cidx pc pi node child S' S'' q' q'')
  then have "prq_cnt q'' = prq_cnt q" by (auto dest!: heap_put_count)
  moreover have "0 \<le> idx" using 2 priority_at_nonneg by blast
  moreover have "cidx \<noteq> idx" using 2 by auto
  moreover have "cidx = idx * 2 \<or> cidx = idx * 2 + 1 \<and> idx * 2 < prq_cnt q"
    using 2(2) by (auto simp: bindE_Inr_iff split: if_splits)
  ultimately show ?case using 2(1) by auto
qed

declare prq_shift_down.simps [simp del]

text \<open>\<open>sizeof(prq_node)\<close>: three words.\<close>

definition prq_create_node :: "grant \<Rightarrow> u32 kptr" where
  "prq_create_node g = kmalloc g 12"

definition prq_free_node :: "node_store \<Rightarrow> ptr \<Rightarrow> fault + node_store" where
  "prq_free_node S node = bindE (assertE (node \<noteq> NULL)) (\<lambda>_. Inr (S(node := None)))"

definition prq_peek :: "prq_handle \<Rightarrow> fault + ptr" where
  "prq_peek q = (if prq_cnt q > 0 then heap_at q 1 else Inr NULL)"

definition prq_count :: "prq_handle \<Rightarrow> int" where
  "prq_count q = prq_cnt q"

definition prq_amortize :: "grant \<Rightarrow> prq_handle \<Rightarrow> prq_handle" where
  "prq_amortize g q =
     (let new_heap_size = prq_heap_size q * 2 in
      q\<lparr>prq_heap := krealloc 4 g (prq_heap q) (4 * of_int new_heap_size),
        prq_heap_size := new_heap_size\<rparr>)"

definition prq_enqueue ::
    "grant \<Rightarrow> node_store \<Rightarrow> prq_handle \<Rightarrow> ptr \<Rightarrow> fault + (node_store \<times> prq_handle)" where
  "prq_enqueue g S q node =
     bindE (assertE (node \<noteq> NULL)) (\<lambda>_.
     let index = prq_cnt q + 1 in
     bindE (set_index S node index) (\<lambda>S.
     bindE (heap_put q index node) (\<lambda>q.
     let q = q\<lparr>prq_cnt := prq_cnt q + 1\<rparr> in
     bindE (prq_shift_up S q index) (\<lambda>(S, q).
     Inr (S, if prq_cnt q + 1 = prq_heap_size q then prq_amortize g q else q)))))"

definition prq_remove ::
    "node_store \<Rightarrow> prq_handle \<Rightarrow> ptr \<Rightarrow> fault + (node_store \<times> prq_handle)" where
  "prq_remove S q node =
     bindE (assertE (node \<noteq> NULL)) (\<lambda>_.
     if prq_cnt q = 0 then Inr (S, q)
     else
       bindE (heap_at q (prq_cnt q)) (\<lambda>end_node.
       bindE (node_at S node) (\<lambda>nd.
       let index = prq_index nd in
       bindE (set_index S end_node index) (\<lambda>S.
       if index = -1 then Inr (S, q)
       else
         bindE (set_index S node (-1)) (\<lambda>S.
         bindE (heap_put q index end_node) (\<lambda>q.
         bindE (heap_put q (prq_cnt q + 1) NULL) (\<lambda>q.
         let q = q\<lparr>prq_cnt := prq_cnt q - 1\<rparr> in
         bindE (prq_shift_up S q index) (\<lambda>(S, q).
         prq_shift_down S q index))))))))"

definition prq_dequeue ::
    "node_store \<Rightarrow> prq_handle \<Rightarrow> fault + (ptr \<times> node_store \<times> prq_handle)" where
  "prq_dequeue S q =
     (if prq_cnt q = 0 then Inr (NULL, S, q)
      else
        bindE (heap_at q 1) (\<lambda>top.
        bindE (heap_at q (prq_cnt q)) (\<lambda>end_node.
        bindE (set_index S end_node 1) (\<lambda>S.
        bindE (set_index S top (-1)) (\<lambda>S.
        bindE (heap_put q 1 end_node) (\<lambda>q.
        bindE (heap_put q (prq_cnt q) NULL) (\<lambda>q.
        let q = q\<lparr>prq_cnt := prq_cnt q - 1\<rparr> in
        bindE (prq_shift_down S q 1) (\<lambda>(S, q).
        Inr (top, S, q)))))))))"

text \<open>\<open>sizeof(prq_handle)\<close> is three words; the struct is written without a check for \<open>NULL\<close>.\<close>

definition prq_create_fixed :: "grant \<Rightarrow> grant \<Rightarrow> int \<Rightarrow> fault + prq_handle" where
  "prq_create_fixed g g' n =
     bindE (assertE (n \<ge> 1)) (\<lambda>_.
     if g 12 = None then Inl NullDeref
     else Inr \<lparr>prq_heap = kmalloc g' (4 * of_int (n + 1)), prq_cnt = 0, prq_heap_size = n + 1\<rparr>)"

definition prq_create :: "grant \<Rightarrow> grant \<Rightarrow> fault + prq_handle" where
  "prq_create g g' = prq_create_fixed g g' 10"

definition prq_free :: "prq_handle \<Rightarrow> fault + u32 kptr" where
  "prq_free q = bindE (assertE (prq_cnt q = 0)) (\<lambda>_. Inr (prq_heap q))"


subsection \<open>Binary heaps as functions\<close>

text \<open>
  The same loops on the array alone: \<open>A\<close> gives the element at each index, \<open>f\<close> the priority
  of an element. \<open>heap_ord f A n\<close>: every element up to \<open>n\<close> is no smaller than its parent.
\<close>

definition exchange :: "(nat \<Rightarrow> 'a) \<Rightarrow> nat \<Rightarrow> nat \<Rightarrow> nat \<Rightarrow> 'a" where
  "exchange A i j = A(i := A j, j := A i)"

definition heap_ord :: "('a \<Rightarrow> int) \<Rightarrow> (nat \<Rightarrow> 'a) \<Rightarrow> nat \<Rightarrow> bool" where
  "heap_ord f A n \<longleftrightarrow> (\<forall>k. 2 \<le> k \<and> k \<le> n \<longrightarrow> f (A (k div 2)) \<le> f (A k))"

fun sift_up :: "('a \<Rightarrow> int) \<Rightarrow> (nat \<Rightarrow> 'a) \<Rightarrow> nat \<Rightarrow> nat \<Rightarrow> 'a" where
  "sift_up f A i =
     (if i > 1 \<and> f (A i) < f (A (i div 2)) then sift_up f (exchange A i (i div 2)) (i div 2) else A)"

declare sift_up.simps [simp del]

definition smaller_child :: "('a \<Rightarrow> int) \<Rightarrow> (nat \<Rightarrow> 'a) \<Rightarrow> nat \<Rightarrow> nat \<Rightarrow> nat" where
  "smaller_child f A n i =
     (if 2 * i < n \<and> f (A (2 * i)) > f (A (2 * i + 1)) then 2 * i + 1 else 2 * i)"

lemma smaller_child_cases: "smaller_child f A n i = 2 * i \<or> smaller_child f A n i = 2 * i + 1 \<and> 2 * i < n"
  by (simp add: smaller_child_def)

function sift_down :: "('a \<Rightarrow> int) \<Rightarrow> (nat \<Rightarrow> 'a) \<Rightarrow> nat \<Rightarrow> nat \<Rightarrow> nat \<Rightarrow> 'a" where
  "sift_down f A n i =
     (if 2 * i > n then A
      else
        (let c = smaller_child f A n i in
         if f (A c) < f (A i) then sift_down f (exchange A c i) n c else A))"
  by pat_completeness auto
termination
proof (relation "measure (\<lambda>(f, A, n, i). n - i)", goal_cases)
  case 1
  then show ?case by simp
next
  case (2 f A n i c)
  then have "c \<noteq> i" by auto
  with 2 smaller_child_cases [of f A n i] show ?case by auto
qed

declare sift_down.simps [simp del]

lemma exchange_simps:
  "exchange A i j i = A j" "exchange A i j j = A i"
  "k \<noteq> i \<Longrightarrow> k \<noteq> j \<Longrightarrow> exchange A i j k = A k"
  by (auto simp: exchange_def)

lemma exchange_image: "i \<in> X \<Longrightarrow> j \<in> X \<Longrightarrow> exchange A i j ` X = A ` X"
  by (auto simp: exchange_def image_iff split: if_splits)

lemma sift_up_image: "1 \<le> i \<Longrightarrow> i \<le> n \<Longrightarrow> sift_up f A i ` {1..n} = A ` {1..n}"
proof (induction f A i rule: sift_up.induct)
  case (1 f A i)
  show ?case
  proof (cases "i > 1 \<and> f (A i) < f (A (i div 2))")
    case True
    with "1.prems" have "1 \<le> i div 2" "i div 2 \<le> n" by auto
    with True "1.IH" have "sift_up f (exchange A i (i div 2)) (i div 2) ` {1..n} =
        exchange A i (i div 2) ` {1..n}" by simp
    also have "\<dots> = A ` {1..n}" using True "1.prems" by (intro exchange_image) auto
    finally show ?thesis using True by (subst sift_up.simps) simp
  next
    case False
    then show ?thesis by (subst sift_up.simps) auto
  qed
qed

lemma sift_down_image: "1 \<le> i \<Longrightarrow> i \<le> n \<Longrightarrow> sift_down f A n i ` {1..n} = A ` {1..n}"
proof (induction f A n i rule: sift_down.induct)
  case (1 f A n i)
  let ?c = "smaller_child f A n i"
  show ?case
  proof (cases "\<not> 2 * i > n \<and> f (A ?c) < f (A i)")
    case True
    with smaller_child_cases [of f A n i] "1.prems" have c: "1 \<le> ?c" "?c \<le> n" by auto
    with True "1.IH" [of ?c] have "sift_down f (exchange A ?c i) n ?c ` {1..n} =
        exchange A ?c i ` {1..n}" by simp
    also have "\<dots> = A ` {1..n}" using c "1.prems" by (intro exchange_image) auto
    finally show ?thesis using True by (subst sift_down.simps) (simp add: Let_def)
  next
    case False
    then show ?thesis by (subst sift_down.simps) (auto simp: Let_def)
  qed
qed

text \<open>
  Where the order may be broken only between \<open>i\<close> and its parent, moving the element up
  restores it; the second condition covers the children of \<open>i\<close> when \<open>i\<close> gets its parent's
  element.
\<close>

definition heap_but_up :: "('a \<Rightarrow> int) \<Rightarrow> (nat \<Rightarrow> 'a) \<Rightarrow> nat \<Rightarrow> nat \<Rightarrow> bool" where
  "heap_but_up f A n i \<longleftrightarrow>
     (\<forall>k. 2 \<le> k \<and> k \<le> n \<and> k \<noteq> i \<longrightarrow> f (A (k div 2)) \<le> f (A k)) \<and>
     (\<forall>k. k \<le> n \<and> k div 2 = i \<and> 2 \<le> i \<longrightarrow> f (A (i div 2)) \<le> f (A k))"

lemma heap_but_up_step:
  assumes h: "heap_but_up f A n i" and i: "1 < i" "i \<le> n" and lt: "f (A i) < f (A (i div 2))"
  shows "heap_but_up f (exchange A i (i div 2)) n (i div 2)"
proof -
  let ?j = "i div 2" and ?B = "exchange A i (i div 2)"
  from i have j: "?j \<noteq> i" "1 \<le> ?j" "?j \<le> n" by auto
  have up: "f (A (k div 2)) \<le> f (A k)" if "2 \<le> k" "k \<le> n" "k \<noteq> i" for k
    using h that by (auto simp: heap_but_up_def)
  have ch: "f (A ?j) \<le> f (A k)" if "k \<le> n" "k div 2 = i" for k
    using h that i by (auto simp: heap_but_up_def)
  have 1: "f (?B (k div 2)) \<le> f (?B k)" if k: "2 \<le> k" "k \<le> n" "k \<noteq> ?j" for k
  proof (cases "k = i")
    case True
    with lt show ?thesis by (simp add: exchange_simps)
  next
    case False
    with k have B: "?B k = A k" by (simp add: exchange_simps)
    consider "k div 2 = i" | "k div 2 = ?j" "k div 2 \<noteq> i" | "k div 2 \<noteq> i" "k div 2 \<noteq> ?j" by blast
    then show ?thesis
    proof cases
      case 1
      with ch k B show ?thesis by (simp add: exchange_simps)
    next
      case 2
      with up [of k] k False lt B show ?thesis by (simp add: exchange_simps)
    next
      case 3
      with up [of k] k False B show ?thesis by (simp add: exchange_simps)
    qed
  qed
  have 2: "f (?B (?j div 2)) \<le> f (?B k)" if k: "k \<le> n" "k div 2 = ?j" "2 \<le> ?j" for k
  proof -
    have "?j div 2 \<noteq> i" "?j div 2 \<noteq> ?j" using k(3) i by auto
    then have B: "?B (?j div 2) = A (?j div 2)" by (simp add: exchange_simps)
    have jj: "f (A (?j div 2)) \<le> f (A ?j)" using up [of ?j] k(3) j by simp
    show ?thesis
    proof (cases "k = i")
      case True
      with jj B show ?thesis by (simp add: exchange_simps)
    next
      case False
      moreover have "k \<noteq> ?j" using k by auto
      ultimately have "?B k = A k" by (simp add: exchange_simps)
      with up [of k] k False jj B show ?thesis by (cases "2 \<le> k") auto
    qed
  qed
  from 1 2 show ?thesis by (simp add: heap_but_up_def)
qed

lemma sift_up_heap:
  "heap_but_up f A n i \<Longrightarrow> 1 \<le> i \<Longrightarrow> i \<le> n \<Longrightarrow> heap_ord f (sift_up f A i) n"
proof (induction f A i rule: sift_up.induct)
  case (1 f A i)
  show ?case
  proof (cases "i > 1 \<and> f (A i) < f (A (i div 2))")
    case True
    with "1.prems" have "heap_but_up f (exchange A i (i div 2)) n (i div 2)"
      by (intro heap_but_up_step) auto
    with True "1.prems" "1.IH" have "heap_ord f (sift_up f (exchange A i (i div 2)) (i div 2)) n"
      by auto
    with True show ?thesis by (subst sift_up.simps) simp
  next
    case False
    have "f (A (k div 2)) \<le> f (A k)" if "2 \<le> k" "k \<le> n" for k
      using that "1.prems"(1) False by (cases "k = i") (auto simp: heap_but_up_def)
    with False show ?thesis by (subst sift_up.simps) (auto simp: heap_ord_def)
  qed
qed

text \<open>The same for a break between \<open>i\<close> and its children, moving the element down.\<close>

definition heap_but_down :: "('a \<Rightarrow> int) \<Rightarrow> (nat \<Rightarrow> 'a) \<Rightarrow> nat \<Rightarrow> nat \<Rightarrow> bool" where
  "heap_but_down f A n i \<longleftrightarrow>
     (\<forall>k. 2 \<le> k \<and> k \<le> n \<and> k div 2 \<noteq> i \<longrightarrow> f (A (k div 2)) \<le> f (A k)) \<and>
     (\<forall>k. k \<le> n \<and> k div 2 = i \<and> 2 \<le> i \<longrightarrow> f (A (i div 2)) \<le> f (A k))"

lemma smaller_child_le:
  assumes "k \<le> n" and "k div 2 = i" and "1 \<le> i"
  shows "f (A (smaller_child f A n i)) \<le> f (A k)"
proof -
  from assms have "k = 2 * i \<or> k = 2 * i + 1 \<and> 2 * i < n" by auto
  then show ?thesis by (auto simp: smaller_child_def)
qed

lemma heap_but_down_step:
  assumes h: "heap_but_down f A n i" and i: "1 \<le> i" "2 * i \<le> n"
    and lt: "f (A (smaller_child f A n i)) < f (A i)"
  defines "c \<equiv> smaller_child f A n i"
  shows "heap_but_down f (exchange A c i) n c"
proof -
  let ?B = "exchange A c i"
  have c: "c div 2 = i" "c \<le> n" "c \<noteq> i" "2 \<le> c"
    using smaller_child_cases [of f A n i] i by (auto simp: c_def)
  have dn: "f (A (k div 2)) \<le> f (A k)" if "2 \<le> k" "k \<le> n" "k div 2 \<noteq> i" for k
    using h that by (auto simp: heap_but_down_def)
  have up: "f (A (i div 2)) \<le> f (A k)" if "k \<le> n" "k div 2 = i" "2 \<le> i" for k
    using h that by (auto simp: heap_but_down_def)
  have sib: "f (A c) \<le> f (A k)" if "k \<le> n" "k div 2 = i" for k
    unfolding c_def by (rule smaller_child_le) (use that i in auto)
  have 1: "f (?B (k div 2)) \<le> f (?B k)" if k: "2 \<le> k" "k \<le> n" "k div 2 \<noteq> c" for k
  proof -
    consider "k = c" | "k \<noteq> c" "k div 2 = i" | "k = i" | "k \<noteq> c" "k \<noteq> i" "k div 2 \<noteq> i" by blast
    then show ?thesis
    proof cases
      case 1
      with lt c show ?thesis by (simp add: exchange_simps c_def)
    next
      case 2
      moreover from 2 k have "k \<noteq> i" by auto
      ultimately show ?thesis using sib [of k] k by (simp add: exchange_simps)
    next
      case 3
      with k have "i div 2 \<noteq> i" by auto
      with 3 k up [of c] c show ?thesis by (simp add: exchange_simps)
    next
      case 4
      with dn [of k] k show ?thesis by (simp add: exchange_simps)
    qed
  qed
  have 2: "f (?B (c div 2)) \<le> f (?B k)" if k: "k \<le> n" "k div 2 = c" for k
  proof -
    from k c have "k \<noteq> c" "k \<noteq> i" "k div 2 \<noteq> i" "2 \<le> k" by auto
    with dn [of k] k c show ?thesis by (simp add: exchange_simps)
  qed
  from 1 2 show ?thesis by (simp add: heap_but_down_def)
qed

lemma sift_down_heap:
  "heap_but_down f A n i \<Longrightarrow> 1 \<le> i \<Longrightarrow> heap_ord f (sift_down f A n i) n"
proof (induction f A n i rule: sift_down.induct)
  case (1 f A n i)
  let ?c = "smaller_child f A n i"
  show ?case
  proof (cases "\<not> 2 * i > n \<and> f (A ?c) < f (A i)")
    case True
    with "1.prems" have "heap_but_down f (exchange A ?c i) n ?c"
      by (intro heap_but_down_step) auto
    moreover have "1 \<le> ?c" using smaller_child_cases [of f A n i] "1.prems"(2) by auto
    ultimately have "heap_ord f (sift_down f (exchange A ?c i) n ?c) n"
      using True "1.IH" [of ?c] by simp
    with True show ?thesis by (subst sift_down.simps) (simp add: Let_def)
  next
    case False
    have "f (A (k div 2)) \<le> f (A k)" if "2 \<le> k" "k \<le> n" for k
    proof (cases "k div 2 = i")
      case True
      with that have "2 * i \<le> n" by auto
      with False smaller_child_le [of k n i f A] that True "1.prems"(2) show ?thesis by auto
    next
      case False
      with that "1.prems"(1) show ?thesis by (auto simp: heap_but_down_def)
    qed
    then have "heap_ord f A n" by (simp add: heap_ord_def)
    with False show ?thesis by (subst sift_down.simps) (auto simp: Let_def)
  qed
qed

lemma heap_ord_min: "heap_ord f A n \<Longrightarrow> 1 \<le> k \<Longrightarrow> k \<le> n \<Longrightarrow> f (A 1) \<le> f (A k)"
proof (induction k rule: less_induct)
  case (less k)
  show ?case
  proof (cases "k = 1")
    case False
    with less.prems have "f (A (k div 2)) \<le> f (A k)" by (auto simp: heap_ord_def)
    moreover have "f (A 1) \<le> f (A (k div 2))" using less.prems False by (intro less.IH) auto
    ultimately show ?thesis by simp
  qed simp
qed


subsection \<open>The array and the nodes represent a heap\<close>

text \<open>
  \<open>prq_cells S hp A n\<close>: the object \<open>hp\<close> holds the distinct nodes \<open>A 1, ..., A n\<close>, each knows its
  index. \<open>prq_frame S S' X\<close>: from \<open>S\<close> to \<open>S'\<close> only the indices
  of the nodes in \<open>X\<close> may have changed.
\<close>

definition prq_cells :: "node_store \<Rightarrow> u32 kptr \<Rightarrow> (nat \<Rightarrow> ptr) \<Rightarrow> nat \<Rightarrow> bool" where
  "prq_cells S hp A n \<longleftrightarrow>
     (\<exists>ob. hp = Some ob \<and> 4 * (n + 1) \<le> unat (osize ob) \<and>
        (\<forall>i. 1 \<le> i \<and> i \<le> n \<longrightarrow>
           cells ob i = Some (A i) \<and> A i \<noteq> NULL \<and>
           (\<exists>nd. S (A i) = Some nd \<and> prq_index nd = int i)))"

definition prio_of :: "node_store \<Rightarrow> ptr \<Rightarrow> int" where
  "prio_of S a = priority (the (S a))"

definition forget_index :: "prq_node \<Rightarrow> prq_node" where
  "forget_index nd = nd\<lparr>prq_index := 0\<rparr>"

definition prq_frame :: "node_store \<Rightarrow> node_store \<Rightarrow> ptr set \<Rightarrow> bool" where
  "prq_frame S S' X \<longleftrightarrow>
     (\<forall>a. (a \<notin> X \<longrightarrow> S' a = S a) \<and>
          map_option forget_index (S' a) = map_option forget_index (S a))"

lemma prq_frame_refl [simp]: "prq_frame S S X"
  by (simp add: prq_frame_def)

lemma prq_frame_trans: "prq_frame S S' X \<Longrightarrow> prq_frame S' S'' X \<Longrightarrow> prq_frame S S'' X"
  by (auto simp: prq_frame_def)

lemma prq_frame_mono: "prq_frame S S' X \<Longrightarrow> X \<subseteq> Y \<Longrightarrow> prq_frame S S' Y"
  by (auto simp: prq_frame_def)

lemma prq_frame_upd:
  "S a = Some nd \<Longrightarrow> a \<in> X \<Longrightarrow> prq_frame S (S(a \<mapsto> nd\<lparr>prq_index := i\<rparr>)) X"
  by (auto simp: prq_frame_def forget_index_def)

lemma prq_frame_prio: "prq_frame S S' X \<Longrightarrow> prio_of S' a = prio_of S a"
proof -
  assume "prq_frame S S' X"
  then have "map_option forget_index (S' a) = map_option forget_index (S a)"
    by (simp add: prq_frame_def)
  then show ?thesis
    by (cases "S a"; cases "S' a") (auto simp: prio_of_def forget_index_def prq_node.ext_inject
        dest: arg_cong [where f = priority])
qed

lemma prq_frame_dom: "prq_frame S S' X \<Longrightarrow> S' a = None \<longleftrightarrow> S a = None"
  by (metis option.map_disc_iff prq_frame_def)

lemma prq_frame_data: "prq_frame S S' X \<Longrightarrow> S a = Some nd \<Longrightarrow> \<exists>nd'. S' a = Some nd' \<and> prq_data nd' = prq_data nd \<and> priority nd' = priority nd"
proof -
  assume "prq_frame S S' X" "S a = Some nd"
  then have "map_option forget_index (S' a) = Some (forget_index nd)"
    by (simp add: prq_frame_def)
  then obtain nd' where "S' a = Some nd'" "forget_index nd' = forget_index nd" by auto
  then show ?thesis
    by (auto simp: forget_index_def dest: arg_cong [where f = priority] arg_cong [where f = prq_data])
qed

lemma prq_cells_node:
  "prq_cells S hp A n \<Longrightarrow> 1 \<le> i \<Longrightarrow> i \<le> n \<Longrightarrow>
   \<exists>nd. S (A i) = Some nd \<and> A i \<noteq> NULL \<and> prq_index nd = int i"
  by (auto simp: prq_cells_def)

lemma prq_cells_inj:
  assumes "prq_cells S hp A n"
  shows "inj_on A {1..n}"
proof (rule inj_onI)
  fix i j assume "i \<in> {1..n}" "j \<in> {1..n}" "A i = A j"
  with assms obtain a b where "S (A i) = Some a" "prq_index a = int i"
    "S (A j) = Some b" "prq_index b = int j"
    using prq_cells_node [of S hp A n] by (metis atLeastAtMost_iff)
  with \<open>A i = A j\<close> show "i = j" by simp
qed

lemma prq_cells_heap_at:
  "prq_cells S (prq_heap q) A n \<Longrightarrow> 1 \<le> i \<Longrightarrow> i \<le> n \<Longrightarrow> heap_at q (int i) = Inr (A i)"
  by (auto simp: prq_cells_def heap_at_def kread_def in_object_def)

lemma prq_cells_node_at:
  "prq_cells S hp A n \<Longrightarrow> 1 \<le> i \<Longrightarrow> i \<le> n \<Longrightarrow> node_at S (A i) = Inr (the (S (A i)))"
  by (drule (2) prq_cells_node) (auto simp: node_at_def)

lemma prq_cells_priority_at:
  "prq_cells S (prq_heap q) A n \<Longrightarrow> 1 \<le> i \<Longrightarrow> i \<le> n \<Longrightarrow>
   priority_at S q (int i) = Inr (prio_of S (A i))"
  by (simp add: priority_at_def prq_cells_heap_at prq_cells_node_at prio_of_def)

lemma prq_cells_mono: "prq_cells S hp A n \<Longrightarrow> m \<le> n \<Longrightarrow> prq_cells S hp A m"
  by (auto simp: prq_cells_def)

text \<open>Count, size and the size of the array object are as they were.\<close>

definition prq_same :: "prq_handle \<Rightarrow> prq_handle \<Rightarrow> bool" where
  "prq_same q q' \<longleftrightarrow>
     prq_cnt q' = prq_cnt q \<and> prq_heap_size q' = prq_heap_size q \<and>
     map_option osize (prq_heap q') = map_option osize (prq_heap q)"

lemma prq_same_refl [simp]: "prq_same q q"
  by (simp add: prq_same_def)

lemma prq_same_trans: "prq_same q q' \<Longrightarrow> prq_same q' q'' \<Longrightarrow> prq_same q q''"
  by (simp add: prq_same_def)

text \<open>The four writes of a swap, in either order of the two index updates.\<close>

lemma prq_swap_cells:
  assumes rep: "prq_cells S (prq_heap q) A n" and i: "1 \<le> i" "i \<le> n" and j: "1 \<le> j" "j \<le> n"
    and ne: "i \<noteq> j"
  shows "\<exists>S1 S2 q1 q2. set_index S (A j) (int i) = Inr S1 \<and> set_index S1 (A i) (int j) = Inr S2 \<and>
           heap_put q (int i) (A j) = Inr q1 \<and> heap_put q1 (int j) (A i) = Inr q2 \<and>
           bindE (heap_put q (int j) (A i)) (\<lambda>q. heap_put q (int i) (A j)) = Inr q2 \<and>
           prq_cells S2 (prq_heap q2) (exchange A i j) n \<and> prq_same q q2 \<and>
           prq_frame S S2 (A ` {1..n})"
proof -
  from rep obtain ob where ob: "prq_heap q = Some ob" "4 * (n + 1) \<le> unat (osize ob)"
    and el: "\<And>k. 1 \<le> k \<Longrightarrow> k \<le> n \<Longrightarrow> cells ob k = Some (A k) \<and> A k \<noteq> NULL \<and>
       (\<exists>nd. S (A k) = Some nd \<and> prq_index nd = int k)"
    by (auto simp: prq_cells_def)
  obtain a b where a: "S (A i) = Some a" "A i \<noteq> NULL" and b: "S (A j) = Some b" "A j \<noteq> NULL"
    using el [OF i] el [OF j] by auto
  have d: "A k = A l \<longleftrightarrow> k = l" if "1 \<le> k" "k \<le> n" "1 \<le> l" "l \<le> n" for k l
    using prq_cells_inj [OF rep] that by (auto simp: inj_on_eq_iff)
  let ?S1 = "S(A j \<mapsto> b\<lparr>prq_index := int i\<rparr>)"
  let ?S2 = "?S1(A i \<mapsto> a\<lparr>prq_index := int j\<rparr>)"
  let ?ob = "ob\<lparr>cells := (cells ob)(i \<mapsto> A j, j \<mapsto> A i)\<rparr>"
  have ij: "A i \<noteq> A j" using d i j ne by simp
  have "set_index S (A j) (int i) = Inr ?S1" "set_index ?S1 (A i) (int j) = Inr ?S2"
    using a b ij by (simp_all add: set_index_def node_at_def)
  moreover have "heap_put q (int i) (A j) = Inr (q\<lparr>prq_heap := Some (ob\<lparr>cells := (cells ob)(i \<mapsto> A j)\<rparr>)\<rparr>)"
    "heap_put (q\<lparr>prq_heap := Some (ob\<lparr>cells := (cells ob)(i \<mapsto> A j)\<rparr>)\<rparr>) (int j) (A i) =
       Inr (q\<lparr>prq_heap := Some ?ob\<rparr>)"
    using ob i j by (simp_all add: heap_put_def kwrite_def in_object_def)
  moreover have "bindE (heap_put q (int j) (A i)) (\<lambda>q. heap_put q (int i) (A j)) =
       Inr (q\<lparr>prq_heap := Some ?ob\<rparr>)"
    using ob i j ne by (simp add: heap_put_def kwrite_def in_object_def fun_upd_twist)
  moreover have "prq_same q (q\<lparr>prq_heap := Some ?ob\<rparr>)"
    using ob by (simp add: prq_same_def)
  moreover have "prq_cells ?S2 (Some ?ob) (exchange A i j) n"
    unfolding prq_cells_def
  proof (intro exI [of _ ?ob] conjI allI impI; (elim conjE)?)
    fix k assume k: "1 \<le> k" "k \<le> n"
    show "cells ?ob k = Some (exchange A i j k)" using el [OF k] ne by (auto simp: exchange_def)
    show "exchange A i j k \<noteq> NULL" using el [OF k] a b by (auto simp: exchange_def)
    show "\<exists>nd. ?S2 (exchange A i j k) = Some nd \<and> prq_index nd = int k"
      using el [OF k] ij k i j d ne by (auto simp: exchange_def)
  qed (use ob in simp_all)
  moreover have "prq_frame S ?S2 (A ` {1..n})"
  proof (rule prq_frame_trans)
    show "prq_frame S ?S1 (A ` {1..n})" using b j by (intro prq_frame_upd) auto
    show "prq_frame ?S1 ?S2 (A ` {1..n})" using a i ij by (intro prq_frame_upd) auto
  qed
  ultimately show ?thesis
    by (intro exI [of _ ?S1] exI [of _ ?S2]
        exI [of _ "q\<lparr>prq_heap := Some (ob\<lparr>cells := (cells ob)(i \<mapsto> A j)\<rparr>)\<rparr>"]
        exI [of _ "q\<lparr>prq_heap := Some ?ob\<rparr>"]) simp
qed


lemma prq_frame_prio_fun: "prq_frame S S' X \<Longrightarrow> prio_of S' = prio_of S"
  by (rule ext) (rule prq_frame_prio)

lemma exchange_sym: "exchange A i j = exchange A j i"
  by (auto simp: exchange_def fun_eq_iff)

lemma prq_shift_up_ok:
  assumes "prq_cells S (prq_heap q) A n" and "1 \<le> i" and "i \<le> n"
  shows "\<exists>S' q'. prq_shift_up S q (int i) = Inr (S', q') \<and>
           prq_cells S' (prq_heap q') (sift_up (prio_of S) A i) n \<and> prq_same q q' \<and>
           prq_frame S S' (A ` {1..n})"
  using assms
proof (induction i arbitrary: S q A rule: less_induct)
  case (less i)
  let ?j = "i div 2"
  note pr = prq_cells_priority_at [OF less.prems(1)] and ha = prq_cells_heap_at [OF less.prems(1)]
  show ?case
  proof (cases "1 < i \<and> prio_of S (A i) < prio_of S (A ?j)")
    case False
    have "prq_shift_up S q (int i) = Inr (S, q)"
    proof (cases "1 < i")
      case True
      then have "1 \<le> ?j" "?j \<le> n" "int i div 2 = int ?j" using less.prems by auto
      with True False pr [of i] pr [of ?j] less.prems show ?thesis
        by (subst prq_shift_up.simps) simp
    next
      case False
      then show ?thesis by (subst prq_shift_up.simps) simp
    qed
    moreover have "sift_up (prio_of S) A i = A" using False by (subst sift_up.simps) auto
    ultimately show ?thesis using less.prems by simp
  next
    case True
    then have j: "1 \<le> ?j" "?j \<le> n" "i \<noteq> ?j" "?j < i" using less.prems by auto
    from prq_swap_cells [OF less.prems(1-3) j(1-3)] obtain S1 S2 q1 q2 where
      w: "set_index S (A ?j) (int i) = Inr S1" "set_index S1 (A i) (int ?j) = Inr S2"
        "heap_put q (int i) (A ?j) = Inr q1" "heap_put q1 (int ?j) (A i) = Inr q2"
      and rep: "prq_cells S2 (prq_heap q2) (exchange A i ?j) n" and sm: "prq_same q q2"
      and fr: "prq_frame S S2 (A ` {1..n})" by blast
    from less.IH [OF j(4) rep j(1,2)] obtain S' q' where
      r: "prq_shift_up S2 q2 (int ?j) = Inr (S', q')"
        "prq_cells S' (prq_heap q') (sift_up (prio_of S2) (exchange A i ?j) ?j) n"
        "prq_same q2 q'" "prq_frame S2 S' (exchange A i ?j ` {1..n})" by blast
    have im: "exchange A i ?j ` {1..n} = A ` {1..n}"
      using less.prems j by (intro exchange_image) auto
    have "int i div 2 = int ?j" "1 < int i" using True by simp_all
    then have "prq_shift_up S q (int i) = Inr (S', q')"
      using True pr [OF less.prems(2,3)] pr [OF j(1,2)] ha [OF less.prems(2,3)] ha [OF j(1,2)] w r(1)
      by (subst prq_shift_up.simps) simp
    moreover have "sift_up (prio_of S) A i = sift_up (prio_of S2) (exchange A i ?j) ?j"
      using True prq_frame_prio_fun [OF fr] by (subst sift_up.simps) simp
    ultimately show ?thesis
      using r sm fr im by (auto intro: prq_same_trans prq_frame_trans)
  qed
qed

lemma prq_shift_down_ok:
  assumes "prq_cells S (prq_heap q) A n" and "1 \<le> i" and "prq_cnt q = int n"
  shows "\<exists>S' q'. prq_shift_down S q (int i) = Inr (S', q') \<and>
           prq_cells S' (prq_heap q') (sift_down (prio_of S) A n i) n \<and> prq_same q q' \<and>
           prq_frame S S' (A ` {1..n})"
  using assms
proof (induction "n - i" arbitrary: i S q A rule: less_induct)
  case less
  let ?f = "prio_of S" and ?c = "smaller_child (prio_of S) A n i"
  note pr = prq_cells_priority_at [OF less.prems(1)] and ha = prq_cells_heap_at [OF less.prems(1)]
  show ?case
  proof (cases "2 * i > n")
    case True
    with less.prems show ?thesis
      by (auto simp: prq_shift_down.simps [of S q "int i"] sift_down.simps [of _ A n i])
  next
    case False
    then have c: "1 \<le> ?c" "?c \<le> n" "?c \<noteq> i" "i \<le> n"
      using smaller_child_cases [of ?f A n i] less.prems(2) by auto
    have ci: "(if int i * 2 < prq_cnt q
           then bindE (priority_at S q (int i * 2)) (\<lambda>a.
                bindE (priority_at S q (int i * 2 + 1)) (\<lambda>b.
                Inr (if a > b then int i * 2 + 1 else int i * 2)))
           else Inr (int i * 2)) = Inr (int ?c)"
      using pr [of "2 * i"] pr [of "2 * i + 1"] less.prems False
      by (auto simp: smaller_child_def mult.commute algebra_simps)
    show ?thesis
    proof (cases "?f (A ?c) < ?f (A i)")
      case nlt: False
      with False less.prems ci pr [of ?c] pr [of i] c have "prq_shift_down S q (int i) = Inr (S, q)"
        by (subst prq_shift_down.simps) simp
      moreover have "sift_down ?f A n i = A"
        using False nlt by (subst sift_down.simps) (simp add: Let_def)
      ultimately show ?thesis using less.prems by simp
    next
      case lt: True
      from prq_swap_cells [OF less.prems(1,2) c(4,1,2) c(3) [symmetric]] obtain S1 S2 q2 where
        w: "set_index S (A ?c) (int i) = Inr S1" "set_index S1 (A i) (int ?c) = Inr S2"
          "bindE (heap_put q (int ?c) (A i)) (\<lambda>q. heap_put q (int i) (A ?c)) = Inr q2"
        and rep: "prq_cells S2 (prq_heap q2) (exchange A i ?c) n" and sm: "prq_same q q2"
        and fr: "prq_frame S S2 (A ` {1..n})" by blast
      have "n - ?c < n - i" using c smaller_child_cases [of ?f A n i] less.prems(2) False by auto
      moreover have "prq_cnt q2 = int n" using sm less.prems(3) by (simp add: prq_same_def)
      ultimately obtain S' q' where
        r: "prq_shift_down S2 q2 (int ?c) = Inr (S', q')"
          "prq_cells S' (prq_heap q') (sift_down (prio_of S2) (exchange A i ?c) n ?c) n"
          "prq_same q2 q'" "prq_frame S2 S' (exchange A i ?c ` {1..n})"
        using less.hyps [OF _ rep c(1)] by blast
      have im: "exchange A i ?c ` {1..n} = A ` {1..n}"
        using less.prems c by (intro exchange_image) auto
      have "prq_shift_down S q (int i) = Inr (S', q')"
        using False lt less.prems ci pr [of ?c] pr [of i] ha [of ?c] ha [of i] c w r(1)
        by (subst prq_shift_down.simps) (auto simp: bindE_Inr_iff)
      moreover have "sift_down ?f A n i = sift_down (prio_of S2) (exchange A i ?c) n ?c"
        using False lt prq_frame_prio_fun [OF fr] exchange_sym [of A i ?c]
        by (subst sift_down.simps) (simp add: Let_def)
      ultimately show ?thesis
        using r sm fr im by (auto intro: prq_same_trans prq_frame_trans)
    qed
  qed
qed


subsection \<open>The invariant of the queue and its operations\<close>

lemma nat_one_plus_int [simp]: "nat (1 + int n) = Suc n"
  by simp

definition prq_inv :: "node_store \<Rightarrow> prq_handle \<Rightarrow> (nat \<Rightarrow> ptr) \<Rightarrow> bool" where
  "prq_inv S q A \<longleftrightarrow>
     0 \<le> prq_cnt q \<and> prq_cnt q + 1 < prq_heap_size q \<and>
     (case prq_heap q of None \<Rightarrow> False | Some ob \<Rightarrow> 4 * nat (prq_heap_size q) \<le> unat (osize ob)) \<and>
     prq_cells S (prq_heap q) A (nat (prq_cnt q)) \<and>
     heap_ord (prio_of S) A (nat (prq_cnt q))"

text \<open>The nodes in the queue, read off the array.\<close>

definition prq_elems :: "prq_handle \<Rightarrow> ptr set" where
  "prq_elems q =
     (case prq_heap q of
        None \<Rightarrow> {}
      | Some ob \<Rightarrow> (\<lambda>i. the (cells ob i)) ` {1..nat (prq_cnt q)})"

lemma prq_cells_elems:
  "prq_cells S (prq_heap q) A (nat (prq_cnt q)) \<Longrightarrow> prq_elems q = A ` {1..nat (prq_cnt q)}"
  by (auto simp: prq_cells_def prq_elems_def)

lemma prq_inv_elems: "prq_inv S q A \<Longrightarrow> prq_elems q = A ` {1..nat (prq_cnt q)}"
  by (rule prq_cells_elems [of S]) (simp add: prq_inv_def)

lemma prq_inv_same:
  assumes "prq_same q q'" and "0 \<le> prq_cnt q" and "prq_cnt q + 1 < prq_heap_size q"
    and "prq_heap q = Some ob" and "4 * nat (prq_heap_size q) \<le> unat (osize ob)"
    and "prq_cells S (prq_heap q') A (nat (prq_cnt q))" and "heap_ord (prio_of S) A (nat (prq_cnt q))"
  shows "prq_inv S q' A"
  using assms by (auto simp: prq_inv_def prq_same_def)

lemma set_index_node:
  "S a = Some nd \<Longrightarrow> a \<noteq> NULL \<Longrightarrow> set_index S a i = Inr (S(a \<mapsto> nd\<lparr>prq_index := i\<rparr>))"
  by (simp add: set_index_def node_at_def)

lemma heap_put_Some:
  "prq_heap q = Some ob \<Longrightarrow> 4 * (i + 1) \<le> unat (osize ob) \<Longrightarrow>
   heap_put q (int i) p = Inr (q\<lparr>prq_heap := Some (ob\<lparr>cells := (cells ob)(i \<mapsto> p)\<rparr>)\<rparr>)"
  by (simp add: heap_put_def kwrite_def in_object_def)

lemma prq_create_ok:
  assumes "kheap g'" and "1 \<le> n" and "n < 536870912" and "g 12 \<noteq> None" and "g' (4 * of_int (n + 1)) \<noteq> None"
  shows "\<exists>q. prq_create_fixed g g' n = Inr q \<and> prq_inv S q A \<and> prq_elems q = {} \<and>
           prq_heap_size q = n + 1"
proof -
  obtain ob :: "u32 kobj" where ob: "kmalloc g' (4 * of_int (n + 1)) = Some ob"
    using assms(5)
    by (cases "kmalloc g' (4 * of_int (n + 1)) :: u32 kptr") (auto simp: kmalloc_NULL_iff)
  have "unat (4 * of_int (n + 1) :: u32) = 4 * nat (n + 1)"
  proof -
    have "4 * of_int (n + 1) = (of_nat (4 * nat (n + 1)) :: u32)" using assms(2) by simp
    also have "unat \<dots> = 4 * nat (n + 1)" using assms(2,3) by (intro unat_of_nat_u32) simp
    finally show ?thesis .
  qed
  with kheap.kmalloc_size_ge [OF assms(1) ob] have "4 * nat (n + 1) \<le> unat (osize ob)"
    by (simp add: u32_le_unat)
  with assms ob show ?thesis
    by (auto simp: prq_create_fixed_def prq_inv_def prq_cells_def heap_ord_def prq_elems_def)
qed

text \<open>The part of \<open>prq_enqueue\<close> before the array is grown.\<close>

lemma prq_enqueue_store:
  assumes inv: "prq_inv S q A" and node: "S node = Some nd" "node \<noteq> NULL" "node \<notin> prq_elems q"
    and n: "n = nat (prq_cnt q)"
  defines "S1 \<equiv> S(node \<mapsto> nd\<lparr>prq_index := int (Suc n)\<rparr>)"
  shows "\<exists>q1. set_index S node (prq_cnt q + 1) = Inr S1 \<and>
           heap_put q (prq_cnt q + 1) node = Inr q1 \<and> prq_same q q1 \<and>
           prq_cells S1 (prq_heap q1) (A(Suc n := node)) (Suc n) \<and>
           heap_but_up (prio_of S) (A(Suc n := node)) (Suc n) (Suc n)"
proof -
  from inv n obtain ob where c: "prq_cnt q = int n" "int n + 1 < prq_heap_size q"
    and ob: "prq_heap q = Some ob" "4 * nat (prq_heap_size q) \<le> unat (osize ob)"
    and rep: "prq_cells S (Some ob) A n" and ho: "heap_ord (prio_of S) A n"
    by (auto simp: prq_inv_def split: option.splits)
  have elems: "prq_elems q = A ` {1..n}" using prq_inv_elems [OF inv] n by simp
  let ?ob = "ob\<lparr>cells := (cells ob)(Suc n \<mapsto> node)\<rparr>"
  have "n + 2 \<le> nat (prq_heap_size q)" using c by linarith
  then have "4 * (n + 2) \<le> 4 * nat (prq_heap_size q)" by (rule mult_le_mono2)
  with ob have room: "4 * (Suc n + 1) \<le> unat (osize ob)" by simp
  have "heap_put q (int (Suc n)) node = Inr (q\<lparr>prq_heap := Some ?ob\<rparr>)"
    using room ob(1) by (intro heap_put_Some) simp_all
  moreover have "prq_cells S1 (Some ?ob) (A(Suc n := node)) (Suc n)"
    using rep room node elems unfolding prq_cells_def S1_def
    by (auto simp: le_Suc_eq image_iff)
  moreover have "heap_but_up (prio_of S) (A(Suc n := node)) (Suc n) (Suc n)"
    using ho by (auto simp: heap_but_up_def heap_ord_def le_Suc_eq)
  ultimately show ?thesis
    using node ob c by (auto simp: set_index_node S1_def prq_same_def add.commute)
qed

lemma prq_amortize_ok:
  assumes heap: "kheap g" and grants: "\<And>k. g k \<noteq> None"
    and rep: "prq_cells S (prq_heap q) A n" and n: "prq_cnt q = int n"
    and sz: "prq_cnt q + 1 = prq_heap_size q" "prq_heap_size q < 268435456"
    and ho: "heap_ord (prio_of S) A n"
  shows "prq_inv S (prq_amortize g q) A"
proof -
  from rep obtain ob where ob: "prq_heap q = Some ob" "4 * (n + 1) \<le> unat (osize ob)"
    and el: "\<And>k. 1 \<le> k \<Longrightarrow> k \<le> n \<Longrightarrow> cells ob k = Some (A k) \<and> A k \<noteq> NULL \<and>
       (\<exists>nd. S (A k) = Some nd \<and> prq_index nd = int k)"
    by (auto simp: prq_cells_def)
  let ?m = "4 * of_int (prq_heap_size q * 2) :: u32"
  have m: "unat ?m = 8 * (n + 1)"
  proof -
    have "prq_heap_size q = int (n + 1)" using sz n by simp
    then have "?m = of_nat (8 * (n + 1))" by simp
    also have "unat \<dots> = 8 * (n + 1)" using sz n by (intro unat_of_nat_u32) simp
    finally show ?thesis .
  qed
  have "?m \<noteq> 0" using m by (metis add_is_0 mult_is_0 one_neq_zero unat_0 zero_neq_numeral)
  then obtain ob' where re: "krealloc 4 g (Some ob) ?m = Some ob'"
    using grants [of ?m]
    by (cases "krealloc 4 g (Some ob) ?m")
       (auto simp: krealloc_def kmalloc_def Let_def split: option.splits if_splits)
  have "?m \<le> osize ob'" by (rule kheap.krealloc_size_ge [OF heap re])
  then have big: "8 * (n + 1) \<le> unat (osize ob')" unfolding u32_le_unat m .
  have "cells ob' k = cells ob k" if "k \<le> n" for k
    using that ob krealloc_keeps [OF re, of k] by (simp add: in_object_def)
  with el big have "prq_cells S (Some ob') A n" by (auto simp: prq_cells_def)
  with ob re big sz n ho show ?thesis
    by (auto simp: prq_inv_def prq_amortize_def Let_def)
qed

lemma prq_enqueue_ok:
  assumes heap: "kheap g" and grants: "\<And>k. g k \<noteq> None" and inv: "prq_inv S q A"
    and node: "S node = Some nd" "node \<noteq> NULL" "node \<notin> prq_elems q"
    and small: "prq_heap_size q < 268435456"
  shows "\<exists>S' q' A'. prq_enqueue g S q node = Inr (S', q') \<and> prq_inv S' q' A' \<and>
           prq_elems q' = insert node (prq_elems q) \<and> prq_cnt q' = prq_cnt q + 1 \<and>
           prq_frame S S' (insert node (prq_elems q))"
proof -
  define n where "n = nat (prq_cnt q)"
  have cnt: "prq_cnt q = int n" "prq_cnt q + 1 < prq_heap_size q"
    using inv by (auto simp: prq_inv_def n_def)
  have elems: "prq_elems q = A ` {1..n}" using prq_inv_elems [OF inv] by (simp add: n_def)
  let ?S1 = "S(node \<mapsto> nd\<lparr>prq_index := int (Suc n)\<rparr>)" and ?B = "A(Suc n := node)"
  from prq_enqueue_store [OF inv node n_def] obtain q1 where
    st: "set_index S node (prq_cnt q + 1) = Inr ?S1" "heap_put q (prq_cnt q + 1) node = Inr q1"
      "prq_same q q1" "prq_cells ?S1 (prq_heap q1) ?B (Suc n)"
    and hb: "heap_but_up (prio_of S) ?B (Suc n) (Suc n)" by blast
  let ?q2 = "q1\<lparr>prq_cnt := prq_cnt q1 + 1\<rparr>"
  have fr1: "prq_frame S ?S1 (insert node (prq_elems q))"
    using node by (intro prq_frame_upd) auto
  have "prq_cells ?S1 (prq_heap ?q2) ?B (Suc n)" using st(4) by simp
  from prq_shift_up_ok [OF this, of "Suc n"] obtain S' q' where
    up: "prq_shift_up ?S1 ?q2 (int (Suc n)) = Inr (S', q')"
      "prq_cells S' (prq_heap q') (sift_up (prio_of ?S1) ?B (Suc n)) (Suc n)"
      "prq_same ?q2 q'" "prq_frame ?S1 S' (?B ` {1..Suc n})" by auto
  let ?C = "sift_up (prio_of S) ?B (Suc n)"
  have pS: "prio_of ?S1 = prio_of S" "prio_of S' = prio_of S"
    using prq_frame_prio_fun [OF fr1] prq_frame_prio_fun [OF up(4)] by simp_all
  have ho: "heap_ord (prio_of S') ?C (Suc n)"
    using sift_up_heap [OF hb] pS by simp
  have imB: "?B ` {1..Suc n} = insert node (prq_elems q)"
    by (auto simp: elems image_iff le_Suc_eq)
  have imC: "?C ` {1..Suc n} = insert node (prq_elems q)"
    using sift_up_image [of "Suc n" "Suc n" "prio_of S" ?B] imB by simp
  have fr: "prq_frame S S' (insert node (prq_elems q))"
    using prq_frame_trans [OF fr1] up(4) imB by simp
  have cq': "prq_cnt q' = int (Suc n)" "prq_heap_size q' = prq_heap_size q"
    using up(3) st(3) cnt by (auto simp: prq_same_def)
  have rep: "prq_cells S' (prq_heap q') ?C (Suc n)" using up(2) pS by simp
  let ?q3 = "if prq_cnt q' + 1 = prq_heap_size q' then prq_amortize g q' else q'"
  have enq: "prq_enqueue g S q node = Inr (S', ?q3)"
    using st node up(1) cnt by (simp add: prq_enqueue_def Let_def add.commute)
  have inv3: "prq_inv S' ?q3 ?C"
  proof (cases "prq_cnt q' + 1 = prq_heap_size q'")
    case True
    with prq_amortize_ok [OF heap grants rep _ _ _ ho] cq' small show ?thesis by simp
  next
    case False
    obtain ob where "prq_heap q = Some ob" "4 * nat (prq_heap_size q) \<le> unat (osize ob)"
      using inv by (auto simp: prq_inv_def split: option.splits)
    then have "case prq_heap q' of None \<Rightarrow> False | Some ob \<Rightarrow> 4 * nat (prq_heap_size q') \<le> unat (osize ob)"
      using up(3) st(3) cq' by (auto simp: prq_same_def split: option.splits)
    moreover have "nat (1 + int n) = Suc n" by simp
    ultimately show ?thesis using False rep ho cq' cnt by (simp add: prq_inv_def)
  qed
  have c3: "prq_cnt ?q3 = int (Suc n)" using cq' by (simp add: prq_amortize_def Let_def)
  then have "prq_elems ?q3 = insert node (prq_elems q)"
    using prq_inv_elems [OF inv3] imC by simp
  with enq inv3 fr c3 cnt show ?thesis by (intro exI [of _ S'] exI [of _ ?q3]) auto
qed


text \<open>A heap is in particular a heap up to a break below \<open>i\<close>.\<close>

lemma heap_ord_but_down:
  assumes "heap_ord f A n"
  shows "heap_but_down f A n i"
proof -
  have "f (A (i div 2)) \<le> f (A k)" if "k \<le> n" "k div 2 = i" "2 \<le> i" for k
  proof -
    have "f (A (i div 2)) \<le> f (A i)" "f (A i) \<le> f (A k)"
      using assms that by (auto simp: heap_ord_def)
    then show ?thesis by simp
  qed
  then show ?thesis using assms by (auto simp: heap_but_down_def heap_ord_def)
qed

text \<open>Putting the last element at \<open>i\<close>: the order is broken above or below \<open>i\<close>, never both.\<close>

lemma heap_replace_last:
  assumes ho: "heap_ord f A (Suc m)" and i: "1 \<le> i" "i \<le> m"
  defines "B \<equiv> A(i := A (Suc m))"
  shows "heap_ord f (sift_down f (sift_up f B i) m i) m"
proof (cases "1 < i \<and> f (B i) < f (B (i div 2))")
  case True
  have le: "f (A (k div 2)) \<le> f (A k)" if "2 \<le> k" "k \<le> Suc m" for k
    using ho that by (simp add: heap_ord_def)
  have "i div 2 \<noteq> i" using True by auto
  with True have lt: "f (A (Suc m)) < f (A (i div 2))" by (simp add: B_def)
  have gp: "f (A (i div 2)) \<le> f (A i)" using le [of i] True i by simp
  have "f (B (k div 2)) \<le> f (B k)" if k: "2 \<le> k" "k \<le> m" "k \<noteq> i" for k
    using le [of k] k lt gp by (auto simp: B_def)
  moreover have "f (B (i div 2)) \<le> f (B k)" if k: "k \<le> m" "k div 2 = i" for k
  proof -
    have "2 \<le> k" "k \<noteq> i" using k i by auto
    with le [of k] k gp \<open>i div 2 \<noteq> i\<close> show ?thesis by (simp add: B_def)
  qed
  ultimately have "heap_but_up f B m i" by (auto simp: heap_but_up_def)
  then have "heap_ord f (sift_up f B i) m" using i by (intro sift_up_heap) auto
  then show ?thesis using i by (intro sift_down_heap heap_ord_but_down) auto
next
  case False
  then have up: "sift_up f B i = B" by (subst sift_up.simps) auto
  have le: "f (A (k div 2)) \<le> f (A k)" if "2 \<le> k" "k \<le> Suc m" for k
    using ho that by (simp add: heap_ord_def)
  have "f (B (k div 2)) \<le> f (B k)" if k: "2 \<le> k" "k \<le> m" "k div 2 \<noteq> i" for k
    using le [of k] k False by (cases "k = i") (auto simp: B_def)
  moreover have "f (B (i div 2)) \<le> f (B k)" if k: "k \<le> m" "k div 2 = i" "2 \<le> i" for k
  proof -
    have "f (A (i div 2)) \<le> f (A i)" "f (A i) \<le> f (A k)"
      using le [of i] le [of k] k i by auto
    moreover have "i div 2 \<noteq> i" "k \<noteq> i" using k by auto
    ultimately show ?thesis by (simp add: B_def)
  qed
  ultimately have "heap_but_down f B m i" by (simp add: heap_but_down_def)
  then show ?thesis unfolding up by (rule sift_down_heap) (rule i)
qed

lemma image_replace_last:
  assumes "inj_on A {1..Suc m}" and "1 \<le> i" and "i \<le> m"
  shows "A(i := A (Suc m)) ` {1..m} = A ` {1..Suc m} - {A i}"
proof -
  have 1: "A k \<noteq> A i" if "1 \<le> k" "k \<le> Suc m" "k \<noteq> i" for k
    using that assms by (auto dest: inj_onD)
  show ?thesis
  proof (intro equalityI subsetI)
    fix x assume "x \<in> A(i := A (Suc m)) ` {1..m}"
    then obtain k where "k \<in> {1..m}" "x = (A(i := A (Suc m))) k" by blast
    with 1 [of k] 1 [of "Suc m"] assms show "x \<in> A ` {1..Suc m} - {A i}"
      by (cases "k = i") auto
  next
    fix x assume "x \<in> A ` {1..Suc m} - {A i}"
    then obtain k where k: "1 \<le> k" "k \<le> Suc m" "x = A k" and "x \<noteq> A i" by auto
    then have "k \<noteq> i" by auto
    show "x \<in> A(i := A (Suc m)) ` {1..m}"
      using k \<open>k \<noteq> i\<close> assms
      by (cases "k = Suc m") (auto simp: image_iff intro!: bexI [of _ i] bexI [of _ k])
  qed
qed

text \<open>The writes of \<open>prq_dequeue\<close> and \<open>prq_remove\<close>, with \<open>e\<close> the cell that is cleared.\<close>

lemma prq_take_store:
  assumes inv: "prq_inv S q A" and cnt: "prq_cnt q = int (Suc m)" and i: "1 \<le> i" "i \<le> m"
    and e: "Suc m \<le> e" "e \<le> Suc (Suc m)"
  shows "\<exists>S1 S2 q1 q2. set_index S (A (Suc m)) (int i) = Inr S1 \<and> set_index S1 (A i) (-1) = Inr S2 \<and>
           heap_put q (int i) (A (Suc m)) = Inr q1 \<and> heap_put q1 (int e) NULL = Inr q2 \<and>
           prq_cells S2 (prq_heap q2) (A(i := A (Suc m))) m \<and> prq_same q q2 \<and>
           prq_cnt q1 = prq_cnt q \<and>
           prq_frame S S2 (prq_elems q) \<and> prq_index (the (S2 (A i))) = - 1"
proof -
  let ?n = "Suc m"
  from inv cnt obtain ob where hs: "int ?n + 1 < prq_heap_size q"
    and ob: "prq_heap q = Some ob" "4 * nat (prq_heap_size q) \<le> unat (osize ob)"
    and rep: "prq_cells S (Some ob) A ?n"
    by (auto simp: prq_inv_def split: option.splits)
  have elems: "prq_elems q = A ` {1..?n}" using prq_inv_elems [OF inv] cnt by simp
  have "?n + 2 \<le> nat (prq_heap_size q)" using hs by linarith
  then have "4 * (?n + 2) \<le> 4 * nat (prq_heap_size q)" by (rule mult_le_mono2)
  with ob have room: "4 * (?n + 2) \<le> unat (osize ob)" by simp
  have d: "A k = A l \<longleftrightarrow> k = l" if "1 \<le> k" "k \<le> ?n" "1 \<le> l" "l \<le> ?n" for k l
    using prq_cells_inj [OF rep] that by (auto simp: inj_on_eq_iff)
  have el: "cells ob k = Some (A k) \<and> A k \<noteq> NULL \<and> (\<exists>nd. S (A k) = Some nd \<and> prq_index nd = int k)"
    if "1 \<le> k" "k \<le> ?n" for k
    using rep that by (auto simp: prq_cells_def)
  obtain a b where a: "S (A i) = Some a" "A i \<noteq> NULL" and b: "S (A ?n) = Some b" "A ?n \<noteq> NULL"
    using el [of i] el [of ?n] i by auto
  have ne: "A i \<noteq> A ?n" using d [of i ?n] i by auto
  let ?S1 = "S(A ?n \<mapsto> b\<lparr>prq_index := int i\<rparr>)"
  let ?S2 = "?S1(A i \<mapsto> a\<lparr>prq_index := -1\<rparr>)"
  let ?q1 = "q\<lparr>prq_heap := Some (ob\<lparr>cells := (cells ob)(i \<mapsto> A ?n)\<rparr>)\<rparr>"
  let ?ob = "ob\<lparr>cells := (cells ob)(i \<mapsto> A ?n, e \<mapsto> NULL)\<rparr>"
  have "set_index S (A ?n) (int i) = Inr ?S1" "set_index ?S1 (A i) (-1) = Inr ?S2"
    using a b ne by (simp_all add: set_index_node)
  moreover have "heap_put q (int i) (A ?n) = Inr ?q1"
    using ob(1) room i by (intro heap_put_Some) simp_all
  moreover have "heap_put ?q1 (int e) NULL = Inr (q\<lparr>prq_heap := Some ?ob\<rparr>)"
    using room e by (subst heap_put_Some [of _ "ob\<lparr>cells := (cells ob)(i \<mapsto> A ?n)\<rparr>"]) simp_all
  moreover have "prq_cells ?S2 (Some ?ob) (A(i := A ?n)) m"
    unfolding prq_cells_def
  proof (intro exI [of _ ?ob] conjI allI impI; (elim conjE)?)
    fix k assume k: "1 \<le> k" "k \<le> m"
    then have "k \<noteq> e" "k \<le> ?n" using e by auto
    then show "cells ?ob k = Some ((A(i := A ?n)) k)" using el [of k] k by auto
    show "(A(i := A ?n)) k \<noteq> NULL" using el [of k] b k by auto
    show "\<exists>nd. ?S2 ((A(i := A ?n)) k) = Some nd \<and> prq_index nd = int k"
      using el [of k] k ne d [of k i] d [of k ?n] i by auto
  qed (use room in simp_all)
  moreover have "prq_frame S ?S2 (prq_elems q)"
  proof (rule prq_frame_trans)
    show "prq_frame S ?S1 (prq_elems q)" using b by (intro prq_frame_upd) (auto simp: elems)
    show "prq_frame ?S1 ?S2 (prq_elems q)" using a i ne by (intro prq_frame_upd) (auto simp: elems)
  qed
  moreover have "prq_same q (q\<lparr>prq_heap := Some ?ob\<rparr>)" using ob by (simp add: prq_same_def)
  ultimately show ?thesis
    by (intro exI [of _ ?S1] exI [of _ ?S2] exI [of _ ?q1] exI [of _ "q\<lparr>prq_heap := Some ?ob\<rparr>"]) simp
qed


lemma prq_dequeue_ok:
  assumes inv: "prq_inv S q A" and ne: "prq_elems q \<noteq> {}"
  shows "\<exists>x S' q' A'. prq_dequeue S q = Inr (x, S', q') \<and> x \<in> prq_elems q \<and>
           (\<forall>y \<in> prq_elems q. prio_of S x \<le> prio_of S y) \<and> prq_inv S' q' A' \<and>
           prq_elems q' = prq_elems q - {x} \<and> prq_cnt q' = prq_cnt q - 1 \<and>
           prq_heap_size q' = prq_heap_size q \<and> prq_frame S S' (prq_elems q)"
proof -
  have elems0: "prq_elems q = A ` {1..nat (prq_cnt q)}" by (rule prq_inv_elems [OF inv])
  with ne have "nat (prq_cnt q) \<noteq> 0" by auto
  then obtain m where "nat (prq_cnt q) = Suc m" by (meson not0_implies_Suc)
  then have cnt: "prq_cnt q = int (Suc m)" by linarith
  let ?n = "Suc m"
  have elems: "prq_elems q = A ` {1..?n}" using elems0 cnt by simp
  from inv cnt obtain ob where hs: "int ?n + 1 < prq_heap_size q"
    and ob: "prq_heap q = Some ob" "4 * nat (prq_heap_size q) \<le> unat (osize ob)"
    and rep: "prq_cells S (prq_heap q) A ?n" and ho: "heap_ord (prio_of S) A ?n"
    by (auto simp: prq_inv_def split: option.splits)
  have top: "A 1 \<in> prq_elems q" "\<forall>y \<in> prq_elems q. prio_of S (A 1) \<le> prio_of S y"
    using heap_ord_min [OF ho] by (auto simp: elems)
  have at: "heap_at q 1 = Inr (A 1)" "heap_at q (prq_cnt q) = Inr (A ?n)"
    using prq_cells_heap_at [OF rep, of 1] prq_cells_heap_at [OF rep, of ?n] cnt by simp_all
  show ?thesis
  proof (cases "m = 0")
    case True
    obtain nd where nd: "S (A 1) = Some nd" "A 1 \<noteq> NULL"
      using prq_cells_node [OF rep, of 1] True by auto
    let ?ob = "ob\<lparr>cells := (cells ob)(1 \<mapsto> NULL)\<rparr>"
    let ?S = "S(A 1 \<mapsto> nd\<lparr>prq_index := -1\<rparr>)" and ?q = "q\<lparr>prq_heap := Some ?ob, prq_cnt := 0\<rparr>"
    have room: "2 * 4 \<le> unat (osize ob)" using rep ob True by (auto simp: prq_cells_def)
    have put: "heap_put r 1 p = Inr (r\<lparr>prq_heap := Some (o1\<lparr>cells := (cells o1)(1 \<mapsto> p)\<rparr>)\<rparr>)"
      if "prq_heap r = Some o1" "osize o1 = osize ob" for r o1 p
      using heap_put_Some [of r o1 1 p] that room by simp
    have "prq_shift_down ?S ?q 1 = Inr (?S, ?q)"
      by (subst prq_shift_down.simps) simp
    then have "prq_dequeue S q = Inr (A 1, ?S, ?q)"
      using at cnt True nd ob
      by (simp add: prq_dequeue_def set_index_node put Let_def)
    moreover have "prq_inv ?S ?q A"
      using hs ob room True by (simp add: prq_inv_def prq_cells_def heap_ord_def)
    moreover have "prq_frame S ?S (prq_elems q)" using nd top by (intro prq_frame_upd)
    ultimately show ?thesis
      using top elems True cnt by (intro exI [of _ "A 1"] exI [of _ ?S] exI [of _ ?q]) (auto simp: prq_elems_def)
  next
    case False
    then have m: "1 \<le> (1::nat)" "1 \<le> m" by simp_all
    from prq_take_store [OF inv cnt m, of ?n] obtain S1 S2 q1 q2 where
      w: "set_index S (A ?n) 1 = Inr S1" "set_index S1 (A 1) (-1) = Inr S2"
        "heap_put q 1 (A ?n) = Inr q1" "heap_put q1 (int ?n) NULL = Inr q2"
      and r2: "prq_cells S2 (prq_heap q2) (A(1 := A ?n)) m" "prq_same q q2" "prq_cnt q1 = prq_cnt q"
        "prq_frame S S2 (prq_elems q)" by auto
    let ?q3 = "q2\<lparr>prq_cnt := prq_cnt q2 - 1\<rparr>" and ?B = "A(1 := A ?n)"
    have c3: "prq_cnt ?q3 = int m" using r2(2) cnt by (simp add: prq_same_def)
    from prq_shift_down_ok [of S2 ?q3 ?B m 1] r2 c3 obtain S' q' where
      sd: "prq_shift_down S2 ?q3 1 = Inr (S', q')"
        "prq_cells S' (prq_heap q') (sift_down (prio_of S2) ?B m 1) m" "prq_same ?q3 q'"
        "prq_frame S2 S' (?B ` {1..m})" by auto
    let ?C = "sift_down (prio_of S) ?B m 1"
    have imB: "?B ` {1..m} = prq_elems q - {A 1}"
      using image_replace_last [OF prq_cells_inj [OF rep] m] by (simp add: elems)
    have imC: "?C ` {1..m} = prq_elems q - {A 1}"
      using sift_down_image [of 1 m "prio_of S" ?B] imB m by simp
    have "prq_frame S2 S' (prq_elems q)"
      using sd(4) unfolding imB by (rule prq_frame_mono) auto
    with r2(4) have fr: "prq_frame S S' (prq_elems q)" by (rule prq_frame_trans)
    have pS: "prio_of S2 = prio_of S" "prio_of S' = prio_of S"
      using prq_frame_prio_fun r2(4) fr by blast+
    have up1: "sift_up (prio_of S) ?B 1 = ?B" by (subst sift_up.simps) simp
    have "heap_ord (prio_of S') ?C m"
      using heap_replace_last [OF ho m] unfolding pS up1 .
    with sd(2) pS have inv': "prq_inv S' q' ?C"
      using sd(3) r2(2) hs ob c3 by (auto simp: prq_inv_def prq_same_def)
    have "prq_dequeue S q = Inr (A 1, S', q')"
      using at cnt w r2(3) sd(1) by (simp add: prq_dequeue_def Let_def)
    moreover have "prq_elems q' = prq_elems q - {A 1}"
      using prq_inv_elems [OF inv'] imC sd(3) c3 by (simp add: prq_same_def)
    moreover have "prq_cnt q' = prq_cnt q - 1" "prq_heap_size q' = prq_heap_size q"
      using sd(3) r2(2) by (simp_all add: prq_same_def)
    ultimately show ?thesis using top inv' fr by blast
  qed
qed


text \<open>Removing the last element of the array: nothing moves.\<close>

lemma prq_remove_last:
  assumes inv: "prq_inv S q A" and cnt: "prq_cnt q = int (Suc m)"
  shows "\<exists>S' q'. prq_remove S q (A (Suc m)) = Inr (S', q') \<and> prq_inv S' q' A \<and>
           prq_cnt q' = int m \<and> prq_heap_size q' = prq_heap_size q \<and>
           prq_frame S S' {A (Suc m)} \<and> prq_index (the (S' (A (Suc m)))) = - 1"
proof -
  let ?n = "Suc m" and ?a = "A (Suc m)"
  from inv cnt obtain ob where hs: "int ?n + 1 < prq_heap_size q"
    and ob: "prq_heap q = Some ob" "4 * nat (prq_heap_size q) \<le> unat (osize ob)"
    and rep: "prq_cells S (prq_heap q) A ?n" and ho: "heap_ord (prio_of S) A ?n"
    by (auto simp: prq_inv_def split: option.splits)
  have "?n + 2 \<le> nat (prq_heap_size q)" using hs by linarith
  then have "4 * (?n + 2) \<le> 4 * nat (prq_heap_size q)" by (rule mult_le_mono2)
  with ob have room: "4 * (?n + 2) \<le> unat (osize ob)" by simp
  obtain nd where nd: "S ?a = Some nd" "?a \<noteq> NULL" "prq_index nd = int ?n"
    using prq_cells_node [OF rep, of ?n] by auto
  let ?S1 = "S(?a \<mapsto> nd\<lparr>prq_index := int ?n\<rparr>)" and ?S2 = "S(?a \<mapsto> nd\<lparr>prq_index := -1\<rparr>)"
  let ?ob = "ob\<lparr>cells := (cells ob)(?n \<mapsto> ?a, Suc ?n \<mapsto> NULL)\<rparr>"
  let ?q1 = "q\<lparr>prq_heap := Some (ob\<lparr>cells := (cells ob)(?n \<mapsto> ?a)\<rparr>)\<rparr>"
  let ?q3 = "q\<lparr>prq_heap := Some ?ob, prq_cnt := int m\<rparr>"
  have fr: "prq_frame S ?S2 {?a}" using nd by (intro prq_frame_upd) auto
  have put: "heap_put q (int ?n) ?a = Inr ?q1" "heap_put ?q1 (int (Suc ?n)) NULL = Inr (q\<lparr>prq_heap := Some ?ob\<rparr>)"
    using ob(1) room heap_put_Some [of ?q1 "ob\<lparr>cells := (cells ob)(?n \<mapsto> ?a)\<rparr>" "Suc ?n" NULL]
      heap_put_Some [of q ob ?n ?a] by simp_all
  have cell: "cells ob k = Some (A k)" "A k \<noteq> NULL" "\<exists>b. S (A k) = Some b" if "1 \<le> k" "k \<le> ?n" for k
    using rep that ob by (auto simp: prq_cells_def)
  have rd: "priority_at ?S2 ?q3 (int k) = Inr (prio_of S (A k))" if k: "1 \<le> k" "k \<le> ?n" for k
    using cell [OF k] k room nd
    by (auto simp: priority_at_def heap_at_def kread_def in_object_def node_at_def prio_of_def)
  have up: "prq_shift_up ?S2 ?q3 (int ?n) = Inr (?S2, ?q3)"
  proof (cases "m = 0")
    case True
    then show ?thesis by (subst prq_shift_up.simps) simp
  next
    case False
    then have j: "1 \<le> ?n div 2" "?n div 2 \<le> ?n" "int ?n div 2 = int (?n div 2)" by auto
    have "\<not> prio_of S (A ?n) < prio_of S (A (?n div 2))"
      using ho False by (auto simp: heap_ord_def not_less)
    with rd [of ?n] rd [OF j(1,2)] j(3) show ?thesis
      by (subst prq_shift_up.simps) (simp del: of_nat_Suc)
  qed
  have down: "prq_shift_down ?S2 ?q3 (int ?n) = Inr (?S2, ?q3)"
    by (subst prq_shift_down.simps) simp
  have at: "heap_at q (prq_cnt q) = Inr ?a" "node_at S ?a = Inr nd"
    using prq_cells_heap_at [OF rep, of ?n] nd cnt by (simp_all add: node_at_def)
  have s2: "set_index ?S1 ?a (-1) = Inr ?S2" using nd by (simp add: set_index_node)
  have "prq_remove S q ?a = Inr (?S2, ?q3)"
    using at nd cnt put up down s2
    by (simp add: prq_remove_def Let_def set_index_node add.commute)
  moreover have "prq_cells ?S2 (Some ?ob) A m"
  proof -
    have "A k \<noteq> ?a" if "1 \<le> k" "k \<le> m" for k
      using prq_cells_inj [OF rep] that inj_onD [of A "{1..?n}" k ?n] by auto
    then show ?thesis
      using rep ob room nd unfolding prq_cells_def by auto
  qed
  moreover have "heap_ord (prio_of ?S2) A m"
    using ho prq_frame_prio_fun [OF fr] by (auto simp: heap_ord_def)
  ultimately show ?thesis
    using hs ob fr nd by (intro exI [of _ ?S2] exI [of _ ?q3]) (simp add: prq_inv_def)
qed

lemma prq_remove_ok:
  assumes inv: "prq_inv S q A" and node: "node \<in> prq_elems q"
  shows "\<exists>S' q' A'. prq_remove S q node = Inr (S', q') \<and> prq_inv S' q' A' \<and>
           prq_elems q' = prq_elems q - {node} \<and> prq_cnt q' = prq_cnt q - 1 \<and>
           prq_frame S S' (prq_elems q) \<and> prq_index (the (S' node)) = - 1"
proof -
  have elems0: "prq_elems q = A ` {1..nat (prq_cnt q)}" by (rule prq_inv_elems [OF inv])
  with node obtain i where i: "1 \<le> i" "i \<le> nat (prq_cnt q)" "node = A i" by auto
  then obtain m where "nat (prq_cnt q) = Suc m" by (metis not0_implies_Suc not_one_le_zero le_trans)
  then have cnt: "prq_cnt q = int (Suc m)" by linarith
  let ?n = "Suc m"
  have elems: "prq_elems q = A ` {1..?n}" using elems0 cnt by simp
  from inv cnt obtain ob where hs: "int ?n + 1 < prq_heap_size q"
    and ob: "prq_heap q = Some ob" "4 * nat (prq_heap_size q) \<le> unat (osize ob)"
    and rep: "prq_cells S (prq_heap q) A ?n" and ho: "heap_ord (prio_of S) A ?n"
    by (auto simp: prq_inv_def split: option.splits)
  have inj: "inj_on A {1..?n}" by (rule prq_cells_inj [OF rep])
  show ?thesis
  proof (cases "i = ?n")
    case True
    from prq_remove_last [OF inv cnt] obtain S' q' where
      r: "prq_remove S q node = Inr (S', q')" "prq_inv S' q' A" "prq_cnt q' = int m"
        "prq_frame S S' {node}" "prq_index (the (S' node)) = -1" using i True by auto
    have "A ` {1..m} = A ` {1..?n} - {A ?n}"
    proof -
      have "{1..m} = {1..?n} - {?n}" by auto
      then show ?thesis using inj_on_image_set_diff [OF inj, of "{1..?n}" "{?n}"] by auto
    qed
    then have "prq_elems q' = prq_elems q - {node}"
      using prq_inv_elems [OF r(2)] r(3) elems i True by simp
    moreover have "prq_frame S S' (prq_elems q)" using r(4) node by (auto intro: prq_frame_mono)
    ultimately show ?thesis using r cnt by auto
  next
    case False
    with i cnt have im: "1 \<le> i" "i \<le> m" by auto
    have e: "?n \<le> Suc ?n" "Suc ?n \<le> Suc ?n" by simp_all
    from prq_take_store [OF inv cnt im e] obtain S1 S2 q1 q2 where
      w: "set_index S (A ?n) (int i) = Inr S1" "set_index S1 (A i) (-1) = Inr S2"
        "heap_put q (int i) (A ?n) = Inr q1" "heap_put q1 (int (Suc ?n)) NULL = Inr q2"
      and r2: "prq_cells S2 (prq_heap q2) (A(i := A ?n)) m" "prq_same q q2" "prq_cnt q1 = prq_cnt q"
        "prq_frame S S2 (prq_elems q)" "prq_index (the (S2 (A i))) = -1" by blast
    let ?q3 = "q2\<lparr>prq_cnt := prq_cnt q2 - 1\<rparr>" and ?B = "A(i := A ?n)"
    have c3: "prq_cnt ?q3 = int m" using r2(2) cnt by (simp add: prq_same_def)
    from prq_shift_up_ok [of S2 ?q3 ?B m i] r2 im obtain S3 q3 where
      su: "prq_shift_up S2 ?q3 (int i) = Inr (S3, q3)"
        "prq_cells S3 (prq_heap q3) (sift_up (prio_of S2) ?B i) m" "prq_same ?q3 q3"
        "prq_frame S2 S3 (?B ` {1..m})" by auto
    let ?C = "sift_up (prio_of S) ?B i"
    have imB: "?B ` {1..m} = prq_elems q - {node}"
      using image_replace_last [OF inj im] by (simp add: elems i)
    have imC: "?C ` {1..m} = prq_elems q - {node}"
      using sift_up_image [OF im, of "prio_of S" ?B] imB by simp
    have pS2: "prio_of S2 = prio_of S" "prio_of S3 = prio_of S"
      using prq_frame_prio_fun r2(4) su(4) by metis+
    have c3': "prq_cnt q3 = int m" using su(3) c3 by (simp add: prq_same_def)
    from prq_shift_down_ok [of S3 q3 ?C m i] su(2) im(1) c3' pS2 obtain S' q' where
      sd: "prq_shift_down S3 q3 (int i) = Inr (S', q')"
        "prq_cells S' (prq_heap q') (sift_down (prio_of S) ?C m i) m" "prq_same q3 q'"
        "prq_frame S3 S' (?C ` {1..m})" by auto
    let ?D = "sift_down (prio_of S) ?C m i"
    have imD: "?D ` {1..m} = prq_elems q - {node}"
      using sift_down_image [OF im, of "prio_of S" ?C] imC by simp
    have f23: "prq_frame S2 S' (prq_elems q - {node})"
      using su(4) sd(4) unfolding imB imC by (rule prq_frame_trans)
    then have "prq_frame S2 S' (prq_elems q)" by (rule prq_frame_mono) auto
    with r2(4) have fr: "prq_frame S S' (prq_elems q)" by (rule prq_frame_trans)
    have pS: "prio_of S' = prio_of S" using prq_frame_prio_fun [OF fr] .
    have "heap_ord (prio_of S') ?D m"
      using heap_replace_last [OF ho im] unfolding pS .
    with sd(2) have inv': "prq_inv S' q' ?D"
      using sd(3) su(3) r2(2) hs ob c3 by (auto simp: prq_inv_def prq_same_def)
    have c: "prq_cnt q' = int m" using sd(3) c3' by (simp add: prq_same_def)
    have at: "heap_at q (prq_cnt q) = Inr (A ?n)" "node_at S (A i) = Inr (the (S (A i)))"
        "prq_index (the (S (A i))) = int i" "A i \<noteq> NULL"
      using prq_cells_heap_at [OF rep, of ?n] prq_cells_node_at [OF rep, of i]
        prq_cells_node [OF rep, of i] i cnt by auto
    have "prq_cnt q1 + 1 = int (Suc ?n)" using r2(3) cnt by simp
    then have "prq_remove S q node = Inr (S', q')"
      using at cnt w su(1) sd(1) i(3) by (simp add: prq_remove_def Let_def)
    moreover have "prq_elems q' = prq_elems q - {node}"
      using prq_inv_elems [OF inv'] imD c by simp
    moreover have "prq_index (the (S' node)) = -1"
      using f23 r2(5) i(3) by (auto simp: prq_frame_def)
    ultimately show ?thesis using inv' fr c cnt by auto
  qed
qed


subsection \<open>The contract of a priority queue\<close>

definition prq_wf :: "node_store \<times> prq_handle \<Rightarrow> bool" where
  "prq_wf s \<longleftrightarrow> (\<exists>A. prq_inv (fst s) (snd s) A)"

text \<open>\<open>n\<close> elements taken out one after the other, in any queue.\<close>

fun drain :: "('s \<Rightarrow> fault + ('e \<times> 's)) \<Rightarrow> nat \<Rightarrow> 's \<Rightarrow> fault + 'e list" where
  "drain deq 0 s = Inr []"
| "drain deq (Suc n) s =
     bindE (deq s) (\<lambda>(x, s'). bindE (drain deq n s') (\<lambda>xs. Inr (x # xs)))"

text \<open>
  What the timer relies on: taking an element out gives one of least priority and keeps the
  rest, and the priority of an element does not change while it is queued.
\<close>

locale min_queue =
  fixes inv :: "'s \<Rightarrow> bool" and elems :: "'s \<Rightarrow> 'e set" and key :: "'s \<Rightarrow> 'e \<Rightarrow> int"
    and deq :: "'s \<Rightarrow> fault + ('e \<times> 's)"
  assumes elems_finite: "inv s \<Longrightarrow> finite (elems s)"
    and deq_law: "inv s \<Longrightarrow> elems s \<noteq> {} \<Longrightarrow>
      \<exists>x s'. deq s = Inr (x, s') \<and> x \<in> elems s \<and> (\<forall>y \<in> elems s. key s x \<le> key s y) \<and> inv s' \<and>
             elems s' = elems s - {x} \<and> key s' = key s"
begin

lemma drain_sorted:
  "inv s \<Longrightarrow> n = card (elems s) \<Longrightarrow>
   \<exists>xs. drain deq n s = Inr xs \<and> set xs = elems s \<and> distinct xs \<and> sorted (map (key s) xs)"
proof (induction n arbitrary: s)
  case 0
  then show ?case using elems_finite [OF 0(1)] by auto
next
  case (Suc n)
  then have "elems s \<noteq> {}" by auto
  from deq_law [OF Suc.prems(1) this] obtain x s' where
    x: "deq s = Inr (x, s')" "x \<in> elems s" "\<forall>y \<in> elems s. key s x \<le> key s y"
      "inv s'" "elems s' = elems s - {x}" "key s' = key s" by blast
  have "n = card (elems s')" using Suc.prems x elems_finite by simp
  from Suc.IH [OF x(4) this] obtain xs where
    "drain deq n s' = Inr xs" "set xs = elems s - {x}" "distinct xs" "sorted (map (key s) xs)"
    using x(5,6) by auto
  with x show ?case by (intro exI [of _ "x # xs"]) auto
qed

end

abbreviation prq_deq :: "node_store \<times> prq_handle \<Rightarrow> fault + (ptr \<times> node_store \<times> prq_handle)" where
  "prq_deq s \<equiv> prq_dequeue (fst s) (snd s)"

lemma prq_deq_law:
  assumes "prq_wf s" and "prq_elems (snd s) \<noteq> {}"
  shows "\<exists>x s'. prq_deq s = Inr (x, s') \<and> x \<in> prq_elems (snd s) \<and>
     (\<forall>y \<in> prq_elems (snd s). prio_of (fst s) x \<le> prio_of (fst s) y) \<and> prq_wf s' \<and>
     prq_elems (snd s') = prq_elems (snd s) - {x} \<and> prio_of (fst s') = prio_of (fst s)"
proof -
  from assms(1) obtain A where "prq_inv (fst s) (snd s) A" by (auto simp: prq_wf_def)
  from prq_dequeue_ok [OF this assms(2)] obtain x S' q' A' where
    "prq_deq s = Inr (x, S', q')" "x \<in> prq_elems (snd s)"
    "\<forall>y \<in> prq_elems (snd s). prio_of (fst s) x \<le> prio_of (fst s) y" "prq_inv S' q' A'"
    "prq_elems q' = prq_elems (snd s) - {x}" "prq_frame (fst s) S' (prq_elems (snd s))" by blast
  then show ?thesis
    by (intro exI [of _ x] exI [of _ "(S', q')"]) (auto simp: prq_wf_def prq_frame_prio_fun)
qed

interpretation timer_queue: min_queue prq_wf "\<lambda>s. prq_elems (snd s)" "\<lambda>s. prio_of (fst s)" prq_deq
proof unfold_locales
  show "finite (prq_elems (snd s))" for s
    by (auto simp: prq_elems_def split: option.split)
qed (rule prq_deq_law)

lemma prq_wf_card: "prq_wf (S, q) \<Longrightarrow> card (prq_elems q) = nat (prq_cnt q)"
proof -
  assume "prq_wf (S, q)"
  then obtain A where inv: "prq_inv S q A" by (auto simp: prq_wf_def)
  then have "prq_cells S (prq_heap q) A (nat (prq_cnt q))" by (simp add: prq_inv_def)
  from prq_cells_inj [OF this] show ?thesis
    unfolding prq_inv_elems [OF inv] by (subst card_image) simp_all
qed

subsection \<open>Properties\<close>

text \<open>A queue of two nodes, for the examples below.\<close>

definition prq_example :: "node_store \<times> prq_handle" where
  "prq_example =
     ((\<lambda>_. None)(4 \<mapsto> \<lparr>prq_index = 2, priority = 5, prq_data = 0\<rparr>,
                 8 \<mapsto> \<lparr>prq_index = 1, priority = 3, prq_data = 0\<rparr>,
                 12 \<mapsto> \<lparr>prq_index = -1, priority = 1, prq_data = 0\<rparr>),
      \<lparr>prq_heap = Some \<lparr>osize = 64, cells = (\<lambda>_. None)(1 \<mapsto> 8, 2 \<mapsto> 4)\<rparr>,
       prq_cnt = 2, prq_heap_size = 11\<rparr>)"

lemma prq_example_wf: "prq_wf prq_example"
proof -
  have "1 \<le> k \<and> k \<le> 2 \<longleftrightarrow> k = 1 \<or> k = (2::nat)" for k by auto
  then have "prq_inv (fst prq_example) (snd prq_example) (\<lambda>i. if i = 1 then 8 else 4)"
    by (auto simp: prq_example_def prq_inv_def prq_cells_def heap_ord_def prio_of_def)
  then show ?thesis by (auto simp: prq_wf_def)
qed

lemma prq_example_elems: "prq_elems (snd prq_example) = {4, 8}"
proof -
  have "{1..2::nat} = {1, 2}" by auto
  then show ?thesis by (auto simp: prq_example_def prq_elems_def)
qed

text \<open>
  C5: taking all elements out of a well-formed queue succeeds, returns every node exactly
  once, and in the order of their priorities.
\<close>

theorem prq_drain_sorted:
  assumes "prq_wf (S, q)"
  shows "\<exists>xs. drain prq_deq (nat (prq_count q)) (S, q) = Inr xs \<and> set xs = prq_elems q \<and>
           distinct xs \<and> sorted (map (prio_of S) xs)"
  using timer_queue.drain_sorted [OF assms] prq_wf_card [OF assms] by (simp add: prq_count_def)

theorem prq_drain_sorted_witness:
  "\<exists>xs. drain prq_deq (nat (prq_count (snd prq_example))) (fst prq_example, snd prq_example) = Inr xs \<and>
      set xs = prq_elems (snd prq_example) \<and> distinct xs \<and>
      sorted (map (prio_of (fst prq_example)) xs)"
  by (rule prq_drain_sorted) (simp add: prq_example_wf)

text \<open>
  a node that is not queued yet is added by \<open>prq_enqueue\<close>: the queue stays well-formed,
  contains exactly the node besides the old ones, and no priority or payload of any node is
  changed.
\<close>

theorem prq_enqueue_adds:
  assumes "kheap g" and "\<And>k. g k \<noteq> None" and "prq_wf (S, q)"
    and "S node = Some nd" and "node \<noteq> NULL" and "node \<notin> prq_elems q"
    and "prq_heap_size q < 268435456"
  shows "\<exists>S' q'. prq_enqueue g S q node = Inr (S', q') \<and> prq_wf (S', q') \<and>
           prq_elems q' = insert node (prq_elems q) \<and> prq_count q' = prq_count q + 1 \<and>
           prq_frame S S' (insert node (prq_elems q))"
proof -
  from assms(3) obtain A where "prq_inv S q A" by (auto simp: prq_wf_def)
  from prq_enqueue_ok [OF assms(1,2) this assms(4-7)] show ?thesis
    by (auto simp: prq_wf_def prq_count_def)
qed

theorem prq_enqueue_adds_witness:
  "\<exists>S' q'. prq_enqueue (\<lambda>n. Some n) (fst prq_example) (snd prq_example) 12 = Inr (S', q') \<and>
     prq_wf (S', q') \<and> prq_elems q' = insert 12 (prq_elems (snd prq_example)) \<and>
     prq_count q' = prq_count (snd prq_example) + 1 \<and>
     prq_frame (fst prq_example) S' (insert 12 (prq_elems (snd prq_example)))"
proof (rule prq_enqueue_adds)
  show "prq_wf (fst prq_example, snd prq_example)" by (simp add: prq_example_wf)
  show "12 \<notin> prq_elems (snd prq_example)" by (simp add: prq_example_elems)
  show "fst prq_example 12 = Some \<lparr>prq_index = -1, priority = 1, prq_data = 0\<rparr>"
    by (simp add: prq_example_def)
  show "prq_heap_size (snd prq_example) < 268435456" by (simp add: prq_example_def)
qed (simp_all add: kheap_exact)

text \<open>
  C13: any queued node can be removed: the queue keeps exactly the others, stays well-formed,
  and the removed node is marked as not queued (index -1).
\<close>

theorem prq_remove_any:
  assumes "prq_wf (S, q)" and "node \<in> prq_elems q"
  shows "\<exists>S' q'. prq_remove S q node = Inr (S', q') \<and> prq_wf (S', q') \<and>
           prq_elems q' = prq_elems q - {node} \<and> prq_count q' = prq_count q - 1 \<and>
           prq_index (the (S' node)) = - 1 \<and> prio_of S' = prio_of S"
proof -
  from assms(1) obtain A where "prq_inv S q A" by (auto simp: prq_wf_def)
  from prq_remove_ok [OF this assms(2)] show ?thesis
    by (auto simp: prq_wf_def prq_count_def intro: prq_frame_prio_fun)
qed

theorem prq_remove_any_witness:
  "\<exists>S' q'. prq_remove (fst prq_example) (snd prq_example) 8 = Inr (S', q') \<and> prq_wf (S', q') \<and>
     prq_elems q' = prq_elems (snd prq_example) - {8} \<and>
     prq_count q' = prq_count (snd prq_example) - 1 \<and> prq_index (the (S' 8)) = - 1 \<and>
     prio_of S' = prio_of (fst prq_example)"
  by (rule prq_remove_any) (simp_all add: prq_example_wf prq_example_elems)

text \<open>
  Removing a node that is not queued is meant to do nothing, but the last node of the queue
  gets the index -1 before the check, so that it can no longer be removed.
\<close>

lemma prq_remove_unqueued_corrupts:
  assumes "prq_cnt q \<noteq> 0" and "node \<noteq> NULL" and "S node = Some nd" and "prq_index nd = -1"
    and "heap_at q (prq_cnt q) = Inr e" and "S e = Some ed" and "e \<noteq> NULL"
  shows "prq_remove S q node = Inr (S(e \<mapsto> ed\<lparr>prq_index := -1\<rparr>), q)"
  using assms by (simp add: prq_remove_def Let_def node_at_def set_index_def)

end
