(* ===== verification/Bcm_Timer.thy ===== *)
theory Bcm_Timer
  imports Priority_Queue
begin

section \<open>The system timer: \<open>drivers/chipset/bcm2836/timer.c\<close>\<close>

text \<open>
  Timers wait in a priority queue ordered by the counter value they are due at; the compare
  register of the ARM generic timer holds the due time of the next one, and the interrupt
  handler runs every timer that is due. The state is the queue with its nodes, the
  \<open>ScheduledTimer\<close> structs, the registers the driver writes, and the callbacks called so far.
  The counter \<open>CNTPCT\<close> and its frequency are arguments; so are the addresses \<open>kmalloc\<close> returns
  and what a callback does to the state.
\<close>

record ScheduledTimer =
  scheduled_count :: u64
  handle :: ptr
  callback :: ptr
  periodic_delay :: u32

record timer_state =
  nodes :: node_store
  scheduled_timers :: prq_handle
  timers :: "ptr \<Rightarrow> ScheduledTimer option"
  cntp_ctl :: u32
  cntp_cval :: u64
  core0_timers_control :: u32
  fired :: "ptr list"

text \<open>\<open>PHYSICAL_SECURE_TIMER\<close> of \<open>bcm2836.h\<close>.\<close>

definition PHYSICAL_SECURE_TIMER :: u32 where
  "PHYSICAL_SECURE_TIMER = 1"

text \<open>The union \<open>LittleEndianUint64\<close>: a 64-bit register moved as two words.\<close>

definition le_dword :: "u32 \<Rightarrow> u32 \<Rightarrow> u64" where
  "le_dword low_word high_word = push_bit 32 (ucast high_word) OR ucast low_word"

definition le_low_word :: "u64 \<Rightarrow> u32" where
  "le_low_word d = ucast d"

definition le_high_word :: "u64 \<Rightarrow> u32" where
  "le_high_word d = ucast (drop_bit 32 d)"

definition set_phy_timer_cmp_val :: "timer_state \<Rightarrow> u64 \<Rightarrow> timer_state" where
  "set_phy_timer_cmp_val st val =
     st\<lparr>cntp_cval := le_dword (le_low_word val) (le_high_word val)\<rparr>"

definition unmask_and_enable_timer :: "timer_state \<Rightarrow> timer_state" where
  "unmask_and_enable_timer st = st\<lparr>cntp_ctl := 1\<rparr>"

definition mask_and_enable_timer :: "timer_state \<Rightarrow> timer_state" where
  "mask_and_enable_timer st = st\<lparr>cntp_ctl := 3\<rparr>"

definition timer_at :: "timer_state \<Rightarrow> ptr \<Rightarrow> fault + ScheduledTimer" where
  "timer_at st p =
     (if p = NULL then Inl NullDeref
      else case timers st p of None \<Rightarrow> Inl OutOfBounds | Some t \<Rightarrow> Inr t)"

text \<open>\<open>get_prq_node_data\<close>: the address of the \<open>ScheduledTimer\<close> of a node.\<close>

definition get_prq_node_data :: "timer_state \<Rightarrow> ptr \<Rightarrow> fault + ptr" where
  "get_prq_node_data st node = bindE (node_at (nodes st) node) (\<lambda>nd. Inr (prq_data nd))"

definition node_timer :: "timer_state \<Rightarrow> ptr \<Rightarrow> fault + ScheduledTimer" where
  "node_timer st node = bindE (get_prq_node_data st node) (timer_at st)"

definition bcm2836_timer_init :: "grant \<Rightarrow> grant \<Rightarrow> timer_state \<Rightarrow> fault + timer_state" where
  "bcm2836_timer_init g g' st =
     bindE (prq_create g g') (\<lambda>q.
     Inr (mask_and_enable_timer
            (st\<lparr>core0_timers_control := PHYSICAL_SECURE_TIMER, scheduled_timers := q\<rparr>)))"

subsection \<open>The interrupt handler\<close>

text \<open>
  A periodic timer that has run: the next due time is computed, but the priority it is
  queued with is the due time that has just passed.
\<close>

definition timer_requeue :: "grant \<Rightarrow> timer_state \<Rightarrow> ptr \<Rightarrow> ptr \<Rightarrow> ScheduledTimer \<Rightarrow> fault + timer_state" where
  "timer_requeue g st node tp t =
     (let count = scheduled_count t;
          st = st\<lparr>timers := (timers st)(tp \<mapsto> t\<lparr>scheduled_count := count + ucast (periodic_delay t)\<rparr>)\<rparr> in
      bindE (assertE (count \<le> 0x7fffffff)) (\<lambda>_.
      bindE (node_at (nodes st) node) (\<lambda>nd.
      bindE (prq_enqueue g ((nodes st)(node \<mapsto> nd\<lparr>priority := int (unat count)\<rparr>))
               (scheduled_timers st) node) (\<lambda>(S, q).
      Inr (st\<lparr>nodes := S, scheduled_timers := q\<rparr>)))))"

text \<open>One round of the loop, for the node that \<open>prq_peek\<close> returned.\<close>

definition timer_fire ::
    "grant \<Rightarrow> (ptr \<Rightarrow> timer_state \<Rightarrow> fault + timer_state) \<Rightarrow> timer_state \<Rightarrow> ptr \<Rightarrow> fault + timer_state" where
  "timer_fire g cb st node =
     bindE (prq_dequeue (nodes st) (scheduled_timers st)) (\<lambda>(_, S, q).
     let st = st\<lparr>nodes := S, scheduled_timers := q\<rparr> in
     bindE (get_prq_node_data st node) (\<lambda>tp.
     bindE (timer_at st tp) (\<lambda>t0.
     bindE (cb (callback t0) (st\<lparr>fired := fired st @ [callback t0]\<rparr>)) (\<lambda>st.
     bindE (timer_at st tp) (\<lambda>t.
     if periodic_delay t = 0
     then
       (let st = st\<lparr>timers := (timers st)(tp := None)\<rparr> in
        bindE (prq_free_node (nodes st) node) (\<lambda>S. Inr (st\<lparr>nodes := S\<rparr>)))
     else timer_requeue g st node tp t)))))"

fun timer_loop ::
    "nat \<Rightarrow> grant \<Rightarrow> (ptr \<Rightarrow> timer_state \<Rightarrow> fault + timer_state) \<Rightarrow> u64 \<Rightarrow> timer_state \<Rightarrow>
     fault + (ptr \<times> timer_state)" where
  "timer_loop 0 g cb current_count st = Inl Diverges"
| "timer_loop (Suc fuel) g cb current_count st =
     bindE (prq_peek (scheduled_timers st)) (\<lambda>node.
     if node = NULL then Inr (NULL, st)
     else
       bindE (node_timer st node) (\<lambda>t.
       if scheduled_count t \<le> current_count
       then bindE (timer_fire g cb st node) (\<lambda>st. timer_loop fuel g cb current_count st)
       else Inr (node, st)))"

text \<open>What follows a change of the queue: mask the interrupt, or wait for the next timer.\<close>

definition timer_rearm :: "timer_state \<Rightarrow> ptr \<Rightarrow> fault + timer_state" where
  "timer_rearm st node =
     (if node = NULL then Inr (mask_and_enable_timer st)
      else bindE (node_timer st node) (\<lambda>t. Inr (set_phy_timer_cmp_val st (scheduled_count t))))"

definition timer_handle_interrupt ::
    "nat \<Rightarrow> grant \<Rightarrow> (ptr \<Rightarrow> timer_state \<Rightarrow> fault + timer_state) \<Rightarrow> u64 \<Rightarrow> timer_state \<Rightarrow>
     fault + timer_state" where
  "timer_handle_interrupt fuel g cb current_count st =
     bindE (timer_loop fuel g cb current_count (st\<lparr>core0_timers_control := 0\<rparr>)) (\<lambda>(node, st).
     bindE (timer_rearm st node) (\<lambda>st.
     Inr (st\<lparr>core0_timers_control := PHYSICAL_SECURE_TIMER\<rparr>)))"

subsection \<open>Scheduling\<close>

text \<open>
  \<open>schedule_timer\<close>: \<open>freq\<close> and \<open>now\<close> are the registers \<open>CNTFRQ\<close> and \<open>CNTPCT\<close>, \<open>tp\<close> and \<open>node\<close>
  what \<open>kmalloc\<close> returns for the struct and for the node. The offset is computed in 32 bits.
  The index of a new node is set by \<open>prq_enqueue\<close> before it is read.
\<close>

definition schedule_timer ::
    "grant \<Rightarrow> u32 \<Rightarrow> u64 \<Rightarrow> ptr \<Rightarrow> ptr \<Rightarrow> timer_state \<Rightarrow> ptr \<Rightarrow> u32 \<Rightarrow> bool \<Rightarrow>
     fault + (ptr \<times> timer_state)" where
  "schedule_timer g freq now tp node st cbk delay_ms periodic =
     bindE (assertE (cbk \<noteq> NULL)) (\<lambda>_.
     bindE (assertE (delay_ms > 0)) (\<lambda>_.
     let count_offset = (freq div 1000) * delay_ms;
         count = now + ucast count_offset in
     if tp = NULL then Inl NullDeref
     else
       let st = st\<lparr>timers := (timers st)(tp \<mapsto> \<lparr>scheduled_count = count, handle = node,
                     callback = cbk, periodic_delay = (if periodic then count_offset else 0)\<rparr>)\<rparr> in
       bindE (assertE (count \<le> 0x7fffffff)) (\<lambda>_.
       if node = NULL then Inl NullDeref
       else
         let st = st\<lparr>nodes := (nodes st)(node \<mapsto> \<lparr>prq_index = 0, priority = int (unat count),
                       prq_data = tp\<rparr>), core0_timers_control := 0\<rparr> in
         bindE (prq_enqueue g (nodes st) (scheduled_timers st) node) (\<lambda>(S, q).
         let st = st\<lparr>nodes := S, scheduled_timers := q\<rparr> in
         bindE (prq_peek q) (\<lambda>next.
         bindE (node_timer st next) (\<lambda>t.
         let st = (unmask_and_enable_timer (set_phy_timer_cmp_val st (scheduled_count t)))
                    \<lparr>core0_timers_control := PHYSICAL_SECURE_TIMER\<rparr> in
         bindE (timer_at st tp) (\<lambda>t'. Inr (handle t', st))))))))"

definition bcm2836_schedule_timer_once where
  "bcm2836_schedule_timer_once g freq now tp node st cbk delay_ms =
     schedule_timer g freq now tp node st cbk delay_ms False"

definition bcm2836_schedule_timer_periodic where
  "bcm2836_schedule_timer_periodic g freq now tp node st cbk delay_ms =
     schedule_timer g freq now tp node st cbk delay_ms True"

definition bcm2836_deschedule_timer :: "timer_state \<Rightarrow> ptr \<Rightarrow> fault + timer_state" where
  "bcm2836_deschedule_timer st node =
     bindE (prq_remove (nodes st) (scheduled_timers st) node) (\<lambda>(S, q).
     let st = st\<lparr>nodes := S, scheduled_timers := q\<rparr> in
     bindE (get_prq_node_data st node) (\<lambda>tp.
     let st = st\<lparr>timers := (timers st)(tp := None)\<rparr> in
     bindE (prq_free_node (nodes st) node) (\<lambda>S.
     let st = st\<lparr>nodes := S\<rparr> in
     bindE (prq_peek (scheduled_timers st)) (\<lambda>next. timer_rearm st next))))"

subsection \<open>Facts on the registers\<close>

lemma le_dword_parts: "le_dword (le_low_word d) (le_high_word d) = d"
proof (rule bit_word_eqI)
  fix n assume "n < LENGTH(64)"
  then show "bit (le_dword (le_low_word d) (le_high_word d)) n = bit d n"
    by (auto simp: le_dword_def le_low_word_def le_high_word_def bit_or_iff bit_push_bit_iff
        bit_unsigned_iff bit_drop_bit_eq)
qed

lemma set_phy_timer_cmp_val_eq [simp]: "set_phy_timer_cmp_val st v = st\<lparr>cntp_cval := v\<rparr>"
  by (simp add: set_phy_timer_cmp_val_def le_dword_parts)


subsection \<open>The invariant\<close>

text \<open>
  Every queued node has a \<open>ScheduledTimer\<close> of its own and is queued under the count it is
  due at.
\<close>

definition queued :: "timer_state \<Rightarrow> ptr set" where
  "queued st = prq_elems (scheduled_timers st)"

definition data_of :: "timer_state \<Rightarrow> ptr \<Rightarrow> ptr" where
  "data_of st a = prq_data (the (nodes st a))"

definition timer_of :: "timer_state \<Rightarrow> ptr \<Rightarrow> ScheduledTimer" where
  "timer_of st a = the (timers st (data_of st a))"

definition due :: "timer_state \<Rightarrow> ptr \<Rightarrow> u64" where
  "due st a = scheduled_count (timer_of st a)"

definition timer_ok :: "timer_state \<Rightarrow> bool" where
  "timer_ok st \<longleftrightarrow>
     prq_wf (nodes st, scheduled_timers st) \<and> inj_on (data_of st) (queued st) \<and>
     (\<forall>a \<in> queued st.
        data_of st a \<noteq> NULL \<and> timers st (data_of st a) \<noteq> None \<and>
        prio_of (nodes st) a = int (unat (due st a)))"

text \<open>The registers play no part in it.\<close>

lemma timer_reg_upd [simp]:
  "queued (st\<lparr>cntp_ctl := v0\<rparr>) = queued st"
  "queued (st\<lparr>cntp_cval := v1\<rparr>) = queued st"
  "queued (st\<lparr>core0_timers_control := v2\<rparr>) = queued st"
  "data_of (st\<lparr>cntp_ctl := v0\<rparr>) = data_of st"
  "data_of (st\<lparr>cntp_cval := v1\<rparr>) = data_of st"
  "data_of (st\<lparr>core0_timers_control := v2\<rparr>) = data_of st"
  "timer_of (st\<lparr>cntp_ctl := v0\<rparr>) = timer_of st"
  "timer_of (st\<lparr>cntp_cval := v1\<rparr>) = timer_of st"
  "timer_of (st\<lparr>core0_timers_control := v2\<rparr>) = timer_of st"
  "due (st\<lparr>cntp_ctl := v0\<rparr>) = due st"
  "due (st\<lparr>cntp_cval := v1\<rparr>) = due st"
  "due (st\<lparr>core0_timers_control := v2\<rparr>) = due st"
  by (auto simp: queued_def timer_of_def due_def data_of_def fun_eq_iff)

lemma timer_ok_reg_upd [simp]:
  "timer_ok (st\<lparr>cntp_ctl := v0\<rparr>) = timer_ok st"
  "timer_ok (st\<lparr>cntp_cval := v1\<rparr>) = timer_ok st"
  "timer_ok (st\<lparr>core0_timers_control := v2\<rparr>) = timer_ok st"
  by (simp_all add: timer_ok_def)

lemma prq_wf_node: "prq_wf (S, q) \<Longrightarrow> a \<in> prq_elems q \<Longrightarrow> a \<noteq> NULL \<and> S a \<noteq> None"
proof -
  assume wf: "prq_wf (S, q)" and a: "a \<in> prq_elems q"
  from wf obtain A where inv: "prq_inv S q A" by (auto simp: prq_wf_def)
  then have c: "prq_cells S (prq_heap q) A (nat (prq_cnt q))" by (simp add: prq_inv_def)
  from a prq_inv_elems [OF inv] obtain i where i: "1 \<le> i" "i \<le> nat (prq_cnt q)" "a = A i"
    by auto
  show ?thesis using prq_cells_node [OF c i(1,2)] i(3) by auto
qed

lemma timer_ok_node:
  assumes "timer_ok st" and "a \<in> queued st"
  shows "get_prq_node_data st a = Inr (data_of st a)"
    and "timer_at st (data_of st a) = Inr (timer_of st a)"
    and "node_timer st a = Inr (timer_of st a)"
  using assms prq_wf_node [of "nodes st" "scheduled_timers st" a]
  by (auto simp: timer_ok_def queued_def node_timer_def get_prq_node_data_def node_at_def
      data_of_def timer_at_def timer_of_def)

text \<open>\<open>prq_peek\<close> shows a timer that is due first.\<close>

lemma prq_peek_min:
  assumes "prq_wf (S, q)" and "prq_elems q \<noteq> {}"
  shows "\<exists>x. prq_peek q = Inr x \<and> x \<in> prq_elems q \<and> (\<forall>y \<in> prq_elems q. prio_of S x \<le> prio_of S y) \<and>
           (\<exists>s'. prq_dequeue S q = Inr (x, s') \<and> prq_wf s' \<and> prq_elems (snd s') = prq_elems q - {x} \<and>
                 prq_frame S (fst s') (prq_elems q))"
proof -
  from assms(1) obtain A where inv: "prq_inv S q A" by (auto simp: prq_wf_def)
  from prq_dequeue_ok [OF inv assms(2)] obtain x S' q' A' where
    d: "prq_dequeue S q = Inr (x, S', q')" "x \<in> prq_elems q"
      "\<forall>y \<in> prq_elems q. prio_of S x \<le> prio_of S y" "prq_inv S' q' A'"
      "prq_elems q' = prq_elems q - {x}" "prq_frame S S' (prq_elems q)" by blast
  have "nat (prq_cnt q) \<noteq> 0" using prq_inv_elems [OF inv] assms(2) by auto
  then have "prq_cnt q > 0" by linarith
  moreover from d(1) this have "heap_at q 1 = Inr x"
    by (auto simp: prq_dequeue_def bindE_Inr_iff Let_def)
  ultimately have "prq_peek q = Inr x" by (simp add: prq_peek_def)
  with d show ?thesis
    by (intro exI [of _ x] conjI exI [of _ "(S', q')"]) (auto simp: prq_wf_def)
qed

lemma timer_ok_first:
  assumes ok: "timer_ok st" and ne: "queued st \<noteq> {}"
  shows "\<exists>a. prq_peek (scheduled_timers st) = Inr a \<and> a \<in> queued st \<and>
           (\<forall>b \<in> queued st. due st a \<le> due st b)"
proof -
  have "prq_wf (nodes st, scheduled_timers st)" using ok by (simp add: timer_ok_def)
  from prq_peek_min [OF this] ne obtain a where a: "prq_peek (scheduled_timers st) = Inr a" "a \<in> queued st"
    and mn: "\<forall>b \<in> queued st. prio_of (nodes st) a \<le> prio_of (nodes st) b"
    unfolding queued_def by blast
  have "due st a \<le> due st b" if "b \<in> queued st" for b
    using mn that a(2) ok by (auto simp: timer_ok_def word_le_def)
  with a show ?thesis by blast
qed

lemma prq_peek_empty: "prq_wf (S, q) \<Longrightarrow> prq_elems q = {} \<Longrightarrow> prq_peek q = Inr NULL"
  using prq_wf_card [of S q] by (auto simp: prq_peek_def)

text \<open>A change of a node that is not in the queue does not touch it.\<close>

lemma prq_wf_upd:
  assumes "prq_wf (S, q)" and "a \<notin> prq_elems q"
  shows "prq_wf (S(a := v), q)"
proof -
  from assms(1) obtain A where inv: "prq_inv S q A" by (auto simp: prq_wf_def)
  have el: "A i \<noteq> a" if "1 \<le> i" "i \<le> nat (prq_cnt q)" for i
    using that assms(2) prq_inv_elems [OF inv] by auto
  have "prq_cells (S(a := v)) (prq_heap q) A (nat (prq_cnt q))"
    using inv el by (auto simp: prq_inv_def prq_cells_def)
  moreover have "heap_ord (prio_of (S(a := v))) A (nat (prq_cnt q))"
    unfolding heap_ord_def
  proof (intro allI impI)
    fix k assume k: "2 \<le> k \<and> k \<le> nat (prq_cnt q)"
    then have "1 \<le> k div 2" "k div 2 \<le> nat (prq_cnt q)" by auto
    then have "A k \<noteq> a" "A (k div 2) \<noteq> a" using k el [of k] el [of "k div 2"] by auto
    with inv k show "prio_of (S(a := v)) (A (k div 2)) \<le> prio_of (S(a := v)) (A k)"
      by (auto simp: prq_inv_def heap_ord_def prio_of_def)
  qed
  ultimately show ?thesis using inv by (auto simp: prq_wf_def prq_inv_def)
qed

subsection \<open>One-shot timers\<close>

text \<open>A callback that leaves the timer state alone.\<close>

definition quiet :: "(ptr \<Rightarrow> timer_state \<Rightarrow> fault + timer_state) \<Rightarrow> bool" where
  "quiet cb \<longleftrightarrow> (\<forall>f st. cb f st = Inr st)"

lemma timer_fire_once:
  assumes ok: "timer_ok st" and cb: "quiet cb" and pk: "prq_peek (scheduled_timers st) = Inr a"
    and ne: "queued st \<noteq> {}" and once: "periodic_delay (timer_of st a) = 0"
  shows "\<exists>st'. timer_fire g cb st a = Inr st' \<and> timer_ok st' \<and> queued st' = queued st - {a} \<and>
           (\<forall>b \<in> queued st'. timer_of st' b = timer_of st b) \<and>
           fired st' = fired st @ [callback (timer_of st a)] \<and>
           core0_timers_control st' = core0_timers_control st"
proof -
  have wf: "prq_wf (nodes st, scheduled_timers st)" using ok by (simp add: timer_ok_def)
  from prq_peek_min [OF wf] ne pk obtain S' q' where
    a: "a \<in> queued st" and dq: "prq_dequeue (nodes st) (scheduled_timers st) = Inr (a, S', q')"
    and wf': "prq_wf (S', q')" and el: "prq_elems q' = queued st - {a}"
    and fr: "prq_frame (nodes st) S' (queued st)"
    by (auto simp: queued_def)
  have an: "a \<noteq> NULL" "nodes st a \<noteq> None" using prq_wf_node [OF wf] a by (auto simp: queued_def)
  have none: "S' b = None \<longleftrightarrow> nodes st b = None" for b by (rule prq_frame_dom [OF fr])
  have same: "prq_data (the (S' b)) = data_of st b" for b
    using prq_frame_data [OF fr, of b] none [of b] by (cases "nodes st b") (auto simp: data_of_def)
  let ?tp = "data_of st a" and ?t = "timer_of st a"
  let ?st' = "st\<lparr>nodes := S'(a := None), scheduled_timers := q',
                 timers := (timers st)(?tp := None), fired := fired st @ [callback ?t]\<rparr>"
  have "timers st ?tp = Some ?t" "?tp \<noteq> NULL"
    using ok a by (auto simp: timer_ok_def timer_of_def)
  then have fire: "timer_fire g cb st a = Inr ?st'"
    using dq same [of a] none [of a] an cb once
    by (auto simp: timer_fire_def Let_def get_prq_node_data_def node_at_def timer_at_def quiet_def
        prq_free_node_def)
  have q': "queued ?st' = queued st - {a}" by (simp add: queued_def el [unfolded queued_def])
  have dat: "data_of ?st' b = data_of st b" if "b \<noteq> a" for b
    using that same [of b] by (simp add: data_of_def)
  have inj: "inj_on (data_of st) (queued st)" using ok by (simp add: timer_ok_def)
  have ntp: "data_of st b \<noteq> ?tp" if "b \<in> queued st" "b \<noteq> a" for b
    using that a inj by (auto dest: inj_onD)
  have tim: "timer_of ?st' b = timer_of st b" if "b \<in> queued st" "b \<noteq> a" for b
    using that dat ntp by (simp add: timer_of_def)
  have prio: "prio_of (nodes ?st') b = prio_of (nodes st) b" if "b \<noteq> a" for b
    using that prq_frame_prio [OF fr, of b] by (simp add: prio_of_def)
  have "timer_ok ?st'"
    unfolding timer_ok_def
  proof (intro conjI ballI)
    have "a \<notin> prq_elems q'" using el by simp
    with prq_wf_upd [OF wf'] show "prq_wf (nodes ?st', scheduled_timers ?st')" by simp
    show "inj_on (data_of ?st') (queued ?st')"
      unfolding q' using inj dat by (auto simp: inj_on_def)
    fix b assume "b \<in> queued ?st'"
    then have b: "b \<in> queued st" "b \<noteq> a" by (auto simp: q')
    with ok have o: "data_of st b \<noteq> NULL" "timers st (data_of st b) \<noteq> None"
        "prio_of (nodes st) b = int (unat (due st b))"
      by (auto simp: timer_ok_def)
    show "data_of ?st' b \<noteq> NULL" using o dat b by simp
    show "timers ?st' (data_of ?st' b) \<noteq> None" using o dat b ntp by simp
    show "prio_of (nodes ?st') b = int (unat (due ?st' b))"
      using o prio [OF b(2)] tim [OF b] by (simp add: due_def)
  qed
  with fire q' tim show ?thesis by (intro exI [of _ ?st']) auto
qed


lemma timer_loop_once:
  assumes "timer_ok st" and cb: "quiet cb"
    and "\<forall>a \<in> queued st. periodic_delay (timer_of st a) = 0" and "card (queued st) < fuel"
  shows "\<exists>node st' xs. timer_loop fuel g cb now st = Inr (node, st') \<and> timer_ok st' \<and>
           queued st' = {a \<in> queued st. now < due st a} \<and>
           (\<forall>a \<in> queued st'. timer_of st' a = timer_of st a) \<and>
           set xs = {a \<in> queued st. due st a \<le> now} \<and> distinct xs \<and> sorted (map (due st) xs) \<and>
           fired st' = fired st @ map (\<lambda>a. callback (timer_of st a)) xs \<and>
           prq_peek (scheduled_timers st') = Inr node \<and>
           core0_timers_control st' = core0_timers_control st"
  using assms(1,3,4)
proof (induction fuel arbitrary: st)
  case 0
  then show ?case by simp
next
  case (Suc fuel)
  have wf: "prq_wf (nodes st, scheduled_timers st)" using Suc.prems(1) by (simp add: timer_ok_def)
  have fin: "finite (queued st)"
    by (auto simp: queued_def prq_elems_def split: option.split)
  show ?case
  proof (cases "queued st = {}")
    case True
    then have pk: "prq_peek (scheduled_timers st) = Inr NULL"
      using prq_peek_empty [OF wf] by (simp add: queued_def)
    with True Suc.prems show ?thesis
      by (intro exI [of _ NULL] exI [of _ st] exI [of _ "[]"]) auto
  next
    case False
    from timer_ok_first [OF Suc.prems(1) False] obtain a where
      pk: "prq_peek (scheduled_timers st) = Inr a" and a: "a \<in> queued st"
      and first: "\<And>b. b \<in> queued st \<Longrightarrow> due st a \<le> due st b"
      by blast
    have an: "a \<noteq> NULL" using prq_wf_node [OF wf] a by (auto simp: queued_def)
    show ?thesis
    proof (cases "due st a \<le> now")
      case False
      then have "now < due st b" if "b \<in> queued st" for b using first [OF that] by simp
      then have "{b \<in> queued st. now < due st b} = queued st" "{b \<in> queued st. due st b \<le> now} = {}"
        by (auto simp: not_less [symmetric])
      moreover have "timer_loop (Suc fuel) g cb now st = Inr (a, st)"
        using pk an False timer_ok_node(3) [OF Suc.prems(1) a] by (simp add: due_def)
      ultimately show ?thesis
        using Suc.prems pk by (intro exI [of _ a] exI [of _ st] exI [of _ "[]"]) auto
    next
      case True
      from timer_fire_once [OF Suc.prems(1) cb pk False, of g] Suc.prems(2) a obtain st1 where
        f: "timer_fire g cb st a = Inr st1" "timer_ok st1" "queued st1 = queued st - {a}"
          "\<forall>b \<in> queued st1. timer_of st1 b = timer_of st b"
          "fired st1 = fired st @ [callback (timer_of st a)]"
          "core0_timers_control st1 = core0_timers_control st" by blast
      have card1: "card (queued st1) < fuel" using Suc.prems(3) f(3) card_Diff1_less [OF fin a] by simp
      have "\<forall>b \<in> queued st1. periodic_delay (timer_of st1 b) = 0" using f(3,4) Suc.prems(2) by simp
      from Suc.IH [OF f(2) this card1] obtain node st' xs where
        r: "timer_loop fuel g cb now st1 = Inr (node, st')" "timer_ok st'"
          "queued st' = {b \<in> queued st1. now < due st1 b}"
          "\<forall>b \<in> queued st'. timer_of st' b = timer_of st1 b"
          "set xs = {b \<in> queued st1. due st1 b \<le> now}" "distinct xs" "sorted (map (due st1) xs)"
          "fired st' = fired st1 @ map (\<lambda>b. callback (timer_of st1 b)) xs"
          "prq_peek (scheduled_timers st') = Inr node"
          "core0_timers_control st' = core0_timers_control st1"
        by blast
      have due1: "due st1 b = due st b" if "b \<in> queued st1" for b
        using that f(4) by (simp add: due_def)
      have "\<forall>b \<in> set xs. due st1 b = due st b \<and> timer_of st1 b = timer_of st b"
        using r(5) due1 f(4) by auto
      then have mp: "map (due st1) xs = map (due st) xs"
        "map (\<lambda>b. callback (timer_of st1 b)) xs = map (\<lambda>b. callback (timer_of st b)) xs"
        by auto
      have "timer_loop (Suc fuel) g cb now st = Inr (node, st')"
        using pk an True timer_ok_node(3) [OF Suc.prems(1) a] f(1) r(1) by (simp add: due_def)
      moreover have "queued st' = {b \<in> queued st. now < due st b}"
      proof -
        have "{b \<in> queued st. now < due st b} = {b \<in> queued st - {a}. now < due st b}"
          using True by auto
        moreover have "{b \<in> queued st1. now < due st1 b} = {b \<in> queued st1. now < due st b}"
          using due1 by (simp cong: conj_cong)
        ultimately show ?thesis unfolding r(3) by (simp add: f(3))
      qed
      moreover have "set (a # xs) = {b \<in> queued st. due st b \<le> now}"
      proof -
        have "{b \<in> queued st1. due st1 b \<le> now} = {b \<in> queued st1. due st b \<le> now}"
          using due1 by (simp cong: conj_cong)
        then have "set xs = {b \<in> queued st - {a}. due st b \<le> now}" unfolding r(5) by (simp add: f(3))
        then show ?thesis using True a by auto
      qed
      moreover have "distinct (a # xs)" using r(5,6) f(3) by auto
      moreover have "sorted (map (due st) (a # xs))"
        using r(5,7) mp(1) f(3) first by auto
      moreover have "fired st' = fired st @ map (\<lambda>b. callback (timer_of st b)) (a # xs)"
        using r(8) f(5) mp(2) by simp
      moreover have "\<forall>b \<in> queued st'. timer_of st' b = timer_of st b"
        using r(3,4) f(4) by auto
      ultimately show ?thesis
        using r(2,9,10) f(6) by (intro exI [of _ node] exI [of _ st'] exI [of _ "a # xs"]) simp
    qed
  qed
qed

subsection \<open>Properties\<close>

text \<open>
  C10: when all queued timers are one-shot timers and the callbacks leave the timer state alone,
  the interrupt handler terminates and calls exactly the callbacks of the timers that are due, each
  once and in the order of their due times; the others stay queued unchanged, and the compare
  register holds the earliest of their due times, or the interrupt is masked when none is left.
  A periodic timer is queued again under its old priority, so with periodic timers this does not hold:
  that is the matter of \<open>timer_requeue_old_priority\<close>.
\<close>

theorem timer_interrupt_fires_due:
  assumes "timer_ok st" and "quiet cb"
    and "\<forall>a \<in> queued st. periodic_delay (timer_of st a) = 0" and "card (queued st) < fuel"
  shows "\<exists>st' xs. timer_handle_interrupt fuel g cb now st = Inr st' \<and> timer_ok st' \<and>
           set xs = {a \<in> queued st. due st a \<le> now} \<and> distinct xs \<and> sorted (map (due st) xs) \<and>
           fired st' = fired st @ map (\<lambda>a. callback (timer_of st a)) xs \<and>
           queued st' = {a \<in> queued st. now < due st a} \<and>
           (\<forall>a \<in> queued st'. timer_of st' a = timer_of st a) \<and>
           (if queued st' = {} then cntp_ctl st' = 3
            else \<exists>a \<in> queued st'. cntp_cval st' = due st' a \<and> (\<forall>b \<in> queued st'. due st' a \<le> due st' b)) \<and>
           core0_timers_control st' = PHYSICAL_SECURE_TIMER"
proof -
  let ?st = "st\<lparr>core0_timers_control := 0\<rparr>"
  have same: "queued ?st = queued st" "timer_of ?st = timer_of st" "due ?st = due st"
    "fired ?st = fired st"
    by simp_all
  have ok: "timer_ok ?st" using assms(1) by simp
  from timer_loop_once [OF ok assms(2), unfolded same, OF assms(3,4), of g now]
  obtain node st1 xs where
    r: "timer_loop fuel g cb now ?st = Inr (node, st1)" "timer_ok st1"
      "queued st1 = {a \<in> queued st. now < due st a}" "\<forall>a \<in> queued st1. timer_of st1 a = timer_of st a"
      "set xs = {a \<in> queued st. due st a \<le> now}" "distinct xs" "sorted (map (due st) xs)"
      "fired st1 = fired st @ map (\<lambda>a. callback (timer_of st a)) xs"
      "prq_peek (scheduled_timers st1) = Inr node"
    by blast
  have wf: "prq_wf (nodes st1, scheduled_timers st1)" using r(2) by (simp add: timer_ok_def)
  define ctl cval where "ctl = (if queued st1 = {} then 3 else cntp_ctl st1)"
    and "cval = (if queued st1 = {} then cntp_cval st1 else due st1 node)"
  let ?st' = "st1\<lparr>cntp_ctl := ctl, cntp_cval := cval, core0_timers_control := PHYSICAL_SECURE_TIMER\<rparr>"
  have nx: "node \<in> queued st1 \<and> (\<forall>b \<in> queued st1. due st1 node \<le> due st1 b)" if "queued st1 \<noteq> {}"
    using timer_ok_first [OF r(2) that] r(9) by auto
  have "timer_handle_interrupt fuel g cb now st = Inr ?st'"
  proof (cases "queued st1 = {}")
    case True
    then have "node = NULL" using prq_peek_empty [OF wf] r(9) by (simp add: queued_def)
    with r(1) True show ?thesis
      by (simp add: timer_handle_interrupt_def timer_rearm_def mask_and_enable_timer_def ctl_def cval_def)
  next
    case False
    then have "node \<noteq> NULL" using nx prq_wf_node [OF wf] by (auto simp: queued_def)
    with r(1) False nx timer_ok_node(3) [OF r(2)] show ?thesis
      by (simp add: timer_handle_interrupt_def timer_rearm_def due_def ctl_def cval_def)
  qed
  moreover have "if queued ?st' = {} then cntp_ctl ?st' = 3
      else \<exists>a \<in> queued ?st'. cntp_cval ?st' = due ?st' a \<and> (\<forall>b \<in> queued ?st'. due ?st' a \<le> due ?st' b)"
    using nx by (auto simp: ctl_def cval_def)
  ultimately show ?thesis
    using r by (intro exI [of _ ?st'] exI [of _ xs]) auto
qed


text \<open>A timer at address 16 with its node at address 8, due at 100.\<close>

definition timer_example :: timer_state where
  "timer_example =
     \<lparr>nodes = (\<lambda>_. None)(8 \<mapsto> \<lparr>prq_index = 1, priority = 100, prq_data = 16\<rparr>),
      scheduled_timers = \<lparr>prq_heap = Some \<lparr>osize = 64, cells = (\<lambda>_. None)(1 \<mapsto> 8)\<rparr>,
                          prq_cnt = 1, prq_heap_size = 11\<rparr>,
      timers = (\<lambda>_. None)(16 \<mapsto> \<lparr>scheduled_count = 100, handle = 8, callback = 2048, periodic_delay = 0\<rparr>),
      cntp_ctl = 1, cntp_cval = 100, core0_timers_control = 1, fired = []\<rparr>"

lemma timer_example_queued: "queued timer_example = {8}"
  by (simp add: queued_def timer_example_def prq_elems_def)

lemma timer_example_ok: "timer_ok timer_example"
proof -
  have "prq_inv (nodes timer_example) (scheduled_timers timer_example) (\<lambda>_. 8)"
    by (auto simp: timer_example_def prq_inv_def prq_cells_def heap_ord_def prio_of_def)
  then show ?thesis
    unfolding timer_ok_def timer_example_queued
    by (auto simp: prq_wf_def) (simp_all add: timer_example_def data_of_def prio_of_def due_def timer_of_def)
qed

theorem timer_interrupt_fires_due_witness:
  "\<exists>st' xs. timer_handle_interrupt 2 (\<lambda>n. Some n) (\<lambda>f st. Inr st) 150 timer_example = Inr st' \<and>
     timer_ok st' \<and>
     set xs = {a \<in> queued timer_example. due timer_example a \<le> 150} \<and> distinct xs \<and>
     sorted (map (due timer_example) xs) \<and>
     fired st' = fired timer_example @ map (\<lambda>a. callback (timer_of timer_example a)) xs \<and>
     queued st' = {a \<in> queued timer_example. 150 < due timer_example a} \<and>
     (\<forall>a \<in> queued st'. timer_of st' a = timer_of timer_example a) \<and>
     (if queued st' = {} then cntp_ctl st' = 3
      else \<exists>a \<in> queued st'. cntp_cval st' = due st' a \<and> (\<forall>b \<in> queued st'. due st' a \<le> due st' b)) \<and>
     core0_timers_control st' = PHYSICAL_SECURE_TIMER"
proof (rule timer_interrupt_fires_due)
  show "\<forall>a \<in> queued timer_example. periodic_delay (timer_of timer_example a) = 0"
    unfolding timer_example_queued by (simp add: timer_of_def data_of_def timer_example_def)
qed (simp_all add: timer_example_ok timer_example_queued quiet_def)

text \<open>
  \<open>schedule_timer\<close> queues a new timer due \<open>(freq / 1000) * delay_ms\<close> counts from now,
  keeps all others, and programs the compare register with the earliest due time of all
  queued timers, with the interrupt unmasked.
\<close>

theorem schedule_timer_queues:
  fixes freq delay_ms :: u32 and now :: u64
  assumes heap: "kheap g" and grants: "\<And>k. g k \<noteq> None" and ok: "timer_ok st"
    and fresh: "nodes st node = None" "node \<noteq> NULL" "timers st tp = None" "tp \<noteq> NULL"
    and small: "prq_heap_size (scheduled_timers st) < 268435456"
    and args: "cbk \<noteq> NULL" "delay_ms > 0"
    and soon: "now + ucast ((freq div 1000) * delay_ms) \<le> 0x7fffffff"
  shows "\<exists>st'. schedule_timer g freq now tp node st cbk delay_ms periodic = Inr (node, st') \<and>
           timer_ok st' \<and> queued st' = insert node (queued st) \<and>
           due st' node = now + ucast ((freq div 1000) * delay_ms) \<and>
           (\<forall>a \<in> queued st. timer_of st' a = timer_of st a) \<and>
           (\<exists>a \<in> queued st'. cntp_cval st' = due st' a \<and> (\<forall>b \<in> queued st'. due st' a \<le> due st' b)) \<and>
           cntp_ctl st' = 1"
proof -
  define count where "count = now + ucast ((freq div 1000) * delay_ms)"
  define t where "t = \<lparr>scheduled_count = count, handle = node, callback = cbk,
       periodic_delay = (if periodic then (freq div 1000) * delay_ms else 0)\<rparr>"
  define nd where "nd = \<lparr>prq_index = 0, priority = int (unat count), prq_data = tp\<rparr>"
  let ?S = "(nodes st)(node \<mapsto> nd)" and ?q = "scheduled_timers st"
  have wf0: "prq_wf (nodes st, ?q)" using ok by (simp add: timer_ok_def)
  have notin: "node \<notin> prq_elems ?q" using prq_wf_node [OF wf0, of node] fresh by auto
  from prq_wf_upd [OF wf0 notin, of "Some nd"] obtain A where "prq_inv ?S ?q A" by (auto simp: prq_wf_def)
  from prq_enqueue_ok [OF heap grants this _ fresh(2) notin small, of nd] obtain S' q' A' where
    e: "prq_enqueue g ?S ?q node = Inr (S', q')" "prq_inv S' q' A'"
      "prq_elems q' = insert node (prq_elems ?q)" "prq_frame ?S S' (insert node (prq_elems ?q))" by auto
  have wf: "prq_wf (S', q')" using e(2) by (auto simp: prq_wf_def)
  define st1 where "st1 = st\<lparr>timers := (timers st)(tp \<mapsto> t), nodes := S', scheduled_timers := q'\<rparr>"
  have st1: "nodes st1 = S'" "timers st1 = (timers st)(tp \<mapsto> t)" "scheduled_timers st1 = q'"
    by (simp_all add: st1_def)
  have q1: "queued st1 = insert node (queued st)" using e(3) by (simp add: queued_def st1)
  have nodes_kept: "prq_data (the (S' b)) = prq_data (the (?S b))" if "?S b \<noteq> None" for b
    using prq_frame_data [OF e(4), of b] that by fastforce
  have old: "nodes st b \<noteq> None" "b \<noteq> node" "data_of st b \<noteq> tp" "data_of st1 b = data_of st b"
    if "b \<in> queued st" for b
    using that prq_wf_node [OF wf0, of b] ok fresh nodes_kept [of b]
    by (auto simp: timer_ok_def queued_def data_of_def st1)
  have dn: "data_of st1 node = tp" using nodes_kept [of node] by (simp add: data_of_def nd_def st1)
  have tn: "timer_of st1 node = t" by (simp add: timer_of_def dn st1)
  have to: "timer_of st1 b = timer_of st b" if "b \<in> queued st" for b
    using old [OF that] by (simp add: timer_of_def st1)
  have prio: "prio_of S' b = prio_of ?S b" for b by (rule prq_frame_prio [OF e(4)])
  have ok1: "timer_ok st1"
    unfolding timer_ok_def q1
  proof (intro conjI ballI)
    show "prq_wf (nodes st1, scheduled_timers st1)" using wf by (simp add: st1)
    have "inj_on (data_of st) (queued st)" using ok by (simp add: timer_ok_def)
    then have "inj_on (data_of st1) (queued st)" using old(4) by (simp add: inj_on_def)
    moreover have "data_of st1 node \<notin> data_of st1 ` (queued st - {node})"
    proof
      assume "data_of st1 node \<in> data_of st1 ` (queued st - {node})"
      then obtain b where "b \<in> queued st" "data_of st1 node = data_of st1 b" by blast
      with old(3,4) [of b] dn show False by simp
    qed
    ultimately show "inj_on (data_of st1) (insert node (queued st))"
      by (simp only: inj_on_insert) simp
    fix b assume b: "b \<in> insert node (queued st)"
    show "data_of st1 b \<noteq> NULL" "timers st1 (data_of st1 b) \<noteq> None"
      using b dn old fresh ok by (auto simp: timer_ok_def st1)
    show "prio_of (nodes st1) b = int (unat (due st1 b))"
    proof (cases "b = node")
      case True
      then show ?thesis using prio [of node] tn by (simp add: prio_of_def due_def nd_def t_def st1)
    next
      case False
      with b have "b \<in> queued st" by simp
      with False prio [of b] to ok show ?thesis by (auto simp: timer_ok_def due_def prio_of_def st1)
    qed
  qed
  from timer_ok_first [OF ok1] q1 obtain a where pk: "prq_peek q' = Inr a" and a: "a \<in> queued st1"
    and mn: "\<forall>b \<in> queued st1. due st1 a \<le> due st1 b"
    by (auto simp: st1)
  let ?st' = "st1\<lparr>cntp_ctl := 1, cntp_cval := due st1 a, core0_timers_control := PHYSICAL_SECURE_TIMER\<rparr>"
  have "schedule_timer g freq now tp node st cbk delay_ms periodic = Inr (node, ?st')"
  proof -
    have "node_timer (st\<lparr>timers := (timers st)(tp \<mapsto> t), core0_timers_control := 0, nodes := S',
        scheduled_timers := q'\<rparr>) = node_timer st1"
      by (auto simp: fun_eq_iff node_timer_def get_prq_node_data_def timer_at_def st1_def
          intro!: arg_cong2 [where f = bindE])
    then have nt: "node_timer (st\<lparr>timers := (timers st)(tp \<mapsto> t),
        core0_timers_control := 0, nodes := S', scheduled_timers := q'\<rparr>) a = Inr (timer_of st1 a)"
      using timer_ok_node(3) [OF ok1 a] by simp
    show ?thesis
      using args soon fresh(2,4) e(1) pk nt
      by (simp add: schedule_timer_def Let_def count_def [symmetric] t_def nd_def
          unmask_and_enable_timer_def timer_at_def due_def st1_def split del: if_split)
  qed
  moreover have "due ?st' node = count" using tn by (simp add: due_def t_def)
  ultimately show ?thesis
    using ok1 q1 to a mn by (intro exI [of _ ?st']) (auto simp: count_def)
qed


theorem schedule_timer_queues_witness:
  "\<exists>st'. schedule_timer (\<lambda>n. Some n) 1000000 50 48 32 timer_example 4096 20 False = Inr (32, st') \<and>
     timer_ok st' \<and> queued st' = insert 32 (queued timer_example) \<and>
     due st' 32 = 50 + ucast ((1000000 div 1000) * (20 :: u32)) \<and>
     (\<forall>a \<in> queued timer_example. timer_of st' a = timer_of timer_example a) \<and>
     (\<exists>a \<in> queued st'. cntp_cval st' = due st' a \<and> (\<forall>b \<in> queued st'. due st' a \<le> due st' b)) \<and>
     cntp_ctl st' = 1"
  by (rule schedule_timer_queues [OF kheap_exact])
     (simp_all add: timer_example_ok, simp_all add: timer_example_def)

text \<open>
  A periodic timer is queued again under the due time that has passed, not under the new
  one: afterwards its priority and its due time differ, and the queue is no longer ordered
  by due time.
\<close>

lemma timer_requeue_old_priority:
  assumes "kheap g" and "\<And>k. g k \<noteq> None" and "prq_wf (nodes st, scheduled_timers st)"
    and "nodes st node = Some nd" and "node \<noteq> NULL" and "node \<notin> queued st"
    and "prq_heap_size (scheduled_timers st) < 268435456"
    and "scheduled_count t \<le> 0x7fffffff"
  shows "\<exists>st'. timer_requeue g st node tp t = Inr st' \<and> node \<in> queued st' \<and>
           prio_of (nodes st') node = int (unat (scheduled_count t)) \<and>
           timers st' tp = Some (t\<lparr>scheduled_count := scheduled_count t + ucast (periodic_delay t)\<rparr>)"
proof -
  define nd' where "nd' = nd\<lparr>priority := int (unat (scheduled_count t))\<rparr>"
  let ?S = "(nodes st)(node \<mapsto> nd')" and ?q = "scheduled_timers st"
  have notin: "node \<notin> prq_elems ?q" using assms(6) by (simp add: queued_def)
  from prq_wf_upd [OF assms(3) notin, of "Some nd'"] obtain A where "prq_inv ?S ?q A"
    by (auto simp: prq_wf_def)
  from prq_enqueue_ok [OF assms(1,2) this _ assms(5) notin assms(7), of nd'] obtain S' q' where
    e: "prq_enqueue g ?S ?q node = Inr (S', q')" "prq_elems q' = insert node (prq_elems ?q)"
      "prq_frame ?S S' (insert node (prq_elems ?q))" by auto
  have "prio_of S' node = int (unat (scheduled_count t))"
    using prq_frame_prio [OF e(3), of node] by (simp add: prio_of_def nd'_def)
  with e assms(4,5,8) show ?thesis
    by (auto simp: timer_requeue_def Let_def node_at_def nd'_def queued_def)
qed

end
