(* ===== verification/Hash_Map.thy ===== *)
theory Hash_Map
  imports Kernel_Objects
begin

section \<open>The hash map: \<open>ds/bpf/HashMap.c\<close>\<close>

text \<open>
  Chained hashing with a power of two of buckets. A chain is the list of its entries; the
  bucket array is absent, allocated, or freed (\<open>hashmap__clear\<close> frees it and keeps the
  pointer). Keys and values are the types \<open>'k\<close> and \<open>'v\<close>; the hash and comparison functions
  are fields of the map, as in the source, with the context argument inside them.

  The locale \<open>hash_laws\<close> states what the map relies on: the comparison is an equivalence
  and equal keys have equal hashes.
\<close>

type_synonym ('k, 'v) hashmap_entry = "'k \<times> 'v"

datatype ('k, 'v) bucket_array =
    Null_buckets
  | Buckets "('k, 'v) hashmap_entry list list"
  | Freed_buckets

record ('k, 'v) HashMap =
  hash_fn :: "'k \<Rightarrow> u32"
  equal_fn :: "'k \<Rightarrow> 'k \<Rightarrow> bool"
  buckets :: "('k, 'v) bucket_array"
  cap :: u32
  cap_bits :: u32
  sz :: u32

datatype hashmap_insert_strategy = HASHMAP_ADD | HASHMAP_SET | HASHMAP_UPDATE | HASHMAP_APPEND

definition HASHMAP_MIN_CAP_BITS :: u32 where
  "HASHMAP_MIN_CAP_BITS = 2"

text \<open>
  The product is computed in 64 bits, cut to 32, and the upper \<open>bits\<close> bits are kept. For
  \<open>bits = 0\<close> the shift by 32 has no defined result in C; the value is not used then (the
  bucket array is \<open>NULL\<close>).
\<close>

definition hash_bits :: "u32 \<Rightarrow> u32 \<Rightarrow> u32" where
  "hash_bits h bits =
     drop_bit (32 - unat bits) (ucast ((ucast h :: u64) * 11400714819323198485) :: u32)"

subsection \<open>Operations\<close>

definition hashmap__init :: "('k \<Rightarrow> u32) \<Rightarrow> ('k \<Rightarrow> 'k \<Rightarrow> bool) \<Rightarrow> ('k, 'v) HashMap" where
  "hashmap__init hf ef =
     \<lparr>hash_fn = hf, equal_fn = ef, buckets = Null_buckets, cap = 0, cap_bits = 0, sz = 0\<rparr>"

text \<open>\<open>sizeof(struct HashMap)\<close> is nine words; \<open>None\<close> for a null result.\<close>

definition hashmap__new :: "grant \<Rightarrow> ('k \<Rightarrow> u32) \<Rightarrow> ('k \<Rightarrow> 'k \<Rightarrow> bool) \<Rightarrow> ('k, 'v) HashMap option" where
  "hashmap__new g hf ef = (if g 36 = None then None else Some (hashmap__init hf ef))"

text \<open>\<open>hashmap__for_each_entry_safe\<close>: the entries in the order the loop visits them.\<close>

definition hashmap_for_each :: "('k, 'v) HashMap \<Rightarrow> fault + ('k, 'v) hashmap_entry list" where
  "hashmap_for_each m =
     (if cap m = 0 then Inr []
      else case buckets m of
             Null_buckets \<Rightarrow> Inl NullDeref
           | Freed_buckets \<Rightarrow> Inl OutOfBounds
           | Buckets bs \<Rightarrow>
               if unat (cap m) \<le> length bs then Inr (concat (take (unat (cap m)) bs))
               else Inl OutOfBounds)"

text \<open>\<open>hashmap__clear\<close>: the entries whose key and data are handed to the free functions.\<close>

definition hashmap__clear ::
    "('k, 'v) HashMap \<Rightarrow> fault + (('k, 'v) hashmap_entry list \<times> ('k, 'v) HashMap)" where
  "hashmap__clear m =
     bindE (hashmap_for_each m) (\<lambda>es.
     Inr (es, m\<lparr>buckets := (case buckets m of Null_buckets \<Rightarrow> Null_buckets | _ \<Rightarrow> Freed_buckets),
                cap := 0, cap_bits := 0, sz := 0\<rparr>))"

definition hashmap__free :: "('k, 'v) HashMap option \<Rightarrow> fault + ('k, 'v) hashmap_entry list" where
  "hashmap__free m =
     (case m of None \<Rightarrow> Inr [] | Some m \<Rightarrow> bindE (hashmap__clear m) (\<lambda>(es, _). Inr es))"

definition hashmap__size :: "('k, 'v) HashMap \<Rightarrow> u32" where
  "hashmap__size m = sz m"

definition hashmap__capacity :: "('k, 'v) HashMap \<Rightarrow> u32" where
  "hashmap__capacity m = cap m"

definition hashmap_needs_to_grow :: "('k, 'v) HashMap \<Rightarrow> bool" where
  "hashmap_needs_to_grow m \<longleftrightarrow> cap m = 0 \<or> (sz m + 1) * 4 div 3 > cap m"

text \<open>\<open>hashmap_add_entry(&buckets[h], e)\<close>: the entry becomes the head of its chain.\<close>

definition hashmap_add_entry ::
    "('k, 'v) hashmap_entry list list \<Rightarrow> u32 \<Rightarrow> ('k, 'v) hashmap_entry \<Rightarrow>
     fault + ('k, 'v) hashmap_entry list list" where
  "hashmap_add_entry bs h e =
     (if unat h < length bs then Inr (bs[unat h := e # bs ! unat h]) else Inl OutOfBounds)"

fun hashmap_rehash ::
    "('k \<Rightarrow> u32) \<Rightarrow> u32 \<Rightarrow> ('k, 'v) hashmap_entry list list \<Rightarrow> ('k, 'v) hashmap_entry list \<Rightarrow>
     fault + ('k, 'v) hashmap_entry list list" where
  "hashmap_rehash hf bits new_buckets [] = Inr new_buckets"
| "hashmap_rehash hf bits new_buckets (e # es) =
     bindE (hashmap_add_entry new_buckets (hash_bits (hf (fst e)) bits) e) (\<lambda>bs.
     hashmap_rehash hf bits bs es)"

text \<open>The result is 0, or -1 when the new array cannot be allocated.\<close>

definition hashmap_grow :: "grant \<Rightarrow> ('k, 'v) HashMap \<Rightarrow> fault + (int \<times> ('k, 'v) HashMap)" where
  "hashmap_grow g m =
     (let new_cap_bits = (if cap_bits m + 1 < HASHMAP_MIN_CAP_BITS then HASHMAP_MIN_CAP_BITS
                          else cap_bits m + 1);
          new_cap = push_bit (unat new_cap_bits) 1 :: u32 in
      case g (new_cap * 4) of
        None \<Rightarrow> Inr (-1, m)
      | Some _ \<Rightarrow>
          bindE (hashmap_for_each m) (\<lambda>es.
          bindE (hashmap_rehash (hash_fn m) new_cap_bits
                   (replicate (unat (new_cap * 4) div 4) []) es) (\<lambda>bs.
          Inr (0, m\<lparr>cap := new_cap, cap_bits := new_cap_bits, buckets := Buckets bs\<rparr>))))"

text \<open>The position of the first entry of a chain whose key is equal to \<open>key\<close>.\<close>

fun chain_find :: "('k \<Rightarrow> 'k \<Rightarrow> bool) \<Rightarrow> 'k \<Rightarrow> ('k, 'v) hashmap_entry list \<Rightarrow> nat option" where
  "chain_find eq key [] = None"
| "chain_find eq key (e # es) =
     (if eq (fst e) key then Some 0 else map_option Suc (chain_find eq key es))"

definition hashmap_find_entry :: "('k, 'v) HashMap \<Rightarrow> 'k \<Rightarrow> u32 \<Rightarrow> fault + nat option" where
  "hashmap_find_entry m key hash =
     (case buckets m of
        Null_buckets \<Rightarrow> Inr None
      | Freed_buckets \<Rightarrow> Inl OutOfBounds
      | Buckets bs \<Rightarrow>
          if unat hash < length bs then Inr (chain_find (equal_fn m) key (bs ! unat hash))
          else Inl OutOfBounds)"

text \<open>The chains of an allocated array (where \<open>hashmap_find_entry\<close> found an entry).\<close>

definition chains :: "('k, 'v) HashMap \<Rightarrow> ('k, 'v) hashmap_entry list list" where
  "chains m = (case buckets m of Buckets bs \<Rightarrow> bs | _ \<Rightarrow> [])"

text \<open>
  \<open>hashmap__insert\<close>: the return value, the entry reported through \<open>old_key\<close> and
  \<open>old_value\<close>, and the map. \<open>g\<close> answers the allocation of a grown array, \<open>g'\<close> that of the
  entry (three words).
\<close>

definition hashmap_put_new ::
    "grant \<Rightarrow> grant \<Rightarrow> ('k, 'v) HashMap \<Rightarrow> 'k \<Rightarrow> 'v \<Rightarrow> u32 \<Rightarrow> fault + (int \<times> ('k, 'v) HashMap)" where
  "hashmap_put_new g g' m key value h =
     bindE
       (if hashmap_needs_to_grow m
        then bindE (hashmap_grow g m) (\<lambda>(err, m).
             Inr (err, m, hash_bits (hash_fn m key) (cap_bits m)))
        else Inr (0, m, h))
       (\<lambda>(err, m, h).
     if err \<noteq> 0 then Inr (err, m)
     else if g' 12 = None then Inr (-1, m)
     else
       (case buckets m of
          Null_buckets \<Rightarrow> Inl NullDeref
        | Freed_buckets \<Rightarrow> Inl OutOfBounds
        | Buckets bs \<Rightarrow>
            bindE (hashmap_add_entry bs h (key, value)) (\<lambda>bs.
            Inr (0, m\<lparr>buckets := Buckets bs, sz := sz m + 1\<rparr>))))"

definition hashmap__insert ::
    "grant \<Rightarrow> grant \<Rightarrow> ('k, 'v) HashMap \<Rightarrow> 'k \<Rightarrow> 'v \<Rightarrow> hashmap_insert_strategy \<Rightarrow>
     fault + (int \<times> ('k, 'v) hashmap_entry option \<times> ('k, 'v) HashMap)" where
  "hashmap__insert g g' m key value strategy =
     (let h = hash_bits (hash_fn m key) (cap_bits m) in
      bindE (if strategy \<noteq> HASHMAP_APPEND then hashmap_find_entry m key h else Inr None) (\<lambda>found.
      case found of
        Some i \<Rightarrow>
          (let bs = chains m; old = bs ! unat h ! i in
           if strategy = HASHMAP_SET \<or> strategy = HASHMAP_UPDATE
           then Inr (0, Some old, m\<lparr>buckets := Buckets (bs[unat h := (bs ! unat h)[i := (key, value)]])\<rparr>)
           else Inr (-1, Some old, m))
      | None \<Rightarrow>
          if strategy = HASHMAP_UPDATE then Inr (-1, None, m)
          else bindE (hashmap_put_new g g' m key value h) (\<lambda>(r, m). Inr (r, None, m))))"

definition hashmap__add where
  "hashmap__add g g' m key value = hashmap__insert g g' m key value HASHMAP_ADD"

definition hashmap__set where
  "hashmap__set g g' m key value = hashmap__insert g g' m key value HASHMAP_SET"

definition hashmap__update where
  "hashmap__update g g' m key value = hashmap__insert g g' m key value HASHMAP_UPDATE"

definition hashmap__append where
  "hashmap__append g g' m key value = hashmap__insert g g' m key value HASHMAP_APPEND"

definition hashmap__find :: "('k, 'v) HashMap \<Rightarrow> 'k \<Rightarrow> fault + 'v option" where
  "hashmap__find m key =
     (let h = hash_bits (hash_fn m key) (cap_bits m) in
      bindE (hashmap_find_entry m key h) (\<lambda>found.
      Inr (map_option (\<lambda>i. snd (chains m ! unat h ! i)) found)))"

definition hashmap__delete ::
    "('k, 'v) HashMap \<Rightarrow> 'k \<Rightarrow> fault + (('k, 'v) hashmap_entry option \<times> ('k, 'v) HashMap)" where
  "hashmap__delete m key =
     (let h = hash_bits (hash_fn m key) (cap_bits m) in
      bindE (hashmap_find_entry m key h) (\<lambda>found.
      case found of
        None \<Rightarrow> Inr (None, m)
      | Some i \<Rightarrow>
          (let bs = chains m; c = bs ! unat h in
           Inr (Some (c ! i),
                m\<lparr>buckets := Buckets (bs[unat h := take i c @ drop (Suc i) c]), sz := sz m - 1\<rparr>))))"


subsection \<open>The laws of the hash function, and the invariant\<close>

locale hash_laws =
  fixes hf :: "'k \<Rightarrow> u32" and eq :: "'k \<Rightarrow> 'k \<Rightarrow> bool"
  assumes eq_refl: "eq k k" and eq_sym: "eq k l \<Longrightarrow> eq l k" and eq_trans: "eq k l \<Longrightarrow> eq l j \<Longrightarrow> eq k j"
    and eq_hash: "eq k l \<Longrightarrow> hf k = hf l"
begin

lemma eq_cong: "eq k l \<Longrightarrow> eq k j = eq l j"
  using eq_sym eq_trans by blast

lemma eq_cong_right: "eq k l \<Longrightarrow> eq j k = eq j l"
  using eq_sym eq_trans by blast

end

text \<open>The entries for a key, over all chains.\<close>

definition hm_match :: "('k, 'v) HashMap \<Rightarrow> 'k \<Rightarrow> ('k, 'v) hashmap_entry list" where
  "hm_match m k = filter (\<lambda>e. equal_fn m (fst e) k) (concat (chains m))"

text \<open>Every entry is in the chain its hash selects.\<close>

definition hm_placed :: "('k \<Rightarrow> u32) \<Rightarrow> u32 \<Rightarrow> ('k, 'v) hashmap_entry list list \<Rightarrow> bool" where
  "hm_placed hf bits bs \<longleftrightarrow>
     (\<forall>i < length bs. \<forall>e \<in> set (bs ! i). unat (hash_bits (hf (fst e)) bits) = i)"

definition hm_inv :: "('k, 'v) HashMap \<Rightarrow> bool" where
  "hm_inv m \<longleftrightarrow>
     (case buckets m of
        Null_buckets \<Rightarrow> cap m = 0 \<and> cap_bits m = 0 \<and> sz m = 0
      | Freed_buckets \<Rightarrow> False
      | Buckets bs \<Rightarrow>
          2 \<le> unat (cap_bits m) \<and> unat (cap_bits m) \<le> 29 \<and>
          unat (cap m) = 2 ^ unat (cap_bits m) \<and> length bs = 2 ^ unat (cap_bits m) \<and>
          hm_placed (hash_fn m) (cap_bits m) bs \<and> unat (sz m) = length (concat bs)) \<and>
     (\<forall>k. length (hm_match m k) \<le> 1)"

lemma hash_bits_bound:
  assumes "unat bits \<le> 32"
  shows "unat (hash_bits h bits) < 2 ^ unat bits"
proof -
  let ?w = "ucast ((ucast h :: u64) * 11400714819323198485) :: u32"
  have "unat ?w < 2 ^ 32" using unsigned_less [of ?w] by simp
  also have "(2::nat) ^ 32 = 2 ^ unat bits * 2 ^ (32 - unat bits)"
    using assms by (simp flip: power_add)
  finally have "unat ?w div 2 ^ (32 - unat bits) < 2 ^ unat bits"
    by (simp add: less_mult_imp_div_less)
  then show ?thesis by (simp add: hash_bits_def unat_drop_bit)
qed

lemma hm_inv_BucketsD:
  assumes "hm_inv m" and "buckets m = Buckets bs"
  shows "chains m = bs" "2 \<le> unat (cap_bits m)" "unat (cap_bits m) \<le> 29"
    "unat (cap m) = 2 ^ unat (cap_bits m)" "length bs = 2 ^ unat (cap_bits m)"
    "hm_placed (hash_fn m) (cap_bits m) bs" "unat (sz m) = length (concat bs)"
    "unat (hash_bits h (cap_bits m)) < length bs"
  using assms hash_bits_bound [of "cap_bits m" h] by (auto simp: hm_inv_def chains_def)

lemma concat_update:
  assumes "h < length bs"
  shows "concat (bs[h := c]) = concat (take h bs) @ c @ concat (drop (Suc h) bs)"
    and "concat bs = concat (take h bs) @ (bs ! h) @ concat (drop (Suc h) bs)"
  using assms id_take_nth_drop [OF assms]
  by (auto simp: upd_conv_take_nth_drop) (metis concat.simps(2) concat_append)

text \<open>The entries for a key are all in one chain.\<close>

lemma filter_concat_chain:
  assumes "h < length bs" and "\<And>i e. i < length bs \<Longrightarrow> i \<noteq> h \<Longrightarrow> e \<in> set (bs ! i) \<Longrightarrow> \<not> P e"
  shows "filter P (concat bs) = filter P (bs ! h)"
proof -
  have 1: "filter P (concat (take h bs)) = []"
  proof -
    have "\<not> P e" if "c \<in> set (take h bs)" "e \<in> set c" for c e
    proof -
      from that(1) obtain i where "i < h" "c = bs ! i" by (auto simp: in_set_conv_nth)
      with that(2) assms(1) assms(2) [of i e] show ?thesis by simp
    qed
    then show ?thesis by (auto simp: filter_empty_conv)
  qed
  have 2: "filter P (concat (drop (Suc h) bs)) = []"
  proof -
    have "\<not> P e" if "c \<in> set (drop (Suc h) bs)" "e \<in> set c" for c e
    proof -
      from that(1) obtain i where "i < length bs - Suc h" "c = bs ! (Suc h + i)"
        by (auto simp: in_set_conv_nth)
      with that(2) assms(2) [of "Suc h + i" e] show ?thesis by simp
    qed
    then show ?thesis by (auto simp: filter_empty_conv)
  qed
  from 1 2 show ?thesis by (simp add: concat_update(2) [OF assms(1)])
qed

lemma chain_find_filter:
  "case chain_find eq key c of
     None \<Rightarrow> filter (\<lambda>e. eq (fst e) key) c = []
   | Some i \<Rightarrow> i < length c \<and> filter (\<lambda>e. eq (fst e) key) c = c ! i # filter (\<lambda>e. eq (fst e) key) (drop (Suc i) c)"
  by (induction c) (auto split: option.splits)

lemma filter_same_mset:
  assumes "mset xs = mset ys" and "length (filter P xs) \<le> 1"
  shows "filter P xs = filter P ys"
proof -
  have m: "mset (filter P xs) = mset (filter P ys)" using assms(1) by simp
  show ?thesis
  proof (cases "filter P xs")
    case Nil
    with m show ?thesis by simp
  next
    case (Cons a as)
    with assms(2) have "filter P xs = [a]" by simp
    with m show ?thesis by (metis mset_single_iff_right mset.simps(1,2))
  qed
qed

context hash_laws
begin

lemma placed_index:
  "hm_placed hf bits bs \<Longrightarrow> j < length bs \<Longrightarrow> e \<in> set (bs ! j) \<Longrightarrow> eq (fst e) k \<Longrightarrow>
   j = unat (hash_bits (hf k) bits)"
  using eq_hash [of "fst e" k] unfolding hm_placed_def by metis

text \<open>In a map with these functions, the chain of a key holds all entries for it.\<close>

lemma hm_match_chain:
  assumes inv: "hm_inv m" and fn: "hash_fn m = hf" "equal_fn m = eq" and bs: "buckets m = Buckets bs"
  shows "hm_match m k = filter (\<lambda>e. eq (fst e) k) (bs ! unat (hash_bits (hf k) (cap_bits m)))"
proof -
  note d = hm_inv_BucketsD [OF inv bs]
  let ?h = "unat (hash_bits (hf k) (cap_bits m))"
  have "filter (\<lambda>e. eq (fst e) k) (concat bs) = filter (\<lambda>e. eq (fst e) k) (bs ! ?h)"
  proof (rule filter_concat_chain)
    show "?h < length bs" by (rule d(8))
    fix i e assume "i < length bs" "i \<noteq> ?h" "e \<in> set (bs ! i)"
    then show "\<not> eq (fst e) k" using placed_index [OF d(6) [unfolded fn]] by blast
  qed
  then show ?thesis by (simp add: hm_match_def d(1) fn)
qed

lemma hashmap_find_match:
  assumes inv: "hm_inv m" and fn: "hash_fn m = hf" "equal_fn m = eq"
  shows "hashmap__find m k = Inr (case hm_match m k of [] \<Rightarrow> None | e # _ \<Rightarrow> Some (snd e))"
proof (cases "buckets m")
  case Null_buckets
  then show ?thesis
    by (simp add: hashmap__find_def Let_def hashmap_find_entry_def hm_match_def chains_def)
next
  case Freed_buckets
  with inv show ?thesis by (simp add: hm_inv_def)
next
  case (Buckets bs)
  note d = hm_inv_BucketsD [OF inv Buckets]
  let ?h = "hash_bits (hf k) (cap_bits m)"
  show ?thesis
    using chain_find_filter [of eq k "bs ! unat ?h"] hm_match_chain [OF inv fn Buckets, of k] d(1,8)
    by (cases "chain_find eq k (bs ! unat ?h)")
       (auto simp: hashmap__find_def Let_def hashmap_find_entry_def Buckets fn)
qed


text \<open>
  Replacing the chain of \<open>key\<close> by \<open>c\<close>: the invariant and the entries for every key, given
  what happens inside the chain.
\<close>

lemma hm_replace_chain:
  assumes inv: "hm_inv m" and fn: "hash_fn m = hf" "equal_fn m = eq" and bs: "buckets m = Buckets bs"
    and h: "h = unat (hash_bits (hf key) (cap_bits m))"
    and m': "m' = m\<lparr>buckets := Buckets (bs[h := c]), sz := n\<rparr>"
    and keys: "\<And>e. e \<in> set c \<Longrightarrow> e \<in> set (bs ! h) \<or> fst e = key"
    and n: "unat n + length (bs ! h) = unat (sz m) + length c"
    and fil: "\<And>k. filter (\<lambda>e. eq (fst e) k) c =
           (if eq key k then r else filter (\<lambda>e. eq (fst e) k) (bs ! h))"
    and r: "length r \<le> 1"
  shows "hm_inv m' \<and> (\<forall>k. hm_match m' k = (if eq key k then r else hm_match m k))"
proof -
  note d = hm_inv_BucketsD [OF inv bs]
  have hb: "h < length bs" unfolding h by (rule d(8))
  have pl: "hm_placed hf (cap_bits m) (bs[h := c])"
    unfolding hm_placed_def
  proof (intro allI impI ballI)
    fix i e assume i: "i < length (bs[h := c])" and e: "e \<in> set (bs[h := c] ! i)"
    show "unat (hash_bits (hf (fst e)) (cap_bits m)) = i"
    proof (cases "i = h")
      case True
      with e hb keys [of e] d(6) h show ?thesis by (auto simp: hm_placed_def fn)
    next
      case False
      with e i d(6) show ?thesis by (simp add: hm_placed_def fn)
    qed
  qed
  have match: "hm_match m' k = (if eq key k then r else hm_match m k)" for k
  proof -
    let ?i = "unat (hash_bits (hf k) (cap_bits m))"
    have "hm_match m' k = filter (\<lambda>e. eq (fst e) k) (bs[h := c] ! ?i)"
    proof -
      have "filter (\<lambda>e. eq (fst e) k) (concat (bs[h := c])) = filter (\<lambda>e. eq (fst e) k) (bs[h := c] ! ?i)"
      proof (rule filter_concat_chain)
        show "?i < length (bs[h := c])" using d(8) by simp
        fix j e assume "j < length (bs[h := c])" "j \<noteq> ?i" "e \<in> set (bs[h := c] ! j)"
        then show "\<not> eq (fst e) k" using placed_index [OF pl] by blast
      qed
      then show ?thesis by (simp add: hm_match_def chains_def m' fn)
    qed
    also have "\<dots> = (if eq key k then r else hm_match m k)"
    proof (cases "?i = h")
      case True
      with fil [of k] hb show ?thesis by (simp add: hm_match_chain [OF inv fn bs])
    next
      case False
      then have "\<not> eq key k" using eq_hash [of key k] h by auto
      with False show ?thesis by (simp add: hm_match_chain [OF inv fn bs])
    qed
    finally show ?thesis .
  qed
  moreover have "length (concat (bs[h := c])) + length (bs ! h) = length (concat bs) + length c"
    by (simp add: concat_update [OF hb])
  ultimately have "hm_inv m'"
    using inv d pl n r by (auto simp: hm_inv_def m' fn)
  with match show ?thesis by simp
qed

lemma filter_eq_empty_cong:
  "eq key k \<Longrightarrow> filter (\<lambda>e. eq (fst e) k) c = filter (\<lambda>e. eq (fst e) key) c"
  using eq_cong_right by (intro filter_cong) auto

text \<open>What \<open>chain_find\<close> says about the only entry of a key.\<close>

lemma chain_found_split:
  assumes inv: "hm_inv m" and fn: "hash_fn m = hf" "equal_fn m = eq" and bs: "buckets m = Buckets bs"
    and h: "h = unat (hash_bits (hf key) (cap_bits m))" and fd: "chain_find eq key (bs ! h) = Some i"
  shows "i < length (bs ! h)" "eq (fst (bs ! h ! i)) key"
    "filter (\<lambda>e. eq (fst e) key) (take i (bs ! h)) = []"
    "filter (\<lambda>e. eq (fst e) key) (drop (Suc i) (bs ! h)) = []"
proof -
  let ?c = "bs ! h"
  from chain_find_filter [of eq key ?c] fd have i: "i < length ?c"
    and fi: "filter (\<lambda>e. eq (fst e) key) ?c = ?c ! i # filter (\<lambda>e. eq (fst e) key) (drop (Suc i) ?c)"
    by auto
  then have "?c ! i \<in> set (filter (\<lambda>e. eq (fst e) key) ?c)" by simp
  then have ei: "eq (fst (?c ! i)) key" by simp
  have one: "length (filter (\<lambda>e. eq (fst e) key) ?c) \<le> 1"
  proof -
    have "length (hm_match m key) \<le> 1" using inv by (simp add: hm_inv_def)
    then show ?thesis using hm_match_chain [OF inv fn bs, of key] h by simp
  qed
  have split: "?c = take i ?c @ ?c ! i # drop (Suc i) ?c" by (rule id_take_nth_drop [OF i])
  have rest: "filter (\<lambda>e. eq (fst e) key) (take i ?c) = []" "filter (\<lambda>e. eq (fst e) key) (drop (Suc i) ?c) = []"
  proof -
    have "filter (\<lambda>e. eq (fst e) key) ?c =
        filter (\<lambda>e. eq (fst e) key) (take i ?c) @ ?c ! i # filter (\<lambda>e. eq (fst e) key) (drop (Suc i) ?c)"
      using ei by (subst split) simp
    with one show "filter (\<lambda>e. eq (fst e) key) (take i ?c) = []"
      "filter (\<lambda>e. eq (fst e) key) (drop (Suc i) ?c) = []" by auto
  qed
  show "i < length ?c" "eq (fst (?c ! i)) key" "filter (\<lambda>e. eq (fst e) key) (take i ?c) = []"
    "filter (\<lambda>e. eq (fst e) key) (drop (Suc i) ?c) = []"
    by (fact i ei rest)+
qed

text \<open>A key that is in the map: its entry is overwritten.\<close>

lemma hashmap_overwrite:
  assumes inv: "hm_inv m" and fn: "hash_fn m = hf" "equal_fn m = eq" and bs: "buckets m = Buckets bs"
    and h: "h = unat (hash_bits (hf key) (cap_bits m))" and fd: "chain_find eq key (bs ! h) = Some i"
  shows "hm_inv (m\<lparr>buckets := Buckets (bs[h := (bs ! h)[i := (key, value)]])\<rparr>) \<and>
         (\<forall>k. hm_match (m\<lparr>buckets := Buckets (bs[h := (bs ! h)[i := (key, value)]])\<rparr>) k =
              (if eq key k then [(key, value)] else hm_match m k))"
proof -
  let ?c = "bs ! h"
  note c = chain_found_split [OF inv fn bs h fd]
  have split: "?c = take i ?c @ ?c ! i # drop (Suc i) ?c" by (rule id_take_nth_drop [OF c(1)])
  have upd: "?c[i := (key, value)] = take i ?c @ (key, value) # drop (Suc i) ?c"
    by (rule upd_conv_take_nth_drop [OF c(1)])
  have fil: "filter (\<lambda>e. eq (fst e) k) (?c[i := (key, value)]) =
      (if eq key k then [(key, value)] else filter (\<lambda>e. eq (fst e) k) ?c)" for k
  proof (cases "eq key k")
    case True
    then show ?thesis
      unfolding upd by (simp add: filter_eq_empty_cong [OF True] c(3,4) eq_refl)
  next
    case False
    with c(2) have "\<not> eq (fst (?c ! i)) k" using eq_cong [of "fst (?c ! i)" key k] by simp
    with False show ?thesis unfolding upd by (subst (3) split) simp
  qed
  show ?thesis
  proof (rule hm_replace_chain [OF inv fn bs h _ _ _ fil])
    show "m\<lparr>buckets := Buckets (bs[h := ?c[i := (key, value)]])\<rparr> =
        m\<lparr>buckets := Buckets (bs[h := ?c[i := (key, value)]]), sz := sz m\<rparr>" by simp
    show "e \<in> set ?c \<or> fst e = key" if "e \<in> set (?c[i := (key, value)])" for e
      using that set_update_subset_insert [of ?c i "(key, value)"] by auto
  qed simp_all
qed

text \<open>A key that is not in the map: an entry is added at the head of its chain.\<close>

lemma hashmap_prepend:
  assumes inv: "hm_inv m" and fn: "hash_fn m = hf" "equal_fn m = eq" and bs: "buckets m = Buckets bs"
    and h: "h = unat (hash_bits (hf key) (cap_bits m))" and none: "hm_match m key = []"
    and small: "unat (sz m) + 1 < 4294967296"
  shows "hm_inv (m\<lparr>buckets := Buckets (bs[h := (key, value) # bs ! h]), sz := sz m + 1\<rparr>) \<and>
         (\<forall>k. hm_match (m\<lparr>buckets := Buckets (bs[h := (key, value) # bs ! h]), sz := sz m + 1\<rparr>) k =
              (if eq key k then [(key, value)] else hm_match m k))"
proof -
  let ?c = "bs ! h"
  have empty: "filter (\<lambda>e. eq (fst e) key) ?c = []"
    using none hm_match_chain [OF inv fn bs, of key] h by simp
  have fil: "filter (\<lambda>e. eq (fst e) k) ((key, value) # ?c) =
      (if eq key k then [(key, value)] else filter (\<lambda>e. eq (fst e) k) ?c)" for k
    using empty by (auto simp: filter_eq_empty_cong)
  have "unat (sz m + 1) = Suc (unat (sz m))" using small by (simp add: unat_Suc_u32)
  then show ?thesis
    by (intro hm_replace_chain [OF inv fn bs h refl _ _ fil]) auto
qed

text \<open>A key that is in the map: its entry is taken out.\<close>

lemma hashmap_take_out:
  assumes inv: "hm_inv m" and fn: "hash_fn m = hf" "equal_fn m = eq" and bs: "buckets m = Buckets bs"
    and h: "h = unat (hash_bits (hf key) (cap_bits m))" and fd: "chain_find eq key (bs ! h) = Some i"
  shows "hm_inv (m\<lparr>buckets := Buckets (bs[h := take i (bs ! h) @ drop (Suc i) (bs ! h)]), sz := sz m - 1\<rparr>) \<and>
         (\<forall>k. hm_match (m\<lparr>buckets := Buckets (bs[h := take i (bs ! h) @ drop (Suc i) (bs ! h)]),
                        sz := sz m - 1\<rparr>) k = (if eq key k then [] else hm_match m k))"
proof -
  let ?c = "bs ! h"
  note c = chain_found_split [OF inv fn bs h fd]
  have split: "?c = take i ?c @ ?c ! i # drop (Suc i) ?c" by (rule id_take_nth_drop [OF c(1)])
  have fil: "filter (\<lambda>e. eq (fst e) k) (take i ?c @ drop (Suc i) ?c) =
      (if eq key k then [] else filter (\<lambda>e. eq (fst e) k) ?c)" for k
  proof (cases "eq key k")
    case True
    then show ?thesis by (simp add: filter_eq_empty_cong [OF True] c(3,4))
  next
    case False
    with c(2) have "\<not> eq (fst (?c ! i)) k" using eq_cong [of "fst (?c ! i)" key k] by simp
    with False show ?thesis by (subst (3) split) simp
  qed
  note d = hm_inv_BucketsD [OF inv bs]
  have "h < length bs" unfolding h by (rule d(8))
  moreover have "?c \<noteq> []" using c(1) by auto
  ultimately have "concat bs \<noteq> []" by (auto simp: concat_eq_Nil_conv)
  with d(7) have nz: "sz m \<noteq> 0" by (auto simp flip: unat_eq_zero)
  then have n: "unat (sz m) = Suc (unat (sz m - 1))" by (simp add: unat_minus_one unat_gt_0)
  show ?thesis
  proof (rule hm_replace_chain [OF inv fn bs h refl _ _ fil])
    show "e \<in> set ?c \<or> fst e = key" if "e \<in> set (take i ?c @ drop (Suc i) ?c)" for e
      using that by (auto dest: in_set_takeD in_set_dropD)
    show "unat (sz m - 1) + length ?c = unat (sz m) + length (take i ?c @ drop (Suc i) ?c)"
      using c(1) n by simp
  qed simp
qed

text \<open>Growing moves every entry to its new chain.\<close>

lemma hashmap_rehash_ok:
  assumes "length new = 2 ^ unat bits" and "unat bits \<le> 32" and "hm_placed hf bits new"
  shows "\<exists>bs. hashmap_rehash hf bits new es = Inr bs \<and> length bs = length new \<and>
           hm_placed hf bits bs \<and> mset (concat bs) = mset (concat new) + mset es"
  using assms
proof (induction es arbitrary: new)
  case Nil
  then show ?case by simp
next
  case (Cons e es)
  let ?h = "unat (hash_bits (hf (fst e)) bits)"
  have hb: "?h < length new" using hash_bits_bound [OF Cons.prems(2)] Cons.prems(1) by simp
  let ?new = "new[?h := e # new ! ?h]"
  have pl: "hm_placed hf bits ?new"
    unfolding hm_placed_def
  proof (intro allI impI ballI)
    fix i x assume i: "i < length ?new" and x: "x \<in> set (?new ! i)"
    with Cons.prems(3) hb show "unat (hash_bits (hf (fst x)) bits) = i"
      by (cases "i = ?h") (auto simp: hm_placed_def)
  qed
  from Cons.IH [of ?new] Cons.prems pl obtain bs where
    b: "hashmap_rehash hf bits ?new es = Inr bs" "length bs = length new" "hm_placed hf bits bs"
      "mset (concat bs) = mset (concat ?new) + mset es" by auto
  have "mset (concat ?new) = add_mset e (mset (concat new))"
    by (simp add: concat_update [OF hb])
  with b hb show ?case by (auto simp: hashmap_add_entry_def)
qed

lemma hashmap_for_each_chains:
  assumes "hm_inv m"
  shows "hashmap_for_each m = Inr (concat (chains m))"
proof (cases "buckets m")
  case (Buckets bs)
  note d = hm_inv_BucketsD [OF assms Buckets]
  then have "cap m \<noteq> 0" by (auto simp flip: unat_eq_zero)
  with d Buckets show ?thesis by (simp add: hashmap_for_each_def)
qed (use assms in \<open>auto simp: hm_inv_def hashmap_for_each_def chains_def\<close>)

lemma hashmap_grow_ok:
  assumes inv: "hm_inv m" and fn: "hash_fn m = hf" "equal_fn m = eq"
    and grants: "\<forall>n. g n \<noteq> None" and bits: "unat (cap_bits m) < 29"
  shows "\<exists>m'. hashmap_grow g m = Inr (0, m') \<and> hm_inv m' \<and> (\<forall>k. hm_match m' k = hm_match m k) \<and>
           hash_fn m' = hf \<and> equal_fn m' = eq \<and> sz m' = sz m \<and> buckets m' \<noteq> Null_buckets \<and>
           unat (cap_bits m') \<le> unat (cap_bits m) + 2"
proof -
  define nb where "nb = (if cap_bits m + 1 < HASHMAP_MIN_CAP_BITS then HASHMAP_MIN_CAP_BITS
                          else cap_bits m + 1)"
  have s: "unat (cap_bits m + 1) = Suc (unat (cap_bits m))" using bits by (simp add: unat_Suc_u32)
  have nb: "2 \<le> unat nb" "unat nb \<le> 29" "unat nb \<le> unat (cap_bits m) + 2"
    using bits s by (auto simp: nb_def HASHMAP_MIN_CAP_BITS_def u32_less_unat)
  let ?cap = "push_bit (unat nb) 1 :: u32"
  have cap: "unat ?cap = 2 ^ unat nb"
  proof -
    have "(2::nat) ^ unat nb \<le> 2 ^ 29" using nb(2) by (intro power_increasing) simp_all
    then have "(2::nat) ^ unat nb < 4294967296" by simp
    then have "unat (of_nat (2 ^ unat nb) :: u32) = 2 ^ unat nb" by (rule unat_of_nat_u32)
    then show ?thesis by (simp add: push_bit_eq_mult)
  qed
  have "(2::nat) ^ unat nb * 4 \<le> 2 ^ 29 * 4" using nb(2) by (intro mult_le_mono1 power_increasing) simp_all
  then have cap4: "unat (?cap * 4) div 4 = 2 ^ unat nb"
    using cap by (subst unat_mult_no_wrap) simp_all
  from hashmap_rehash_ok [of "replicate (2 ^ unat nb) []" nb "concat (chains m)"] nb(2)
  obtain bs where b: "hashmap_rehash hf nb (replicate (2 ^ unat nb) []) (concat (chains m)) = Inr bs"
      "length bs = 2 ^ unat nb" "hm_placed hf nb bs" "mset (concat bs) = mset (concat (chains m))"
    by (auto simp: hm_placed_def)
  let ?m = "m\<lparr>cap := ?cap, cap_bits := nb, buckets := Buckets bs\<rparr>"
  obtain z where z: "g (?cap * 4) = Some z" using grants by auto
  have gr: "hashmap_grow g m = Inr (0, ?m)"
    using z b(1) cap4 hashmap_for_each_chains [OF inv] fn
    by (simp add: hashmap_grow_def Let_def nb_def [symmetric])
  have match: "hm_match ?m k = hm_match m k" for k
  proof -
    have "length (hm_match m k) \<le> 1" using inv by (simp add: hm_inv_def)
    then show ?thesis
      using filter_same_mset [OF b(4) [symmetric], of "\<lambda>e. eq (fst e) k"]
      by (simp add: hm_match_def chains_def fn)
  qed
  have "unat (sz m) = length (concat (chains m))"
    using inv by (cases "buckets m") (auto simp: hm_inv_def chains_def)
  then have "unat (sz m) = length (concat bs)" using b(4) by (metis size_mset)
  then have "hm_inv ?m"
    using nb cap b match inv by (auto simp: hm_inv_def fn)
  with gr match fn nb show ?thesis by auto
qed

text \<open>What a lookup of the whole map returns after each operation.\<close>

lemma hashmap_find_entry_match:
  assumes inv: "hm_inv m" and fn: "hash_fn m = hf" "equal_fn m = eq"
  shows "\<exists>r. hashmap_find_entry m key (hash_bits (hf key) (cap_bits m)) = Inr r \<and>
     (r = None \<longleftrightarrow> hm_match m key = []) \<and>
     (\<forall>i. r = Some i \<longrightarrow> (\<exists>bs. buckets m = Buckets bs \<and>
        chain_find eq key (bs ! unat (hash_bits (hf key) (cap_bits m))) = Some i))"
proof (cases "buckets m")
  case Null_buckets
  then show ?thesis by (simp add: hashmap_find_entry_def hm_match_def chains_def)
next
  case Freed_buckets
  with inv show ?thesis by (simp add: hm_inv_def)
next
  case (Buckets bs)
  note d = hm_inv_BucketsD [OF inv Buckets]
  show ?thesis
    using chain_find_filter [of eq key "bs ! unat (hash_bits (hf key) (cap_bits m))"]
      hm_match_chain [OF inv fn Buckets, of key] d(8)
    by (auto simp: hashmap_find_entry_def Buckets fn split: option.splits)
qed

lemma hashmap_put_new_ok:
  assumes inv: "hm_inv m" and fn: "hash_fn m = hf" "equal_fn m = eq" and none: "hm_match m key = []"
    and grants: "\<forall>n. g n \<noteq> None" "\<forall>n. g' n \<noteq> None" and bits: "unat (cap_bits m) < 29"
    and small: "unat (sz m) + 1 < 4294967296"
  shows "\<exists>m'. hashmap_put_new g g' m key value (hash_bits (hf key) (cap_bits m)) = Inr (0, m') \<and>
           hm_inv m' \<and> hash_fn m' = hf \<and> equal_fn m' = eq \<and> sz m' = sz m + 1 \<and>
           (\<forall>k. hm_match m' k = (if eq key k then [(key, value)] else hm_match m k))"
proof -
  obtain m1 where m1: "(if hashmap_needs_to_grow m
        then bindE (hashmap_grow g m) (\<lambda>(err, m). Inr (err, m, hash_bits (hash_fn m key) (cap_bits m)))
        else Inr (0, m, hash_bits (hf key) (cap_bits m))) =
        Inr (0, m1, hash_bits (hf key) (cap_bits m1))"
    and i1: "hm_inv m1" "hash_fn m1 = hf" "equal_fn m1 = eq" "sz m1 = sz m"
      "\<forall>k. hm_match m1 k = hm_match m k" "buckets m1 \<noteq> Null_buckets"
  proof (cases "hashmap_needs_to_grow m")
    case True
    with hashmap_grow_ok [OF inv fn grants(1) bits] that show ?thesis by auto
  next
    case False
    then have "buckets m \<noteq> Null_buckets"
      using inv by (auto simp: hashmap_needs_to_grow_def hm_inv_def)
    with False that [of m] inv fn show ?thesis by simp
  qed
  from i1 obtain bs where bs: "buckets m1 = Buckets bs"
    by (cases "buckets m1") (auto simp: hm_inv_def)
  let ?h = "unat (hash_bits (hf key) (cap_bits m1))"
  let ?m2 = "m1\<lparr>buckets := Buckets (bs[?h := (key, value) # bs ! ?h]), sz := sz m1 + 1\<rparr>"
  have hb: "?h < length bs" by (rule hm_inv_BucketsD(8) [OF i1(1) bs])
  have "hm_inv ?m2 \<and> (\<forall>k. hm_match ?m2 k = (if eq key k then [(key, value)] else hm_match m1 k))"
    using i1 none small by (intro hashmap_prepend [OF i1(1-3) bs refl]) auto
  moreover have "hashmap_put_new g g' m key value (hash_bits (hf key) (cap_bits m)) = Inr (0, ?m2)"
    unfolding hashmap_put_new_def m1 using bs hb grants(2) by (simp add: hashmap_add_entry_def)
  ultimately show ?thesis using i1 by (intro exI [of _ ?m2]) auto
qed

lemma hashmap_insert_ok:
  assumes inv: "hm_inv m" and fn: "hash_fn m = hf" "equal_fn m = eq"
    and grants: "\<forall>n. g n \<noteq> None" "\<forall>n. g' n \<noteq> None" and bits: "unat (cap_bits m) < 29"
    and small: "unat (sz m) + 1 < 4294967296"
  shows "\<exists>r old m'. hashmap__insert g g' m key value HASHMAP_SET = Inr (0, old, m') \<and> hm_inv m' \<and>
           hash_fn m' = hf \<and> equal_fn m' = eq \<and>
           sz m' = (if hm_match m key = [] then sz m + 1 else sz m) \<and>
           (\<forall>k. hm_match m' k = (if eq key k then [(key, value)] else hm_match m k))"
proof -
  let ?h = "hash_bits (hf key) (cap_bits m)"
  from hashmap_find_entry_match [OF inv fn] obtain r where
    r: "hashmap_find_entry m key ?h = Inr r" "r = None \<longleftrightarrow> hm_match m key = []"
      "\<And>i. r = Some i \<Longrightarrow> \<exists>bs. buckets m = Buckets bs \<and> chain_find eq key (bs ! unat ?h) = Some i"
    by blast
  show ?thesis
  proof (cases r)
    case None
    with hashmap_put_new_ok [OF inv fn _ grants bits small, of key "value"] r show ?thesis
      by (auto simp: hashmap__insert_def Let_def fn)
  next
    case (Some i)
    with r(3) obtain bs where bs: "buckets m = Buckets bs" "chain_find eq key (bs ! unat ?h) = Some i"
      by blast
    from hashmap_overwrite [OF inv fn bs(1) refl bs(2), of "value"] r Some bs(1) show ?thesis
      by (auto simp: hashmap__insert_def Let_def fn chains_def)
  qed
qed

lemma hashmap_delete_ok:
  assumes inv: "hm_inv m" and fn: "hash_fn m = hf" "equal_fn m = eq"
  shows "\<exists>m'. hashmap__delete m key = Inr (case hm_match m key of [] \<Rightarrow> None | e # _ \<Rightarrow> Some e, m') \<and>
           hm_inv m' \<and> hash_fn m' = hf \<and> equal_fn m' = eq \<and>
           (\<forall>k. hm_match m' k = (if eq key k then [] else hm_match m k))"
proof -
  let ?h = "hash_bits (hf key) (cap_bits m)"
  from hashmap_find_entry_match [OF inv fn] obtain r where
    r: "hashmap_find_entry m key ?h = Inr r" "r = None \<longleftrightarrow> hm_match m key = []"
      "\<And>i. r = Some i \<Longrightarrow> \<exists>bs. buckets m = Buckets bs \<and> chain_find eq key (bs ! unat ?h) = Some i"
    by blast
  show ?thesis
  proof (cases r)
    case None
    have "hm_match m k = []" if "eq key k" for k
      using r(2) None filter_eq_empty_cong [OF that, of "concat (chains m)"] by (simp add: hm_match_def fn)
    with None r inv fn show ?thesis by (auto simp: hashmap__delete_def Let_def)
  next
    case (Some i)
    with r(3) obtain bs where bs: "buckets m = Buckets bs" "chain_find eq key (bs ! unat ?h) = Some i"
      by blast
    have "hm_match m key = [bs ! unat ?h ! i]"
      using chain_find_filter [of eq key "bs ! unat ?h"] bs(2)
        chain_found_split(4) [OF inv fn bs(1) refl bs(2)] hm_match_chain [OF inv fn bs(1), of key]
      by simp
    with hashmap_take_out [OF inv fn bs(1) refl bs(2)] r Some bs(1) fn show ?thesis
      by (auto simp: hashmap__delete_def Let_def chains_def)
  qed
qed

end

subsection \<open>Properties\<close>

text \<open>The key functions of the repository: integers hashed to themselves.\<close>

definition int_hash_fn :: "u32 \<Rightarrow> u32" where
  "int_hash_fn key = key"

definition int_compare_fn :: "u32 \<Rightarrow> u32 \<Rightarrow> bool" where
  "int_compare_fn key1 key2 \<longleftrightarrow> key1 = key2"

interpretation int_keys: hash_laws int_hash_fn int_compare_fn
  by unfold_locales (auto simp: int_compare_fn_def)

text \<open>
  C9: \<open>hashmap__set\<close> on a well-formed map succeeds and behaves as a map update: afterwards
  every key equal to the given one is found with the new value and every other key with
  what it had before, also when the map had to grow.
\<close>

theorem hashmap_set_find:
  assumes "hash_laws (hash_fn m) (equal_fn m)" and "hm_inv m"
    and "\<forall>n. g n \<noteq> None" and "\<forall>n. g' n \<noteq> None"
    and "unat (cap_bits m) < 29" and "unat (sz m) + 1 < 4294967296"
  shows "\<exists>old m'. hashmap__set g g' m key value = Inr (0, old, m') \<and> hm_inv m' \<and>
           (\<forall>k. hashmap__find m' k =
                (if equal_fn m key k then Inr (Some value) else hashmap__find m k))"
  using hash_laws.hashmap_insert_ok [OF assms(1,2) refl refl assms(3-6), of key "value"]
    hash_laws.hashmap_find_match [OF assms(1)] assms(2)
  unfolding hashmap__set_def by fastforce

theorem hashmap_set_find_witness:
  "\<exists>old m'. hashmap__set (\<lambda>n. Some n) (\<lambda>n. Some n)
       (hashmap__init int_hash_fn int_compare_fn :: (u32, u32) HashMap) 5 42 = Inr (0, old, m') \<and> hm_inv m' \<and>
     (\<forall>k. hashmap__find m' k =
          (if equal_fn (hashmap__init int_hash_fn int_compare_fn :: (u32, u32) HashMap) 5 k then Inr (Some 42)
           else hashmap__find (hashmap__init int_hash_fn int_compare_fn) k))"
  by (rule hashmap_set_find)
     (simp_all add: hashmap__init_def int_keys.hash_laws_axioms hm_inv_def hm_match_def chains_def)

text \<open>
  C14: \<open>hashmap__delete\<close> removes exactly the entry of the key and reports it; afterwards the
  key is not found and every other key as before.
\<close>

theorem hashmap_delete_find:
  assumes "hash_laws (hash_fn m) (equal_fn m)" and "hm_inv m"
  shows "\<exists>old m'. hashmap__delete m key = Inr (old, m') \<and> hm_inv m' \<and>
           hashmap__find m key = Inr (map_option snd old) \<and>
           (\<forall>k. hashmap__find m' k = (if equal_fn m key k then Inr None else hashmap__find m k))"
  using hash_laws.hashmap_delete_ok [OF assms refl refl, of key]
    hash_laws.hashmap_find_match [OF assms(1)] assms(2)
  by (fastforce split: list.split)

theorem hashmap_delete_find_witness:
  "\<exists>old m'. hashmap__delete (hashmap__init int_hash_fn int_compare_fn :: (u32, u32) HashMap) 5 = Inr (old, m') \<and>
     hm_inv m' \<and> hashmap__find (hashmap__init int_hash_fn int_compare_fn :: (u32, u32) HashMap) 5 = Inr (map_option snd old) \<and>
     (\<forall>k. hashmap__find m' k =
          (if equal_fn (hashmap__init int_hash_fn int_compare_fn :: (u32, u32) HashMap) 5 k then Inr None
           else hashmap__find (hashmap__init int_hash_fn int_compare_fn) k))"
  by (rule hashmap_delete_find)
     (simp_all add: hashmap__init_def int_keys.hash_laws_axioms hm_inv_def hm_match_def chains_def)

text \<open>
  \<open>hashmap__clear\<close> frees the bucket array and keeps the pointer to it: every later lookup,
  insertion or deletion reads freed memory.
\<close>

lemma hashmap_clear_dangles:
  assumes "hm_inv m" and "buckets m = Buckets bs"
  shows "\<exists>es m'. hashmap__clear m = Inr (es, m') \<and> hashmap__find m' k = Inl OutOfBounds \<and>
           hashmap__insert g g' m' k v HASHMAP_SET = Inl OutOfBounds"
  using assms hm_inv_BucketsD [OF assms]
  by (auto simp: hashmap__clear_def hashmap_for_each_def hashmap__find_def hashmap__insert_def
      Let_def hashmap_find_entry_def)


text \<open>
  The header promises that with \<open>HASHMAP_APPEND\<close> a lookup returns the entry inserted last.
  Growing reverses the chains: after three appends of one key the last value is found, and
  after one more insertion (of another key) the first.
\<close>

fun append_all :: "(u32, u32) HashMap \<Rightarrow> (u32 \<times> u32) list \<Rightarrow> fault + (u32, u32) HashMap" where
  "append_all m [] = Inr m"
| "append_all m ((k, v) # es) =
     bindE (hashmap__append (\<lambda>n. Some n) (\<lambda>n. Some n) m k v) (\<lambda>(_, _, m'). append_all m' es)"

lemma hashmap_append_order_lost:
  "bindE (append_all (hashmap__init int_hash_fn int_compare_fn) [(5, 1), (5, 2), (5, 3)])
     (\<lambda>m. hashmap__find m 5) = Inr (Some 3)"
  "bindE (append_all (hashmap__init int_hash_fn int_compare_fn) [(5, 1), (5, 2), (5, 3), (7, 4)])
     (\<lambda>m. hashmap__find m 5) = Inr (Some 1)"
  by code_simp+

end
