(* ===== verification/Bit_Fields.thy ===== *)
theory Bit_Fields
  imports Kernel_Prelude
begin

section \<open>Bit fields of 32-bit words\<close>

text \<open>
  The page table entries and the registers of the SD controller are unions of a word and of
  structs whose members are bit fields. The compiler places the fields from the least
  significant bit up, in the order of their declaration; a value that is stored is cut to the
  width of its field. \<open>pack\<close> is the word that the fields make up, \<open>unpack\<close> reads them back.
\<close>

fun pack :: "nat list \<Rightarrow> u32 list \<Rightarrow> u32" where
  "pack (w # ws) (v # vs) = take_bit w v OR push_bit w (pack ws vs)"
| "pack _ _ = 0"

primrec unpack :: "nat list \<Rightarrow> u32 \<Rightarrow> u32 list" where
  "unpack [] e = []"
| "unpack (w # ws) e = take_bit w e # unpack ws (drop_bit w e)"

lemma length_unpack [simp]: "length (unpack ws e) = length ws"
  by (induction ws arbitrary: e) simp_all

lemma pack_bit_bound: "bit (pack ws vs) n \<Longrightarrow> n < sum_list ws"
proof (induction ws vs arbitrary: n rule: pack.induct)
  case (1 w ws v vs)
  from "1.prems" have "n < w \<or> w \<le> n \<and> bit (pack ws vs) (n - w)"
    by (auto simp: bit_or_iff bit_take_bit_iff bit_push_bit_iff)
  then show ?case using "1.IH" [of "n - w"] by auto
qed auto

text \<open>Storing all fields and reading them back gives the stored values, cut to their widths.\<close>

theorem unpack_pack:
  "length ws = length vs \<Longrightarrow> sum_list ws \<le> 32 \<Longrightarrow> unpack ws (pack ws vs) = map2 take_bit ws vs"
proof (induction ws vs rule: pack.induct)
  case (1 w ws v vs)
  have "take_bit w (pack (w # ws) (v # vs)) = take_bit w v"
    by (rule bit_word_eqI) (auto simp: bit_or_iff bit_take_bit_iff bit_push_bit_iff)
  moreover have "drop_bit w (pack (w # ws) (v # vs)) = pack ws vs"
  proof (rule bit_word_eqI)
    fix n assume "n < LENGTH(32)"
    show "bit (drop_bit w (pack (w # ws) (v # vs))) n = bit (pack ws vs) n"
      using pack_bit_bound [of ws vs n] "1.prems"(2)
      by (auto simp: bit_or_iff bit_take_bit_iff bit_push_bit_iff bit_drop_bit_eq)
  qed
  ultimately show ?case using 1 by (simp del: pack.simps)
qed auto

text \<open>The fields determine the word: nothing is lost when their widths add up to 32.\<close>

theorem pack_unpack:
  "pack ws (unpack ws e) = take_bit (sum_list ws) e"
proof (induction ws arbitrary: e)
  case (Cons w ws)
  show ?case
  proof (rule bit_word_eqI)
    fix n assume "n < LENGTH(32)"
    then show "bit (pack (w # ws) (unpack (w # ws) e)) n = bit (take_bit (sum_list (w # ws)) e) n"
      by (auto simp: Cons.IH bit_or_iff bit_take_bit_iff bit_push_bit_iff bit_drop_bit_eq)
  qed
qed simp

lemma take_bit_32 [simp]: "take_bit 32 (e :: u32) = e"
  by (rule bit_word_eqI) (simp add: bit_take_bit_iff)

lemma take_bit_small: "unat v < 2 ^ n \<Longrightarrow> take_bit n (v :: u32) = v"
  by (simp add: word_unat_eq_iff unsigned_take_bit_eq take_bit_nat_eq_self)

end
