(* ===== verification/Hardware_Info.thy ===== *)
theory Hardware_Info
  imports Kernel_Prelude
begin

section \<open>Hardware detection and address constants: \<open>common/hardwareinfo.c\<close>, \<open>vm2.h\<close>\<close>

text \<open>
  The constants of the memory layout (the kernel is linked at 2 GiB, \<open>kernel.ld\<close>), the
  detection of the board from the main ID register, and the test whether an address lies in
  the region of memory mapped I/O.
\<close>

definition Kibibyte :: u32 where "Kibibyte = 1024"
definition Mebibyte :: u32 where "Mebibyte = 1024 * Kibibyte"
definition Gibibyte :: u32 where "Gibibyte = 1024 * Mebibyte"

definition KERNEL_VIRTUAL_OFFSET :: u32 where "KERNEL_VIRTUAL_OFFSET = 0x80000000"
definition KERNEL_HEAP_BASE :: u32 where "KERNEL_HEAP_BASE = 3 * Gibibyte"

text \<open>\<open>4 * Gibibyte\<close> does not fit in 32 bits; the constant is computed modulo \<open>2^32\<close>.\<close>

definition KERNEL_MMIO_BASE :: u32 where "KERNEL_MMIO_BASE = 4 * Gibibyte - 1 * Mebibyte"
definition PAGE_SIZE :: u32 where "PAGE_SIZE = 4 * Kibibyte"
definition VirtualL1PagetableLocation :: u32 where
  "VirtualL1PagetableLocation = KERNEL_VIRTUAL_OFFSET + 0x4000"

definition PHYS2VIRT :: "u32 \<Rightarrow> u32" where "PHYS2VIRT address = address + KERNEL_VIRTUAL_OFFSET"
definition VIRT2PHYS :: "u32 \<Rightarrow> u32" where "VIRT2PHYS address = address - KERNEL_VIRTUAL_OFFSET"

lemma phys_virt_inverse [simp]: "VIRT2PHYS (PHYS2VIRT a) = a" "PHYS2VIRT (VIRT2PHYS a) = a"
  by (simp_all add: PHYS2VIRT_def VIRT2PHYS_def)

text \<open>
  The offset is half of the address space, so that the two conversions are the same
  function modulo \<open>2^32\<close>.
\<close>

lemma phys2virt_eq_virt2phys: "PHYS2VIRT a = VIRT2PHYS a"
proof -
  have "- (0x80000000 :: u32) = 0x80000000" by simp
  then show ?thesis
    unfolding PHYS2VIRT_def VIRT2PHYS_def KERNEL_VIRTUAL_OFFSET_def diff_conv_add_uminus by metis
qed

subsection \<open>The board\<close>

datatype CpuType = ARM1176 | CortexA7

datatype BoardType = VersatilePB | RaspberryPiZero | RaspBerryPiTwo

record HardwareInfo =
  cpuType :: CpuType
  boardType :: BoardType
  peripheral_base_address :: u32
  peripheral_region_size :: u32

text \<open>\<open>BCM2836_PERIPHERALS_PHYSICAL_BASE\<close> of \<open>bcm2836.h\<close>.\<close>

definition BCM2836_PERIPHERALS_PHYSICAL_BASE :: u32 where
  "BCM2836_PERIPHERALS_PHYSICAL_BASE = 0x3F000000"

text \<open>\<open>midr\<close> is the main ID register (coprocessor 15, c0).\<close>

definition detect_boardtype :: "u32 \<Rightarrow> fault + BoardType" where
  "detect_boardtype midr =
     (let type = drop_bit 4 midr AND 0xFFF in
      if type = 0xB76 then Inr RaspberryPiZero
      else if type = 0xC07 then Inr RaspBerryPiTwo
      else Inl FatalPanic)"

definition init_hardwareinfo :: "u32 \<Rightarrow> fault + HardwareInfo" where
  "init_hardwareinfo midr =
     bindE (detect_boardtype midr) (\<lambda>board.
     case board of
       RaspBerryPiTwo \<Rightarrow>
         Inr \<lparr>cpuType = ARM1176, boardType = board,
              peripheral_base_address = BCM2836_PERIPHERALS_PHYSICAL_BASE,
              peripheral_region_size = 21 * Mebibyte\<rparr>
     | _ \<Rightarrow> Inl FatalPanic)"

definition address_in_reserved_region :: "HardwareInfo \<Rightarrow> u32 \<Rightarrow> bool" where
  "address_in_reserved_region hw address \<longleftrightarrow>
     address - KERNEL_VIRTUAL_OFFSET \<ge> peripheral_base_address hw \<and>
     address - KERNEL_VIRTUAL_OFFSET < peripheral_base_address hw + peripheral_region_size hw"

end
