(* ===== verification/Pmm.thy ===== *)
theory Pmm
  imports Hardware_Info
begin

section \<open>The physical memory manager: \<open>vm/pmm.c\<close>\<close>

text \<open>
  Physical memory is cut into slices of 8 KiB. A slice holds a first level page table, two
  pages, eight second level page tables, or the 512 \<open>MemorySliceInfo\<close> structs that describe
  the slices of a bucket. The structs are chained into four doubly linked lists whose heads
  are fields of \<open>physicalMemoryManager\<close>; the address of such a field, which the list
  functions take, is its name (\<open>pmm_list\<close>).

  The state: the structs by their addresses (RAM that was never written holds any value),
  the four heads, the bounds of the managed region, and the words of RAM that the
  allocation functions clear. That the structs and the words do not overlap is a property
  of the layout: the slices that hold structs are never handed out.
\<close>

datatype MemoryType = L1PageTable | L2PageTable | Page | BucketInfo

record MemorySliceInfo =
  mtype :: MemoryType
  filled :: u8
  reserved :: bool
  snext :: ptr
  sprev :: ptr
  slice :: ptr

datatype pmm_list = unused | allocated | l2ptPartialFree | pagePartialFree

record PhysicalMemoryManager =
  sinfo :: "ptr \<Rightarrow> MemorySliceInfo"
  heads :: "pmm_list \<Rightarrow> ptr"
  pstart :: u32
  pend :: u32
  words :: "u32 \<Rightarrow> u32"

datatype SLICE_INFO_ERRNO = SI_SUCCESS | SI_RESERVED_MMIO_MEMORY | SI_NOT_FOUND

text \<open>\<open>sizeof(union MemorySlice)\<close>, \<open>sizeof(struct MemorySliceInfo)\<close> and the number of structs in a slice.\<close>

definition slice_size :: u32 where "slice_size = 8192"
definition sliceinfo_size :: u32 where "sliceinfo_size = 16"
definition SLICEINFO_PER_SLICE :: u32 where "SLICEINFO_PER_SLICE = 512"

subsection \<open>The linked lists\<close>

definition sget :: "PhysicalMemoryManager \<Rightarrow> ptr \<Rightarrow> fault + MemorySliceInfo" where
  "sget s p = (if p = NULL then Inl NullDeref else Inr (sinfo s p))"

definition sput :: "PhysicalMemoryManager \<Rightarrow> ptr \<Rightarrow> (MemorySliceInfo \<Rightarrow> MemorySliceInfo) \<Rightarrow> fault + PhysicalMemoryManager" where
  "sput s p f = (if p = NULL then Inl NullDeref else Inr (s\<lparr>sinfo := (sinfo s)(p := f (sinfo s p))\<rparr>))"

definition push_to_ll :: "PhysicalMemoryManager \<Rightarrow> pmm_list \<Rightarrow> ptr \<Rightarrow> fault + PhysicalMemoryManager" where
  "push_to_ll s l entry =
     bindE (if heads s l \<noteq> NULL then sput s (heads s l) (\<lambda>i. i\<lparr>sprev := entry\<rparr>) else Inr s) (\<lambda>s.
     bindE (sput s entry (\<lambda>i. i\<lparr>snext := heads s l\<rparr>)) (\<lambda>s.
     Inr (s\<lparr>heads := (heads s)(l := entry)\<rparr>)))"

definition pop_from_ll :: "PhysicalMemoryManager \<Rightarrow> pmm_list \<Rightarrow> fault + (ptr \<times> PhysicalMemoryManager)" where
  "pop_from_ll s l =
     (let top = heads s l in
      bindE (sget s top) (\<lambda>i.
      let s = s\<lparr>heads := (heads s)(l := snext i)\<rparr> in
      bindE (if heads s l \<noteq> NULL then sput s (heads s l) (\<lambda>i. i\<lparr>sprev := NULL\<rparr>) else Inr s) (\<lambda>s.
      bindE (sput s top (\<lambda>i. i\<lparr>snext := NULL\<rparr>)) (\<lambda>s.
      bindE (sput s top (\<lambda>i. i\<lparr>sprev := NULL\<rparr>)) (\<lambda>s.
      Inr (top, s))))))"

definition remove_element_ll :: "PhysicalMemoryManager \<Rightarrow> pmm_list \<Rightarrow> ptr \<Rightarrow> fault + PhysicalMemoryManager" where
  "remove_element_ll s l entry =
     bindE (sget s entry) (\<lambda>i.
     bindE (if snext i \<noteq> NULL then sput s (snext i) (\<lambda>n. n\<lparr>sprev := sprev i\<rparr>) else Inr s) (\<lambda>s.
     bindE (sget s entry) (\<lambda>i.
     bindE (if sprev i \<noteq> NULL then sput s (sprev i) (\<lambda>n. n\<lparr>snext := snext i\<rparr>)
            else Inr (s\<lparr>heads := (heads s)(l := snext i)\<rparr>)) (\<lambda>s.
     bindE (sput s entry (\<lambda>i. i\<lparr>snext := NULL\<rparr>)) (\<lambda>s.
     sput s entry (\<lambda>i. i\<lparr>sprev := NULL\<rparr>))))))"

text \<open>\<open>__builtin_clz\<close>: the number of leading zero bits of a 32-bit word.\<close>

definition clz :: "u32 \<Rightarrow> nat" where
  "clz w = length (takeWhile (\<lambda>i. \<not> bit w i) (rev [0..<32]))"

definition first_free :: "u16 \<Rightarrow> u32" where
  "first_free fl =
     (let fl = NOT fl in 32 - of_nat (clz (ucast (fl AND (- fl)))) - 1)"

subsection \<open>Finding the struct of a slice\<close>

text \<open>The address of the struct that describes the slice around \<open>p\<close>.\<close>

definition sliceinfo_address :: "u32 \<Rightarrow> u32 \<Rightarrow> u32" where
  "sliceinfo_address start p =
     (let bucketsize = SLICEINFO_PER_SLICE * slice_size;
          offset_from_allocator_start = p - start;
          bucketindex = offset_from_allocator_start div bucketsize;
          correction = (if bucketindex = 0 then 0 else 1);
          bucketinfo = (start + bucketindex * bucketsize) - correction * slice_size;
          first_address_in_bucket = bucketinfo + correction * slice_size;
          index = (p - first_address_in_bucket) div slice_size in
      bucketinfo + index * sliceinfo_size)"

definition pmm_get_sliceinfo_for_slice :: "PhysicalMemoryManager \<Rightarrow> u32 \<Rightarrow> SLICE_INFO_ERRNO \<times> ptr option" where
  "pmm_get_sliceinfo_for_slice s p =
     (let info = sliceinfo_address (pstart s) p in
      if reserved (sinfo s info) then (SI_RESERVED_MMIO_MEMORY, None)
      else (SI_SUCCESS, Some info))"

text \<open>The callers panic on anything but success.\<close>

definition sliceinfo_or_fatal :: "PhysicalMemoryManager \<Rightarrow> u32 \<Rightarrow> fault + ptr" where
  "sliceinfo_or_fatal s p =
     (case pmm_get_sliceinfo_for_slice s p of
        (SI_SUCCESS, Some info) \<Rightarrow> Inr info
      | _ \<Rightarrow> Inl FatalPanic)"

subsection \<open>Allocation\<close>

text \<open>\<open>memset(p, 0, n)\<close> on RAM, by words.\<close>

definition zero_words :: "u32 \<Rightarrow> u32 \<Rightarrow> (u32 \<Rightarrow> u32) \<Rightarrow> u32 \<Rightarrow> u32" where
  "zero_words p n m a = (if a - p < n then 0 else m a)"

definition pmm_clear :: "PhysicalMemoryManager \<Rightarrow> u32 \<Rightarrow> u32 \<Rightarrow> PhysicalMemoryManager" where
  "pmm_clear s p n = s\<lparr>words := zero_words p n (words s)\<rparr>"

definition pmm_new_sliceinfo_slice :: "PhysicalMemoryManager \<Rightarrow> fault + (ptr \<times> PhysicalMemoryManager)" where
  "pmm_new_sliceinfo_slice s =
     bindE (pop_from_ll s unused) (\<lambda>(si, s).
     bindE (sput s si (\<lambda>i. i\<lparr>mtype := BucketInfo, filled := 0\<rparr>)) (\<lambda>s.
     bindE (push_to_ll s allocated si) (\<lambda>s.
     Inr (si, s))))"

definition pmm_allocate_l1_pagetable :: "PhysicalMemoryManager \<Rightarrow> fault + (ptr \<times> PhysicalMemoryManager)" where
  "pmm_allocate_l1_pagetable s =
     (if heads s unused = NULL then Inr (NULL, s)
      else
        bindE (pop_from_ll s unused) (\<lambda>(si, s).
        bindE (sput s si (\<lambda>i. i\<lparr>mtype := L1PageTable\<rparr>)) (\<lambda>s.
        bindE (push_to_ll s allocated si) (\<lambda>s.
        bindE (sget s si) (\<lambda>i.
        Inr (slice i, pmm_clear s (slice i) 8192))))))"

definition pmm_free_l1_pagetable :: "PhysicalMemoryManager \<Rightarrow> u32 \<Rightarrow> fault + PhysicalMemoryManager" where
  "pmm_free_l1_pagetable s pt =
     (if pt = NULL then Inr s
      else
        bindE (sliceinfo_or_fatal s pt) (\<lambda>si.
        bindE (remove_element_ll s allocated si) (\<lambda>s.
        bindE (push_to_ll s unused si) (\<lambda>s.
        sput s si (\<lambda>i. i\<lparr>sprev := NULL\<rparr>)))))"

definition pmm_allocate_l2_pagetable :: "PhysicalMemoryManager \<Rightarrow> fault + (ptr \<times> PhysicalMemoryManager)" where
  "pmm_allocate_l2_pagetable s =
     (if heads s l2ptPartialFree \<noteq> NULL
      then
        (let si = heads s l2ptPartialFree in
         bindE (sget s si) (\<lambda>i.
         let index = first_free (ucast (filled i));
             newl2pt = slice i + index * 1024 in
         bindE (sput s si (\<lambda>i. i\<lparr>filled := filled i OR push_bit (unat index) 1\<rparr>)) (\<lambda>s.
         bindE (sget s si) (\<lambda>i.
         bindE
           (if filled i = 0xff
            then bindE (pop_from_ll s l2ptPartialFree) (\<lambda>(_, s). push_to_ll s allocated si)
            else Inr s)
           (\<lambda>s. Inr (newl2pt, pmm_clear s newl2pt 1024))))))
      else
        bindE (pop_from_ll s unused) (\<lambda>(si, s).
        bindE (sput s si (\<lambda>i. i\<lparr>mtype := L2PageTable, filled := 1\<rparr>)) (\<lambda>s.
        bindE (push_to_ll s l2ptPartialFree si) (\<lambda>s.
        bindE (sget s si) (\<lambda>i.
        Inr (slice i, pmm_clear s (slice i) 1024))))))"

definition pmm_allocate_page :: "PhysicalMemoryManager \<Rightarrow> fault + (ptr \<times> PhysicalMemoryManager)" where
  "pmm_allocate_page s =
     (if heads s pagePartialFree \<noteq> NULL
      then
        (let si = heads s pagePartialFree in
         bindE (sget s si) (\<lambda>i.
         let index = first_free (ucast (filled i));
             newpage = slice i + index * 4096 in
         bindE (sput s si (\<lambda>i. i\<lparr>filled := filled i OR push_bit (unat index) 1\<rparr>)) (\<lambda>s.
         bindE (sget s si) (\<lambda>i.
         bindE
           (if filled i = 3
            then bindE (pop_from_ll s pagePartialFree) (\<lambda>(_, s). push_to_ll s allocated si)
            else Inr s)
           (\<lambda>s. Inr (newpage, pmm_clear s newpage 4096))))))
      else
        bindE (pop_from_ll s unused) (\<lambda>(si, s).
        bindE (sput s si (\<lambda>i. i\<lparr>mtype := Page, filled := 1\<rparr>)) (\<lambda>s.
        bindE (push_to_ll s pagePartialFree si) (\<lambda>s.
        bindE (sget s si) (\<lambda>i.
        Inr (slice i, pmm_clear s (slice i) 4096))))))"

definition pmm_free_page :: "PhysicalMemoryManager \<Rightarrow> u32 \<Rightarrow> fault + PhysicalMemoryManager" where
  "pmm_free_page s p =
     bindE (sliceinfo_or_fatal s p) (\<lambda>si.
     bindE (sget s si) (\<lambda>i.
     bindE (if filled i = 3 then remove_element_ll s allocated si
            else remove_element_ll s pagePartialFree si) (\<lambda>s.
     let index_in_slice = (p - slice i) div 4096 in
     bindE (sput s si (\<lambda>i. i\<lparr>filled := filled i AND NOT (push_bit (unat index_in_slice) 1)\<rparr>)) (\<lambda>s.
     bindE (sget s si) (\<lambda>i.
     if filled i = 0 then push_to_ll s unused si else push_to_ll s pagePartialFree si)))))"

definition pmm_free_l2_pagetable :: "PhysicalMemoryManager \<Rightarrow> u32 \<Rightarrow> fault + PhysicalMemoryManager" where
  "pmm_free_l2_pagetable s pt =
     bindE (sliceinfo_or_fatal s pt) (\<lambda>si.
     bindE (sget s si) (\<lambda>i.
     bindE (if filled i = 0xff then remove_element_ll s allocated si
            else remove_element_ll s l2ptPartialFree si) (\<lambda>s.
     let index_in_slice = (pt - slice i) div 1024 in
     bindE (sput s si (\<lambda>i. i\<lparr>filled := filled i AND NOT (push_bit (unat index_in_slice) 1)\<rparr>)) (\<lambda>s.
     bindE (sget s si) (\<lambda>i.
     if filled i = 0 then push_to_ll s unused si else push_to_ll s l2ptPartialFree si)))))"

subsection \<open>Initialisation\<close>

text \<open>
  The loop of \<open>pmm_init\<close>: \<open>n\<close> more slices from \<open>i\<close> on; \<open>currentslice\<close> is the slice that holds the
  structs, \<open>infoindex\<close> the next struct in it.
\<close>

fun pmm_init_loop ::
    "HardwareInfo \<Rightarrow> PhysicalMemoryManager \<Rightarrow> u32 \<Rightarrow> u32 \<Rightarrow> u32 \<Rightarrow> nat \<Rightarrow> fault + PhysicalMemoryManager" where
  "pmm_init_loop hw s currentslice infoindex i 0 = Inr s"
| "pmm_init_loop hw s currentslice infoindex i (Suc n) =
     (let info = currentslice + infoindex * sliceinfo_size in
      bindE (sput s info (\<lambda>x. x\<lparr>slice := i\<rparr>)) (\<lambda>s.
      bindE
        (if address_in_reserved_region hw i
         then bindE (sput s info (\<lambda>x. x\<lparr>reserved := True\<rparr>)) (\<lambda>s. push_to_ll s allocated info)
         else push_to_ll s unused info) (\<lambda>s.
      let infoindex = infoindex + 1 in
      if infoindex \<ge> SLICEINFO_PER_SLICE
      then bindE (pmm_new_sliceinfo_slice s) (\<lambda>(si, s).
           bindE (sget s si) (\<lambda>x.
           pmm_init_loop hw s (slice x) 0 (i + slice_size) n))
      else pmm_init_loop hw s currentslice infoindex (i + slice_size) n)))"

text \<open>The number of rounds of \<open>for (i = start + 1 slice; i < end; i++)\<close>.\<close>

definition pmm_init_rounds :: "u32 \<Rightarrow> u32 \<Rightarrow> nat" where
  "pmm_init_rounds start fin =
     (if start + slice_size < fin
      then (unat (fin - (start + slice_size)) + 8191) div 8192 else 0)"

text \<open>
  RAM is \<open>ram\<close> before. An increment of \<open>i\<close> past the end of the address space has no meaning;
  the model stops there.
\<close>

definition pmm_init ::
    "HardwareInfo \<Rightarrow> (ptr \<Rightarrow> MemorySliceInfo) \<Rightarrow> (u32 \<Rightarrow> u32) \<Rightarrow> u32 \<Rightarrow> u32 \<Rightarrow> fault + PhysicalMemoryManager" where
  "pmm_init hw ram ws start fin =
     (if start = NULL then Inl NullDeref
      else if unat start + 8192 * Suc (pmm_init_rounds start fin) \<ge> 2 ^ 32 then Inl OutOfBounds
      else
        (let firstinfo = start;
             s = \<lparr>sinfo = ram(firstinfo := (ram firstinfo)\<lparr>snext := NULL, sprev := NULL, mtype := BucketInfo,
                              slice := firstinfo, filled := 1\<rparr>),
                  heads = (\<lambda>_. NULL)(allocated := firstinfo),
                  pstart = start, pend = fin, words = ws\<rparr> in
         pmm_init_loop hw s firstinfo 1 (start + slice_size) (pmm_init_rounds start fin)))"


subsection \<open>Doubly linked lists in the store\<close>

text \<open>
  \<open>dseg S p h xs q\<close>: from \<open>h\<close>, whose predecessor is \<open>p\<close>, the structs \<open>xs\<close> are linked in both
  directions and the last one points to \<open>q\<close>.
\<close>

primrec dseg :: "(ptr \<Rightarrow> MemorySliceInfo) \<Rightarrow> ptr \<Rightarrow> ptr \<Rightarrow> ptr list \<Rightarrow> ptr \<Rightarrow> bool" where
  "dseg S p h [] q \<longleftrightarrow> h = q"
| "dseg S p h (a # xs) q \<longleftrightarrow> h = a \<and> a \<noteq> NULL \<and> sprev (S a) = p \<and> dseg S a (snext (S a)) xs q"

definition last_or :: "ptr \<Rightarrow> ptr list \<Rightarrow> ptr" where
  "last_or p xs = (if xs = [] then p else last xs)"

lemma dseg_append:
  "dseg S p h (xs @ ys) q \<longleftrightarrow> (\<exists>m. dseg S p h xs m \<and> dseg S (last_or p xs) m ys q)"
  by (induction xs arbitrary: p h) (auto simp: last_or_def)

lemma dseg_cong:
  "(\<And>a. a \<in> set xs \<Longrightarrow> snext (S' a) = snext (S a) \<and> sprev (S' a) = sprev (S a)) \<Longrightarrow>
   dseg S' p h xs q = dseg S p h xs q"
  by (induction xs arbitrary: p h) auto

lemma dseg_nonnull: "dseg S p h xs q \<Longrightarrow> a \<in> set xs \<Longrightarrow> a \<noteq> NULL"
  by (induction xs arbitrary: p h) auto

lemma dseg_change_prev:
  "dseg S p h xs NULL \<Longrightarrow> distinct xs \<Longrightarrow>
   dseg (if h = NULL then S else S(h := (S h)\<lparr>sprev := p'\<rparr>)) p' h xs NULL"
proof (cases xs)
  case (Cons a ys)
  assume d: "dseg S p h xs NULL" "distinct xs"
  with Cons have "dseg (S(a := (S a)\<lparr>sprev := p'\<rparr>)) a (snext (S a)) ys NULL = dseg S a (snext (S a)) ys NULL"
    by (intro dseg_cong) auto
  with d Cons show ?thesis by auto
qed simp

lemma dseg_change_next:
  "dseg S p h (xs @ [b]) q \<Longrightarrow> distinct (xs @ [b]) \<Longrightarrow>
   dseg (S(b := (S b)\<lparr>snext := q'\<rparr>)) p h (xs @ [b]) q'"
proof -
  assume d: "dseg S p h (xs @ [b]) q" "distinct (xs @ [b])"
  then obtain m where m: "dseg S p h xs m" "m = b" "b \<noteq> NULL" "sprev (S b) = last_or p xs"
    by (auto simp: dseg_append)
  have "dseg (S(b := (S b)\<lparr>snext := q'\<rparr>)) p h xs m = dseg S p h xs m"
    using d(2) by (intro dseg_cong) auto
  with m show ?thesis by (auto simp: dseg_append)
qed

text \<open>What the list operations leave alone: everything but the links.\<close>

definition core :: "MemorySliceInfo \<Rightarrow> MemoryType \<times> u8 \<times> bool \<times> ptr" where
  "core i = (mtype i, filled i, reserved i, slice i)"

definition links_only :: "PhysicalMemoryManager \<Rightarrow> PhysicalMemoryManager \<Rightarrow> ptr set \<Rightarrow> bool" where
  "links_only s s' X \<longleftrightarrow>
     (\<forall>a. core (sinfo s' a) = core (sinfo s a) \<and> (a \<notin> X \<longrightarrow> sinfo s' a = sinfo s a)) \<and>
     pstart s' = pstart s \<and> pend s' = pend s \<and> words s' = words s"

lemma links_only_refl [simp]: "links_only s s X"
  by (simp add: links_only_def)

lemma core_links [simp]:
  "core (i\<lparr>snext := x\<rparr>) = core i" "core (i\<lparr>sprev := x\<rparr>) = core i"
  by (simp_all add: core_def)

lemma push_to_ll_ok:
  assumes l: "dseg (sinfo s) p (heads s l) xs NULL" "distinct xs" and e: "e \<noteq> NULL" "e \<notin> set xs"
  shows "\<exists>s'. push_to_ll s l e = Inr s' \<and> heads s' = (heads s)(l := e) \<and>
           dseg (sinfo s') (sprev (sinfo s e)) e (e # xs) NULL \<and> links_only s s' (set (e # xs))"
proof -
  let ?h = "heads s l"
  let ?S1 = "if ?h = NULL then sinfo s else (sinfo s)(?h := (sinfo s ?h)\<lparr>sprev := e\<rparr>)"
  let ?S2 = "?S1(e := (?S1 e)\<lparr>snext := ?h\<rparr>)"
  have he: "?h \<noteq> e" using l e by (cases xs) auto
  have hx: "?h \<noteq> NULL \<Longrightarrow> ?h \<in> set xs" using l by (cases xs) auto
  have "dseg ?S1 e ?h xs NULL" by (rule dseg_change_prev [OF l])
  then have "dseg ?S2 e ?h xs NULL" using e(2) by (subst dseg_cong) auto
  then have "dseg ?S2 (sprev (sinfo s e)) e (e # xs) NULL" using e he by simp
  moreover have "push_to_ll s l e = Inr (s\<lparr>sinfo := ?S2, heads := (heads s)(l := e)\<rparr>)"
    using e by (simp add: push_to_ll_def sput_def)
  moreover have "links_only s (s\<lparr>sinfo := ?S2, heads := (heads s)(l := e)\<rparr>) (set (e # xs))"
    using hx by (auto simp: links_only_def)
  ultimately show ?thesis
    by (intro exI [of _ "s\<lparr>sinfo := ?S2, heads := (heads s)(l := e)\<rparr>"]) simp
qed

lemma pop_from_ll_ok:
  assumes l: "dseg (sinfo s) p (heads s l) (x # xs) NULL" "distinct (x # xs)"
  shows "\<exists>s' h. pop_from_ll s l = Inr (x, s') \<and> heads s' = (heads s)(l := h) \<and>
           dseg (sinfo s') NULL h xs NULL \<and> sprev (sinfo s' x) = NULL \<and>
           links_only s s' (set (x # xs))"
proof -
  let ?h = "snext (sinfo s x)"
  from l have x: "heads s l = x" "x \<noteq> NULL" "dseg (sinfo s) x ?h xs NULL" "x \<notin> set xs" "distinct xs"
    by auto
  let ?S1 = "if ?h = NULL then sinfo s else (sinfo s)(?h := (sinfo s ?h)\<lparr>sprev := NULL\<rparr>)"
  let ?S2 = "?S1(x := (?S1 x)\<lparr>snext := NULL, sprev := NULL\<rparr>)"
  let ?s = "s\<lparr>sinfo := ?S2, heads := (heads s)(l := ?h)\<rparr>"
  have hx: "?h \<noteq> NULL \<Longrightarrow> ?h \<in> set xs" using x by (cases xs) auto
  have "dseg ?S1 NULL ?h xs NULL" by (rule dseg_change_prev [OF x(3,5)])
  then have "dseg ?S2 NULL ?h xs NULL" using x(4) by (subst dseg_cong) auto
  moreover have "pop_from_ll s l = Inr (x, ?s)"
    using x by (simp add: pop_from_ll_def Let_def sget_def sput_def)
  moreover have "links_only s ?s (set (x # xs))" using hx by (auto simp: links_only_def)
  ultimately show ?thesis by (intro exI [of _ ?s] exI [of _ ?h]) simp
qed


lemma remove_element_ll_ok:
  assumes l: "dseg (sinfo s) NULL (heads s l) (us @ e # vs) NULL" "distinct (us @ e # vs)"
  shows "\<exists>s' h. remove_element_ll s l e = Inr s' \<and> heads s' = (heads s)(l := h) \<and>
           dseg (sinfo s') NULL h (us @ vs) NULL \<and> sprev (sinfo s' e) = NULL \<and>
           links_only s s' (set (us @ e # vs))"
proof -
  let ?S = "sinfo s" and ?pv = "last_or NULL us"
  define nx where "nx = snext (?S e)"
  from l have u: "dseg ?S NULL (heads s l) us e" and e: "e \<noteq> NULL" "sprev (?S e) = ?pv"
    and v: "dseg ?S e nx vs NULL" and d: "distinct us" "distinct vs" "e \<notin> set us" "e \<notin> set vs"
      "set us \<inter> set vs = {}"
    by (auto simp: dseg_append nx_def)
  have nv: "nx \<noteq> NULL \<Longrightarrow> nx \<in> set vs" using v by (cases vs) auto
  have pu: "?pv \<noteq> NULL \<Longrightarrow> ?pv \<in> set us" by (auto simp: last_or_def split: if_splits)
  define S1 where "S1 = (if nx = NULL then ?S else ?S(nx := (?S nx)\<lparr>sprev := ?pv\<rparr>))"
  define S2 where "S2 = (if ?pv = NULL then S1 else S1(?pv := (S1 ?pv)\<lparr>snext := nx\<rparr>))"
  define S3 where "S3 = S2(e := (S2 e)\<lparr>snext := NULL, sprev := NULL\<rparr>)"
  have S1e: "S1 e = ?S e" using nv d by (auto simp: S1_def)
  have "dseg S1 ?pv nx vs NULL" unfolding S1_def by (rule dseg_change_prev [OF v d(2)])
  moreover have "dseg S2 ?pv nx vs NULL = dseg S1 ?pv nx vs NULL"
    using pu d(5) by (intro dseg_cong) (auto simp: S2_def)
  moreover have "dseg S3 ?pv nx vs NULL = dseg S2 ?pv nx vs NULL"
    using d(4) by (intro dseg_cong) (auto simp: S3_def)
  ultimately have v3: "dseg S3 ?pv nx vs NULL" by simp
  define h where "h = (if ?pv = NULL then nx else heads s l)"
  have "dseg S3 NULL h (us @ vs) NULL"
  proof (cases us rule: rev_cases)
    case Nil
    with v3 show ?thesis by (simp add: h_def last_or_def)
  next
    case (snoc ws b)
    then have pv: "?pv = b" "b \<noteq> NULL" using u dseg_nonnull [OF u] by (auto simp: last_or_def)
    have "dseg S1 NULL (heads s l) us e = dseg ?S NULL (heads s l) us e"
      using nv d(5) by (intro dseg_cong) (auto simp: S1_def)
    with u have "dseg S1 NULL (heads s l) (ws @ [b]) e" by (simp add: snoc)
    then have "dseg (S1(b := (S1 b)\<lparr>snext := nx\<rparr>)) NULL (heads s l) (ws @ [b]) nx"
      by (rule dseg_change_next) (use d(1) snoc in simp)
    then have "dseg S2 NULL (heads s l) us nx" using pv by (simp add: S2_def snoc)
    moreover have "dseg S3 NULL (heads s l) us nx = dseg S2 NULL (heads s l) us nx"
      using d(3) by (intro dseg_cong) (auto simp: S3_def)
    ultimately show ?thesis using v3 pv by (auto simp: dseg_append h_def)
  qed
  moreover have "remove_element_ll s l e = Inr (s\<lparr>sinfo := S3, heads := (heads s)(l := h)\<rparr>)"
    using e S1e
    by (simp add: remove_element_ll_def sget_def sput_def nx_def [symmetric] S1_def [symmetric])
       (auto simp: S1_def S2_def S3_def h_def nx_def)
  moreover have "links_only s (s\<lparr>sinfo := S3, heads := (heads s)(l := h)\<rparr>) (set (us @ e # vs))"
    using nv pu by (auto simp: links_only_def S3_def S2_def S1_def)
  ultimately show ?thesis
    by (intro exI [of _ "s\<lparr>sinfo := S3, heads := (heads s)(l := h)\<rparr>"] exI [of _ h]) (simp add: S3_def)
qed


subsection \<open>The four lists together\<close>

definition pmm_links :: "PhysicalMemoryManager \<Rightarrow> (pmm_list \<Rightarrow> ptr list) \<Rightarrow> bool" where
  "pmm_links s Ls \<longleftrightarrow>
     (\<forall>l. distinct (Ls l)) \<and> (\<forall>l l'. l \<noteq> l' \<longrightarrow> set (Ls l) \<inter> set (Ls l') = {}) \<and>
     (\<forall>l. \<exists>p. dseg (sinfo s) p (heads s l) (Ls l) NULL \<and> (l \<noteq> unused \<longrightarrow> p = NULL))"

text \<open>The payload of all structs, the bounds and the words are as they were.\<close>

definition same_core :: "PhysicalMemoryManager \<Rightarrow> PhysicalMemoryManager \<Rightarrow> bool" where
  "same_core s s' \<longleftrightarrow>
     (\<forall>a. core (sinfo s' a) = core (sinfo s a)) \<and> pstart s' = pstart s \<and> pend s' = pend s \<and>
     words s' = words s"

lemma same_core_refl [simp]: "same_core s s"
  by (simp add: same_core_def)

lemma same_core_trans: "same_core s s' \<Longrightarrow> same_core s' s'' \<Longrightarrow> same_core s s''"
  by (simp add: same_core_def)

lemma links_only_same_core: "links_only s s' X \<Longrightarrow> same_core s s'"
  by (simp add: links_only_def same_core_def)

lemma pmm_linksD:
  assumes "pmm_links s Ls"
  shows "distinct (Ls l)" "l \<noteq> l' \<Longrightarrow> a \<in> set (Ls l) \<Longrightarrow> a \<notin> set (Ls l')"
    "\<exists>p. dseg (sinfo s) p (heads s l) (Ls l) NULL \<and> (l \<noteq> unused \<longrightarrow> p = NULL)"
    "a \<in> set (Ls l) \<Longrightarrow> a \<noteq> NULL"
  using assms dseg_nonnull unfolding pmm_links_def by blast+

text \<open>A list operation on \<open>l\<close> that only touches links inside \<open>X\<close> keeps the other lists.\<close>

lemma pmm_links_frame:
  assumes old: "pmm_links s Ls" and lo: "links_only s s' X" and hd: "heads s' = (heads s)(l := h)"
    and new: "dseg (sinfo s') p h ys NULL" "l \<noteq> unused \<longrightarrow> p = NULL" and dist: "distinct ys"
    and apart: "\<And>l'. l' \<noteq> l \<Longrightarrow> set (Ls l') \<inter> (X \<union> set ys) = {}"
  shows "pmm_links s' (Ls(l := ys))"
  unfolding pmm_links_def
proof (intro conjI allI impI)
  fix k
  show "distinct ((Ls(l := ys)) k)" using old dist by (auto simp: pmm_links_def)
  show "set ((Ls(l := ys)) k) \<inter> set ((Ls(l := ys)) k') = {}" if "k \<noteq> k'" for k'
    using that old apart [of k] apart [of k'] by (auto simp: pmm_links_def)
  show "\<exists>p. dseg (sinfo s') p (heads s' k) ((Ls(l := ys)) k) NULL \<and> (k \<noteq> unused \<longrightarrow> p = NULL)"
  proof (cases "k = l")
    case True
    with hd new show ?thesis by auto
  next
    case False
    from pmm_linksD(3) [OF old, of k] obtain q where
      q: "dseg (sinfo s) q (heads s k) (Ls k) NULL" "k \<noteq> unused \<longrightarrow> q = NULL" by blast
    have "dseg (sinfo s') q (heads s k) (Ls k) NULL = dseg (sinfo s) q (heads s k) (Ls k) NULL"
      using lo apart [OF False] by (intro dseg_cong) (auto simp: links_only_def)
    with q hd False show ?thesis by auto
  qed
qed

lemma pmm_pop_ok:
  assumes old: "pmm_links s Ls" and x: "Ls l = x # xs"
  shows "\<exists>s'. pop_from_ll s l = Inr (x, s') \<and> pmm_links s' (Ls(l := xs)) \<and> same_core s s' \<and>
           sprev (sinfo s' x) = NULL"
proof -
  note o = pmm_linksD [OF old]
  from o(3) [of l] x obtain p where "dseg (sinfo s) p (heads s l) (x # xs) NULL" by auto
  from pop_from_ll_ok [OF this] o(1) [of l] x obtain s' h where
    r: "pop_from_ll s l = Inr (x, s')" "heads s' = (heads s)(l := h)" "dseg (sinfo s') NULL h xs NULL"
      "sprev (sinfo s' x) = NULL" "links_only s s' (set (x # xs))" by auto
  have "pmm_links s' (Ls(l := xs))"
  proof (rule pmm_links_frame [OF old r(5,2,3)])
    show "set (Ls l') \<inter> (set (x # xs) \<union> set xs) = {}" if "l' \<noteq> l" for l'
      using o(2) [of l' l] that x by auto
  qed (use o(1) [of l] x in auto)
  with r show ?thesis by (auto intro: links_only_same_core)
qed

lemma pmm_push_ok:
  assumes old: "pmm_links s Ls" and e: "e \<noteq> NULL" "\<And>l. e \<notin> set (Ls l)"
    and prev: "l \<noteq> unused \<longrightarrow> sprev (sinfo s e) = NULL"
  shows "\<exists>s'. push_to_ll s l e = Inr s' \<and> pmm_links s' (Ls(l := e # Ls l)) \<and> same_core s s'"
proof -
  note o = pmm_linksD [OF old]
  from o(3) [of l] obtain p where "dseg (sinfo s) p (heads s l) (Ls l) NULL" by auto
  from push_to_ll_ok [OF this o(1) e] obtain s' where
    r: "push_to_ll s l e = Inr s'" "heads s' = (heads s)(l := e)"
      "dseg (sinfo s') (sprev (sinfo s e)) e (e # Ls l) NULL" "links_only s s' (set (e # Ls l))" by auto
  have "pmm_links s' (Ls(l := e # Ls l))"
  proof (rule pmm_links_frame [OF old r(4,2,3) prev])
    show "set (Ls l') \<inter> (set (e # Ls l) \<union> set (e # Ls l)) = {}" if "l' \<noteq> l" for l'
      using o(2) [of l' l] that e(2) by auto
  qed (use o(1) [of l] e(2) in auto)
  with r show ?thesis by (auto intro: links_only_same_core)
qed

lemma pmm_remove_ok:
  assumes old: "pmm_links s Ls" and l: "l \<noteq> unused" "Ls l = us @ e # vs"
  shows "\<exists>s'. remove_element_ll s l e = Inr s' \<and> pmm_links s' (Ls(l := us @ vs)) \<and> same_core s s' \<and>
           sprev (sinfo s' e) = NULL"
proof -
  note o = pmm_linksD [OF old]
  from o(3) [of l] l have "dseg (sinfo s) NULL (heads s l) (us @ e # vs) NULL" by auto
  from remove_element_ll_ok [OF this] o(1) [of l] l obtain s' h where
    r: "remove_element_ll s l e = Inr s'" "heads s' = (heads s)(l := h)"
      "dseg (sinfo s') NULL h (us @ vs) NULL" "sprev (sinfo s' e) = NULL"
      "links_only s s' (set (us @ e # vs))" by auto
  have "pmm_links s' (Ls(l := us @ vs))"
  proof (rule pmm_links_frame [OF old r(5,2,3)])
    show "set (Ls l') \<inter> (set (us @ e # vs) \<union> set (us @ vs)) = {}" if "l' \<noteq> l" for l'
      using o(2) [of l' l] that l by auto
  qed (use o(1) [of l] l in auto)
  with r show ?thesis by (auto intro: links_only_same_core)
qed

text \<open>A change of a payload, and a change of the words, keep the links.\<close>

lemma pmm_sput_links:
  assumes "pmm_links s Ls" and "\<And>i. snext (f i) = snext i \<and> sprev (f i) = sprev i"
  shows "pmm_links (s\<lparr>sinfo := (sinfo s)(x := f (sinfo s x))\<rparr>) Ls"
proof -
  have "dseg ((sinfo s)(x := f (sinfo s x))) p h xs q = dseg (sinfo s) p h xs q" for p h xs q
    using assms(2) by (intro dseg_cong) auto
  with assms(1) show ?thesis by (auto simp: pmm_links_def)
qed

lemma pmm_links_cong:
  "sinfo s' = sinfo s \<Longrightarrow> heads s' = heads s \<Longrightarrow> pmm_links s' Ls = pmm_links s Ls"
  by (simp add: pmm_links_def)


subsection \<open>\<open>first_free\<close>: the lowest clear bit\<close>

lemma odd_and_minus:
  fixes y :: "'a::len word"
  assumes "odd y"
  shows "y AND - y = 1"
proof (rule bit_word_eqI)
  fix n assume n: "n < LENGTH('a)"
  have "y - 1 = y AND NOT 1"
  proof (rule disjunctive_diff_eq_and_not)
    have "even (NOT y)" using assms by simp
    then show "NOT y AND 1 = 0" by (simp add: and_one_eq even_iff_mod_2_eq_zero)
  qed
  then have "bit (y - 1) n \<longleftrightarrow> n \<noteq> 0 \<and> bit y n"
    using n by (auto simp: bit_and_iff bit_not_iff bit_1_iff)
  then show "bit (y AND - y) n = bit (1 :: 'a word) n"
    using assms n by (auto simp: minus_eq_not_minus_1 bit_and_iff bit_not_iff bit_1_iff bit_0)
qed

lemma isolate_lowest:
  fixes x :: "'a::len word"
  assumes "bit x i" and low: "\<forall>j < i. \<not> bit x j"
  shows "x AND - x = 2 ^ i"
proof -
  let ?y = "drop_bit i x"
  have x: "x = push_bit i ?y"
  proof (rule bit_word_eqI)
    fix n assume "n < LENGTH('a)"
    then show "bit x n = bit (push_bit i (drop_bit i x)) n"
      using low by (cases "i \<le> n") (auto simp: bit_push_bit_iff bit_drop_bit_eq)
  qed
  have "bit ?y 0" using assms(1) by (simp add: bit_drop_bit_eq)
  then have "odd ?y" by (simp add: bit_0)
  then have "?y AND - ?y = 1" by (rule odd_and_minus)
  from arg_cong [OF this, of "push_bit i"] show ?thesis
    unfolding push_bit_and push_bit_minus x [symmetric] by simp
qed

lemma clz_single: "i < 32 \<Longrightarrow> clz (2 ^ i) = 31 - i"
proof -
  assume i: "i < 32"
  have "rev [0..<32] = rev [Suc i..<32] @ rev [0..<Suc i]"
    using i upt_add_eq_append [of 0 "Suc i" "32 - Suc i"] by simp
  then have "takeWhile (\<lambda>j. \<not> bit (2 ^ i :: u32) j) (rev [0..<32]) =
      rev [Suc i..<32] @ takeWhile (\<lambda>j. \<not> bit (2 ^ i :: u32) j) (rev [0..<Suc i])"
    by (simp only: takeWhile_append2 [of "rev [Suc i..<32]"]) (subst takeWhile_append2; auto simp: bit_exp_iff)
  also have "takeWhile (\<lambda>j. \<not> bit (2 ^ i :: u32) j) (rev [0..<Suc i]) = []"
    using i by (simp add: bit_exp_iff)
  finally show ?thesis using i by (simp add: clz_def)
qed

lemma first_free_ok:
  fixes fl :: u8
  assumes "fl \<noteq> 0xff"
  shows "unat (first_free (ucast fl)) < 8" "\<not> bit fl (unat (first_free (ucast fl)))"
    "\<forall>j < unat (first_free (ucast fl)). bit fl j"
proof -
  let ?P = "\<lambda>i. \<not> bit fl i"
  have "\<exists>i < 8. ?P i"
  proof (rule ccontr)
    assume "\<not> ?thesis"
    then have "fl = mask 8" by (intro bit_word_eqI) (auto simp: bit_mask_iff)
    with assms show False by (simp add: mask_eq_exp_minus_1)
  qed
  then obtain i0 where i0: "i0 < 8" "?P i0" by blast
  define i where "i = (LEAST i. ?P i)"
  have i: "?P i" "\<forall>j < i. \<not> ?P j" "i < 8"
  proof -
    show "?P i" unfolding i_def by (rule LeastI) (rule i0)
    show "\<forall>j < i. \<not> ?P j" unfolding i_def using not_less_Least by blast
    have "i \<le> i0" unfolding i_def by (rule Least_le) (rule i0)
    then show "i < 8" using i0 by simp
  qed
  let ?x = "NOT (ucast fl) :: u16"
  have "?x AND - ?x = 2 ^ i"
    using i by (intro isolate_lowest) (auto simp: bit_not_iff bit_unsigned_iff)
  then have "ucast (?x AND - ?x) = (2 ^ i :: u32)"
    using i(3) by (auto intro!: bit_word_eqI simp: bit_unsigned_iff bit_exp_iff)
  then have "first_free (ucast fl) = 32 - of_nat (31 - i) - 1"
    using i(3) by (simp add: first_free_def Let_def clz_single)
  also have "\<dots> = of_nat i" using i(3) by (simp add: of_nat_diff)
  finally have "unat (first_free (ucast fl)) = i" using i(3) by (simp add: unat_of_nat_u32)
  with i show "unat (first_free (ucast fl)) < 8" "\<not> bit fl (unat (first_free (ucast fl)))"
    "\<forall>j < unat (first_free (ucast fl)). bit fl j" by simp_all
qed

subsection \<open>The arithmetic of \<open>pmm_get_sliceinfo_for_slice\<close>\<close>

text \<open>The number of the slice around \<open>p\<close>, counted from the start of the region.\<close>

definition slice_no :: "u32 \<Rightarrow> u32 \<Rightarrow> nat" where
  "slice_no start p = unat (p - start) div 8192"

definition info_offset :: "nat \<Rightarrow> nat" where
  "info_offset n = (let b = n div 512 in 4194304 * b - (if b = 0 then 0 else 8192) + 16 * (n mod 512))"

lemma u32_div_of_nat:
  assumes "m < 4294967296"
  shows "(w :: u32) div of_nat m = of_nat (unat w div m)"
proof -
  have "unat w div m < 4294967296" by (rule le_less_trans [OF div_le_dividend u32_unat_lt])
  then have "unat (of_nat (unat w div m) :: u32) = unat w div m" by (rule unat_of_nat_u32)
  moreover have "unat (w div of_nat m) = unat w div m"
    using assms by (simp add: unat_div unat_of_nat_u32)
  ultimately show ?thesis by (simp add: word_unat_eq_iff)
qed

lemma sliceinfo_address_eq:
  "sliceinfo_address start p = start + of_nat (info_offset (slice_no start p))"
proof -
  let ?w = "p - start" and ?n = "slice_no start p"
  let ?b = "?n div 512" and ?off = "unat (p - start)"
  have n512: "?off div 4194304 = ?b" by (simp add: slice_no_def div_mult2_eq [symmetric])
  have b: "?w div 4194304 = of_nat ?b"
    using u32_div_of_nat [of 4194304 ?w] n512 by simp
  have bz: "(of_nat ?b :: u32) = 0 \<longleftrightarrow> ?b = 0"
    using unat_div [of ?w 4194304] unfolding b [symmetric] by (simp add: n512 flip: unat_eq_zero)
  have "p - (start + of_nat ?b * 4194304) = ?w - of_nat ?b * 4194304" by (simp add: algebra_simps)
  also have "\<dots> = of_nat ?off - of_nat (?b * 4194304)" by simp
  also have "\<dots> = of_nat (?off - ?b * 4194304)"
    using n512 by (subst of_nat_diff) (auto simp flip: n512)
  also have "?off - ?b * 4194304 = ?off mod 4194304"
    unfolding n512 [symmetric] by (simp add: minus_div_mult_eq_mod)
  finally have e: "p - (start + of_nat ?b * 4194304) = of_nat (?off mod 4194304)" .
  have "(of_nat (?off mod 4194304) :: u32) div 8192 = of_nat (?off mod 4194304 div 8192)"
    using u32_div_of_nat [of 8192 "of_nat (?off mod 4194304)"] by (simp add: unat_of_nat_u32)
  also have "?off mod 4194304 div 8192 = ?n mod 512"
    using mod_mult2_eq [of ?off 8192 512] by (simp add: slice_no_def)
  finally have i: "(p - (start + of_nat ?b * 4194304)) div 8192 = of_nat (?n mod 512)" unfolding e .
  have "sliceinfo_address start p =
      (start + of_nat ?b * 4194304) - (if ?b = 0 then 0 else 1) * 8192 + of_nat (?n mod 512) * 16"
    using b bz i
    by (simp add: sliceinfo_address_def Let_def SLICEINFO_PER_SLICE_def slice_size_def sliceinfo_size_def)
  also have "\<dots> = start + of_nat (info_offset ?n)"
    by (cases "?b = 0") (simp_all add: info_offset_def Let_def of_nat_diff algebra_simps)
  finally show ?thesis .
qed

lemma slice_no_lt: "slice_no start p < 524288"
  using u32_unat_lt [of "p - start"] by (simp add: slice_no_def)

lemma info_offset_bucket: "(info_offset n + 8192) div 4194304 = n div 512 \<or> n div 512 = 0"
proof (cases "n div 512")
  case (Suc b)
  have "n mod 512 < 512" by simp
  then have "(4194304 * Suc b + 16 * (n mod 512)) div 4194304 = Suc b" by simp
  with Suc show ?thesis by (simp add: info_offset_def Let_def)
qed simp

lemma info_offset_small: "info_offset n < 4000000 \<longleftrightarrow> n div 512 = 0"
proof -
  have "n mod 512 < 512" by simp
  then show ?thesis by (cases "n div 512") (auto simp: info_offset_def Let_def)
qed

lemma info_offset_inj:
  assumes "info_offset m = info_offset n"
  shows "m = n"
proof -
  have d: "m div 512 = n div 512"
    using info_offset_bucket [of m] info_offset_bucket [of n] info_offset_small [of m]
      info_offset_small [of n] assms by auto
  then have "m mod 512 = n mod 512" using assms
    by (cases "n div 512") (simp_all add: info_offset_def Let_def)
  with d show ?thesis by (metis div_mult_mod_eq)
qed

lemma info_offset_lt: "n < 524288 \<Longrightarrow> info_offset n < 4294967296"
proof -
  assume "n < 524288"
  then have "n div 512 < 1024" by simp
  moreover have "n mod 512 < 512" by simp
  ultimately show ?thesis by (simp add: info_offset_def Let_def)
qed

text \<open>Different slices have different structs, and all addresses in a slice lead to the same one.\<close>

lemma sliceinfo_address_slice_no:
  "sliceinfo_address start p = sliceinfo_address start q \<longleftrightarrow> slice_no start p = slice_no start q"
proof
  assume "sliceinfo_address start p = sliceinfo_address start q"
  then have "unat (of_nat (info_offset (slice_no start p)) :: u32) =
      unat (of_nat (info_offset (slice_no start q)) :: u32)"
    by (simp add: sliceinfo_address_eq)
  then show "slice_no start p = slice_no start q"
    using info_offset_inj by (simp add: unat_of_nat_u32 info_offset_lt slice_no_lt)
qed (simp add: sliceinfo_address_eq)

text \<open>A slice of the region starting at \<open>start\<close>, and the offset of an address in it.\<close>

definition is_slice :: "u32 \<Rightarrow> u32 \<Rightarrow> bool" where
  "is_slice start sl \<longleftrightarrow> unat (sl - start) mod 8192 = 0"

lemma is_slice_offset:
  assumes "is_slice start sl" and "d < 8192"
  shows "unat (sl + of_nat d - start) = unat (sl - start) + d" "slice_no start (sl + of_nat d) = slice_no start sl"
proof -
  let ?o = "unat (sl - start)"
  have o: "?o = 8192 * (?o div 8192)" using assms(1) by (simp add: is_slice_def) (metis mult_div_mod_eq add_0_right)
  have "?o < 4294967296" by (rule u32_unat_lt)
  then have "?o div 8192 < 524288" by simp
  then have lt: "?o + d < 4294967296" using o assms(2) by linarith
  have d: "unat (of_nat d :: u32) = d" using assms(2) by (intro unat_of_nat_u32) simp
  have "sl + of_nat d - start = (sl - start) + of_nat d" by (simp add: algebra_simps)
  moreover have "unat ((sl - start) + of_nat d) = ?o + d"
    using unat_add_no_wrap [of "sl - start" "of_nat d"] lt d by simp
  ultimately show e: "unat (sl + of_nat d - start) = ?o + d" by (simp only:)
  show "slice_no start (sl + of_nat d) = slice_no start sl"
    unfolding slice_no_def e by (subst o) (use assms(2) in simp)
qed

subsection \<open>The units a struct accounts for\<close>

text \<open>
  A unit is what an allocation hands out: its kind and its address. The struct of a slice
  with pages or second level tables has a bit in \<open>filled\<close> per unit; a slice that is a first
  level table or holds structs is one unit.
\<close>

type_synonym unit_id = "MemoryType \<times> u32"

definition usize :: "MemoryType \<Rightarrow> nat" where
  "usize t = (case t of L1PageTable \<Rightarrow> 8192 | L2PageTable \<Rightarrow> 1024 | Page \<Rightarrow> 4096 | BucketInfo \<Rightarrow> 8192)"

definition unit_at :: "MemorySliceInfo \<Rightarrow> nat \<Rightarrow> unit_id" where
  "unit_at i k = (mtype i, slice i + of_nat (usize (mtype i) * k))"

definition unit_set :: "MemorySliceInfo \<Rightarrow> nat set" where
  "unit_set i = {k. k < 8192 div usize (mtype i) \<and> (usize (mtype i) = 8192 \<or> bit (filled i) k)}"

definition units :: "MemorySliceInfo \<Rightarrow> unit_id set" where
  "units i = (if reserved i then {} else unit_at i ` unit_set i)"

text \<open>The addresses of the bytes of a unit.\<close>

definition footprint :: "unit_id \<Rightarrow> u32 set" where
  "footprint u = {a. unat (a - snd u) < usize (fst u)}"

lemma usize_cases: "usize t \<in> {1024, 4096, 8192}"
  by (cases t) (simp_all add: usize_def)

lemma usize_pos [simp]: "0 < usize t" "usize t \<noteq> 0"
  using usize_cases [of t] by auto

lemma units_core: "core i = core j \<Longrightarrow> units i = units j"
  by (simp add: core_def units_def unit_at_def [abs_def] unit_set_def)

lemma unit_offset:
  assumes "k < 8192 div usize t" and "d < usize t"
  shows "usize t * k + d < 8192"
  using assms usize_cases [of t] by auto

lemma footprint_in_unit:
  assumes "a \<in> footprint (unit_at i k)"
  obtains d where "d < usize (mtype i)" "a = slice i + of_nat (usize (mtype i) * k + d)"
proof
  let ?p = "slice i + of_nat (usize (mtype i) * k)"
  from assms show "unat (a - ?p) < usize (mtype i)" by (simp add: footprint_def unit_at_def)
  show "a = slice i + of_nat (usize (mtype i) * k + unat (a - ?p))" by simp
qed

lemma unit_at_footprint: "snd (unit_at i k) \<in> footprint (unit_at i k)"
  by (simp add: footprint_def unit_at_def)

lemma footprint_slice_no:
  assumes "is_slice start (slice i)" and "u \<in> units i" and "a \<in> footprint u"
  shows "slice_no start a = slice_no start (slice i)"
proof -
  from assms(2) obtain k where k: "u = unit_at i k" "k < 8192 div usize (mtype i)"
    by (auto simp: units_def unit_set_def split: if_splits)
  from footprint_in_unit [OF assms(3) [unfolded k(1)]] obtain d where
    d: "d < usize (mtype i)" "a = slice i + of_nat (usize (mtype i) * k + d)" .
  show ?thesis unfolding d(2) by (rule is_slice_offset(2) [OF assms(1) unit_offset [OF k(2) d(1)]])
qed

lemma unit_footprints_disjoint:
  assumes k: "k < 8192 div usize (mtype i)" "k' < 8192 div usize (mtype i)" and ne: "k \<noteq> k'"
  shows "footprint (unit_at i k) \<inter> footprint (unit_at i k') = {}"
proof (rule equals0I)
  fix a assume a: "a \<in> footprint (unit_at i k) \<inter> footprint (unit_at i k')"
  let ?u = "usize (mtype i)"
  from a footprint_in_unit [of a i k] obtain d where d: "d < ?u" "a = slice i + of_nat (?u * k + d)" by blast
  from a footprint_in_unit [of a i k'] obtain d' where d': "d' < ?u" "a = slice i + of_nat (?u * k' + d')" by blast
  have "(of_nat (?u * k + d) :: u32) = of_nat (?u * k' + d')" using d(2) d'(2) by simp
  then have "unat (of_nat (?u * k + d) :: u32) = unat (of_nat (?u * k' + d') :: u32)" by (simp only:)
  then have e: "?u * k + d = ?u * k' + d'"
    using unit_offset [OF k(1) d(1)] unit_offset [OF k(2) d'(1)] by (simp add: unat_of_nat_u32 del: of_nat_add of_nat_mult)
  have "(?u * k + d) div ?u = k" "(?u * k' + d') div ?u = k'" using d(1) d'(1) by simp_all
  with e ne show False by simp
qed

lemma unit_at_inj:
  "k < 8192 div usize (mtype i) \<Longrightarrow> k' < 8192 div usize (mtype i) \<Longrightarrow> unit_at i k = unit_at i k' \<longleftrightarrow> k = k'"
  using unit_footprints_disjoint [of k i k'] unit_at_footprint [of i k] by (metis Int_absorb empty_iff)

subsection \<open>The representation of a pool of units\<close>

text \<open>What membership in a list says of a struct, and where the struct of a slice is.\<close>

definition cls :: "pmm_list \<Rightarrow> MemorySliceInfo \<Rightarrow> bool" where
  "cls l i = (case l of
      unused \<Rightarrow> \<not> reserved i
    | allocated \<Rightarrow> reserved i \<or> (mtype i = Page \<longrightarrow> filled i = 3) \<and> (mtype i = L2PageTable \<longrightarrow> filled i = 0xff)
    | l2ptPartialFree \<Rightarrow> \<not> reserved i \<and> mtype i = L2PageTable \<and> filled i \<noteq> 0 \<and> filled i \<noteq> 0xff
    | pagePartialFree \<Rightarrow> \<not> reserved i \<and> mtype i = Page \<and> filled i \<in> {1, 2})"

definition geom :: "u32 \<Rightarrow> ptr \<Rightarrow> MemorySliceInfo \<Rightarrow> bool" where
  "geom start a i \<longleftrightarrow> slice i \<noteq> NULL \<and> is_slice start (slice i) \<and> a = sliceinfo_address start (slice i)"

definition pmm_rep :: "PhysicalMemoryManager \<Rightarrow> (pmm_list \<Rightarrow> ptr list) \<Rightarrow> bool" where
  "pmm_rep s Ls \<longleftrightarrow> pmm_links s Ls \<and> unat (pstart s) mod 8192 = 0 \<and>
     (\<forall>l. \<forall>a \<in> set (Ls l). cls l (sinfo s a) \<and> geom (pstart s) a (sinfo s a))"

definition live :: "PhysicalMemoryManager \<Rightarrow> (pmm_list \<Rightarrow> ptr list) \<Rightarrow> unit_id set" where
  "live s Ls = (\<Union>l \<in> {l. l \<noteq> unused}. \<Union>a \<in> set (Ls l). units (sinfo s a))"

lemma pmm_repD:
  assumes "pmm_rep s Ls"
  shows "pmm_links s Ls"
    "a \<in> set (Ls l) \<Longrightarrow> cls l (sinfo s a)" "a \<in> set (Ls l) \<Longrightarrow> geom (pstart s) a (sinfo s a)"
    "unat (pstart s) mod 8192 = 0"
  using assms by (auto simp: pmm_rep_def)

lemma cls_core: "core i = core j \<Longrightarrow> cls l i = cls l j"
  by (simp add: core_def cls_def split: pmm_list.split)

lemma geom_core: "core i = core j \<Longrightarrow> geom st a i = geom st a j"
  by (simp add: core_def geom_def)

lemma same_slice:
  assumes "is_slice start p" "is_slice start q" "slice_no start p = slice_no start q"
  shows "p = q"
proof -
  have "unat (p - start) = unat (q - start)"
    using assms unfolding is_slice_def slice_no_def by (metis div_mult_mod_eq)
  then have "p - start = q - start" by (rule word_unat_eq_iff [THEN iffD2])
  then show ?thesis by simp
qed

text \<open>A byte of a unit leads to the struct that accounts for the unit.\<close>

lemma unit_struct:
  assumes "geom start x i" and "u \<in> units i" and "a \<in> footprint u"
  shows "sliceinfo_address start a = x"
  using assms footprint_slice_no [of start i u a] sliceinfo_address_slice_no [of start a "slice i"]
  by (simp add: geom_def)

lemma unit_self: "u \<in> units i \<Longrightarrow> snd u \<in> footprint u"
  by (simp add: footprint_def)

text \<open>Units that exist at the same time do not overlap.\<close>

lemma live_disjoint:
  assumes rep: "pmm_rep s Ls" and u: "u \<in> live s Ls" "u' \<in> live s Ls" and ne: "u \<noteq> u'"
  shows "footprint u \<inter> footprint u' = {}"
proof (rule equals0I)
  fix a assume a: "a \<in> footprint u \<inter> footprint u'"
  from u obtain l x l' x' where
    x: "x \<in> set (Ls l)" "u \<in> units (sinfo s x)" and x': "x' \<in> set (Ls l')" "u' \<in> units (sinfo s x')"
    by (auto simp: live_def)
  have "x = x'"
    using unit_struct [OF pmm_repD(3) [OF rep x(1)] x(2)] unit_struct [OF pmm_repD(3) [OF rep x'(1)] x'(2)] a
    by auto
  with x(2) x'(2) obtain k k' where
    "k < 8192 div usize (mtype (sinfo s x))" "k' < 8192 div usize (mtype (sinfo s x))"
    "u = unit_at (sinfo s x) k" "u' = unit_at (sinfo s x) k'"
    by (auto simp: units_def unit_set_def split: if_splits)
  with unit_footprints_disjoint [of k "sinfo s x" k'] ne a show False by auto
qed

text \<open>Units are aligned to their own size.\<close>

lemma unat_add_mod:
  assumes "d dvd 4294967296"
  shows "unat ((a :: u32) + b) mod d = (unat a + unat b) mod d"
proof -
  have "unat (a + b) = (unat a + unat b) mod 4294967296" by (simp add: unat_word_ariths)
  with assms show ?thesis by (simp add: mod_mod_cancel)
qed

lemma live_aligned:
  assumes rep: "pmm_rep s Ls" and u: "u \<in> live s Ls"
  shows "unat (snd u) mod usize (fst u) = 0"
proof -
  from u obtain l x where x: "x \<in> set (Ls l)" "u \<in> units (sinfo s x)" by (auto simp: live_def)
  note D = pmm_repD [OF rep]
  define i where "i = sinfo s x"
  from x(2) obtain k where k: "u = unit_at i k" "k < 8192 div usize (mtype i)"
    by (auto simp: units_def unit_set_def i_def split: if_splits)
  let ?u = "usize (mtype i)"
  have du: "?u dvd 8192" "?u dvd 4294967296" using usize_cases [of "mtype i"] by auto
  have sl: "unat (slice i) mod 8192 = 0"
  proof -
    have "unat (slice i - pstart s) mod 8192 = 0" using D(3) [OF x(1)] by (simp add: geom_def is_slice_def i_def)
    then show ?thesis using D(4) unat_add_mod [of 8192 "slice i - pstart s" "pstart s"]
      by (simp add: mod_add_eq [symmetric])
  qed
  have lt: "?u * k < 4294967296" using unit_offset [OF k(2), of 0] by simp
  have "unat (slice i) mod ?u = 0" using sl du(1) by (metis mod_0_imp_dvd dvd_trans mod_eq_0_iff_dvd)
  then have "unat (slice i + of_nat (?u * k)) mod ?u = 0"
    using unat_add_mod [OF du(2), of "slice i" "of_nat (?u * k)"] unat_of_nat_u32 [OF lt]
    by (simp add: mod_add_eq [symmetric] del: of_nat_mult)
  then show ?thesis by (simp add: k(1) unit_at_def)
qed

text \<open>
  The step that all operations share: the struct \<open>x\<close> moves from list \<open>l\<close> to list \<open>l'\<close> and gets
  the payload of \<open>j\<close>, for the same slice.
\<close>

definition moved :: "PhysicalMemoryManager \<Rightarrow> (pmm_list \<Rightarrow> ptr list) \<Rightarrow> ptr \<Rightarrow> pmm_list \<Rightarrow> MemorySliceInfo \<Rightarrow>
    PhysicalMemoryManager \<Rightarrow> (pmm_list \<Rightarrow> ptr list) \<Rightarrow> bool" where
  "moved s Ls x l' j s' Ls' \<longleftrightarrow>
     pmm_links s' Ls' \<and> pstart s' = pstart s \<and>
     (\<forall>k. set (Ls' k) = set (Ls k) - {x} \<union> (if k = l' then {x} else {})) \<and>
     (\<forall>a. core (sinfo s' a) = core (if a = x then j else sinfo s a))"

lemma moved_rep:
  assumes rep: "pmm_rep s Ls" and x: "x \<in> set (Ls l)" and m: "moved s Ls x l' j s' Ls'"
    and j: "slice j = slice (sinfo s x)" "cls l' j"
  shows "pmm_rep s' Ls'"
    "live s' Ls' = (live s Ls - (if l = unused then {} else units (sinfo s x)))
       \<union> (if l' = unused then {} else units j)"
proof -
  have links: "pmm_links s' Ls'" and st: "pstart s' = pstart s"
    and sets: "\<And>k. set (Ls' k) = set (Ls k) - {x} \<union> (if k = l' then {x} else {})"
    and cx: "core (sinfo s' x) = core j" and co: "\<And>a. a \<noteq> x \<Longrightarrow> core (sinfo s' a) = core (sinfo s a)"
    using m by (simp_all add: moved_def)
  note D = pmm_repD [OF rep]
  have gj: "geom (pstart s) x j" using D(3) [OF x] j(1) by (simp add: geom_def)
  have "cls k (sinfo s' a) \<and> geom (pstart s') a (sinfo s' a)" if a: "a \<in> set (Ls' k)" for k a
  proof (cases "a = x")
    case True
    then have "k = l'" using a sets by (auto split: if_splits)
    with True show ?thesis using cls_core [OF cx] geom_core [OF cx] gj j(2) st by simp
  next
    case False
    then have "a \<in> set (Ls k)" using a sets by (auto split: if_splits)
    then show ?thesis using cls_core [OF co [OF False]] geom_core [OF co [OF False]] D(2,3) st by simp
  qed
  with links st D(4) show "pmm_rep s' Ls'" by (simp add: pmm_rep_def)
  have other: "units (sinfo s a) \<inter> units (sinfo s x) = {}" if "a \<in> set (Ls k)" "a \<noteq> x" for a k
  proof (rule equals0I)
    fix u assume "u \<in> units (sinfo s a) \<inter> units (sinfo s x)"
    then show False
      using unit_struct [OF D(3) [OF that(1)], of u "snd u"] unit_struct [OF D(3) [OF x], of u "snd u"]
        unit_self [of u "sinfo s x"] that(2) by auto
  qed
  have once: "x \<in> set (Ls k) \<longleftrightarrow> k = l" for k using pmm_linksD(2) [OF D(1), of k l x] x by auto
  let ?rest = "\<Union>k \<in> {k. k \<noteq> unused}. \<Union>a \<in> set (Ls k) - {x}. units (sinfo s a)"
  have rest: "?rest = live s Ls - (if l = unused then {} else units (sinfo s x))"
    unfolding live_def using other once x by (fastforce split: if_splits)
  have "live s' Ls' = (\<Union>k \<in> {k. k \<noteq> unused}. \<Union>a \<in> set (Ls k) - {x}. units (sinfo s' a)) \<union>
      (if l' = unused then {} else units (sinfo s' x))"
    unfolding live_def sets by (auto split: if_splits)
  also have "(\<Union>k \<in> {k. k \<noteq> unused}. \<Union>a \<in> set (Ls k) - {x}. units (sinfo s' a)) = ?rest"
    using units_core [OF co] by (intro SUP_cong) auto
  finally show "live s' Ls' = (live s Ls - (if l = unused then {} else units (sinfo s x)))
       \<union> (if l' = unused then {} else units j)"
    using units_core [OF cx] rest by simp
qed

text \<open>A change of the payload that leaves the links and the slice alone.\<close>

definition payload_update :: "(MemorySliceInfo \<Rightarrow> MemorySliceInfo) \<Rightarrow> bool" where
  "payload_update f \<longleftrightarrow>
     (\<forall>i. snext (f i) = snext i \<and> sprev (f i) = sprev i \<and> slice (f i) = slice i) \<and>
     (\<forall>i i'. core i = core i' \<longrightarrow> core (f i) = core (f i'))"

lemma payload_updates [simp]:
  "payload_update (\<lambda>i. i\<lparr>mtype := t\<rparr>)" "payload_update (\<lambda>i. i\<lparr>mtype := t, filled := b\<rparr>)"
  "payload_update (\<lambda>i. i\<lparr>filled := g (filled i)\<rparr>)" "payload_update (\<lambda>i. i)"
  by (simp_all add: payload_update_def core_def)

lemma payload_slice: "payload_update f \<Longrightarrow> slice (f i) = slice i"
  by (simp add: payload_update_def)

lemma payload_core:
  "payload_update f \<Longrightarrow> same_core s s' \<Longrightarrow> core (f (sinfo s' x)) = core (f (sinfo s x))"
  unfolding payload_update_def same_core_def by blast

lemma sput_payload:
  assumes links: "pmm_links s Ls" and x: "x \<noteq> NULL" and f: "payload_update f"
  shows "\<exists>s'. sput s x f = Inr s' \<and> pmm_links s' Ls \<and> heads s' = heads s \<and> pstart s' = pstart s \<and>
           words s' = words s \<and> sprev (sinfo s' x) = sprev (sinfo s x) \<and>
           sinfo s' = (sinfo s)(x := f (sinfo s x))"
  using pmm_sput_links [OF links, of f x] x f
  by (intro exI [of _ "s\<lparr>sinfo := (sinfo s)(x := f (sinfo s x))\<rparr>"]) (simp add: sput_def payload_update_def)

text \<open>The end of every operation: the payload changes, then the struct goes onto a list.\<close>

lemma update_push_moved:
  assumes links: "pmm_links s1 (Ls(l := us @ vs))" and x: "Ls l = us @ x # vs" and core: "same_core s s1"
    and rep: "pmm_links s Ls" and prev: "sprev (sinfo s1 x) = NULL" and f: "payload_update f"
  shows "\<exists>s2 s3 Ls'. sput s1 x f = Inr s2 \<and> sinfo s2 x = f (sinfo s1 x) \<and>
           push_to_ll s2 l' x = Inr s3 \<and> core (sinfo s3 x) = core (f (sinfo s x)) \<and>
           moved s Ls x l' (f (sinfo s x)) s3 Ls' \<and> words s3 = words s"
proof -
  note o = pmm_linksD [OF rep]
  let ?L1 = "Ls(l := us @ vs)"
  have xl: "x \<in> set (Ls l)" by (simp add: x)
  have xn: "x \<noteq> NULL" by (rule o(4) [OF xl])
  have out: "x \<notin> set (?L1 k)" for k using o(2) [of l k x] xl o(1) [of l] x by auto
  from sput_payload [OF links xn f] obtain s2 where
    s2: "sput s1 x f = Inr s2" "pmm_links s2 ?L1" "pstart s2 = pstart s1" "words s2 = words s1"
      "sprev (sinfo s2 x) = NULL" "sinfo s2 = (sinfo s1)(x := f (sinfo s1 x))"
    using prev by auto
  from pmm_push_ok [OF s2(2) xn out, of l'] s2(5) obtain s3 where
    s3: "push_to_ll s2 l' x = Inr s3" "pmm_links s3 (?L1(l' := x # ?L1 l'))" "same_core s2 s3" by blast
  have fx: "core (f (sinfo s1 x)) = core (f (sinfo s x))"
    by (rule payload_core [OF f core])
  have "core (sinfo s3 a) = core (if a = x then f (sinfo s x) else sinfo s a)" for a
    using s3(3) s2(6) core fx by (simp add: same_core_def)
  moreover have "set ((?L1(l' := x # ?L1 l')) k) = set (Ls k) - {x} \<union> (if k = l' then {x} else {})" for k
    using out [of k] out [of l] o(2) [of l k x] xl x by auto
  moreover have "pstart s3 = pstart s" "words s3 = words s"
    using s3(3) s2(3,4) core by (simp_all add: same_core_def)
  ultimately have "moved s Ls x l' (f (sinfo s x)) s3 (?L1(l' := x # ?L1 l'))"
    using s3(2) by (simp add: moved_def)
  with s2(1,6) s3(1,3) fx \<open>words s3 = words s\<close> show ?thesis
    by (intro exI [of _ s2] exI [of _ s3] exI [of _ "?L1(l' := x # ?L1 l')"]) (simp add: same_core_def)
qed

text \<open>Take the first unused slice.\<close>

lemma take_unused:
  assumes rep: "pmm_links s Ls" and x: "Ls unused = x # xs" and f: "payload_update f"
  shows "\<exists>s1 s2 s3 Ls'. pop_from_ll s unused = Inr (x, s1) \<and> sput s1 x f = Inr s2 \<and>
           push_to_ll s2 l' x = Inr s3 \<and> core (sinfo s3 x) = core (f (sinfo s x)) \<and> x \<noteq> NULL \<and>
           moved s Ls x l' (f (sinfo s x)) s3 Ls' \<and> words s3 = words s"
proof -
  from pmm_pop_ok [OF rep x] obtain s1 where
    s1: "pop_from_ll s unused = Inr (x, s1)" "pmm_links s1 (Ls(unused := [] @ xs))" "same_core s s1"
      "sprev (sinfo s1 x) = NULL" by auto
  have "x \<noteq> NULL" using pmm_linksD(4) [OF rep, of x unused] x by simp
  with update_push_moved [OF s1(2) _ s1(3) rep s1(4) f, of l'] x s1(1) show ?thesis by auto
qed

text \<open>Take a struct out of a list and put it onto another with a new payload.\<close>

lemma remove_and_push:
  assumes rep: "pmm_links s Ls" and l: "l \<noteq> unused" and x: "x \<in> set (Ls l)" and f: "payload_update f"
  shows "\<exists>s1 s2. remove_element_ll s l x = Inr s1 \<and> sput s1 x f = Inr s2 \<and> sinfo s2 x = f (sinfo s1 x) \<and>
           core (sinfo s2 x) = core (f (sinfo s x)) \<and>
           (\<forall>l'. \<exists>s3 Ls'. push_to_ll s2 l' x = Inr s3 \<and> moved s Ls x l' (f (sinfo s x)) s3 Ls' \<and> words s3 = words s)"
proof -
  from x obtain us vs where uv: "Ls l = us @ x # vs" by (auto simp: in_set_conv_decomp)
  from pmm_remove_ok [OF rep l uv] obtain s1 where
    s1: "remove_element_ll s l x = Inr s1" "pmm_links s1 (Ls(l := us @ vs))" "same_core s s1"
      "sprev (sinfo s1 x) = NULL" by auto
  note u = update_push_moved [OF s1(2) uv s1(3) rep s1(4) f]
  from u [of unused] obtain s2 where s2: "sput s1 x f = Inr s2" "sinfo s2 x = f (sinfo s1 x)" by auto
  have "core (sinfo s2 x) = core (f (sinfo s x))"
    unfolding s2(2) by (rule payload_core [OF f s1(3)])
  moreover have "\<exists>s3 Ls'. push_to_ll s2 l' x = Inr s3 \<and> moved s Ls x l' (f (sinfo s x)) s3 Ls' \<and> words s3 = words s" for l'
    using u [of l'] s2(1) by auto
  ultimately show ?thesis using s1(1) s2 by blast
qed

subsection \<open>Pages and second level tables: several units in a slice\<close>

text \<open>
  The kind, its list of partly free slices, the value of \<open>filled\<close> of a full slice: the code of
  pages and the code of second level tables differ in these only.
\<close>

definition sub_kind :: "MemoryType \<Rightarrow> pmm_list \<Rightarrow> u8 \<Rightarrow> bool" where
  "sub_kind t part full \<longleftrightarrow>
     t = Page \<and> part = pagePartialFree \<and> full = 3 \<or> t = L2PageTable \<and> part = l2ptPartialFree \<and> full = 0xff"

lemma u8_bits_nonzero: "bit b k \<Longrightarrow> (b :: u8) \<noteq> 0"
  by auto

lemma bit_3 [simp]: "bit (3 :: int) k \<longleftrightarrow> k < 2"
  using bit_mask_iff [of 2 k, where ?'a = int] by (simp add: mask_eq_exp_minus_1)

lemma bit_ff [simp]: "bit (255 :: int) k \<longleftrightarrow> k < 8"
  using bit_mask_iff [of 8 k, where ?'a = int] by (simp add: mask_eq_exp_minus_1)

lemma bit_2 [simp]: "bit (2 :: int) k \<longleftrightarrow> k = 1"
  using bit_exp_iff [of 1 k, where ?'a = int] by auto

lemma bit_1 [simp]: "bit (1 :: u8) k \<longleftrightarrow> k = 0"
  by (auto simp: bit_1_iff)

lemma u8_below_2_bits:
  assumes "\<forall>k. bit (b :: u8) k \<longrightarrow> k < 2"
  shows "b \<in> {0, 1, 2, 3}"
proof (cases "bit b 0"; cases "bit b 1")
  assume "bit b 0" "bit b 1"
  then have "b = 3" using assms by (intro bit_word_eqI) (auto simp: less_2_cases_iff)
  then show ?thesis by simp
next
  assume "bit b 0" "\<not> bit b 1"
  then have "b = 1" using assms by (intro bit_word_eqI) (auto simp: less_2_cases_iff)
  then show ?thesis by simp
next
  assume "\<not> bit b 0" "bit b 1"
  then have "b = 2" using assms by (intro bit_word_eqI) (auto simp: less_2_cases_iff)
  then show ?thesis by simp
next
  assume "\<not> bit b 0" "\<not> bit b 1"
  then have "b = 0" using assms by (intro bit_word_eqI) (auto simp: less_2_cases_iff)
  then show ?thesis by simp
qed

definition sub_ok :: "MemoryType \<Rightarrow> u8 \<Rightarrow> bool" where
  "sub_ok t b \<longleftrightarrow> (\<forall>k. bit b k \<longrightarrow> k < 8192 div usize t)"

lemma cls_partial:
  assumes "sub_kind t part full"
  shows "cls part i \<longleftrightarrow> \<not> reserved i \<and> mtype i = t \<and> filled i \<noteq> 0 \<and> filled i \<noteq> full \<and> sub_ok t (filled i)"
proof -
  have "b \<in> {1, 2} \<longleftrightarrow> b \<noteq> 0 \<and> b \<noteq> 3 \<and> sub_ok Page b" for b :: u8
    using u8_below_2_bits [of b] by (auto simp: sub_ok_def usize_def)
  moreover have "bit b k \<Longrightarrow> k < 8" for b :: u8 and k using bit_imp_le_length [of b k] by simp
  ultimately show ?thesis using assms by (auto simp: sub_kind_def cls_def sub_ok_def usize_def)
qed

lemma cls_full:
  assumes "sub_kind t part full" and "\<not> reserved i" and "mtype i = t"
  shows "cls allocated i \<longleftrightarrow> filled i = full"
  using assms by (auto simp: sub_kind_def cls_def)

lemma sub_kind_facts:
  assumes "sub_kind t part full"
  shows "bit full k \<longleftrightarrow> k < 8192 div usize t" "8192 div usize t \<le> 8" "usize t \<noteq> 8192" "part \<noteq> unused"
    "part \<noteq> allocated" "full \<noteq> 0" "sub_ok t full"
  using assms by (auto simp: sub_kind_def usize_def sub_ok_def)

lemma unit_set_sub:
  assumes "sub_kind (mtype i) part full" and "sub_ok (mtype i) (filled i)"
  shows "unit_set i = {k. bit (filled i) k}"
  using assms sub_kind_facts(3) [OF assms(1)] by (auto simp: unit_set_def sub_ok_def)

lemma u8_eq_full:
  assumes "sub_kind t part full" and "sub_ok t b" and "\<forall>k < 8192 div usize t. bit b k"
  shows "b = full"
  using assms sub_kind_facts(1) [OF assms(1)] by (intro bit_word_eqI) (auto simp: sub_ok_def)

text \<open>What setting or clearing the bit of a unit does to the units of a struct.\<close>

lemma units_set_bit:
  assumes kind: "sub_kind t part full" and i: "\<not> reserved i" "mtype i = t" "sub_ok t (filled i)"
    and k: "k < 8192 div usize t"
  shows "units (i\<lparr>filled := filled i OR push_bit k 1\<rparr>) = insert (unit_at i k) (units i)"
    "sub_ok t (filled i OR push_bit k 1)"
    "units (i\<lparr>filled := filled i AND NOT (push_bit k 1)\<rparr>) = units i - {unit_at i k}"
    "sub_ok t (filled i AND NOT (push_bit k 1))"
proof -
  have k8: "k < 8" using k sub_kind_facts(2) [OF kind] by simp
  have b: "bit (filled i OR 2 ^ k) m \<longleftrightarrow> bit (filled i) m \<or> m = k"
    "bit (filled i AND NOT (2 ^ k)) m \<longleftrightarrow> bit (filled i) m \<and> m \<noteq> k" for m
    using k8 by (auto simp: bit_or_iff bit_and_iff bit_not_iff bit_exp_iff dest: bit_imp_le_length)
  show ok: "sub_ok t (filled i OR push_bit k 1)" "sub_ok t (filled i AND NOT (push_bit k 1))"
    using i(3) k by (auto simp: sub_ok_def b)
  have at: "unit_at (i\<lparr>filled := x\<rparr>) = unit_at i" for x by (simp add: unit_at_def [abs_def])
  note us = unit_set_sub [OF kind [folded i(2)]]
  show "units (i\<lparr>filled := filled i OR push_bit k 1\<rparr>) = insert (unit_at i k) (units i)"
    using us [OF i(3) [folded i(2)]] i ok(1) kind
    by (subst units_def, subst unit_set_sub [of _ part full]) (auto simp: units_def at b)
  have inj: "m = k" if "bit (filled i) m" "unit_at i k = unit_at i m" for m
    using that i(2,3) k unit_at_inj [of k i m] by (auto simp: sub_ok_def)
  show "units (i\<lparr>filled := filled i AND NOT (push_bit k 1)\<rparr>) = units i - {unit_at i k}"
    using us [OF i(3) [folded i(2)]] i ok(2) kind
    by (subst units_def, subst unit_set_sub [of _ part full]) (auto simp: units_def at b dest: inj)
qed

lemma units_first:
  assumes kind: "sub_kind t part full"
  shows "\<not> reserved i \<Longrightarrow> units (i\<lparr>mtype := t, filled := 1\<rparr>) = {(t, slice i)}"
    "\<not> reserved i \<Longrightarrow> cls part (i\<lparr>mtype := t, filled := 1\<rparr>)"
proof -
  have ok: "sub_ok t 1" using usize_cases [of t] by (auto simp: sub_ok_def)
  show "units (i\<lparr>mtype := t, filled := 1\<rparr>) = {(t, slice i)}" if "\<not> reserved i"
    using that ok kind by (subst units_def, subst unit_set_sub [of _ part full]) (auto simp: unit_at_def)
  have "full \<noteq> 1" using kind by (auto simp: sub_kind_def)
  then show "\<not> reserved i \<Longrightarrow> cls part (i\<lparr>mtype := t, filled := 1\<rparr>)"
    using ok by (simp add: cls_partial [OF kind])
qed

text \<open>A unit that a struct outside the live set accounts for is new.\<close>

lemma unit_fresh:
  assumes rep: "pmm_rep s Ls" and x: "x \<in> set (Ls l)" and j: "slice j = slice (sinfo s x)" "u \<in> units j"
    and own: "l = unused \<or> u \<notin> units (sinfo s x)"
  shows "u \<notin> live s Ls"
proof
  assume "u \<in> live s Ls"
  then obtain k a where a: "k \<noteq> unused" "a \<in> set (Ls k)" "u \<in> units (sinfo s a)" by (auto simp: live_def)
  note D = pmm_repD [OF rep]
  have "geom (pstart s) x j" using D(3) [OF x] j(1) by (simp add: geom_def)
  then have "a = x"
    using unit_struct [OF D(3) [OF a(2)] a(3) unit_self [OF a(3)]] unit_struct [of _ x j, OF _ j(2) unit_self [OF j(2)]]
    by simp
  with a own pmm_linksD(2) [OF D(1) _ x, of k] show False by auto
qed

text \<open>
  The relation between a state and the set of the units in use, the abstract state of the
  memory manager.
\<close>

definition pmm_pool :: "PhysicalMemoryManager \<Rightarrow> unit_id set \<Rightarrow> bool" where
  "pmm_pool s U \<longleftrightarrow> (\<exists>Ls. pmm_rep s Ls \<and> live s Ls = U)"

lemma pmm_pool_aligned: "pmm_pool s U \<Longrightarrow> u \<in> U \<Longrightarrow> unat (snd u) mod usize (fst u) = 0"
  unfolding pmm_pool_def using live_aligned by blast

lemma pmm_clear_rep: "pmm_rep (pmm_clear s p n) Ls = pmm_rep s Ls" "live (pmm_clear s p n) Ls = live s Ls"
  by (simp_all add: pmm_rep_def live_def pmm_clear_def pmm_links_def)

lemma pmm_pool_clear [simp]: "pmm_pool (pmm_clear s p n) U = pmm_pool s U"
  by (simp add: pmm_pool_def pmm_clear_rep)

subsection \<open>The operations on the pool\<close>

lemma head_empty:
  "pmm_links s Ls \<Longrightarrow> heads s l = NULL \<longleftrightarrow> Ls l = []"
  using pmm_linksD(3) [of s Ls l] by (cases "Ls l") auto

lemma head_hd:
  "pmm_links s Ls \<Longrightarrow> Ls l = x # xs \<Longrightarrow> heads s l = x"
  using pmm_linksD(3) [of s Ls l] by auto

text \<open>The manager after an operation that takes at most one slice from the unused ones.\<close>

definition next_pool :: "(pmm_list \<Rightarrow> ptr list) \<Rightarrow> PhysicalMemoryManager \<Rightarrow> unit_id set \<Rightarrow> bool" where
  "next_pool Ls s U \<longleftrightarrow>
     (\<exists>Ls'. pmm_rep s Ls' \<and> live s Ls' = U \<and> card (set (Ls unused)) \<le> Suc (card (set (Ls' unused))))"

lemma next_pool_pool: "next_pool Ls s U \<Longrightarrow> pmm_pool s U"
  by (auto simp: next_pool_def pmm_pool_def)

lemma next_pool_clear [simp]: "next_pool Ls (pmm_clear s p n) U = next_pool Ls s U"
  by (simp add: next_pool_def pmm_clear_rep)

text \<open>A first unit of a slice that was unused.\<close>

lemma fresh_slice_ok:
  assumes pool: "pmm_rep s Ls" and x: "Ls unused = x # xs" and f: "payload_update f"
    and new: "\<And>i. \<not> reserved i \<Longrightarrow> units (f i) = {(t, slice i)} \<and> cls l' (f i)" and l': "l' \<noteq> unused"
  shows "\<exists>s1 s2 s3 i. pop_from_ll s unused = Inr (x, s1) \<and> sput s1 x f = Inr s2 \<and> push_to_ll s2 l' x = Inr s3 \<and>
     sget s3 x = Inr i \<and> words s3 = words s \<and>
     (t, slice i) \<notin> live s Ls \<and> next_pool Ls s3 (insert (t, slice i) (live s Ls))"
proof -
  note D = pmm_repD [OF pool]
  have xl: "x \<in> set (Ls unused)" by (simp add: x)
  have nr: "\<not> reserved (sinfo s x)" using D(2) [OF xl] by (simp add: cls_def)
  let ?u = "(t, slice (sinfo s x))"
  from take_unused [OF D(1) x f, of l'] obtain s1 s2 s3 Ls' where
    r: "pop_from_ll s unused = Inr (x, s1)" "sput s1 x f = Inr s2" "push_to_ll s2 l' x = Inr s3"
      "core (sinfo s3 x) = core (f (sinfo s x))" "x \<noteq> NULL" "moved s Ls x l' (f (sinfo s x)) s3 Ls'"
      "words s3 = words s" by blast
  note n = new [OF nr]
  have sl: "slice (f (sinfo s x)) = slice (sinfo s x)" by (rule payload_slice [OF f])
  have "set (Ls' unused) = set (Ls unused) - {x}" using r(6) l' by (simp add: moved_def)
  then have "card (set (Ls unused)) \<le> Suc (card (set (Ls' unused)))" using xl by (simp add: card_Suc_Diff1)
  then have "next_pool Ls s3 (insert ?u (live s Ls))"
    using moved_rep [OF pool xl r(6) sl] n l' by (auto simp: next_pool_def)
  moreover have "?u \<notin> live s Ls"
    using unit_fresh [OF pool xl sl] n by simp
  moreover have "sget s3 x = Inr (sinfo s3 x)" using r(5) by (simp add: sget_def)
  moreover have "slice (sinfo s3 x) = slice (sinfo s x)" using r(4) sl by (simp add: core_def)
  ultimately show ?thesis using r(1,2,3,7)
    by (intro exI [of _ s1] exI [of _ s2] exI [of _ s3] exI [of _ "sinfo s3 x"]) simp
qed

text \<open>The next unit of a slice that is partly in use.\<close>

lemma partial_slice_ok:
  assumes kind: "sub_kind t part full" and pool: "pmm_rep s Ls" and x: "Ls part = x # xs"
    and index: "index = first_free (ucast (filled (sinfo s x)))"
  shows "\<exists>s2. sput s x (\<lambda>i. i\<lparr>filled := filled i OR push_bit (unat index) 1\<rparr>) = Inr s2 \<and> sget s x = Inr (sinfo s x) \<and>
     sget s2 x = Inr (sinfo s2 x) \<and>
     (\<exists>s3. (if filled (sinfo s2 x) = full
            then bindE (pop_from_ll s2 part) (\<lambda>(_, s). push_to_ll s allocated x) else Inr s2) = Inr s3 \<and>
        words s3 = words s \<and>
        (let p = slice (sinfo s x) + index * of_nat (usize t) in
         (t, p) \<notin> live s Ls \<and> next_pool Ls s3 (insert (t, p) (live s Ls))))"
proof -
  note D = pmm_repD [OF pool] and K = sub_kind_facts [OF kind]
  have xl: "x \<in> set (Ls part)" by (simp add: x)
  have xn: "x \<noteq> NULL" by (rule pmm_linksD(4) [OF D(1) xl])
  define i where "i = sinfo s x"
  define k where "k = unat index"
  have i: "\<not> reserved i" "mtype i = t" "filled i \<noteq> 0" "filled i \<noteq> full" "sub_ok t (filled i)"
    using D(2) [OF xl] unfolding i_def cls_partial [OF kind] by auto
  have "filled i \<noteq> 0xff" using i(4) i(5) [unfolded sub_ok_def, rule_format, of 7] kind by (auto simp: sub_kind_def sub_ok_def usize_def)
  note ff = first_free_ok [OF this, folded index [folded i_def], folded k_def]
  have kn: "k < 8192 div usize t" using u8_eq_full [OF kind i(5)] i(4) ff(3) by (meson not_le order_less_le_trans)
  let ?f = "\<lambda>i. i\<lparr>filled := filled i OR push_bit k 1\<rparr> :: MemorySliceInfo"
  note u = units_set_bit(1,2) [OF kind i(1,2,5) kn]
  have f: "payload_update ?f" by (rule payload_updates)
  have at: "unit_at i k = (t, slice i + index * of_nat (usize t))"
    by (simp add: unit_at_def i(2) k_def mult.commute)
  have nu: "unit_at i k \<notin> units i"
  proof
    assume "unit_at i k \<in> units i"
    then obtain m where m: "bit (filled i) m" "unit_at i k = unit_at i m"
      using i(1,2,5) kind by (auto simp: units_def unit_set_sub [of i part full])
    with i(2,5) kn unit_at_inj [of k i m] have "m = k" by (auto simp: sub_ok_def)
    with m(1) ff(2) show False by simp
  qed
  from sput_payload [OF D(1) xn f] obtain s2 where
    s2: "sput s x ?f = Inr s2" "pmm_links s2 Ls" "pstart s2 = pstart s" "words s2 = words s"
      "sinfo s2 = (sinfo s)(x := ?f i)" unfolding i_def by blast
  have m2: "moved s Ls x part (?f i) s2 Ls"
    using s2 xl pmm_linksD(2) [OF D(1) _ xl] by (auto simp: moved_def)
  have fi: "filled (sinfo s2 x) = filled i OR push_bit k 1" by (simp add: s2(5))
  have ne0: "filled i OR push_bit k 1 \<noteq> 0" using i(3) by (metis or_eq_0_iff)
  have sl: "slice (?f i) = slice (sinfo s x)" by (simp add: i_def)
  have fresh: "unit_at i k \<notin> live s Ls"
    using unit_fresh [OF pool xl sl] u(1) nu by (simp add: i_def)
  have live: "live s Ls - (if part = unused then {} else units (sinfo s x)) \<union> (if l' = unused then {} else units (?f i))
      = insert (unit_at i k) (live s Ls)" if "l' \<noteq> unused" for l'
    using that u(1) K(4) xl by (auto simp: live_def i_def)
  have "\<exists>s3. (if filled (sinfo s2 x) = full
            then bindE (pop_from_ll s2 part) (\<lambda>(_, s). push_to_ll s allocated x) else Inr s2) = Inr s3 \<and>
        words s3 = words s \<and> next_pool Ls s3 (insert (unit_at i k) (live s Ls))"
  proof (cases "filled (sinfo s2 x) = full")
    case False
    have "cls part (?f i)" using False i u(2) ne0 by (simp add: cls_partial [OF kind] fi)
    from moved_rep [OF pool xl m2 sl this] live [of part] K(4) False s2(4) show ?thesis
      by (auto simp: next_pool_def)
  next
    case True
    from pmm_pop_ok [OF s2(2) x] obtain s3 where
      s3: "pop_from_ll s2 part = Inr (x, s3)" "pmm_links s3 (Ls(part := xs))" "same_core s2 s3"
        "sprev (sinfo s3 x) = NULL" by blast
    have out: "x \<notin> set xs" "\<And>l. l \<noteq> part \<Longrightarrow> x \<notin> set (Ls l)"
      using pmm_linksD(1) [OF D(1), of part] pmm_linksD(2) [OF D(1) _ xl] x by auto
    then have "\<forall>l. x \<notin> set ((Ls(part := xs)) l)" by simp
    from pmm_push_ok [OF s3(2) xn this [rule_format], of allocated] s3(4) obtain s4 where
      s4: "push_to_ll s3 allocated x = Inr s4" "pmm_links s4 (Ls(part := xs, allocated := x # (Ls(part := xs)) allocated))"
        "same_core s3 s4" by blast
    have m4: "moved s Ls x allocated (?f i) s4 (Ls(part := xs, allocated := x # (Ls(part := xs)) allocated))"
      using s4(2,3) s3(3) s2(3,5) K(5) x out by (auto simp: moved_def same_core_def)
    have "cls allocated (?f i)" using True i by (simp add: cls_full [OF kind] fi)
    note cl = this
    have "(Ls(part := xs, allocated := x # (Ls(part := xs)) allocated)) unused = Ls unused" using K(4) by simp
    with moved_rep [OF pool xl m4 sl cl] live [of allocated] True s2(4) s3(1,3) s4(1,3) show ?thesis
      by (auto simp: next_pool_def same_core_def)
  qed
  then show ?thesis
    using s2(1) xn fresh at unfolding k_def i_def by (intro exI [of _ s2]) (auto simp: sget_def Let_def)
qed

text \<open>Giving a unit back.\<close>

lemma live_unit_struct:
  assumes pool: "pmm_rep s Ls" and u: "u \<in> live s Ls"
  obtains l x where "l \<noteq> unused" "x \<in> set (Ls l)" "u \<in> units (sinfo s x)"
    "sliceinfo_or_fatal s (snd u) = Inr x" "\<not> reserved (sinfo s x)" "mtype (sinfo s x) = fst u"
proof -
  from u obtain l x where x: "l \<noteq> unused" "x \<in> set (Ls l)" "u \<in> units (sinfo s x)" by (auto simp: live_def)
  have a: "sliceinfo_address (pstart s) (snd u) = x"
    by (rule unit_struct [OF pmm_repD(3) [OF pool x(2)] x(3) unit_self [OF x(3)]])
  have r: "\<not> reserved (sinfo s x)" "mtype (sinfo s x) = fst u" using x(3) by (auto simp: units_def unit_at_def split: if_splits)
  have "sliceinfo_or_fatal s (snd u) = Inr x"
    using a r by (simp add: sliceinfo_or_fatal_def pmm_get_sliceinfo_for_slice_def Let_def)
  with x r show ?thesis by (intro that)
qed

lemma unit_index:
  assumes "sub_kind t part full" "k < 8192 div usize t"
  shows "unat ((slice i + of_nat (usize t * k) - slice i) div of_nat (usize t)) = k"
proof -
  have lt: "usize t * k < 8192" "usize t < 4294967296"
    using unit_offset [OF assms(2), of 0] usize_cases [of t] by auto
  then have "unat (of_nat (usize t * k) div of_nat (usize t) :: u32) = usize t * k div usize t"
    by (simp only: unat_div unat_of_nat_u32)
  then show ?thesis by simp
qed

lemma free_sub_ok:
  assumes kind: "sub_kind t part full" and pool: "pmm_rep s Ls" and u: "(t, p) \<in> live s Ls"
  shows "\<exists>s'. bindE (sliceinfo_or_fatal s p) (\<lambda>si.
     bindE (sget s si) (\<lambda>i.
     bindE (if filled i = full then remove_element_ll s allocated si
            else remove_element_ll s part si) (\<lambda>s.
     let index_in_slice = (p - slice i) div of_nat (usize t) in
     bindE (sput s si (\<lambda>i. i\<lparr>filled := filled i AND NOT (push_bit (unat index_in_slice) 1)\<rparr>)) (\<lambda>s.
     bindE (sget s si) (\<lambda>i.
     if filled i = 0 then push_to_ll s unused si else push_to_ll s part si))))) = Inr s' \<and>
     words s' = words s \<and> pmm_pool s' (live s Ls - {(t, p)})"
proof -
  note D = pmm_repD [OF pool] and K = sub_kind_facts [OF kind]
  from live_unit_struct [OF pool u] obtain l x where
    x: "l \<noteq> unused" "x \<in> set (Ls l)" "(t, p) \<in> units (sinfo s x)" "sliceinfo_or_fatal s p = Inr x"
      "\<not> reserved (sinfo s x)" "mtype (sinfo s x) = t" by auto
  have xn: "x \<noteq> NULL" by (rule pmm_linksD(4) [OF D(1) x(2)])
  define i where "i = sinfo s x"
  have l: "l = (if filled i = full then allocated else part)" and ok: "sub_ok t (filled i)"
    using D(2) [OF x(2)] x(1,5,6) kind cls_full [OF kind x(5,6)] cls_partial [OF kind, of "sinfo s x"] K(7)
    unfolding i_def by (cases l; auto simp: sub_kind_def cls_def)+
  from x(3,5,6) ok obtain k where k: "bit (filled i) k" "(t, p) = unit_at i k"
    by (auto simp: units_def i_def unit_set_sub [of _ part full] kind)
  have kn: "k < 8192 div usize t" using ok k(1) by (simp add: sub_ok_def)
  define idx where "idx = unat ((p - slice i) div of_nat (usize t))"
  have idx: "idx = k"
    using unit_index [OF kind kn, of i] k(2) x(6) unfolding idx_def i_def by (simp add: unit_at_def)
  let ?f = "\<lambda>i. i\<lparr>filled := filled i AND NOT (push_bit k 1)\<rparr> :: MemorySliceInfo"
  have f: "payload_update ?f" by (rule payload_updates)
  note ub = units_set_bit(3,4) [OF kind x(5,6) ok [unfolded i_def] kn, folded i_def]
  have sl: "slice (?f i) = slice (sinfo s x)" by (simp add: i_def)
  from remove_and_push [OF D(1) x(1,2) f] obtain s1 s2 where
    s1: "remove_element_ll s l x = Inr s1" "sput s1 x ?f = Inr s2" "core (sinfo s2 x) = core (?f i)"
    and s3: "\<And>l'. \<exists>s3 Ls'. push_to_ll s2 l' x = Inr s3 \<and> moved s Ls x l' (?f i) s3 Ls' \<and> words s3 = words s"
    unfolding i_def by blast
  have fi: "filled (sinfo s2 x) = filled i AND NOT (push_bit k 1)" using s1(3) by (simp add: core_def)
  define l' where "l' = (if filled (sinfo s2 x) = 0 then unused else part)"
  have nb: "\<not> bit (filled i AND NOT (push_bit k 1)) k"
    using kn K(2) by (simp add: bit_and_iff bit_not_iff bit_exp_iff)
  have nf: "filled i AND NOT (push_bit k 1) \<noteq> full" using nb K(1) [of k] kn by metis
  have cls: "cls l' (?f i)"
  proof (cases "filled (sinfo s2 x) = 0")
    case True
    with x(5) show ?thesis by (simp add: l'_def cls_def i_def)
  next
    case False
    with x(5,6) ub(2) nf show ?thesis by (simp add: l'_def cls_partial [OF kind] fi i_def)
  qed
  from s3 [of l'] obtain s3 Ls' where
    s4: "push_to_ll s2 l' x = Inr s3" "moved s Ls x l' (?f i) s3 Ls'" "words s3 = words s" by blast
  have z: "filled (sinfo s2 x) = 0 \<Longrightarrow> units (?f i) = {}"
    unfolding fi using ub(2) x(6) kind by (simp add: units_def unit_set_sub [of _ part full] i_def)
  have "units i \<subseteq> live s Ls" "(t, p) \<in> units i" using x(1,2,3) unfolding live_def i_def by blast+
  then have "live s Ls - units i \<union> units (?f i) = live s Ls - {(t, p)}"
    unfolding ub(1) k(2) [symmetric] by blast
  then have "live s Ls - (if l = unused then {} else units (sinfo s x)) \<union> (if l' = unused then {} else units (?f i))
      = live s Ls - {(t, p)}"
    using x(1) z K(4) unfolding l'_def i_def [symmetric]
    by (cases "filled (sinfo s2 x) = 0") (simp_all only: if_True if_False refl Un_empty_right)
  with moved_rep [OF pool x(2) s4(2) sl cls] have "pmm_pool s3 (live s Ls - {(t, p)})"
    by (auto simp: pmm_pool_def)
  moreover have "(if filled i = full then remove_element_ll s allocated x else remove_element_ll s part x) = Inr s1"
    using s1(1) l by (simp split: if_splits)
  moreover have "(if filled (sinfo s2 x) = 0 then push_to_ll s2 unused x else push_to_ll s2 part x) = Inr s3"
    using s4(1) l'_def by (simp split: if_splits)
  ultimately show ?thesis
    using x(4) xn s1(2) s4(3) idx unfolding idx_def i_def
    by (intro exI [of _ s3]) (simp add: sget_def Let_def)
qed

subsection \<open>The interface of a pool of units\<close>

text \<open>
  What a client relies on, for each kind of unit: an allocation hands out a unit that was not
  in use and clears it, freeing gives it back, and units in use never overlap.
\<close>

locale unit_pool =
  fixes pool :: "'s \<Rightarrow> unit_id set \<Rightarrow> bool" and mem :: "'s \<Rightarrow> u32 \<Rightarrow> u32" and kind :: MemoryType
    and avail :: "'s \<Rightarrow> bool"
    and alloc :: "'s \<Rightarrow> fault + (ptr \<times> 's)" and release :: "'s \<Rightarrow> u32 \<Rightarrow> fault + 's"
  assumes disjoint: "pool s U \<Longrightarrow> u \<in> U \<Longrightarrow> u' \<in> U \<Longrightarrow> u \<noteq> u' \<Longrightarrow> footprint u \<inter> footprint u' = {}"
    and alloc_law: "pool s U \<Longrightarrow> avail s \<Longrightarrow>
      \<exists>p s'. alloc s = Inr (p, s') \<and> (kind, p) \<notin> U \<and> pool s' (insert (kind, p) U) \<and>
        mem s' = zero_words p (of_nat (usize kind)) (mem s)"
    and refused: "pool s U \<Longrightarrow> \<not> avail s \<Longrightarrow> alloc s = Inr (p, s') \<Longrightarrow> p = NULL"
    and release_law: "pool s U \<Longrightarrow> (kind, p) \<in> U \<Longrightarrow>
      \<exists>s'. release s p = Inr s' \<and> pool s' (U - {(kind, p)}) \<and> mem s' = mem s"
begin

lemma zero_words_footprint:
  "zero_words p (of_nat (usize kind)) m = (\<lambda>a. if a \<in> footprint (kind, p) then 0 else m a)"
proof -
  have "unat (of_nat (usize kind) :: u32) = usize kind"
    using usize_cases [of kind] by (intro unat_of_nat_u32) auto
  then show ?thesis by (simp add: fun_eq_iff zero_words_def footprint_def word_less_nat_alt)
qed

lemma alloc_fresh:
  assumes "pool s U" and "avail s"
  shows "\<exists>p s'. alloc s = Inr (p, s') \<and> (kind, p) \<notin> U \<and> pool s' (insert (kind, p) U) \<and>
    (\<forall>u \<in> U. footprint u \<inter> footprint (kind, p) = {}) \<and>
    (\<forall>a. mem s' a = (if a \<in> footprint (kind, p) then 0 else mem s a))"
proof -
  from alloc_law [OF assms] obtain p s' where
    r: "alloc s = Inr (p, s')" "(kind, p) \<notin> U" "pool s' (insert (kind, p) U)"
      "mem s' = zero_words p (of_nat (usize kind)) (mem s)" by blast
  have "footprint u \<inter> footprint (kind, p) = {}" if "u \<in> U" for u
    using disjoint [OF r(3), of u "(kind, p)"] that r(2) by auto
  with r show ?thesis by (simp add: zero_words_footprint)
qed

text \<open>A client that takes \<open>n\<close> units, or stops at the first refusal, and gives units back.\<close>

primrec take_units :: "nat \<Rightarrow> 's \<Rightarrow> fault + (ptr list \<times> 's)" where
  "take_units 0 s = Inr ([], s)"
| "take_units (Suc n) s =
     bindE (alloc s) (\<lambda>(p, s).
     if p = NULL then Inl NullDeref
     else bindE (take_units n s) (\<lambda>(ps, s). Inr (p # ps, s)))"

primrec give_units :: "ptr list \<Rightarrow> 's \<Rightarrow> fault + 's" where
  "give_units [] s = Inr s"
| "give_units (p # ps) s = bindE (release s p) (give_units ps)"

lemma take_units_ok:
  "pool s U \<Longrightarrow> take_units n s = Inr (ps, s') \<Longrightarrow>
   pool s' (U \<union> Pair kind ` set ps) \<and> distinct ps \<and> U \<inter> Pair kind ` set ps = {} \<and> length ps = n"
proof (induction n arbitrary: s U ps)
  case (Suc n)
  from Suc.prems(2) obtain p s1 qs where
    a: "alloc s = Inr (p, s1)" "p \<noteq> NULL" "take_units n s1 = Inr (qs, s')" "ps = p # qs"
    by (auto simp: bindE_Inr_iff split: if_splits)
  have "avail s" using refused [OF Suc.prems(1) _ a(1)] a(2) by blast
  from alloc_law [OF Suc.prems(1) this] a(1) have
    f: "(kind, p) \<notin> U" "pool s1 (insert (kind, p) U)" by auto
  from Suc.IH [OF f(2) a(3)] f(1) a(4) show ?case by auto
qed simp

lemma give_units_ok:
  "pool s (U \<union> Pair kind ` set ps) \<Longrightarrow> distinct ps \<Longrightarrow> U \<inter> Pair kind ` set ps = {} \<Longrightarrow>
   \<exists>s'. give_units ps s = Inr s' \<and> pool s' U \<and> mem s' = mem s"
proof (induction ps arbitrary: s)
  case (Cons p ps)
  from release_law [OF Cons.prems(1), of p] obtain s1 where
    r: "release s p = Inr s1" "pool s1 (U \<union> Pair kind ` set (p # ps) - {(kind, p)})" "mem s1 = mem s" by auto
  have "U \<union> Pair kind ` set (p # ps) - {(kind, p)} = U \<union> Pair kind ` set ps"
    using Cons.prems(2,3) by auto
  with r(2) have "pool s1 (U \<union> Pair kind ` set ps)" by simp
  from Cons.IH [OF this] Cons.prems(2,3) r(1,3) show ?case by auto
qed auto

lemma take_give:
  assumes "pool s U" and "take_units n s = Inr (ps, s')" and "mset qs = mset ps"
  shows "\<exists>s''. give_units qs s' = Inr s'' \<and> pool s'' U"
proof -
  from take_units_ok [OF assms(1,2)] have
    t: "pool s' (U \<union> Pair kind ` set ps)" "distinct ps" "U \<inter> Pair kind ` set ps = {}" by auto
  have "set qs = set ps" "distinct qs"
    using assms(3) t(2) mset_eq_setD mset_eq_imp_distinct_iff by metis+
  with give_units_ok [of s' U qs] t show ?thesis by auto
qed

end

subsection \<open>The three kinds of units\<close>

definition sub_avail :: "pmm_list \<Rightarrow> PhysicalMemoryManager \<Rightarrow> bool" where
  "sub_avail part s \<longleftrightarrow> heads s part \<noteq> NULL \<or> heads s unused \<noteq> NULL"

lemma pmm_pool_disjoint:
  "pmm_pool s U \<Longrightarrow> u \<in> U \<Longrightarrow> u' \<in> U \<Longrightarrow> u \<noteq> u' \<Longrightarrow> footprint u \<inter> footprint u' = {}"
  unfolding pmm_pool_def using live_disjoint by blast

lemma sub_kinds: "sub_kind Page pagePartialFree 3" "sub_kind L2PageTable l2ptPartialFree 0xff"
  by (simp_all add: sub_kind_def)

lemma page_alloc_next:
  assumes rep: "pmm_rep s Ls" and U: "live s Ls = U" and avail: "sub_avail pagePartialFree s"
  shows "\<exists>p s'. pmm_allocate_page s = Inr (p, s') \<and> (Page, p) \<notin> U \<and>
    next_pool Ls s' (insert (Page, p) U) \<and> words s' = zero_words p (of_nat (usize Page)) (words s)"
proof -
  note D = pmm_repD [OF rep]
  have us: "of_nat (usize Page) = (4096 :: u32)" by (simp add: usize_def)
  show ?thesis
  proof (cases "Ls pagePartialFree")
    case (Cons x xs)
    note hd = head_hd [OF D(1) Cons]
    have xn: "x \<noteq> NULL" using pmm_linksD(4) [OF D(1), of x pagePartialFree] Cons by simp
    let ?k = "first_free (ucast (filled (sinfo s x)))"
    let ?p = "slice (sinfo s x) + ?k * 4096"
    from partial_slice_ok [OF sub_kinds(1) rep Cons refl] obtain s2 s3 where
      r: "sput s x (\<lambda>i. i\<lparr>filled := filled i OR push_bit (unat ?k) 1\<rparr>) = Inr s2" "sget s x = Inr (sinfo s x)"
        "sget s2 x = Inr (sinfo s2 x)"
        "(if filled (sinfo s2 x) = 3 then bindE (pop_from_ll s2 pagePartialFree) (\<lambda>(_, s). push_to_ll s allocated x)
          else Inr s2) = Inr s3"
      and q: "words s3 = words s" "(Page, ?p) \<notin> U" "next_pool Ls s3 (insert (Page, ?p) U)"
      unfolding Let_def us U by blast
    have "pmm_allocate_page s = Inr (?p, pmm_clear s3 ?p 4096)"
      by (simp only: pmm_allocate_page_def hd xn not_False_eq_True if_True Let_def r bindE.simps)
    with q us show ?thesis
      by (intro exI [of _ ?p] exI [of _ "pmm_clear s3 ?p 4096"]) (simp, simp add: pmm_clear_def)
  next
    case Nil
    then have h: "heads s pagePartialFree = NULL" using head_empty [OF D(1)] by simp
    with avail obtain x xs where x: "Ls unused = x # xs"
      using head_empty [OF D(1), of unused] by (cases "Ls unused") (auto simp: sub_avail_def)
    from fresh_slice_ok [OF rep x payload_updates(2) conjI [OF units_first [OF sub_kinds(1)]]]
    obtain s1 s2 s3 i where
      r: "pop_from_ll s unused = Inr (x, s1)" "sput s1 x (\<lambda>i. i\<lparr>mtype := Page, filled := 1\<rparr>) = Inr s2"
        "push_to_ll s2 pagePartialFree x = Inr s3" "sget s3 x = Inr i"
      and q: "words s3 = words s" "(Page, slice i) \<notin> U" "next_pool Ls s3 (insert (Page, slice i) U)"
      unfolding U by blast
    have "pmm_allocate_page s = Inr (slice i, pmm_clear s3 (slice i) 4096)"
      using r h by (simp add: pmm_allocate_page_def)
    with q us show ?thesis
      by (intro exI [of _ "slice i"] exI [of _ "pmm_clear s3 (slice i) 4096"]) (simp, simp add: pmm_clear_def)
  qed
qed

lemma page_alloc_law:
  assumes "pmm_pool s U" and "sub_avail pagePartialFree s"
  shows "\<exists>p s'. pmm_allocate_page s = Inr (p, s') \<and> (Page, p) \<notin> U \<and>
    pmm_pool s' (insert (Page, p) U) \<and> words s' = zero_words p (of_nat (usize Page)) (words s)"
proof -
  from assms(1) obtain Ls where "pmm_rep s Ls" "live s Ls = U" by (auto simp: pmm_pool_def)
  from page_alloc_next [OF this assms(2)] show ?thesis using next_pool_pool by blast
qed

lemma l2_alloc_next:
  assumes rep: "pmm_rep s Ls" and U: "live s Ls = U" and avail: "sub_avail l2ptPartialFree s"
  shows "\<exists>p s'. pmm_allocate_l2_pagetable s = Inr (p, s') \<and> (L2PageTable, p) \<notin> U \<and>
    next_pool Ls s' (insert (L2PageTable, p) U) \<and> words s' = zero_words p (of_nat (usize L2PageTable)) (words s)"
proof -
  note D = pmm_repD [OF rep]
  have us: "of_nat (usize L2PageTable) = (1024 :: u32)" by (simp add: usize_def)
  show ?thesis
  proof (cases "Ls l2ptPartialFree")
    case (Cons x xs)
    note hd = head_hd [OF D(1) Cons]
    have xn: "x \<noteq> NULL" using pmm_linksD(4) [OF D(1), of x l2ptPartialFree] Cons by simp
    let ?k = "first_free (ucast (filled (sinfo s x)))"
    let ?p = "slice (sinfo s x) + ?k * 1024"
    from partial_slice_ok [OF sub_kinds(2) rep Cons refl] obtain s2 s3 where
      r: "sput s x (\<lambda>i. i\<lparr>filled := filled i OR push_bit (unat ?k) 1\<rparr>) = Inr s2" "sget s x = Inr (sinfo s x)"
        "sget s2 x = Inr (sinfo s2 x)"
        "(if filled (sinfo s2 x) = 0xff then bindE (pop_from_ll s2 l2ptPartialFree) (\<lambda>(_, s). push_to_ll s allocated x)
          else Inr s2) = Inr s3"
      and q: "words s3 = words s" "(L2PageTable, ?p) \<notin> U" "next_pool Ls s3 (insert (L2PageTable, ?p) U)"
      unfolding Let_def us U by blast
    have "pmm_allocate_l2_pagetable s = Inr (?p, pmm_clear s3 ?p 1024)"
      by (simp only: pmm_allocate_l2_pagetable_def hd xn not_False_eq_True if_True Let_def r bindE.simps)
    with q us show ?thesis
      by (intro exI [of _ ?p] exI [of _ "pmm_clear s3 ?p 1024"]) (simp, simp add: pmm_clear_def)
  next
    case Nil
    then have h: "heads s l2ptPartialFree = NULL" using head_empty [OF D(1)] by simp
    with avail obtain x xs where x: "Ls unused = x # xs"
      using head_empty [OF D(1), of unused] by (cases "Ls unused") (auto simp: sub_avail_def)
    from fresh_slice_ok [OF rep x payload_updates(2) conjI [OF units_first [OF sub_kinds(2)]]]
    obtain s1 s2 s3 i where
      r: "pop_from_ll s unused = Inr (x, s1)" "sput s1 x (\<lambda>i. i\<lparr>mtype := L2PageTable, filled := 1\<rparr>) = Inr s2"
        "push_to_ll s2 l2ptPartialFree x = Inr s3" "sget s3 x = Inr i"
      and q: "words s3 = words s" "(L2PageTable, slice i) \<notin> U" "next_pool Ls s3 (insert (L2PageTable, slice i) U)"
      unfolding U by blast
    have "pmm_allocate_l2_pagetable s = Inr (slice i, pmm_clear s3 (slice i) 1024)"
      using r h by (simp add: pmm_allocate_l2_pagetable_def)
    with q us show ?thesis
      by (intro exI [of _ "slice i"] exI [of _ "pmm_clear s3 (slice i) 1024"]) (simp, simp add: pmm_clear_def)
  qed
qed

lemma l2_alloc_law:
  assumes "pmm_pool s U" and "sub_avail l2ptPartialFree s"
  shows "\<exists>p s'. pmm_allocate_l2_pagetable s = Inr (p, s') \<and> (L2PageTable, p) \<notin> U \<and>
    pmm_pool s' (insert (L2PageTable, p) U) \<and> words s' = zero_words p (of_nat (usize L2PageTable)) (words s)"
proof -
  from assms(1) obtain Ls where "pmm_rep s Ls" "live s Ls = U" by (auto simp: pmm_pool_def)
  from l2_alloc_next [OF this assms(2)] show ?thesis using next_pool_pool by blast
qed

text \<open>A pool with at least \<open>n\<close> unused slices can serve \<open>n\<close> more requests.\<close>

definition pool_with :: "PhysicalMemoryManager \<Rightarrow> unit_id set \<Rightarrow> nat \<Rightarrow> bool" where
  "pool_with s U n \<longleftrightarrow> (\<exists>Ls. pmm_rep s Ls \<and> live s Ls = U \<and> n \<le> card (set (Ls unused)))"

lemma pool_with_pool: "pool_with s U n \<Longrightarrow> pmm_pool s U"
  by (auto simp: pool_with_def pmm_pool_def)

lemma pool_with_mono: "pool_with s U n \<Longrightarrow> k \<le> n \<Longrightarrow> pool_with s U k"
  by (auto simp: pool_with_def intro: order_trans)

lemma pool_with_words [simp]: "pool_with (s\<lparr>words := w\<rparr>) U n = pool_with s U n"
  by (simp add: pool_with_def pmm_rep_def live_def pmm_links_def)

lemma pool_with_avail: "pool_with s U (Suc n) \<Longrightarrow> sub_avail part s"
proof -
  assume "pool_with s U (Suc n)"
  then obtain Ls where L: "pmm_rep s Ls" "Suc n \<le> card (set (Ls unused))" by (auto simp: pool_with_def)
  then have "Ls unused \<noteq> []" by auto
  then show ?thesis using head_empty [OF pmm_repD(1) [OF L(1)], of unused] by (simp add: sub_avail_def)
qed

lemma next_pool_with: "next_pool Ls s U \<Longrightarrow> Suc n \<le> card (set (Ls unused)) \<Longrightarrow> pool_with s U n"
  by (fastforce simp: next_pool_def pool_with_def)

lemma alloc_with:
  assumes "pool_with s U (Suc n)"
  shows "\<exists>p s'. pmm_allocate_page s = Inr (p, s') \<and> (Page, p) \<notin> U \<and> pool_with s' (insert (Page, p) U) n \<and>
      words s' = zero_words p (of_nat (usize Page)) (words s)"
    and "\<exists>p s'. pmm_allocate_l2_pagetable s = Inr (p, s') \<and> (L2PageTable, p) \<notin> U \<and> pool_with s' (insert (L2PageTable, p) U) n \<and>
      words s' = zero_words p (of_nat (usize L2PageTable)) (words s)"
proof -
  from assms obtain Ls where L: "pmm_rep s Ls" "live s Ls = U" "Suc n \<le> card (set (Ls unused))"
    by (auto simp: pool_with_def)
  note av = pool_with_avail [OF assms]
  show "\<exists>p s'. pmm_allocate_page s = Inr (p, s') \<and> (Page, p) \<notin> U \<and> pool_with s' (insert (Page, p) U) n \<and>
      words s' = zero_words p (of_nat (usize Page)) (words s)"
    using page_alloc_next [OF L(1,2) av] next_pool_with [where Ls = Ls, OF _ L(3)] by blast
  show "\<exists>p s'. pmm_allocate_l2_pagetable s = Inr (p, s') \<and> (L2PageTable, p) \<notin> U \<and> pool_with s' (insert (L2PageTable, p) U) n \<and>
      words s' = zero_words p (of_nat (usize L2PageTable)) (words s)"
    using l2_alloc_next [OF L(1,2) av] next_pool_with [where Ls = Ls, OF _ L(3)] by blast
qed

lemma units_whole:
  "usize t = 8192 \<Longrightarrow> \<not> reserved i \<Longrightarrow> mtype i = t \<Longrightarrow> units i = {(t, slice i)}"
  by (auto simp: units_def unit_set_def unit_at_def)

lemma l1_alloc_law:
  assumes "pmm_pool s U" and "heads s unused \<noteq> NULL"
  shows "\<exists>p s'. pmm_allocate_l1_pagetable s = Inr (p, s') \<and> (L1PageTable, p) \<notin> U \<and>
    pmm_pool s' (insert (L1PageTable, p) U) \<and> words s' = zero_words p (of_nat (usize L1PageTable)) (words s)"
proof -
  from assms(1) obtain Ls where rep: "pmm_rep s Ls" and U: "live s Ls = U" by (auto simp: pmm_pool_def)
  with assms(2) obtain x xs where x: "Ls unused = x # xs"
    using head_empty [OF pmm_repD(1) [OF rep], of unused] by (cases "Ls unused") auto
  have "units (i\<lparr>mtype := L1PageTable\<rparr>) = {(L1PageTable, slice i)} \<and> cls allocated (i\<lparr>mtype := L1PageTable\<rparr>)"
    if "\<not> reserved i" for i
    using that units_whole [of L1PageTable "i\<lparr>mtype := L1PageTable\<rparr>"] by (simp add: usize_def cls_def)
  from fresh_slice_ok [OF rep x payload_updates(1) this] obtain s1 s2 s3 i where
    r: "pop_from_ll s unused = Inr (x, s1)" "sput s1 x (\<lambda>i. i\<lparr>mtype := L1PageTable\<rparr>) = Inr s2"
      "push_to_ll s2 allocated x = Inr s3" "sget s3 x = Inr i"
    and q: "words s3 = words s" "(L1PageTable, slice i) \<notin> U" "next_pool Ls s3 (insert (L1PageTable, slice i) U)"
    unfolding U by blast
  have "pmm_allocate_l1_pagetable s = Inr (slice i, pmm_clear s3 (slice i) 8192)"
    using r assms(2) by (simp add: pmm_allocate_l1_pagetable_def)
  with q next_pool_pool [OF q(3)] show ?thesis
    by (intro exI [of _ "slice i"] exI [of _ "pmm_clear s3 (slice i) 8192"])
       (simp, simp add: pmm_clear_def usize_def)
qed

lemma page_release_law:
  "pmm_pool s U \<Longrightarrow> (Page, p) \<in> U \<Longrightarrow>
   \<exists>s'. pmm_free_page s p = Inr s' \<and> pmm_pool s' (U - {(Page, p)}) \<and> words s' = words s"
  using free_sub_ok [OF sub_kinds(1)] by (fastforce simp: pmm_pool_def pmm_free_page_def usize_def)

lemma l2_release_law:
  "pmm_pool s U \<Longrightarrow> (L2PageTable, p) \<in> U \<Longrightarrow>
   \<exists>s'. pmm_free_l2_pagetable s p = Inr s' \<and> pmm_pool s' (U - {(L2PageTable, p)}) \<and> words s' = words s"
  using free_sub_ok [OF sub_kinds(2)] by (fastforce simp: pmm_pool_def pmm_free_l2_pagetable_def usize_def)

lemma push_head: "push_to_ll s l e = Inr s' \<Longrightarrow> heads s' l = e"
  by (auto simp: push_to_ll_def sput_def bindE_Inr_iff split: if_splits)

lemma unused_prev_free:
  assumes links: "pmm_links s Ls" and x: "heads s unused = x" "x \<noteq> NULL"
  shows "pmm_links (s\<lparr>sinfo := (sinfo s)(x := (sinfo s x)\<lparr>sprev := q\<rparr>)\<rparr>) Ls"
proof -
  let ?s = "s\<lparr>sinfo := (sinfo s)(x := (sinfo s x)\<lparr>sprev := q\<rparr>)\<rparr>"
  note o = pmm_linksD [OF links]
  from o(3) [of unused] x(1) obtain p where d: "dseg (sinfo s) p x (Ls unused) NULL" by auto
  then have xl: "x \<in> set (Ls unused)" using x(2) by (cases "Ls unused") auto
  have 1: "dseg (sinfo ?s) q x (Ls unused) NULL"
    using dseg_change_prev [OF d o(1), of q] x(2) by simp
  have 2: "links_only s ?s {x}" by (simp add: links_only_def)
  have 3: "heads ?s = (heads s)(unused := x)" using x(1) by auto
  have "pmm_links ?s (Ls(unused := Ls unused))"
  proof (rule pmm_links_frame [OF links 2 3 1])
    show "set (Ls l') \<inter> ({x} \<union> set (Ls unused)) = {}" if "l' \<noteq> unused" for l'
      using o(2) [of l' unused] xl that by auto
  qed (use o(1) in auto)
  then show ?thesis by simp
qed

lemma l1_release_law:
  assumes "pmm_pool s U" and u: "(L1PageTable, p) \<in> U"
  shows "\<exists>s'. pmm_free_l1_pagetable s p = Inr s' \<and> pmm_pool s' (U - {(L1PageTable, p)}) \<and> words s' = words s"
proof -
  from assms(1) obtain Ls where rep: "pmm_rep s Ls" and U: "live s Ls = U" by (auto simp: pmm_pool_def)
  note D = pmm_repD [OF rep]
  from live_unit_struct [OF rep, of "(L1PageTable, p)"] u U obtain l x where
    x: "l \<noteq> unused" "x \<in> set (Ls l)" "(L1PageTable, p) \<in> units (sinfo s x)" "sliceinfo_or_fatal s p = Inr x"
      "\<not> reserved (sinfo s x)" "mtype (sinfo s x) = L1PageTable" by auto
  have l: "l = allocated" using D(2) [OF x(2)] x(1,6) by (cases l) (auto simp: cls_def)
  have un: "units (sinfo s x) = {(L1PageTable, p)}" "p = slice (sinfo s x)"
    using units_whole [of L1PageTable "sinfo s x"] x(3,5,6) by (auto simp: usize_def)
  then have pn: "p \<noteq> NULL" using D(3) [OF x(2)] by (simp add: geom_def)
  have xn: "x \<noteq> NULL" by (rule pmm_linksD(4) [OF D(1) x(2)])
  from remove_and_push [OF D(1) x(1,2) payload_updates(4)] xn obtain s1 s3 Ls' where
    r: "remove_element_ll s l x = Inr s1" "push_to_ll s1 unused x = Inr s3"
      "moved s Ls x unused (sinfo s x) s3 Ls'" "words s3 = words s"
    by (auto simp: sput_def) blast
  let ?s = "s3\<lparr>sinfo := (sinfo s3)(x := (sinfo s3 x)\<lparr>sprev := NULL\<rparr>)\<rparr>"
  have "pmm_links ?s Ls'"
    using r(3) push_head [OF r(2)] xn by (intro unused_prev_free) (simp_all add: moved_def)
  with r(3) have "moved s Ls x unused (sinfo s x) ?s Ls'" by (auto simp: moved_def)
  from moved_rep [OF rep x(2) this refl] x(5) l un(1) U have
    "pmm_pool ?s (U - {(L1PageTable, p)})" by (auto simp: cls_def pmm_pool_def)
  moreover have "pmm_free_l1_pagetable s p = Inr ?s"
    using pn x(4) r(1,2) l xn by (simp add: pmm_free_l1_pagetable_def sput_def)
  ultimately show ?thesis using r(4) by simp
qed

lemma pop_null: "heads s l = NULL \<Longrightarrow> pop_from_ll s l = Inl NullDeref"
  by (simp add: pop_from_ll_def sget_def)

interpretation pages: unit_pool pmm_pool words Page "sub_avail pagePartialFree" pmm_allocate_page pmm_free_page
  by unfold_locales
     (fact pmm_pool_disjoint page_alloc_law page_release_law |
      simp add: sub_avail_def pmm_allocate_page_def pop_null)+

interpretation l2_tables: unit_pool pmm_pool words L2PageTable "sub_avail l2ptPartialFree"
    pmm_allocate_l2_pagetable pmm_free_l2_pagetable
  by unfold_locales
     (fact pmm_pool_disjoint l2_alloc_law l2_release_law |
      simp add: sub_avail_def pmm_allocate_l2_pagetable_def pop_null)+

interpretation l1_tables: unit_pool pmm_pool words L1PageTable "\<lambda>s. heads s unused \<noteq> NULL"
    pmm_allocate_l1_pagetable pmm_free_l1_pagetable
  by unfold_locales
     (fact pmm_pool_disjoint l1_alloc_law l1_release_law | simp add: pmm_allocate_l1_pagetable_def)+

subsection \<open>Initialisation builds an empty pool\<close>

text \<open>The slice number \<open>m\<close>, and the address of its struct.\<close>

definition slice_at :: "u32 \<Rightarrow> nat \<Rightarrow> u32" where
  "slice_at start m = start + of_nat (8192 * m)"

definition info_at :: "u32 \<Rightarrow> nat \<Rightarrow> u32" where
  "info_at start m = start + of_nat (info_offset m)"

lemma info_offset_le: "info_offset m \<le> 8192 * m"
proof -
  have "m = 512 * (m div 512) + m mod 512" by simp
  then show ?thesis by (simp add: info_offset_def Let_def) linarith
qed

lemma start_plus:
  assumes "unat start + x < 2 ^ 32" "start \<noteq> NULL"
  shows "start + of_nat x \<noteq> NULL" "unat (start + of_nat x - start) = x"
proof -
  have x: "unat (of_nat x :: u32) = x" using assms(1) by (intro unat_of_nat_u32) simp
  with assms(1) have "unat (start + of_nat x) = unat start + x" by (subst unat_add_no_wrap) simp_all
  moreover have "unat start \<noteq> 0" using assms(2) by (metis unat_eq_zero)
  ultimately show "start + of_nat x \<noteq> NULL" by auto
  show "unat (start + of_nat x - start) = x" using x by simp
qed

lemma slice_at_facts:
  assumes "unat start + 8192 * m < 2 ^ 32" "start \<noteq> NULL"
  shows "slice_at start m \<noteq> NULL" "is_slice start (slice_at start m)" "slice_no start (slice_at start m) = m"
    "sliceinfo_address start (slice_at start m) = info_at start m" "info_at start m \<noteq> NULL"
proof -
  note p = start_plus [OF assms]
  show "slice_at start m \<noteq> NULL" unfolding slice_at_def by (rule p(1))
  show "is_slice start (slice_at start m)" unfolding slice_at_def is_slice_def p(2) by simp
  show n: "slice_no start (slice_at start m) = m" unfolding slice_at_def slice_no_def p(2) by simp
  show "sliceinfo_address start (slice_at start m) = info_at start m"
    by (simp add: sliceinfo_address_eq n info_at_def)
  show "info_at start m \<noteq> NULL"
    unfolding info_at_def using info_offset_le [of m] assms by (intro start_plus) simp_all
qed

text \<open>The structs of a bucket follow each other; those of the next bucket begin in its last slice.\<close>

lemma info_at_index:
  "info_at start m = info_at start (512 * (m div 512)) + of_nat (m mod 512) * sliceinfo_size"
proof -
  have "info_offset m = info_offset (512 * (m div 512)) + m mod 512 * 16"
    by (simp add: info_offset_def Let_def)
  then show ?thesis by (simp add: info_at_def sliceinfo_size_def)
qed

lemma info_at_next_bucket:
  assumes "m mod 512 = 511"
  shows "info_at start (512 * (Suc m div 512)) = slice_at start m"
proof -
  define b where "b = m div 512"
  have m: "m = 512 * b + 511" using assms unfolding b_def by (metis mult_div_mod_eq)
  have "Suc m div 512 = Suc b" by (simp add: m)
  moreover have "info_offset (512 * Suc b) = 8192 * m" by (simp add: info_offset_def Let_def m)
  ultimately show ?thesis by (simp add: info_at_def slice_at_def)
qed

lemma push_frame:
  "push_to_ll s l e = Inr s' \<Longrightarrow> a \<noteq> e \<Longrightarrow> a \<noteq> heads s l \<Longrightarrow> sinfo s' a = sinfo s a"
  by (auto simp: push_to_ll_def sput_def bindE_Inr_iff split: if_splits)

lemma pop_frame:
  "pop_from_ll s l = Inr (x, s') \<Longrightarrow> a \<noteq> heads s l \<Longrightarrow> a \<noteq> snext (sinfo s (heads s l)) \<Longrightarrow> sinfo s' a = sinfo s a"
  by (auto simp: pop_from_ll_def sput_def sget_def Let_def bindE_Inr_iff split: if_splits)

lemma list_heads:
  assumes "pmm_links s Ls"
  shows "heads s l = NULL \<or> heads s l \<in> set (Ls l)"
    "heads s l \<noteq> NULL \<Longrightarrow> snext (sinfo s (heads s l)) = NULL \<or> snext (sinfo s (heads s l)) \<in> set (Ls l)"
proof -
  from pmm_linksD(3) [OF assms, of l] obtain p where d: "dseg (sinfo s) p (heads s l) (Ls l) NULL" by blast
  then show "heads s l = NULL \<or> heads s l \<in> set (Ls l)" by (cases "Ls l") auto
  show "heads s l \<noteq> NULL \<Longrightarrow> snext (sinfo s (heads s l)) = NULL \<or> snext (sinfo s (heads s l)) \<in> set (Ls l)"
    using d by (cases "Ls l"; cases "tl (Ls l)") auto
qed

text \<open>A struct that was in no list is added to one.\<close>

lemma added_rep:
  assumes rep: "pmm_rep s Ls" and out: "\<And>l. x \<notin> set (Ls l)"
    and links: "pmm_links s' (Ls(l' := x # Ls l'))" and st: "pstart s' = pstart s"
    and cx: "core (sinfo s' x) = core j" and co: "\<And>a. a \<noteq> x \<Longrightarrow> core (sinfo s' a) = core (sinfo s a)"
    and j: "geom (pstart s) x j" "cls l' j"
  shows "pmm_rep s' (Ls(l' := x # Ls l'))"
    "live s' (Ls(l' := x # Ls l')) = live s Ls \<union> (if l' = unused then {} else units j)"
proof -
  let ?L = "Ls(l' := x # Ls l')"
  note D = pmm_repD [OF rep]
  have "cls k (sinfo s' a) \<and> geom (pstart s') a (sinfo s' a)" if a: "a \<in> set (?L k)" for k a
  proof (cases "a = x")
    case True
    then have "k = l'" using a out by (auto split: if_splits)
    with True show ?thesis using cls_core [OF cx] geom_core [OF cx] j st by simp
  next
    case False
    then have "a \<in> set (Ls k)" using a by (auto split: if_splits)
    then show ?thesis using cls_core [OF co [OF False]] geom_core [OF co [OF False]] D(2,3) st by simp
  qed
  with links st D(4) show "pmm_rep s' ?L" by (simp add: pmm_rep_def)
  have old: "units (sinfo s' a) = units (sinfo s a)" if "a \<in> set (Ls k)" for a k
    using units_core [OF co] out that by metis
  have sets: "set (?L k) = set (Ls k) \<union> (if k = l' then {x} else {})" for k by auto
  have "live s' ?L = (\<Union>k \<in> {k. k \<noteq> unused}. \<Union>a \<in> set (Ls k). units (sinfo s' a)) \<union>
      (if l' = unused then {} else units (sinfo s' x))"
    unfolding live_def sets by (auto split: if_splits)
  also have "(\<Union>k \<in> {k. k \<noteq> unused}. \<Union>a \<in> set (Ls k). units (sinfo s' a)) = live s Ls"
    unfolding live_def using old by (intro SUP_cong refl) blast
  finally show "live s' ?L = live s Ls \<union> (if l' = unused then {} else units j)"
    by (simp only: units_core [OF cx])
qed

text \<open>
  The invariant of the loop of \<open>pmm_init\<close> before slice \<open>m\<close>: a pool over the slices below \<open>m\<close>, and
  the structs that are in no list are as RAM was.
\<close>

definition init_inv ::
    "(ptr \<Rightarrow> MemorySliceInfo) \<Rightarrow> u32 \<Rightarrow> nat \<Rightarrow> unit_id set \<Rightarrow> PhysicalMemoryManager \<Rightarrow> (pmm_list \<Rightarrow> ptr list) \<Rightarrow> bool" where
  "init_inv ram start m B s Ls \<longleftrightarrow>
     pmm_rep s Ls \<and> live s Ls = B \<and> pstart s = start \<and>
     (\<forall>l. \<forall>a \<in> set (Ls l). slice_no start (slice (sinfo s a)) < m) \<and>
     (\<forall>a. a \<noteq> NULL \<longrightarrow> (\<forall>l. a \<notin> set (Ls l)) \<longrightarrow> sinfo s a = ram a)"

lemma init_add_slice:
  assumes inv: "init_inv ram start m B s Ls" and m: "unat start + 8192 * m < 2 ^ 32" "start \<noteq> NULL"
    and ram: "\<forall>a. \<not> reserved (ram a) \<and> sprev (ram a) = NULL"
  shows "\<exists>s1 s'. sput s (info_at start m) (\<lambda>x. x\<lparr>slice := slice_at start m\<rparr>) = Inr s1 \<and>
     (if address_in_reserved_region hw (slice_at start m)
      then bindE (sput s1 (info_at start m) (\<lambda>x. x\<lparr>reserved := True\<rparr>)) (\<lambda>s. push_to_ll s allocated (info_at start m))
      else push_to_ll s1 unused (info_at start m)) = Inr s' \<and>
     (\<exists>l. l = (if address_in_reserved_region hw (slice_at start m) then allocated else unused) \<and>
       init_inv ram start (Suc m) B s' (Ls(l := info_at start m # Ls l)) \<and>
       slice (sinfo s' (info_at start m)) = slice_at start m)"
proof -
  let ?x = "info_at start m" and ?sl = "slice_at start m"
  let ?res = "address_in_reserved_region hw ?sl"
  let ?l = "if ?res then allocated else unused"
  define g where "g = (\<lambda>i :: MemorySliceInfo. if ?res then i\<lparr>slice := ?sl, reserved := True\<rparr> else i\<lparr>slice := ?sl\<rparr>)"
  note F = slice_at_facts [OF m]
  have rep: "pmm_rep s Ls" and st: "pstart s = start" and B: "live s Ls = B"
    and below: "\<And>l a. a \<in> set (Ls l) \<Longrightarrow> slice_no start (slice (sinfo s a)) < m"
    and frame: "\<And>a. a \<noteq> NULL \<Longrightarrow> \<forall>l. a \<notin> set (Ls l) \<Longrightarrow> sinfo s a = ram a"
    using inv by (auto simp: init_inv_def)
  note D = pmm_repD [OF rep]
  have out: "?x \<notin> set (Ls l)" for l
  proof
    assume a: "?x \<in> set (Ls l)"
    then have "sliceinfo_address start (slice (sinfo s ?x)) = sliceinfo_address start ?sl"
      using D(3) [OF a] st F(4) by (simp add: geom_def)
    with below [OF a] F(3) show False by (simp add: sliceinfo_address_slice_no)
  qed
  have sx: "sinfo s ?x = ram ?x" using frame [OF F(5)] out by blast
  let ?s2 = "s\<lparr>sinfo := (sinfo s)(?x := g (sinfo s ?x))\<rparr>"
  have links2: "pmm_links ?s2 Ls" by (rule pmm_sput_links [OF D(1)]) (simp add: g_def)
  have "sprev (sinfo ?s2 ?x) = NULL" using ram sx by (simp add: g_def)
  from pmm_push_ok [OF links2 F(5) out, of ?l] this obtain s' where
    s': "push_to_ll ?s2 ?l ?x = Inr s'" "pmm_links s' (Ls(?l := ?x # Ls ?l))" "same_core ?s2 s'" by blast
  have co: "core (sinfo s' a) = core (sinfo s a)" if "a \<noteq> ?x" for a using s'(3) that by (simp add: same_core_def)
  have cx: "core (sinfo s' ?x) = core (g (sinfo s ?x))" using s'(3) by (simp add: same_core_def)
  have st': "pstart s' = start" using s'(3) st by (simp add: same_core_def)
  have gj: "geom (pstart s) ?x (g (sinfo s ?x))" using F(1,2,4) by (simp add: geom_def g_def st)
  have cj: "cls ?l (g (sinfo s ?x))" using ram sx by (simp add: cls_def g_def)
  note A = added_rep [OF rep out s'(2) _ cx co gj cj] 
  have rep': "pmm_rep s' (Ls(?l := ?x # Ls ?l))" using A(1) st st' by simp
  have live': "live s' (Ls(?l := ?x # Ls ?l)) = B"
    using A(2) st st' B by (simp add: g_def units_def split: if_splits)
  have slx: "slice (sinfo s' ?x) = ?sl" using cx by (simp add: core_def g_def split: if_splits)
  have "slice_no start (slice (sinfo s' a)) < Suc m" if "a \<in> set ((Ls(?l := ?x # Ls ?l)) l)" for l a
  proof (cases "a = ?x")
    case False
    then have "a \<in> set (Ls l)" using that by (auto split: if_splits)
    with below [of a l] co [OF False] show ?thesis by (simp add: core_def)
  qed (simp add: slx F(3))
  moreover have "sinfo s' a = ram a" if "a \<noteq> NULL" "\<forall>l. a \<notin> set ((Ls(?l := ?x # Ls ?l)) l)" for a
  proof -
    have n: "a \<noteq> ?x" "\<forall>l. a \<notin> set (Ls l)" using that(2) by (auto split: if_splits)
    then have "a \<noteq> heads ?s2 ?l" using list_heads(1) [OF links2, of ?l] that(1) by auto
    with push_frame [OF s'(1) n(1)] frame [OF that(1) n(2)] n(1) show ?thesis by simp
  qed
  ultimately have "init_inv ram start (Suc m) B s' (Ls(?l := ?x # Ls ?l))"
    using rep' live' st' by (auto simp: init_inv_def)
  moreover have "(if ?res then bindE (sput (s\<lparr>sinfo := (sinfo s)(?x := (sinfo s ?x)\<lparr>slice := ?sl\<rparr>)\<rparr>) ?x (\<lambda>x. x\<lparr>reserved := True\<rparr>))
        (\<lambda>s. push_to_ll s allocated ?x) else push_to_ll (s\<lparr>sinfo := (sinfo s)(?x := (sinfo s ?x)\<lparr>slice := ?sl\<rparr>)\<rparr>) unused ?x) = Inr s'"
    using s'(1) F(5) by (cases ?res) (simp_all add: sput_def g_def)
  moreover have "sput s ?x (\<lambda>x. x\<lparr>slice := ?sl\<rparr>) = Inr (s\<lparr>sinfo := (sinfo s)(?x := (sinfo s ?x)\<lparr>slice := ?sl\<rparr>)\<rparr>)"
    using F(5) by (simp add: sput_def)
  ultimately show ?thesis using slx by blast
qed

lemma init_new_bucket:
  assumes inv: "init_inv ram start m B s Ls" and x: "Ls unused = x # xs"
  shows "\<exists>s' Ls'. pmm_new_sliceinfo_slice s = Inr (x, s') \<and> sget s' x = Inr (sinfo s' x) \<and>
     slice (sinfo s' x) = slice (sinfo s x) \<and>
     init_inv ram start m (insert (BucketInfo, slice (sinfo s x)) B) s' Ls' \<and>
     set (Ls' unused) = set (Ls unused) - {x}"
proof -
  let ?f = "\<lambda>i :: MemorySliceInfo. i\<lparr>mtype := BucketInfo, filled := 0\<rparr>"
  have rep: "pmm_rep s Ls" and st: "pstart s = start" and B: "live s Ls = B"
    and below: "\<And>l a. a \<in> set (Ls l) \<Longrightarrow> slice_no start (slice (sinfo s a)) < m"
    and frame: "\<And>a. a \<noteq> NULL \<Longrightarrow> \<forall>l. a \<notin> set (Ls l) \<Longrightarrow> sinfo s a = ram a"
    using inv by (auto simp: init_inv_def)
  note D = pmm_repD [OF rep]
  have xl: "x \<in> set (Ls unused)" by (simp add: x)
  have hx: "heads s unused = x" by (rule head_hd [OF D(1) x])
  from take_unused [OF D(1) x payload_updates(2), where l' = allocated] obtain s1 s2 s3 Ls' where
    r: "pop_from_ll s unused = Inr (x, s1)" "sput s1 x ?f = Inr s2" "push_to_ll s2 allocated x = Inr s3"
      "core (sinfo s3 x) = core (?f (sinfo s x))" "x \<noteq> NULL" "moved s Ls x allocated (?f (sinfo s x)) s3 Ls'" by blast
  from pmm_pop_ok [OF D(1) x] r(1) have links1: "pmm_links s1 (Ls(unused := xs))" by auto
  have s2: "s2 = s1\<lparr>sinfo := (sinfo s1)(x := ?f (sinfo s1 x))\<rparr>" using r(2,5) by (simp add: sput_def)
  have cls: "cls allocated (?f (sinfo s x))" by (simp add: cls_def)
  have un: "units (?f (sinfo s x)) = {(BucketInfo, slice (sinfo s x))}"
    using D(2) [OF xl] by (subst units_whole [of BucketInfo]) (simp_all add: usize_def cls_def)
  note R = moved_rep [OF rep xl r(6) _ cls]
  have rep': "pmm_rep s3 Ls'" "live s3 Ls' = insert (BucketInfo, slice (sinfo s x)) B" using R un B by auto
  have st': "pstart s3 = start" and co: "\<And>a. slice (sinfo s3 a) = slice (sinfo s a)"
    and sets: "\<And>k. set (Ls' k) = set (Ls k) - {x} \<union> (if k = allocated then {x} else {})"
    using r(6) st by (auto simp: moved_def core_def)
  have "slice_no start (slice (sinfo s3 a)) < m" if "a \<in> set (Ls' l)" for l a
    using that below [of a l] below [OF xl] unfolding co sets by (auto split: if_splits)
  moreover have "sinfo s3 a = ram a" if a: "a \<noteq> NULL" "\<forall>l. a \<notin> set (Ls' l)" for a
  proof -
    have ax: "a \<noteq> x" using a(2) sets [of allocated] by auto
    then have n: "\<forall>l. a \<notin> set (Ls l)" using a(2) sets by auto
    have "sinfo s3 a = sinfo s2 a"
    proof (rule push_frame [OF r(3) ax])
      have "heads s2 allocated = heads s1 allocated" by (simp add: s2)
      then show "a \<noteq> heads s2 allocated" using list_heads(1) [OF links1, of allocated] n a(1) by auto
    qed
    also have "\<dots> = sinfo s1 a" using ax by (simp add: s2)
    also have "\<dots> = sinfo s a"
      using list_heads(2) [OF D(1), of unused] hx r(5) n a(1) ax by (intro pop_frame [OF r(1)]) auto
    finally show ?thesis using frame [OF a(1) n] by simp
  qed
  ultimately have "init_inv ram start m (insert (BucketInfo, slice (sinfo s x)) B) s3 Ls'"
    using rep' st' by (auto simp: init_inv_def)
  moreover have "pmm_new_sliceinfo_slice s = Inr (x, s3)"
    using r(1,2,3) by (simp add: pmm_new_sliceinfo_slice_def)
  moreover have "sget s3 x = Inr (sinfo s3 x)" using r(5) by (simp add: sget_def)
  moreover have "set (Ls' unused) = set (Ls unused) - {x}" using sets [of unused] by simp
  ultimately show ?thesis using co by blast
qed

definition new_buckets :: "u32 \<Rightarrow> nat \<Rightarrow> nat \<Rightarrow> unit_id set" where
  "new_buckets start m n = (\<lambda>k. (BucketInfo, slice_at start k)) ` {k. m \<le> k \<and> k < m + n \<and> k mod 512 = 511}"

lemma new_buckets_Suc:
  "new_buckets start m (Suc n) =
     (if m mod 512 = 511 then insert (BucketInfo, slice_at start m) (new_buckets start (Suc m) n)
      else new_buckets start (Suc m) n)"
proof -
  have "{k. m \<le> k \<and> k < m + Suc n \<and> k mod 512 = 511} =
      (if m mod 512 = 511 then insert m {k. Suc m \<le> k \<and> k < Suc m + n \<and> k mod 512 = 511}
       else {k. Suc m \<le> k \<and> k < Suc m + n \<and> k mod 512 = 511})"
    by (auto simp: le_eq_less_or_eq)
  then show ?thesis by (simp add: new_buckets_def)
qed

text \<open>Before slice \<open>m\<close>, all slices but the buckets' are on the unused list, if none is reserved.\<close>

definition stocked :: "(pmm_list \<Rightarrow> ptr list) \<Rightarrow> nat \<Rightarrow> bool" where
  "stocked Ls m \<longleftrightarrow> m \<le> card (set (Ls unused)) + m div 512 + 1"

lemma pmm_init_loop_ok:
  assumes "init_inv ram start m B s Ls" and "unat start + 8192 * (m + n) < 2 ^ 32" and "start \<noteq> NULL"
    and ram: "\<forall>a. \<not> reserved (ram a) \<and> sprev (ram a) = NULL"
    and "\<forall>k. m \<le> k \<and> k < m + n \<and> k mod 512 = 511 \<longrightarrow> \<not> address_in_reserved_region hw (slice_at start k)"
  shows "\<exists>s' Ls'. pmm_init_loop hw s (info_at start (512 * (m div 512))) (of_nat (m mod 512)) (slice_at start m) n = Inr s' \<and>
     init_inv ram start (m + n) (B \<union> new_buckets start m n) s' Ls' \<and>
     ((\<forall>k. m \<le> k \<and> k < m + n \<longrightarrow> \<not> address_in_reserved_region hw (slice_at start k)) \<longrightarrow> stocked Ls m \<longrightarrow> stocked Ls' (m + n))"
  using assms(1-3,5)
proof (induction n arbitrary: m B s Ls)
  case 0
  have "new_buckets start m 0 = {}" by (auto simp: new_buckets_def)
  with 0 show ?case by auto
next
  case (Suc n)
  let ?x = "info_at start m" and ?sl = "slice_at start m"
  have m: "unat start + 8192 * m < 2 ^ 32" using Suc.prems(2) by simp
  from init_add_slice [OF Suc.prems(1) m Suc.prems(3) ram, of hw] obtain s1 s2 l where
    a: "sput s ?x (\<lambda>x. x\<lparr>slice := ?sl\<rparr>) = Inr s1"
      "(if address_in_reserved_region hw ?sl
        then bindE (sput s1 ?x (\<lambda>x. x\<lparr>reserved := True\<rparr>)) (\<lambda>s. push_to_ll s allocated ?x)
        else push_to_ll s1 unused ?x) = Inr s2"
    and l: "l = (if address_in_reserved_region hw ?sl then allocated else unused)"
    and inv2: "init_inv ram start (Suc m) B s2 (Ls(l := ?x # Ls l))" and sl2: "slice (sinfo s2 ?x) = ?sl" by blast
  have next_i: "?sl + slice_size = slice_at start (Suc m)" by (simp add: slice_at_def slice_size_def algebra_simps)
  have lt: "m mod 512 < 512" by simp
  have ge: "of_nat (m mod 512) + 1 \<ge> SLICEINFO_PER_SLICE \<longleftrightarrow> m mod 512 = 511"
  proof -
    have "unat (of_nat (Suc (m mod 512)) :: u32) = Suc (m mod 512)" using lt by (intro unat_of_nat_u32) linarith
    then have "unat (of_nat (m mod 512) + 1 :: u32) = Suc (m mod 512)" by (simp add: add.commute)
    then show ?thesis using lt by (simp add: SLICEINFO_PER_SLICE_def word_le_nat_alt) linarith
  qed
  have pre: "unat start + 8192 * (Suc m + n) < 2 ^ 32" using Suc.prems(2) by simp
  have nores: "\<forall>k. Suc m \<le> k \<and> k < Suc m + n \<and> k mod 512 = 511 \<longrightarrow> \<not> address_in_reserved_region hw (slice_at start k)"
    using Suc.prems(4) by auto
  have unfold: "pmm_init_loop hw s (info_at start (512 * (m div 512))) (of_nat (m mod 512)) ?sl (Suc n) =
      (if m mod 512 = 511
       then bindE (pmm_new_sliceinfo_slice s2) (\<lambda>(si, s). bindE (sget s si) (\<lambda>x.
              pmm_init_loop hw s (slice x) 0 (slice_at start (Suc m)) n))
       else pmm_init_loop hw s2 (info_at start (512 * (m div 512))) (of_nat (m mod 512) + 1) (slice_at start (Suc m)) n)"
    by (simp only: pmm_init_loop.simps Let_def info_at_index [symmetric] a bindE.simps next_i ge)
  have card2: "card (set ((Ls(l := ?x # Ls l)) unused)) = Suc (card (set (Ls unused)))" if "l = unused"
    using pmm_linksD(1) [OF pmm_repD(1), of s2 "Ls(l := ?x # Ls l)" unused] inv2 that by (simp add: init_inv_def)
  have all: "\<forall>k. Suc m \<le> k \<and> k < Suc m + n \<longrightarrow> \<not> address_in_reserved_region hw (slice_at start k)" "l = unused"
    if "\<forall>k. m \<le> k \<and> k < m + Suc n \<longrightarrow> \<not> address_in_reserved_region hw (slice_at start k)"
    using that l by auto
  show ?case
  proof (cases "m mod 512 = 511")
    case False
    then have d: "Suc m div 512 = m div 512" "Suc m mod 512 = Suc (m mod 512)"
      using lt by (simp_all add: div_Suc mod_Suc)
    have st: "stocked Ls m \<Longrightarrow> l = unused \<Longrightarrow> stocked (Ls(l := ?x # Ls l)) (Suc m)"
      using card2 by (simp add: stocked_def d)
    from Suc.IH [OF inv2 pre Suc.prems(3) nores] obtain s' Ls' where
      r: "pmm_init_loop hw s2 (info_at start (512 * (Suc m div 512))) (of_nat (Suc m mod 512)) (slice_at start (Suc m)) n = Inr s'"
        "init_inv ram start (Suc m + n) (B \<union> new_buckets start (Suc m) n) s' Ls'"
        "(\<forall>k. Suc m \<le> k \<and> k < Suc m + n \<longrightarrow> \<not> address_in_reserved_region hw (slice_at start k)) \<longrightarrow>
         stocked (Ls(l := ?x # Ls l)) (Suc m) \<longrightarrow> stocked Ls' (Suc m + n)" by blast
    have "stocked Ls' (m + Suc n)" if
      "\<forall>k. m \<le> k \<and> k < m + Suc n \<longrightarrow> \<not> address_in_reserved_region hw (slice_at start k)" "stocked Ls m"
      using r(3) all [OF that(1)] st [OF that(2)] by simp
    with r(1,2) False show ?thesis
      unfolding unfold d new_buckets_Suc by (intro exI [of _ s'] exI [of _ Ls']) (simp add: add.commute)
  next
    case True
    then have "\<not> address_in_reserved_region hw ?sl" using Suc.prems(4) by auto
    then have "(Ls(l := ?x # Ls l)) unused = ?x # Ls unused" using l by simp
    from init_new_bucket [OF inv2 this] sl2 obtain s3 Ls3 where
      b: "pmm_new_sliceinfo_slice s2 = Inr (?x, s3)" "sget s3 ?x = Inr (sinfo s3 ?x)" "slice (sinfo s3 ?x) = ?sl"
        "init_inv ram start (Suc m) (insert (BucketInfo, ?sl) B) s3 Ls3"
        "set (Ls3 unused) = set ((Ls(l := ?x # Ls l)) unused) - {?x}" by auto
    have d: "Suc m mod 512 = 0" "Suc m div 512 = Suc (m div 512)" using True by (simp_all add: mod_Suc div_Suc)
    have st: "stocked Ls3 (Suc m)" if "stocked Ls m" "l = unused"
    proof -
      have "card (set (Ls3 unused)) = card (set ((Ls(l := ?x # Ls l)) unused)) - 1"
        unfolding b(5) using that(2) by (intro card_Diff_singleton) simp
      then show ?thesis using that card2 [OF that(2)] by (simp add: stocked_def d)
    qed
    from Suc.IH [OF b(4) pre Suc.prems(3) nores] obtain s' Ls' where
      r: "pmm_init_loop hw s3 (info_at start (512 * (Suc m div 512))) (of_nat (Suc m mod 512)) (slice_at start (Suc m)) n = Inr s'"
        "init_inv ram start (Suc m + n) (insert (BucketInfo, ?sl) B \<union> new_buckets start (Suc m) n) s' Ls'"
        "(\<forall>k. Suc m \<le> k \<and> k < Suc m + n \<longrightarrow> \<not> address_in_reserved_region hw (slice_at start k)) \<longrightarrow>
         stocked Ls3 (Suc m) \<longrightarrow> stocked Ls' (Suc m + n)" by blast
    have "stocked Ls' (m + Suc n)" if
      "\<forall>k. m \<le> k \<and> k < m + Suc n \<longrightarrow> \<not> address_in_reserved_region hw (slice_at start k)" "stocked Ls m"
      using r(3) all [OF that(1)] st [OF that(2)] by simp
    with r(1,2) True b(1-3) show ?thesis
      unfolding unfold d(1) info_at_next_bucket [OF True] new_buckets_Suc
      by (intro exI [of _ s'] exI [of _ Ls']) simp
  qed
qed

lemma init_first_slice:
  assumes "start \<noteq> NULL" "\<not> reserved (ram start)" "unat start mod 8192 = 0"
  shows "init_inv ram start 1 {(BucketInfo, start)}
     \<lparr>sinfo = ram(start := (ram start)\<lparr>snext := NULL, sprev := NULL, mtype := BucketInfo, slice := start, filled := 1\<rparr>),
      heads = (\<lambda>_. NULL)(allocated := start), pstart = start, pend = fin, words = ws\<rparr> ((\<lambda>_. [])(allocated := [start]))"
    (is "init_inv _ _ _ _ ?s ?L")
proof -
  have z: "sliceinfo_address start start = start" "is_slice start start" "slice_no start start = 0"
    by (simp_all add: sliceinfo_address_eq slice_no_def info_offset_def is_slice_def)
  have "pmm_links ?s ?L" using assms(1) by (auto simp: pmm_links_def)
  then have "pmm_rep ?s ?L" using assms z by (auto simp: pmm_rep_def cls_def geom_def)
  moreover have "live ?s ?L = units (sinfo ?s start)" by (auto simp: live_def split: if_splits)
  moreover have "units (sinfo ?s start) = {(BucketInfo, start)}"
    using assms(2) by (subst units_whole [of BucketInfo]) (simp_all add: usize_def)
  ultimately show ?thesis using z(3) by (auto simp: init_inv_def)
qed

lemma pmm_init_lists:
  assumes start: "start \<noteq> NULL" and align: "unat start mod 8192 = 0" and fit: "unat start + 8192 * Suc (pmm_init_rounds start fin) < 2 ^ 32"
    and ram: "\<forall>a. \<not> reserved (ram a) \<and> sprev (ram a) = NULL"
    and mmio: "\<forall>k. k mod 512 = 511 \<and> k < Suc (pmm_init_rounds start fin) \<longrightarrow>
      \<not> address_in_reserved_region hw (slice_at start k)"
  shows "\<exists>s Ls. pmm_init hw ram ws start fin = Inr s \<and> pmm_rep s Ls \<and>
    live s Ls = insert (BucketInfo, start) (new_buckets start 1 (pmm_init_rounds start fin)) \<and>
    ((\<forall>k < Suc (pmm_init_rounds start fin). \<not> address_in_reserved_region hw (slice_at start k)) \<longrightarrow>
     stocked Ls (Suc (pmm_init_rounds start fin)))"
proof -
  let ?n = "pmm_init_rounds start fin"
  let ?s = "\<lparr>sinfo = ram(start := (ram start)\<lparr>snext := NULL, sprev := NULL, mtype := BucketInfo, slice := start, filled := 1\<rparr>),
      heads = (\<lambda>_. NULL)(allocated := start), pstart = start, pend = fin, words = ws\<rparr>"
  let ?L = "(\<lambda>_. [])(allocated := [start])"
  have "\<not> reserved (ram start)" using ram by simp
  note first = init_first_slice [where ram = ram, OF start this align, of fin ws]
  have e: "info_at start (512 * (1 div 512)) = start" "slice_at start 1 = start + slice_size"
    "of_nat (1 mod 512) = (1 :: u32)"
    by (simp_all add: info_at_def info_offset_def slice_at_def slice_size_def)
  have "unat start + 8192 * (1 + ?n) < 2 ^ 32" using fit by simp
  from pmm_init_loop_ok [OF first this start ram, of hw, unfolded e] mmio obtain s' Ls' where
    r: "pmm_init_loop hw ?s start 1 (start + slice_size) ?n = Inr s'"
      "init_inv ram start (1 + ?n) ({(BucketInfo, start)} \<union> new_buckets start 1 ?n) s' Ls'"
      "(\<forall>k. 1 \<le> k \<and> k < 1 + ?n \<longrightarrow> \<not> address_in_reserved_region hw (slice_at start k)) \<longrightarrow> stocked ?L 1 \<longrightarrow> stocked Ls' (1 + ?n)"
    by auto
  have "stocked ?L 1" by (simp add: stocked_def)
  then have "(\<forall>k < Suc ?n. \<not> address_in_reserved_region hw (slice_at start k)) \<longrightarrow> stocked Ls' (Suc ?n)" using r(3) by auto
  moreover have "pmm_init hw ram ws start fin = Inr s'" using r(1) start fit by (simp add: pmm_init_def Let_def)
  ultimately show ?thesis using r(2) by (auto simp: init_inv_def)
qed

lemma pmm_init_pool:
  assumes start: "start \<noteq> NULL" and align: "unat start mod 8192 = 0" and fit: "unat start + 8192 * Suc (pmm_init_rounds start fin) < 2 ^ 32"
    and ram: "\<forall>a. \<not> reserved (ram a) \<and> sprev (ram a) = NULL"
    and mmio: "\<forall>k. k mod 512 = 511 \<and> k < Suc (pmm_init_rounds start fin) \<longrightarrow>
      \<not> address_in_reserved_region hw (slice_at start k)"
  shows "\<exists>s. pmm_init hw ram ws start fin = Inr s \<and>
    pmm_pool s (insert (BucketInfo, start) (new_buckets start 1 (pmm_init_rounds start fin)))"
  using pmm_init_lists [OF assms, of ws] unfolding pmm_pool_def by blast

text \<open>With no reserved slice, all but one in 512 can be handed out.\<close>

lemma pmm_init_with:
  assumes start: "start \<noteq> NULL" and align: "unat start mod 8192 = 0" and fit: "unat start + 8192 * Suc (pmm_init_rounds start fin) < 2 ^ 32"
    and ram: "\<forall>a. \<not> reserved (ram a) \<and> sprev (ram a) = NULL"
    and free: "\<forall>k < Suc (pmm_init_rounds start fin). \<not> address_in_reserved_region hw (slice_at start k)"
    and n: "n + Suc (pmm_init_rounds start fin) div 512 \<le> pmm_init_rounds start fin"
  shows "\<exists>s. pmm_init hw ram ws start fin = Inr s \<and>
    pool_with s (insert (BucketInfo, start) (new_buckets start 1 (pmm_init_rounds start fin))) n"
proof -
  have mmio: "\<forall>k. k mod 512 = 511 \<and> k < Suc (pmm_init_rounds start fin) \<longrightarrow> \<not> address_in_reserved_region hw (slice_at start k)"
    using free by blast
  from pmm_init_lists [OF start align fit ram mmio] free obtain s Ls where
    "pmm_init hw ram ws start fin = Inr s" "pmm_rep s Ls"
    "live s Ls = insert (BucketInfo, start) (new_buckets start 1 (pmm_init_rounds start fin))"
    "stocked Ls (Suc (pmm_init_rounds start fin))" by blast
  moreover from this(4) n have "n \<le> card (set (Ls unused))" unfolding stocked_def by linarith
  ultimately show ?thesis by (auto simp: pool_with_def)
qed

text \<open>No operation but the initialisation changes which slice a struct describes.\<close>

lemma slices_kept_steps:
  "sput p x f = Inr p' \<Longrightarrow> (\<And>i. slice (f i) = slice i) \<Longrightarrow> slice (sinfo p' y) = slice (sinfo p y)"
  "push_to_ll p l x = Inr p' \<Longrightarrow> slice (sinfo p' y) = slice (sinfo p y)"
  "pop_from_ll p l = Inr (x, p') \<Longrightarrow> slice (sinfo p' y) = slice (sinfo p y)"
  by (auto simp: sput_def push_to_ll_def pop_from_ll_def sget_def Let_def bindE_Inr_iff split: if_splits)

lemma pmm_init_loop_slices:
  "pmm_init_loop hw s c k i n = Inr s' \<Longrightarrow>
   slice (sinfo s' x) = slice (sinfo s x) \<or> (\<exists>j < n. slice (sinfo s' x) = slice_at i j)"
proof (induction n arbitrary: s c k i)
  case (Suc n)
  have at: "slice_at (i + slice_size) j = slice_at i (Suc j)" for j by (simp add: slice_at_def slice_size_def algebra_simps)
  have put: "sput s y (\<lambda>z. z\<lparr>slice := i\<rparr>) = Inr s1 \<Longrightarrow> slice (sinfo s1 x) = slice (sinfo s x) \<or> slice (sinfo s1 x) = i" for s1 y
    by (auto simp: sput_def split: if_splits)
  have new: "pmm_new_sliceinfo_slice s1 = Inr (y, s2) \<Longrightarrow> slice (sinfo s2 x) = slice (sinfo s1 x)" for s1 y s2
    unfolding pmm_new_sliceinfo_slice_def
    by (auto simp: bindE_Inr_iff dest!: slices_kept_steps(2,3) [where y = x] slices_kept_steps(1) [where y = x])
  from Suc.prems obtain s1 s2 where
    s1: "sput s (c + k * sliceinfo_size) (\<lambda>z. z\<lparr>slice := i\<rparr>) = Inr s1"
    and s2: "(if address_in_reserved_region hw i
         then bindE (sput s1 (c + k * sliceinfo_size) (\<lambda>z. z\<lparr>reserved := True\<rparr>)) (\<lambda>s. push_to_ll s allocated (c + k * sliceinfo_size))
         else push_to_ll s1 unused (c + k * sliceinfo_size)) = Inr s2"
    and rest: "\<exists>s3 c' k'. slice (sinfo s3 x) = slice (sinfo s2 x) \<and> pmm_init_loop hw s3 c' k' (i + slice_size) n = Inr s'"
  proof -
    from Suc.prems have "bindE (sput s (c + k * sliceinfo_size) (\<lambda>z. z\<lparr>slice := i\<rparr>)) (\<lambda>s. bindE
        (if address_in_reserved_region hw i
         then bindE (sput s (c + k * sliceinfo_size) (\<lambda>z. z\<lparr>reserved := True\<rparr>)) (\<lambda>s. push_to_ll s allocated (c + k * sliceinfo_size))
         else push_to_ll s unused (c + k * sliceinfo_size)) (\<lambda>s.
        if k + 1 \<ge> SLICEINFO_PER_SLICE
        then bindE (pmm_new_sliceinfo_slice s) (\<lambda>(si, s). bindE (sget s si) (\<lambda>z. pmm_init_loop hw s (slice z) 0 (i + slice_size) n))
        else pmm_init_loop hw s c (k + 1) (i + slice_size) n)) = Inr s'"
      by (simp only: pmm_init_loop.simps Let_def)
    then obtain s1 s2 where s: "sput s (c + k * sliceinfo_size) (\<lambda>z. z\<lparr>slice := i\<rparr>) = Inr s1"
      "(if address_in_reserved_region hw i
         then bindE (sput s1 (c + k * sliceinfo_size) (\<lambda>z. z\<lparr>reserved := True\<rparr>)) (\<lambda>s. push_to_ll s allocated (c + k * sliceinfo_size))
         else push_to_ll s1 unused (c + k * sliceinfo_size)) = Inr s2"
      "(if k + 1 \<ge> SLICEINFO_PER_SLICE
        then bindE (pmm_new_sliceinfo_slice s2) (\<lambda>(si, s). bindE (sget s si) (\<lambda>z. pmm_init_loop hw s (slice z) 0 (i + slice_size) n))
        else pmm_init_loop hw s2 c (k + 1) (i + slice_size) n) = Inr s'"
      by (elim bindE_InrE) blast
    have "\<exists>s3 c' k'. slice (sinfo s3 x) = slice (sinfo s2 x) \<and> pmm_init_loop hw s3 c' k' (i + slice_size) n = Inr s'"
    proof (cases "k + 1 \<ge> SLICEINFO_PER_SLICE")
      case True
      with s(3) obtain y s3 and z :: MemorySliceInfo where "pmm_new_sliceinfo_slice s2 = Inr (y, s3)" "pmm_init_loop hw s3 (slice z) 0 (i + slice_size) n = Inr s'"
        by (auto simp: bindE_Inr_iff)
      then show ?thesis using new by blast
    qed (use s(3) in auto)
    with s(1,2) show ?thesis by (rule that)
  qed
  have "slice (sinfo s2 x) = slice (sinfo s1 x)"
    using s2 by (auto simp: bindE_Inr_iff split: if_splits dest!: slices_kept_steps(2) [where y = x] slices_kept_steps(1) [where y = x])
  then have "slice (sinfo s2 x) = slice (sinfo s x) \<or> slice (sinfo s2 x) = slice_at i 0"
    using put [OF s1] by (simp add: slice_at_def)
  moreover from rest obtain s3 c' k' where
    s3: "slice (sinfo s3 x) = slice (sinfo s2 x)" "pmm_init_loop hw s3 c' k' (i + slice_size) n = Inr s'" by blast
  from Suc.IH [OF s3(2)] have "slice (sinfo s' x) = slice (sinfo s2 x) \<or> (\<exists>j < n. slice (sinfo s' x) = slice_at i (Suc j))"
    by (simp add: s3(1) at)
  ultimately show ?case by (metis Suc_mono zero_less_Suc)
qed simp

lemma pmm_init_slices:
  assumes "pmm_init hw ram ws start fin = Inr s"
  shows "slice (sinfo s x) = slice (ram x) \<or> (\<exists>j \<le> pmm_init_rounds start fin. slice (sinfo s x) = slice_at start j)"
proof -
  let ?n = "pmm_init_rounds start fin"
  let ?s = "\<lparr>sinfo = ram(start := (ram start)\<lparr>snext := NULL, sprev := NULL, mtype := BucketInfo, slice := start, filled := 1\<rparr>),
      heads = (\<lambda>_. NULL)(allocated := start), pstart = start, pend = fin, words = ws\<rparr>"
  from assms have "pmm_init_loop hw ?s start 1 (start + slice_size) ?n = Inr s"
    by (auto simp: pmm_init_def Let_def split: if_splits)
  from pmm_init_loop_slices [OF this, of x] consider
      "slice (sinfo s x) = slice (sinfo ?s x)" | j where "j < ?n" "slice (sinfo s x) = slice_at (start + slice_size) j" by blast
  then show ?thesis
  proof cases
    case 1
    then have "slice (sinfo s x) = slice (ram x) \<or> slice (sinfo s x) = slice_at start 0"
      by (auto simp: slice_at_def)
    then show ?thesis by blast
  next
    case 2
    moreover have "slice_at (start + slice_size) j = slice_at start (Suc j)" for j
      by (simp add: slice_at_def slice_size_def algebra_simps)
    ultimately show ?thesis by (metis Suc_leI)
  qed
qed

text \<open>
  (C4) \<^bold>\<open>Initialisation.\<close> On zeroed RAM, \<open>pmm_init\<close> builds a manager in which the only units in
  use are the slices that hold the structs: the first slice of the region, and the last slice
  of every bucket. It needs that no such last slice lies in the peripheral region, for the
  slice for the next structs is then the one that was just put on the unused list, and that
  is where \<open>pmm_get_sliceinfo_for_slice\<close> looks for them.
\<close>

theorem pmm_init_builds_pool:
  assumes start: "start \<noteq> NULL" and align: "unat start mod 8192 = 0" and fit: "unat start + 8192 * Suc (pmm_init_rounds start fin) < 2 ^ 32"
    and ram: "\<forall>a. \<not> reserved (ram a) \<and> sprev (ram a) = NULL"
    and mmio: "\<forall>k. k mod 512 = 511 \<and> k < Suc (pmm_init_rounds start fin) \<longrightarrow>
      \<not> address_in_reserved_region hw (slice_at start k)"
  shows "\<exists>s. pmm_init hw ram ws start fin = Inr s \<and>
    pmm_pool s (insert (BucketInfo, start) (new_buckets start 1 (pmm_init_rounds start fin)))"
  by (rule pmm_init_pool [OF assms])

definition zero_sliceinfo :: MemorySliceInfo where
  "zero_sliceinfo = \<lparr>mtype = L1PageTable, filled = 0, reserved = False, snext = NULL, sprev = NULL, slice = NULL\<rparr>"

definition demo_hw :: HardwareInfo where
  "demo_hw = \<lparr>cpuType = ARM1176, boardType = RaspBerryPiTwo, peripheral_base_address = 0x3F000000,
     peripheral_region_size = 0x1500000\<rparr>"

theorem pmm_init_builds_pool_witness:
  "\<exists>s. pmm_init demo_hw (\<lambda>_. zero_sliceinfo) (\<lambda>_. 7) 0x80200000 0x80208000 = Inr s \<and>
    pmm_pool s (insert (BucketInfo, 0x80200000) (new_buckets 0x80200000 1 (pmm_init_rounds 0x80200000 0x80208000)))"
proof (rule pmm_init_builds_pool)
  have r: "pmm_init_rounds 0x80200000 0x80208000 = 3" by (simp add: pmm_init_rounds_def slice_size_def)
  show "unat (0x80200000 :: u32) + 8192 * Suc (pmm_init_rounds 0x80200000 0x80208000) < 2 ^ 32" unfolding r by simp
  show "\<forall>k. k mod 512 = 511 \<and> k < Suc (pmm_init_rounds 0x80200000 0x80208000) \<longrightarrow>
      \<not> address_in_reserved_region demo_hw (slice_at 0x80200000 k)" unfolding r by auto
qed (simp_all add: zero_sliceinfo_def)

text \<open>A manager of three slices: the structs, a slice with one page in use, an unused slice.\<close>

definition demo_pmm :: PhysicalMemoryManager where
  "demo_pmm = \<lparr>sinfo = (\<lambda>_. zero_sliceinfo)
       (0x200000 := zero_sliceinfo\<lparr>mtype := BucketInfo, filled := 1, slice := 0x200000\<rparr>,
        0x200010 := zero_sliceinfo\<lparr>mtype := Page, filled := 1, slice := 0x202000\<rparr>,
        0x200020 := zero_sliceinfo\<lparr>slice := 0x204000\<rparr>),
     heads = (\<lambda>l. case l of unused \<Rightarrow> 0x200020 | allocated \<Rightarrow> 0x200000 | l2ptPartialFree \<Rightarrow> NULL | pagePartialFree \<Rightarrow> 0x200010),
     pstart = 0x200000, pend = 0x206000, words = (\<lambda>_. 7)\<rparr>"

definition demo_lists :: "pmm_list \<Rightarrow> ptr list" where
  "demo_lists l = (case l of unused \<Rightarrow> [0x200020] | allocated \<Rightarrow> [0x200000] | l2ptPartialFree \<Rightarrow> [] | pagePartialFree \<Rightarrow> [0x200010])"

lemma demo_pmm_pool: "pmm_pool demo_pmm {(BucketInfo, 0x200000), (Page, 0x202000)}"
proof -
  have l: "pmm_links demo_pmm demo_lists"
    by (auto simp: pmm_links_def demo_lists_def demo_pmm_def zero_sliceinfo_def split: pmm_list.splits)
  have g: "geom 0x200000 0x200000 (sinfo demo_pmm 0x200000)" "geom 0x200000 0x200010 (sinfo demo_pmm 0x200010)"
    "geom 0x200000 0x200020 (sinfo demo_pmm 0x200020)"
    by (simp_all add: geom_def is_slice_def sliceinfo_address_eq slice_no_def info_offset_def demo_pmm_def zero_sliceinfo_def)
  have c: "cls allocated (sinfo demo_pmm 0x200000)" "cls pagePartialFree (sinfo demo_pmm 0x200010)"
    "cls unused (sinfo demo_pmm 0x200020)"
    by (simp_all add: cls_def demo_pmm_def zero_sliceinfo_def)
  have "pstart demo_pmm = 0x200000" by (simp add: demo_pmm_def)
  moreover have "unat (0x200000 :: u32) mod 8192 = 0" by simp
  ultimately have "pmm_rep demo_pmm demo_lists"
    using l g c by (auto simp: pmm_rep_def demo_lists_def split: pmm_list.splits)
  moreover have "units (sinfo demo_pmm 0x200000) = {(BucketInfo, 0x200000)}"
    by (subst units_whole [of BucketInfo]) (simp_all add: usize_def demo_pmm_def zero_sliceinfo_def)
  moreover have "units (sinfo demo_pmm 0x200010) = {(Page, 0x202000)}"
    using units_first(1) [OF sub_kinds(1), of "zero_sliceinfo\<lparr>slice := 0x202000\<rparr>"]
    by (simp add: demo_pmm_def zero_sliceinfo_def)
  ultimately have "live demo_pmm demo_lists = {(BucketInfo, 0x200000), (Page, 0x202000)}"
    by (auto simp: live_def demo_lists_def split: pmm_list.splits)
  with \<open>pmm_rep demo_pmm demo_lists\<close> show ?thesis by (auto simp: pmm_pool_def)
qed

text \<open>
  (C2) \<^bold>\<open>A page is new, cleared and disjoint from everything in use.\<close> While a partly free or an
  unused slice is left, \<open>pmm_allocate_page\<close> returns a page that was not in use; it becomes the
  only new unit, overlaps no unit in use (page, page table or structs), is all zero, and no
  other word of memory changes.
\<close>

theorem pmm_allocate_page_fresh:
  assumes "pmm_pool s U" and "heads s pagePartialFree \<noteq> NULL \<or> heads s unused \<noteq> NULL"
  shows "\<exists>p s'. pmm_allocate_page s = Inr (p, s') \<and> (Page, p) \<notin> U \<and> pmm_pool s' (insert (Page, p) U) \<and>
    (\<forall>u \<in> U. footprint u \<inter> footprint (Page, p) = {}) \<and>
    (\<forall>a. words s' a = (if a \<in> footprint (Page, p) then 0 else words s a))"
  using pages.alloc_fresh [OF assms(1)] assms(2) by (simp add: sub_avail_def)

theorem pmm_allocate_page_fresh_witness:
  "let U = {(BucketInfo, 0x200000), (Page, 0x202000)} in
   \<exists>p s'. pmm_allocate_page demo_pmm = Inr (p, s') \<and> (Page, p) \<notin> U \<and> pmm_pool s' (insert (Page, p) U) \<and>
    (\<forall>u \<in> U. footprint u \<inter> footprint (Page, p) = {}) \<and>
    (\<forall>a. words s' a = (if a \<in> footprint (Page, p) then 0 else words demo_pmm a))"
  unfolding Let_def by (rule pmm_allocate_page_fresh [OF demo_pmm_pool]) (simp add: demo_pmm_def)



text \<open>
  (C12) \<^bold>\<open>Second level tables.\<close> The same for the tables of 1 KiB, eight to a slice: an allocated
  table is new and disjoint from every unit in use, and freeing it restores the set of units.
\<close>

theorem pmm_l2_pagetable_round_trip:
  assumes "pmm_pool s U" and "heads s l2ptPartialFree \<noteq> NULL \<or> heads s unused \<noteq> NULL"
  shows "\<exists>p s' s''. pmm_allocate_l2_pagetable s = Inr (p, s') \<and> (L2PageTable, p) \<notin> U \<and>
    pmm_pool s' (insert (L2PageTable, p) U) \<and> (\<forall>u \<in> U. footprint u \<inter> footprint (L2PageTable, p) = {}) \<and>
    (\<forall>a. words s' a = (if a \<in> footprint (L2PageTable, p) then 0 else words s a)) \<and>
    pmm_free_l2_pagetable s' p = Inr s'' \<and> pmm_pool s'' U"
proof -
  from l2_tables.alloc_fresh [OF assms(1)] assms(2) obtain p s' where
    a: "pmm_allocate_l2_pagetable s = Inr (p, s')" "(L2PageTable, p) \<notin> U" "pmm_pool s' (insert (L2PageTable, p) U)"
      "\<forall>u \<in> U. footprint u \<inter> footprint (L2PageTable, p) = {}"
      "\<forall>a. words s' a = (if a \<in> footprint (L2PageTable, p) then 0 else words s a)"
    by (auto simp: sub_avail_def)
  from l2_release_law [OF a(3), of p] a(2) obtain s'' where
    "pmm_free_l2_pagetable s' p = Inr s''" "pmm_pool s'' U" by auto
  with a show ?thesis by blast
qed

theorem pmm_l2_pagetable_round_trip_witness:
  "let U = {(BucketInfo, 0x200000), (Page, 0x202000)} in
   \<exists>p s' s''. pmm_allocate_l2_pagetable demo_pmm = Inr (p, s') \<and> (L2PageTable, p) \<notin> U \<and>
    pmm_pool s' (insert (L2PageTable, p) U) \<and> (\<forall>u \<in> U. footprint u \<inter> footprint (L2PageTable, p) = {}) \<and>
    (\<forall>a. words s' a = (if a \<in> footprint (L2PageTable, p) then 0 else words demo_pmm a)) \<and>
    pmm_free_l2_pagetable s' p = Inr s'' \<and> pmm_pool s'' U"
  unfolding Let_def by (rule pmm_l2_pagetable_round_trip [OF demo_pmm_pool]) (simp add: demo_pmm_def)

text \<open>
  \<^bold>\<open>First level tables.\<close> They take a whole slice. With a slice left the allocation is new,
  cleared and can be given back; with none left the result is \<open>NULL\<close> and nothing changes.
\<close>

theorem pmm_l1_pagetable_round_trip:
  assumes "pmm_pool s U"
  shows "if heads s unused = NULL then pmm_allocate_l1_pagetable s = Inr (NULL, s)
    else \<exists>p s' s''. pmm_allocate_l1_pagetable s = Inr (p, s') \<and> (L1PageTable, p) \<notin> U \<and>
      pmm_pool s' (insert (L1PageTable, p) U) \<and> (\<forall>u \<in> U. footprint u \<inter> footprint (L1PageTable, p) = {}) \<and>
      (\<forall>a. words s' a = (if a \<in> footprint (L1PageTable, p) then 0 else words s a)) \<and>
      pmm_free_l1_pagetable s' p = Inr s'' \<and> pmm_pool s'' U"
proof (cases "heads s unused = NULL")
  case False
  from l1_tables.alloc_fresh [OF assms False] obtain p s' where
    a: "pmm_allocate_l1_pagetable s = Inr (p, s')" "(L1PageTable, p) \<notin> U" "pmm_pool s' (insert (L1PageTable, p) U)"
      "\<forall>u \<in> U. footprint u \<inter> footprint (L1PageTable, p) = {}"
      "\<forall>a. words s' a = (if a \<in> footprint (L1PageTable, p) then 0 else words s a)" by blast
  from l1_release_law [OF a(3), of p] a(2) obtain s'' where
    "pmm_free_l1_pagetable s' p = Inr s''" "pmm_pool s'' U" by auto
  with a False show ?thesis by auto
qed (simp add: pmm_allocate_l1_pagetable_def)

theorem pmm_l1_pagetable_round_trip_witness:
  "\<exists>p s'. pmm_allocate_l1_pagetable demo_pmm = Inr (p, s') \<and>
     pmm_pool s' {(L1PageTable, p), (BucketInfo, 0x200000), (Page, 0x202000)}"
proof -
  have "heads demo_pmm unused \<noteq> NULL" by (simp add: demo_pmm_def)
  with pmm_l1_pagetable_round_trip [OF demo_pmm_pool] show ?thesis by auto
qed

text \<open>Out of slices, the other two dereference \<open>NULL\<close>.\<close>

lemma pmm_exhausted:
  "heads s unused = NULL \<Longrightarrow> heads s pagePartialFree = NULL \<Longrightarrow> pmm_allocate_page s = Inl NullDeref"
  "heads s unused = NULL \<Longrightarrow> heads s l2ptPartialFree = NULL \<Longrightarrow> pmm_allocate_l2_pagetable s = Inl NullDeref"
  by (simp_all add: pmm_allocate_page_def pmm_allocate_l2_pagetable_def pop_null)

end
