(* ===== verification/Vm2.thy ===== *)
theory Vm2
  imports Bit_Fields Pmm
begin

section \<open>Virtual memory: \<open>vm/vm2.c\<close>, \<open>vm/include/vm2.h\<close>\<close>

text \<open>
  Page tables are words of RAM: entry \<open>i\<close> of the table at \<open>p\<close> is the word at \<open>p + 4 i\<close>. All
  addresses are the kernel's; the kernel sees physical memory at \<open>KERNEL_VIRTUAL_OFFSET\<close>. The
  operations on the MMU (\<open>mcr\<close> instructions) have no effect on memory and are logged.
\<close>

subsection \<open>The layout of the entries\<close>

datatype Access = KernelRO | KernelRW | UserRO | UserRW

record PagePermission =
  access :: Access
  executable :: bool

text \<open>The three structs of the unions, field by field; a field holds a word, cut when it is stored.\<close>

record coarse_entry =
  co_type :: u32
  co_sbz1 :: u32
  co_nonSecure :: u32
  co_sbz2 :: u32
  co_domain :: u32
  co_ECC :: u32
  co_base_address :: u32

record section_entry =
  se_type :: u32
  se_bufferable :: u32
  se_cachable :: u32
  se_sbz2 :: u32
  se_domain :: u32
  se_ECC :: u32
  se_accessPermissions :: u32
  se_TEX :: u32
  se_accessExtended :: u32
  se_sharable :: u32
  se_notglobal :: u32
  se_supersection :: u32
  se_nonSecure :: u32
  se_base_address :: u32

record smallpage_entry =
  sp_type :: u32
  sp_bufferable :: u32
  sp_cachable :: u32
  sp_accessPermissions :: u32
  sp_TEX :: u32
  sp_accessExtended :: u32
  sp_sharable :: u32
  sp_notglobal :: u32
  sp_base_address :: u32

record largepage_entry =
  lp_type :: u32
  lp_bufferable :: u32
  lp_cachable :: u32
  lp_accessPermissions :: u32
  lp_shouldBeZero1 :: u32
  lp_accessExtended :: u32
  lp_sharable :: u32
  lp_notglobal :: u32
  lp_TEX :: u32
  lp_nonExecutable :: u32
  lp_base_address :: u32

definition coarse_widths :: "nat list" where
  "coarse_widths = [2, 1, 1, 1, 4, 1, 22]"

definition section_widths :: "nat list" where
  "section_widths = [2, 1, 1, 1, 4, 1, 2, 3, 1, 1, 1, 1, 1, 12]"

definition smallpage_widths :: "nat list" where
  "smallpage_widths = [2, 1, 1, 2, 3, 1, 1, 1, 20]"

definition largepage_widths :: "nat list" where
  "largepage_widths = [2, 1, 1, 2, 3, 1, 1, 1, 3, 1, 16]"

definition coarse_word :: "coarse_entry \<Rightarrow> u32" where
  "coarse_word e = pack coarse_widths
     [co_type e, co_sbz1 e, co_nonSecure e, co_sbz2 e, co_domain e, co_ECC e, co_base_address e]"

definition section_word :: "section_entry \<Rightarrow> u32" where
  "section_word e = pack section_widths
     [se_type e, se_bufferable e, se_cachable e, se_sbz2 e, se_domain e, se_ECC e, se_accessPermissions e,
      se_TEX e, se_accessExtended e, se_sharable e, se_notglobal e, se_supersection e, se_nonSecure e,
      se_base_address e]"

definition smallpage_word :: "smallpage_entry \<Rightarrow> u32" where
  "smallpage_word e = pack smallpage_widths
     [sp_type e, sp_bufferable e, sp_cachable e, sp_accessPermissions e, sp_TEX e, sp_accessExtended e,
      sp_sharable e, sp_notglobal e, sp_base_address e]"

definition largepage_word :: "largepage_entry \<Rightarrow> u32" where
  "largepage_word e = pack largepage_widths
     [lp_type e, lp_bufferable e, lp_cachable e, lp_accessPermissions e, lp_shouldBeZero1 e, lp_accessExtended e,
      lp_sharable e, lp_notglobal e, lp_TEX e, lp_nonExecutable e, lp_base_address e]"

text \<open>Reading the same word through the structs.\<close>

definition word_coarse :: "u32 \<Rightarrow> coarse_entry" where
  "word_coarse w = (let f = unpack coarse_widths w in
     \<lparr>co_type = f ! 0, co_sbz1 = f ! 1, co_nonSecure = f ! 2, co_sbz2 = f ! 3, co_domain = f ! 4, co_ECC = f ! 5,
      co_base_address = f ! 6\<rparr>)"

definition word_section :: "u32 \<Rightarrow> section_entry" where
  "word_section w = (let f = unpack section_widths w in
     \<lparr>se_type = f ! 0, se_bufferable = f ! 1, se_cachable = f ! 2, se_sbz2 = f ! 3, se_domain = f ! 4, se_ECC = f ! 5,
      se_accessPermissions = f ! 6, se_TEX = f ! 7, se_accessExtended = f ! 8, se_sharable = f ! 9,
      se_notglobal = f ! 10, se_supersection = f ! 11, se_nonSecure = f ! 12, se_base_address = f ! 13\<rparr>)"

definition word_smallpage :: "u32 \<Rightarrow> smallpage_entry" where
  "word_smallpage w = (let f = unpack smallpage_widths w in
     \<lparr>sp_type = f ! 0, sp_bufferable = f ! 1, sp_cachable = f ! 2, sp_accessPermissions = f ! 3, sp_TEX = f ! 4,
      sp_accessExtended = f ! 5, sp_sharable = f ! 6, sp_notglobal = f ! 7, sp_base_address = f ! 8\<rparr>)"

definition word_largepage :: "u32 \<Rightarrow> largepage_entry" where
  "word_largepage w = (let f = unpack largepage_widths w in
     \<lparr>lp_type = f ! 0, lp_bufferable = f ! 1, lp_cachable = f ! 2, lp_accessPermissions = f ! 3,
      lp_shouldBeZero1 = f ! 4, lp_accessExtended = f ! 5, lp_sharable = f ! 6, lp_notglobal = f ! 7,
      lp_TEX = f ! 8, lp_nonExecutable = f ! 9, lp_base_address = f ! 10\<rparr>)"

text \<open>A compound literal sets the members that are not named to zero.\<close>

definition zero_coarse :: coarse_entry where "zero_coarse = word_coarse 0"
definition zero_section :: section_entry where "zero_section = word_section 0"
definition zero_smallpage :: smallpage_entry where "zero_smallpage = word_smallpage 0"

subsection \<open>Indices\<close>

definition l1pt_index :: "u32 \<Rightarrow> u32" where
  "l1pt_index address = drop_bit 20 address"

definition l2pt_index :: "u32 \<Rightarrow> u8" where
  "l2pt_index address = ucast (drop_bit 12 (address AND 0x000ff000))"

definition l1pt_base_address :: "u32 \<Rightarrow> u32" where
  "l1pt_base_address address = l1pt_index address"

definition l2pt_base_address :: "u32 \<Rightarrow> u32" where
  "l2pt_base_address address = drop_bit 12 address"

definition find_l2pt :: "u32 \<Rightarrow> fault + ptr" where
  "find_l2pt l1ptEntry =
     (if co_type (word_coarse l1ptEntry) = 1
      then Inr (PHYS2VIRT (push_bit 10 (co_base_address (word_coarse l1ptEntry))))
      else Inl FatalPanic)"

subsection \<open>The state and the operations\<close>

datatype mmu_op = FlushCaches | FlushASID u8 | SetASID u8 | SetUserPagetable ptr

record vm2_state =
  pmm :: PhysicalMemoryManager
  mmio_current_top :: u32
  mmu_started :: bool
  mmu_log :: "mmu_op list"

definition entry_address :: "ptr \<Rightarrow> u32 \<Rightarrow> u32" where
  "entry_address table index = table + 4 * index"

definition read_word :: "vm2_state \<Rightarrow> u32 \<Rightarrow> u32" where
  "read_word s a = words (pmm s) a"

definition write_word :: "vm2_state \<Rightarrow> u32 \<Rightarrow> u32 \<Rightarrow> vm2_state" where
  "write_word s a v = s\<lparr>pmm := (pmm s)\<lparr>words := (words (pmm s))(a := v)\<rparr>\<rparr>"

definition kernell1PageTable :: ptr where
  "kernell1PageTable = VirtualL1PagetableLocation"

definition vm2_flush_caches :: "vm2_state \<Rightarrow> vm2_state" where
  "vm2_flush_caches s = s\<lparr>mmu_log := mmu_log s @ [FlushCaches]\<rparr>"

definition vm2_flush_caches_of_ASID :: "vm2_state \<Rightarrow> u8 \<Rightarrow> vm2_state" where
  "vm2_flush_caches_of_ASID s i = s\<lparr>mmu_log := mmu_log s @ [FlushASID i]\<rparr>"

definition vm2_set_user_pagetable :: "vm2_state \<Rightarrow> ptr \<Rightarrow> vm2_state" where
  "vm2_set_user_pagetable s l1 = s\<lparr>mmu_log := mmu_log s @ [SetUserPagetable l1]\<rparr>"

definition vm2_l1_map_physical_to_virtual ::
    "vm2_state \<Rightarrow> ptr \<Rightarrow> u32 \<Rightarrow> u32 \<Rightarrow> bool \<Rightarrow> fault + (bool \<times> vm2_state)" where
  "vm2_l1_map_physical_to_virtual s pt entry virtual remap =
     (let mapped = read_word s (entry_address pt (l1pt_index virtual)) \<noteq> 0 in
      if mapped \<and> \<not> remap then Inl FatalPanic
      else
        (let remapped = mapped \<and> remap;
             s = write_word s (entry_address kernell1PageTable (l1pt_index virtual)) entry;
             s = (if remap \<and> remapped then vm2_flush_caches s else s) in
         Inr (remapped, s)))"

text \<open>
  The loop of \<open>vm2_start\<close> over the mebibytes of RAM. From \<open>i = 0\<close> it ends within 4096 rounds, or
  \<open>i\<close> has wrapped around and it does not end.
\<close>

primrec vm2_map_ram :: "nat \<Rightarrow> vm2_state \<Rightarrow> u32 \<Rightarrow> u32 \<Rightarrow> fault + vm2_state" where
  "vm2_map_ram 0 s i available_RAM = Inl Diverges"
| "vm2_map_ram (Suc fuel) s i available_RAM =
     (if i < available_RAM
      then bindE (vm2_l1_map_physical_to_virtual s kernell1PageTable
                    (section_word (zero_section\<lparr>se_type := 2, se_accessPermissions := 1,
                                     se_base_address := l1pt_base_address i\<rparr>))
                    (KERNEL_VIRTUAL_OFFSET + i) True)
                 (\<lambda>(_, s). vm2_map_ram fuel s (i + Mebibyte) available_RAM)
      else Inr s)"

text \<open>\<open>kernel_top\<close> is the linker symbol \<open>__KERNEL_TOP\<close>.\<close>

definition available_RAM :: "HardwareInfo \<Rightarrow> u32 \<Rightarrow> u32" where
  "available_RAM hw detected_size =
     (case boardType hw of
        RaspberryPiZero \<Rightarrow> 512 * Mebibyte
      | RaspBerryPiTwo \<Rightarrow> 1 * Gibibyte
      | _ \<Rightarrow> detected_size)"

definition vm2_start :: "HardwareInfo \<Rightarrow> u32 \<Rightarrow> vm2_state \<Rightarrow> u32 \<Rightarrow> fault + vm2_state" where
  "vm2_start hw kernel_top s detected_size =
     (let s = write_word s (entry_address kernell1PageTable 0) 0 in
      bindE (vm2_map_ram 4097 s 0 (available_RAM hw detected_size)) (\<lambda>s.
      bindE (pmm_init hw (sinfo (pmm s)) (words (pmm s)) kernel_top (KERNEL_VIRTUAL_OFFSET + detected_size)) (\<lambda>m.
      let s = s\<lparr>pmm := m\<rparr>;
          s = vm2_set_user_pagetable s NULL;
          s = vm2_flush_caches s in
      Inr (s\<lparr>mmu_started := True\<rparr>))))"

definition vm2_free_page :: "vm2_state \<Rightarrow> ptr \<Rightarrow> u32 \<Rightarrow> fault + vm2_state" where
  "vm2_free_page s l1pt virtual =
     (let l1Entry = read_word s (entry_address l1pt (l1pt_index virtual)) in
      if se_type (word_section l1Entry) = 1
      then
        bindE (find_l2pt l1Entry) (\<lambda>l2.
        let l2Entry = entry_address l2 (ucast (l2pt_index virtual));
            page_address = VIRT2PHYS (push_bit 12 (sp_base_address (word_smallpage (read_word s l2Entry)))) in
        bindE (pmm_free_page (pmm s) page_address) (\<lambda>m.
        Inr (vm2_flush_caches (write_word (s\<lparr>pmm := m\<rparr>) l2Entry 0))))
      else Inr s)"

text \<open>The permission bits: \<open>accessPermissions\<close>, \<open>accessExtended\<close> and whether the mapping is global.\<close>

definition page_permission_bits :: "Access \<Rightarrow> u32 \<times> u32 \<times> bool" where
  "page_permission_bits a =
     (case a of
        KernelRW \<Rightarrow> (1, 0, True)
      | KernelRO \<Rightarrow> (1, 1, True)
      | UserRO \<Rightarrow> (2, 0, False)
      | UserRW \<Rightarrow> (3, 0, False))"

definition page_descriptor :: "PagePermission \<Rightarrow> ptr \<Rightarrow> u32" where
  "page_descriptor perms page =
     (let (accessPerms, accessExtended, global) = page_permission_bits (access perms) in
      smallpage_word (zero_smallpage
        \<lparr>sp_type := 2 + (if executable perms then 0 else 1), sp_bufferable := 0, sp_cachable := 0,
         sp_notglobal := (if global then 0 else 1), sp_accessPermissions := accessPerms,
         sp_accessExtended := accessExtended, sp_base_address := l2pt_base_address (VIRT2PHYS page)\<rparr>))"

text \<open>
  The code from \<open>case 1\<close> on, which \<open>case 0\<close> falls into: \<open>l2\<close> is the table just created or
  \<open>NULL\<close>. \<open>created_l2pt\<close> is \<open>None\<close> for a \<open>NULL\<close> argument, else what it points to.
\<close>

definition vm2_map_page ::
    "vm2_state \<Rightarrow> ptr \<Rightarrow> u32 \<Rightarrow> bool \<Rightarrow> PagePermission \<Rightarrow> ptr option \<Rightarrow> ptr \<Rightarrow>
     fault + (ptr \<times> ptr option \<times> vm2_state)" where
  "vm2_map_page s l1Entry virtual remap perms created_l2pt l2 =
     bindE (pmm_allocate_page (pmm s)) (\<lambda>(page, m).
     let s = s\<lparr>pmm := m\<rparr> in
     bindE (if l2 = NULL then find_l2pt (read_word s l1Entry) else Inr l2) (\<lambda>l2.
     let l2Entry = entry_address l2 (ucast (l2pt_index virtual)) in
     if read_word s l2Entry \<noteq> 0 \<and> \<not> remap then Inl FatalPanic
     else
       (let s = write_word s l2Entry (page_descriptor perms page);
            s = (if remap then vm2_flush_caches s else s);
            created_l2pt = (if created_l2pt \<noteq> None \<and> created_l2pt \<noteq> Some NULL then Some NULL else created_l2pt) in
        Inr (page, created_l2pt, s))))"

definition vm2_allocate_page ::
    "vm2_state \<Rightarrow> ptr \<Rightarrow> u32 \<Rightarrow> bool \<Rightarrow> PagePermission \<Rightarrow> ptr option \<Rightarrow>
     fault + (ptr \<times> ptr option \<times> vm2_state)" where
  "vm2_allocate_page s l1pt virtual remap perms created_l2pt =
     (let l1Entry = entry_address l1pt (l1pt_index virtual);
          type = se_type (word_section (read_word s l1Entry)) in
      if type = 0
      then
        bindE (pmm_allocate_l2_pagetable (pmm s)) (\<lambda>(l2, m).
        let s = write_word (s\<lparr>pmm := m\<rparr>) l1Entry
                  (coarse_word (zero_coarse\<lparr>co_type := 1, co_base_address := drop_bit 10 (VIRT2PHYS l2)\<rparr>));
            created_l2pt = map_option (\<lambda>_. l2) created_l2pt in
        vm2_map_page s l1Entry virtual remap perms created_l2pt l2)
      else if type = 1 then vm2_map_page s l1Entry virtual remap perms created_l2pt NULL
      else Inr (NULL, created_l2pt, s))"

primrec vm2_map_peripheral_loop :: "nat \<Rightarrow> vm2_state \<Rightarrow> u32 \<Rightarrow> vm2_state" where
  "vm2_map_peripheral_loop 0 s physical = s"
| "vm2_map_peripheral_loop (Suc n) s physical =
     (let s = write_word s (entry_address kernell1PageTable (l1pt_index (mmio_current_top s)))
                (section_word (zero_section\<lparr>se_type := 2, se_accessPermissions := 1,
                                 se_base_address := l1pt_base_address physical\<rparr>)) in
      vm2_map_peripheral_loop n (s\<lparr>mmio_current_top := mmio_current_top s + Mebibyte\<rparr>) (physical + Mebibyte))"

definition vm2_map_peripheral :: "vm2_state \<Rightarrow> u32 \<Rightarrow> u32 \<Rightarrow> u32 \<times> vm2_state" where
  "vm2_map_peripheral s physical n_mebibytes =
     (let s = s\<lparr>mmio_current_top := mmio_current_top s - n_mebibytes * Mebibyte\<rparr>;
          s = vm2_map_peripheral_loop (unat n_mebibytes) s physical;
          s = s\<lparr>mmio_current_top := mmio_current_top s - n_mebibytes * Mebibyte\<rparr> in
      (mmio_current_top s, s))"

subsection \<open>Reading fields\<close>

lemma unpack_nth:
  "i < length ws \<Longrightarrow> unpack ws e ! i = take_bit (ws ! i) (drop_bit (sum_list (take i ws)) e)"
  by (induction ws arbitrary: i e) (auto simp: less_Suc_eq_0_disj add.commute)

lemma word_fields:
  "co_type (word_coarse w) = take_bit 2 w" "co_base_address (word_coarse w) = drop_bit 10 w"
  "se_type (word_section w) = take_bit 2 w" "se_base_address (word_section w) = drop_bit 20 w"
  "sp_type (word_smallpage w) = take_bit 2 w" "sp_base_address (word_smallpage w) = drop_bit 12 w"
proof -
  have t: "take_bit n (drop_bit k w) = drop_bit k w" if "n + k = 32" for n k
    using that by (intro bit_word_eqI) (auto simp: bit_take_bit_iff bit_drop_bit_eq dest: bit_imp_le_length)
  show "co_type (word_coarse w) = take_bit 2 w" "se_type (word_section w) = take_bit 2 w"
    "sp_type (word_smallpage w) = take_bit 2 w"
    by (simp_all add: word_coarse_def word_section_def word_smallpage_def coarse_widths_def section_widths_def
        smallpage_widths_def)
  show "co_base_address (word_coarse w) = drop_bit 10 w"
    using t [of 22 10] by (simp add: word_coarse_def Let_def unpack_nth coarse_widths_def)
  show "se_base_address (word_section w) = drop_bit 20 w"
    using t [of 12 20] by (simp add: word_section_def Let_def unpack_nth section_widths_def)
  show "sp_base_address (word_smallpage w) = drop_bit 12 w"
    using t [of 20 12] by (simp add: word_smallpage_def Let_def unpack_nth smallpage_widths_def)
qed

lemma unpack_eq_nth: "length ws = n \<Longrightarrow> map ((!) (unpack ws w)) [0..<n] = unpack ws w"
  by (metis length_unpack map_nth)

lemma width_facts [simp]:
  "length coarse_widths = 7" "length section_widths = 14" "length smallpage_widths = 9" "length largepage_widths = 11"
  "sum_list coarse_widths = 32" "sum_list section_widths = 32" "sum_list smallpage_widths = 32"
  "sum_list largepage_widths = 32"
  by (simp_all add: coarse_widths_def section_widths_def smallpage_widths_def largepage_widths_def)

lemma entry_layouts:
  "coarse_word (word_coarse w) = w" "section_word (word_section w) = w"
  "smallpage_word (word_smallpage w) = w" "largepage_word (word_largepage w) = w"
proof -
  note u = unpack_eq_nth [OF refl, unfolded width_facts]
  show "coarse_word (word_coarse w) = w"
    using pack_unpack [of coarse_widths w, unfolded width_facts take_bit_32] u [of coarse_widths w]
    by (simp add: coarse_word_def word_coarse_def Let_def upt_rec numeral_eq_Suc)
  show "section_word (word_section w) = w"
    using pack_unpack [of section_widths w, unfolded width_facts take_bit_32] u [of section_widths w]
    by (simp add: section_word_def word_section_def Let_def upt_rec numeral_eq_Suc)
  show "smallpage_word (word_smallpage w) = w"
    using pack_unpack [of smallpage_widths w, unfolded width_facts take_bit_32] u [of smallpage_widths w]
    by (simp add: smallpage_word_def word_smallpage_def Let_def upt_rec numeral_eq_Suc)
  show "largepage_word (word_largepage w) = w"
    using pack_unpack [of largepage_widths w, unfolded width_facts take_bit_32] u [of largepage_widths w]
    by (simp add: largepage_word_def word_largepage_def Let_def upt_rec numeral_eq_Suc)
qed

lemma stored_coarse:
  "take_bit 2 (coarse_word e) = take_bit 2 (co_type e)" "drop_bit 10 (coarse_word e) = take_bit 22 (co_base_address e)"
proof -
  note u = unpack_pack [of coarse_widths "[co_type e, co_sbz1 e, co_nonSecure e, co_sbz2 e, co_domain e, co_ECC e, co_base_address e]",
      folded coarse_word_def]
  have "word_coarse (coarse_word e) = \<lparr>co_type = take_bit 2 (co_type e), co_sbz1 = take_bit 1 (co_sbz1 e),
      co_nonSecure = take_bit 1 (co_nonSecure e), co_sbz2 = take_bit 1 (co_sbz2 e), co_domain = take_bit 4 (co_domain e),
      co_ECC = take_bit 1 (co_ECC e), co_base_address = take_bit 22 (co_base_address e)\<rparr>"
    using u by (simp add: word_coarse_def Let_def coarse_widths_def)
  then show "take_bit 2 (coarse_word e) = take_bit 2 (co_type e)" "drop_bit 10 (coarse_word e) = take_bit 22 (co_base_address e)"
    unfolding word_fields (1,2) [symmetric] by simp_all
qed

lemma word_smallpage_word:
  "word_smallpage (smallpage_word e) = \<lparr>sp_type = take_bit 2 (sp_type e), sp_bufferable = take_bit 1 (sp_bufferable e),
      sp_cachable = take_bit 1 (sp_cachable e), sp_accessPermissions = take_bit 2 (sp_accessPermissions e),
      sp_TEX = take_bit 3 (sp_TEX e), sp_accessExtended = take_bit 1 (sp_accessExtended e),
      sp_sharable = take_bit 1 (sp_sharable e), sp_notglobal = take_bit 1 (sp_notglobal e),
      sp_base_address = take_bit 20 (sp_base_address e)\<rparr>"
  using unpack_pack [of smallpage_widths "[sp_type e, sp_bufferable e, sp_cachable e, sp_accessPermissions e, sp_TEX e,
      sp_accessExtended e, sp_sharable e, sp_notglobal e, sp_base_address e]", folded smallpage_word_def]
  by (simp add: word_smallpage_def Let_def smallpage_widths_def)

lemma stored_section:
  "take_bit 2 (section_word e) = take_bit 2 (se_type e)" "drop_bit 20 (section_word e) = take_bit 12 (se_base_address e)"
proof -
  note u = unpack_pack [of section_widths "[se_type e, se_bufferable e, se_cachable e, se_sbz2 e, se_domain e, se_ECC e, se_accessPermissions e,
      se_TEX e, se_accessExtended e, se_sharable e, se_notglobal e, se_supersection e, se_nonSecure e,
      se_base_address e]", folded section_word_def]
  have "se_type (word_section (section_word e)) = take_bit 2 (se_type e)"
    "se_base_address (word_section (section_word e)) = take_bit 12 (se_base_address e)"
    using u by (simp_all add: word_section_def Let_def section_widths_def)
  then show "take_bit 2 (section_word e) = take_bit 2 (se_type e)" "drop_bit 20 (section_word e) = take_bit 12 (se_base_address e)"
    unfolding word_fields (3,4) [symmetric] by simp_all
qed

subsection \<open>Address translation\<close>

text \<open>
  What the MMU does with an entry, after the ARM1176 manual (6.11): a first level entry of type
  1 leads to a second level table, one of type 2 maps a mebibyte; a second level entry of type 2
  or 3 maps a page, one of type 1 maps 64 KiB. The result is the physical address and the
  descriptor it comes from.
\<close>

definition l1_slot :: "(u32 \<Rightarrow> u32) \<Rightarrow> ptr \<Rightarrow> u32 \<Rightarrow> u32" where
  "l1_slot m l1pt v = m (entry_address l1pt (l1pt_index v))"

definition l2_table :: "u32 \<Rightarrow> ptr" where
  "l2_table e = PHYS2VIRT (push_bit 10 (drop_bit 10 e))"

definition l2_slot :: "(u32 \<Rightarrow> u32) \<Rightarrow> ptr \<Rightarrow> u32 \<Rightarrow> u32" where
  "l2_slot m l2 v = m (entry_address l2 (ucast (l2pt_index v)))"

definition walk_l2 :: "u32 \<Rightarrow> u32 \<Rightarrow> (u32 \<times> u32) option" where
  "walk_l2 f v =
     (if take_bit 2 f = 0 then None
      else if take_bit 2 f = 1 then Some (push_bit 16 (drop_bit 16 f) OR take_bit 16 v, f)
      else Some (push_bit 12 (drop_bit 12 f) OR take_bit 12 v, f))"

definition walk :: "(u32 \<Rightarrow> u32) \<Rightarrow> ptr \<Rightarrow> u32 \<Rightarrow> (u32 \<times> u32) option" where
  "walk m l1pt v =
     (let e = l1_slot m l1pt v in
      if take_bit 2 e = 1 then walk_l2 (l2_slot m (l2_table e) v) v
      else if take_bit 2 e = 2 then Some (push_bit 20 (drop_bit 20 e) OR take_bit 20 v, e)
      else None)"

text \<open>
  The coarse entries of a first level table, for the addresses in \<open>V\<close>, lead to second level tables in use, no two
  entries to the same. A process table is in use itself and describes the lower half of the address space, 2048 entries.
\<close>

definition coarse_ok :: "(u32 \<Rightarrow> u32) \<Rightarrow> unit_id set \<Rightarrow> (u32 \<Rightarrow> bool) \<Rightarrow> ptr \<Rightarrow> bool" where
  "coarse_ok m U V l1pt \<longleftrightarrow>
     (\<forall>v. V v \<longrightarrow> take_bit 2 (l1_slot m l1pt v) = 1 \<longrightarrow>
        (L2PageTable, l2_table (l1_slot m l1pt v)) \<in> U \<and>
        (\<forall>v'. V v' \<longrightarrow> take_bit 2 (l1_slot m l1pt v') = 1 \<longrightarrow>
           l2_table (l1_slot m l1pt v) = l2_table (l1_slot m l1pt v') \<longrightarrow> l1pt_index v = l1pt_index v'))"

abbreviation lower_half :: "u32 \<Rightarrow> bool" where "lower_half v \<equiv> v < 0x80000000"

definition pt_ok :: "(u32 \<Rightarrow> u32) \<Rightarrow> unit_id set \<Rightarrow> ptr \<Rightarrow> bool" where
  "pt_ok m U l1pt \<longleftrightarrow> (L1PageTable, l1pt) \<in> U \<and> coarse_ok m U lower_half l1pt"

lemma unat_l1pt_index: "unat (l1pt_index v) = unat v div 1048576"
  by (simp add: l1pt_index_def unat_drop_bit)

lemma unat_l2pt_index: "unat (l2pt_index v) = unat v div 4096 mod 256"
proof -
  have "(0xff000 :: u32) = push_bit 12 (mask 8)" by (simp add: mask_eq_exp_minus_1 push_bit_eq_mult)
  then have "drop_bit 12 (v AND 0xff000) = take_bit 8 (drop_bit 12 v)"
    by (auto intro!: bit_word_eqI simp: bit_drop_bit_eq bit_and_iff bit_push_bit_iff bit_mask_iff bit_take_bit_iff)
  then have "l2pt_index v = ucast (take_bit 8 (drop_bit 12 v))" by (simp add: l2pt_index_def)
  then have "unat (l2pt_index v) = unat (take_bit 8 (drop_bit 12 v))"
    by (simp add: unsigned_ucast_eq unsigned_take_bit_eq)
  then show ?thesis by (simp add: unsigned_take_bit_eq unat_drop_bit take_bit_nat_def)
qed

lemma slot_in_l1:
  assumes "v < 0x80000000"
  shows "entry_address l1pt (l1pt_index v) \<in> footprint (L1PageTable, l1pt)"
proof -
  have "unat v < 2147483648" using assms by (simp add: word_less_nat_alt)
  then have "unat (4 * l1pt_index v) = 4 * (unat v div 1048576)"
    using unat_mult_no_wrap [of 4 "l1pt_index v"] by (simp add: unat_l1pt_index)
  with \<open>unat v < 2147483648\<close> show ?thesis by (simp add: entry_address_def footprint_def usize_def)
qed

lemma unat_ucast_slot: "unat (ucast (x :: u8) :: u32) = unat x"
  using u8_unat_lt [of x] by (simp add: unsigned_ucast_eq take_bit_nat_eq_self)

lemma unat_4_ucast: "unat (4 * ucast (x :: u8) :: u32) = 4 * unat x"
  using unat_mult_no_wrap [of 4 "ucast x :: u32"] u8_unat_lt [of x] by (simp add: unat_ucast_slot)

lemma slot_in_l2: "entry_address l2 (ucast (l2pt_index v)) \<in> footprint (L2PageTable, l2)"
  using u8_unat_lt [of "l2pt_index v"]
  by (simp add: entry_address_def footprint_def usize_def unat_4_ucast)

lemma entry_address_l1_inj:
  "entry_address t (l1pt_index v) = entry_address t (l1pt_index v') \<longleftrightarrow> l1pt_index v = l1pt_index v'"
proof -
  have e: "unat (4 * l1pt_index x) = 4 * unat (l1pt_index x)" for x
    using unat_mult_no_wrap [of 4 "l1pt_index x"] u32_unat_lt [of x] by (simp add: unat_l1pt_index)
  have "4 * l1pt_index v = 4 * l1pt_index v' \<longleftrightarrow> l1pt_index v = l1pt_index v'"
    unfolding word_unat_eq_iff e by simp
  then show ?thesis by (simp add: entry_address_def)
qed

lemma entry_address_l2_inj:
  "entry_address t (ucast (l2pt_index v)) = entry_address t (ucast (l2pt_index v')) \<longleftrightarrow> l2pt_index v = l2pt_index v'"
proof -
  have "(4 * ucast (l2pt_index v) :: u32) = 4 * ucast (l2pt_index v') \<longleftrightarrow> l2pt_index v = l2pt_index v'"
    unfolding word_unat_eq_iff unat_4_ucast by simp
  then show ?thesis by (simp add: entry_address_def)
qed

lemma same_page_iff:
  "drop_bit 12 v = drop_bit 12 v' \<longleftrightarrow> l1pt_index v = l1pt_index v' \<and> l2pt_index v = l2pt_index (v' :: u32)"
proof -
  have "a div 4096 = b div 4096 \<longleftrightarrow> a div 1048576 = b div 1048576 \<and> a div 4096 mod 256 = b div 4096 mod 256" for a b :: nat
    using div_mult2_eq [of a 4096 256] div_mult2_eq [of b 4096 256]
    by (auto) (metis div_mult_mod_eq)
  then show ?thesis by (simp add: word_unat_eq_iff unat_l1pt_index unat_l2pt_index unat_drop_bit)
qed

subsection \<open>Changes of the tables\<close>

definition separate :: "unit_id set \<Rightarrow> bool" where
  "separate U \<longleftrightarrow> (\<forall>u \<in> U. \<forall>u' \<in> U. u \<noteq> u' \<longrightarrow> footprint u \<inter> footprint u' = {})"

lemma separateD: "separate U \<Longrightarrow> u \<in> U \<Longrightarrow> u' \<in> U \<Longrightarrow> u \<noteq> u' \<Longrightarrow> a \<in> footprint u \<Longrightarrow> a \<notin> footprint u'"
  by (auto simp: separate_def)

lemma pool_separate: "pmm_pool s U \<Longrightarrow> separate U"
  using pmm_pool_disjoint [of s U] by (auto simp: separate_def)

definition cleared :: "unit_id \<Rightarrow> (u32 \<Rightarrow> u32) \<Rightarrow> u32 \<Rightarrow> u32" where
  "cleared u m a = (if a \<in> footprint u then 0 else m a)"

text \<open>The second level tables a first level table leads to.\<close>

definition tables :: "(u32 \<Rightarrow> u32) \<Rightarrow> ptr \<Rightarrow> ptr set" where
  "tables m l1pt = (\<lambda>v. l2_table (l1_slot m l1pt v)) ` {v. v < 0x80000000 \<and> take_bit 2 (l1_slot m l1pt v) = 1}"

lemma tables_cong: "(\<And>v. v < 0x80000000 \<Longrightarrow> l1_slot m' l1pt v = l1_slot m l1pt v) \<Longrightarrow> tables m' l1pt = tables m l1pt"
  unfolding tables_def by (intro image_cong) auto

lemma coarse_okD:
  assumes "coarse_ok m U V l1pt"
  shows "V v \<Longrightarrow> take_bit 2 (l1_slot m l1pt v) = 1 \<Longrightarrow> (L2PageTable, l2_table (l1_slot m l1pt v)) \<in> U"
    "V v \<Longrightarrow> V v' \<Longrightarrow> take_bit 2 (l1_slot m l1pt v) = 1 \<Longrightarrow> take_bit 2 (l1_slot m l1pt v') = 1 \<Longrightarrow>
      l2_table (l1_slot m l1pt v) = l2_table (l1_slot m l1pt v') \<Longrightarrow> l1pt_index v = l1pt_index v'"
  using assms unfolding coarse_ok_def by blast+

lemma coarse_ok_cong:
  assumes co: "coarse_ok m U V l1pt" and slot: "\<And>x. V x \<Longrightarrow> l1_slot m' l1pt x = l1_slot m l1pt x"
    and U': "\<And>p. (L2PageTable, p) \<in> U \<Longrightarrow> (L2PageTable, p) \<in> U'"
  shows "coarse_ok m' U' V l1pt"
  unfolding coarse_ok_def
proof (intro allI impI conjI)
  fix x assume x: "V x" "take_bit 2 (l1_slot m' l1pt x) = 1"
  then show "(L2PageTable, l2_table (l1_slot m' l1pt x)) \<in> U'" using coarse_okD(1) [OF co x(1)] U' by (simp add: slot)
  fix y assume "V y" "take_bit 2 (l1_slot m' l1pt y) = 1" "l2_table (l1_slot m' l1pt x) = l2_table (l1_slot m' l1pt y)"
  then show "l1pt_index x = l1pt_index y" using x coarse_okD(2) [OF co, of x y] by (simp add: slot)
qed

lemma pt_okD:
  assumes "pt_ok m U l1pt"
  shows "(L1PageTable, l1pt) \<in> U" "coarse_ok m U lower_half l1pt"
  using assms unfolding pt_ok_def by blast+

lemmas pt_ok_coarse = coarse_okD [OF pt_okD(2)]

text \<open>The entries of the table are in no page and no second level table.\<close>

definition slots_apart :: "unit_id set \<Rightarrow> (u32 \<Rightarrow> bool) \<Rightarrow> ptr \<Rightarrow> bool" where
  "slots_apart U V l1pt \<longleftrightarrow>
     (\<forall>v t p. V v \<longrightarrow> (t, p) \<in> U \<longrightarrow> t \<noteq> L1PageTable \<longrightarrow> entry_address l1pt (l1pt_index v) \<notin> footprint (t, p))"

lemma slots_apartD:
  "slots_apart U V l1pt \<Longrightarrow> V v \<Longrightarrow> (t, p) \<in> U \<Longrightarrow> t \<noteq> L1PageTable \<Longrightarrow> a \<in> footprint (t, p) \<Longrightarrow>
   entry_address l1pt (l1pt_index v) \<noteq> a"
  by (auto simp: slots_apart_def)

lemma pt_slots_apart:
  "(L1PageTable, l1pt) \<in> U \<Longrightarrow> separate U \<Longrightarrow> slots_apart U lower_half l1pt"
  using separateD [of U "(L1PageTable, l1pt)"] slot_in_l1 by (auto simp: slots_apart_def)

text \<open>A fresh second level table, entered for \<open>virtual\<close>, changes no translation.\<close>

lemma new_table:
  assumes co: "coarse_ok m U V l1pt" and apart: "slots_apart (insert (L2PageTable, l2) U) V l1pt"
    and sep: "separate (insert (L2PageTable, l2) U)" and new: "(L2PageTable, l2) \<notin> U"
    and v: "V virtual" and free: "take_bit 2 (l1_slot m l1pt virtual) = 0"
    and w: "take_bit 2 w = 1" "l2_table w = l2"
    and m': "m' = (cleared (L2PageTable, l2) m)(entry_address l1pt (l1pt_index virtual) := w)"
  shows "coarse_ok m' (insert (L2PageTable, l2) U) V l1pt" "l2_slot m' l2 v' = 0"
    "V x \<Longrightarrow> l1_slot m' l1pt x = (if l1pt_index x = l1pt_index virtual then w else l1_slot m l1pt x)"
    "(L2PageTable, t) \<in> U \<Longrightarrow> l2_slot m' t x = l2_slot m t x"
    "V x \<Longrightarrow> walk m' l1pt x = walk m l1pt x"
proof -
  let ?U = "insert (L2PageTable, l2) U"
  show slot: "l1_slot m' l1pt x = (if l1pt_index x = l1pt_index virtual then w else l1_slot m l1pt x)" if "V x" for x
    using slots_apartD [OF apart that, of L2PageTable l2]
    by (auto simp: l1_slot_def m' cleared_def entry_address_l1_inj)
  have neq: "entry_address t (ucast (l2pt_index x)) \<noteq> entry_address l1pt (l1pt_index virtual)"
    if "(L2PageTable, t) \<in> ?U" for t x
    using slots_apartD [OF apart v that _ slot_in_l2 [of t x]] by simp
  have new0: "l2_slot m' l2 x = 0" for x
    using neq [of l2 x] slot_in_l2 [of l2 x] by (simp add: l2_slot_def m' cleared_def)
  then show "l2_slot m' l2 v' = 0" .
  show old: "l2_slot m' t x = l2_slot m t x" if "(L2PageTable, t) \<in> U" for t x
    using neq [of t x] that new separateD [OF sep, of "(L2PageTable, t)" "(L2PageTable, l2)"] slot_in_l2 [of t x]
    by (auto simp: l2_slot_def m' cleared_def)
  show "walk m' l1pt x = walk m l1pt x" if x: "V x" for x
  proof (cases "l1pt_index x = l1pt_index virtual")
    case True
    then have "l1_slot m l1pt x = l1_slot m l1pt virtual" by (simp add: l1_slot_def)
    with free True w show ?thesis by (simp add: walk_def slot [OF x] new0 walk_l2_def)
  next
    case False
    then show ?thesis using coarse_okD(1) [OF co x] by (simp add: walk_def slot [OF x] old Let_def)
  qed
  have notU: "l2_table (l1_slot m l1pt x) \<noteq> l2" if "V x" "take_bit 2 (l1_slot m l1pt x) = 1" for x
    using coarse_okD(1) [OF co that] new by auto
  show "coarse_ok m' ?U V l1pt"
    unfolding coarse_ok_def
  proof (intro conjI allI impI)
    fix x assume x: "V x" "take_bit 2 (l1_slot m' l1pt x) = 1"
    then show "(L2PageTable, l2_table (l1_slot m' l1pt x)) \<in> ?U"
      using coarse_okD(1) [OF co x(1)] w by (simp add: slot split: if_splits)
    fix y assume y: "V y" "take_bit 2 (l1_slot m' l1pt y) = 1"
      "l2_table (l1_slot m' l1pt x) = l2_table (l1_slot m' l1pt y)"
    then show "l1pt_index x = l1pt_index y"
      using x coarse_okD(2) [OF co x(1) y(1)] notU [OF x(1)] notU [OF y(1)] w by (auto simp: slot split: if_splits)
  qed
qed

text \<open>Clearing a page that is no table changes nothing; an entry changes its own page only.\<close>

lemma clear_page:
  assumes co: "coarse_ok m U V l1pt" and apart: "slots_apart (insert (Page, page) U) V l1pt"
    and sep: "separate (insert (Page, page) U)" and m': "m' = cleared (Page, page) m"
  shows "coarse_ok m' (insert (Page, page) U) V l1pt" "V v \<Longrightarrow> l1_slot m' l1pt v = l1_slot m l1pt v"
    "V v \<Longrightarrow> walk m' l1pt v = walk m l1pt v" "(L2PageTable, t) \<in> U \<Longrightarrow> l2_slot m' t x = l2_slot m t x"
proof -
  show slot: "l1_slot m' l1pt x = l1_slot m l1pt x" if "V x" for x
    using slots_apartD [OF apart that, of Page page] by (auto simp: l1_slot_def m' cleared_def)
  show l2: "l2_slot m' t x = l2_slot m t x" if "(L2PageTable, t) \<in> U" for t x
    using separateD [OF sep, of "(L2PageTable, t)" "(Page, page)"] that slot_in_l2 [of t x]
    by (auto simp: l2_slot_def m' cleared_def)
  show "V v \<Longrightarrow> walk m' l1pt v = walk m l1pt v"
    using coarse_okD(1) [OF co, of v] by (simp add: walk_def Let_def slot l2)
  show "coarse_ok m' (insert (Page, page) U) V l1pt" by (rule coarse_ok_cong [OF co slot]) simp_all
qed

lemma set_slot:
  assumes co: "coarse_ok m U V l1pt" and apart: "slots_apart U V l1pt" and sep: "separate U"
    and v: "V virtual" and coarse: "take_bit 2 (l1_slot m l1pt virtual) = 1"
    and l2: "l2 = l2_table (l1_slot m l1pt virtual)"
    and m': "m' = m(entry_address l2 (ucast (l2pt_index virtual)) := d)"
  shows "coarse_ok m' U V l1pt" "V v' \<Longrightarrow> l1_slot m' l1pt v' = l1_slot m l1pt v'"
    "V v' \<Longrightarrow> walk m' l1pt v' = (if drop_bit 12 v' = drop_bit 12 virtual then walk_l2 d v' else walk m l1pt v')"
    "(L2PageTable, t) \<in> U \<Longrightarrow> l2_slot m' t x = (if t = l2 \<and> l2pt_index x = l2pt_index virtual then d else l2_slot m t x)"
proof -
  have l2U: "(L2PageTable, l2) \<in> U" using coarse_okD(1) [OF co v coarse] by (simp add: l2)
  have slot: "l1_slot m' l1pt x = l1_slot m l1pt x" if "V x" for x
    using slots_apartD [OF apart that l2U _ slot_in_l2] by (auto simp: l1_slot_def m')
  then show "V v' \<Longrightarrow> l1_slot m' l1pt v' = l1_slot m l1pt v'" .
  show l2slot: "l2_slot m' t x = (if t = l2 \<and> l2pt_index x = l2pt_index virtual then d else l2_slot m t x)"
    if "(L2PageTable, t) \<in> U" for t x
    using separateD [OF sep that l2U] slot_in_l2 [of t x] slot_in_l2 [of l2 virtual]
    by (cases "t = l2") (auto simp: l2_slot_def m' entry_address_l2_inj)
  show "coarse_ok m' U V l1pt" by (rule coarse_ok_cong [OF co slot])
  show "walk m' l1pt v' = (if drop_bit 12 v' = drop_bit 12 virtual then walk_l2 d v' else walk m l1pt v')"
    if v': "V v'"
  proof (cases "drop_bit 12 v' = drop_bit 12 virtual")
    case True
    then have i: "l1pt_index v' = l1pt_index virtual" "l2pt_index v' = l2pt_index virtual"
      by (simp_all add: same_page_iff)
    have "l1_slot m l1pt v' = l1_slot m l1pt virtual" using i(1) by (simp add: l1_slot_def)
    with coarse l2U i True show ?thesis by (simp add: walk_def slot [OF v'] l2slot l2 [symmetric])
  next
    case False
    show ?thesis
    proof (cases "take_bit 2 (l1_slot m l1pt v') = 1")
      case True
      have "l2_table (l1_slot m l1pt v') = l2 \<Longrightarrow> l1pt_index v' = l1pt_index virtual"
        using coarse_okD(2) [OF co v' v True coarse] l2 by simp
      then show ?thesis using False
        by (auto simp: walk_def Let_def slot [OF v'] l2slot [OF coarse_okD(1) [OF co v' True]] same_page_iff)
    qed (use False in \<open>simp add: walk_def Let_def slot [OF v']\<close>)
  qed
qed

text \<open>The same for a process table.\<close>

lemma new_table_walk:
  assumes pt: "pt_ok m U l1pt" and sep: "separate (insert (L2PageTable, l2) U)" and new: "(L2PageTable, l2) \<notin> U"
    and v: "virtual < 0x80000000" and free: "take_bit 2 (l1_slot m l1pt virtual) = 0"
    and w: "take_bit 2 w = 1" "l2_table w = l2"
    and m': "m' = (cleared (L2PageTable, l2) m)(entry_address l1pt (l1pt_index virtual) := w)"
  shows "pt_ok m' (insert (L2PageTable, l2) U) l1pt" "l1_slot m' l1pt virtual = w"
    "v' < 0x80000000 \<Longrightarrow> walk m' l1pt v' = walk m l1pt v'" "l2_slot m' l2 v' = 0"
    "tables m' l1pt \<subseteq> insert l2 (tables m l1pt)"
proof -
  note P = pt_okD [OF pt]
  have "slots_apart (insert (L2PageTable, l2) U) lower_half l1pt" using P(1) sep by (intro pt_slots_apart) simp_all
  note t = new_table [OF P(2) this sep new v free w m']
  show "pt_ok m' (insert (L2PageTable, l2) U) l1pt" using t(1) P(1) by (simp add: pt_ok_def)
  show "l1_slot m' l1pt virtual = w" "l2_slot m' l2 v' = 0" using t(3) [OF v] t(2) by simp_all
  show "v' < 0x80000000 \<Longrightarrow> walk m' l1pt v' = walk m l1pt v'" by (rule t(5))
  show "tables m' l1pt \<subseteq> insert l2 (tables m l1pt)"
    unfolding tables_def
  proof (rule image_subsetI)
    fix x assume "x \<in> {v. v < 0x80000000 \<and> take_bit 2 (l1_slot m' l1pt v) = 1}"
    then show "l2_table (l1_slot m' l1pt x) \<in> insert l2 ((\<lambda>v. l2_table (l1_slot m l1pt v)) `
        {v. v < 0x80000000 \<and> take_bit 2 (l1_slot m l1pt v) = 1})"
      using t(3) [of x] w(2) by (auto split: if_splits)
  qed
qed

lemma clear_page_walk:
  assumes pt: "pt_ok m U l1pt" and sep: "separate (insert (Page, page) U)"
    and m': "m' = cleared (Page, page) m"
  shows "pt_ok m' (insert (Page, page) U) l1pt" "v < 0x80000000 \<Longrightarrow> l1_slot m' l1pt v = l1_slot m l1pt v"
    "v < 0x80000000 \<Longrightarrow> walk m' l1pt v = walk m l1pt v"
proof -
  note P = pt_okD [OF pt]
  have "slots_apart (insert (Page, page) U) lower_half l1pt" using P(1) sep by (intro pt_slots_apart) simp_all
  note c = clear_page [OF P(2) this sep m']
  show "pt_ok m' (insert (Page, page) U) l1pt" using c(1) P(1) by (simp add: pt_ok_def)
  show "v < 0x80000000 \<Longrightarrow> l1_slot m' l1pt v = l1_slot m l1pt v" "v < 0x80000000 \<Longrightarrow> walk m' l1pt v = walk m l1pt v"
    by (rule c(2), assumption) (rule c(3))
qed

lemma set_slot_walk:
  assumes pt: "pt_ok m U l1pt" and sep: "separate U"
    and v: "virtual < 0x80000000" and coarse: "take_bit 2 (l1_slot m l1pt virtual) = 1"
    and l2: "l2 = l2_table (l1_slot m l1pt virtual)"
    and m': "m' = m(entry_address l2 (ucast (l2pt_index virtual)) := d)"
  shows "pt_ok m' U l1pt" "v' < 0x80000000 \<Longrightarrow> l1_slot m' l1pt v' = l1_slot m l1pt v'"
    "v' < 0x80000000 \<Longrightarrow> walk m' l1pt v' = (if drop_bit 12 v' = drop_bit 12 virtual then walk_l2 d v' else walk m l1pt v')"
proof -
  note P = pt_okD [OF pt]
  note s = set_slot [OF P(2) pt_slots_apart [OF P(1) sep] sep v coarse l2 m']
  show "pt_ok m' U l1pt" using s(1) P(1) by (simp add: pt_ok_def)
  show "v' < 0x80000000 \<Longrightarrow> l1_slot m' l1pt v' = l1_slot m l1pt v'" by (rule s(2))
  show "v' < 0x80000000 \<Longrightarrow> walk m' l1pt v' = (if drop_bit 12 v' = drop_bit 12 virtual then walk_l2 d v' else walk m l1pt v')"
    by (rule s(3))
qed

lemma pt_ok_cong:
  assumes pt: "pt_ok m U l1pt" and slot: "\<And>x. x < 0x80000000 \<Longrightarrow> l1_slot m' l1pt x = l1_slot m l1pt x"
    and U': "\<And>t p. t \<noteq> Page \<Longrightarrow> (t, p) \<in> U \<Longrightarrow> (t, p) \<in> U'"
  shows "pt_ok m' U' l1pt"
proof -
  note P = pt_okD [OF pt]
  have "coarse_ok m' U' lower_half l1pt" by (rule coarse_ok_cong [OF P(2) slot U']) simp_all
  then show ?thesis by (simp add: pt_ok_def U' [OF _ P(1)])
qed

text \<open>The descriptors lead back to the table and to the page they were made for.\<close>

lemma aligned_drop_push: "unat p mod 2 ^ k = 0 \<Longrightarrow> k < 32 \<Longrightarrow> push_bit k (drop_bit k p) = (p :: u32)"
proof -
  assume a: "unat p mod 2 ^ k = 0" and k: "k < 32"
  have "unat (take_bit k p) = 0" using a by (simp add: unsigned_take_bit_eq take_bit_nat_def)
  then have "take_bit k p = 0" by (simp add: unat_eq_0)
  then have "\<not> bit p n" if "n < k" for n using that k by (metis bit_0_eq bit_take_bit_iff bot_apply bot_bool_def)
  note low = this
  show ?thesis
  proof (rule bit_word_eqI)
    fix n assume "n < LENGTH(32)"
    then show "bit (push_bit k (drop_bit k p)) n = bit p n"
      using low [of n] by (cases "k \<le> n") (auto simp: bit_push_bit_iff bit_drop_bit_eq)
  qed
qed

lemma virt2phys_mod: "d dvd 4294967296 \<Longrightarrow> d dvd 2147483648 \<Longrightarrow> unat p mod d = 0 \<Longrightarrow> unat (VIRT2PHYS p) mod d = 0"
proof -
  assume d: "d dvd 4294967296" "d dvd 2147483648" "unat p mod d = 0"
  have "unat (VIRT2PHYS p) mod d = (unat p + 2147483648) mod d"
    using unat_add_mod [OF d(1), of p "KERNEL_VIRTUAL_OFFSET"]
    by (simp add: phys2virt_eq_virt2phys [symmetric] PHYS2VIRT_def KERNEL_VIRTUAL_OFFSET_def)
  then show ?thesis using d(2,3) by (simp add: mod_eq_0_iff_dvd)
qed

lemma take_drop_all: "n + k = 32 \<Longrightarrow> take_bit n (drop_bit k w) = drop_bit k (w :: u32)"
  by (intro bit_word_eqI) (auto simp: bit_take_bit_iff bit_drop_bit_eq dest: bit_imp_le_length)

lemma coarse_descriptor:
  assumes "unat l2 mod 1024 = 0"
  defines "w \<equiv> coarse_word (zero_coarse\<lparr>co_type := 1, co_base_address := drop_bit 10 (VIRT2PHYS l2)\<rparr>)"
  shows "take_bit 2 w = 1" "l2_table w = l2"
proof -
  show "take_bit 2 w = 1" by (simp add: w_def stored_coarse take_bit_small)
  have "drop_bit 10 w = drop_bit 10 (VIRT2PHYS l2)" by (simp add: w_def stored_coarse take_drop_all)
  then show "l2_table w = l2"
    using aligned_drop_push [of "VIRT2PHYS l2" 10] virt2phys_mod [of 1024 l2] assms(1) by (simp add: l2_table_def)
qed

lemma page_descriptor_fields:
  assumes "unat page mod 4096 = 0"
  shows "take_bit 2 (page_descriptor perms page) = (if executable perms then 2 else 3)"
    "push_bit 12 (drop_bit 12 (page_descriptor perms page)) = VIRT2PHYS page"
proof -
  obtain ap apx gl where b: "page_permission_bits (access perms) = (ap, apx, gl)" by (metis prod_cases3)
  let ?w = "page_descriptor perms page"
  have f: "sp_type (word_smallpage ?w) = (if executable perms then 2 else 3)"
    "sp_base_address (word_smallpage ?w) = drop_bit 12 (VIRT2PHYS page)"
    by (simp_all add: page_descriptor_def b word_smallpage_word take_bit_small l2pt_base_address_def take_drop_all)
  then show "take_bit 2 ?w = (if executable perms then 2 else 3)" by (simp add: word_fields)
  have "drop_bit 12 ?w = drop_bit 12 (VIRT2PHYS page)" using f(2) by (simp add: word_fields)
  then show "push_bit 12 (drop_bit 12 ?w) = VIRT2PHYS page"
    using aligned_drop_push [of "VIRT2PHYS page" 12] virt2phys_mod [of 4096 page] assms by simp
qed

subsection \<open>Mapping a page\<close>

lemma pool_words [simp]: "pmm_pool (m\<lparr>words := w\<rparr>) U = pmm_pool m U"
  by (simp add: pmm_pool_def pmm_rep_def live_def pmm_links_def)

lemma find_l2pt_eq: "take_bit 2 e = 1 \<Longrightarrow> find_l2pt e = Inr (l2_table e)"
  by (simp add: find_l2pt_def word_fields l2_table_def)

lemma page_apart:
  "pmm_pool m U \<Longrightarrow> sub_avail pagePartialFree m \<Longrightarrow> u \<in> U \<Longrightarrow> a \<in> footprint u \<Longrightarrow>
   pmm_allocate_page m = Inr (page, m') \<Longrightarrow> a \<notin> footprint (Page, page)"
  using pages.alloc_fresh [of m U] by fastforce

text \<open>The second half of \<open>vm2_allocate_page\<close>, in terms of the words of memory.\<close>

lemma vm2_map_page_ok:
  assumes pool: "pmm_pool (pmm s) U" and avail: "sub_avail pagePartialFree (pmm s)"
    and coarse: "take_bit 2 (words (pmm s) l1Entry) = 1"
    and l1: "\<forall>page m. pmm_allocate_page (pmm s) = Inr (page, m) \<longrightarrow> l1Entry \<notin> footprint (Page, page)"
    and l2: "l2 = l2_table (words (pmm s) l1Entry)" "arg = NULL \<or> arg = l2" "(L2PageTable, l2) \<in> U"
    and slot: "l2_slot (words (pmm s)) l2 virtual = 0 \<or> remap"
  shows "\<exists>page c s'. vm2_map_page s l1Entry virtual remap perms created arg = Inr (page, c, s') \<and>
     (Page, page) \<notin> U \<and> pmm_pool (pmm s') (insert (Page, page) U) \<and> unat page mod 4096 = 0 \<and>
     words (pmm s') = (cleared (Page, page) (words (pmm s)))
       (entry_address l2 (ucast (l2pt_index virtual)) := page_descriptor perms page)"
proof -
  from pages.alloc_fresh [OF pool avail] obtain page m where
    a: "pmm_allocate_page (pmm s) = Inr (page, m)" "(Page, page) \<notin> U" "pmm_pool m (insert (Page, page) U)"
      "\<forall>u \<in> U. footprint u \<inter> footprint (Page, page) = {}"
      "\<forall>a. words m a = (if a \<in> footprint (Page, page) then 0 else words (pmm s) a)" by blast
  have w: "words m = cleared (Page, page) (words (pmm s))" using a(5) by (simp add: fun_eq_iff cleared_def)
  have same: "words m x = words (pmm s) x" if "x \<in> footprint y" "y \<in> U" for x y
    using a(4,5) that by auto
  let ?sl = "entry_address l2 (ucast (l2pt_index virtual))"
  have e: "words m l1Entry = words (pmm s) l1Entry" using a(5) l1 [rule_format, OF a(1)] by simp
  have f: "words m ?sl = words (pmm s) ?sl" by (rule same [OF slot_in_l2 l2(3)])
  define s1 where "s1 = s\<lparr>pmm := m\<rparr>"
  have rd: "read_word s1 x = words m x" for x by (simp add: s1_def read_word_def)
  have arg: "(if arg = NULL then find_l2pt (read_word s1 l1Entry) else Inr arg) = Inr l2"
    using l2(1,2) find_l2pt_eq [OF coarse] e by (auto simp: rd)
  have "unat page mod 4096 = 0"
    using pmm_pool_aligned [OF a(3), of "(Page, page)"] by (simp add: usize_def)
  moreover have ok: "(read_word s1 ?sl \<noteq> 0 \<and> \<not> remap) = False" using slot f by (auto simp: l2_slot_def rd)
  define s2 where "s2 = write_word s1 ?sl (page_descriptor perms page)"
  have w2: "words (pmm s2) = (words m)(?sl := page_descriptor perms page)" "pmm_pool (pmm s2) V = pmm_pool m V" for V
    by (simp_all add: s2_def write_word_def s1_def)
  define s3 where "s3 = (if remap then vm2_flush_caches s2 else s2)"
  have p3: "pmm s3 = pmm s2" by (simp add: s3_def vm2_flush_caches_def)
  have "\<exists>c. vm2_map_page s l1Entry virtual remap perms created arg = Inr (page, c, s3)"
    unfolding vm2_map_page_def a(1) bindE.simps prod.case Let_def s1_def [symmetric] arg ok if_False
      s2_def [symmetric] s3_def [symmetric] by blast
  ultimately show ?thesis using a(2,3) w w2 p3 by (metis (no_types))
qed

text \<open>
  The state of the tables before: the process table is in order, and \<open>virtual\<close> is free, or is
  to be mapped again.
\<close>

definition mappable :: "(u32 \<Rightarrow> u32) \<Rightarrow> ptr \<Rightarrow> u32 \<Rightarrow> bool \<Rightarrow> bool" where
  "mappable m l1pt virtual remap \<longleftrightarrow>
     (let e = l1_slot m l1pt virtual in
      take_bit 2 e = 0 \<or> take_bit 2 e = 1 \<and> (l2_slot m (l2_table e) virtual = 0 \<or> remap))"

lemma walk_page_descriptor:
  "unat page mod 4096 = 0 \<Longrightarrow>
   walk_l2 (page_descriptor perms page) v = Some (VIRT2PHYS page OR take_bit 12 v, page_descriptor perms page)"
  by (simp add: walk_l2_def page_descriptor_fields)

text \<open>The entry of \<open>virtual\<close> holds the descriptor of \<open>page\<close>.\<close>

definition entered :: "(u32 \<Rightarrow> u32) \<Rightarrow> ptr \<Rightarrow> u32 \<Rightarrow> PagePermission \<Rightarrow> ptr \<Rightarrow> bool" where
  "entered m l1pt virtual perms page \<longleftrightarrow>
     take_bit 2 (l1_slot m l1pt virtual) = 1 \<and> unat page mod 4096 = 0 \<and>
     l2_slot m (l2_table (l1_slot m l1pt virtual)) virtual = page_descriptor perms page"

text \<open>
  What an operation on the table of \<open>virtual\<close> may write: units that are new, the first level
  table, and the second level table it had for \<open>virtual\<close>.
\<close>

definition confined :: "(u32 \<Rightarrow> u32) \<Rightarrow> (u32 \<Rightarrow> u32) \<Rightarrow> unit_id set \<Rightarrow> unit_id set \<Rightarrow> ptr \<Rightarrow> u32 \<Rightarrow> bool" where
  "confined m m' U U' l1pt virtual \<longleftrightarrow>
     (\<forall>a. m' a \<noteq> m a \<longrightarrow>
        (\<exists>u \<in> U' - U. a \<in> footprint u) \<or> a \<in> footprint (L1PageTable, l1pt) \<or>
        take_bit 2 (l1_slot m l1pt virtual) = 1 \<and>
          a \<in> footprint (L2PageTable, l2_table (l1_slot m l1pt virtual)))"

lemma map_existing:
  assumes pool: "pmm_pool (pmm s) U" and avail: "sub_avail pagePartialFree (pmm s)"
    and pt: "pt_ok (words (pmm s)) U l1pt" and v: "virtual < 0x80000000"
    and coarse: "take_bit 2 (l1_slot (words (pmm s)) l1pt virtual) = 1"
    and slot: "l2_slot (words (pmm s)) (l2_table (l1_slot (words (pmm s)) l1pt virtual)) virtual = 0 \<or> remap"
    and arg: "arg = NULL \<or> arg = l2_table (l1_slot (words (pmm s)) l1pt virtual)"
  shows "\<exists>page c s'. vm2_map_page s (entry_address l1pt (l1pt_index virtual)) virtual remap perms created arg = Inr (page, c, s') \<and>
     (Page, page) \<notin> U \<and> pmm_pool (pmm s') (insert (Page, page) U) \<and>
     pt_ok (words (pmm s')) (insert (Page, page) U) l1pt \<and> entered (words (pmm s')) l1pt virtual perms page \<and>
     confined (words (pmm s)) (words (pmm s')) U (insert (Page, page) U) l1pt virtual \<and>
     tables (words (pmm s')) l1pt = tables (words (pmm s)) l1pt \<and>
     (\<forall>v < 0x80000000. walk (words (pmm s')) l1pt v =
        (if drop_bit 12 v = drop_bit 12 virtual then Some (VIRT2PHYS page OR take_bit 12 v, page_descriptor perms page)
         else walk (words (pmm s)) l1pt v)) \<and>
     (\<forall>a \<in> footprint (Page, page). words (pmm s') a = 0)"
proof -
  let ?m = "words (pmm s)" and ?e = "entry_address l1pt (l1pt_index virtual)"
  let ?l2 = "l2_table (l1_slot ?m l1pt virtual)"
  note P = pt_okD [OF pt]
  have e: "take_bit 2 (?m ?e) = 1" "?l2 = l2_table (?m ?e)" using coarse by (simp_all add: l1_slot_def)
  have a: "\<forall>p m. pmm_allocate_page (pmm s) = Inr (p, m) \<longrightarrow> ?e \<notin> footprint (Page, p)"
    using page_apart [OF pool avail P(1) slot_in_l1 [OF v]] by blast
  from vm2_map_page_ok [OF pool avail e(1) a e(2) arg pt_ok_coarse(1) [OF pt v coarse] slot,
      where perms = perms and created = created]
  obtain page c s' where
    r: "vm2_map_page s ?e virtual remap perms created arg = Inr (page, c, s')" "(Page, page) \<notin> U"
      "pmm_pool (pmm s') (insert (Page, page) U)" "unat page mod 4096 = 0"
      "words (pmm s') = (cleared (Page, page) ?m)
         (entry_address ?l2 (ucast (l2pt_index virtual)) := page_descriptor perms page)"
    by (elim exE conjE) (rule that)
  note c = clear_page_walk [OF pt pool_separate [OF r(3)] refl]
  have l2: "?l2 = l2_table (l1_slot (cleared (Page, page) ?m) l1pt virtual)" by (simp add: c(2) [OF v])
  have "take_bit 2 (l1_slot (cleared (Page, page) ?m) l1pt virtual) = 1" by (simp add: c(2) [OF v] coarse)
  note w = set_slot_walk [OF c(1) pool_separate [OF r(3)] v this l2 r(5)]
  have "walk (words (pmm s')) l1pt x =
        (if drop_bit 12 x = drop_bit 12 virtual then Some (VIRT2PHYS page OR take_bit 12 x, page_descriptor perms page)
         else walk ?m l1pt x)" if "x < 0x80000000" for x
    using w(3) [of x] c(3) [of x] that walk_page_descriptor [OF r(4)] by simp
  moreover have "entered (words (pmm s')) l1pt virtual perms page"
    using w(2) [OF v] c(2) [OF v] coarse r(4) by (simp add: entered_def) (simp add: l2_slot_def r(5))
  moreover have "confined ?m (words (pmm s')) U (insert (Page, page) U) l1pt virtual"
    using coarse r(2) slot_in_l2 [of ?l2 virtual] unfolding confined_def r(5) by (auto simp: cleared_def split: if_splits)
  moreover have "tables (words (pmm s')) l1pt = tables ?m l1pt"
    using w(2) c(2) by (intro tables_cong) simp
  moreover have "words (pmm s') a = 0" if a: "a \<in> footprint (Page, page)" for a
  proof -
    have "(L2PageTable, ?l2) \<in> U" by (rule pt_ok_coarse(1) [OF pt v coarse])
    then have "entry_address ?l2 (ucast (l2pt_index virtual)) \<notin> footprint (Page, page)"
      by (intro separateD [OF pool_separate [OF r(3)] _ _ _ slot_in_l2]) auto
    then have "a \<noteq> entry_address ?l2 (ucast (l2pt_index virtual))" using a by auto
    then show ?thesis using a by (simp add: r(5) cleared_def)
  qed
  ultimately show ?thesis using r(1-3) w(1) by blast
qed

lemma sub_avail_words [simp]: "sub_avail l (m\<lparr>words := w\<rparr>) = sub_avail l m"
  by (simp add: sub_avail_def)

lemma alloc_page_fails: "\<not> sub_avail pagePartialFree m \<Longrightarrow> pmm_allocate_page m = Inl NullDeref"
  by (simp add: sub_avail_def pmm_exhausted)

lemma vm2_map_page_avail:
  "vm2_map_page s l1Entry virtual remap perms created arg \<noteq> Inl NullDeref \<Longrightarrow> sub_avail pagePartialFree (pmm s)"
  by (rule ccontr) (simp add: vm2_map_page_def alloc_page_fails)

lemma vm2_allocate_page_ok:
  assumes pool: "pmm_pool (pmm s) U" and pt: "pt_ok (words (pmm s)) U l1pt" and v: "virtual < 0x80000000"
    and free: "mappable (words (pmm s)) l1pt virtual remap"
    and mem: "vm2_allocate_page s l1pt virtual remap perms created \<noteq> Inl NullDeref"
  shows "\<exists>page c s' U'. vm2_allocate_page s l1pt virtual remap perms created = Inr (page, c, s') \<and>
     (Page, page) \<notin> U \<and> insert (Page, page) U \<subseteq> U' \<and> pmm_pool (pmm s') U' \<and>
     pt_ok (words (pmm s')) U' l1pt \<and> entered (words (pmm s')) l1pt virtual perms page \<and>
     confined (words (pmm s)) (words (pmm s')) U U' l1pt virtual \<and>
     tables (words (pmm s')) l1pt \<subseteq> tables (words (pmm s)) l1pt \<union> {t. (L2PageTable, t) \<in> U' - U} \<and>
     (\<forall>v < 0x80000000. walk (words (pmm s')) l1pt v =
        (if drop_bit 12 v = drop_bit 12 virtual then Some (VIRT2PHYS page OR take_bit 12 v, page_descriptor perms page)
         else walk (words (pmm s)) l1pt v)) \<and>
     (\<forall>a \<in> footprint (Page, page). words (pmm s') a = 0)"
proof -
  let ?m = "words (pmm s)" and ?e = "entry_address l1pt (l1pt_index virtual)"
  have ty: "se_type (word_section (read_word s ?e)) = take_bit 2 (l1_slot ?m l1pt virtual)"
    by (simp add: word_fields read_word_def l1_slot_def)
  show ?thesis
  proof (cases "take_bit 2 (l1_slot ?m l1pt virtual) = 1")
    case True
    have eq: "vm2_allocate_page s l1pt virtual remap perms created = vm2_map_page s ?e virtual remap perms created NULL"
      unfolding vm2_allocate_page_def Let_def ty True by simp
    have slot: "l2_slot ?m (l2_table (l1_slot ?m l1pt virtual)) virtual = 0 \<or> remap"
      using free True by (auto simp: mappable_def Let_def)
    from map_existing [OF pool vm2_map_page_avail [OF mem [unfolded eq]] pt v True slot, of NULL perms created]
    obtain page c s' where
      "vm2_map_page s ?e virtual remap perms created NULL = Inr (page, c, s')" "(Page, page) \<notin> U"
      "pmm_pool (pmm s') (insert (Page, page) U)" "pt_ok (words (pmm s')) (insert (Page, page) U) l1pt"
      "entered (words (pmm s')) l1pt virtual perms page"
      "confined ?m (words (pmm s')) U (insert (Page, page) U) l1pt virtual"
      "tables (words (pmm s')) l1pt = tables ?m l1pt"
      "\<forall>v < 0x80000000. walk (words (pmm s')) l1pt v =
        (if drop_bit 12 v = drop_bit 12 virtual then Some (VIRT2PHYS page OR take_bit 12 v, page_descriptor perms page)
         else walk ?m l1pt v)" "\<forall>a \<in> footprint (Page, page). words (pmm s') a = 0" by blast
    then show ?thesis unfolding eq
      by (intro exI [of _ page] exI [of _ c] exI [of _ s'] exI [of _ "insert (Page, page) U"]) simp
  next
    case False
    then have z: "take_bit 2 (l1_slot ?m l1pt virtual) = 0" using free by (auto simp: mappable_def Let_def)
    have av: "sub_avail l2ptPartialFree (pmm s)"
    proof (rule ccontr)
      assume "\<not> ?thesis"
      then have "pmm_allocate_l2_pagetable (pmm s) = Inl NullDeref" by (simp add: sub_avail_def pmm_exhausted)
      with mem show False unfolding vm2_allocate_page_def Let_def ty z by simp
    qed
    from l2_tables.alloc_fresh [OF pool av] obtain l2 m where
      a: "pmm_allocate_l2_pagetable (pmm s) = Inr (l2, m)" "(L2PageTable, l2) \<notin> U"
        "pmm_pool m (insert (L2PageTable, l2) U)"
        "\<forall>a. words m a = (if a \<in> footprint (L2PageTable, l2) then 0 else ?m a)" by blast
    have w: "words m = cleared (L2PageTable, l2) ?m" using a(4) by (simp add: fun_eq_iff cleared_def)
    let ?d = "coarse_word (zero_coarse\<lparr>co_type := 1, co_base_address := drop_bit 10 (VIRT2PHYS l2)\<rparr>)"
    let ?U = "insert (L2PageTable, l2) U"
    have al: "unat l2 mod 1024 = 0" using pmm_pool_aligned [OF a(3), of "(L2PageTable, l2)"] by (simp add: usize_def)
    define s1 where "s1 = write_word (s\<lparr>pmm := m\<rparr>) ?e ?d"
    have s1: "words (pmm s1) = (cleared (L2PageTable, l2) ?m)(?e := ?d)" "pmm_pool (pmm s1) ?U"
      using a(3) by (simp_all add: s1_def write_word_def w)
    note t = new_table_walk [OF pt pool_separate [OF a(3)] a(2) v z coarse_descriptor [OF al] s1(1)]
    have eq: "vm2_allocate_page s l1pt virtual remap perms created =
        vm2_map_page s1 ?e virtual remap perms (map_option (\<lambda>_. l2) created) l2"
      unfolding vm2_allocate_page_def Let_def ty z by (simp add: a(1) s1_def)
    have l2d: "l2_table (l1_slot (words (pmm s1)) l1pt virtual) = l2" "take_bit 2 (l1_slot (words (pmm s1)) l1pt virtual) = 1"
      unfolding t(2) by (simp_all add: coarse_descriptor [OF al])
    have slot: "l2_slot (words (pmm s1)) (l2_table (l1_slot (words (pmm s1)) l1pt virtual)) virtual = 0 \<or> remap"
      unfolding l2d using t(4) by simp
    from map_existing [OF s1(2) vm2_map_page_avail [OF mem [unfolded eq]] t(1) v l2d(2) slot, of l2 perms "map_option (\<lambda>_. l2) created"] l2d(1)
    obtain page c s' where
      r: "vm2_map_page s1 ?e virtual remap perms (map_option (\<lambda>_. l2) created) l2 = Inr (page, c, s')" "(Page, page) \<notin> ?U"
      "pmm_pool (pmm s') (insert (Page, page) ?U)" "pt_ok (words (pmm s')) (insert (Page, page) ?U) l1pt"
      "entered (words (pmm s')) l1pt virtual perms page"
      "confined (words (pmm s1)) (words (pmm s')) ?U (insert (Page, page) ?U) l1pt virtual"
      "tables (words (pmm s')) l1pt = tables (words (pmm s1)) l1pt"
      "\<forall>v < 0x80000000. walk (words (pmm s')) l1pt v =
        (if drop_bit 12 v = drop_bit 12 virtual then Some (VIRT2PHYS page OR take_bit 12 v, page_descriptor perms page)
         else walk (words (pmm s1)) l1pt v)" "\<forall>a \<in> footprint (Page, page). words (pmm s') a = 0" by auto
    have "confined ?m (words (pmm s')) U (insert (Page, page) ?U) l1pt virtual"
    proof -
      have "a \<in> footprint (L2PageTable, l2) \<or> a \<in> footprint (L1PageTable, l1pt)" if "words (pmm s1) a \<noteq> ?m a" for a
        using that slot_in_l1 [OF v, of l1pt] unfolding s1(1) by (auto simp: cleared_def split: if_splits)
      moreover have "(Page, page) \<notin> U" "(Page, page) \<noteq> (L2PageTable, l2)" using r(2) by auto
      ultimately show ?thesis using r(6) a(2) l2d(1) unfolding confined_def by (metis Diff_iff insert_iff)
    qed
    moreover have "tables (words (pmm s')) l1pt \<subseteq> tables ?m l1pt \<union> {t. (L2PageTable, t) \<in> insert (Page, page) ?U - U}"
      using t(5) r(7) a(2) by auto
    ultimately show ?thesis unfolding eq
      using t(3) r
      by (intro exI [of _ page] exI [of _ c] exI [of _ s'] exI [of _ "insert (Page, page) ?U"]) auto
  qed
qed

subsection \<open>Unmapping a page\<close>

lemma vm2_free_page_ok:
  assumes pool: "pmm_pool (pmm s) U" and pt: "pt_ok (words (pmm s)) U l1pt" and v: "virtual < 0x80000000"
    and coarse: "take_bit 2 (l1_slot (words (pmm s)) l1pt virtual) = 1"
    and f: "f = l2_slot (words (pmm s)) (l2_table (l1_slot (words (pmm s)) l1pt virtual)) virtual"
    and page: "(Page, PHYS2VIRT (push_bit 12 (drop_bit 12 f))) \<in> U"
  shows "\<exists>s'. vm2_free_page s l1pt virtual = Inr s' \<and>
     pmm_pool (pmm s') (U - {(Page, PHYS2VIRT (push_bit 12 (drop_bit 12 f)))}) \<and>
     pt_ok (words (pmm s')) (U - {(Page, PHYS2VIRT (push_bit 12 (drop_bit 12 f)))}) l1pt \<and>
     (\<forall>v < 0x80000000. walk (words (pmm s')) l1pt v =
        (if drop_bit 12 v = drop_bit 12 virtual then None else walk (words (pmm s)) l1pt v))"
proof -
  let ?m = "words (pmm s)" and ?p = "PHYS2VIRT (push_bit 12 (drop_bit 12 f))"
  let ?l2 = "l2_table (l1_slot ?m l1pt virtual)"
  let ?a = "entry_address ?l2 (ucast (l2pt_index virtual))"
  from page_release_law [OF pool page] obtain m where
    m: "pmm_free_page (pmm s) ?p = Inr m" "pmm_pool m (U - {(Page, ?p)})" "words m = ?m" by blast
  define s1 where "s1 = vm2_flush_caches (write_word (s\<lparr>pmm := m\<rparr>) ?a 0)"
  have s1: "words (pmm s1) = ?m(?a := 0)" "pmm_pool (pmm s1) (U - {(Page, ?p)})"
    using m(2,3) by (simp_all add: s1_def vm2_flush_caches_def write_word_def)
  have rd: "read_word s (entry_address l1pt (l1pt_index virtual)) = l1_slot ?m l1pt virtual" "read_word s ?a = f"
    by (simp_all add: read_word_def l1_slot_def f l2_slot_def)
  have "vm2_free_page s l1pt virtual = Inr s1"
    by (simp add: vm2_free_page_def Let_def rd word_fields coarse find_l2pt_eq [OF coarse] m(1)
        phys2virt_eq_virt2phys [symmetric] s1_def)
  moreover note w = set_slot_walk [OF pt pool_separate [OF pool] v coarse refl s1(1)]
  have "walk_l2 0 x = None" for x by (simp add: walk_l2_def)
  with w(3) have "\<forall>x < 0x80000000. walk (words (pmm s1)) l1pt x =
      (if drop_bit 12 x = drop_bit 12 virtual then None else walk ?m l1pt x)" by auto
  moreover have "pt_ok (words (pmm s1)) (U - {(Page, ?p)}) l1pt"
    by (rule pt_ok_cong [OF w(1) refl]) simp
  ultimately show ?thesis using s1(2) by blast
qed

subsection \<open>Properties\<close>

text \<open>
  (C17) \<^bold>\<open>Mapping a page.\<close> For a process table in order and an address in the lower half that is
  free (or to be remapped), \<open>vm2_allocate_page\<close> returns a new page whose words are all zero, unless physical memory runs
  out, where the code follows a null pointer. Afterwards every address of the page around \<open>virtual\<close> translates into it with the
  descriptor of the requested permissions, every other address translates as before, and the
  table is in order.
\<close>

theorem vm2_allocate_page_maps:
  assumes "pmm_pool (pmm s) U" and "pt_ok (words (pmm s)) U l1pt" and "virtual < 0x80000000"
    and "mappable (words (pmm s)) l1pt virtual remap"
    and "vm2_allocate_page s l1pt virtual remap perms created \<noteq> Inl NullDeref"
  shows "\<exists>page c s' U'. vm2_allocate_page s l1pt virtual remap perms created = Inr (page, c, s') \<and>
     (Page, page) \<notin> U \<and> insert (Page, page) U \<subseteq> U' \<and> pmm_pool (pmm s') U' \<and>
     pt_ok (words (pmm s')) U' l1pt \<and> entered (words (pmm s')) l1pt virtual perms page \<and>
     confined (words (pmm s)) (words (pmm s')) U U' l1pt virtual \<and>
     tables (words (pmm s')) l1pt \<subseteq> tables (words (pmm s)) l1pt \<union> {t. (L2PageTable, t) \<in> U' - U} \<and>
     (\<forall>v < 0x80000000. walk (words (pmm s')) l1pt v =
        (if drop_bit 12 v = drop_bit 12 virtual then Some (VIRT2PHYS page OR take_bit 12 v, page_descriptor perms page)
         else walk (words (pmm s)) l1pt v)) \<and>
     (\<forall>a \<in> footprint (Page, page). words (pmm s') a = 0)"
  by (rule vm2_allocate_page_ok [OF assms])

text \<open>Five slices: the structs, two first level tables, two unused slices.\<close>

definition demo_vm :: vm2_state where
  "demo_vm = \<lparr>pmm = \<lparr>sinfo = (\<lambda>_. zero_sliceinfo)
       (0x200000 := zero_sliceinfo\<lparr>mtype := BucketInfo, filled := 1, snext := 0x200010, slice := 0x200000\<rparr>,
        0x200010 := zero_sliceinfo\<lparr>mtype := L1PageTable, sprev := 0x200000, snext := 0x200020, slice := 0x202000\<rparr>,
        0x200020 := zero_sliceinfo\<lparr>mtype := L1PageTable, sprev := 0x200010, slice := 0x204000\<rparr>,
        0x200030 := zero_sliceinfo\<lparr>slice := 0x206000, snext := 0x200040\<rparr>,
        0x200040 := zero_sliceinfo\<lparr>slice := 0x208000, sprev := 0x200030\<rparr>),
     heads = (\<lambda>l. case l of unused \<Rightarrow> 0x200030 | allocated \<Rightarrow> 0x200000 | l2ptPartialFree \<Rightarrow> NULL | pagePartialFree \<Rightarrow> NULL),
     pstart = 0x200000, pend = 0x20a000, words = (\<lambda>_. 0)\<rparr>,
     mmio_current_top = KERNEL_MMIO_BASE, mmu_started = True, mmu_log = []\<rparr>"

definition demo_vm_lists :: "pmm_list \<Rightarrow> ptr list" where
  "demo_vm_lists l = (case l of unused \<Rightarrow> [0x200030, 0x200040] | allocated \<Rightarrow> [0x200000, 0x200010, 0x200020]
     | l2ptPartialFree \<Rightarrow> [] | pagePartialFree \<Rightarrow> [])"

definition demo_units :: "unit_id set" where
  "demo_units = {(BucketInfo, 0x200000), (L1PageTable, 0x202000), (L1PageTable, 0x204000)}"

lemma demo_vm_rep: "pmm_rep (pmm demo_vm) demo_vm_lists \<and> live (pmm demo_vm) demo_vm_lists = demo_units"
proof -
  have l: "pmm_links (pmm demo_vm) demo_vm_lists"
    by (auto simp: pmm_links_def demo_vm_lists_def demo_vm_def zero_sliceinfo_def split: pmm_list.splits)
  have g: "geom 0x200000 0x200000 (sinfo (pmm demo_vm) 0x200000)" "geom 0x200000 0x200010 (sinfo (pmm demo_vm) 0x200010)"
    "geom 0x200000 0x200020 (sinfo (pmm demo_vm) 0x200020)" "geom 0x200000 0x200030 (sinfo (pmm demo_vm) 0x200030)"
    "geom 0x200000 0x200040 (sinfo (pmm demo_vm) 0x200040)"
    by (simp_all add: geom_def is_slice_def sliceinfo_address_eq slice_no_def info_offset_def demo_vm_def zero_sliceinfo_def)
  have c: "cls allocated (sinfo (pmm demo_vm) 0x200000)" "cls allocated (sinfo (pmm demo_vm) 0x200010)"
    "cls allocated (sinfo (pmm demo_vm) 0x200020)" "cls unused (sinfo (pmm demo_vm) 0x200030)"
    "cls unused (sinfo (pmm demo_vm) 0x200040)"
    by (simp_all add: cls_def demo_vm_def zero_sliceinfo_def)
  have "pstart (pmm demo_vm) = 0x200000" by (simp add: demo_vm_def)
  moreover have "unat (0x200000 :: u32) mod 8192 = 0" by simp
  ultimately have "pmm_rep (pmm demo_vm) demo_vm_lists"
    using l g c by (auto simp: pmm_rep_def demo_vm_lists_def split: pmm_list.splits)
  moreover have "units (sinfo (pmm demo_vm) 0x200000) = {(BucketInfo, 0x200000)}"
    by (subst units_whole [of BucketInfo]) (simp_all add: usize_def demo_vm_def zero_sliceinfo_def)
  moreover have "units (sinfo (pmm demo_vm) 0x200010) = {(L1PageTable, 0x202000)}"
    "units (sinfo (pmm demo_vm) 0x200020) = {(L1PageTable, 0x204000)}"
    by (subst units_whole [of L1PageTable]; simp add: usize_def demo_vm_def zero_sliceinfo_def)+
  ultimately have "live (pmm demo_vm) demo_vm_lists = demo_units"
    by (auto simp: live_def demo_vm_lists_def demo_units_def split: pmm_list.splits)
  with \<open>pmm_rep (pmm demo_vm) demo_vm_lists\<close> show ?thesis by blast
qed

lemma demo_vm_pool: "pmm_pool (pmm demo_vm) demo_units"
  using demo_vm_rep by (auto simp: pmm_pool_def)

lemma demo_vm_words [simp]: "words (pmm demo_vm) = (\<lambda>_. 0)"
  by (simp add: demo_vm_def)

lemma vm2_map_page_no_null:
  assumes "pmm_pool (pmm s) U" "sub_avail pagePartialFree (pmm s)"
  shows "vm2_map_page s l1Entry virtual remap perms created arg \<noteq> Inl NullDeref"
proof -
  from page_alloc_law [OF assms] obtain p m where "pmm_allocate_page (pmm s) = Inr (p, m)" by blast
  then show ?thesis by (auto simp: vm2_map_page_def Let_def find_l2pt_def)
qed

text \<open>A first level table that is all zero maps nothing.\<close>

lemma empty_table:
  assumes "(L1PageTable, l1pt) \<in> U" and "\<And>v. l1_slot m l1pt v = 0"
  shows "pt_ok m U l1pt" "mappable m l1pt v remap" "walk m l1pt v = None"
  using assms by (simp_all add: pt_ok_def coarse_ok_def mappable_def walk_def Let_def)

lemma demo_vm_allocates:
  "vm2_allocate_page demo_vm l1pt v remap perms created \<noteq> Inl NullDeref"
proof -
  have z: "se_type (word_section (read_word demo_vm (entry_address l1pt (l1pt_index v)))) = 0"
    by (simp add: word_fields read_word_def)
  obtain m where m: "pmm_allocate_l2_pagetable (pmm demo_vm) = Inr (0x206000, m)" "heads m unused = 0x200040"
     by (simp add: pmm_allocate_l2_pagetable_def demo_vm_def pop_from_ll_def sget_def sput_def push_to_ll_def
        zero_sliceinfo_def pmm_clear_def Let_def)
  have "sub_avail l2ptPartialFree (pmm demo_vm)" by (simp add: sub_avail_def demo_vm_def)
  from l2_alloc_law [OF demo_vm_pool this] m(1) obtain U where "pmm_pool m U" by auto
  moreover have "sub_avail pagePartialFree m" using m(2) by (simp add: sub_avail_def)
  ultimately show ?thesis
    unfolding vm2_allocate_page_def Let_def z
    by (simp add: m(1)) (rule vm2_map_page_no_null; simp add: write_word_def)
qed

theorem vm2_allocate_page_maps_witness:
  "let U = demo_units; perms = \<lparr>access = UserRW, executable = False\<rparr> in
   \<exists>page c s' U'. vm2_allocate_page demo_vm 0x202000 0x1234 False perms None = Inr (page, c, s') \<and>
     (Page, page) \<notin> U \<and> insert (Page, page) U \<subseteq> U' \<and> pmm_pool (pmm s') U' \<and>
     pt_ok (words (pmm s')) U' 0x202000 \<and> entered (words (pmm s')) 0x202000 0x1234 perms page \<and>
     confined (words (pmm demo_vm)) (words (pmm s')) U U' 0x202000 0x1234 \<and>
     tables (words (pmm s')) 0x202000 \<subseteq> tables (words (pmm demo_vm)) 0x202000 \<union> {t. (L2PageTable, t) \<in> U' - U} \<and>
     (\<forall>v < 0x80000000. walk (words (pmm s')) 0x202000 v =
        (if drop_bit 12 v = drop_bit 12 0x1234 then Some (VIRT2PHYS page OR take_bit 12 v, page_descriptor perms page)
         else walk (words (pmm demo_vm)) 0x202000 v)) \<and>
     (\<forall>a \<in> footprint (Page, page). words (pmm s') a = 0)"
  unfolding Let_def
  by (rule vm2_allocate_page_maps [OF demo_vm_pool _ _ _ demo_vm_allocates])
     (simp_all add: empty_table l1_slot_def mappable_def demo_units_def)

text \<open>
  (C19) \<^bold>\<open>Unmapping undoes mapping.\<close> Freeing through any address of the page that was just mapped
  gives exactly that page back to the physical memory manager; its addresses fault again and
  all other translations are those of before.
\<close>

theorem vm2_map_unmap_round_trip:
  assumes "pmm_pool (pmm s) U" and "pt_ok (words (pmm s)) U l1pt" and "virtual < 0x80000000"
    and "mappable (words (pmm s)) l1pt virtual remap"
    and "vm2_allocate_page s l1pt virtual remap perms created \<noteq> Inl NullDeref"
    and "drop_bit 12 v' = drop_bit 12 virtual"
  shows "\<exists>page c s1 s2 U'. vm2_allocate_page s l1pt virtual remap perms created = Inr (page, c, s1) \<and>
     vm2_free_page s1 l1pt v' = Inr s2 \<and>
     (Page, page) \<notin> U' \<and> U \<subseteq> U' \<and> pmm_pool (pmm s2) U' \<and> pt_ok (words (pmm s2)) U' l1pt \<and>
     (\<forall>v < 0x80000000. walk (words (pmm s2)) l1pt v =
        (if drop_bit 12 v = drop_bit 12 virtual then None else walk (words (pmm s)) l1pt v))"
proof -
  from vm2_allocate_page_ok [OF assms(1-5)] obtain page c s1 U' where
    a: "vm2_allocate_page s l1pt virtual remap perms created = Inr (page, c, s1)" "(Page, page) \<notin> U"
      "insert (Page, page) U \<subseteq> U'" "pmm_pool (pmm s1) U'" "pt_ok (words (pmm s1)) U' l1pt"
      "entered (words (pmm s1)) l1pt virtual perms page" "confined (words (pmm s)) (words (pmm s1)) U U' l1pt virtual"
      "tables (words (pmm s1)) l1pt \<subseteq> tables (words (pmm s)) l1pt \<union> {t. (L2PageTable, t) \<in> U' - U}"
      "\<forall>v < 0x80000000. walk (words (pmm s1)) l1pt v =
        (if drop_bit 12 v = drop_bit 12 virtual then Some (VIRT2PHYS page OR take_bit 12 v, page_descriptor perms page)
         else walk (words (pmm s)) l1pt v)" by blast
  have i: "l1pt_index v' = l1pt_index virtual" "l2pt_index v' = l2pt_index virtual"
    using assms(6) by (simp_all add: same_page_iff)
  have "unat v' div 4096 = unat virtual div 4096" using assms(6) by (simp add: word_unat_eq_iff unat_drop_bit)
  then have v': "v' < 0x80000000"
    using assms(3) div_less_iff_less_mult [of 4096 "unat v'" 524288] div_less_iff_less_mult [of 4096 "unat virtual" 524288]
    by (simp add: word_less_nat_alt)
  have e: "take_bit 2 (l1_slot (words (pmm s1)) l1pt v') = 1"
    "page_descriptor perms page = l2_slot (words (pmm s1)) (l2_table (l1_slot (words (pmm s1)) l1pt v')) v'"
    using a(6) i by (simp_all add: entered_def l1_slot_def l2_slot_def)
  have "PHYS2VIRT (push_bit 12 (drop_bit 12 (page_descriptor perms page))) = page"
    using a(6) by (simp add: entered_def page_descriptor_fields)
  with vm2_free_page_ok [OF a(4,5) v' e] a(3) obtain s2 where
    b: "vm2_free_page s1 l1pt v' = Inr s2" "pmm_pool (pmm s2) (U' - {(Page, page)})"
      "pt_ok (words (pmm s2)) (U' - {(Page, page)}) l1pt"
      "\<forall>v < 0x80000000. walk (words (pmm s2)) l1pt v = (if drop_bit 12 v = drop_bit 12 v' then None else walk (words (pmm s1)) l1pt v)"
    by auto
  show ?thesis
    using a(1,2,3,9) b assms(6)
    by (intro exI [of _ page] exI [of _ c] exI [of _ s1] exI [of _ s2] exI [of _ "U' - {(Page, page)}"]) auto
qed

theorem vm2_map_unmap_round_trip_witness:
  "\<exists>page c s1 s2 U'. vm2_allocate_page demo_vm 0x202000 0x1234 False \<lparr>access = KernelRO, executable = True\<rparr> None = Inr (page, c, s1) \<and>
     vm2_free_page s1 0x202000 0x1000 = Inr s2 \<and> (Page, page) \<notin> U' \<and> pmm_pool (pmm s2) U' \<and>
     (\<forall>v < 0x80000000. walk (words (pmm s2)) 0x202000 v = None)"
proof -
  have "drop_bit 12 (0x1000 :: u32) = drop_bit 12 0x1234" by simp
  from vm2_map_unmap_round_trip [OF demo_vm_pool _ _ _ demo_vm_allocates this,
      where l1pt = "0x202000" and remap = False and perms = \<open>\<lparr>access = KernelRO, executable = True\<rparr>\<close> and created = None]
  show ?thesis by (fastforce simp: empty_table l1_slot_def mappable_def demo_units_def)
qed

text \<open>The access table of the manual, and what the comments of \<open>enum Access\<close> promise.\<close>

datatype hw_access = NoAccess | ReadOnly | ReadWrite | ReservedAccess

definition hw_permissions :: "u32 \<Rightarrow> u32 \<Rightarrow> hw_access \<times> hw_access" where
  "hw_permissions apx ap =
     (if apx = 0
      then (if ap = 0 then (NoAccess, NoAccess) else if ap = 1 then (ReadWrite, NoAccess)
            else if ap = 2 then (ReadWrite, ReadOnly) else (ReadWrite, ReadWrite))
      else (if ap = 0 then (ReservedAccess, ReservedAccess) else if ap = 1 then (ReadOnly, NoAccess)
            else (ReadOnly, ReadOnly)))"

definition promised :: "Access \<Rightarrow> hw_access \<times> hw_access" where
  "promised a = (case a of KernelRO \<Rightarrow> (ReadOnly, NoAccess) | KernelRW \<Rightarrow> (ReadWrite, NoAccess)
     | UserRO \<Rightarrow> (ReadWrite, ReadOnly) | UserRW \<Rightarrow> (ReadWrite, ReadWrite))"

text \<open>
  (C21) \<^bold>\<open>Permissions.\<close> Read back through the struct, the descriptor of a page grants what the enum
  \<open>Access\<close> promises under the access table of the manual: the privileged and the user access, that
  only user pages are tied to an address space, and the execute-never bit.
\<close>

theorem page_descriptor_permissions:
  "let d = word_smallpage (page_descriptor perms page) in
   hw_permissions (sp_accessExtended d) (sp_accessPermissions d) = promised (access perms) \<and>
   (sp_notglobal d = 1 \<longleftrightarrow> access perms \<in> {UserRO, UserRW}) \<and>
   (sp_type d = 3 \<longleftrightarrow> \<not> executable perms) \<and> sp_type d \<in> {2, 3} \<and>
   sp_base_address d = drop_bit 12 (VIRT2PHYS page)"
  by (cases "access perms")
     (simp_all add: page_descriptor_def page_permission_bits_def word_smallpage_word take_bit_small Let_def
        hw_permissions_def promised_def l2pt_base_address_def take_drop_all zero_smallpage_def)

text \<open>
  \<^bold>\<open>The layout of the entries.\<close> Each of the four structs covers the 32 bits of the union: taking
  a word apart into fields and putting them together again gives the word.
\<close>

theorem pagetable_entry_layout:
  "coarse_word (word_coarse w) = w \<and> section_word (word_section w) = w \<and>
   smallpage_word (word_smallpage w) = w \<and> largepage_word (word_largepage w) = w"
  by (simp add: entry_layouts)

text \<open>
  The result through \<open>created_l2pt\<close>: the last statement resets it, also when a table was created,
  so the caller never learns of the table.
\<close>

lemma created_l2pt_always_null:
  "vm2_allocate_page s l1pt virtual remap perms (Some NULL) = Inr (page, c, s') \<Longrightarrow> c = Some NULL"
  by (auto simp: vm2_allocate_page_def vm2_map_page_def Let_def bindE_Inr_iff split: if_splits)

text \<open>The table that is written is the kernel's, whichever table was checked.\<close>

lemma l1_map_writes_kernel_table:
  assumes "pt \<noteq> kernell1PageTable" and "read_word s (entry_address pt (l1pt_index virtual)) = 0"
  shows "\<exists>s'. vm2_l1_map_physical_to_virtual s pt entry virtual remap = Inr (False, s') \<and>
    read_word s' (entry_address kernell1PageTable (l1pt_index virtual)) = entry \<and>
    read_word s' (entry_address pt (l1pt_index virtual)) = 0"
  using assms
  by (auto simp: vm2_l1_map_physical_to_virtual_def read_word_def write_word_def Let_def entry_address_def)

subsection \<open>Sections: RAM and peripherals\<close>

definition ram_section :: "u32 \<Rightarrow> u32" where
  "ram_section p = section_word (zero_section\<lparr>se_type := 2, se_accessPermissions := 1,
                                  se_base_address := l1pt_base_address p\<rparr>)"

text \<open>The words after \<open>n\<close> consecutive mebibytes from \<open>p\<close> are entered from \<open>v\<close> on.\<close>

primrec map_sections :: "nat \<Rightarrow> (u32 \<Rightarrow> u32) \<Rightarrow> u32 \<Rightarrow> u32 \<Rightarrow> u32 \<Rightarrow> u32" where
  "map_sections 0 m v p = m"
| "map_sections (Suc n) m v p =
     map_sections n (m(entry_address kernell1PageTable (l1pt_index v) := ram_section p)) (v + Mebibyte) (p + Mebibyte)"

lemma Mebibyte_eq: "Mebibyte = 1048576"
  by (simp add: Mebibyte_def Kibibyte_def)

lemma l1pt_index_plus: "unat (l1pt_index (v + of_nat k * Mebibyte)) = (unat v div 1048576 + k) mod 4096"
proof -
  have "unat (v + of_nat k * Mebibyte) = (unat v + k * 1048576) mod (1048576 * 4096)"
    by (simp add: unat_word_ariths unat_of_nat take_bit_nat_def Mebibyte_eq mod_simps)
  then have "unat (l1pt_index (v + of_nat k * Mebibyte)) = (unat v + k * 1048576) mod (1048576 * 4096) div 1048576"
    by (simp only: unat_l1pt_index)
  also have "\<dots> = (unat v + k * 1048576) div 1048576 mod 4096"
    by (simp only: mod_mult2_eq)
  finally show ?thesis by (simp add: add.commute)
qed

lemma l1pt_index_distinct:
  "k < 4096 \<Longrightarrow> l1pt_index v = l1pt_index (v + of_nat k * Mebibyte) \<longleftrightarrow> k = 0"
proof -
  assume k: "k < 4096"
  let ?i = "unat v div 1048576"
  have i: "?i < 4096" using u32_unat_lt [of v] by simp
  have "?i = (?i + k) mod 4096 \<longleftrightarrow> k = 0"
    using i k by (cases "?i + k < 4096") (auto simp: mod_if)
  then show ?thesis unfolding word_unat_eq_iff l1pt_index_plus by (simp add: unat_l1pt_index)
qed

lemma map_sections_other:
  "(\<And>k. k < n \<Longrightarrow> l1pt_index w \<noteq> l1pt_index (v + of_nat k * Mebibyte)) \<Longrightarrow>
   map_sections n m v p (entry_address kernell1PageTable (l1pt_index w)) = m (entry_address kernell1PageTable (l1pt_index w))"
proof (induction n arbitrary: m v p)
  case (Suc n)
  have "l1pt_index w \<noteq> l1pt_index (v + Mebibyte + of_nat k * Mebibyte)" if "k < n" for k
    using Suc.prems [of "Suc k"] that by (simp add: algebra_simps)
  moreover have "l1pt_index w \<noteq> l1pt_index v" using Suc.prems [of 0] by simp
  ultimately show ?case using Suc.IH [of "v + Mebibyte"] by (simp add: entry_address_l1_inj)
qed simp

lemma map_sections_slot:
  "n \<le> 4096 \<Longrightarrow> k < n \<Longrightarrow>
   l1_slot (map_sections n m v p) kernell1PageTable (v + of_nat k * Mebibyte) = ram_section (p + of_nat k * Mebibyte)"
proof (induction n arbitrary: m v p k)
  case (Suc n)
  show ?case
  proof (cases k)
    case 0
    have "l1pt_index v \<noteq> l1pt_index (v + Mebibyte + of_nat j * Mebibyte)" if "j < n" for j
      using l1pt_index_distinct [of "Suc j" v] that Suc.prems(1) by (simp add: algebra_simps)
    then show ?thesis by (simp add: 0 l1_slot_def map_sections_other)
  next
    case (Suc j)
    with Suc.IH [of j "m(entry_address kernell1PageTable (l1pt_index v) := ram_section p)" "v + Mebibyte" "p + Mebibyte"] Suc.prems
    show ?thesis by (simp add: algebra_simps del: fun_upd_apply)
  qed
qed simp

lemma drop_push_take: "push_bit k (drop_bit k p) OR take_bit k p = (p :: u32)"
  by (rule bit_word_eqI) (auto simp: bit_or_iff bit_push_bit_iff bit_drop_bit_eq bit_take_bit_iff)

lemma walk_ram_section:
  "l1_slot m t v = ram_section p \<Longrightarrow> walk m t v = Some (push_bit 20 (drop_bit 20 p) OR take_bit 20 v, ram_section p)"
  by (simp add: walk_def ram_section_def stored_section take_bit_small l1pt_base_address_def l1pt_index_def take_drop_all)

text \<open>An address in a mapped mebibyte is translated by its offset.\<close>

lemma map_sections_walk:
  assumes n: "n \<le> 4096" and v: "unat v mod 1048576 = 0" and p: "unat p mod 1048576 = 0"
    and off: "unat off < n * 1048576"
  shows "walk (map_sections n m v p) kernell1PageTable (v + off) = Some (p + off, ram_section (p + off))"
proof -
  define k where "k = unat off div 1048576"
  have k: "k < n" using off div_less_iff_less_mult [of 1048576 "unat off" n] by (simp add: k_def)
  have idx: "l1pt_index (x + off) = l1pt_index (x + of_nat k * Mebibyte)" if "unat x mod 1048576 = 0" for x
  proof -
    have "unat (x + off) div 1048576 = (unat x + unat off) mod (1048576 * 4096) div 1048576" by (simp add: unat_word_ariths)
    also have "\<dots> = (unat x + unat off) div 1048576 mod 4096" by (simp only: mod_mult2_eq)
    also have "(unat x + unat off) div 1048576 = unat x div 1048576 + k"
      using that div_add1_eq [of "unat x" "unat off" 1048576] by (simp add: k_def)
    finally show ?thesis by (simp add: word_unat_eq_iff unat_l1pt_index [of "x + off"] l1pt_index_plus)
  qed
  have rs: "ram_section (p + of_nat k * Mebibyte) = ram_section (p + off)"
    using idx [OF p] by (simp add: ram_section_def l1pt_base_address_def)
  have "l1_slot (map_sections n m v p) kernell1PageTable (v + off) = ram_section (p + off)"
    using map_sections_slot [OF n k, of m v p] idx [OF v] rs by (simp add: l1_slot_def)
  moreover have "take_bit 20 (v + off) = take_bit 20 (p + off)"
  proof -
    have "unat (take_bit 20 (x + off)) = unat off mod 1048576" if "unat x mod 1048576 = 0" for x
      using unat_add_mod [of 1048576 x off] that
      by (simp add: unsigned_take_bit_eq take_bit_nat_def mod_add_eq [symmetric])
    then show ?thesis using v p by (simp add: word_unat_eq_iff)
  qed
  ultimately show ?thesis by (simp add: walk_ram_section drop_push_take)
qed

lemma vm2_map_peripheral_loop_words:
  "words (pmm (vm2_map_peripheral_loop n s physical)) = map_sections n (words (pmm s)) (mmio_current_top s) physical"
  "mmio_current_top (vm2_map_peripheral_loop n s physical) = mmio_current_top s + of_nat n * Mebibyte"
  by (induction n arbitrary: s physical) (simp_all add: write_word_def ram_section_def Let_def algebra_simps)

lemma vm2_map_peripheral_walk:
  assumes "unat (mmio_current_top s) mod 1048576 = 0" and "unat physical mod 1048576 = 0"
    and "unat n \<le> 4096" and "vm2_map_peripheral s physical n = (v, s')" and "unat off < unat n * 1048576"
  shows "walk (words (pmm s')) kernell1PageTable (v + off) = Some (physical + off, ram_section (physical + off)) \<and>
    v = mmio_current_top s - n * Mebibyte \<and> mmio_current_top s' = v"
proof -
  let ?t = "mmio_current_top s - n * Mebibyte"
  define s1 where "s1 = vm2_map_peripheral_loop (unat n) (s\<lparr>mmio_current_top := ?t\<rparr>) physical"
  have s1: "words (pmm s1) = map_sections (unat n) (words (pmm s)) ?t physical" "mmio_current_top s1 = mmio_current_top s"
    by (simp_all add: s1_def vm2_map_peripheral_loop_words)
  have r: "v = ?t" "s' = s1\<lparr>mmio_current_top := ?t\<rparr>"
    using assms(4) s1(2) by (auto simp: vm2_map_peripheral_def Let_def s1_def [symmetric])
  have al: "unat ?t mod 1048576 = 0"
  proof -
    have "unat (?t + n * Mebibyte) mod 1048576 = (unat ?t + unat (n * Mebibyte)) mod 1048576"
      by (rule unat_add_mod) simp
    moreover have "unat (n * Mebibyte) mod 1048576 = 0"
      by (simp add: unat_word_ariths Mebibyte_eq mod_mod_cancel)
    ultimately have "unat (mmio_current_top s) mod 1048576 = unat ?t mod 1048576" by (simp add: mod_add_eq [symmetric])
    with assms(1) show ?thesis by simp
  qed
  from map_sections_walk [OF assms(3) al assms(2,5)] show ?thesis by (simp add: r s1)
qed

text \<open>
  \<^bold>\<open>Peripherals.\<close> \<open>vm2_map_peripheral\<close> returns an address \<open>n\<close> mebibytes below the former top, and
  every address of the window translates to the physical address at the same offset. Windows
  of different calls do not overlap, for the next one ends where this one starts.
\<close>

theorem vm2_map_peripheral_window:
  assumes "unat (mmio_current_top s) mod 1048576 = 0" and "unat physical mod 1048576 = 0"
    and "unat n \<le> 4096" and "vm2_map_peripheral s physical n = (v, s')" and "unat off < unat n * 1048576"
  shows "walk (words (pmm s')) kernell1PageTable (v + off) = Some (physical + off, ram_section (physical + off)) \<and>
    v = mmio_current_top s - n * Mebibyte \<and> mmio_current_top s' = v"
  by (rule vm2_map_peripheral_walk [OF assms])

theorem vm2_map_peripheral_window_witness:
  "let (v, s') = vm2_map_peripheral demo_vm 0x3F000000 21 in
   walk (words (pmm s')) kernell1PageTable (v + 0x201000) = Some (0x3F000000 + 0x201000, ram_section (0x3F000000 + 0x201000))"
proof -
  obtain v s' where r: "vm2_map_peripheral demo_vm 0x3F000000 21 = (v, s')" by (metis surj_pair)
  have "unat (mmio_current_top demo_vm) mod 1048576 = 0"
    by (simp add: demo_vm_def KERNEL_MMIO_BASE_def Gibibyte_def Mebibyte_eq)
  then have "walk (words (pmm s')) kernell1PageTable (v + 0x201000) = Some (0x3F000000 + 0x201000, ram_section (0x3F000000 + 0x201000)) \<and>
      v = mmio_current_top demo_vm - 21 * Mebibyte \<and> mmio_current_top s' = v"
    by (rule vm2_map_peripheral_window [OF _ _ _ r]) simp_all
  then show ?thesis unfolding r prod.case Let_def by (rule conjunct1)
qed

lemma pmm_init_loop_words: "pmm_init_loop hw s c k i n = Inr s' \<Longrightarrow> words s' = words s"
proof (induction n arbitrary: s c k i)
  case (Suc n)
  have sput: "sput s x f = Inr s' \<Longrightarrow> words s' = words s" for s x f s' by (auto simp: sput_def split: if_splits)
  have push: "push_to_ll s l x = Inr s' \<Longrightarrow> words s' = words s" for s l x s'
    by (auto simp: push_to_ll_def sput_def bindE_Inr_iff split: if_splits)
  have pop: "pop_from_ll s l = Inr (x, s') \<Longrightarrow> words s' = words s" for s l x s'
    by (auto simp: pop_from_ll_def sput_def sget_def Let_def bindE_Inr_iff split: if_splits)
  have new: "pmm_new_sliceinfo_slice s = Inr (x, s') \<Longrightarrow> words s' = words s" for s x s'
    by (auto simp: pmm_new_sliceinfo_slice_def bindE_Inr_iff dest!: pop sput push)
  show ?case using Suc.prems
    by (auto simp: Let_def bindE_Inr_iff split: if_splits dest!: Suc.IH sput push new)
qed simp

lemma pmm_init_words: "pmm_init hw ram ws start fin = Inr m \<Longrightarrow> words m = ws"
  by (auto simp: pmm_init_def Let_def split: if_splits dest!: pmm_init_loop_words)

lemma vm2_map_ram_words:
  assumes "unat a \<le> 4096 * 1048576 - 1048576" and "n = (unat a - unat i + 1048575) div 1048576" and "n < fuel"
    and "unat i \<le> unat a + 1048575"
  shows "\<exists>s'. vm2_map_ram fuel s i a = Inr s' \<and> words (pmm s') = map_sections n (words (pmm s)) (KERNEL_VIRTUAL_OFFSET + i) i \<and>
    sinfo (pmm s') = sinfo (pmm s)"
  using assms
proof (induction n arbitrary: fuel s i)
  case 0
  then obtain f where f: "fuel = Suc f" by (cases fuel) auto
  have "\<not> i < a" using "0.prems"(2) by (auto simp: word_less_nat_alt)
  then show ?case by (simp add: f)
next
  case (Suc n)
  then obtain f where f: "fuel = Suc f" by (cases fuel) auto
  have lt: "unat i < unat a" using Suc.prems(2) by (cases "unat i < unat a") auto
  have next_i: "unat (i + Mebibyte) = unat i + 1048576"
    using unat_add_no_wrap [of i Mebibyte] lt Suc.prems(1) by (simp add: Mebibyte_eq)
  have "unat a - unat i + 1048575 = (unat a - (unat i + 1048576) + 1048575) + 1048576 \<or> n = 0"
    using Suc.prems(2) lt by linarith
  then have n: "n = (unat a - unat (i + Mebibyte) + 1048575) div 1048576"
    using Suc.prems(2) lt unfolding next_i by (auto simp: div_eq_0_iff)
  let ?s = "write_word s (entry_address kernell1PageTable (l1pt_index (KERNEL_VIRTUAL_OFFSET + i))) (ram_section i)"
  obtain b s1 where s1: "vm2_l1_map_physical_to_virtual s kernell1PageTable (ram_section i) (KERNEL_VIRTUAL_OFFSET + i) True = Inr (b, s1)"
      "pmm s1 = pmm ?s"
    by (simp add: vm2_l1_map_physical_to_virtual_def Let_def vm2_flush_caches_def)
  from s1(2) have w: "words (pmm s1) = (words (pmm s))(entry_address kernell1PageTable (l1pt_index (KERNEL_VIRTUAL_OFFSET + i)) := ram_section i)"
      "sinfo (pmm s1) = sinfo (pmm s)" by (simp_all add: write_word_def)
  from Suc.IH [OF Suc.prems(1) n, of f s1] Suc.prems(3,4) f lt next_i obtain s' where
    "vm2_map_ram f s1 (i + Mebibyte) a = Inr s'"
    "words (pmm s') = map_sections n (words (pmm s1)) (KERNEL_VIRTUAL_OFFSET + (i + Mebibyte)) (i + Mebibyte)"
    "sinfo (pmm s') = sinfo (pmm s1)" by auto
  moreover have "i < a" using lt by (simp add: word_less_nat_alt)
  ultimately show ?case using s1(1) w
    by (intro exI [of _ s']) (simp add: f ram_section_def [symmetric] add.assoc del: fun_upd_apply)
qed

lemma l1_slot_zeroed:
  "1048576 \<le> unat v \<Longrightarrow> l1_slot (m(entry_address kernell1PageTable 0 := x)) kernell1PageTable v = l1_slot m kernell1PageTable v"
proof -
  assume v: "1048576 \<le> unat v"
  have "unat (l1pt_index v) \<noteq> 0" using v by (simp add: unat_l1pt_index div_eq_0_iff)
  then have "l1pt_index v \<noteq> l1pt_index 0" by (auto simp: l1pt_index_def)
  then have "entry_address kernell1PageTable (l1pt_index v) \<noteq> entry_address kernell1PageTable (l1pt_index 0)"
    by (simp add: entry_address_l1_inj)
  moreover have "l1pt_index 0 = 0" by (simp add: l1pt_index_def)
  ultimately show ?thesis by (simp add: l1_slot_def)
qed

text \<open>A run of sections from \<open>v\<close> on changes the entries of its mebibytes only.\<close>

lemma sections_miss:
  assumes "unat v div 1048576 + n \<le> 4096" and "unat w div 1048576 < unat v div 1048576 \<or> unat v div 1048576 + n \<le> unat w div 1048576"
  shows "l1_slot (map_sections n m v p) kernell1PageTable w = l1_slot m kernell1PageTable w"
  unfolding l1_slot_def
proof (rule map_sections_other)
  fix k assume "k < n"
  then show "l1pt_index w \<noteq> l1pt_index (v + of_nat k * Mebibyte)"
    using assms unat_l1pt_index [of w] by (simp add: word_unat_eq_iff l1pt_index_plus) linarith
qed

text \<open>Reading the struct of a section of RAM: only the kernel may access it.\<close>

lemma ram_section_fields:
  "se_type (word_section (ram_section p)) = 2 \<and>
   hw_permissions (se_accessExtended (word_section (ram_section p))) (se_accessPermissions (word_section (ram_section p))) = (ReadWrite, NoAccess)"
  using unpack_pack [of section_widths "[2, 0, 0, 0, 0, 0, 1, 0, 0, 0, 0, 0, 0, l1pt_base_address p]"]
  by (simp add: ram_section_def section_word_def word_section_def zero_section_def Let_def section_widths_def hw_permissions_def take_bit_small)

text \<open>The words after \<open>vm2_start\<close>, which ends: the entry of the identity mapping is cleared, then the sections are entered.\<close>

lemma vm2_start_words:
  assumes start: "kernel_top \<noteq> NULL" and align: "unat kernel_top mod 8192 = 0"
    and fit: "unat kernel_top + 8192 * Suc (pmm_init_rounds kernel_top (KERNEL_VIRTUAL_OFFSET + detected_size)) < 2 ^ 32"
    and ram: "\<forall>x. \<not> reserved (sinfo (pmm s) x) \<and> sprev (sinfo (pmm s) x) = NULL"
    and mmio: "\<forall>k. k mod 512 = 511 \<and> k < Suc (pmm_init_rounds kernel_top (KERNEL_VIRTUAL_OFFSET + detected_size)) \<longrightarrow>
      \<not> address_in_reserved_region hw (slice_at kernel_top k)"
    and size: "unat (available_RAM hw detected_size) \<le> 0x80000000"
  shows "\<exists>s'. vm2_start hw kernel_top s detected_size = Inr s' \<and>
    words (pmm s') = map_sections ((unat (available_RAM hw detected_size) + 1048575) div 1048576)
      ((words (pmm s))(entry_address kernell1PageTable 0 := 0)) KERNEL_VIRTUAL_OFFSET 0 \<and>
    pmm_pool (pmm s') (insert (BucketInfo, kernel_top)
      (new_buckets kernel_top 1 (pmm_init_rounds kernel_top (KERNEL_VIRTUAL_OFFSET + detected_size)))) \<and>
    mmu_started s' \<and> (\<exists>l. mmu_log s' = l @ [SetUserPagetable NULL, FlushCaches])"
proof -
  let ?a = "available_RAM hw detected_size" and ?s0 = "write_word s (entry_address kernell1PageTable 0) 0"
  define n where "n = (unat ?a + 1048575) div 1048576"
  have n: "n \<le> 4096" unfolding n_def using size by simp
  from vm2_map_ram_words [of ?a n 0 4097 ?s0] size n obtain s1 where
    s1: "vm2_map_ram 4097 ?s0 0 ?a = Inr s1" "words (pmm s1) = map_sections n (words (pmm ?s0)) KERNEL_VIRTUAL_OFFSET 0"
      "sinfo (pmm s1) = sinfo (pmm s)"
    by (auto simp: n_def write_word_def)
  from pmm_init_pool [OF start align fit _ mmio, of "sinfo (pmm s1)" "words (pmm s1)"] ram obtain m where
    m: "pmm_init hw (sinfo (pmm s1)) (words (pmm s1)) kernel_top (KERNEL_VIRTUAL_OFFSET + detected_size) = Inr m"
      "pmm_pool m (insert (BucketInfo, kernel_top)
        (new_buckets kernel_top 1 (pmm_init_rounds kernel_top (KERNEL_VIRTUAL_OFFSET + detected_size))))"
    by (auto simp: s1(3))
  let ?s' = "(vm2_flush_caches (vm2_set_user_pagetable (s1\<lparr>pmm := m\<rparr>) NULL))\<lparr>mmu_started := True\<rparr>"
  have "vm2_start hw kernel_top s detected_size = Inr ?s'" using s1(1) m(1) by (simp add: vm2_start_def Let_def)
  moreover have "words (pmm ?s') = map_sections n ((words (pmm s))(entry_address kernell1PageTable 0 := 0)) KERNEL_VIRTUAL_OFFSET 0"
    using pmm_init_words [OF m(1)] s1(2) by (simp add: vm2_flush_caches_def vm2_set_user_pagetable_def write_word_def)
  ultimately show ?thesis using m(2)
    by (intro exI [of _ ?s']) (simp add: n_def vm2_flush_caches_def vm2_set_user_pagetable_def)
qed

text \<open>
  (C20) \<^bold>\<open>The kernel's view of RAM.\<close> Let the structs of the memory manager be zero, the part of memory it gets start on a slice
  behind the kernel and end within the address space, and no slice that is the last of a bucket belong to a device. Then
  \<open>vm2_start\<close> ends. The kernel table translates \<open>PHYS2VIRT p\<close> to \<open>p\<close> for every physical address \<open>p\<close> below the size of RAM, by
  a section that the kernel may read and write and a user may not access. The identity mapping of the first mebibyte is gone:
  its addresses fault. The other entries are as before. The MMU is marked as started, and the last operations on it
  are the removal of the user table and a flush.
\<close>

theorem vm2_start_maps_ram:
  assumes "kernel_top \<noteq> NULL" and "unat kernel_top mod 8192 = 0"
    and "unat kernel_top + 8192 * Suc (pmm_init_rounds kernel_top (KERNEL_VIRTUAL_OFFSET + detected_size)) < 2 ^ 32"
    and "\<forall>x. \<not> reserved (sinfo (pmm s) x) \<and> sprev (sinfo (pmm s) x) = NULL"
    and "\<forall>k. k mod 512 = 511 \<and> k < Suc (pmm_init_rounds kernel_top (KERNEL_VIRTUAL_OFFSET + detected_size)) \<longrightarrow>
      \<not> address_in_reserved_region hw (slice_at kernel_top k)"
    and "unat (available_RAM hw detected_size) \<le> 0x80000000"
  shows "\<exists>s'. vm2_start hw kernel_top s detected_size = Inr s' \<and>
    (\<forall>p < available_RAM hw detected_size. \<exists>e. walk (words (pmm s')) kernell1PageTable (0x80000000 + p) = Some (p, e) \<and>
       se_type (word_section e) = 2 \<and>
       hw_permissions (se_accessExtended (word_section e)) (se_accessPermissions (word_section e)) = (ReadWrite, NoAccess)) \<and>
    (\<forall>v < 0x100000. walk (words (pmm s')) kernell1PageTable v = None) \<and>
    (\<forall>v. 0x100000 \<le> unat v \<and> unat v < 0x80000000 \<or> 0x80100000 + unat (available_RAM hw detected_size) \<le> unat v \<longrightarrow>
       l1_slot (words (pmm s')) kernell1PageTable v = l1_slot (words (pmm s)) kernell1PageTable v) \<and>
    mmu_started s' \<and> (\<exists>l. mmu_log s' = l @ [SetUserPagetable NULL, FlushCaches])"
proof -
  let ?a = "available_RAM hw detected_size" and ?K = kernell1PageTable
  let ?m = "(words (pmm s))(entry_address ?K 0 := 0)"
  define n where "n = (unat ?a + 1048575) div 1048576"
  have n: "n \<le> 2048" unfolding n_def using assms(6) by simp
  from vm2_start_words [OF assms, folded n_def] obtain s' where
    s': "vm2_start hw kernel_top s detected_size = Inr s'" "words (pmm s') = map_sections n ?m KERNEL_VIRTUAL_OFFSET 0"
      "mmu_started s'" "\<exists>l. mmu_log s' = l @ [SetUserPagetable NULL, FlushCaches]" by blast
  have miss: "l1_slot (words (pmm s')) ?K v = l1_slot ?m ?K v"
    if "unat v < 0x80000000 \<or> 0x80100000 + unat ?a \<le> unat v" for v
    unfolding s'(2)
  proof (rule sections_miss)
    have "unat KERNEL_VIRTUAL_OFFSET div 1048576 = 2048" by (simp add: KERNEL_VIRTUAL_OFFSET_def)
    moreover have "unat v div 1048576 < 2048 \<or> 2048 + n \<le> unat v div 1048576"
      using that unfolding n_def by (auto simp: div_less_iff_less_mult less_eq_div_iff_mult_less_eq algebra_simps)
    ultimately show "unat KERNEL_VIRTUAL_OFFSET div 1048576 + n \<le> 4096"
      "unat v div 1048576 < unat KERNEL_VIRTUAL_OFFSET div 1048576 \<or> unat KERNEL_VIRTUAL_OFFSET div 1048576 + n \<le> unat v div 1048576"
      using n by simp_all
  qed
  have "\<exists>e. walk (words (pmm s')) ?K (0x80000000 + p) = Some (p, e) \<and> se_type (word_section e) = 2 \<and>
      hw_permissions (se_accessExtended (word_section e)) (se_accessPermissions (word_section e)) = (ReadWrite, NoAccess)"
    if "p < ?a" for p
  proof -
    have "unat ?a \<le> n * 1048576" unfolding n_def by linarith
    then have "unat p < n * 1048576" using that by (simp add: word_less_nat_alt)
    then have "walk (words (pmm s')) ?K (KERNEL_VIRTUAL_OFFSET + p) = Some (0 + p, ram_section (0 + p))"
      unfolding s'(2) using n by (intro map_sections_walk) (simp_all add: KERNEL_VIRTUAL_OFFSET_def)
    then show ?thesis using ram_section_fields [of p] by (simp add: KERNEL_VIRTUAL_OFFSET_def)
  qed
  moreover have "walk (words (pmm s')) ?K v = None" if "v < 0x100000" for v
  proof -
    have v: "unat v < 1048576" using that by (simp add: word_less_nat_alt)
    then have "l1pt_index v = 0" by (simp add: word_unat_eq_iff unat_l1pt_index)
    then have "l1_slot (words (pmm s')) ?K v = 0" using miss [of v] v by (simp add: l1_slot_def)
    then show ?thesis by (simp add: walk_def Let_def)
  qed
  moreover have "l1_slot (words (pmm s')) ?K v = l1_slot (words (pmm s)) ?K v"
    if "0x100000 \<le> unat v \<and> unat v < 0x80000000 \<or> 0x80100000 + unat ?a \<le> unat v" for v
    using that miss [of v] l1_slot_zeroed [of v "words (pmm s)" 0] by auto
  ultimately show ?thesis using s'(1,3,4) by blast
qed

definition demo_boot :: vm2_state where
  "demo_boot = demo_vm\<lparr>pmm := (pmm demo_vm)\<lparr>sinfo := (\<lambda>_. zero_sliceinfo)\<rparr>\<rparr>"

lemma demo_boot_memory:
  "available_RAM demo_hw 0x1000000 = 0x40000000" "pmm_init_rounds 0x80200000 (KERNEL_VIRTUAL_OFFSET + 0x1000000) = 1791"
  "k mod 512 = 511 \<and> k < 1792 \<longrightarrow> \<not> address_in_reserved_region demo_hw (slice_at 0x80200000 k)"
proof -
  show "available_RAM demo_hw 0x1000000 = 0x40000000" by (simp add: available_RAM_def demo_hw_def Gibibyte_def Mebibyte_eq)
  show "pmm_init_rounds 0x80200000 (KERNEL_VIRTUAL_OFFSET + 0x1000000) = 1791"
    by (simp add: pmm_init_rounds_def slice_size_def KERNEL_VIRTUAL_OFFSET_def)
  show "k mod 512 = 511 \<and> k < 1792 \<longrightarrow> \<not> address_in_reserved_region demo_hw (slice_at 0x80200000 k)"
  proof
    assume "k mod 512 = 511 \<and> k < 1792"
    then have k: "8192 * k < 0x1000000" by simp
    have "slice_at 0x80200000 k - KERNEL_VIRTUAL_OFFSET = of_nat (8192 * k + 0x200000)"
      by (simp add: slice_at_def KERNEL_VIRTUAL_OFFSET_def)
    then have "unat (slice_at 0x80200000 k - KERNEL_VIRTUAL_OFFSET) = 8192 * k + 0x200000"
      using k by (simp only: unat_of_nat_u32)
    with k show "\<not> address_in_reserved_region demo_hw (slice_at 0x80200000 k)"
      by (simp add: address_in_reserved_region_def demo_hw_def word_le_nat_alt)
  qed
qed

theorem vm2_start_maps_ram_witness:
  "\<exists>s'. vm2_start demo_hw 0x80200000 demo_boot 0x1000000 = Inr s' \<and>
     (\<exists>e. walk (words (pmm s')) kernell1PageTable 0xBFFFFFFF = Some (0x3FFFFFFF, e)) \<and>
     walk (words (pmm s')) kernell1PageTable 0xFFFFF = None"
proof -
  have "\<forall>x. \<not> reserved (sinfo (pmm demo_boot) x) \<and> sprev (sinfo (pmm demo_boot) x) = NULL"
    by (simp add: demo_boot_def zero_sliceinfo_def)
  from vm2_start_maps_ram [of "0x80200000" "0x1000000", OF _ _ _ this, of demo_hw] demo_boot_memory(3) obtain s' where
    s': "vm2_start demo_hw 0x80200000 demo_boot 0x1000000 = Inr s'"
      "\<forall>p < 0x40000000. \<exists>e. walk (words (pmm s')) kernell1PageTable (0x80000000 + p) = Some (p, e) \<and>
         se_type (word_section e) = 2 \<and>
         hw_permissions (se_accessExtended (word_section e)) (se_accessPermissions (word_section e)) = (ReadWrite, NoAccess)"
      "\<forall>v < 0x100000. walk (words (pmm s')) kernell1PageTable v = None"
    unfolding demo_boot_memory(1,2) by auto
  from s'(2) [rule_format, of "0x3FFFFFFF"] s'(1) s'(3) [rule_format, of "0xFFFFF"] show ?thesis by auto
qed

end
