(* ===== verification/Vas2.thy ===== *)
theory Vas2
  imports Vm2 Array_Lists Asid_Allocator
begin

section \<open>Address spaces of processes: \<open>vm/vas2.c\<close>\<close>

text \<open>
  An address space is an ASID descriptor, a first level table, and the lists of the second
  level tables and pages to free with it. The operations run on the virtual memory system, the
  ASID allocator and the context ID register of the CPU.
\<close>

record vas2 =
  tlbDescriptor :: ASIDDescriptor
  l1PageTable :: ptr
  l2tables :: VPArrayList
  vas_pages :: VPArrayList

record vas_world =
  vmem :: vm2_state
  asids :: asid_state
  contextidr :: u32

definition VAS2_INITIAL_PAGE_LIST_CAPACITY :: u32 where
  "VAS2_INITIAL_PAGE_LIST_CAPACITY = 10"

text \<open>\<open>sizeof(struct vas2)\<close>: two bytes of the descriptor, padded, and three pointers.\<close>

definition vas2_size :: u32 where
  "vas2_size = 16"

definition create_vas :: "grant \<Rightarrow> vas_world \<Rightarrow> fault + (vas2 \<times> vas_world)" where
  "create_vas g w =
     (let (desc, ids) = asid_request_descriptor (asids w) in
      bindE (pmm_allocate_l1_pagetable (pmm (vmem w))) (\<lambda>(l1, m).
      bindE (vpa_create g g VAS2_INITIAL_PAGE_LIST_CAPACITY) (\<lambda>l2s.
      bindE (vpa_create g g VAS2_INITIAL_PAGE_LIST_CAPACITY) (\<lambda>ps.
      if g vas2_size = None then Inl NullDeref
      else Inr (\<lparr>tlbDescriptor = desc, l1PageTable = l1, l2tables = l2s, vas_pages = ps\<rparr>,
                w\<lparr>asids := ids, vmem := (vmem w)\<lparr>pmm := m\<rparr>\<rparr>)))))"

definition switch_to_vas :: "vas_world \<Rightarrow> vas2 \<Rightarrow> vas2 \<times> vas_world" where
  "switch_to_vas w vas =
     (let (stale, desc, ids) = asid_check_and_update (asids w) (tlbDescriptor vas);
          vas = vas\<lparr>tlbDescriptor := desc\<rparr>;
          vm = (if stale then vm2_flush_caches_of_ASID (vmem w) (asid desc) else vmem w);
          reg = asid_set (contextidr w) (asid desc);
          vm = vm\<lparr>mmu_log := mmu_log vm @ [SetASID (asid desc)]\<rparr>;
          vm = vm2_set_user_pagetable vm (l1PageTable vas) in
      (vas, w\<lparr>asids := ids, contextidr := reg, vmem := vm\<rparr>))"

text \<open>The loops of \<open>vpa_free\<close> with the two free functions of the memory manager.\<close>

primrec free_each ::
    "(PhysicalMemoryManager \<Rightarrow> u32 \<Rightarrow> fault + PhysicalMemoryManager) \<Rightarrow> u32 list \<Rightarrow> PhysicalMemoryManager \<Rightarrow>
     fault + PhysicalMemoryManager" where
  "free_each f [] m = Inr m"
| "free_each f (p # ps) m = bindE (f m p) (free_each f ps)"

definition free_vas :: "vas_world \<Rightarrow> vas2 \<Rightarrow> fault + vas_world" where
  "free_vas w vas =
     bindE (vpa_free (l2tables vas) True) (\<lambda>ts.
     bindE (free_each pmm_free_l2_pagetable ts (pmm (vmem w))) (\<lambda>m.
     bindE (vpa_free (vas_pages vas) True) (\<lambda>ps.
     bindE (free_each pmm_free_page ps m) (\<lambda>m.
     bindE (pmm_free_l1_pagetable m (l1PageTable vas)) (\<lambda>m.
     Inr (w\<lparr>vmem := (vmem w)\<lparr>pmm := m\<rparr>\<rparr>))))))"

definition allocate_page :: "grant \<Rightarrow> vas_world \<Rightarrow> vas2 \<Rightarrow> u32 \<Rightarrow> bool \<Rightarrow> fault + (vas2 \<times> vas_world)" where
  "allocate_page g w vas address exec =
     (let perms = \<lparr>access = UserRW, executable = exec\<rparr> in
      bindE (vm2_allocate_page (vmem w) (l1PageTable vas) address False perms (Some NULL)) (\<lambda>(page, l2pt, vm).
      bindE (if l2pt \<noteq> Some NULL
             then bindE (vpa_push g (l2tables vas) (the l2pt)) (\<lambda>(_, l). Inr (vas\<lparr>l2tables := l\<rparr>))
             else Inr vas) (\<lambda>vas.
      bindE (vpa_push g (vas_pages vas) page) (\<lambda>(_, l).
      Inr (vas\<lparr>vas_pages := l\<rparr>, w\<lparr>vmem := vm\<rparr>)))))"

subsection \<open>Lists\<close>

lemma vpa_read_list_contents:
  assumes "vpa_inv l" and "\<forall>i \<in> set is. i < length (vpa_contents l)"
  shows "vpa_read_list l is = Inr (map ((!) (vpa_contents l)) is)"
  using assms(2)
proof (induction "is")
  case (Cons i "is")
  have "length (vpa_contents l) < 4294967296" using u32_unat_lt by (simp add: length_vpa_contents [OF assms(1)])
  then have "unat (of_nat i :: u32) = i" using Cons.prems by (intro unat_of_nat_u32) simp
  with vpa_get_contents [OF assms(1), of i] Cons show ?case by (simp add: vpa_get_def)
qed simp

lemma vpa_free_contents:
  assumes "vpa_inv l"
  shows "vpa_free l True = Inr (vpa_contents l)"
proof -
  have "vpa_read_list l [0..<length (vpa_contents l)] = Inr (vpa_contents l)"
    using vpa_read_list_contents [OF assms, of "[0..<length (vpa_contents l)]"] by (simp add: map_nth)
  then show ?thesis by (simp add: vpa_free_def length_vpa_contents [OF assms])
qed

lemma free_each_pages: "free_each pmm_free_page ps m = pages.give_units ps m"
  by (induction ps arbitrary: m) (simp_all cong: bindE_cong)

lemma free_each_l2: "free_each pmm_free_l2_pagetable ps m = l2_tables.give_units ps m"
  by (induction ps arbitrary: m) (simp_all cong: bindE_cong)

subsection \<open>The invariant of an address space\<close>

definition vas_inv :: "vas_world \<Rightarrow> unit_id set \<Rightarrow> vas2 \<Rightarrow> bool" where
  "vas_inv w U vas \<longleftrightarrow>
     pmm_pool (pmm (vmem w)) U \<and> pt_ok (words (pmm (vmem w))) U (l1PageTable vas) \<and>
     vpa_inv (l2tables vas) \<and> vpa_contents (l2tables vas) = [] \<and>
     vpa_inv (vas_pages vas) \<and> distinct (vpa_contents (vas_pages vas)) \<and>
     Pair Page ` set (vpa_contents (vas_pages vas)) \<subseteq> U"

lemma free_vas_ok:
  assumes "vas_inv w U vas"
  shows "\<exists>w'. free_vas w vas = Inr w' \<and>
    pmm_pool (pmm (vmem w')) (U - Pair Page ` set (vpa_contents (vas_pages vas)) - {(L1PageTable, l1PageTable vas)})"
proof -
  let ?ps = "vpa_contents (vas_pages vas)"
  let ?U = "U - Pair Page ` set ?ps"
  note A = assms [unfolded vas_inv_def]
  have "pmm_pool (pmm (vmem w)) (?U \<union> Pair Page ` set ?ps)" using A by (simp add: Un_absorb2)
  from pages.give_units_ok [OF this] A obtain m where
    m: "free_each pmm_free_page ?ps (pmm (vmem w)) = Inr m" "pmm_pool m ?U"
    by (auto simp: free_each_pages)
  have "(L1PageTable, l1PageTable vas) \<in> ?U" using A pt_okD(1) by auto
  from l1_release_law [OF m(2) this] obtain m' where
    m': "pmm_free_l1_pagetable m (l1PageTable vas) = Inr m'" "pmm_pool m' (?U - {(L1PageTable, l1PageTable vas)})" by blast
  have "free_vas w vas = Inr (w\<lparr>vmem := (vmem w)\<lparr>pmm := m'\<rparr>\<rparr>)"
    using A m(1) m'(1) by (simp add: free_vas_def vpa_free_contents)
  with m'(2) show ?thesis by auto
qed

lemma allocate_page_ok:
  assumes inv: "vas_inv w U vas" and heap: "kheap g" "\<And>n. g n \<noteq> None"
    and small: "length (vpa_contents (vas_pages vas)) < 500000000"
    and a: "address < 0x80000000" "mappable (words (pmm (vmem w))) (l1PageTable vas) address False"
    and mem: "allocate_page g w vas address exec \<noteq> Inl NullDeref"
  shows "\<exists>vas' w' page U'. allocate_page g w vas address exec = Inr (vas', w') \<and> vas_inv w' U' vas' \<and>
    (Page, page) \<notin> U \<and> insert (Page, page) U \<subseteq> U' \<and> l2tables vas' = l2tables vas \<and> l1PageTable vas' = l1PageTable vas \<and>
    vpa_contents (vas_pages vas') = vpa_contents (vas_pages vas) @ [page] \<and>
    entered (words (pmm (vmem w'))) (l1PageTable vas) address \<lparr>access = UserRW, executable = exec\<rparr> page \<and>
    confined (words (pmm (vmem w))) (words (pmm (vmem w'))) U U' (l1PageTable vas) address \<and>
    tables (words (pmm (vmem w'))) (l1PageTable vas) \<subseteq> tables (words (pmm (vmem w))) (l1PageTable vas) \<union> {t. (L2PageTable, t) \<in> U' - U} \<and>
    (\<forall>v < 0x80000000. walk (words (pmm (vmem w'))) (l1PageTable vas) v =
        (if drop_bit 12 v = drop_bit 12 address
         then Some (VIRT2PHYS page OR take_bit 12 v, page_descriptor \<lparr>access = UserRW, executable = exec\<rparr> page)
         else walk (words (pmm (vmem w))) (l1PageTable vas) v))"
proof -
  let ?perms = "\<lparr>access = UserRW, executable = exec\<rparr>"
  note A = inv [unfolded vas_inv_def]
  let ?al = "vm2_allocate_page (vmem w) (l1PageTable vas) address False ?perms (Some NULL)"
  have A1: "pmm_pool (pmm (vmem w)) U" and A2: "pt_ok (words (pmm (vmem w))) U (l1PageTable vas)"
    and A3: "vpa_inv (vas_pages vas)" using A by simp_all
  have al: "?al \<noteq> Inl NullDeref" using mem by (auto simp: allocate_page_def)
  from vm2_allocate_page_ok [OF A1 A2 a al] obtain page c vm U' where
    r: "?al = Inr (page, c, vm)" "(Page, page) \<notin> U" "insert (Page, page) U \<subseteq> U'" "pmm_pool (pmm vm) U'"
      "pt_ok (words (pmm vm)) U' (l1PageTable vas)" "entered (words (pmm vm)) (l1PageTable vas) address ?perms page"
      "confined (words (pmm (vmem w))) (words (pmm vm)) U U' (l1PageTable vas) address"
      "tables (words (pmm vm)) (l1PageTable vas) \<subseteq> tables (words (pmm (vmem w))) (l1PageTable vas) \<union> {t. (L2PageTable, t) \<in> U' - U}"
      "\<forall>v < 0x80000000. walk (words (pmm vm)) (l1PageTable vas) v =
        (if drop_bit 12 v = drop_bit 12 address then Some (VIRT2PHYS page OR take_bit 12 v, page_descriptor ?perms page)
         else walk (words (pmm (vmem w))) (l1PageTable vas) v)" by (elim exE conjE) (rule that)
  have c: "c = Some NULL" by (rule created_l2pt_always_null [OF r(1)])
  from vpa_push_total [OF heap A3 small, of page] obtain n l where
    l: "vpa_push g (vas_pages vas) page = Inr (n, l)" "vpa_inv l" "vpa_contents l = vpa_contents (vas_pages vas) @ [page]"
    by auto
  have eq: "allocate_page g w vas address exec = Inr (vas\<lparr>vas_pages := l\<rparr>, w\<lparr>vmem := vm\<rparr>)"
    using r(1) c l(1) by (simp add: allocate_page_def)
  have "vas_inv (w\<lparr>vmem := vm\<rparr>) U' (vas\<lparr>vas_pages := l\<rparr>)"
    using A r(2-5) l(2,3) by (auto simp: vas_inv_def)
  with eq r l(3) show ?thesis
    by (intro exI [of _ "vas\<lparr>vas_pages := l\<rparr>"] exI [of _ "w\<lparr>vmem := vm\<rparr>"] exI [of _ page] exI [of _ U']) simp
qed

text \<open>
  (C23) \<^bold>\<open>Freeing an address space leaks its second level tables.\<close> After any successful
  \<open>allocate_page\<close>, \<open>free_vas\<close> returns the pages and the first level table, but the second level
  table the page was entered into is still in use: \<open>vm2_allocate_page\<close> resets the out
  parameter that would have told the address space of the new table.
\<close>

theorem free_vas_leaks_l2_table:
  assumes "vas_inv w U vas" and "kheap g" and "\<forall>n. g n \<noteq> None"
    and "length (vpa_contents (vas_pages vas)) < 500000000"
    and "address < 0x80000000" and "mappable (words (pmm (vmem w))) (l1PageTable vas) address False"
    and "allocate_page g w vas address exec \<noteq> Inl NullDeref"
  shows "\<exists>vas' w' w'' V t. allocate_page g w vas address exec = Inr (vas', w') \<and>
    t = l2_table (l1_slot (words (pmm (vmem w'))) (l1PageTable vas) address) \<and>
    free_vas w' vas' = Inr w'' \<and> pmm_pool (pmm (vmem w'')) V \<and> (L2PageTable, t) \<in> V \<and>
    (L1PageTable, l1PageTable vas) \<notin> V \<and> (\<forall>p \<in> set (vpa_contents (vas_pages vas')). (Page, p) \<notin> V)"
proof -
  from allocate_page_ok [OF assms(1,2) _ assms(4-7)] assms(3) obtain vas' w' page U' where
    a: "allocate_page g w vas address exec = Inr (vas', w')" "vas_inv w' U' vas'" "l1PageTable vas' = l1PageTable vas"
      "entered (words (pmm (vmem w'))) (l1PageTable vas) address \<lparr>access = UserRW, executable = exec\<rparr> page" by blast
  let ?t = "l2_table (l1_slot (words (pmm (vmem w'))) (l1PageTable vas) address)"
  have "(L2PageTable, ?t) \<in> U'"
    using pt_ok_coarse(1) [of _ U' "l1PageTable vas" address] a assms(5) by (simp add: vas_inv_def entered_def)
  moreover from free_vas_ok [OF a(2)] obtain w'' where
    "free_vas w' vas' = Inr w''"
    "pmm_pool (pmm (vmem w'')) (U' - Pair Page ` set (vpa_contents (vas_pages vas')) - {(L1PageTable, l1PageTable vas')})" by blast
  ultimately show ?thesis using a(1,3)
    by (intro exI [of _ vas'] exI [of _ w'] exI [of _ w'']
          exI [of _ "U' - Pair Page ` set (vpa_contents (vas_pages vas')) - {(L1PageTable, l1PageTable vas')}"] exI [of _ ?t]) auto
qed

text \<open>A new address space satisfies the invariant.\<close>

lemma create_vas_ok:
  assumes pool: "pmm_pool (pmm (vmem w)) U" and heap: "kheap g" "\<forall>n. g n \<noteq> None"
    and avail: "heads (pmm (vmem w)) unused \<noteq> NULL"
  shows "\<exists>vas w'. create_vas g w = Inr (vas, w') \<and> vas_inv w' (insert (L1PageTable, l1PageTable vas) U) vas \<and>
    (L1PageTable, l1PageTable vas) \<notin> U \<and> vpa_contents (vas_pages vas) = [] \<and>
    (\<forall>v < 0x80000000. walk (words (pmm (vmem w'))) (l1PageTable vas) v = None \<and>
       mappable (words (pmm (vmem w'))) (l1PageTable vas) v False)"
proof -
  from l1_tables.alloc_fresh [OF pool avail] obtain l1 m where
    a: "pmm_allocate_l1_pagetable (pmm (vmem w)) = Inr (l1, m)" "(L1PageTable, l1) \<notin> U"
      "pmm_pool m (insert (L1PageTable, l1) U)"
      "\<forall>a. words m a = (if a \<in> footprint (L1PageTable, l1) then 0 else words (pmm (vmem w)) a)" by blast
  have z: "l1_slot (words m) l1 v = 0" if "v < 0x80000000" for v
    using a(4) slot_in_l1 [OF that, of l1] by (simp add: l1_slot_def)
  obtain n where n: "g 40 = Some n" "40 \<le> n" using heap kheap.grant_ge [OF heap(1)] by (metis not_Some_eq)
  have "40 \<le> unat n" using n(2) by (simp add: word_le_nat_alt)
  let ?l = "\<lparr>vp_length = 0, vp_capacity = 10, vp_array = kmalloc g 40\<rparr> :: VPArrayList"
  have l: "vpa_create g g 10 = Inr ?l" using heap(2) by (simp add: vpa_create_def)
  have li: "vpa_inv ?l" "vpa_contents ?l = []"
    using n \<open>40 \<le> unat n\<close> by (simp_all add: vpa_inv_def kmalloc_def vpa_contents_def kcontents_def)
  obtain d ids where d: "asid_request_descriptor (asids w) = (d, ids)" by (metis surj_pair)
  let ?vas = "\<lparr>tlbDescriptor = d, l1PageTable = l1, l2tables = ?l, vas_pages = ?l\<rparr>"
  let ?w = "w\<lparr>asids := ids, vmem := (vmem w)\<lparr>pmm := m\<rparr>\<rparr>"
  have "create_vas g w = Inr (?vas, ?w)"
    using a(1) l d heap(2) by (auto simp: create_vas_def VAS2_INITIAL_PAGE_LIST_CAPACITY_def)
  moreover have "pt_ok (words m) (insert (L1PageTable, l1) U) l1" by (simp add: pt_ok_def coarse_ok_def z)
  with a(3) li have "vas_inv ?w (insert (L1PageTable, l1) U) ?vas" by (simp add: vas_inv_def)
  moreover have "walk (words m) l1 v = None \<and> mappable (words m) l1 v False" if "v < 0x80000000" for v
    using z [OF that] by (simp add: walk_def mappable_def)
  ultimately show ?thesis using a(2) li(2) by (intro exI [of _ ?vas] exI [of _ ?w]) simp
qed

text \<open>
  (C22) \<^bold>\<open>Switching address spaces.\<close> \<open>switch_to_vas\<close> leaves the process with a current ASID; when its
  descriptor was stale, the TLB entries of that ASID are flushed before the ASID and the table
  are set, and only then. The low byte of the context ID register becomes the ASID and the
  process ID above it is kept.
\<close>

theorem switch_to_vas_flushes_stale:
  "let (vas', w') = switch_to_vas w vas; a = asid (tlbDescriptor vas') in
   asid_fresh (asids w') (tlbDescriptor vas') \<and> l1PageTable vas' = l1PageTable vas \<and>
   mmu_log (vmem w') = mmu_log (vmem w) @ (if asid_fresh (asids w) (tlbDescriptor vas) then [] else [FlushASID a]) @
     [SetASID a, SetUserPagetable (l1PageTable vas)] \<and>
   ucast (contextidr w') = a \<and> drop_bit 8 (contextidr w') = drop_bit 8 (contextidr w) \<and> pmm (vmem w') = pmm (vmem w)"
proof -
  obtain b d ids where c: "asid_check_and_update (asids w) (tlbDescriptor vas) = (b, d, ids)" by (metis prod_cases3)
  have "asid_fresh ids d" by (rule asid_check_fresh [OF c])
  moreover have "b \<longleftrightarrow> \<not> asid_fresh (asids w) (tlbDescriptor vas)"
    using c by (auto simp: asid_check_and_update_def asid_fresh_def Let_def split: if_splits)
  ultimately show ?thesis
    by (simp add: switch_to_vas_def c Let_def vm2_flush_caches_of_ASID_def vm2_set_user_pagetable_def
        asid_set_low asid_set_high)
qed

subsection \<open>Isolation\<close>

lemma tables_in_pool: "pt_ok m U l1pt \<Longrightarrow> t \<in> tables m l1pt \<Longrightarrow> (L2PageTable, t) \<in> U"
  using pt_ok_coarse(1) by (auto simp: tables_def)

text \<open>Writes that are confined to one table do not reach another one with other second level tables.\<close>

lemma confined_other:
  assumes pt: "pt_ok m U A" "pt_ok m U B" and sep: "separate U'" "U \<subseteq> U'" and ne: "A \<noteq> B"
    and apart: "tables m A \<inter> tables m B = {}" and v: "virtual < 0x80000000"
    and conf: "confined m m' U U' A virtual"
  shows "x < 0x80000000 \<Longrightarrow> l1_slot m' B x = l1_slot m B x"
    "x < 0x80000000 \<Longrightarrow> walk m' B x = walk m B x"
proof -
  have keep: "m' a = m a" if u: "u \<in> U" "a \<in> footprint u" "u \<noteq> (L1PageTable, A)" "\<forall>t \<in> tables m A. u \<noteq> (L2PageTable, t)" for a u
  proof (rule ccontr)
    assume "m' a \<noteq> m a"
    with conf consider u' where "u' \<in> U' - U" "a \<in> footprint u'" | "a \<in> footprint (L1PageTable, A)" |
        "take_bit 2 (l1_slot m A virtual) = 1" "a \<in> footprint (L2PageTable, l2_table (l1_slot m A virtual))"
      unfolding confined_def by blast
    then show False
    proof cases
      case 1
      then show ?thesis using separateD [OF sep(1), of u u' a] u(1,2) sep(2) by auto
    next
      case 2
      then show ?thesis using separateD [OF sep(1), of u "(L1PageTable, A)" a] u sep(2) pt_okD(1) [OF pt(1)] by auto
    next
      case 3
      then have "l2_table (l1_slot m A virtual) \<in> tables m A" using v by (auto simp: tables_def)
      with 3(2) show ?thesis
        using separateD [OF sep(1), of u _ a] u sep(2) tables_in_pool [OF pt(1)] by blast
    qed
  qed
  show s1: "x < 0x80000000 \<Longrightarrow> l1_slot m' B x = l1_slot m B x" for x
    using keep [OF pt_okD(1) [OF pt(2)] slot_in_l1] ne by (simp add: l1_slot_def)
  have s2: "l2_slot m' t x = l2_slot m t x" if "t \<in> tables m B" for t x
    using keep [OF tables_in_pool [OF pt(2) that] slot_in_l2 [of t x]] apart that by (auto simp: l2_slot_def)
  assume x: "x < 0x80000000"
  have "take_bit 2 (l1_slot m B x) = 1 \<Longrightarrow> l2_table (l1_slot m B x) \<in> tables m B" using x by (auto simp: tables_def)
  then show "walk m' B x = walk m B x" using s2 by (simp add: walk_def Let_def s1 [OF x])
qed

text \<open>
  (C18) \<^bold>\<open>Isolation of address spaces.\<close> A page that one process gets does not change what another
  process sees: for two address spaces in order, with different first level tables and no
  second level table in common, \<open>allocate_page\<close> for the first leaves every translation of the
  second as it was, and the two are again apart. The page is one that was not in use before.
\<close>

theorem allocate_page_isolated:
  assumes "vas_inv w U a" and "vas_inv w U b" and "l1PageTable a \<noteq> l1PageTable b"
    and "tables (words (pmm (vmem w))) (l1PageTable a) \<inter> tables (words (pmm (vmem w))) (l1PageTable b) = {}"
    and "kheap g" and "\<forall>n. g n \<noteq> None" and "length (vpa_contents (vas_pages a)) < 500000000"
    and "address < 0x80000000" and "mappable (words (pmm (vmem w))) (l1PageTable a) address False"
    and "allocate_page g w a address exec \<noteq> Inl NullDeref"
  shows "\<exists>a' w' page U'. allocate_page g w a address exec = Inr (a', w') \<and> vas_inv w' U' a' \<and> vas_inv w' U' b \<and>
    (Page, page) \<notin> U \<and> vpa_contents (vas_pages a') = vpa_contents (vas_pages a) @ [page] \<and>
    (\<forall>v < 0x80000000. walk (words (pmm (vmem w'))) (l1PageTable b) v = walk (words (pmm (vmem w))) (l1PageTable b) v) \<and>
    tables (words (pmm (vmem w'))) (l1PageTable a') \<inter> tables (words (pmm (vmem w'))) (l1PageTable b) = {}"
proof -
  let ?m = "words (pmm (vmem w))"
  have g: "\<And>n. g n \<noteq> None" using assms(6) by simp
  from allocate_page_ok [OF assms(1,5) g assms(7-10)] obtain a' w' page U' where
    r: "allocate_page g w a address exec = Inr (a', w')" "vas_inv w' U' a'" "(Page, page) \<notin> U"
      "insert (Page, page) U \<subseteq> U'" "l1PageTable a' = l1PageTable a"
      "vpa_contents (vas_pages a') = vpa_contents (vas_pages a) @ [page]"
      "confined ?m (words (pmm (vmem w'))) U U' (l1PageTable a) address"
      "tables (words (pmm (vmem w'))) (l1PageTable a) \<subseteq> tables ?m (l1PageTable a) \<union> {t. (L2PageTable, t) \<in> U' - U}"
    by (elim exE conjE) (rule that)
  have pool: "pmm_pool (pmm (vmem w')) U'" using r(2) by (simp add: vas_inv_def)
  have pta: "pt_ok ?m U (l1PageTable a)" and ptb: "pt_ok ?m U (l1PageTable b)" using assms(1,2) by (simp_all add: vas_inv_def)
  have sub: "U \<subseteq> U'" using r(4) by simp
  note c = confined_other [OF pta ptb pool_separate [OF pool] sub assms(3,4,8) r(7)]
  have "pt_ok (words (pmm (vmem w'))) U' (l1PageTable b)" by (rule pt_ok_cong [OF ptb c(1)]) (use sub in auto)
  then have "vas_inv w' U' b" using assms(2) pool sub by (auto simp: vas_inv_def)
  moreover have "tables (words (pmm (vmem w'))) (l1PageTable b) = tables ?m (l1PageTable b)" by (rule tables_cong [OF c(1)])
  then have "tables (words (pmm (vmem w'))) (l1PageTable a') \<inter> tables (words (pmm (vmem w'))) (l1PageTable b) = {}"
    using r(5,8) assms(4) tables_in_pool [OF ptb] by auto
  ultimately show ?thesis using r(1,2,3,6) c(2)
    by (intro exI [of _ a'] exI [of _ w'] exI [of _ page] exI [of _ U']) simp
qed

text \<open>Two address spaces without pages.\<close>

definition demo_list :: VPArrayList where
  "demo_list = \<lparr>vp_length = 0, vp_capacity = 10, vp_array = kmalloc (\<lambda>n. Some n) 40\<rparr>"

definition demo_vas :: "ptr \<Rightarrow> vas2" where
  "demo_vas l1 = \<lparr>tlbDescriptor = \<lparr>asid = 0, cache_iteration = 1\<rparr>, l1PageTable = l1, l2tables = demo_list, vas_pages = demo_list\<rparr>"

definition demo_world :: vas_world where
  "demo_world = \<lparr>vmem = demo_vm, asids = asid_init, contextidr = 0\<rparr>"

lemma demo_list_ok: "vpa_inv demo_list" "vpa_contents demo_list = []"
  by (simp_all add: demo_list_def vpa_inv_def kmalloc_def vpa_contents_def kcontents_def)

lemma demo_vas_inv: "l1 \<in> {0x202000, 0x204000} \<Longrightarrow> vas_inv demo_world demo_units (demo_vas l1)"
  using demo_vm_pool demo_list_ok empty_table(1) [of l1 demo_units "\<lambda>_. 0"]
  by (auto simp: vas_inv_def demo_world_def demo_vas_def demo_units_def l1_slot_def)

lemma demo_allocates: "allocate_page (\<lambda>n. Some n) demo_world (demo_vas 0x202000) 0x1234 exec \<noteq> Inl NullDeref"
proof -
  let ?al = "vm2_allocate_page demo_vm 0x202000 0x1234 False \<lparr>access = UserRW, executable = exec\<rparr> (Some NULL)"
  have "?al \<noteq> Inl NullDeref" by (rule demo_vm_allocates)
  moreover have "pt_ok (words (pmm demo_vm)) demo_units 0x202000" "mappable (words (pmm demo_vm)) 0x202000 0x1234 False"
    using empty_table(1) [of "0x202000" demo_units "\<lambda>_. 0"] by (simp_all add: l1_slot_def demo_units_def mappable_def)
  ultimately obtain page c vm where r: "?al = Inr (page, c, vm)"
    using vm2_allocate_page_ok [OF demo_vm_pool, of "0x202000" "0x1234" False _ "Some NULL"] by fastforce
  then have c: "c = Some NULL" by (rule created_l2pt_always_null)
  from vpa_push_total [OF kheap_exact _ demo_list_ok(1), of page] obtain n l where
    "vpa_push (\<lambda>n. Some n) demo_list page = Inr (n, l)" by (auto simp: demo_list_ok)
  with r c show ?thesis by (simp add: allocate_page_def demo_world_def demo_vas_def)
qed

lemma demo_mappable: "mappable (words (pmm (vmem demo_world))) l1 v remap" "tables (words (pmm (vmem demo_world))) l1 = {}"
  by (simp_all add: demo_world_def mappable_def l1_slot_def tables_def)

theorem allocate_page_isolated_witness:
  "\<exists>a' w' page U'. allocate_page (\<lambda>n. Some n) demo_world (demo_vas 0x202000) 0x1234 True = Inr (a', w') \<and>
    vas_inv w' U' a' \<and> vas_inv w' U' (demo_vas 0x204000) \<and> vpa_contents (vas_pages a') = [page] \<and>
    (\<forall>v < 0x80000000. walk (words (pmm (vmem w'))) 0x204000 v = None)"
proof -
  have "walk (words (pmm (vmem demo_world))) 0x204000 v = None" for v
    by (simp add: demo_world_def walk_def l1_slot_def)
  moreover have "l1PageTable (demo_vas l1) = l1" "vas_pages (demo_vas l1) = demo_list" for l1 by (simp_all add: demo_vas_def)
  ultimately show ?thesis
    using allocate_page_isolated [OF demo_vas_inv demo_vas_inv _ _ kheap_exact, of "0x202000" "0x204000" "0x1234" True]
      demo_allocates [of True] demo_mappable by (fastforce simp: demo_list_ok)
qed

theorem free_vas_leaks_l2_table_witness:
  "\<exists>vas' w' w'' V t. allocate_page (\<lambda>n. Some n) demo_world (demo_vas 0x202000) 0x1234 False = Inr (vas', w') \<and>
    free_vas w' vas' = Inr w'' \<and> pmm_pool (pmm (vmem w'')) V \<and> (L2PageTable, t) \<in> V \<and> (L1PageTable, 0x202000) \<notin> V"
proof -
  have "l1PageTable (demo_vas l1) = l1" "vas_pages (demo_vas l1) = demo_list" for l1 by (simp_all add: demo_vas_def)
  then show ?thesis
    using free_vas_leaks_l2_table [OF demo_vas_inv kheap_exact, of "0x202000" "0x1234" False]
      demo_allocates [of False] demo_mappable by (fastforce simp: demo_list_ok)
qed

end
