(* ===== verification/Fs_Path.thy ===== *)
theory Fs_Path
  imports Array_Lists
begin

section \<open>Paths: the operations of \<open>fs/path.c\<close> on the bytes of a path\<close>

text \<open>
  A \<open>Path\<close> is a \<open>U8ArrayList\<close> of the characters of the path, without a terminator. This theory holds
  the operations that work on the bytes alone; the lookup of a path in a file system is in \<open>Tmpfs\<close>.

  Against the strict memory model two habits of the file show: \<open>path_parent\<close> starts at the index
  after the last character, and \<open>path_filename\<close> reads the byte before the array when it finds no
  slash. The first makes a second \<open>path_parent\<close> of the same path do nothing.
\<close>

type_synonym Path = U8ArrayList

abbreviation (input) slash :: u8 where "slash \<equiv> 0x2F"
abbreviation (input) dot :: u8 where "dot \<equiv> 0x2E"

subsection \<open>Operations\<close>

definition path_clone :: "grant \<Rightarrow> grant \<Rightarrow> Path \<Rightarrow> fault + Path" where
  "path_clone g g' path = u8a_clone g g' path"

definition path_from_string :: "grant \<Rightarrow> grant \<Rightarrow> u8 kptr \<Rightarrow> fault + Path" where
  "path_from_string g g' str =
     bindE (u8a_create g g' 1) (\<lambda>arr.
     bindE (u8a_push_string g arr str) (\<lambda>(_, arr'). Inr arr'))"

definition path_append :: "grant \<Rightarrow> Path \<Rightarrow> u8 kptr \<Rightarrow> fault + Path" where
  "path_append g path elem =
     bindE (u8a_push g path slash) (\<lambda>(_, path').
     bindE (u8a_push_string g path' elem) (\<lambda>(_, path''). Inr path''))"

text \<open>
  The loop of \<open>path_parent\<close> from index \<open>i\<close> down to 0: the path cut at the slash it meets first, or
  \<open>None\<close> when it meets none. The loop counter is signed: it does not start at all from a length of
  2 GiB or more.
\<close>

fun path_parent_loop :: "Path \<Rightarrow> nat \<Rightarrow> fault + Path option" where
  "path_parent_loop path 0 =
     bindE (rd8 (u8_array path) 0) (\<lambda>c. Inr (if c = slash then Some (path\<lparr>u8_length := 1\<rparr>) else None))"
| "path_parent_loop path (Suc i) =
     bindE (rd8 (u8_array path) (Suc i)) (\<lambda>c.
     if c = slash then Inr (Some (path\<lparr>u8_length := of_nat (Suc i)\<rparr>)) else path_parent_loop path i)"

definition path_parent :: "grant \<Rightarrow> Path \<Rightarrow> fault + Path" where
  "path_parent g path =
     bindE (if u8_length path = 1 then bindE (rd8 (u8_array path) 0) (\<lambda>c. Inr (c = dot)) else Inr False) (\<lambda>is_dot.
     if is_dot then Inr path
     else if u8_length path = 0 then bindE (u8a_push g path dot) (\<lambda>(_, path'). Inr path')
     else
       bindE (if 0 \<le> sint (u8_length path) then path_parent_loop path (unat (u8_length path)) else Inr None) (\<lambda>r.
       case r of
         Some path' \<Rightarrow> Inr path'
       | None \<Rightarrow> bindE (u8a_push g (path\<lparr>u8_length := 0\<rparr>) dot) (\<lambda>(_, path'). Inr path')))"

definition path_free :: "Path \<Rightarrow> u8 kptr list" where
  "path_free path = u8a_free path"

text \<open>The loop of \<open>path_contents_equal\<close>: \<open>n\<close> more characters from index \<open>i\<close>.\<close>

fun path_equal_loop :: "Path \<Rightarrow> Path \<Rightarrow> nat \<Rightarrow> nat \<Rightarrow> fault + bool" where
  "path_equal_loop a b i 0 = Inr True"
| "path_equal_loop a b i (Suc n) =
     bindE (rd8 (u8_array a) i) (\<lambda>c.
     bindE (rd8 (u8_array b) i) (\<lambda>d.
     if c \<noteq> d then Inr False else path_equal_loop a b (Suc i) n))"

definition path_contents_equal :: "Path \<Rightarrow> Path \<Rightarrow> fault + bool" where
  "path_contents_equal a b =
     (if u8_length a \<noteq> u8_length b then Inr False else path_equal_loop a b 0 (unat (u8_length a)))"

definition path_is_absolute :: "Path \<Rightarrow> fault + bool" where
  "path_is_absolute path = bindE (rd8 (u8_array path) 0) (\<lambda>c. Inr (c = slash))"

definition path_is_relative :: "Path \<Rightarrow> fault + bool" where
  "path_is_relative path = bindE (path_is_absolute path) (\<lambda>b. Inr (\<not> b))"

text \<open>
  \<open>strip_chars_from_end\<close>, with the length as the bound on the pops. At length 0 the index
  \<open>length - 1\<close> wraps to the largest word, which lies outside every object.
\<close>

fun strip_loop :: "grant \<Rightarrow> nat \<Rightarrow> Path \<Rightarrow> fault + Path" where
  "strip_loop g 0 p = bindE (u8a_get p (u8_length p - 1)) (\<lambda>_. Inr p)"
| "strip_loop g (Suc n) p =
     bindE (u8a_get p (u8_length p - 1)) (\<lambda>c.
     if c = dot \<or> c = slash then bindE (u8a_pop g p) (\<lambda>(_, p'). strip_loop g n p') else Inr p)"

definition strip_chars_from_end :: "grant \<Rightarrow> Path \<Rightarrow> fault + Path" where
  "strip_chars_from_end g p = strip_loop g (unat (u8_length p)) p"

text \<open>The same loop as \<open>path_filename\<close> has it: only the length goes down.\<close>

fun filename_strip :: "nat \<Rightarrow> Path \<Rightarrow> fault + Path" where
  "filename_strip 0 p = bindE (u8a_get p (u8_length p - 1)) (\<lambda>_. Inr p)"
| "filename_strip (Suc n) p =
     bindE (u8a_get p (u8_length p - 1)) (\<lambda>c.
     if c = dot \<or> c = slash then filename_strip n (p\<lparr>u8_length := u8_length p - 1\<rparr>) else Inr p)"

text \<open>
  The search for the last slash; the argument is \<open>filename_start + 1\<close>, which is also the value
  after the loop. At \<open>filename_start = -1\<close> the byte is read before the bound is tested.
\<close>

fun filename_search :: "Path \<Rightarrow> nat \<Rightarrow> fault + nat" where
  "filename_search p 0 = bindE (u8a_get p (- 1)) (\<lambda>_. Inr 0)"
| "filename_search p (Suc k) =
     bindE (u8a_get p (of_nat k)) (\<lambda>c. if c \<noteq> slash then filename_search p k else Inr (Suc k))"

definition path_filename :: "grant \<Rightarrow> Path \<Rightarrow> fault + Path" where
  "path_filename g p =
     bindE (if u8_length p \<ge> 2
            then bindE (rd8 (u8_array p) (unat (u8_length p - 1))) (\<lambda>c.
                 if c = dot then bindE (rd8 (u8_array p) (unat (u8_length p - 2))) (\<lambda>d. Inr (d = dot))
                 else Inr False)
            else Inr False) (\<lambda>dotdot.
     if dotdot then Inr (u8a_resize g p 0)
     else
       bindE (filename_strip (unat (u8_length p)) p) (\<lambda>p.
       bindE (if 0 \<le> sint (u8_length p - 1) then filename_search p (unat (u8_length p))
              else bindE (u8a_get p (u8_length p - 1)) (\<lambda>_. Inr (unat (u8_length p)))) (\<lambda>filename_start.
       let filename_length = u8_length p - of_nat filename_start in
       bindE (memmove (u8_array p) 0 filename_start (unat filename_length)) (\<lambda>arr.
       Inr (u8a_resize g (p\<lparr>u8_array := arr\<rparr>) filename_length)))))"

definition path_filename_cloned :: "grant \<Rightarrow> grant \<Rightarrow> Path \<Rightarrow> fault + Path" where
  "path_filename_cloned g g' path = bindE (u8a_clone g g' path) (\<lambda>p. path_filename g p)"

subsection \<open>Building paths\<close>

lemma krealloc_granted: "n \<noteq> 0 \<Longrightarrow> g n \<noteq> None \<Longrightarrow> krealloc esz g p n \<noteq> None"
  by (auto simp: krealloc_def kmalloc_def Let_def split: option.splits)

lemma path_from_string_ok:
  assumes "kheap g" and "kheap g'" and "g list_struct_size \<noteq> None" and "g' 1 \<noteq> None"
    and "cstr str 0 xs" and "xs \<noteq> []" and "\<And>n. g n \<noteq> None"
  shows "\<exists>p. path_from_string g g' str = Inr p \<and> u8a_inv p \<and> u8a_contents p = xs"
proof -
  obtain l where c: "u8a_create g g' 1 = Inr l" and l: "u8_array l \<noteq> None" and n: "u8_length l = 0"
    using assms(3,4) by (auto simp: u8a_create_def kmalloc_def)
  have inv: "u8a_inv l" "u8a_contents l = []" using u8a_create_inv [OF assms(2) c l] by auto
  have "length xs < 4294967296" using cstr_length [OF assms(5)] by simp
  moreover have "krealloc (Suc 0) g (u8_array l) (u8_length l + of_nat (length xs)) \<noteq> None"
  proof -
    have "of_nat (length xs) \<noteq> (0::u32)"
      using assms(6) \<open>length xs < 4294967296\<close> unat_of_nat_u32 [of "length xs"] by auto
    then show ?thesis using krealloc_granted [OF _ assms(7)] by (simp add: n)
  qed
  ultimately show ?thesis
    using u8a_push_string_ok [OF assms(1) inv(1) assms(5,6)] by (auto simp: path_from_string_def c inv(2) n)
qed

lemma path_append_ok:
  assumes "kheap g" and "\<And>n. g n \<noteq> None" and inv: "u8a_inv p" and "cstr elem 0 xs" and "xs \<noteq> []"
    and small: "length (u8a_contents p) < 1000000000" "length xs < 1000000000"
  shows "\<exists>p'. path_append g p elem = Inr p' \<and> u8a_inv p' \<and> u8a_contents p' = u8a_contents p @ slash # xs"
proof -
  obtain n l where push: "u8a_push g p slash = Inr (n, l)" and l: "u8a_inv l"
      "u8a_contents l = u8a_contents p @ [slash]"
    using u8a_push_law [OF assms(1-3) small(1), of slash] by blast
  have len: "unat (u8_length l) = Suc (length (u8a_contents p))"
    using length_u8a_contents [OF l(1)] l(2) by simp
  have x: "unat (of_nat (length xs) :: u32) = length xs" using small by (intro unat_of_nat_u32) simp
  then have "unat (u8_length l + of_nat (length xs)) = unat (u8_length l) + length xs"
    using small len by (subst unat_add_no_wrap) simp_all
  then have "u8_length l + of_nat (length xs) \<noteq> 0" using len by auto
  then have "krealloc (Suc 0) g (u8_array l) (u8_length l + of_nat (length xs)) \<noteq> None"
    by (rule krealloc_granted [OF _ assms(2)])
  then show ?thesis
    using u8a_push_string_ok [OF assms(1) l(1) assms(4,5)] len small l(2)
    by (auto simp: path_append_def push)
qed

lemma path_read: "u8a_inv p \<Longrightarrow> i < length (u8a_contents p) \<Longrightarrow> rd8 (u8_array p) i = Inr (u8a_contents p ! i)"
  using kinit_kread [of "Suc 0" "u8_array p" "unat (u8_length p)" i] length_u8a_contents [of p]
  by (simp add: u8a_inv_def u8a_contents_def)

text \<open>
  \<^bold>\<open>Equality of paths.\<close> \<open>path_contents_equal\<close> decides, without a fault, whether two paths
  hold the same characters.
\<close>

lemma path_equal_loop_ok:
  assumes "u8a_inv a" and "u8a_inv b" and "u8_length a = u8_length b" and "i + n = unat (u8_length a)"
  shows "path_equal_loop a b i n = Inr (drop i (u8a_contents a) = drop i (u8a_contents b))"
  using assms(4)
proof (induction n arbitrary: i)
  case 0
  then show ?case using length_u8a_contents [OF assms(1)] length_u8a_contents [OF assms(2)] assms(3) by simp
next
  case (Suc n)
  have len: "i < length (u8a_contents a)" "i < length (u8a_contents b)"
    using Suc.prems length_u8a_contents [OF assms(1)] length_u8a_contents [OF assms(2)] assms(3) by auto
  show ?case
    using Suc.IH [of "Suc i"] Suc.prems len
    by (simp add: path_read assms(1,2) Cons_nth_drop_Suc [symmetric])
qed

lemma path_contents_equal_ok:
  assumes "u8a_inv a" and "u8a_inv b"
  shows "path_contents_equal a b = Inr (u8a_contents a = u8a_contents b)"
  using path_equal_loop_ok [OF assms, of 0] length_u8a_contents [OF assms(1)] length_u8a_contents [OF assms(2)]
  by (auto simp: path_contents_equal_def word_unat_eq_iff)

subsection \<open>The parent of a path\<close>

text \<open>What comes before the last slash, and what the code makes of it.\<close>

definition before_slash :: "u8 list \<Rightarrow> u8 list" where
  "before_slash xs = rev (tl (dropWhile (\<lambda>c. c \<noteq> slash) (rev xs)))"

definition parent_path :: "u8 list \<Rightarrow> u8 list" where
  "parent_path xs =
     (if slash \<notin> set xs then [dot] else if before_slash xs = [] then [slash] else before_slash xs)"

lemma before_slash_snoc: "before_slash (xs @ [c]) = (if c = slash then xs else before_slash xs)"
  by (simp add: before_slash_def)

lemma before_slash_split: "slash \<notin> set ys \<Longrightarrow> before_slash (xs @ slash # ys) = xs"
  by (auto simp: before_slash_def dropWhile_append)

lemma parent_of_append: "slash \<notin> set ys \<Longrightarrow> xs \<noteq> [] \<Longrightarrow> parent_path (xs @ slash # ys) = xs"
  by (simp add: parent_path_def before_slash_split)

abbreviation chars :: "string \<Rightarrow> u8 list" where
  "chars \<equiv> map of_char"

text \<open>The examples of \<open>path.h\<close>, all but that of the empty path.\<close>

lemma parent_path_documented:
  "parent_path (chars ''.'') = chars ''.''"
  "parent_path (chars ''./test'') = chars ''.''"
  "parent_path (chars ''.test'') = chars ''.''"
  "parent_path (chars ''test'') = chars ''.''"
  "parent_path (chars ''/test'') = chars ''/''"
  "parent_path (chars ''/a/b/c'') = chars ''/a/b''"
  "parent_path (chars ''./a/b'') = chars ''./a''"
  by (simp_all add: parent_path_def before_slash_def)

lemma before_slash_prefix:
  "slash \<in> set xs \<Longrightarrow> \<exists>ys. xs = before_slash xs @ slash # ys \<and> slash \<notin> set ys"
proof (induction xs rule: rev_induct)
  case (snoc c xs)
  show ?case
  proof (cases "c = slash")
    case False
    with snoc obtain b ys where "xs = b @ slash # ys" "slash \<notin> set ys" by auto
    with False show ?thesis by (intro exI [of _ "ys @ [c]"]) (simp add: before_slash_snoc before_slash_split)
  qed (simp add: before_slash_snoc)
qed simp

lemma path_parent_loop_ok:
  assumes "\<And>j. j < length ys \<Longrightarrow> rd8 (u8_array p) j = Inr (ys ! j)" and "ys \<noteq> []"
  shows "path_parent_loop p (length ys - 1) =
    Inr (if slash \<in> set ys then Some (p\<lparr>u8_length := of_nat (max 1 (length (before_slash ys)))\<rparr>) else None)"
  using assms
proof (induction ys rule: rev_induct)
  case (snoc c ys)
  have last: "rd8 (u8_array p) (length ys) = Inr c" using snoc.prems(1) [of "length ys"] by simp
  have init: "rd8 (u8_array p) j = Inr (ys ! j)" if "j < length ys" for j
    using snoc.prems(1) [of j] that by (simp add: nth_append)
  show ?case
  proof (cases "length ys")
    case 0
    then show ?thesis using last by (simp add: before_slash_def)
  next
    case (Suc k)
    with snoc.IH [OF init] have "path_parent_loop p k =
        Inr (if slash \<in> set ys then Some (p\<lparr>u8_length := of_nat (max 1 (length (before_slash ys)))\<rparr>) else None)"
      by fastforce
    with last Suc show ?thesis by (simp add: before_slash_snoc)
  qed
qed simp

lemma path_shorten_ok:
  assumes "u8a_inv p" and "n \<le> u8_length p"
  shows "u8a_inv (p\<lparr>u8_length := n\<rparr>)" and "u8a_contents (p\<lparr>u8_length := n\<rparr>) = take (unat n) (u8a_contents p)"
proof -
  have "unat n \<le> unat (u8_length p)" using assms(2) by (simp add: u32_le_unat)
  then show "u8a_inv (p\<lparr>u8_length := n\<rparr>)"
    using assms kinit_mono by (auto simp: u8a_inv_def split: option.splits)
  show "u8a_contents (p\<lparr>u8_length := n\<rparr>) = take (unat n) (u8a_contents p)"
    using \<open>unat n \<le> unat (u8_length p)\<close>
    by (simp add: u8a_contents_def kcontents_def take_map_upt split: option.splits)
qed


lemma parent_path_take:
  assumes "slash \<in> set xs"
  shows "parent_path xs = take (max 1 (length (before_slash xs))) xs"
    and "max 1 (length (before_slash xs)) \<le> length xs"
    and "before_slash xs \<noteq> [] \<Longrightarrow> xs ! length (before_slash xs) = slash"
proof -
  from before_slash_prefix [OF assms] obtain b ys where b: "before_slash xs = b" and xs: "xs = b @ slash # ys"
    by blast
  show "parent_path xs = take (max 1 (length (before_slash xs))) xs"
    using assms by (cases b) (simp_all add: parent_path_def b, simp_all add: xs)
  show "max 1 (length (before_slash xs)) \<le> length xs" by (simp add: b, simp add: xs)
  show "xs ! length (before_slash xs) = slash" by (simp add: b, simp add: xs)
qed

text \<open>
  The search of \<open>path_parent\<close> on a path of \<open>xs\<close>, when the byte after the path can be read: it is
  the search in \<open>xs\<close> unless that byte is a slash.
\<close>

lemma path_parent_search:
  assumes inv: "u8a_inv p" and ne: "u8a_contents p \<noteq> []" and after: "rd8 (u8_array p) (unat (u8_length p)) = Inr b"
  defines "xs \<equiv> u8a_contents p"
  shows "path_parent_loop p (unat (u8_length p)) =
    Inr (if b = slash then Some p
         else if slash \<in> set xs then Some (p\<lparr>u8_length := of_nat (max 1 (length (before_slash xs)))\<rparr>) else None)"
proof -
  have len: "unat (u8_length p) = length xs" using length_u8a_contents [OF inv] by (simp add: xs_def)
  have "rd8 (u8_array p) j = Inr ((xs @ [b]) ! j)" if "j < length (xs @ [b])" for j
    using that after len path_read [OF inv, of j] by (auto simp: xs_def nth_append less_Suc_eq)
  from path_parent_loop_ok [OF this] show ?thesis
    using ne len [symmetric] by (auto simp: before_slash_snoc Suc_le_eq xs_def max_def)
qed

lemma path_parent_dot_case:
  assumes inv: "u8a_inv p" and len: "u8_length p = 1"
  shows "rd8 (u8_array p) 0 = Inr (hd (u8a_contents p))" and "u8a_contents p = [hd (u8a_contents p)]"
proof -
  have "length (u8a_contents p) = 1" using length_u8a_contents [OF inv] len by simp
  then show "u8a_contents p = [hd (u8a_contents p)]" by (cases "u8a_contents p") auto
  show "rd8 (u8_array p) 0 = Inr (hd (u8a_contents p))"
    using path_read [OF inv, of 0] \<open>length (u8a_contents p) = 1\<close> by (cases "u8a_contents p") auto
qed

lemma sint_nonneg_u32: "unat (x :: u32) < 2147483648 \<Longrightarrow> 0 \<le> sint x"
proof -
  assume "unat x < 2147483648"
  then have "int (unat x) < 2147483648" by linarith
  then show ?thesis using order_trans [OF _ unsigned_greater_eq [of x], of "- 2147483648 :: int"]
    unfolding sint_uint by (subst signed_take_bit_int_eq_self) simp_all
qed

text \<open>Cutting the path at the slash found, and what \<open>path_parent\<close> does on each branch.\<close>

lemma path_cut_ok:
  assumes inv: "u8a_inv p" and sl: "slash \<in> set (u8a_contents p)"
  defines "q \<equiv> p\<lparr>u8_length := of_nat (max 1 (length (before_slash (u8a_contents p))))\<rparr>"
  shows "u8a_inv q" and "u8a_contents q = parent_path (u8a_contents p)"
    and "unat (u8_length q) = max 1 (length (before_slash (u8a_contents p)))"
proof -
  note t = parent_path_take [OF sl]
  obtain m where m: "max 1 (length (before_slash (u8a_contents p))) = m" by blast
  have le: "m \<le> unat (u8_length p)" using t(2) [unfolded m] length_u8a_contents [OF inv] by simp
  then have n: "unat (of_nat m :: u32) = m" using u32_unat_lt [of "u8_length p"] by (intro unat_of_nat_u32) simp
  then show "unat (u8_length q) = max 1 (length (before_slash (u8a_contents p)))" unfolding q_def m by simp
  have "of_nat m \<le> u8_length p" using le unfolding u32_le_unat n .
  from path_shorten_ok [OF inv this] show "u8a_inv q" "u8a_contents q = parent_path (u8a_contents p)"
    unfolding q_def t(1) m n .
qed

lemma path_parent_no_dot:
  assumes inv: "u8a_inv p" and "u8a_contents p \<noteq> [dot]" and "u8a_contents p \<noteq> []"
    and "length (u8a_contents p) < 2147483648"
  shows "path_parent g p = bindE (path_parent_loop p (unat (u8_length p))) (\<lambda>r.
       case r of
         Some path' \<Rightarrow> Inr path'
       | None \<Rightarrow> bindE (u8a_push g (p\<lparr>u8_length := 0\<rparr>) dot) (\<lambda>(_, path'). Inr path'))"
proof -
  have "u8_length p \<noteq> 0" using assms(3) by (auto simp: u8a_contents_def)
  moreover have "0 \<le> sint (u8_length p)" using assms(4) length_u8a_contents [OF inv] by (intro sint_nonneg_u32) simp
  moreover have "hd (u8a_contents p) \<noteq> dot" if "u8_length p = 1"
    using path_parent_dot_case [OF inv that] assms(2) by metis
  ultimately show ?thesis
    using path_parent_dot_case(1) [OF inv] by (simp add: path_parent_def)
qed

text \<open>
  What \<open>path_parent\<close> computes when the byte after the path can be read and is not a slash: what comes before the last
  slash, the root for a path directly below it, and the dot for a path without a slash, the empty one among them.
\<close>

lemma path_parent_ok:
  assumes heap: "kheap g" "\<And>n. g n \<noteq> None" and inv: "u8a_inv p"
    and small: "length (u8a_contents p) < 1000000000"
    and after: "u8a_contents p \<noteq> [] \<Longrightarrow> rd8 (u8_array p) (unat (u8_length p)) = Inr b" and ns: "b \<noteq> slash"
  shows "\<exists>p'. path_parent g p = Inr p' \<and> u8a_inv p' \<and> u8a_contents p' = parent_path (u8a_contents p)"
proof -
  have push: "\<exists>n q. u8a_push g (p\<lparr>u8_length := 0\<rparr>) dot = Inr (n, q) \<and> u8a_inv q \<and> u8a_contents q = [dot]"
    using u8a_push_law [OF heap, of "p\<lparr>u8_length := 0\<rparr>" dot] path_shorten_ok [OF inv, of 0] by fastforce
  consider "u8a_contents p = [dot]" | "u8a_contents p = []" | "u8a_contents p \<noteq> [dot]" "u8a_contents p \<noteq> []" by blast
  then show ?thesis
  proof cases
    case 1
    then have "u8_length p = 1" using length_u8a_contents [OF inv] by (simp add: word_unat_eq_iff)
    with 1 inv show ?thesis by (simp add: path_parent_def path_parent_dot_case(1) parent_path_def)
  next
    case 2
    then have "u8_length p = 0" using length_u8a_contents [OF inv] by (simp add: word_unat_eq_iff)
    moreover from this have "p\<lparr>u8_length := 0\<rparr> = p" by (cases p) simp
    ultimately show ?thesis using 2 push by (simp only:) (auto simp: path_parent_def parent_path_def)
  next
    case 3
    then have loop: "path_parent g p = (if slash \<in> set (u8a_contents p)
        then Inr (p\<lparr>u8_length := of_nat (max 1 (length (before_slash (u8a_contents p))))\<rparr>)
        else bindE (u8a_push g (p\<lparr>u8_length := 0\<rparr>) dot) (\<lambda>(_, path'). Inr path'))"
      using path_parent_no_dot [OF inv 3, of g] path_parent_search [OF inv 3(2) after [OF 3(2)]] small ns by simp
    show ?thesis
    proof (cases "slash \<in> set (u8a_contents p)")
      case True
      with path_cut_ok [OF inv True] loop show ?thesis by auto
    next
      case False
      with loop push show ?thesis by (auto simp: parent_path_def)
    qed
  qed
qed

definition demo_path :: "string \<Rightarrow> Path" where
  "demo_path s = \<lparr>u8_length = of_nat (length s), u8_capacity = of_nat (length s), u8_array = cstr_obj (chars s)\<rparr>"

lemma demo_path_ok:
  assumes "length s < 1000"
  shows "u8a_inv (demo_path s)" and "u8a_contents (demo_path s) = chars s"
    and "rd8 (u8_array (demo_path s)) (unat (u8_length (demo_path s))) = Inr 0"
proof -
  have n: "unat (of_nat (length s) :: u32) = length s" using assms by (intro unat_of_nat_u32) simp
  let ?k = "kobj_of (Suc 0) (chars s @ [0])"
  have i: "kinit (Suc 0) ?k (Suc (length s))" using kobj_of_kinit [of "chars s @ [0]" "Suc 0"] assms by simp
  have c: "kcontents ?k (Suc (length s)) = chars s @ [0]" using kobj_of_kcontents [of "Suc 0" "chars s @ [0]"] by simp
  have "of_nat (length s) \<le> (of_nat (Suc (length s)) :: u32)"
    using assms unfolding u32_le_unat n by (subst unat_of_nat_u32) simp_all
  then show "u8a_inv (demo_path s)"
    using kinit_mono [OF i, of "length s"]
    by (simp add: demo_path_def u8a_inv_def cstr_obj_def n) (simp add: kobj_of_def)
  have "kcontents ?k (length s) = take (length s) (kcontents ?k (Suc (length s)))"
    by (simp add: kcontents_def kobj_of_def take_map_upt)
  then show "u8a_contents (demo_path s) = chars s"
    unfolding u8a_contents_def demo_path_def by (simp add: n cstr_obj_def c)
  show "rd8 (u8_array (demo_path s)) (unat (u8_length (demo_path s))) = Inr 0"
    using kinit_kread [OF i, of "length s"] by (simp add: demo_path_def cstr_obj_def n c nth_append)
qed

lemma demo_path_short: "length ''/a/b'' < 1000"
  by simp

lemmas demo_path_ab = demo_path_ok [OF demo_path_short]

text \<open>
  The parent of a path as the comment in \<open>path.h\<close> describes it: the path without its last element, with the root and the
  current directory as their own parents. The comment also gives the empty path the root as its parent; this case is left out, for
  the code makes it the dot (\<open>path_parent_empty\<close>), and so are paths with empty elements, on which the comment is silent.
\<close>

inductive documented_parent :: "u8 list \<Rightarrow> u8 list \<Rightarrow> bool" where
  root: "documented_parent [slash] [slash]"
| top: "name \<noteq> [] \<Longrightarrow> slash \<notin> set name \<Longrightarrow> documented_parent (slash # name) [slash]"
| single: "name \<noteq> [] \<Longrightarrow> slash \<notin> set name \<Longrightarrow> documented_parent name [dot]"
| below: "name \<noteq> [] \<Longrightarrow> slash \<notin> set name \<Longrightarrow> dir \<noteq> [] \<Longrightarrow> last dir \<noteq> slash \<Longrightarrow> documented_parent (dir @ slash # name) dir"

lemma before_slash_top: "slash \<notin> set name \<Longrightarrow> before_slash (slash # name) = []"
  using before_slash_split [of name "[]"] by simp

lemma documented_parent_path: "documented_parent xs ys \<Longrightarrow> xs \<noteq> [] \<and> parent_path xs = ys"
proof (induction rule: documented_parent.induct)
  case root
  then show ?case using before_slash_top [of "[]"] by (simp add: parent_path_def)
next
  case (top name)
  then show ?case by (simp add: parent_path_def before_slash_top)
next
  case (single name)
  then show ?case by (simp add: parent_path_def)
next
  case (below name dir)
  then show ?case by (simp add: parent_of_append)
qed

text \<open>
  (C29) \<^bold>\<open>The parent of a path.\<close> On a path that is not empty and has no empty elements, and when the byte after the path can be read
  and is not a slash, \<open>path_parent\<close> ends without a fault in the parent that \<open>path.h\<close> documents. The empty path is excluded: there the code
  contradicts the comment. The byte after the path is the one the search starts with, by mistake; see \<open>path_parent_stuck\<close>.
\<close>

theorem path_parent_correct:
  assumes "kheap g" and "\<And>n. g n \<noteq> None" and "u8a_inv p" and "length (u8a_contents p) < 1000000000"
    and "rd8 (u8_array p) (unat (u8_length p)) = Inr b" and "b \<noteq> slash" and "documented_parent (u8a_contents p) parent"
  shows "\<exists>p'. path_parent g p = Inr p' \<and> u8a_inv p' \<and> u8a_contents p' = parent"
  using path_parent_ok [OF assms(1-5) assms(6)] documented_parent_path [OF assms(7)] by simp

theorem path_parent_correct_witness:
  "\<exists>p'. path_parent (\<lambda>n. Some n) (demo_path ''/a/b'') = Inr p' \<and> u8a_contents p' = chars ''/a''"
proof -
  have "documented_parent (chars ''/a'' @ slash # chars ''b'') (chars ''/a'')" by (rule documented_parent.below) simp_all
  then have "documented_parent (u8a_contents (demo_path ''/a/b'')) (chars ''/a'')" by (simp add: demo_path_ab(2))
  from path_parent_correct [OF kheap_exact _ demo_path_ab(1) _ demo_path_ab(3) _ this] show ?thesis
    by (auto simp: demo_path_ab(2))
qed

text \<open>The parent of the empty path is the dot, not the root as \<open>path.h\<close> says.\<close>

lemma path_parent_empty:
  assumes "kheap g" and "\<And>n. g n \<noteq> None" and "u8a_inv p" and "u8a_contents p = []"
  shows "\<exists>p'. path_parent g p = Inr p' \<and> u8a_contents p' = [dot]"
  using path_parent_ok [OF assms(1-3), of 0] assms(4) by (auto simp: parent_path_def)

text \<open>
  \<^bold>\<open>A second parent.\<close> \<open>path_parent\<close> only shortens the path, so the slash it cut at is the byte after
  the path, where the next search starts: taking the parent of the result changes nothing. From
  \<open>/a/b\<close> no number of calls reaches the root.
\<close>

theorem path_parent_stuck:
  assumes inv: "u8a_inv p" and small: "length (u8a_contents p) < 1000000000"
    and after: "rd8 (u8_array p) (unat (u8_length p)) = Inr b" and ns: "b \<noteq> slash"
    and deep: "slash \<in> set (u8a_contents p)" "before_slash (u8a_contents p) \<noteq> []"
  shows "\<exists>p'. path_parent g p = Inr p' \<and> u8a_contents p' = parent_path (u8a_contents p) \<and>
    path_parent g p' = Inr p'"
proof -
  let ?p = "p\<lparr>u8_length := of_nat (max 1 (length (before_slash (u8a_contents p))))\<rparr>"
  note cut = path_cut_ok [OF inv deep(1)]
  have nd: "u8a_contents p \<noteq> [dot]" "u8a_contents p \<noteq> []" using deep(1) by auto
  have first: "path_parent g p = Inr ?p"
    using path_parent_no_dot [OF inv nd, of g] path_parent_search [OF inv nd(2) after] small ns deep by simp
  have par: "parent_path (u8a_contents p) = before_slash (u8a_contents p)" using deep by (simp add: parent_path_def)
  have len: "unat (u8_length ?p) = length (before_slash (u8a_contents p))" using cut(3) deep(2) by (cases "before_slash (u8a_contents p)") auto
  have "length (before_slash (u8a_contents p)) < length (u8a_contents p)"
    using before_slash_prefix [OF deep(1)] by (metis length_append less_add_same_cancel1 length_greater_0_conv list.distinct(1))
  then have b: "rd8 (u8_array ?p) (unat (u8_length ?p)) = Inr slash"
    using path_read [OF inv, of "length (before_slash (u8a_contents p))"] parent_path_take(3) [OF deep] len by simp
  have "path_parent g ?p = Inr ?p"
  proof (cases "u8a_contents ?p = [dot]")
    case True
    then have "u8_length ?p = 1" using length_u8a_contents [OF cut(1)] by (simp add: word_unat_eq_iff)
    with True show ?thesis using path_parent_dot_case(1) [OF cut(1)] by (simp add: path_parent_def)
  next
    case False
    have ne: "u8a_contents ?p \<noteq> []" using cut(2) par deep(2) by simp
    have "length (u8a_contents ?p) < 2147483648"
      using small \<open>length (before_slash (u8a_contents p)) < _\<close> cut(2) par by simp
    then show ?thesis
      using path_parent_no_dot [OF cut(1) False ne, of g] path_parent_search [OF cut(1) ne b] by simp
  qed
  with first cut(2) show ?thesis by blast
qed

theorem path_parent_stuck_witness:
  "\<exists>p'. path_parent (\<lambda>n. Some n) (demo_path ''/a/b'') = Inr p' \<and> u8a_contents p' = chars ''/a'' \<and>
     path_parent (\<lambda>n. Some n) p' = Inr p'"
  using path_parent_stuck [OF demo_path_ab(1) _ demo_path_ab(3)]
  by (auto simp: demo_path_ab parent_path_def before_slash_def)

subsection \<open>The file name of a path\<close>

text \<open>The index \<open>length - 1\<close> of an empty path, and of \<open>filename_start = -1\<close>, is outside every object.\<close>

lemma u8a_get_wrapped: "\<exists>e. u8a_get p (- 1) = Inl e"
proof -
  have "\<not> 4294967296 \<le> unat (osize ob)" for ob :: "u8 kobj" using u32_unat_lt [of "osize ob"] by simp
  then show ?thesis
    by (simp add: u8a_get_def kread_def in_object_def unsigned_minus_1_eq_mask mask_eq_exp_minus_1 split: option.splits)
qed

lemma path_get: "u8a_inv p \<Longrightarrow> i < length (u8a_contents p) \<Longrightarrow> u8a_get p (of_nat i) = Inr (u8a_contents p ! i)"
  by (rule u8a_get_contents_nat)

lemma path_last:
  assumes "u8a_inv p" and "u8a_contents p = xs @ [c]"
  shows "unat (u8_length p - 1) = length xs" and "u8a_get p (u8_length p - 1) = Inr c"
    and "u8a_inv (p\<lparr>u8_length := u8_length p - 1\<rparr>)" and "u8a_contents (p\<lparr>u8_length := u8_length p - 1\<rparr>) = xs"
proof -
  have n: "unat (u8_length p) = Suc (length xs)" using length_u8a_contents [OF assms(1)] assms(2) by simp
  then have le: "1 \<le> u8_length p" by (simp add: u32_le_unat)
  show m: "unat (u8_length p - 1) = length xs" using n unat_sub_no_wrap [OF le] by simp
  have i: "length xs < length (u8a_contents p)" using assms(2) by simp
  show "u8a_get p (u8_length p - 1) = Inr c"
    using path_read [OF assms(1) i] by (simp add: u8a_get_def m assms(2))
  have "u8_length p - 1 \<le> u8_length p" using n by (simp add: u32_le_unat m)
  from path_shorten_ok [OF assms(1) this] show "u8a_inv (p\<lparr>u8_length := u8_length p - 1\<rparr>)"
      "u8a_contents (p\<lparr>u8_length := u8_length p - 1\<rparr>) = xs"
    by (simp_all add: m assms(2))
qed

lemma filename_strip_ok:
  assumes "u8a_inv p" and "u8a_contents p = xs @ junk" and "set junk \<subseteq> {dot, slash}"
    and "xs \<noteq> []" and "last xs \<notin> {dot, slash}" and "n = length xs + length junk"
  shows "\<exists>q. filename_strip n p = Inr q \<and> u8a_inv q \<and> u8a_contents q = xs \<and> u8_array q = u8_array p"
  using assms
proof (induction junk arbitrary: p n rule: rev_induct)
  case Nil
  then have "n > 0" by simp
  then obtain k where n: "n = Suc k" using gr0_implies_Suc by blast
  have "u8a_contents p = butlast xs @ [last xs]" using Nil.prems(2,4) by simp
  from path_last(2) [OF Nil.prems(1) this] show ?case using Nil.prems(1,2,5) unfolding n by auto
next
  case (snoc c junk)
  then obtain k where n: "n = Suc k" by (cases n) auto
  have c: "u8a_contents p = (xs @ junk) @ [c]" using snoc.prems(2) by simp
  note l = path_last [OF snoc.prems(1) c]
  have "\<exists>q. filename_strip k (p\<lparr>u8_length := u8_length p - 1\<rparr>) = Inr q \<and> u8a_inv q \<and> u8a_contents q = xs \<and>
      u8_array q = u8_array (p\<lparr>u8_length := u8_length p - 1\<rparr>)"
    by (rule snoc.IH [OF l(3,4)]) (use snoc.prems n in auto)
  then show ?case using l(2) snoc.prems(3) n by auto
qed

lemma filename_strip_nothing:
  assumes "u8a_inv p" and "set (u8a_contents p) \<subseteq> {dot, slash}" and "n = length (u8a_contents p)"
  shows "\<exists>e. filename_strip n p = Inl e"
  using assms
proof (induction n arbitrary: p)
  case 0
  then have "u8_length p = 0" using length_u8a_contents by (simp add: word_unat_eq_iff)
  then show ?case using u8a_get_wrapped [of p] by auto
next
  case (Suc n)
  then obtain xs c where c: "u8a_contents p = xs @ [c]" by (cases "u8a_contents p" rule: rev_exhaust) auto
  note l = path_last [OF Suc.prems(1) c]
  have "\<exists>e. filename_strip n (p\<lparr>u8_length := u8_length p - 1\<rparr>) = Inl e"
    by (rule Suc.IH [OF l(3)]) (use Suc.prems c l(4) in auto)
  then show ?case using l(2) Suc.prems(2) c by auto
qed

lemma filename_search_ok:
  assumes "u8a_inv p" and "u8a_contents p = xs @ slash # ys" and "slash \<notin> set (take m ys)"
    and "m \<le> length ys"
  shows "filename_search p (Suc (length xs + m)) = Inr (Suc (length xs))"
  using assms(3,4)
proof (induction m)
  case 0
  then show ?case using path_get [OF assms(1), of "length xs"] assms(2) by simp
next
  case (Suc m)
  have i: "length xs + Suc m < length (u8a_contents p)" using Suc.prems assms(2) by simp
  have "u8a_contents p ! (length xs + Suc m) = ys ! m" by (simp add: assms(2) nth_append)
  moreover have "ys ! m \<noteq> slash" using Suc.prems by (auto simp: take_Suc_conv_app_nth)
  ultimately have "filename_search p (Suc (length xs + Suc m)) = filename_search p (Suc (length xs + m))"
    using path_get [OF assms(1) i] by simp
  then show ?case using Suc by (simp add: take_Suc_conv_app_nth)
qed

lemma filename_search_none:
  assumes "u8a_inv p" and "slash \<notin> set (u8a_contents p)" and "k \<le> length (u8a_contents p)"
  shows "\<exists>e. filename_search p k = Inl e"
  using assms(3)
proof (induction k)
  case 0
  then show ?case using u8a_get_wrapped [of p] by auto
next
  case (Suc k)
  then have "u8a_contents p ! k \<noteq> slash" using assms(2) by (metis Suc_le_eq nth_mem)
  with Suc path_get [OF assms(1), of k] show ?case by simp
qed

text \<open>The end of \<open>path_filename\<close>: the name is moved to the front and the array cut to it.\<close>

lemma filename_move:
  assumes heap: "kheap g" and inv: "u8a_inv p" and c: "u8a_contents p = xs @ name" and ne: "name \<noteq> []"
  shows "\<exists>arr. memmove (u8_array p) 0 (length xs) (length name) = Inr arr \<and>
    u8a_inv (u8a_resize g (p\<lparr>u8_array := arr\<rparr>) (of_nat (length name))) \<and>
    u8a_contents (u8a_resize g (p\<lparr>u8_array := arr\<rparr>) (of_nat (length name))) = name"
proof -
  have len: "unat (u8_length p) = length xs + length name" using length_u8a_contents [OF inv] c by simp
  obtain ob where ob: "u8_array p = Some ob" using c ne by (auto simp: u8a_contents_def kcontents_def split: option.splits)
  have cap: "unat (u8_length p) \<le> unat (u8_capacity p)" "unat (u8_capacity p) \<le> unat (osize ob)"
    "\<forall>i < unat (u8_length p). cells ob i \<noteq> None"
    using inv ob by (auto simp: u8a_inv_def u32_le_unat kinit_def)
  let ?ob = "ob\<lparr>cells := (\<lambda>i. if 0 \<le> i \<and> i < 0 + length name then cells ob (length xs + (i - 0)) else cells ob i)\<rparr>"
  have move: "memmove (u8_array p) 0 (length xs) (length name) = Inr (Some ?ob)"
    unfolding ob using len cap by (intro memmove_cells) simp_all
  let ?p = "p\<lparr>u8_array := Some ?ob\<rparr>"
  have inv': "u8a_inv ?p" using inv cap len ob by (auto simp: u8a_inv_def kinit_def)
  have n: "unat (of_nat (length name) :: u32) = length name"
    using len u32_unat_lt [of "u8_length p"] by (intro unat_of_nat_u32) simp
  have "cells ob (length xs + i) = Some (name ! i)" if "i < length name" for i
  proof -
    have "u8a_contents p ! (length xs + i) = the (cells ob (length xs + i))"
      using that len by (simp add: u8a_contents_def ob kcontents_nth)
    with cap(3) that len show ?thesis by (simp add: c nth_append)
  qed
  then have "take (length name) (u8a_contents ?p) = name"
    using len by (auto simp: u8a_contents_def kcontents_def take_map_upt intro: nth_equalityI)
  moreover have "of_nat (length name) \<noteq> (0::u32)" using n ne by auto
  moreover have "krealloc (Suc 0) g (u8_array ?p) (of_nat (length name)) \<noteq> None"
    using \<open>of_nat (length name) \<noteq> (0::u32)\<close> len cap
    by (simp add: krealloc_def kmalloc_size_def u32_le_unat n)
  ultimately show ?thesis
    using u8a_resize_ok [OF heap inv', of "of_nat (length name)"] move by (auto simp: n)
qed

lemma path_filename_no_dotdot:
  assumes inv: "u8a_inv p" and c: "u8a_contents p = xs @ junk" and "xs \<noteq> []" and "last xs \<notin> {dot, slash}"
    and nd: "\<not> (\<exists>ys. u8a_contents p = ys @ [dot, dot])"
  shows "path_filename g p =
       bindE (filename_strip (unat (u8_length p)) p) (\<lambda>p.
       bindE (if 0 \<le> sint (u8_length p - 1) then filename_search p (unat (u8_length p))
              else bindE (u8a_get p (u8_length p - 1)) (\<lambda>_. Inr (unat (u8_length p)))) (\<lambda>filename_start.
       let filename_length = u8_length p - of_nat filename_start in
       bindE (memmove (u8_array p) 0 filename_start (unat filename_length)) (\<lambda>arr.
       Inr (u8a_resize g (p\<lparr>u8_array := arr\<rparr>) filename_length))))"
proof (cases "u8_length p \<ge> 2")
  case True
  then have n: "2 \<le> length (u8a_contents p)" using length_u8a_contents [OF inv] by (simp add: u32_le_unat)
  then obtain zs b where z: "u8a_contents p = zs @ [b]" by (cases "u8a_contents p" rule: rev_exhaust) auto
  with n obtain ys a where "zs = ys @ [a]" by (cases zs rule: rev_exhaust) auto
  with z have ab: "u8a_contents p = (ys @ [a]) @ [b]" by simp
  note l = path_last [OF inv ab]
  note l2 = path_last [OF l(3,4)]
  have "u8_length p - 2 = u8_length p - 1 - 1" by simp
  then have "rd8 (u8_array p) (unat (u8_length p - 2)) = Inr a" using l2(2) by (simp add: u8a_get_def)
  moreover have "rd8 (u8_array p) (unat (u8_length p - 1)) = Inr b" using l(2) by (simp add: u8a_get_def)
  moreover have "\<not> (b = dot \<and> a = dot)" using nd ab by auto
  ultimately show ?thesis using True by (auto simp: path_filename_def)
qed (simp add: path_filename_def)

lemma path_filename_ok:
  assumes heap: "kheap g" and inv: "u8a_inv p" and c: "u8a_contents p = xs @ slash # name @ junk"
    and name: "name \<noteq> []" "slash \<notin> set name" "last name \<noteq> dot" and junk: "set junk \<subseteq> {dot, slash}"
    and nd: "\<not> (\<exists>ys. u8a_contents p = ys @ [dot, dot])" and small: "length (u8a_contents p) < 2147483648"
  shows "\<exists>p'. path_filename g p = Inr p' \<and> u8a_inv p' \<and> u8a_contents p' = name"
proof -
  have c': "u8a_contents p = (xs @ slash # name) @ junk" using c by simp
  have l: "last (xs @ slash # name) \<notin> {dot, slash}" "xs @ slash # name \<noteq> []" using name last_in_set [OF name(1)] by (auto simp del: last_in_set)
  have lp: "unat (u8_length p) = length (xs @ slash # name) + length junk"
    using length_u8a_contents [OF inv] c by simp
  obtain q where strip: "filename_strip (unat (u8_length p)) p = Inr q" and q: "u8a_inv q" "u8a_contents q = xs @ slash # name"
    using filename_strip_ok [OF inv c' junk l(2,1) lp] by blast
  have len: "unat (u8_length q) = Suc (length xs + length name)" using length_u8a_contents [OF q(1)] q(2) by simp
  have q': "u8a_contents q = (xs @ [slash]) @ name" using q(2) by simp
  have "u8a_contents q = butlast (u8a_contents q) @ [last name]" using q(2) name(1)
    by (metis append_butlast_last_id append_is_Nil_conv last.simps last_appendR list.distinct(1))
  from path_last(1) [OF q(1) this] have m: "unat (u8_length q - 1) = length xs + length name" using q(2) name(1) by simp
  then have pos: "0 \<le> sint (u8_length q - 1)" using small c by (intro sint_nonneg_u32) simp
  have search: "filename_search q (unat (u8_length q)) = Inr (Suc (length xs))"
    unfolding len using filename_search_ok [OF q, of "length name"] name(2) by simp
  have "u8_length q = of_nat (Suc (length xs + length name))" by (metis len of_nat_unat_u32)
  then have fl: "u8_length q - of_nat (Suc (length xs)) = of_nat (length name)" by simp
  have n: "unat (of_nat (length name) :: u32) = length name" using small c by (intro unat_of_nat_u32) simp
  show ?thesis
    using filename_move [OF heap q(1) q' name(1)]
    by (auto simp: path_filename_no_dotdot [OF inv c' l(2,1) nd] strip pos search fl n Let_def simp del: of_nat_Suc)
qed


text \<open>
  (C30) \<^bold>\<open>The file name of a path.\<close> On a path that has a slash before its last component, a component that does not end
  in a dot, and at most slashes after it, \<open>path_filename\<close> ends without a fault in that component. Components that end in dots are excluded: the
  code strips their dots (\<open>path_filename_strips_dots\<close>), which \<open>path.h\<close> does not say.
\<close>

theorem path_filename_correct:
  assumes "kheap g" and "u8a_inv p" and "u8a_contents p = xs @ slash # name @ slashes"
    and "name \<noteq> []" and "slash \<notin> set name" and "last name \<noteq> dot" and "set slashes \<subseteq> {slash}"
    and "length (u8a_contents p) < 2147483648"
  shows "\<exists>p'. path_filename g p = Inr p' \<and> u8a_inv p' \<and> u8a_contents p' = name"
proof (rule path_filename_ok [OF assms(1-6) _ _ assms(8)])
  show "set slashes \<subseteq> {dot, slash}" using assms(7) by auto
  have "last (u8a_contents p) \<noteq> dot"
  proof (cases slashes rule: rev_exhaust)
    case Nil
    then show ?thesis using assms(3,4,6) by simp
  next
    case (snoc zs z)
    then show ?thesis using assms(3,7) by simp
  qed
  then show "\<not> (\<exists>ys. u8a_contents p = ys @ [dot, dot])" by auto
qed

text \<open>A final component that ends in a dot loses it: the file name of \<open>/a/b.\<close> is \<open>b\<close>.\<close>

lemma path_filename_strips_dots:
  assumes "kheap g" and "u8a_inv p" and "u8a_contents p = xs @ slash # name @ [dot]"
    and "name \<noteq> []" and "slash \<notin> set name" and "last name \<noteq> dot" and "length (u8a_contents p) < 2147483648"
  shows "\<exists>p'. path_filename g p = Inr p' \<and> u8a_contents p' = name"
proof -
  have "\<not> (\<exists>ys. u8a_contents p = ys @ [dot, dot])"
  proof
    assume "\<exists>ys. u8a_contents p = ys @ [dot, dot]"
    then obtain ys where "(xs @ slash # name) @ [dot] = (ys @ [dot]) @ [dot]" using assms(3) by auto
    then have "xs @ slash # name = ys @ [dot]" by (simp only: append1_eq_conv)
    then have "last (xs @ slash # name) = dot" by simp
    then show False using assms(4,6) by simp
  qed
  from path_filename_ok [OF assms(1-6) _ this assms(7)] show ?thesis by auto
qed

lemma demo_path_name_short: "length ''/a/b.c//'' < 1000"
  by simp

lemmas demo_path_name = demo_path_ok [OF demo_path_name_short]

theorem path_filename_correct_witness:
  "\<exists>p'. path_filename (\<lambda>n. Some n) (demo_path ''/a/b.c//'') = Inr p' \<and> u8a_contents p' = chars ''b.c''"
proof -
  have "u8a_contents (demo_path ''/a/b.c//'') = chars ''/a'' @ slash # chars ''b.c'' @ chars ''//''"
    by (simp add: demo_path_name(2))
  from path_filename_correct [OF kheap_exact demo_path_name(1) this] show ?thesis
    by (auto simp: demo_path_name(2))
qed

text \<open>
  On a relative path without a slash, and on a path of dots and slashes alone (among them the root
  and the empty path), the byte before the array is read.
\<close>

lemma path_filename_reads_before_array:
  assumes inv: "u8a_inv p" and c: "u8a_contents p = name @ junk" and sl: "slash \<notin> set name"
    and name: "name \<noteq> []" "last name \<noteq> dot" and junk: "set junk \<subseteq> {dot, slash}"
    and nd: "\<not> (\<exists>ys. u8a_contents p = ys @ [dot, dot])" and small: "length (u8a_contents p) < 2147483648"
  shows "\<exists>e. path_filename g p = Inl e"
proof -
  have l: "last name \<notin> {dot, slash}" using name sl last_in_set [OF name(1)] by (auto simp del: last_in_set)
  obtain q where strip: "filename_strip (unat (u8_length p)) p = Inr q" and q: "u8a_inv q" "u8a_contents q = name"
    using filename_strip_ok [OF inv c junk name(1) l, of "unat (u8_length p)"] length_u8a_contents [OF inv] c by auto
  have "u8a_contents q = butlast name @ [last name]" using q(2) name(1) by simp
  from path_last(1) [OF q(1) this] have "unat (u8_length q - 1) < 2147483648" using small c by simp
  then have "0 \<le> sint (u8_length q - 1)" by (rule sint_nonneg_u32)
  moreover obtain e where "filename_search q (unat (u8_length q)) = Inl e"
    using filename_search_none [OF q(1), of "unat (u8_length q)"] length_u8a_contents [OF q(1)] q(2) sl by auto
  ultimately show ?thesis by (auto simp: path_filename_no_dotdot [OF inv c name(1) l nd] strip)
qed

text \<open>
  \<^bold>\<open>Appending and taking the file name.\<close> The file name of a path to which a component was appended is that
  component, whatever the path was.
\<close>

theorem path_append_filename:
  assumes heap: "kheap g" "\<And>n. g n \<noteq> None" and inv: "u8a_inv p" and str: "cstr elem 0 name"
    and name: "name \<noteq> []" "slash \<notin> set name" "last name \<noteq> dot"
    and small: "length (u8a_contents p) < 1000000000" "length name < 1000000000"
  shows "\<exists>p' q. path_append g p elem = Inr p' \<and> path_filename g p' = Inr q \<and> u8a_contents q = name"
proof -
  obtain p' where a: "path_append g p elem = Inr p'" and p': "u8a_inv p'" "u8a_contents p' = u8a_contents p @ slash # name"
    using path_append_ok [OF heap inv str name(1) small] by blast
  have "last (u8a_contents p') \<noteq> dot" using p'(2) name by simp
  then have "\<not> (\<exists>ys. u8a_contents p' = ys @ [dot, dot])" by (metis last_snoc append_Cons append_Nil append_assoc)
  then show ?thesis
    using path_filename_ok [OF heap(1) p'(1), of "u8a_contents p" name "[]"] p'(2) name small a by auto
qed

theorem path_append_filename_witness:
  "\<exists>p' q. path_append (\<lambda>n. Some n) (demo_path ''/a/b'') (cstr_obj (chars ''c'')) = Inr p' \<and>
     path_filename (\<lambda>n. Some n) p' = Inr q \<and> u8a_contents q = chars ''c''"
proof -
  have "cstr (cstr_obj (chars ''c'')) 0 (chars ''c'')" by (rule cstr_obj_cstr) simp_all
  from path_append_filename [OF kheap_exact _ demo_path_ab(1) this] show ?thesis by (simp add: demo_path_ab(2))
qed

end
