(* ===== verification/Vfs_Model.thy ===== *)
theory Vfs_Model
  imports Fs_Path Qstr_Model
begin

section \<open>The virtual file system: \<open>fs/vfs.c\<close> and \<open>fs/inode.c\<close>\<close>

text \<open>
  Inodes, directory entries and open files live in stores from addresses to structs; an address
  that is not in its store is freed or was never allocated. The result of \<open>kmalloc\<close> for a struct is
  the address it returns, an argument of the operation. One \<open>Vfs\<close> is modelled, so the field \<open>vfs\<close>
  of an inode, which points back to it, is left out.

  An inode of the in-memory file system is the base inode extended by its data (the C struct
  starts with the base and is cast to it); the union of the data is a sum, and using the other
  member than was stored is a fault. The file systems that can be registered are the one the
  kernel has, \<open>FS_TMPFS\<close>; the calls through \<open>fs_identifier->operations\<close> are dispatched on it.
\<close>

datatype InodeType = DIRECTORY | FILE
datatype FsIdentifier = FS_TMPFS
datatype VfsErr = OK | ERR_NOT_DIR | ERR_EXISTS | ERR_ALLOC_FAILED | ERR_NO_PARENT

record Inode =
  inode_type :: InodeType
  inode_id :: u32
  refcount :: u32
  fs_identifier :: FsIdentifier
  direntry :: ptr
  inode_next :: ptr
  should_delete :: bool

datatype tmpfs_data = Filedata (filedata: U8ArrayList) | Direntries (direntries: VPArrayList)

record TmpfsInode = Inode +
  inode_data :: tmpfs_data

text \<open>The inode of a directory entry is not written by \<open>create_direntry\<close>: \<open>None\<close> until it is set.\<close>

record DirEntry =
  de_inode :: "ptr option"
  de_name :: Qstr
  de_parent :: ptr

record File =
  dentry :: ptr
  file_position :: u32
  file_operations :: FsIdentifier

record Vfs =
  filesystems_size :: u32
  filesystems_filled :: u32
  filesystems :: "FsIdentifier kptr"
  vfs_head :: ptr
  vfs_tail :: ptr

record fs_state =
  vfs :: Vfs
  inodes :: "ptr \<Rightarrow> TmpfsInode option"
  dirents :: "ptr \<Rightarrow> DirEntry option"
  files :: "ptr \<Rightarrow> File option"
  inode_cnt :: u32

definition deref :: "(ptr \<Rightarrow> 'a option) \<Rightarrow> ptr \<Rightarrow> fault + 'a" where
  "deref m p = (if p = NULL then Inl NullDeref else case m p of None \<Rightarrow> Inl OutOfBounds | Some x \<Rightarrow> Inr x)"

text \<open>A use of \<open>entry->inode\<close>, and of \<open>*err\<close>.\<close>

definition inode_of :: "DirEntry \<Rightarrow> fault + ptr" where
  "inode_of e = (case de_inode e of None \<Rightarrow> Inl Uninitialised | Some p \<Rightarrow> Inr p)"

definition err_of :: "VfsErr option \<Rightarrow> fault + VfsErr" where
  "err_of err = (case err of None \<Rightarrow> Inl NullDeref | Some e \<Rightarrow> Inr e)"

definition put_inode :: "fs_state \<Rightarrow> ptr \<Rightarrow> TmpfsInode \<Rightarrow> fs_state" where
  "put_inode st p i = st\<lparr>inodes := (inodes st)(p \<mapsto> i)\<rparr>"

definition put_dirent :: "fs_state \<Rightarrow> ptr \<Rightarrow> DirEntry \<Rightarrow> fs_state" where
  "put_dirent st p d = st\<lparr>dirents := (dirents st)(p \<mapsto> d)\<rparr>"

definition put_file :: "fs_state \<Rightarrow> ptr \<Rightarrow> File \<Rightarrow> fs_state" where
  "put_file st p f = st\<lparr>files := (files st)(p \<mapsto> f)\<rparr>"

subsection \<open>\<open>inode.c\<close>\<close>

definition create_inode_base :: "u32 \<Rightarrow> InodeType \<Rightarrow> FsIdentifier \<Rightarrow> ptr \<Rightarrow> Inode \<times> u32" where
  "create_inode_base cnt type fs dirEntry =
     (let cnt = cnt + 1 in
      (\<lparr>inode_type = type, inode_id = cnt, refcount = 0, fs_identifier = fs, direntry = dirEntry,
        inode_next = NULL, should_delete = False\<rparr>, cnt))"

definition create_direntry :: "fs_state \<Rightarrow> ptr \<Rightarrow> Qstr \<Rightarrow> ptr \<Rightarrow> fault + fs_state" where
  "create_direntry st entry name parent =
     (if entry = NULL then Inl NullDeref
      else Inr (put_dirent st entry \<lparr>de_inode = None, de_name = name, de_parent = parent\<rparr>))"

definition free_direntry :: "fs_state \<Rightarrow> ptr \<Rightarrow> fault + fs_state" where
  "free_direntry st entry =
     bindE (deref (dirents st) entry) (\<lambda>_. Inr (st\<lparr>dirents := (dirents st)(entry := None)\<rparr>))"

subsection \<open>\<open>vfs.c\<close>\<close>

definition vfs_create :: "grant \<Rightarrow> ptr \<Rightarrow> fault + Vfs" where
  "vfs_create g res =
     (if res = NULL then Inl NullDeref
      else Inr \<lparr>filesystems_size = 10, filesystems_filled = 0, filesystems = kmalloc g (10 * 4),
                vfs_head = NULL, vfs_tail = NULL\<rparr>)"

definition vfs_add_inode :: "fs_state \<Rightarrow> ptr \<Rightarrow> fault + (VfsErr \<times> fs_state)" where
  "vfs_add_inode st inode =
     bindE (deref (inodes st) inode) (\<lambda>i.
     if inode_next i \<noteq> NULL \<or> vfs_tail (vfs st) = inode then Inr (ERR_EXISTS, st)
     else
       bindE (deref (inodes st) (vfs_tail (vfs st))) (\<lambda>t.
       Inr (OK, put_inode (st\<lparr>vfs := (vfs st)\<lparr>vfs_tail := inode\<rparr>\<rparr>) (vfs_tail (vfs st)) (t\<lparr>inode_next := inode\<rparr>))))"

text \<open>The array grows when it is full after the write; \<open>sizeof(FsIdentifier *)\<close> is 4.\<close>

definition vfs_register :: "grant \<Rightarrow> Vfs \<Rightarrow> FsIdentifier \<Rightarrow> fault + (VfsErr \<times> Vfs)" where
  "vfs_register g v ident =
     bindE (kwrite 4 (filesystems v) (unat (filesystems_filled v)) ident) (\<lambda>fss.
     let v = v\<lparr>filesystems := fss, filesystems_filled := filesystems_filled v + 1\<rparr> in
     if filesystems_filled v \<ge> filesystems_size v
     then
       (let v = v\<lparr>filesystems_size := filesystems_size v * 2\<rparr>;
            v = v\<lparr>filesystems := krealloc 4 g (filesystems v) (filesystems_size v * 4)\<rparr> in
        if filesystems v = None then Inr (ERR_ALLOC_FAILED, v) else Inr (OK, v))
     else Inr (OK, v))"

text \<open>
  The loop of \<open>vfs_get_root\<close> takes fuel: it runs until the tail of the inode list, and would not
  end on a list that does not reach it. The comparison caches the hash of the names it looks at.
\<close>

primrec vfs_get_root_loop :: "nat \<Rightarrow> fs_state \<Rightarrow> ptr \<Rightarrow> fault + (ptr \<times> fs_state)" where
  "vfs_get_root_loop 0 st cur = Inl Diverges"
| "vfs_get_root_loop (Suc fuel) st cur =
     bindE (deref (inodes st) cur) (\<lambda>i.
     bindE (deref (dirents st) (direntry i)) (\<lambda>d.
     bindE (qstr_eq_null_terminated (de_name d) (cstr_obj [slash])) (\<lambda>(eq, name).
     let st' = put_dirent st (direntry i) (d\<lparr>de_name := name\<rparr>) in
     if eq then Inr (direntry i, st')
     else if inode_next i \<noteq> vfs_tail (vfs st) then vfs_get_root_loop fuel st' (inode_next i)
     else Inr (NULL, st'))))"

definition vfs_get_root :: "nat \<Rightarrow> fs_state \<Rightarrow> fault + (ptr \<times> fs_state)" where
  "vfs_get_root fuel st = vfs_get_root_loop fuel st (vfs_head (vfs st))"

end
