(* ===== verification/Tmpfs.thy ===== *)
theory Tmpfs
  imports Vfs_Model
begin

section \<open>The in-memory file system: \<open>fs/tmpfs/tmpfs.c\<close>\<close>

text \<open>
  The operations of the file system that keeps its files in memory. An operation that reports
  errors takes the contents of the caller's \<open>err\<close> (\<open>None\<close> for a null pointer) and returns them;
  an operation that allocates a struct takes the address \<open>kmalloc\<close> returns for it.
\<close>

definition TMPFS_DEFAULT_FILE_ALLOC_SIZE :: u32 where "TMPFS_DEFAULT_FILE_ALLOC_SIZE = 16"
definition TMPFS_DEFAULT_DIR_ALLOC_SIZE :: u32 where "TMPFS_DEFAULT_DIR_ALLOC_SIZE = 4"

definition tmpfs_init :: "grant \<Rightarrow> fs_state \<Rightarrow> fault + (VfsErr \<times> fs_state)" where
  "tmpfs_init g st = bindE (vfs_register g (vfs st) FS_TMPFS) (\<lambda>(e, v). Inr (e, st\<lparr>vfs := v\<rparr>))"

text \<open>A base inode with the data of the extended struct behind it.\<close>

definition tmpfs_inode :: "Inode \<Rightarrow> tmpfs_data \<Rightarrow> TmpfsInode" where
  "tmpfs_inode base d = Inode.extend base (TmpfsInode.fields d)"

definition create_tmpfs_root :: "grant \<Rightarrow> grant \<Rightarrow> ptr \<Rightarrow> ptr \<Rightarrow> fs_state \<Rightarrow> fault + (ptr \<times> fs_state)" where
  "create_tmpfs_root g g' entry root st =
     bindE (qstr_from_null_terminated_string g (cstr_obj [slash])) (\<lambda>name.
     bindE (create_direntry st entry name NULL) (\<lambda>st.
     if root = NULL then Inl NullDeref
     else
       (let (base, cnt) = create_inode_base (inode_cnt st) DIRECTORY FS_TMPFS entry in
        bindE (vpa_create g g' TMPFS_DEFAULT_DIR_ALLOC_SIZE) (\<lambda>l.
        let st = put_inode st root (tmpfs_inode (base\<lparr>inode_next := NULL\<rparr>) (Direntries l));
            st = put_dirent st entry \<lparr>de_inode = Some root, de_name = name, de_parent = NULL\<rparr> in
        Inr (root, st\<lparr>inode_cnt := cnt, vfs := (vfs st)\<lparr>vfs_head := root, vfs_tail := root\<rparr>\<rparr>)))))"

definition dir_list :: "TmpfsInode \<Rightarrow> fault + VPArrayList" where
  "dir_list i = (case inode_data i of Direntries l \<Rightarrow> Inr l | Filedata _ \<Rightarrow> Inl WrongMember)"

definition file_bytes :: "TmpfsInode \<Rightarrow> fault + U8ArrayList" where
  "file_bytes i = (case inode_data i of Filedata a \<Rightarrow> Inr a | Direntries _ \<Rightarrow> Inl WrongMember)"

definition add_entry_to_directory ::
  "grant \<Rightarrow> fs_state \<Rightarrow> ptr \<Rightarrow> ptr \<Rightarrow> VfsErr option \<Rightarrow> fault + (VfsErr option \<times> fs_state)" where
  "add_entry_to_directory g st parent child err =
     bindE (deref (dirents st) parent) (\<lambda>pd.
     bindE (inode_of pd) (\<lambda>pi.
     bindE (deref (inodes st) pi) (\<lambda>parent_inode.
     if inode_type parent_inode \<noteq> DIRECTORY
     then Inr (if err = Some OK then Some ERR_NOT_DIR else err, st)
     else
       bindE (dir_list parent_inode) (\<lambda>l.
       bindE (vpa_push g l child) (\<lambda>(_, l').
       let st = put_inode st pi (parent_inode\<lparr>inode_data := Direntries l'\<rparr>) in
       bindE (deref (dirents st) child) (\<lambda>cd.
       Inr (err, put_dirent st child (cd\<lparr>de_parent := parent\<rparr>))))))))"

text \<open>
  The two functions that create an inode differ in its type and in the list its data starts with;
  what they share, from the write of the inode on, is \<open>tmpfs_enter\<close>.
\<close>

definition tmpfs_enter ::
  "grant \<Rightarrow> fs_state \<Rightarrow> ptr \<Rightarrow> ptr \<Rightarrow> ptr \<Rightarrow> InodeType \<Rightarrow> tmpfs_data \<Rightarrow> VfsErr option \<Rightarrow>
   fault + (ptr \<times> VfsErr option \<times> fs_state)" where
  "tmpfs_enter g st inode parent entry type d err =
     (let (base, cnt) = create_inode_base (inode_cnt st) type FS_TMPFS entry;
          st = put_inode (st\<lparr>inode_cnt := cnt\<rparr>) inode (tmpfs_inode base d) in
      bindE (deref (dirents st) entry) (\<lambda>ed.
      bindE (add_entry_to_directory g (put_dirent st entry (ed\<lparr>de_inode := Some inode\<rparr>)) parent entry err) (\<lambda>(err, st).
      bindE (err_of err) (\<lambda>e.
      if e \<noteq> OK then Inr (NULL, err, st)
      else bindE (vfs_add_inode st inode) (\<lambda>(_, st). Inr (inode, err, st))))))"

definition tmpfs_create_dir ::
  "grant \<Rightarrow> grant \<Rightarrow> fs_state \<Rightarrow> ptr \<Rightarrow> ptr \<Rightarrow> ptr \<Rightarrow> VfsErr option \<Rightarrow> fault + (ptr \<times> VfsErr option \<times> fs_state)" where
  "tmpfs_create_dir g g' st inode parent entry err =
     bindE (deref (dirents st) parent) (\<lambda>pd.
     bindE (inode_of pd) (\<lambda>pi.
     bindE (deref (inodes st) pi) (\<lambda>_.
     if inode = NULL then bindE (err_of err) (\<lambda>e. Inr (NULL, if e \<noteq> OK then Some ERR_ALLOC_FAILED else err, st))
     else bindE (vpa_create g g' TMPFS_DEFAULT_DIR_ALLOC_SIZE) (\<lambda>l.
          tmpfs_enter g st inode parent entry DIRECTORY (Direntries l) err))))"

definition tmpfs_create_file ::
  "grant \<Rightarrow> grant \<Rightarrow> fs_state \<Rightarrow> ptr \<Rightarrow> ptr \<Rightarrow> ptr \<Rightarrow> VfsErr option \<Rightarrow> fault + (ptr \<times> VfsErr option \<times> fs_state)" where
  "tmpfs_create_file g g' st inode parent entry err =
     bindE (deref (dirents st) parent) (\<lambda>pd.
     bindE (inode_of pd) (\<lambda>pi.
     bindE (deref (inodes st) pi) (\<lambda>_.
     if inode = NULL then bindE (err_of err) (\<lambda>e. Inr (NULL, if e \<noteq> OK then Some ERR_ALLOC_FAILED else err, st))
     else bindE (u8a_create g g' TMPFS_DEFAULT_FILE_ALLOC_SIZE) (\<lambda>a.
          tmpfs_enter g st inode parent entry FILE (Filedata a) err))))"

definition tmpfs_open_file ::
  "fs_state \<Rightarrow> ptr \<Rightarrow> ptr \<Rightarrow> VfsErr option \<Rightarrow> fault + (ptr \<times> VfsErr option \<times> fs_state)" where
  "tmpfs_open_file st file inode err =
     (if file = NULL then bindE (err_of err) (\<lambda>e. Inr (NULL, if e \<noteq> OK then Some ERR_ALLOC_FAILED else err, st))
      else
        bindE (deref (inodes st) inode) (\<lambda>i.
        Inr (file, err,
             put_file (put_inode st inode (i\<lparr>refcount := refcount i + 1\<rparr>)) file
               \<lparr>dentry = direntry i, file_position = 0, file_operations = fs_identifier i\<rparr>)))"

text \<open>\<open>tmpfs_remove_file\<close> has an empty body.\<close>

definition tmpfs_remove_file :: "fs_state \<Rightarrow> ptr \<Rightarrow> VfsErr option \<Rightarrow> VfsErr option \<times> fs_state" where
  "tmpfs_remove_file st entry err = (err, st)"

definition op_remove_file :: "FsIdentifier \<Rightarrow> fs_state \<Rightarrow> ptr \<Rightarrow> VfsErr option \<Rightarrow> VfsErr option \<times> fs_state" where
  "op_remove_file fs = (case fs of FS_TMPFS \<Rightarrow> tmpfs_remove_file)"

text \<open>The inode an open file belongs to.\<close>

definition file_inode :: "fs_state \<Rightarrow> File \<Rightarrow> fault + (ptr \<times> TmpfsInode)" where
  "file_inode st f =
     bindE (deref (dirents st) (dentry f)) (\<lambda>d.
     bindE (inode_of d) (\<lambda>p.
     bindE (deref (inodes st) p) (\<lambda>i. Inr (p, i))))"

definition tmpfs_close_file :: "fs_state \<Rightarrow> ptr \<Rightarrow> VfsErr option \<Rightarrow> fault + (VfsErr option \<times> fs_state)" where
  "tmpfs_close_file st file err =
     bindE (deref (files st) file) (\<lambda>f.
     bindE (file_inode st f) (\<lambda>(p, i).
     let i = i\<lparr>refcount := refcount i - 1\<rparr>;
         st = put_inode st p i;
         (err, st) = (if should_delete i \<and> refcount i \<le> 0
                      then op_remove_file (fs_identifier i) st (dentry f) err else (err, st)) in
     Inr (err, st\<lparr>files := (files st)(file := None)\<rparr>)))"

text \<open>Reading and writing: the buffer of the caller is \<open>buf\<close>; the result is the number of bytes copied.\<close>

definition tmpfs_read_file ::
  "fs_state \<Rightarrow> ptr \<Rightarrow> u8 kptr \<Rightarrow> u32 \<Rightarrow> fault + (u32 \<times> u8 kptr \<times> fs_state)" where
  "tmpfs_read_file st fp buf cnt =
     bindE (deref (files st) fp) (\<lambda>f.
     bindE (file_inode st f) (\<lambda>(p, i).
     bindE (file_bytes i) (\<lambda>a.
     let left = u8_length a - file_position f;
         n = (if cnt < left then cnt else left) in
     bindE (memcpy buf 0 (u8_array a) (unat (file_position f)) (unat n)) (\<lambda>(buf', last).
     let numb = of_nat last in
     Inr (numb, buf', put_file st fp (f\<lparr>file_position := file_position f + numb\<rparr>))))))"

definition tmpfs_write_file ::
  "grant \<Rightarrow> fs_state \<Rightarrow> ptr \<Rightarrow> u8 kptr \<Rightarrow> u32 \<Rightarrow> fault + (u32 \<times> fs_state)" where
  "tmpfs_write_file g st fp buf cnt =
     bindE (deref (files st) fp) (\<lambda>f.
     bindE (file_inode st f) (\<lambda>(p, i).
     bindE (file_bytes i) (\<lambda>a.
     let a = u8a_resize g a (u8_capacity a + cnt) in
     bindE (memcpy (u8_array a) (unat (file_position f)) buf 0 (unat cnt)) (\<lambda>(arr, _).
     let pos = file_position f + cnt;
         a = a\<lparr>u8_array := arr, u8_length := pos\<rparr> in
     Inr (cnt, put_file (put_inode st p (i\<lparr>inode_data := Filedata a\<rparr>)) fp (f\<lparr>file_position := pos\<rparr>))))))"

definition tmpfs_list_dir :: "fs_state \<Rightarrow> ptr \<Rightarrow> VfsErr option \<Rightarrow> fault + (VPArrayList \<times> VfsErr option)" where
  "tmpfs_list_dir st entry err =
     bindE (deref (dirents st) entry) (\<lambda>d.
     bindE (inode_of d) (\<lambda>p.
     bindE (deref (inodes st) p) (\<lambda>i.
     bindE (dir_list i) (\<lambda>l. Inr (l, err)))))"

text \<open>Freeing an inode frees the list of its data first; the entries of a directory are not freed with it.\<close>

definition tmpfs_free_inode :: "fs_state \<Rightarrow> ptr \<Rightarrow> fault + fs_state" where
  "tmpfs_free_inode st inode =
     bindE (deref (inodes st) inode) (\<lambda>i.
     bindE (if inode_type i = FILE then bindE (file_bytes i) (\<lambda>a. Inr ())
            else bindE (dir_list i) (\<lambda>l. bindE (vpa_free l False) (\<lambda>_. Inr ()))) (\<lambda>_.
     Inr (st\<lparr>inodes := (inodes st)(inode := None)\<rparr>)))"

text \<open>The calls through the operations of a file system.\<close>

definition op_list_dir :: "FsIdentifier \<Rightarrow> fs_state \<Rightarrow> ptr \<Rightarrow> VfsErr option \<Rightarrow> fault + (VPArrayList \<times> VfsErr option)" where
  "op_list_dir fs = (case fs of FS_TMPFS \<Rightarrow> tmpfs_list_dir)"

definition op_free_inode :: "FsIdentifier \<Rightarrow> fs_state \<Rightarrow> ptr \<Rightarrow> fault + fs_state" where
  "op_free_inode fs = (case fs of FS_TMPFS \<Rightarrow> tmpfs_free_inode)"

subsection \<open>Reading and writing a file\<close>

text \<open>An open file: its struct, the address of its inode, and the inode, whose data are bytes.\<close>

definition opened_file :: "fs_state \<Rightarrow> ptr \<Rightarrow> File \<Rightarrow> ptr \<Rightarrow> TmpfsInode \<Rightarrow> U8ArrayList \<Rightarrow> bool" where
  "opened_file st fp f p i a \<longleftrightarrow>
     fp \<noteq> NULL \<and> files st fp = Some f \<and> file_inode st f = Inr (p, i) \<and> inode_data i = Filedata a \<and> u8a_inv a"

lemma file_inodeE:
  assumes "file_inode st f = Inr (p, i)"
  obtains d where "dentry f \<noteq> NULL" and "dirents st (dentry f) = Some d" and "de_inode d = Some p"
    and "p \<noteq> NULL" and "inodes st p = Some i"
  using assms by (auto simp: file_inode_def deref_def inode_of_def bindE_Inr_iff split: if_splits option.splits)

lemma file_inode_cong:
  "dirents st' = dirents st \<Longrightarrow> inodes st' p = Some i' \<Longrightarrow> file_inode st f = Inr (p, i) \<Longrightarrow> dentry f' = dentry f \<Longrightarrow>
   file_inode st' f' = Inr (p, i')"
  by (erule file_inodeE) (simp add: file_inode_def deref_def inode_of_def)

text \<open>The bytes of a file after \<open>bs\<close> were written at \<open>pos\<close>.\<close>

lemma tmpfs_write_array:
  assumes heap: "kheap g" "\<And>n. g n \<noteq> None" and inv: "u8a_inv a" and pos: "pos \<le> u8_length a"
    and buf: "kinit (Suc 0) buf (unat cnt)" and cnt: "cnt \<noteq> 0"
    and room: "unat (u8_capacity a) + unat cnt < 4294967296"
  defines "a' \<equiv> u8a_resize g a (u8_capacity a + cnt)"
  shows "\<exists>arr k. memcpy (u8_array a') (unat pos) buf 0 (unat cnt) = Inr (arr, k) \<and>
    u8a_inv (a'\<lparr>u8_array := arr, u8_length := pos + cnt\<rparr>) \<and>
    u8a_contents (a'\<lparr>u8_array := arr, u8_length := pos + cnt\<rparr>) =
      take (unat pos) (u8a_contents a) @ kcontents buf (unat cnt)"
proof -
  have cap: "unat (u8_capacity a + cnt) = unat (u8_capacity a) + unat cnt" using room by (subst unat_add_no_wrap) simp_all
  have c0: "0 < unat cnt" using cnt by (simp add: unat_gt_0)
  then have nz: "u8_capacity a + cnt \<noteq> 0" using cap by auto
  have len: "unat pos \<le> unat (u8_length a)" "unat (u8_length a) \<le> unat (u8_capacity a)"
    using pos inv by (auto simp: u32_le_unat u8a_inv_def)
  have res: "u8a_inv a' \<and> u8a_contents a' = take (unat (u8_capacity a + cnt)) (u8a_contents a) \<and> u8_capacity a' = u8_capacity a + cnt"
    unfolding a'_def using nz krealloc_granted [OF nz heap(2)] by (intro u8a_resize_ok [OF heap(1) inv]) auto
  then have res': "u8a_inv a'" "u8a_contents a' = u8a_contents a" "unat (u8_capacity a') = unat (u8_capacity a) + unat cnt"
    using len length_u8a_contents [OF inv] cap by auto
  obtain ob where ob: "u8_array a' = Some ob" "unat (u8_capacity a') \<le> unat (osize ob)" "\<forall>j < unat (u8_length a'). cells ob j \<noteq> None"
    using res'(1,3) c0 by (auto simp: u8a_inv_def kinit_def u32_le_unat split: option.splits)
  have len': "unat (u8_length a') = unat (u8_length a)"
    using length_u8a_contents [OF res'(1)] length_u8a_contents [OF inv] res'(2) by simp
  obtain src where src: "buf = Some src" "unat cnt \<le> unat (osize src)" "\<forall>j < unat cnt. cells src j \<noteq> None"
    using buf c0 by (auto simp: kinit_def)
  let ?ob = "ob\<lparr>cells := (\<lambda>j. if unat pos \<le> j \<and> j < unat pos + unat cnt then cells src (0 + (j - unat pos)) else cells ob j)\<rparr>"
  have cp: "memcpy (u8_array a') (unat pos) buf 0 (unat cnt) = Inr (Some ?ob, unat pos + unat cnt)"
    unfolding ob(1) src(1) using len res'(3) ob(2) src(2) by (intro memcpy_cells) auto
  have pc: "unat (pos + cnt) = unat pos + unat cnt" using len room by (subst unat_add_no_wrap) simp_all
  have "u8a_inv (a'\<lparr>u8_array := Some ?ob, u8_length := pos + cnt\<rparr>)"
    using ob src len res'(3) len' pc by (auto simp: u8a_inv_def kinit_def u32_le_unat)
  moreover have "the (cells ob j) = u8a_contents a ! j" if "j < unat pos" for j
  proof -
    have "j < unat (u8_length a')" using that len len' by simp
    then have "u8a_contents a' ! j = the (cells ob j)" by (simp add: u8a_contents_def ob(1) kcontents_nth)
    then show ?thesis using res'(2) by simp
  qed
  then have "u8a_contents (a'\<lparr>u8_array := Some ?ob, u8_length := pos + cnt\<rparr>) =
      take (unat pos) (u8a_contents a) @ kcontents buf (unat cnt)"
    using len length_u8a_contents [OF inv]
    by (intro nth_equalityI) (auto simp: u8a_contents_def src(1) pc kcontents_nth nth_append)
  ultimately show ?thesis using cp by blast
qed

lemma tmpfs_write_ok:
  assumes heap: "kheap g" "\<And>n. g n \<noteq> None" and f: "opened_file st fp f p i a"
    and pos: "file_position f \<le> u8_length a" and buf: "kinit (Suc 0) buf (unat cnt)" and cnt: "cnt \<noteq> 0"
    and room: "unat (u8_capacity a) + unat cnt < 4294967296"
  shows "\<exists>st' a'. tmpfs_write_file g st fp buf cnt = Inr (cnt, st') \<and>
    st' = put_file (put_inode st p (i\<lparr>inode_data := Filedata a'\<rparr>)) fp (f\<lparr>file_position := file_position f + cnt\<rparr>) \<and>
    u8a_inv a' \<and> u8a_contents a' = take (unat (file_position f)) (u8a_contents a) @ kcontents buf (unat cnt)"
proof -
  have d: "deref (files st) fp = Inr f" "file_inode st f = Inr (p, i)" "file_bytes i = Inr a" and inv: "u8a_inv a"
    using f by (auto simp: opened_file_def deref_def file_bytes_def)
  from tmpfs_write_array [OF heap inv pos buf cnt room] obtain arr k where
    w: "memcpy (u8_array (u8a_resize g a (u8_capacity a + cnt))) (unat (file_position f)) buf 0 (unat cnt) = Inr (arr, k)"
    "u8a_inv (u8a_resize g a (u8_capacity a + cnt)\<lparr>u8_array := arr, u8_length := file_position f + cnt\<rparr>)"
    "u8a_contents (u8a_resize g a (u8_capacity a + cnt)\<lparr>u8_array := arr, u8_length := file_position f + cnt\<rparr>) =
      take (unat (file_position f)) (u8a_contents a) @ kcontents buf (unat cnt)"
    by blast
  then show ?thesis by (simp add: tmpfs_write_file_def d Let_def w(1)) blast
qed

lemma tmpfs_read_ok:
  assumes f: "opened_file st fp f p i a" and pos: "file_position f \<le> u8_length a"
    and buf: "buf = Some b" "unat cnt \<le> unat (osize b)"
  defines "bs \<equiv> take (unat cnt) (drop (unat (file_position f)) (u8a_contents a))"
  shows "\<exists>buf' st'. tmpfs_read_file st fp buf cnt = Inr (of_nat (length bs), buf', st') \<and>
    st' = put_file st fp (f\<lparr>file_position := file_position f + of_nat (length bs)\<rparr>) \<and>
    kinit (Suc 0) buf' (length bs) \<and> kcontents buf' (length bs) = bs"
proof -
  have d: "deref (files st) fp = Inr f" "file_inode st f = Inr (p, i)" "file_bytes i = Inr a" and inv: "u8a_inv a"
    using f by (auto simp: opened_file_def deref_def file_bytes_def)
  define n where "n = (if cnt < u8_length a - file_position f then cnt else u8_length a - file_position f)"
  have sub: "unat (u8_length a - file_position f) = unat (u8_length a) - unat (file_position f)" by (rule unat_sub_no_wrap [OF pos])
  have n: "unat n = length bs"
    using length_u8a_contents [OF inv] sub by (auto simp: n_def bs_def u32_less_unat)
  have nle: "unat n \<le> unat cnt" using sub by (auto simp: n_def u32_less_unat)
  have pn: "unat (file_position f) + unat n \<le> unat (u8_length a)"
    using pos sub by (auto simp: n_def u32_less_unat u32_le_unat)
  show ?thesis
  proof (cases "unat n = 0")
    case True
    then show ?thesis using n
      by (auto simp: tmpfs_read_file_def d Let_def n_def [symmetric] intro!: exI [of _ st])
  next
    case False
    then have "unat (u8_length a) \<noteq> 0" using pn by simp
    then obtain ob where ob: "u8_array a = Some ob" "unat (u8_length a) \<le> unat (osize ob)" "\<forall>j < unat (u8_length a). cells ob j \<noteq> None"
      using inv by (auto simp: u8a_inv_def kinit_def u32_le_unat)
    let ?b = "b\<lparr>cells := (\<lambda>j. if 0 \<le> j \<and> j < 0 + unat n then cells ob (unat (file_position f) + (j - 0)) else cells b j)\<rparr>"
    have cp: "memcpy buf 0 (u8_array a) (unat (file_position f)) (unat n) = Inr (Some ?b, 0 + unat n)"
      unfolding ob(1) buf(1) using nle buf(2) pn ob(2) by (intro memcpy_cells) auto
    have "kinit (Suc 0) (Some ?b) (length bs)" using nle buf(2) pn ob(3) n by (auto simp: kinit_def)
    moreover have "kcontents (Some ?b) (length bs) = bs"
    proof (rule nth_equalityI)
      fix j assume "j < length (kcontents (Some ?b) (length bs))"
      then have j: "j < length bs" by simp
      then have "u8a_contents a ! (unat (file_position f) + j) = the (cells ob (unat (file_position f) + j))"
        using pn n by (simp add: u8a_contents_def ob(1) kcontents_nth)
      then show "kcontents (Some ?b) (length bs) ! j = bs ! j"
        using j n pn length_u8a_contents [OF inv] by (simp add: kcontents_nth bs_def)
    qed simp
    moreover have "tmpfs_read_file st fp buf cnt =
        Inr (of_nat (length bs), Some ?b, put_file st fp (f\<lparr>file_position := file_position f + of_nat (length bs)\<rparr>))"
      unfolding tmpfs_read_file_def d bindE.simps prod.case Let_def n_def [symmetric] cp by (simp add: n)
    ultimately show ?thesis by blast
  qed
qed


definition demo_fs :: fs_state where
  "demo_fs = \<lparr>vfs = \<lparr>filesystems_size = 10, filesystems_filled = 1, filesystems = kobj_of 4 (replicate 10 FS_TMPFS),
       vfs_head = 0x100, vfs_tail = 0x200\<rparr>,
     inodes = [0x100 \<mapsto> tmpfs_inode \<lparr>inode_type = DIRECTORY, inode_id = 1, refcount = 0, fs_identifier = FS_TMPFS,
                 direntry = 0x300, inode_next = 0x200, should_delete = False\<rparr>
                 (Direntries \<lparr>vp_length = 1, vp_capacity = 4, vp_array = Some \<lparr>osize = 16, cells = [0 \<mapsto> 0x400]\<rparr>\<rparr>),
               0x200 \<mapsto> tmpfs_inode \<lparr>inode_type = FILE, inode_id = 2, refcount = 1, fs_identifier = FS_TMPFS,
                 direntry = 0x400, inode_next = NULL, should_delete = False\<rparr>
                 (Filedata \<lparr>u8_length = 3, u8_capacity = 16, u8_array = Some \<lparr>osize = 16, cells = [0 \<mapsto> 1, 1 \<mapsto> 2, 2 \<mapsto> 3]\<rparr>\<rparr>)],
     dirents = [0x300 \<mapsto> \<lparr>de_inode = Some 0x100, de_name = \<lparr>qdata = cstr_obj (chars ''/''), qlength = 1, qhash = 0\<rparr>, de_parent = NULL\<rparr>,
                0x400 \<mapsto> \<lparr>de_inode = Some 0x200, de_name = \<lparr>qdata = cstr_obj (chars ''test''), qlength = 4, qhash = 0\<rparr>, de_parent = 0x300\<rparr>],
     files = [0x500 \<mapsto> \<lparr>dentry = 0x400, file_position = 1, file_operations = FS_TMPFS\<rparr>],
     inode_cnt = 2\<rparr>"

lemmas tmpfs_inode_simps [simp] = tmpfs_inode_def Inode.defs TmpfsInode.defs

lemma demo_open_file:
  "opened_file demo_fs 0x500 \<lparr>dentry = 0x400, file_position = 1, file_operations = FS_TMPFS\<rparr> 0x200
     (the (inodes demo_fs 0x200)) (filedata (inode_data (the (inodes demo_fs 0x200))))"
proof -
  have "i = 0 \<or> i = 1 \<or> i = 2" if "i < 3" for i :: nat using that by linarith
  then show ?thesis
    by (auto simp: opened_file_def demo_fs_def file_inode_def deref_def inode_of_def u8a_inv_Some)
qed


subsection \<open>The tree of directories\<close>

text \<open>
  The inodes of the file system are linked from the head to the tail; each has its entry, whose
  inode it is; a directory lists entries of such inodes, and a file holds bytes.
\<close>

definition inode_list :: "fs_state \<Rightarrow> ptr list \<Rightarrow> bool" where
  "inode_list st ps \<longleftrightarrow>
     ps \<noteq> [] \<and> distinct ps \<and> NULL \<notin> set ps \<and> vfs_head (vfs st) = hd ps \<and> vfs_tail (vfs st) = last ps \<and>
     (\<forall>k < length ps. \<exists>i. inodes st (ps ! k) = Some i \<and> inode_next i = (if Suc k < length ps then ps ! Suc k else NULL))"

definition entry_ok :: "fs_state \<Rightarrow> ptr set \<Rightarrow> ptr \<Rightarrow> bool" where
  "entry_ok st P c \<longleftrightarrow>
     c \<noteq> NULL \<and>
     (\<exists>d p i xs. dirents st c = Some d \<and> de_inode d = Some p \<and> p \<in> P \<and> inodes st p = Some i \<and> direntry i = c \<and>
        qstr_ok (de_name d) xs)"

definition data_ok :: "fs_state \<Rightarrow> ptr set \<Rightarrow> TmpfsInode \<Rightarrow> bool" where
  "data_ok st P i \<longleftrightarrow>
     (case inode_data i of
        Direntries l \<Rightarrow> inode_type i = DIRECTORY \<and> vpa_inv l \<and> (\<forall>c \<in> set (vpa_contents l). entry_ok st P c)
      | Filedata a \<Rightarrow> inode_type i = FILE \<and> u8a_inv a)"

definition inode_ok :: "fs_state \<Rightarrow> ptr set \<Rightarrow> ptr \<Rightarrow> TmpfsInode \<Rightarrow> bool" where
  "inode_ok st P p i \<longleftrightarrow>
     entry_ok st P (direntry i) \<and> (\<forall>d. dirents st (direntry i) = Some d \<longrightarrow> de_inode d = Some p) \<and> data_ok st P i"

definition fs_ok :: "fs_state \<Rightarrow> ptr list \<Rightarrow> bool" where
  "fs_ok st ps \<longleftrightarrow> inode_list st ps \<and> (\<forall>p \<in> set ps. \<forall>i. inodes st p = Some i \<longrightarrow> inode_ok st (set ps) p i)"

text \<open>What an entry is to a user: the entries below it, or its bytes.\<close>

definition fs_node_at :: "fs_state \<Rightarrow> ptr \<Rightarrow> TmpfsInode option" where
  "fs_node_at st e = (case dirents st e of None \<Rightarrow> None | Some d \<Rightarrow> (case de_inode d of None \<Rightarrow> None | Some p \<Rightarrow> inodes st p))"

definition node_data :: "TmpfsInode \<Rightarrow> ptr list + u8 list" where
  "node_data i = (case inode_data i of Direntries l \<Rightarrow> Inl (vpa_contents l) | Filedata a \<Rightarrow> Inr (u8a_contents a))"

definition content_of :: "fs_state \<Rightarrow> ptr \<Rightarrow> (ptr list + u8 list) option" where
  "content_of st e = map_option node_data (fs_node_at st e)"

definition entry_name :: "fs_state \<Rightarrow> ptr \<Rightarrow> u8 list" where
  "entry_name st e = (case dirents st e of None \<Rightarrow> [] | Some d \<Rightarrow> kcontents (qdata (de_name d)) (unat (qlength (de_name d))))"

text \<open>What the creation of an inode asks for: its parent, the address of the inode, and the new entry.\<close>

definition creatable :: "fs_state \<Rightarrow> ptr list \<Rightarrow> ptr \<Rightarrow> ptr \<Rightarrow> ptr \<Rightarrow> bool" where
  "creatable st ps inode parent entry \<longleftrightarrow>
     inode \<noteq> NULL \<and> inodes st inode = None \<and>
     (\<exists>p \<in> set ps. \<exists>i. inodes st p = Some i \<and> direntry i = parent \<and> inode_type i = DIRECTORY) \<and>
     entry \<noteq> NULL \<and> (\<exists>d xs. dirents st entry = Some d \<and> qstr_ok (de_name d) xs) \<and>
     (\<forall>p i. inodes st p = Some i \<longrightarrow> direntry i \<noteq> entry) \<and>
     (\<forall>c d. dirents st c = Some d \<longrightarrow> de_inode d \<noteq> Some inode)"

text \<open>The inode that is entered, and the state afterwards, as its stores.\<close>

definition new_inode :: "fs_state \<Rightarrow> InodeType \<Rightarrow> ptr \<Rightarrow> tmpfs_data \<Rightarrow> TmpfsInode" where
  "new_inode st ty entry d =
     tmpfs_inode \<lparr>inode_type = ty, inode_id = inode_cnt st + 1, refcount = 0, fs_identifier = FS_TMPFS, direntry = entry,
                  inode_next = NULL, should_delete = False\<rparr> d"

definition entered_state :: "fs_state \<Rightarrow> ptr \<Rightarrow> TmpfsInode \<Rightarrow> ptr \<Rightarrow> TmpfsInode \<Rightarrow> VPArrayList \<Rightarrow> ptr \<Rightarrow> DirEntry \<Rightarrow> ptr \<Rightarrow> fs_state" where
  "entered_state st inode new pi pin l' entry ed parent =
     (let ins = (inodes st)(inode \<mapsto> new, pi \<mapsto> pin\<lparr>inode_data := Direntries l'\<rparr>);
          t = vfs_tail (vfs st) in
      st\<lparr>inode_cnt := inode_cnt st + 1, vfs := (vfs st)\<lparr>vfs_tail := inode\<rparr>,
         inodes := ins(t \<mapsto> (the (ins t))\<lparr>inode_next := inode\<rparr>),
         dirents := (dirents st)(entry \<mapsto> ed\<lparr>de_inode := Some inode, de_parent := parent\<rparr>)\<rparr>)"

lemma fs_okD:
  assumes "fs_ok st ps" and "p \<in> set ps"
  obtains i where "p \<noteq> NULL" and "inodes st p = Some i" and "inode_ok st (set ps) p i"
proof -
  from assms obtain k where k: "k < length ps" "p = ps ! k" by (auto simp: in_set_conv_nth)
  with assms obtain i where "inodes st p = Some i" by (auto simp: fs_ok_def inode_list_def)
  with assms that show ?thesis by (auto simp: fs_ok_def inode_list_def)
qed

lemma tmpfs_enter_eq:
  assumes ok: "fs_ok st ps" and new: "inode \<noteq> NULL" "inodes st inode = None"
    and par: "pi \<in> set ps" "inodes st pi = Some pin" "direntry pin = parent" "inode_data pin = Direntries l"
    and ent: "entry \<noteq> NULL" "dirents st entry = Some ed" "entry \<noteq> parent"
    and push: "vpa_push g l entry = Inr (n, l')"
  shows "tmpfs_enter g st inode parent entry ty d (Some OK) =
    Inr (inode, Some OK, entered_state st inode (new_inode st ty entry d) pi pin l' entry ed parent)"
proof -
  have pin: "inode_ok st (set ps) pi pin" and pi: "pi \<noteq> NULL"
    using fs_okD [OF ok par(1)] par(2) by auto
  then obtain pd where pd: "parent \<noteq> NULL" "dirents st parent = Some pd" "de_inode pd = Some pi"
    and dir: "inode_type pin = DIRECTORY"
    using par by (auto simp: inode_ok_def entry_ok_def data_ok_def)
  have neq: "pi \<noteq> inode" using new par by auto
  let ?t = "vfs_tail (vfs st)"
  have "?t \<in> set ps" using ok by (auto simp: fs_ok_def inode_list_def)
  from fs_okD [OF ok this] obtain ti where t: "?t \<noteq> NULL" "inodes st ?t = Some ti" by metis
  then have nt: "?t \<noteq> inode" using new by auto
  show ?thesis
    using new par ent pd dir pi neq t nt
    by (cases "?t = pi")
       (auto simp: tmpfs_enter_def create_inode_base_def Let_def deref_def inode_of_def err_of_def dir_list_def push
          add_entry_to_directory_def vfs_add_inode_def put_inode_def put_dirent_def new_inode_def entered_state_def fun_upd_twist)
qed

text \<open>The stores after an inode was entered.\<close>

lemma entered_inodes:
  assumes ok: "fs_ok st ps" and new: "inodes st inode = None" and par: "pi \<in> set ps" "inodes st pi = Some pin"
    and st': "st' = entered_state st inode nw pi pin l' entry ed parent"
  shows "inodes st' inode = Some nw"
    and "p \<in> set ps \<Longrightarrow> inodes st p = Some i \<Longrightarrow>
      \<exists>i'. inodes st' p = Some i' \<and> direntry i' = direntry i \<and> inode_type i' = inode_type i \<and>
        inode_data i' = (if p = pi then Direntries l' else inode_data i) \<and>
        inode_next i' = (if p = last ps then inode else inode_next i)"
proof -
  have tl: "vfs_tail (vfs st) = last ps" "last ps \<in> set ps" using ok by (auto simp: fs_ok_def inode_list_def)
  obtain ti where ti: "inodes st (last ps) = Some ti" using fs_okD [OF ok tl(2)] by metis
  have ne: "last ps \<noteq> inode" "pi \<noteq> inode" using new ti par by auto
  show "inodes st' inode = Some nw" using ne by (simp add: st' entered_state_def Let_def tl)
  assume "p \<in> set ps" and "inodes st p = Some i"
  then have "p \<noteq> inode" using new by auto
  then show "\<exists>i'. inodes st' p = Some i' \<and> direntry i' = direntry i \<and> inode_type i' = inode_type i \<and>
        inode_data i' = (if p = pi then Direntries l' else inode_data i) \<and>
        inode_next i' = (if p = last ps then inode else inode_next i)"
    using \<open>inodes st p = Some i\<close> ti par ne by (auto simp: st' entered_state_def Let_def tl)
qed

lemma entered_inode_list:
  assumes ok: "fs_ok st ps" and new: "inode \<noteq> NULL" "inodes st inode = None" and par: "pi \<in> set ps" "inodes st pi = Some pin"
  shows "inode_list (entered_state st inode (new_inode st ty entry d) pi pin l' entry ed parent) (ps @ [inode])"
    (is "inode_list ?st _")
proof -
  note e = entered_inodes [OF ok new(2) par refl, where nw = "new_inode st ty entry d" and l' = l' and entry = entry and ed = ed and parent = parent]
  have il: "inode_list st ps" using ok by (simp add: fs_ok_def)
  have ni: "inode \<notin> set ps" using ok new by (metis fs_okD option.distinct(1))
  have chain: "\<exists>i. inodes ?st ((ps @ [inode]) ! k) = Some i \<and>
      inode_next i = (if Suc k < length (ps @ [inode]) then (ps @ [inode]) ! Suc k else NULL)" if "k < length (ps @ [inode])" for k
  proof (cases "k = length ps")
    case True
    then show ?thesis using e(1) by (simp add: new_inode_def)
  next
    case False
    then have k: "k < length ps" using that by simp
    obtain i where i: "inodes st (ps ! k) = Some i" "inode_next i = (if Suc k < length ps then ps ! Suc k else NULL)"
      using il k by (auto simp: inode_list_def)
    have lastk: "ps ! k = last ps \<longleftrightarrow> Suc k = length ps"
      using il k nth_eq_iff_index_eq [of ps k "length ps - 1"] by (auto simp: inode_list_def last_conv_nth)
    from e(2) [OF nth_mem [OF k] i(1)] obtain i' where i': "inodes ?st (ps ! k) = Some i'"
      "inode_next i' = (if ps ! k = last ps then inode else inode_next i)" by blast
    show ?thesis
    proof (cases "Suc k = length ps")
      case True
      with i' k lastk show ?thesis by (simp add: nth_append)
    next
      case False
      with i' i k lastk show ?thesis by (simp add: nth_append)
    qed
  qed
  have v: "vfs_head (vfs ?st) = vfs_head (vfs st)" "vfs_tail (vfs ?st) = inode" by (simp_all add: entered_state_def Let_def)
  have "ps @ [inode] \<noteq> [] \<and> distinct (ps @ [inode]) \<and> NULL \<notin> set (ps @ [inode]) \<and>
      vfs_head (vfs ?st) = hd (ps @ [inode]) \<and> vfs_tail (vfs ?st) = last (ps @ [inode])"
    unfolding v using il ni new by (simp add: inode_list_def hd_append)
  with chain show ?thesis unfolding inode_list_def by blast
qed

lemma entered_entry_ok:
  assumes ok: "fs_ok st ps" and new: "inodes st inode = None" and par: "pi \<in> set ps" "inodes st pi = Some pin"
    and ent: "entry \<noteq> NULL" "qstr_ok (de_name ed) xs" "\<forall>p i. inodes st p = Some i \<longrightarrow> direntry i \<noteq> entry"
    and st': "st' = entered_state st inode (new_inode st ty entry d) pi pin l' entry ed parent"
  shows "entry_ok st' (set (ps @ [inode])) entry"
    and "entry_ok st (set ps) c \<Longrightarrow> entry_ok st' (set (ps @ [inode])) c \<and> dirents st' c = dirents st c"
proof -
  note e = entered_inodes [OF ok new par st']
  have d: "dirents st' = (dirents st)(entry \<mapsto> ed\<lparr>de_inode := Some inode, de_parent := parent\<rparr>)"
    by (simp add: st' entered_state_def Let_def)
  show "entry_ok st' (set (ps @ [inode])) entry"
    using ent e(1) by (auto simp: entry_ok_def d new_inode_def)
  assume c: "entry_ok st (set ps) c"
  then obtain dd p i ys where p: "c \<noteq> NULL" "dirents st c = Some dd" "de_inode dd = Some p" "p \<in> set ps"
      "inodes st p = Some i" "direntry i = c" "qstr_ok (de_name dd) ys"
    by (auto simp: entry_ok_def)
  then have "c \<noteq> entry" using ent(3) by blast
  with p e(2) [OF p(4,5)] show "entry_ok st' (set (ps @ [inode])) c \<and> dirents st' c = dirents st c"
    by (auto simp: entry_ok_def d)
qed

lemma entered_fs_ok:
  assumes ok: "fs_ok st ps" and new: "inode \<noteq> NULL" "inodes st inode = None" and par: "pi \<in> set ps" "inodes st pi = Some pin"
    and ent: "entry \<noteq> NULL" "qstr_ok (de_name ed) xs" "\<forall>p i. inodes st p = Some i \<longrightarrow> direntry i \<noteq> entry"
    and l: "inode_data pin = Direntries l" "vpa_inv l'" "vpa_contents l' = vpa_contents l @ [entry]"
    and d: "case d of Direntries k \<Rightarrow> ty = DIRECTORY \<and> vpa_inv k \<and> vpa_contents k = [] | Filedata a \<Rightarrow> ty = FILE \<and> u8a_inv a"
    and st': "st' = entered_state st inode (new_inode st ty entry d) pi pin l' entry ed parent"
  shows "fs_ok st' (ps @ [inode])"
proof -
  let ?P = "set (ps @ [inode])"
  note e = entered_inodes [OF ok new(2) par st'] and k = entered_entry_ok [OF ok new(2) par ent st']
  have "inode_ok st' ?P p i'" if p: "p \<in> ?P" and i': "inodes st' p = Some i'" for p i'
  proof (cases "p = inode")
    case True
    then have "i' = new_inode st ty entry d" using e(1) i' by simp
    then show ?thesis using k(1) d True
      by (auto simp: inode_ok_def data_ok_def new_inode_def st' entered_state_def Let_def split: tmpfs_data.splits)
  next
    case False
    then have "p \<in> set ps" using p by simp
    from fs_okD [OF ok this] obtain i where i: "inodes st p = Some i" "inode_ok st (set ps) p i" by metis
    from e(2) [OF \<open>p \<in> set ps\<close> i(1)] i' have i'': "direntry i' = direntry i" "inode_type i' = inode_type i"
        "inode_data i' = (if p = pi then Direntries l' else inode_data i)" by auto
    have old: "entry_ok st (set ps) c" if "inode_data i = Direntries m" "c \<in> set (vpa_contents m)" for m c
      using i(2) that by (auto simp: inode_ok_def data_ok_def)
    have "data_ok st' ?P i'"
    proof (cases "p = pi")
      case True
      then have "i = pin" using i(1) par(2) by simp
      then show ?thesis using True i'' l i(2) old [of l] k
        by (auto simp: data_ok_def inode_ok_def)
    next
      case False
      then show ?thesis using i'' i(2) k(2) by (auto simp: data_ok_def inode_ok_def split: tmpfs_data.splits)
    qed
    moreover have "entry_ok st (set ps) (direntry i)" using i(2) by (simp add: inode_ok_def)
    ultimately show ?thesis using k(2) [of "direntry i"] i(2) i'' by (auto simp: inode_ok_def)
  qed
  then show ?thesis using entered_inode_list [OF ok new par] st' by (auto simp: fs_ok_def)
qed

lemma entered_content:
  assumes ok: "fs_ok st ps" and new: "inodes st inode = None" and par: "pi \<in> set ps" "inodes st pi = Some pin"
    and ent: "\<forall>p i. inodes st p = Some i \<longrightarrow> direntry i \<noteq> entry"
    and st': "st' = entered_state st inode (new_inode st ty entry d) pi pin l' entry ed parent"
    and p: "p \<in> set ps" "inodes st p = Some i"
  shows "content_of st' (direntry i) = Some (if p = pi then Inl (vpa_contents l') else node_data i)"
    and "content_of st (direntry i) = Some (node_data i)"
proof -
  have "inode_ok st (set ps) p i" using fs_okD [OF ok p(1)] p(2) by auto
  then obtain dd where dd: "dirents st (direntry i) = Some dd" "de_inode dd = Some p" by (auto simp: inode_ok_def entry_ok_def)
  then show "content_of st (direntry i) = Some (node_data i)" using p by (simp add: content_of_def fs_node_at_def)
  have "direntry i \<noteq> entry" using ent p by blast
  then have "dirents st' (direntry i) = Some dd" using dd by (simp add: st' entered_state_def Let_def)
  then show "content_of st' (direntry i) = Some (if p = pi then Inl (vpa_contents l') else node_data i)"
    using entered_inodes(2) [OF ok new par st' p] dd by (auto simp: content_of_def fs_node_at_def node_data_def)
qed

lemma vpa_create_default:
  assumes "kheap g'" and "g list_struct_size \<noteq> None" and "g' 16 \<noteq> None"
  shows "\<exists>l. vpa_create g g' TMPFS_DEFAULT_DIR_ALLOC_SIZE = Inr l \<and> vpa_inv l \<and> vpa_contents l = []"
proof -
  obtain m where m: "g' 16 = Some m" using assms(3) by auto
  have "16 \<le> unat m" using kheap.grant_ge [OF assms(1) m] by (simp add: u32_le_unat)
  then show ?thesis using assms(2) m
    by (auto simp: vpa_create_def TMPFS_DEFAULT_DIR_ALLOC_SIZE_def kmalloc_def vpa_inv_def vpa_contents_def)
qed

lemma u8a_create_default:
  assumes "kheap g'" and "g list_struct_size \<noteq> None" and "g' 16 \<noteq> None"
  shows "\<exists>a. u8a_create g g' TMPFS_DEFAULT_FILE_ALLOC_SIZE = Inr a \<and> u8a_inv a \<and> u8a_contents a = []"
proof -
  obtain a where a: "u8a_create g g' TMPFS_DEFAULT_FILE_ALLOC_SIZE = Inr a" "u8_array a \<noteq> None"
    using assms(2,3) by (auto simp: u8a_create_def TMPFS_DEFAULT_FILE_ALLOC_SIZE_def kmalloc_def)
  from u8a_create_inv [OF assms(1) a] a(1) show ?thesis by blast
qed

text \<open>Entering an inode of either kind below a directory.\<close>

lemma tmpfs_enter_ok:
  assumes heap: "kheap g" "\<And>n. g n \<noteq> None" and ok: "fs_ok st ps" and cr: "creatable st ps inode parent entry"
    and cs: "content_of st parent = Some (Inl cs)" "length cs < 500000000"
    and d: "case d of Direntries k \<Rightarrow> ty = DIRECTORY \<and> vpa_inv k \<and> vpa_contents k = [] | Filedata a \<Rightarrow> ty = FILE \<and> u8a_inv a"
  shows "\<exists>st'. tmpfs_enter g st inode parent entry ty d (Some OK) = Inr (inode, Some OK, st') \<and> fs_ok st' (ps @ [inode]) \<and>
    content_of st' parent = Some (Inl (cs @ [entry])) \<and>
    content_of st' entry = Some (node_data (new_inode st ty entry d)) \<and>
    (\<forall>p \<in> set ps. \<forall>i. inodes st p = Some i \<and> direntry i \<noteq> parent \<longrightarrow>
       content_of st' (direntry i) = content_of st (direntry i))"
proof -
  from cr obtain pi pin ed xs where new: "inode \<noteq> NULL" "inodes st inode = None"
    and par: "pi \<in> set ps" "inodes st pi = Some pin" "direntry pin = parent" "inode_type pin = DIRECTORY"
    and ent: "entry \<noteq> NULL" "dirents st entry = Some ed" "qstr_ok (de_name ed) xs"
      "\<forall>p i. inodes st p = Some i \<longrightarrow> direntry i \<noteq> entry"
    by (auto simp: creatable_def)
  have "data_ok st (set ps) pin" using fs_okD [OF ok par(1)] par(2) by (auto simp: inode_ok_def)
  then obtain l where l: "inode_data pin = Direntries l" "vpa_inv l" using par(4) by (auto simp: data_ok_def split: tmpfs_data.splits)
  have ne: "entry \<noteq> parent" using ent(4) par by blast
  have "content_of st parent = Some (node_data pin)"
    using entered_content(2) [OF ok new(2) par(1,2) ent(4) refl par(1,2)] par(3) by simp
  then have "vpa_contents l = cs" using cs l by (simp add: node_data_def)
  moreover from this obtain n l' where push: "vpa_push g l entry = Inr (n, l')" "vpa_inv l'" "vpa_contents l' = vpa_contents l @ [entry]"
    using vpa_push_total [OF heap l(2), of entry] cs(2) by blast
  ultimately have l': "vpa_contents l' = cs @ [entry]" by simp
  define st' where "st' = entered_state st inode (new_inode st ty entry d) pi pin l' entry ed parent"
  have "tmpfs_enter g st inode parent entry ty d (Some OK) = Inr (inode, Some OK, st')"
    unfolding st'_def by (rule tmpfs_enter_eq [OF ok new par(1-3) l(1) ent(1,2) ne push(1)])
  moreover have "fs_ok st' (ps @ [inode])"
    by (rule entered_fs_ok [OF ok new par(1,2) ent(1,3,4) l(1) push(2,3) d st'_def])
  moreover note c = entered_content(1) [OF ok new(2) par(1,2) ent(4) st'_def]
  have "content_of st' parent = Some (Inl (cs @ [entry]))" using c [OF par(1,2)] par(3) l' by simp
  moreover have "content_of st' entry = Some (node_data (new_inode st ty entry d))"
    using entered_inodes(1) [OF ok new(2) par(1,2) st'_def]
    by (simp add: content_of_def fs_node_at_def st'_def entered_state_def Let_def)
  moreover have "content_of st' (direntry i) = content_of st (direntry i)"
    if "p \<in> set ps" "inodes st p = Some i" "direntry i \<noteq> parent" for p i
    using c [OF that(1,2)] entered_content(2) [OF ok new(2) par(1,2) ent(4) refl that(1,2)] that par by auto
  ultimately show ?thesis by blast
qed

lemma creatable_parent:
  assumes "fs_ok st ps" and "creatable st ps inode parent entry"
  shows "\<exists>pd pi pin. deref (dirents st) parent = Inr pd \<and> inode_of pd = Inr pi \<and> deref (inodes st) pi = Inr pin"
proof -
  from assms(2) obtain p i where p: "p \<in> set ps" "inodes st p = Some i" "direntry i = parent"
    by (auto simp: creatable_def)
  from fs_okD [OF assms(1) p(1)] p have "p \<noteq> NULL" "inode_ok st (set ps) p i" by auto
  moreover from this obtain d where "parent \<noteq> NULL" "dirents st parent = Some d" "de_inode d = Some p"
    using p by (auto simp: inode_ok_def entry_ok_def)
  ultimately show ?thesis using p by (simp add: deref_def inode_of_def)
qed

text \<open>
  (C24) \<^bold>\<open>Creating files and directories.\<close> Below a directory, \<open>tmpfs_create_dir\<close> and \<open>tmpfs_create_file\<close> succeed
  when the heap does: the entry becomes the last entry of the directory, empty, the inode the last
  of the inode list, the tree stays consistent and every other file and directory is as it was.
\<close>

theorem tmpfs_create_adds:
  assumes heap: "kheap g" "\<And>n. g n \<noteq> None" "kheap g'" "g' 16 \<noteq> None"
    and ok: "fs_ok st ps" and cr: "creatable st ps inode parent entry"
    and cs: "content_of st parent = Some (Inl cs)" "length cs < 500000000"
  shows "\<exists>st'. (if dir then tmpfs_create_dir g g' st inode parent entry (Some OK)
               else tmpfs_create_file g g' st inode parent entry (Some OK)) = Inr (inode, Some OK, st') \<and>
    fs_ok st' (ps @ [inode]) \<and>
    content_of st' parent = Some (Inl (cs @ [entry])) \<and>
    content_of st' entry = Some (if dir then Inl [] else Inr []) \<and>
    (\<forall>p \<in> set ps. \<forall>i. inodes st p = Some i \<and> direntry i \<noteq> parent \<longrightarrow>
       content_of st' (direntry i) = content_of st (direntry i))"
proof -
  have i: "inode \<noteq> NULL" using cr by (simp add: creatable_def)
  obtain l where l: "vpa_create g g' TMPFS_DEFAULT_DIR_ALLOC_SIZE = Inr l" "vpa_inv l" "vpa_contents l = []"
    using vpa_create_default [OF heap(3) _ heap(4), of g] heap(2) by blast
  obtain a where a: "u8a_create g g' TMPFS_DEFAULT_FILE_ALLOC_SIZE = Inr a" "u8a_inv a" "u8a_contents a = []"
    using u8a_create_default [OF heap(3) _ heap(4), of g] heap(2) by blast
  note en = tmpfs_enter_ok [OF heap(1,2) ok cr cs]
  show ?thesis
  proof (cases dir)
    case True
    then show ?thesis
      using creatable_parent [OF ok cr] i l en [of DIRECTORY "Direntries l"]
      by (auto simp: tmpfs_create_dir_def node_data_def new_inode_def)
  next
    case False
    then show ?thesis
      using creatable_parent [OF ok cr] i a en [of FILE "Filedata a"]
      by (auto simp: tmpfs_create_file_def node_data_def new_inode_def)
  qed
qed

definition demo_fs_new :: fs_state where
  "demo_fs_new = put_dirent demo_fs 0x700
     \<lparr>de_inode = None, de_name = \<lparr>qdata = cstr_obj (chars ''new''), qlength = 3, qhash = 0\<rparr>, de_parent = NULL\<rparr>"

lemma qstr_literal:
  "0 \<notin> set xs \<Longrightarrow> length xs < 1000 \<Longrightarrow> qstr_ok \<lparr>qdata = cstr_obj xs, qlength = of_nat (length xs), qhash = 0\<rparr> xs"
  by (simp add: qstr_ok_def cstr_obj_cstr)

lemma demo_names:
  "qstr_ok \<lparr>qdata = cstr_obj (chars ''/''), qlength = 1, qhash = 0\<rparr> (chars ''/'')"
  "qstr_ok \<lparr>qdata = cstr_obj (chars ''test''), qlength = 4, qhash = 0\<rparr> (chars ''test'')"
  "qstr_ok \<lparr>qdata = cstr_obj (chars ''new''), qlength = 3, qhash = 0\<rparr> (chars ''new'')"
  using qstr_literal [of "chars ''/''"] qstr_literal [of "chars ''test''"] qstr_literal [of "chars ''new''"] by simp_all

lemma demo_stores:
  "inodes demo_fs p = Some i \<longleftrightarrow> p = 0x100 \<and> i = the (inodes demo_fs 0x100) \<or> p = 0x200 \<and> i = the (inodes demo_fs 0x200)"
  "direntry (the (inodes demo_fs 0x100)) = 0x300" "direntry (the (inodes demo_fs 0x200)) = 0x400"
  "inode_next (the (inodes demo_fs 0x100)) = 0x200" "inode_next (the (inodes demo_fs 0x200)) = NULL"
  "inode_type (the (inodes demo_fs 0x100)) = DIRECTORY"
  by (auto simp: demo_fs_def)

lemma demo_data:
  "\<exists>l. inode_data (the (inodes demo_fs 0x100)) = Direntries l \<and> vpa_inv l \<and> vpa_contents l = [0x400]"
  "\<exists>a. inode_data (the (inodes demo_fs 0x200)) = Filedata a \<and> inode_type (the (inodes demo_fs 0x200)) = FILE \<and> u8a_inv a"
proof -
  have "i = 0 \<or> i = 1 \<or> i = 2" if "i < 3" for i :: nat using that by linarith
  then show "\<exists>a. inode_data (the (inodes demo_fs 0x200)) = Filedata a \<and> inode_type (the (inodes demo_fs 0x200)) = FILE \<and> u8a_inv a"
    by (auto simp: demo_fs_def u8a_inv_Some)
  show "\<exists>l. inode_data (the (inodes demo_fs 0x100)) = Direntries l \<and> vpa_inv l \<and> vpa_contents l = [0x400]"
    by (simp add: demo_fs_def vpa_inv_def vpa_contents_def kcontents_def)
qed

lemma demo_fs_new_ok: "fs_ok demo_fs_new [0x100, 0x200]"
proof -
  have d: "dirents demo_fs_new 0x300 = Some \<lparr>de_inode = Some 0x100, de_name = \<lparr>qdata = cstr_obj (chars ''/''), qlength = 1, qhash = 0\<rparr>, de_parent = NULL\<rparr>"
    "dirents demo_fs_new 0x400 = Some \<lparr>de_inode = Some 0x200, de_name = \<lparr>qdata = cstr_obj (chars ''test''), qlength = 4, qhash = 0\<rparr>, de_parent = 0x300\<rparr>"
    by (simp_all add: demo_fs_new_def demo_fs_def put_dirent_def)
  have i: "inodes demo_fs_new = inodes demo_fs" "vfs demo_fs_new = vfs demo_fs" by (simp_all add: demo_fs_new_def put_dirent_def)
  have "inode_list demo_fs_new [0x100, 0x200]"
    by (simp add: inode_list_def i less_Suc_eq demo_stores) (simp add: demo_fs_def)
  moreover have e: "entry_ok demo_fs_new {0x100, 0x200} 0x300" "entry_ok demo_fs_new {0x100, 0x200} 0x400"
    using demo_names by (auto simp: entry_ok_def d i demo_stores)
  ultimately show ?thesis
    using demo_data by (auto simp: fs_ok_def inode_ok_def data_ok_def i demo_stores d)
qed

theorem tmpfs_create_adds_witness:
  "\<exists>st'. tmpfs_create_dir (\<lambda>n. Some n) (\<lambda>n. Some n) demo_fs_new 0x800 0x300 0x700 (Some OK) = Inr (0x800, Some OK, st') \<and>
    fs_ok st' [0x100, 0x200, 0x800] \<and> content_of st' 0x300 = Some (Inl [0x400, 0x700]) \<and> content_of st' 0x700 = Some (Inl [])"
proof -
  have i: "inodes demo_fs_new = inodes demo_fs" by (simp add: demo_fs_new_def put_dirent_def)
  have "creatable demo_fs_new [0x100, 0x200] 0x800 0x300 0x700"
    using demo_names(3) unfolding creatable_def i demo_stores
    by (auto simp: demo_stores) (auto simp: demo_fs_new_def put_dirent_def demo_fs_def split: if_splits)
  moreover have "content_of demo_fs_new 0x300 = Some (Inl [0x400])"
    using demo_data(1) by (auto simp: content_of_def fs_node_at_def i node_data_def)
       (auto simp: demo_fs_new_def put_dirent_def demo_fs_def)
  ultimately show ?thesis
    using tmpfs_create_adds [OF kheap_exact _ kheap_exact _ demo_fs_new_ok, of "0x800" "0x300" "0x700" "[0x400]" True] by auto
qed

text \<open>
  \<^bold>\<open>Creating below a file.\<close> The creation of a directory below a file reports \<open>ERR_NOT_DIR\<close> and returns \<open>NULL\<close>, and
  the inode list and the file stay as they are. But the new inode is not given back: it stays
  allocated, and the entry keeps pointing to it.
\<close>

theorem tmpfs_create_below_file:
  assumes heap: "kheap g'" "g list_struct_size \<noteq> None" "g' 16 \<noteq> None"
    and par: "parent \<noteq> NULL" "dirents st parent = Some pd" "de_inode pd = Some p" "p \<noteq> NULL" "inodes st p = Some i"
      "inode_type i = FILE"
    and new: "inode \<noteq> NULL" "inodes st inode = None" and ent: "entry \<noteq> NULL" "dirents st entry = Some ed" "entry \<noteq> parent"
  shows "\<exists>st'. tmpfs_create_dir g g' st inode parent entry (Some OK) = Inr (NULL, Some ERR_NOT_DIR, st') \<and>
    vfs st' = vfs st \<and> inodes st' p = Some i \<and> inodes st' inode \<noteq> None \<and>
    map_option de_inode (dirents st' entry) = Some (Some inode)"
proof -
  obtain l where l: "vpa_create g g' TMPFS_DEFAULT_DIR_ALLOC_SIZE = Inr l"
    using vpa_create_default [OF heap(1) _ heap(3), of g] heap(2) by blast
  have ne: "p \<noteq> inode" using par new by auto
  show ?thesis
    using par new ent ne
    by (simp add: tmpfs_create_dir_def deref_def inode_of_def l tmpfs_enter_def create_inode_base_def Let_def
        add_entry_to_directory_def put_inode_def put_dirent_def err_of_def)
qed

theorem tmpfs_create_below_file_witness:
  "\<exists>st'. tmpfs_create_dir (\<lambda>n. Some n) (\<lambda>n. Some n) demo_fs_new 0x800 0x400 0x700 (Some OK) = Inr (NULL, Some ERR_NOT_DIR, st') \<and>
    inodes st' 0x800 \<noteq> None"
proof -
  have i: "inodes demo_fs_new 0x200 = Some (the (inodes demo_fs 0x200))" "inodes demo_fs_new 0x800 = None"
    "inode_type (the (inodes demo_fs 0x200)) = FILE"
    by (simp_all add: demo_fs_new_def put_dirent_def demo_fs_def)
  obtain pd ed where d: "dirents demo_fs_new 0x400 = Some pd" "de_inode pd = Some 0x200" "dirents demo_fs_new 0x700 = Some ed"
    by (simp add: demo_fs_new_def put_dirent_def demo_fs_def)
  show ?thesis
    using tmpfs_create_below_file [OF kheap_exact _ _ _ d(1,2) _ i(1,3) _ i(2) _ d(3), of "\<lambda>n. Some n"] by auto
qed

lemma qstr_contents: "qstr_ok q xs \<Longrightarrow> kcontents (qdata q) (unat (qlength q)) = xs"
  using cstr_kcontents qstr_ok_lengthD by (auto simp: qstr_ok_def)

text \<open>A new root is a file system of its own.\<close>

lemma create_tmpfs_root_ok:
  assumes heap: "kheap g" "\<And>n. g n \<noteq> None" "kheap g'" "g' 16 \<noteq> None" and new: "entry \<noteq> NULL" "root \<noteq> NULL"
  shows "\<exists>st'. create_tmpfs_root g g' entry root st = Inr (root, st') \<and> fs_ok st' [root] \<and>
    content_of st' entry = Some (Inl []) \<and> entry_name st' entry = [slash]"
proof -
  obtain l where l: "vpa_create g g' TMPFS_DEFAULT_DIR_ALLOC_SIZE = Inr l" "vpa_inv l" "vpa_contents l = []"
    using vpa_create_default [OF heap(3) _ heap(4), of g] heap(2) by blast
  have "cstr (cstr_obj [slash]) 0 [slash]" by (rule cstr_obj_cstr) simp_all
  from qstr_from_null_terminated_ok [OF heap(1) this] heap(2) obtain q where
    q: "qstr_from_null_terminated_string g (cstr_obj [slash]) = Inr q" "qstr_ok q [slash]" by auto
  have "kcontents (qdata q) (unat (qlength q)) = [slash]"
    by (rule qstr_contents [OF q(2)])
  then show ?thesis
    using new l q
    by (simp add: create_tmpfs_root_def create_direntry_def create_inode_base_def Let_def put_inode_def put_dirent_def
        fs_ok_def inode_list_def inode_ok_def entry_ok_def data_ok_def content_of_def fs_node_at_def node_data_def entry_name_def)
       auto
qed

end
