(* ===== verification/Fs_Lookup.thy ===== *)
theory Fs_Lookup
  imports Tmpfs
begin

section \<open>Finding and freeing: \<open>path_get_direntry\<close>, \<open>fs/file.c\<close> and \<open>vfs_free\<close>\<close>

text \<open>
  The operations that go through the operations of a file system: the lookup of a path
  (\<open>fs/path.c\<close>), the functions of \<open>fs/file.c\<close> built on it, and \<open>vfs_free\<close> (\<open>fs/vfs.c\<close>).

  A lookup compares a component with the names of a directory by \<open>strncmp\<close> with the length of the
  component, so it takes the first entry that starts with it; \<open>resolve\<close> is that rule on the tree, and
  the code is shown to compute it.
\<close>

subsection \<open>The lookup of a path\<close>

text \<open>The scan for the next slash; the byte is read before the end of the path is tested.\<close>

function next_slash :: "Path \<Rightarrow> nat \<Rightarrow> fault + nat" where
  "next_slash path n =
     bindE (rd8 (u8_array path) n) (\<lambda>c.
     if c \<noteq> slash \<and> n < unat (u8_length path) then next_slash path (Suc n) else Inr n)"
  by pat_completeness auto
termination
  by (relation "measure (\<lambda>(path, n). unat (u8_length path) - n)") auto

declare next_slash.simps [simp del]

text \<open>The search of one directory: the entry at index \<open>k\<close> and the \<open>n\<close> that follow.\<close>

fun find_child :: "fs_state \<Rightarrow> Path \<Rightarrow> VPArrayList \<Rightarrow> nat \<Rightarrow> nat \<Rightarrow> nat \<Rightarrow> nat \<Rightarrow> fault + ptr option" where
  "find_child st path l pp ns k 0 = Inr None"
| "find_child st path l pp ns k (Suc n) =
     bindE (vpa_get l (of_nat k)) (\<lambda>child.
     bindE (deref (dirents st) child) (\<lambda>d.
     bindE (strncmp (qdata (de_name d)) 0 (u8_array path) pp (ns - pp)) (\<lambda>r.
     if r = 0 then Inr (Some child) else find_child st path l pp ns (Suc k) n)))"

lemma next_slash_bound: "next_slash path n = Inr m \<Longrightarrow> n \<le> m \<and> m < obj_len (u8_array path)"
proof (induction path n rule: next_slash.induct)
  case (1 path n)
  from "1.prems" obtain c where c: "rd8 (u8_array path) n = Inr c"
    by (subst (asm) next_slash.simps) (auto elim!: bindE_InrE)
  show ?case
  proof (cases "c \<noteq> slash \<and> n < unat (u8_length path)")
    case True
    with "1.prems" c have "next_slash path (Suc n) = Inr m" by (subst (asm) next_slash.simps) simp
    from "1.IH" [OF c True this] show ?thesis by simp
  next
    case False
    with "1.prems" c have "m = n" by (subst (asm) next_slash.simps) auto
    with kread_bound [OF c] show ?thesis by simp
  qed
qed

text \<open>
  The loop over the components, from \<open>pathpointer\<close>. Every round reads the array further on, so it
  ends at the latest at the end of the array.
\<close>

function path_walk :: "fs_state \<Rightarrow> Path \<Rightarrow> ptr \<Rightarrow> nat \<Rightarrow> VfsErr option \<Rightarrow> fault + (ptr \<times> VfsErr option)" where
  "path_walk st path cur pathpointer err =
     bindE (next_slash path pathpointer) (\<lambda>nextslash.
     bindE (deref (dirents st) cur) (\<lambda>d.
     bindE (inode_of d) (\<lambda>p.
     bindE (deref (inodes st) p) (\<lambda>i.
     bindE (op_list_dir (fs_identifier i) st cur err) (\<lambda>(dirlist, err).
     bindE (err_of err) (\<lambda>e.
     if e \<noteq> OK then Inr (NULL, err)
     else
       bindE (find_child st path dirlist pathpointer nextslash 0 (unat (vp_length dirlist))) (\<lambda>found.
       case found of
         None \<Rightarrow> Inr (NULL, err)
       | Some child \<Rightarrow>
           if nextslash = unat (u8_length path) then Inr (child, err)
           else path_walk st path child (Suc nextslash) err)))))))"
  by pat_completeness auto
termination
  by (relation "measure (\<lambda>(st, path, cur, pp, err). obj_len (u8_array path) - pp)")
     (auto dest!: next_slash_bound)

declare path_walk.simps [simp del]

definition path_get_direntry ::
  "nat \<Rightarrow> fs_state \<Rightarrow> Path \<Rightarrow> VfsErr option \<Rightarrow> fault + (ptr \<times> VfsErr option \<times> fs_state)" where
  "path_get_direntry fuel st path err =
     bindE (path_is_absolute path) (\<lambda>abs.
     if abs
     then
       bindE (vfs_get_root fuel st) (\<lambda>(cur, st).
       bindE (path_walk st path cur 1 err) (\<lambda>(e, err). Inr (e, err, st)))
     else Inl FatalPanic)"

definition path_exists :: "nat \<Rightarrow> fs_state \<Rightarrow> Path \<Rightarrow> fault + (bool \<times> fs_state)" where
  "path_exists fuel st path =
     bindE (path_get_direntry fuel st path None) (\<lambda>(pd, _, st). Inr (pd \<noteq> NULL, st))"

subsection \<open>\<open>file.c\<close>\<close>

definition create_file :: "Path \<Rightarrow> VfsErr option \<Rightarrow> VfsErr option" where
  "create_file p err = err"

text \<open>After the lookup of the parent the function allocates an entry and drops it.\<close>

definition create_dir ::
  "nat \<Rightarrow> grant \<Rightarrow> grant \<Rightarrow> fs_state \<Rightarrow> Path \<Rightarrow> VfsErr option \<Rightarrow> fault + (VfsErr option \<times> fs_state)" where
  "create_dir fuel g g' st p err =
     bindE (path_exists fuel st p) (\<lambda>(exists, st).
     if exists then Inr (if err = Some OK then Some ERR_EXISTS else err, st)
     else
       bindE (u8a_clone g g' p) (\<lambda>parent.
       bindE (path_parent g parent) (\<lambda>parent.
       bindE (path_get_direntry fuel st parent (Some OK)) (\<lambda>(parentDir, ourErr, st).
       if ourErr \<noteq> Some OK \<or> parentDir = NULL
       then Inr (if err = Some OK \<and> ourErr \<noteq> Some OK then ourErr
                 else if err \<noteq> None then Some ERR_NO_PARENT else err, st)
       else Inr (err, st)))))"

subsection \<open>\<open>vfs_free\<close>\<close>

definition free_entry_of :: "fs_state \<Rightarrow> ptr \<Rightarrow> fault + (TmpfsInode \<times> fs_state)" where
  "free_entry_of st cur =
     bindE (deref (inodes st) cur) (\<lambda>i.
     bindE (if direntry i \<noteq> NULL then free_direntry st (direntry i) else Inr st) (\<lambda>st. Inr (i, st)))"

primrec vfs_free_loop :: "nat \<Rightarrow> fs_state \<Rightarrow> ptr \<Rightarrow> fault + fs_state" where
  "vfs_free_loop 0 st cur = Inl Diverges"
| "vfs_free_loop (Suc fuel) st cur =
     (if cur = NULL then Inr st
      else
        bindE (free_entry_of st cur) (\<lambda>(i, st).
        bindE (op_free_inode (fs_identifier i) st cur) (\<lambda>st.
        vfs_free_loop fuel st (inode_next i))))"

text \<open>The stores that are left; the array of file systems and the \<open>Vfs\<close> go to \<open>kfree\<close>.\<close>

definition vfs_free :: "nat \<Rightarrow> fs_state \<Rightarrow> fault + fs_state" where
  "vfs_free fuel st =
     (let cur = vfs_head (vfs st) in
      if cur = NULL then bindE (assertE (vfs_tail (vfs st) = NULL)) (\<lambda>_. Inr st)
      else if cur = vfs_tail (vfs st)
      then bindE (free_entry_of st cur) (\<lambda>(i, st). op_free_inode (fs_identifier i) st cur)
      else vfs_free_loop fuel st cur)"

subsection \<open>What a lookup computes\<close>

fun resolve :: "fs_state \<Rightarrow> ptr \<Rightarrow> u8 list list \<Rightarrow> fault + ptr" where
  "resolve st e [] = Inr e"
| "resolve st e (c # cs) =
     (case content_of st e of
        Some (Inl es) \<Rightarrow>
          (case find (\<lambda>x. prefix c (entry_name st x)) es of None \<Rightarrow> Inr NULL | Some x \<Rightarrow> resolve st x cs)
      | _ \<Rightarrow> Inl WrongMember)"

text \<open>The components of a path: what stands between its slashes, empty ones included.\<close>

fun split_path :: "u8 list \<Rightarrow> u8 list list" where
  "split_path [] = [[]]"
| "split_path (c # cs) =
     (if c = slash then [] # split_path cs
      else case split_path cs of [] \<Rightarrow> [[c]] | x # xs \<Rightarrow> (c # x) # xs)"

lemma split_path_rec:
  "split_path xs = takeWhile (\<lambda>c. c \<noteq> slash) xs #
     (case dropWhile (\<lambda>c. c \<noteq> slash) xs of [] \<Rightarrow> [] | _ # ys \<Rightarrow> split_path ys)"
  by (induction xs) auto

lemma ucast_diff_zero: "(ucast (a :: u8) - ucast b = (0 :: u32)) \<longleftrightarrow> a = b"
  by (simp add: ucast_u8_u32_inject)

lemma strncmp_prefix:
  assumes "cstr p i name" and "\<And>j. j < length part \<Longrightarrow> rd8 q (pp + j) = Inr (part ! j)" and "0 \<notin> set part"
  shows "\<exists>r. strncmp p i q pp (length part) = Inr r \<and> (r = 0 \<longleftrightarrow> prefix part name)"
  using assms
proof (induction part arbitrary: i pp name)
  case (Cons c part)
  have c: "rd8 q pp = Inr c" using Cons.prems(2) [of 0] by simp
  have tl: "rd8 q (Suc pp + j) = Inr (part ! j)" if "j < length part" for j using Cons.prems(2) [of "Suc j"] that by simp
  have c0: "c \<noteq> 0" using Cons.prems(3) by auto
  show ?case
  proof (cases name)
    case Nil
    then have "rd8 p i = Inr 0" using cstr_hd [OF Cons.prems(1)] by simp
    moreover have "(ucast (0 :: u8) - ucast c :: u32) \<noteq> 0" using c0 ucast_diff_zero [of 0 c] by simp
    ultimately show ?thesis using c Nil by simp
  next
    case (Cons a name')
    then have a: "rd8 p i = Inr a" "a \<noteq> 0" using cstr_hd [OF Cons.prems(1)] cstr_Cons_nonzero Cons.prems(1) by auto
    have "cstr p (Suc i) name'" using Cons.prems(1) Cons cstr_tail by blast
    from Cons.IH [OF this tl] Cons.prems(3) have
      "\<exists>r. strncmp p (Suc i) q (Suc pp) (length part) = Inr r \<and> (r = 0 \<longleftrightarrow> prefix part name')" by auto
    then show ?thesis using a c Cons ucast_diff_zero [of a c] by (cases "a = c") auto
  qed
qed simp

lemma next_slash_ok:
  assumes inv: "u8a_inv path" and after: "rd8 (u8_array path) (unat (u8_length path)) = Inr b" and "n \<le> unat (u8_length path)"
  shows "next_slash path n = Inr (n + length (takeWhile (\<lambda>c. c \<noteq> slash) (drop n (u8a_contents path))))"
  using assms(3)
proof (induction "unat (u8_length path) - n" arbitrary: n)
  case 0
  then have "n = unat (u8_length path)" by simp
  then show ?case using after length_u8a_contents [OF inv] by (subst next_slash.simps) simp
next
  case (Suc m)
  then have n: "n < length (u8a_contents path)" using length_u8a_contents [OF inv] by simp
  note r = path_read [OF inv n] and d = Cons_nth_drop_Suc [OF n, symmetric]
  have "next_slash path (Suc n) = Inr (Suc n + length (takeWhile (\<lambda>c. c \<noteq> slash) (drop (Suc n) (u8a_contents path))))"
    using Suc by (intro Suc.hyps(1)) auto
  then show ?case using r d n length_u8a_contents [OF inv] by (subst next_slash.simps) simp
qed

text \<open>The search of a directory whose entries are well-formed.\<close>

lemma entry_nameE:
  assumes "entry_ok st P c"
  obtains d p i where "c \<noteq> NULL" and "dirents st c = Some d" and "de_inode d = Some p" and "p \<in> P"
    and "inodes st p = Some i" and "direntry i = c" and "cstr (qdata (de_name d)) 0 (entry_name st c)"
    and "qstr_ok (de_name d) (entry_name st c)"
proof -
  from assms obtain d p i xs where d: "c \<noteq> NULL" "dirents st c = Some d" "de_inode d = Some p" "p \<in> P"
      "inodes st p = Some i" "direntry i = c" "qstr_ok (de_name d) xs"
    by (auto simp: entry_ok_def)
  then have "entry_name st c = xs"
    using qstr_contents by (simp add: entry_name_def)
  with d that show ?thesis by (auto simp: qstr_ok_def)
qed

lemma find_child_ok:
  assumes inv: "vpa_inv l" and ent: "\<And>c. c \<in> set (vpa_contents l) \<Longrightarrow> entry_ok st P c"
    and part: "\<And>j. j < length part \<Longrightarrow> rd8 (u8_array path) (pp + j) = Inr (part ! j)" "0 \<notin> set part"
    and "k + n = length (vpa_contents l)"
  shows "find_child st path l pp (pp + length part) k n =
    Inr (find (\<lambda>x. prefix part (entry_name st x)) (drop k (vpa_contents l)))"
  using assms(5)
proof (induction n arbitrary: k)
  case (Suc n)
  then have k: "k < length (vpa_contents l)" by simp
  note g = vpa_get_contents [OF inv k] and d = Cons_nth_drop_Suc [OF k, symmetric]
  let ?c = "vpa_contents l ! k"
  from entry_nameE [OF ent [OF nth_mem [OF k]]] obtain e where e: "?c \<noteq> NULL" "dirents st ?c = Some e"
    "cstr (qdata (de_name e)) 0 (entry_name st ?c)" by metis
  from strncmp_prefix [OF e(3) part] obtain r where "strncmp (qdata (de_name e)) 0 (u8_array path) pp (length part) = Inr r"
      "r = 0 \<longleftrightarrow> prefix part (entry_name st ?c)" by blast
  then show ?case using Suc.IH [of "Suc k"] Suc.prems g e by (simp add: d deref_def del: drop_Suc)
qed simp

lemma path_walk_ok:
  assumes fs: "fs_ok st ps" and inv: "u8a_inv path" and after: "rd8 (u8_array path) (unat (u8_length path)) = Inr b"
    and nz: "0 \<notin> set (u8a_contents path)" and "pp \<le> length (u8a_contents path)" and "entry_ok st (set ps) cur"
  shows "path_walk st path cur pp (Some OK) =
    bindE (resolve st cur (split_path (drop pp (u8a_contents path)))) (\<lambda>e. Inr (e, Some OK))"
  using assms(5,6)
proof (induction "length (u8a_contents path) - pp" arbitrary: pp cur rule: less_induct)
  case less
  let ?xs = "u8a_contents path" and ?rest = "drop pp (u8a_contents path)"
  let ?part = "takeWhile (\<lambda>c. c \<noteq> slash) ?rest"
  have len: "unat (u8_length path) = length ?xs" using length_u8a_contents [OF inv] by simp
  have ns: "next_slash path pp = Inr (pp + length ?part)" using next_slash_ok [OF inv after] less.prems(1) len by simp
  from entry_nameE [OF less.prems(2)] obtain d p i where d: "cur \<noteq> NULL" "dirents st cur = Some d" "de_inode d = Some p"
    "p \<in> set ps" "inodes st p = Some i" by metis
  have pi: "p \<noteq> NULL" "data_ok st (set ps) i" using fs_okD [OF fs d(4)] d(5) by (auto simp: inode_ok_def)
  note start = d pi(1)
  show ?case
  proof (cases "inode_data i")
    case (Filedata a)
    then show ?thesis using start ns
      by (subst path_walk.simps, subst split_path_rec)
         (simp add: deref_def inode_of_def op_list_dir_def tmpfs_list_dir_def dir_list_def content_of_def fs_node_at_def
            node_data_def split: FsIdentifier.splits)
  next
    case (Direntries l)
    with pi have l: "vpa_inv l" "\<And>c. c \<in> set (vpa_contents l) \<Longrightarrow> entry_ok st (set ps) c" by (auto simp: data_ok_def)
    have part: "rd8 (u8_array path) (pp + j) = Inr (?part ! j)" if "j < length ?part" for j
    proof -
      have "?part ! j = ?rest ! j" using that by (simp add: takeWhile_nth)
      moreover have "j < length ?rest" using that length_takeWhile_le order_less_le_trans by blast
      ultimately show ?thesis using path_read [OF inv, of "pp + j"] by simp
    qed
    have "0 \<notin> set ?part" using nz by (metis in_set_dropD set_takeWhileD)
    from find_child_ok [OF l part this, of 0 "length (vpa_contents l)"]
    have fc: "find_child st path l pp (pp + length ?part) 0 (unat (vp_length l)) =
        Inr (find (\<lambda>x. prefix ?part (entry_name st x)) (vpa_contents l))"
      using length_vpa_contents [OF l(1)] by simp
    have co: "content_of st cur = Some (Inl (vpa_contents l))"
      using start Direntries by (simp add: content_of_def fs_node_at_def node_data_def)
    show ?thesis
    proof (cases "find (\<lambda>x. prefix ?part (entry_name st x)) (vpa_contents l)")
      case None
      then show ?thesis using start ns fc co Direntries
        by (subst path_walk.simps, subst split_path_rec)
           (simp add: deref_def inode_of_def op_list_dir_def tmpfs_list_dir_def dir_list_def err_of_def split: FsIdentifier.splits)
    next
      case (Some child)
      then have ch: "entry_ok st (set ps) child" using l(2) by (metis find_Some_iff nth_mem)
      obtain m where m: "pp + length ?part = m" by blast
      have step: "path_walk st path cur pp (Some OK) =
          (if m = length ?xs then Inr (child, Some OK) else path_walk st path child (Suc m) (Some OK))"
        using start ns [unfolded m] fc [unfolded m] Some Direntries len
        by (subst path_walk.simps)
           (auto simp: deref_def inode_of_def op_list_dir_def tmpfs_list_dir_def dir_list_def err_of_def split: FsIdentifier.splits)
      note step = step [folded m]
      have res: "resolve st cur (split_path ?rest) =
          resolve st child (case dropWhile (\<lambda>c. c \<noteq> slash) ?rest of [] \<Rightarrow> [] | _ # ys \<Rightarrow> split_path ys)"
        by (subst split_path_rec) (simp add: co Some)
      have dw: "dropWhile (\<lambda>c. c \<noteq> slash) ?rest = drop (pp + length ?part) ?xs"
        by (simp add: dropWhile_eq_drop add.commute)
      show ?thesis
      proof (cases "pp + length ?part = length ?xs")
        case True
        then show ?thesis using step res dw by simp
      next
        case False
        then have lt: "pp + length ?part < length ?xs"
          using length_takeWhile_le [of "\<lambda>c. c \<noteq> slash" ?rest] less.prems(1) by simp
        have "path_walk st path child (Suc (pp + length ?part)) (Some OK) =
            bindE (resolve st child (split_path (drop (Suc (pp + length ?part)) ?xs))) (\<lambda>e. Inr (e, Some OK))"
          using lt by (intro less.hyps ch) simp_all
        moreover have "resolve st cur (split_path ?rest) = resolve st child (split_path (drop (Suc (pp + length ?part)) ?xs))"
          unfolding res dw using Cons_nth_drop_Suc [OF lt, symmetric] by simp
        ultimately show ?thesis using step False by simp
      qed
    qed
  qed
qed

text \<open>
  The root: the head of the inode list, whose entry is named by a slash. Caching the hash of that name changes
  neither the tree nor the names.
\<close>

lemma resolve_cong:
  "content_of st' = content_of st \<Longrightarrow> entry_name st' = entry_name st \<Longrightarrow> resolve st' e cs = resolve st e cs"
  by (induction cs arbitrary: e) (auto split: option.splits sum.splits)

lemma rename_same:
  assumes fs: "fs_ok st ps" and d: "dirents st r = Some d" "qstr_ok (de_name d) xs" and q: "qstr_ok q xs"
  defines "st' \<equiv> put_dirent st r (d\<lparr>de_name := q\<rparr>)"
  shows "fs_ok st' ps" and "content_of st' = content_of st" and "entry_name st' = entry_name st"
proof -
  have i: "inodes st' = inodes st" "vfs st' = vfs st" by (simp_all add: st'_def put_dirent_def)
  have e: "entry_ok st' P c" if "entry_ok st P c" for P c
    using that d q by (auto simp: entry_ok_def i) (auto simp: st'_def put_dirent_def)
  have di: "\<exists>x. dirents st c = Some x \<and> de_inode x = de_inode y" if "dirents st' c = Some y" for c y
    using that d by (auto simp: st'_def put_dirent_def split: if_splits)
  have "inode_ok st' P p j" if "inode_ok st P p j" for P p j
  proof -
    have "de_inode y = Some p" if "dirents st' (direntry j) = Some y" for y
      using \<open>inode_ok st P p j\<close> di [OF that] by (auto simp: inode_ok_def)
    moreover have "data_ok st' P j" using that e by (auto simp: inode_ok_def data_ok_def split: tmpfs_data.splits)
    ultimately show ?thesis using that e by (auto simp: inode_ok_def)
  qed
  then show "fs_ok st' ps" using fs by (auto simp: fs_ok_def inode_list_def i)
  show "content_of st' = content_of st"
    using d by (auto simp: fun_eq_iff content_of_def fs_node_at_def i) (auto simp: st'_def put_dirent_def split: option.splits)
  have "kcontents (qdata q) (unat (qlength q)) = xs" "kcontents (qdata (de_name d)) (unat (qlength (de_name d))) = xs"
    using d q by (simp_all add: qstr_contents)
  then show "entry_name st' = entry_name st"
    using d by (auto simp: fun_eq_iff entry_name_def st'_def put_dirent_def)
qed

lemma vfs_get_root_ok:
  assumes fs: "fs_ok st ps" and i: "inodes st (hd ps) = Some i" and root: "entry_name st (direntry i) = [slash]"
  shows "\<exists>st'. vfs_get_root (Suc fuel) st = Inr (direntry i, st') \<and> fs_ok st' ps \<and> content_of st' = content_of st \<and>
    entry_name st' = entry_name st \<and> inodes st' = inodes st"
proof -
  have hd: "hd ps \<in> set ps" "vfs_head (vfs st) = hd ps" using fs by (auto simp: fs_ok_def inode_list_def)
  have ok: "hd ps \<noteq> NULL" "inode_ok st (set ps) (hd ps) i" using fs_okD [OF fs hd(1)] i by auto
  then have "entry_ok st (set ps) (direntry i)" by (simp add: inode_ok_def)
  from entry_nameE [OF this] obtain d where d: "direntry i \<noteq> NULL" "dirents st (direntry i) = Some d" "qstr_ok (de_name d) [slash]"
    unfolding root by metis
  have "cstr (cstr_obj [slash]) 0 [slash]" by (rule cstr_obj_cstr) simp_all
  from qstr_eq_null_terminated_ok [OF d(3) this] obtain q where
    q: "qstr_eq_null_terminated (de_name d) (cstr_obj [slash]) = Inr (True, q)" "qstr_ok q [slash]" by auto
  note r = rename_same [OF fs d(2,3) q(2)]
  have "vfs_get_root (Suc fuel) st = Inr (direntry i, put_dirent st (direntry i) (d\<lparr>de_name := q\<rparr>))"
    using ok(1) i d(1,2) q(1) by (simp add: vfs_get_root_def hd(2) deref_def)
  with r show ?thesis by (auto simp: put_dirent_def)
qed

text \<open>
  (C27) \<^bold>\<open>Path lookup.\<close> On a well-formed tree and an absolute path (whose next byte can be read), \<open>path_get_direntry\<close>
  computes \<open>resolve\<close>: component by component the first entry of the directory whose name starts with
  the component, \<open>NULL\<close> when there is none, and a use of file bytes as a directory where a component is
  looked up below a file. The tree is not changed.
\<close>

theorem path_lookup_resolves:
  assumes fs: "fs_ok st ps" and root: "inodes st (hd ps) = Some i" "entry_name st (direntry i) = [slash]"
    and inv: "u8a_inv path" and abs: "u8a_contents path = slash # rest" and nz: "0 \<notin> set rest"
    and after: "rd8 (u8_array path) (unat (u8_length path)) = Inr b"
  shows "\<exists>st'. path_get_direntry (Suc fuel) st path (Some OK) =
      bindE (resolve st (direntry i) (split_path rest)) (\<lambda>e. Inr (e, Some OK, st')) \<and>
    content_of st' = content_of st \<and> entry_name st' = entry_name st"
proof -
  from vfs_get_root_ok [OF fs root, of fuel] obtain st' where g: "vfs_get_root (Suc fuel) st = Inr (direntry i, st')"
    and st': "fs_ok st' ps" "content_of st' = content_of st" "entry_name st' = entry_name st" "inodes st' = inodes st" by blast
  have "hd ps \<in> set ps" using fs by (auto simp: fs_ok_def inode_list_def)
  from fs_okD [OF st'(1) this] root(1) st'(4) have e: "entry_ok st' (set ps) (direntry i)" by (auto simp: inode_ok_def)
  have "path_is_absolute path = Inr True"
    using path_read [OF inv, of 0] abs by (simp add: path_is_absolute_def)
  moreover have "path_walk st' path (direntry i) 1 (Some OK) =
      bindE (resolve st (direntry i) (split_path rest)) (\<lambda>e. Inr (e, Some OK))"
    using path_walk_ok [OF st'(1) inv after _ _ e, of 1] abs nz resolve_cong [OF st'(2,3)] by simp
  ultimately show ?thesis using g st'
    by (intro exI [of _ st']) (simp add: path_get_direntry_def bindE_assoc)
qed

lemma demo_path_te_short: "length ''/te'' < 1000"
  by simp

lemmas demo_path_te = demo_path_ok [OF demo_path_te_short]

lemma demo_fs_names:
  "entry_name demo_fs_new 0x300 = [slash]" "entry_name demo_fs_new 0x400 = chars ''test''"
  "content_of demo_fs_new 0x300 = Some (Inl [0x400])"
proof -
  show "entry_name demo_fs_new 0x300 = [slash]" "entry_name demo_fs_new 0x400 = chars ''test''"
    using qstr_contents [OF demo_names(1)] qstr_contents [OF demo_names(2)]
    by (simp_all add: entry_name_def demo_fs_new_def put_dirent_def demo_fs_def)
  show "content_of demo_fs_new 0x300 = Some (Inl [0x400])"
    using demo_data(1) by (auto simp: content_of_def fs_node_at_def node_data_def demo_fs_new_def put_dirent_def)
       (auto simp: demo_fs_def)
qed

text \<open>The lookup of \<open>/te\<close> in a root with the one entry \<open>test\<close> finds that entry.\<close>

theorem path_lookup_resolves_witness:
  "\<exists>st'. path_get_direntry 1 demo_fs_new (demo_path ''/te'') (Some OK) = Inr (0x400, Some OK, st')"
proof -
  have i: "inodes demo_fs_new (hd [0x100, 0x200]) = Some (the (inodes demo_fs 0x100))"
    by (simp add: demo_fs_new_def put_dirent_def demo_stores)
  have p: "u8a_contents (demo_path ''/te'') = slash # chars ''te''" by (simp add: demo_path_te(2))
  from path_lookup_resolves [OF demo_fs_new_ok i _ demo_path_te(1) p _ demo_path_te(3), of 0] show ?thesis
    by (auto simp: demo_stores demo_fs_names)
qed

text \<open>A lookup of the root itself asks for the empty name below it: the first entry of the root, or \<open>NULL\<close>.\<close>

lemma resolve_root_path:
  "content_of st r = Some (Inl es) \<Longrightarrow>
   resolve st r (split_path []) = Inr (case es of [] \<Rightarrow> NULL | x # _ \<Rightarrow> x)"
  by (simp split: list.splits)

text \<open>
  \<^bold>\<open>\<open>path_exists\<close> and \<open>create_dir\<close> never return.\<close> \<open>path_exists\<close> passes a null pointer for the error, which the lookup
  reads in its first round: whatever the path, it ends in a fault, and with it \<open>create_dir\<close>.
\<close>

theorem create_dir_never_returns:
  "(\<exists>e. path_exists fuel st path = Inl e) \<and> (\<exists>e. create_dir fuel g g' st path err = Inl e)"
proof -
  have walk: "\<exists>e. path_walk st path cur pp None = Inl e" for st cur pp
  proof (cases "path_walk st path cur pp None")
    case (Inr r)
    then show ?thesis
      by (subst (asm) path_walk.simps)
         (auto simp: op_list_dir_def tmpfs_list_dir_def err_of_def elim!: bindE_InrE split: FsIdentifier.splits)
  qed simp
  have "\<exists>e. path_get_direntry fuel st path None = Inl e"
  proof (cases "path_get_direntry fuel st path None")
    case (Inr r)
    then obtain cur st' where "\<exists>x. path_walk st' path cur 1 None = Inr x"
      by (auto simp: path_get_direntry_def elim!: bindE_InrE split: if_splits) blast
    with walk [of st' cur 1] show ?thesis by auto
  qed simp
  then show ?thesis by (auto simp: path_exists_def create_dir_def)
qed

subsection \<open>Freeing the file system\<close>

text \<open>
  What the loop needs of the inodes it has not reached yet: they are linked, their entries are in
  the store, no two share one, and their data fit their type.
\<close>

definition freeable :: "fs_state \<Rightarrow> ptr list \<Rightarrow> bool" where
  "freeable st qs \<longleftrightarrow>
     NULL \<notin> set qs \<and> distinct qs \<and>
     (\<forall>k < length qs. \<exists>i. inodes st (qs ! k) = Some i \<and> inode_next i = (if Suc k < length qs then qs ! Suc k else NULL)) \<and>
     (\<forall>q \<in> set qs. \<forall>i. inodes st q = Some i \<longrightarrow> direntry i \<noteq> NULL \<and>
        (\<exists>d. dirents st (direntry i) = Some d \<and> de_inode d = Some q) \<and>
        (case inode_data i of Filedata _ \<Rightarrow> inode_type i = FILE | Direntries _ \<Rightarrow> inode_type i = DIRECTORY))"

lemma fs_ok_freeable:
  assumes fs: "fs_ok st ps" shows "freeable st ps"
proof -
  have "direntry i \<noteq> NULL \<and> (\<exists>d. dirents st (direntry i) = Some d \<and> de_inode d = Some q) \<and>
      (case inode_data i of Filedata _ \<Rightarrow> inode_type i = FILE | Direntries _ \<Rightarrow> inode_type i = DIRECTORY)"
    if "q \<in> set ps" "inodes st q = Some i" for q i
  proof -
    have "inode_ok st (set ps) q i" using fs that by (simp add: fs_ok_def)
    then show ?thesis by (auto simp: inode_ok_def entry_ok_def data_ok_def split: tmpfs_data.splits)
  qed
  then show ?thesis using fs by (auto simp: freeable_def fs_ok_def inode_list_def)
qed

text \<open>One inode: its entry and the inode are gone, and nothing else is.\<close>

lemma free_one:
  assumes "freeable st (q # qs)"
  obtains i st' where "q \<noteq> NULL" and "inodes st q = Some i" and "inode_next i = (case qs of [] \<Rightarrow> NULL | x # _ \<Rightarrow> x)"
    and "\<And>fs. bindE (free_entry_of st q) (\<lambda>(i, st). op_free_inode fs st q) = Inr st'"
    and "free_entry_of st q = Inr (i, st\<lparr>dirents := (dirents st)(direntry i := None)\<rparr>)"
    and "op_free_inode (fs_identifier i) (st\<lparr>dirents := (dirents st)(direntry i := None)\<rparr>) q = Inr st'"
    and "inodes st' = (inodes st)(q := None)" and "dirents st' = (dirents st)(direntry i := None)" and "freeable st' qs"
proof -
  let ?ok = "\<lambda>p j. direntry j \<noteq> NULL \<and> (\<exists>d. dirents st (direntry j) = Some d \<and> de_inode d = Some p) \<and>
      (case inode_data j of Filedata _ \<Rightarrow> inode_type j = FILE | Direntries _ \<Rightarrow> inode_type j = DIRECTORY)"
  from assms have q: "q \<noteq> NULL" "q \<notin> set qs" and chain: "\<forall>k < length (q # qs). \<exists>i. inodes st ((q # qs) ! k) = Some i \<and>
        inode_next i = (if Suc k < length (q # qs) then (q # qs) ! Suc k else NULL)"
    and oks: "\<And>p j. p \<in> set (q # qs) \<Longrightarrow> inodes st p = Some j \<Longrightarrow> ?ok p j"
    unfolding freeable_def by auto
  from chain [rule_format, of 0] obtain i where i: "inodes st q = Some i" "inode_next i = (case qs of [] \<Rightarrow> NULL | x # _ \<Rightarrow> x)"
    by (cases qs) auto
  from oks [OF _ i(1)] have okq: "?ok q i" by simp
  let ?s = "st\<lparr>dirents := (dirents st)(direntry i := None)\<rparr>"
  let ?st = "?s\<lparr>inodes := (inodes st)(q := None)\<rparr>"
  have f: "free_entry_of st q = Inr (i, ?s)"
    using q okq i by (auto simp: free_entry_of_def deref_def free_direntry_def)
  have g: "op_free_inode fs ?s q = Inr ?st" for fs
    using q okq i
    by (cases fs) (auto simp: op_free_inode_def tmpfs_free_inode_def deref_def file_bytes_def dir_list_def vpa_free_def split: tmpfs_data.splits)
  have "direntry j \<noteq> direntry i" if "p \<in> set qs" "inodes st p = Some j" for p j
    using oks [of p j] okq that q by auto
  then have ok': "direntry j \<noteq> NULL \<and> (\<exists>d. dirents ?st (direntry j) = Some d \<and> de_inode d = Some p) \<and>
      (case inode_data j of Filedata _ \<Rightarrow> inode_type j = FILE | Direntries _ \<Rightarrow> inode_type j = DIRECTORY)"
    if "p \<in> set qs" "inodes ?st p = Some j" for p j
    using oks [of p j] that q by (auto split: if_splits)
  have ch': "\<exists>j. inodes ?st (qs ! k) = Some j \<and> inode_next j = (if Suc k < length qs then qs ! Suc k else NULL)" if "k < length qs" for k
    using chain [rule_format, of "Suc k"] that q by (auto dest: nth_mem)
  have "freeable ?st qs" using assms ok' ch' unfolding freeable_def by (auto simp del: fun_upd_apply)
  with q i f g show ?thesis by (intro that [of i ?st]) simp_all
qed

lemma vfs_free_loop_ok:
  assumes "freeable st qs" and "length qs < fuel"
  shows "\<exists>st'. vfs_free_loop fuel st (case qs of [] \<Rightarrow> NULL | x # _ \<Rightarrow> x) = Inr st' \<and>
    inodes st' = (\<lambda>p. if p \<in> set qs then None else inodes st p) \<and>
    dirents st' = (\<lambda>e. if \<exists>q \<in> set qs. \<exists>i. inodes st q = Some i \<and> direntry i = e then None else dirents st e)"
  using assms
proof (induction qs arbitrary: st fuel)
  case Nil
  then obtain k where "fuel = Suc k" using gr0_implies_Suc by auto
  then show ?case by simp
next
  case (Cons q qs)
  from Cons.prems(2) obtain k where k: "fuel = Suc k" "length qs < k" by (cases fuel) auto
  from free_one [OF Cons.prems(1)] obtain i st1 where o: "q \<noteq> NULL" "inodes st q = Some i"
      "inode_next i = (case qs of [] \<Rightarrow> NULL | x # _ \<Rightarrow> x)"
    and fr: "free_entry_of st q = Inr (i, st\<lparr>dirents := (dirents st)(direntry i := None)\<rparr>)"
      "op_free_inode (fs_identifier i) (st\<lparr>dirents := (dirents st)(direntry i := None)\<rparr>) q = Inr st1"
    and s: "inodes st1 = (inodes st)(q := None)" "dirents st1 = (dirents st)(direntry i := None)" "freeable st1 qs"
    by metis
  from Cons.IH [OF s(3) k(2)] obtain st2 where st2: "vfs_free_loop k st1 (case qs of [] \<Rightarrow> NULL | x # _ \<Rightarrow> x) = Inr st2"
    "inodes st2 = (\<lambda>p. if p \<in> set qs then None else inodes st1 p)"
    "dirents st2 = (\<lambda>e. if \<exists>q \<in> set qs. \<exists>i. inodes st1 q = Some i \<and> direntry i = e then None else dirents st1 e)" by blast
  have "q \<notin> set qs" using Cons.prems(1) by (simp add: freeable_def)
  then have "(\<exists>p \<in> set qs. \<exists>j. inodes st1 p = Some j \<and> direntry j = e) \<longleftrightarrow> (\<exists>p \<in> set qs. \<exists>j. inodes st p = Some j \<and> direntry j = e)" for e
    by (auto simp: s(1))
  then show ?case
    using o fr st2 by (auto simp: k(1) s(1,2) fun_eq_iff)
qed

text \<open>
  (C28) \<^bold>\<open>Freeing the file system.\<close> \<open>vfs_free\<close> ends (in as many rounds as there are inodes), and every inode and every
  entry of the tree is freed, each once; what is not part of the tree is left alone.
\<close>

theorem vfs_free_frees_all:
  assumes fs: "fs_ok st ps" and fuel: "length ps < fuel"
  shows "\<exists>st'. vfs_free fuel st = Inr st' \<and>
    inodes st' = (\<lambda>p. if p \<in> set ps then None else inodes st p) \<and>
    dirents st' = (\<lambda>e. if \<exists>p \<in> set ps. \<exists>i. inodes st p = Some i \<and> direntry i = e then None else dirents st e)"
proof -
  have il: "ps \<noteq> []" "NULL \<notin> set ps" "vfs_head (vfs st) = hd ps" "vfs_tail (vfs st) = last ps" "distinct ps"
    using fs by (auto simp: fs_ok_def inode_list_def)
  note fr = fs_ok_freeable [OF fs]
  obtain q qs where ps: "ps = q # qs" using il by (cases ps) auto
  show ?thesis
  proof (cases "qs = []")
    case True
    from fr have "freeable st [q]" using ps True by simp
    from free_one [OF this] obtain i st' where "q \<noteq> NULL" "inodes st q = Some i"
        "free_entry_of st q = Inr (i, st\<lparr>dirents := (dirents st)(direntry i := None)\<rparr>)"
        "op_free_inode (fs_identifier i) (st\<lparr>dirents := (dirents st)(direntry i := None)\<rparr>) q = Inr st'"
        "inodes st' = (inodes st)(q := None)" "dirents st' = (dirents st)(direntry i := None)" by metis
    then show ?thesis using il ps True by (auto simp: vfs_free_def fun_eq_iff)
  next
    case False
    then have "q \<noteq> last ps" "q \<noteq> NULL" using il ps by auto
    then have "vfs_free fuel st = vfs_free_loop fuel st (case ps of [] \<Rightarrow> NULL | x # _ \<Rightarrow> x)"
      using il ps by (simp add: vfs_free_def)
    with vfs_free_loop_ok [OF fr fuel] show ?thesis by simp
  qed
qed

theorem vfs_free_frees_all_witness:
  "\<exists>st'. vfs_free 3 demo_fs_new = Inr st' \<and> inodes st' 0x100 = None \<and> inodes st' 0x200 = None \<and> dirents st' 0x700 \<noteq> None"
proof -
  have "\<exists>st'. vfs_free 3 demo_fs_new = Inr st' \<and>
    inodes st' = (\<lambda>p. if p \<in> set [0x100, 0x200] then None else inodes demo_fs_new p) \<and>
    dirents st' = (\<lambda>e. if \<exists>p \<in> set [0x100, 0x200]. \<exists>i. inodes demo_fs_new p = Some i \<and> direntry i = e then None
      else dirents demo_fs_new e)"
    by (rule vfs_free_frees_all [OF demo_fs_new_ok]) simp
  then obtain st' where "vfs_free 3 demo_fs_new = Inr st'"
    "inodes st' = (\<lambda>p. if p \<in> set [0x100, 0x200] then None else inodes demo_fs_new p)"
    "dirents st' = (\<lambda>e. if \<exists>p \<in> set [0x100, 0x200]. \<exists>i. inodes demo_fs_new p = Some i \<and> direntry i = e then None
      else dirents demo_fs_new e)" by blast
  moreover have "dirents demo_fs_new 0x700 \<noteq> None" "inodes demo_fs_new = inodes demo_fs" by (simp_all add: demo_fs_new_def put_dirent_def)
  ultimately show ?thesis by (auto simp: demo_stores)
qed

end
