(* ===== verification/Heap_Allocator.thy ===== *)
theory Heap_Allocator
  imports Vm2
begin

section \<open>The kernel heap: \<open>allocator/allocator.c\<close> and \<open>allocator/llist.c\<close>\<close>

text \<open>
  The heap is a row of chunks. A chunk is a \<open>node_t\<close> (hole flag, size, and the links of its bin, four
  words), its bytes, and a footer that points back to the node. The holes are in nine bins by the
  logarithm of their size, each a doubly linked list in order of size. The user's pointer is the address of
  the field \<open>next\<close>: in a chunk that is in use the links belong to the user.

  Memory is modelled byte by byte: \<open>hbytes\<close> are the bytes at the virtual addresses of the heap and
  \<open>hmapped\<close> says which of them are backed by a page; an access to another address is a fault. So
  that the fields of nodes, the footers and the parts of a split chunk do not overlap is proved and not
  assumed. The \<open>heap_t\<close> and the bin heads live in a page of their own, before the heap, and are a
  record. New pages come from \<open>vm2_allocate_page\<close>, which returns them cleared.
\<close>

definition HEAP_INIT_SIZE :: u32 where "HEAP_INIT_SIZE = 0x10000"
definition MIN_ALLOC_SZ :: u32 where "MIN_ALLOC_SZ = 4"
definition MIN_WILDERNESS :: u32 where "MIN_WILDERNESS = 0x2000"
definition MAX_WILDERNESS :: u32 where "MAX_WILDERNESS = 0x1000000"
definition BIN_COUNT :: nat where "BIN_COUNT = 9"
definition BIN_MAX_IDX :: nat where "BIN_MAX_IDX = BIN_COUNT - 1"

text \<open>\<open>sizeof(node_t)\<close>, \<open>sizeof(footer_t)\<close>; \<open>offset\<close> is the distance from a node to the user's bytes.\<close>

definition node_size :: u32 where "node_size = 16"
definition footer_size :: u32 where "footer_size = 4"
definition overhead :: u32 where "overhead = footer_size + node_size"
definition heap_offset :: u32 where "heap_offset = 4 * 2"

record heap_t =
  h_start :: u32
  h_end :: u32
  bin_head :: "nat \<Rightarrow> ptr"
  bytes_allocated :: u32

record heap_world =
  hvm :: vm2_state
  heap :: heap_t
  hbytes :: "nat \<Rightarrow> u8"
  hmapped :: "nat \<Rightarrow> bool"

subsection \<open>Memory\<close>

text \<open>A word is four bytes, the lowest first.\<close>

definition get32 :: "(nat \<Rightarrow> u8) \<Rightarrow> nat \<Rightarrow> u32" where
  "get32 m a = ucast (m a) OR push_bit 8 (ucast (m (a + 1))) OR push_bit 16 (ucast (m (a + 2))) OR
     push_bit 24 (ucast (m (a + 3)))"

definition put32 :: "(nat \<Rightarrow> u8) \<Rightarrow> nat \<Rightarrow> u32 \<Rightarrow> nat \<Rightarrow> u8" where
  "put32 m a v = m(a := ucast v, a + 1 := ucast (drop_bit 8 v), a + 2 := ucast (drop_bit 16 v),
     a + 3 := ucast (drop_bit 24 v))"

definition word_mapped :: "heap_world \<Rightarrow> nat \<Rightarrow> bool" where
  "word_mapped w a \<longleftrightarrow> hmapped w a \<and> hmapped w (a + 1) \<and> hmapped w (a + 2) \<and> hmapped w (a + 3)"

text \<open>Accesses; the fields of the null pointer are the addresses below 16.\<close>

definition bad_address :: "u32 \<Rightarrow> fault" where
  "bad_address a = (if a < 16 then NullDeref else OutOfBounds)"

definition ld :: "heap_world \<Rightarrow> u32 \<Rightarrow> fault + u32" where
  "ld w a = (if word_mapped w (unat a) then Inr (get32 (hbytes w) (unat a)) else Inl (bad_address a))"

definition st :: "heap_world \<Rightarrow> u32 \<Rightarrow> u32 \<Rightarrow> fault + heap_world" where
  "st w a v = (if word_mapped w (unat a) then Inr (w\<lparr>hbytes := put32 (hbytes w) (unat a) v\<rparr>) else Inl (bad_address a))"

text \<open>The addresses of the fields of a node.\<close>

definition f_hole :: "ptr \<Rightarrow> u32" where "f_hole n = n"
definition f_size :: "ptr \<Rightarrow> u32" where "f_size n = n + 4"
definition f_next :: "ptr \<Rightarrow> u32" where "f_next n = n + 8"
definition f_prev :: "ptr \<Rightarrow> u32" where "f_prev n = n + 12"

definition set_bin :: "heap_world \<Rightarrow> nat \<Rightarrow> ptr \<Rightarrow> heap_world" where
  "set_bin w k p = w\<lparr>heap := (heap w)\<lparr>bin_head := (bin_head (heap w))(k := p)\<rparr>\<rparr>"

subsection \<open>\<open>llist.c\<close>\<close>

text \<open>The loops over a bin take fuel; a fuel above the length of the bin is enough.\<close>

primrec add_node_loop :: "nat \<Rightarrow> heap_world \<Rightarrow> ptr \<Rightarrow> ptr \<Rightarrow> ptr \<Rightarrow> fault + (ptr \<times> ptr)" where
  "add_node_loop 0 w node current previous = Inl Diverges"
| "add_node_loop (Suc fuel) w node current previous =
     (if current = NULL then Inr (current, previous)
      else
        bindE (ld w (f_size current)) (\<lambda>cs.
        bindE (ld w (f_size node)) (\<lambda>ns.
        if cs \<le> ns then bindE (ld w (f_next current)) (\<lambda>nx. add_node_loop fuel w node nx current)
        else Inr (current, previous))))"

definition add_node :: "nat \<Rightarrow> heap_world \<Rightarrow> nat \<Rightarrow> ptr \<Rightarrow> fault + heap_world" where
  "add_node fuel w bin node =
     bindE (st w (f_next node) NULL) (\<lambda>w.
     bindE (st w (f_prev node) NULL) (\<lambda>w.
     if bin_head (heap w) bin = NULL then Inr (set_bin w bin node)
     else
       bindE (add_node_loop fuel w node (bin_head (heap w) bin) NULL) (\<lambda>(current, previous).
       if current = NULL
       then
         (if previous = NULL then Inl FatalPanic
          else bindE (st w (f_next previous) node) (\<lambda>w. st w (f_prev node) previous))
       else if previous \<noteq> NULL
       then
         bindE (st w (f_next node) current) (\<lambda>w.
         bindE (st w (f_next previous) node) (\<lambda>w.
         bindE (st w (f_prev node) previous) (\<lambda>w.
         st w (f_prev current) node)))
       else
         bindE (st w (f_next node) (bin_head (heap w) bin)) (\<lambda>w.
         bindE (st w (f_prev (bin_head (heap w) bin)) node) (\<lambda>w.
         Inr (set_bin w bin node))))))"

primrec remove_node_loop :: "nat \<Rightarrow> heap_world \<Rightarrow> ptr \<Rightarrow> ptr \<Rightarrow> fault + heap_world" where
  "remove_node_loop 0 w node temp = Inl Diverges"
| "remove_node_loop (Suc fuel) w node temp =
     (if temp = NULL then Inr w
      else if temp = node
      then
        bindE (ld w (f_next temp)) (\<lambda>nx.
        bindE (ld w (f_prev temp)) (\<lambda>pv.
        if nx = NULL then st w (f_next pv) NULL
        else
          bindE (st w (f_next pv) nx) (\<lambda>w.
          bindE (ld w (f_next temp)) (\<lambda>nx.
          bindE (ld w (f_prev temp)) (\<lambda>pv.
          st w (f_prev nx) pv)))))
      else bindE (ld w (f_next temp)) (\<lambda>nx. remove_node_loop fuel w node nx))"

definition remove_node :: "nat \<Rightarrow> heap_world \<Rightarrow> nat \<Rightarrow> ptr \<Rightarrow> fault + heap_world" where
  "remove_node fuel w bin node =
     (let head = bin_head (heap w) bin in
      if head = NULL then Inr w
      else
        bindE (ld w (f_next head)) (\<lambda>nx.
        if head = node then Inr (set_bin w bin nx)
        else remove_node_loop fuel w node nx))"

primrec best_fit_loop :: "nat \<Rightarrow> heap_world \<Rightarrow> u32 \<Rightarrow> ptr \<Rightarrow> fault + ptr" where
  "best_fit_loop 0 w sz temp = Inl Diverges"
| "best_fit_loop (Suc fuel) w sz temp =
     (if temp = NULL then Inr NULL
      else
        bindE (ld w (f_size temp)) (\<lambda>ts.
        if ts \<ge> sz then Inr temp
        else bindE (ld w (f_next temp)) (\<lambda>nx. best_fit_loop fuel w sz nx)))"

definition get_best_fit :: "nat \<Rightarrow> heap_world \<Rightarrow> nat \<Rightarrow> u32 \<Rightarrow> fault + ptr" where
  "get_best_fit fuel w bin sz = best_fit_loop fuel w sz (bin_head (heap w) bin)"

primrec last_node_loop :: "nat \<Rightarrow> heap_world \<Rightarrow> ptr \<Rightarrow> fault + ptr" where
  "last_node_loop 0 w temp = Inl Diverges"
| "last_node_loop (Suc fuel) w temp =
     bindE (ld w (f_next temp)) (\<lambda>nx. if nx \<noteq> NULL then last_node_loop fuel w nx else Inr temp)"

definition get_last_node :: "nat \<Rightarrow> heap_world \<Rightarrow> nat \<Rightarrow> fault + ptr" where
  "get_last_node fuel w bin = last_node_loop fuel w (bin_head (heap w) bin)"

subsection \<open>\<open>allocator.c\<close>\<close>

text \<open>The loop \<open>while (sz >>= 1) index++\<close>.\<close>

function bit_index :: "u32 \<Rightarrow> nat \<Rightarrow> nat" where
  "bit_index sz index = (let sz = drop_bit 1 sz in if sz \<noteq> 0 then bit_index sz (Suc index) else index)"
  by pat_completeness auto
termination
proof (relation "measure (\<lambda>(sz, index). unat sz)")
  fix sz index s assume "s = drop_bit 1 sz" and "s \<noteq> (0 :: u32)"
  then have "0 < unat s" by (simp add: unat_gt_0)
  then show "((s, Suc index), (sz, index)) \<in> measure (\<lambda>(sz, index). unat sz)"
    using \<open>s = drop_bit 1 sz\<close> by (simp add: unat_drop_bit)
qed simp

declare bit_index.simps [simp del]

definition get_bin_index :: "u32 \<Rightarrow> nat" where
  "get_bin_index sz =
     (let sz = (if sz < 4 then 4 else sz);
          index = bit_index sz 0 - 2 in
      if index > BIN_MAX_IDX then BIN_MAX_IDX else index)"

definition get_foot :: "heap_world \<Rightarrow> ptr \<Rightarrow> fault + u32" where
  "get_foot w node = bindE (ld w (f_size node)) (\<lambda>sz. Inr (node + node_size + sz))"

definition create_foot :: "heap_world \<Rightarrow> ptr \<Rightarrow> fault + heap_world" where
  "create_foot w head = bindE (get_foot w head) (\<lambda>foot. st w foot head)"

definition get_wilderness :: "heap_world \<Rightarrow> fault + ptr" where
  "get_wilderness w = ld w (h_end (heap w) - footer_size)"

definition get_alloc_size :: "heap_world \<Rightarrow> ptr \<Rightarrow> fault + u32" where
  "get_alloc_size w p = ld w (f_size (p - heap_offset))"

text \<open>A page for the heap: the call to \<open>vm2_allocate_page\<close>; on success the page is mapped and cleared.\<close>

definition in_page :: "u32 \<Rightarrow> nat \<Rightarrow> bool" where
  "in_page virtual x \<longleftrightarrow> x div 4096 = unat virtual div 4096"

definition kernel_page :: "heap_world \<Rightarrow> u32 \<Rightarrow> fault + (ptr \<times> heap_world)" where
  "kernel_page w virtual =
     bindE (vm2_allocate_page (hvm w) kernell1PageTable virtual False \<lparr>access = KernelRW, executable = False\<rparr> None)
       (\<lambda>(page, _, s).
       Inr (page, if page = NULL then w\<lparr>hvm := s\<rparr>
            else w\<lparr>hvm := s, hmapped := (\<lambda>x. hmapped w x \<or> in_page virtual x),
                   hbytes := (\<lambda>x. if in_page virtual x then 0 else hbytes w x)\<rparr>))"

definition expand :: "heap_world \<Rightarrow> fault + (u32 \<times> heap_world)" where
  "expand w =
     bindE (kernel_page w (h_end (heap w))) (\<lambda>(page, w).
     if page = NULL then Inr (0, w)
     else Inr (1, w\<lparr>heap := (heap w)\<lparr>h_end := h_end (heap w) + PAGE_SIZE\<rparr>\<rparr>))"

definition contract :: "heap_world \<Rightarrow> fault + heap_world" where
  "contract w =
     (let w = w\<lparr>heap := (heap w)\<lparr>h_end := h_end (heap w) - PAGE_SIZE\<rparr>\<rparr> in
      bindE (vm2_free_page (hvm w) kernell1PageTable (h_end (heap w))) (\<lambda>s.
      Inr (w\<lparr>hvm := s, hmapped := (\<lambda>x. hmapped w x \<and> \<not> in_page (h_end (heap w)) x)\<rparr>)))"

definition create_heap :: "nat \<Rightarrow> heap_world \<Rightarrow> u32 \<Rightarrow> fault + heap_world" where
  "create_heap fuel w start =
     bindE (st w (f_hole start) 1) (\<lambda>w.
     bindE (st w (f_size start) (HEAP_INIT_SIZE - node_size - footer_size)) (\<lambda>w.
     bindE (create_foot w start) (\<lambda>w.
     bindE (ld w (f_size start)) (\<lambda>sz.
     bindE (add_node fuel w (get_bin_index sz) start) (\<lambda>w.
     Inr (w\<lparr>heap := (heap w)\<lparr>h_start := start, h_end := start + HEAP_INIT_SIZE, bytes_allocated := 0\<rparr>\<rparr>))))))"

text \<open>The search through the bins, from \<open>index\<close> up; \<open>n\<close> is the number of bins above \<open>index\<close>.\<close>

primrec search_bins :: "nat \<Rightarrow> nat \<Rightarrow> heap_world \<Rightarrow> u32 \<Rightarrow> nat \<Rightarrow> fault + (ptr \<times> nat)" where
  "search_bins fuel 0 w sz index = bindE (get_best_fit fuel w index sz) (\<lambda>found. Inr (found, index))"
| "search_bins fuel (Suc n) w sz index =
     bindE (get_best_fit fuel w index sz) (\<lambda>found.
     if found = NULL then search_bins fuel n w sz (Suc index) else Inr (found, index))"

definition split_chunk :: "nat \<Rightarrow> heap_world \<Rightarrow> ptr \<Rightarrow> u32 \<Rightarrow> fault + heap_world" where
  "split_chunk fuel w found sz =
     (let split = found + overhead + sz in
      bindE (ld w (f_size found)) (\<lambda>fs.
      bindE (st w (f_size split) (fs - sz - overhead)) (\<lambda>w.
      bindE (st w (f_hole split) 1) (\<lambda>w.
      bindE (create_foot w split) (\<lambda>w.
      bindE (ld w (f_size split)) (\<lambda>ss.
      bindE (add_node fuel w (get_bin_index ss) split) (\<lambda>w.
      bindE (st w (f_size found) sz) (\<lambda>w.
      create_foot w found))))))))"

definition check_wilderness :: "heap_world \<Rightarrow> fault + (bool \<times> heap_world)" where
  "check_wilderness w =
     bindE (get_wilderness w) (\<lambda>wild.
     bindE (ld w (f_size wild)) (\<lambda>ws.
     if ws < MIN_WILDERNESS then bindE (expand w) (\<lambda>(success, w). Inr (success \<noteq> 0, w))
     else bindE (ld w (f_size wild)) (\<lambda>ws.
          if ws > MAX_WILDERNESS then bindE (contract w) (\<lambda>w. Inr (True, w)) else Inr (True, w))))"

definition heap_alloc :: "nat \<Rightarrow> heap_world \<Rightarrow> u32 \<Rightarrow> fault + (ptr \<times> heap_world)" where
  "heap_alloc fuel w sz =
     bindE (search_bins fuel (BIN_MAX_IDX - get_bin_index sz) w sz (get_bin_index sz)) (\<lambda>(found, index).
     if found = NULL then Inr (NULL, w)
     else
       bindE (ld w (f_size found)) (\<lambda>fs.
       bindE (if fs - sz > overhead + MIN_ALLOC_SZ then split_chunk fuel w found sz else Inr w) (\<lambda>w.
       bindE (st w (f_hole found) 0) (\<lambda>w.
       bindE (remove_node fuel w index found) (\<lambda>w.
       bindE (check_wilderness w) (\<lambda>(success, w).
       if \<not> success then Inr (NULL, w)
       else
         bindE (st w (f_prev found) NULL) (\<lambda>w.
         bindE (st w (f_next found) NULL) (\<lambda>w.
         bindE (ld w (f_size found)) (\<lambda>fs.
         Inr (f_next found, w\<lparr>heap := (heap w)\<lparr>bytes_allocated := bytes_allocated (heap w) + fs\<rparr>\<rparr>))))))))))"

definition merge_prev :: "nat \<Rightarrow> heap_world \<Rightarrow> ptr \<Rightarrow> ptr \<Rightarrow> fault + heap_world" where
  "merge_prev fuel w prev head =
     bindE (ld w (f_size prev)) (\<lambda>ps.
     bindE (remove_node fuel w (get_bin_index ps) prev) (\<lambda>w.
     bindE (ld w (f_size prev)) (\<lambda>ps.
     bindE (ld w (f_size head)) (\<lambda>hs.
     bindE (st w (f_size prev) (ps + (overhead + hs))) (\<lambda>w.
     bindE (get_foot w head) (\<lambda>new_foot.
     st w new_foot prev))))))"

definition merge_next :: "nat \<Rightarrow> heap_world \<Rightarrow> ptr \<Rightarrow> ptr \<Rightarrow> fault + heap_world" where
  "merge_next fuel w next head =
     bindE (ld w (f_size next)) (\<lambda>ns.
     bindE (remove_node fuel w (get_bin_index ns) next) (\<lambda>w.
     bindE (ld w (f_size head)) (\<lambda>hs.
     bindE (ld w (f_size next)) (\<lambda>ns.
     bindE (st w (f_size head) (hs + (overhead + ns))) (\<lambda>w.
     bindE (get_foot w next) (\<lambda>old_foot.
     bindE (st w old_foot 0) (\<lambda>w.
     bindE (st w (f_size next) 0) (\<lambda>w.
     bindE (st w (f_hole next) 0) (\<lambda>w.
     create_foot w head)))))))))"

definition enter_hole :: "nat \<Rightarrow> heap_world \<Rightarrow> ptr \<Rightarrow> fault + heap_world" where
  "enter_hole fuel w head =
     bindE (st w (f_hole head) 1) (\<lambda>w.
     bindE (ld w (f_size head)) (\<lambda>hs.
     add_node fuel w (get_bin_index hs) head))"

definition heap_free :: "nat \<Rightarrow> heap_world \<Rightarrow> ptr \<Rightarrow> fault + heap_world" where
  "heap_free fuel w p =
     (if p = NULL then Inr w
      else
        (let head = p - heap_offset in
         bindE (ld w (f_size head)) (\<lambda>hs.
         let w = w\<lparr>heap := (heap w)\<lparr>bytes_allocated := bytes_allocated (heap w) - hs\<rparr>\<rparr> in
         if head = h_start (heap w) then enter_hole fuel w head
         else
           bindE (get_foot w head) (\<lambda>foot.
           let next = foot + footer_size in
           bindE (ld w (head - footer_size)) (\<lambda>prev.
           bindE (ld w (f_hole prev)) (\<lambda>ph.
           bindE (if ph \<noteq> 0 then merge_prev fuel w prev head else Inr w) (\<lambda>w.
           let head = (if ph \<noteq> 0 then prev else head) in
           bindE (ld w (f_hole next)) (\<lambda>nh.
           bindE (if nh \<noteq> 0 then merge_next fuel w next head else Inr w) (\<lambda>w.
           enter_hole fuel w head))))))))) "

subsection \<open>Reading and writing words\<close>

lemma get32_put32_same: "get32 (put32 m a v) a = v"
proof (rule bit_word_eqI)
  fix n assume n: "n < LENGTH(32)"
  have "n < 8 \<or> (8 \<le> n \<and> n < 16) \<or> (16 \<le> n \<and> n < 24) \<or> 24 \<le> n" by linarith
  then show "bit (get32 (put32 m a v) a) n = bit v n"
    using n by (auto simp: get32_def put32_def bit_simps)
qed

lemma get32_put32_other: "a + 4 \<le> b \<or> b + 4 \<le> a \<Longrightarrow> get32 (put32 m a v) b = get32 m b"
  by (auto simp: get32_def put32_def)

lemma put32_byte: "x < a \<or> a + 4 \<le> x \<Longrightarrow> put32 m a v x = m x"
  by (auto simp: put32_def)

lemma get32_cong:
  assumes "\<And>i. i < 4 \<Longrightarrow> m' (a + i) = m (a + i)"
  shows "get32 m' a = get32 m a"
  using assms [of 0] assms [of 1] assms [of 2] assms [of 3] by (simp add: get32_def)

text \<open>
  A node that can be accessed, by its address as a number, and a set of nodes whose four words do not
  overlap. Fields of nodes of such a set behave like variables of their own.
\<close>

definition heap_node_at :: "heap_world \<Rightarrow> nat \<Rightarrow> bool" where
  "heap_node_at w a \<longleftrightarrow> 16 \<le> a \<and> a + 16 \<le> 4294967296 \<and> (\<forall>x. a \<le> x \<and> x < a + 16 \<longrightarrow> hmapped w x)"

definition spaced :: "nat set \<Rightarrow> bool" where
  "spaced A \<longleftrightarrow> (\<forall>a \<in> A. \<forall>b \<in> A. a \<noteq> b \<longrightarrow> a + 16 \<le> b \<or> b + 16 \<le> a)"

lemma heap_node_at_mapped [simp]:
  "heap_node_at (w\<lparr>hbytes := m\<rparr>) a = heap_node_at w a" "heap_node_at (w\<lparr>heap := h\<rparr>) a = heap_node_at w a" "heap_node_at (set_bin w k p) a = heap_node_at w a"
  by (simp_all add: heap_node_at_def set_bin_def)

lemma field_unat:
  assumes "heap_node_at w a"
  shows "unat (of_nat a :: u32) = a" "unat (f_hole (of_nat a)) = a" "unat (f_size (of_nat a)) = a + 4"
    "unat (f_next (of_nat a)) = a + 8" "unat (f_prev (of_nat a)) = a + 12" "(of_nat a :: u32) \<noteq> 0"
proof -
  have a: "a + 16 \<le> 4294967296" "16 \<le> a" using assms by (auto simp: heap_node_at_def)
  then show u: "unat (of_nat a :: u32) = a" by (intro unat_of_nat_u32) simp
  have "unat (of_nat a + of_nat k :: u32) = a + k" if "k \<le> 12" for k
    using a that u by (subst unat_add_no_wrap) (simp_all add: unat_of_nat_u32)
  from this [of 4] this [of 8] this [of 12]
  show "unat (f_hole (of_nat a)) = a" "unat (f_size (of_nat a)) = a + 4"
    "unat (f_next (of_nat a)) = a + 8" "unat (f_prev (of_nat a)) = a + 12"
    using u by (simp_all add: f_hole_def f_size_def f_next_def f_prev_def)
  show "(of_nat a :: u32) \<noteq> 0" using u a by auto
qed

lemma node_word_mapped:
  assumes "heap_node_at w a" and "d + 4 \<le> 16"
  shows "word_mapped w (a + d)"
  using assms by (auto simp: heap_node_at_def word_mapped_def)

lemma ld_field:
  assumes "heap_node_at w a"
  shows "ld w (f_hole (of_nat a)) = Inr (get32 (hbytes w) a)" "ld w (f_size (of_nat a)) = Inr (get32 (hbytes w) (a + 4))"
    "ld w (f_next (of_nat a)) = Inr (get32 (hbytes w) (a + 8))" "ld w (f_prev (of_nat a)) = Inr (get32 (hbytes w) (a + 12))"
  using node_word_mapped [OF assms, of 0] node_word_mapped [OF assms, of 4] node_word_mapped [OF assms, of 8]
    node_word_mapped [OF assms, of 12] by (simp_all add: ld_def field_unat [OF assms])

lemma st_field:
  assumes "heap_node_at w a"
  shows "st w (f_hole (of_nat a)) v = Inr (w\<lparr>hbytes := put32 (hbytes w) a v\<rparr>)"
    "st w (f_size (of_nat a)) v = Inr (w\<lparr>hbytes := put32 (hbytes w) (a + 4) v\<rparr>)"
    "st w (f_next (of_nat a)) v = Inr (w\<lparr>hbytes := put32 (hbytes w) (a + 8) v\<rparr>)"
    "st w (f_prev (of_nat a)) v = Inr (w\<lparr>hbytes := put32 (hbytes w) (a + 12) v\<rparr>)"
  using node_word_mapped [OF assms, of 0] node_word_mapped [OF assms, of 4] node_word_mapped [OF assms, of 8]
    node_word_mapped [OF assms, of 12] by (simp_all add: st_def field_unat [OF assms])

text \<open>The links of the nodes as functions, and what writing a link does to them.\<close>

abbreviation nx :: "(nat \<Rightarrow> u8) \<Rightarrow> nat \<Rightarrow> u32" where "nx m a \<equiv> get32 m (a + 8)"
abbreviation pv :: "(nat \<Rightarrow> u8) \<Rightarrow> nat \<Rightarrow> u32" where "pv m a \<equiv> get32 m (a + 12)"
abbreviation zs :: "(nat \<Rightarrow> u8) \<Rightarrow> nat \<Rightarrow> u32" where "zs m a \<equiv> get32 m (a + 4)"

lemma link_put:
  assumes "spaced A" and "a \<in> A" and "b \<in> A"
  shows "nx (put32 m (a + 8) v) b = (if b = a then v else nx m b)"
    "pv (put32 m (a + 8) v) b = pv m b" "zs (put32 m (a + 8) v) b = zs m b"
    "nx (put32 m (a + 12) v) b = nx m b" "pv (put32 m (a + 12) v) b = (if b = a then v else pv m b)"
    "zs (put32 m (a + 12) v) b = zs m b"
proof -
  have s: "a + 16 \<le> b \<or> b + 16 \<le> a" if "b \<noteq> a" using assms that by (auto simp: spaced_def)
  show "nx (put32 m (a + 8) v) b = (if b = a then v else nx m b)"
    using s by (cases "b = a") (auto simp: get32_put32_same get32_put32_other)
  show "pv (put32 m (a + 12) v) b = (if b = a then v else pv m b)"
    using s by (cases "b = a") (auto simp: get32_put32_same get32_put32_other)
  show "pv (put32 m (a + 8) v) b = pv m b" "zs (put32 m (a + 8) v) b = zs m b"
    "nx (put32 m (a + 12) v) b = nx m b" "zs (put32 m (a + 12) v) b = zs m b"
    by (rule get32_put32_other; cases "b = a"; use s in auto)+
qed

subsection \<open>The lists of the bins\<close>

text \<open>\<open>lseg m p as q\<close>: the nodes from \<open>p\<close> to \<open>q\<close>; \<open>plinks\<close>: each node points back to the one before (the first need not).\<close>

primrec lseg :: "(nat \<Rightarrow> u8) \<Rightarrow> u32 \<Rightarrow> nat list \<Rightarrow> u32 \<Rightarrow> bool" where
  "lseg m p [] q \<longleftrightarrow> p = q"
| "lseg m p (x # xs) q \<longleftrightarrow> p = of_nat x \<and> lseg m (nx m x) xs q"

fun plinks :: "(nat \<Rightarrow> u8) \<Rightarrow> nat list \<Rightarrow> bool" where
  "plinks m (x # y # ys) \<longleftrightarrow> pv m y = of_nat x \<and> plinks m (y # ys)"
| "plinks m _ \<longleftrightarrow> True"

definition blist :: "(nat \<Rightarrow> u8) \<Rightarrow> u32 \<Rightarrow> nat list \<Rightarrow> bool" where
  "blist m p xs \<longleftrightarrow> lseg m p xs 0 \<and> plinks m xs"

lemma lseg_append: "lseg m p (xs @ ys) q \<longleftrightarrow> (\<exists>r. lseg m p xs r \<and> lseg m r ys q)"
  by (induction xs arbitrary: p) auto

lemma plinks_append:
  "plinks m (xs @ ys) \<longleftrightarrow> plinks m xs \<and> plinks m ys \<and> (xs \<noteq> [] \<and> ys \<noteq> [] \<longrightarrow> pv m (hd ys) = of_nat (last xs))"
proof (induction xs)
  case (Cons x xs)
  then show ?case by (cases xs; cases ys) auto
qed simp

lemma lseg_cong: "(\<And>x. x \<in> set xs \<Longrightarrow> nx m' x = nx m x) \<Longrightarrow> lseg m' p xs q = lseg m p xs q"
  by (induction xs arbitrary: p) auto

lemma plinks_cong: "(\<And>x. x \<in> set (tl xs) \<Longrightarrow> pv m' x = pv m x) \<Longrightarrow> plinks m' xs = plinks m xs"
  by (induction m xs rule: plinks.induct) auto

lemma lseg_keep: "lseg m p xs q \<Longrightarrow> (\<And>x. x \<in> set xs \<Longrightarrow> nx m' x = nx m x) \<Longrightarrow> lseg m' p xs q"
  using lseg_cong by blast

lemma plinks_keep: "plinks m xs \<Longrightarrow> (\<And>x. x \<in> set (tl xs) \<Longrightarrow> pv m' x = pv m x) \<Longrightarrow> plinks m' xs"
  using plinks_cong by blast

lemma set_tl: "x \<in> set (tl xs) \<Longrightarrow> x \<in> set xs"
  by (cases xs) auto

lemma lseg_snoc: "lseg m p (xs @ [z]) q \<longleftrightarrow> lseg m p xs (of_nat z) \<and> nx m z = q"
  by (auto simp: lseg_append)

lemma lseg_first: "lseg m p xs q \<Longrightarrow> p = (case xs of [] \<Rightarrow> q | x # _ \<Rightarrow> of_nat x)"
  by (cases xs) auto

text \<open>Only links of the nodes of \<open>B\<close> have changed.\<close>

definition links_of :: "nat set \<Rightarrow> (nat \<Rightarrow> u8) \<Rightarrow> (nat \<Rightarrow> u8) \<Rightarrow> bool" where
  "links_of B m m' \<longleftrightarrow> (\<forall>x. (\<forall>b \<in> B. x < b + 8 \<or> b + 16 \<le> x) \<longrightarrow> m' x = m x)"

lemma links_of_refl: "links_of B m m"
  by (simp add: links_of_def)

lemma links_of_put:
  "links_of B m m' \<Longrightarrow> b \<in> B \<Longrightarrow> links_of B m (put32 m' (b + 8) v)"
  "links_of B m m' \<Longrightarrow> b \<in> B \<Longrightarrow> links_of B m (put32 m' (b + 12) v)"
proof -
  assume m: "links_of B m m'" and b: "b \<in> B"
  have "put32 m' (b + 8) v x = m x \<and> put32 m' (b + 12) v x = m x" if "\<forall>b \<in> B. x < b + 8 \<or> b + 16 \<le> x" for x
  proof -
    have "x < b + 8 \<or> b + 16 \<le> x" using that b by blast
    then have "put32 m' (b + 8) v x = m' x" "put32 m' (b + 12) v x = m' x" by (auto intro!: put32_byte)
    then show ?thesis using m that by (simp add: links_of_def)
  qed
  then show "links_of B m (put32 m' (b + 8) v)" "links_of B m (put32 m' (b + 12) v)" by (simp_all add: links_of_def)
qed

lemma links_of_get32:
  assumes "links_of B m m'" and "\<And>b. b \<in> B \<Longrightarrow> a + 4 \<le> b + 8 \<or> b + 16 \<le> a"
  shows "get32 m' a = get32 m a"
proof (rule get32_cong)
  fix i :: nat assume "i < 4"
  then have "\<forall>b \<in> B. a + i < b + 8 \<or> b + 16 \<le> a + i" using assms(2) by force
  then show "m' (a + i) = m (a + i)" using assms(1) by (simp add: links_of_def)
qed

text \<open>The world after a change of a bin: the bytes, and the head of the bin.\<close>

definition relinked :: "nat set \<Rightarrow> nat \<Rightarrow> heap_world \<Rightarrow> heap_world \<Rightarrow> bool" where
  "relinked B k w w' \<longleftrightarrow>
     links_of B (hbytes w) (hbytes w') \<and>
     w' = w\<lparr>hbytes := hbytes w', heap := (heap w)\<lparr>bin_head := (bin_head (heap w))(k := bin_head (heap w') k)\<rparr>\<rparr>"

lemma add_node_loop_ok:
  assumes "\<And>x. x \<in> set xs \<Longrightarrow> heap_node_at w x" and "heap_node_at w n" and "lseg (hbytes w) cur xs 0" and "length xs < fuel"
  defines "P \<equiv> \<lambda>x. zs (hbytes w) x \<le> zs (hbytes w) n"
  shows "add_node_loop fuel w (of_nat n) cur prev =
    Inr (case dropWhile P xs of [] \<Rightarrow> 0 | y # _ \<Rightarrow> of_nat y,
         if takeWhile P xs = [] then prev else of_nat (last (takeWhile P xs)))"
  using assms(1,3,4)
proof (induction xs arbitrary: fuel cur prev)
  case Nil
  then obtain k where "fuel = Suc k" by (cases fuel) auto
  with Nil show ?case by simp
next
  case (Cons x xs)
  then obtain k where k: "fuel = Suc k" "length xs < k" by (cases fuel) auto
  have x: "heap_node_at w x" using Cons.prems(1) by simp
  show ?case
  proof (cases "P x")
    case True
    have "add_node_loop k w (of_nat n) (nx (hbytes w) x) (of_nat x) =
      Inr (case dropWhile P xs of [] \<Rightarrow> 0 | y # _ \<Rightarrow> of_nat y,
         if takeWhile P xs = [] then of_nat x else of_nat (last (takeWhile P xs)))"
      using Cons.prems k by (intro Cons.IH) auto
    with True show ?thesis
      using Cons.prems k x assms(2) field_unat(6) [OF x] by (simp add: P_def ld_field)
  next
    case False
    then show ?thesis
      using Cons.prems k x assms(2) field_unat(6) [OF x] by (simp add: P_def ld_field)
  qed
qed

text \<open>Adding a node puts it behind the nodes that are not larger.\<close>

lemma add_node_ok:
  assumes A: "spaced A" "\<And>a. a \<in> A \<Longrightarrow> heap_node_at w a" and n: "n \<in> A" "n \<notin> set xs" and xs: "set xs \<subseteq> A" "distinct xs"
    and l: "blist (hbytes w) (bin_head (heap w) k) xs" and fuel: "length xs < fuel"
  defines "P \<equiv> \<lambda>x. zs (hbytes w) x \<le> zs (hbytes w) n"
  shows "\<exists>w'. add_node fuel w k (of_nat n) = Inr w' \<and> relinked (insert n (set xs)) k w w' \<and>
    blist (hbytes w') (bin_head (heap w') k) (takeWhile P xs @ n # dropWhile P xs)"
proof -
  define w1 where "w1 = w\<lparr>hbytes := put32 (put32 (hbytes w) (n + 8) 0) (n + 12) 0\<rparr>"
  have nn: "heap_node_at w n" using A n by blast
  note lp = link_put [OF A(1)]
  have in_A: "\<And>x. x \<in> set xs \<Longrightarrow> x \<in> A" using xs(1) by blast
  have w1: "nx (hbytes w1) x = nx (hbytes w) x" "pv (hbytes w1) x = pv (hbytes w) x" "zs (hbytes w1) x = zs (hbytes w) x"
    if "x \<in> set xs" for x using that in_A n by (auto simp: w1_def lp)
  have zn: "zs (hbytes w1) n = zs (hbytes w) n" using n by (simp add: w1_def lp)
  have l1: "lseg (hbytes w1) (bin_head (heap w) k) xs 0" "plinks (hbytes w1) xs"
    using l w1 lseg_cong [of xs "hbytes w1" "hbytes w"] plinks_cong [of xs "hbytes w1" "hbytes w"]
    by (auto simp: blist_def dest: set_tl)
  have P1: "(\<lambda>x. zs (hbytes w1) x \<le> zs (hbytes w1) n) x = P x" if "x \<in> set xs" for x using w1(3) that zn by (simp add: P_def)
  have tw: "takeWhile (\<lambda>x. zs (hbytes w1) x \<le> zs (hbytes w1) n) xs = takeWhile P xs"
    "dropWhile (\<lambda>x. zs (hbytes w1) x \<le> zs (hbytes w1) n) xs = dropWhile P xs"
    using P1 by (auto intro: takeWhile_cong dropWhile_cong)
  have loop: "add_node_loop fuel w1 (of_nat n) (bin_head (heap w) k) 0 =
    Inr (case dropWhile P xs of [] \<Rightarrow> 0 | y # _ \<Rightarrow> of_nat y, if takeWhile P xs = [] then 0 else of_nat (last (takeWhile P xs)))"
    using add_node_loop_ok [of xs w1 n "bin_head (heap w) k" fuel 0] A in_A n fuel l1 tw by (auto simp: w1_def)
  obtain pre post where pp: "takeWhile P xs = pre" "dropWhile P xs = post" and xpp: "xs = pre @ post"
    by (metis takeWhile_dropWhile_id)
  have start: "add_node fuel w k (of_nat n) = (if bin_head (heap w) k = 0 then Inr (set_bin w1 k (of_nat n))
      else bindE (add_node_loop fuel w1 (of_nat n) (bin_head (heap w) k) 0) (\<lambda>(current, previous).
       if current = NULL
       then
         (if previous = NULL then Inl FatalPanic
          else bindE (st w1 (f_next previous) (of_nat n)) (\<lambda>w. st w (f_prev (of_nat n)) previous))
       else if previous \<noteq> NULL
       then
         bindE (st w1 (f_next (of_nat n)) current) (\<lambda>w.
         bindE (st w (f_next previous) (of_nat n)) (\<lambda>w.
         bindE (st w (f_prev (of_nat n)) previous) (\<lambda>w.
         st w (f_prev current) (of_nat n))))
       else
         bindE (st w1 (f_next (of_nat n)) (bin_head (heap w1) k)) (\<lambda>w.
         bindE (st w (f_prev (bin_head (heap w) k)) (of_nat n)) (\<lambda>w.
         Inr (set_bin w k (of_nat n))))))"
    using nn unfolding w1_def add_node_def by (simp add: st_field)
  have at: "heap_node_at w1 x" if "x \<in> A" for x using A that by (simp add: w1_def)
  have base: "links_of (insert n (set xs)) (hbytes w) (hbytes w1)"
    unfolding w1_def by (simp add: links_of_put links_of_refl)
  have h1: "heap w1 = heap w" "hmapped w1 = hmapped w" "hvm w1 = hvm w" by (simp_all add: w1_def)
  have n1: "nx (hbytes w1) n = 0" "pv (hbytes w1) n = 0" using n by (simp_all add: w1_def lp)
  show ?thesis
  proof (cases "post")
    case Nil
    show ?thesis
    proof (cases pre rule: rev_exhaust)
      case Nil
      then have "xs = []" using xpp \<open>post = []\<close> by simp
      then have "bin_head (heap w) k = 0" using l by (simp add: blist_def)
      then show ?thesis using start base n1 \<open>xs = []\<close>
        by (auto simp: relinked_def blist_def set_bin_def h1 w1_def)
    next
      case (snoc ps z)
      then have x: "xs = ps @ [z]" using xpp \<open>post = []\<close> by simp
      then have z: "z \<in> A" "z \<noteq> n" "z \<notin> set ps" "n \<notin> set ps" using xs n by auto
      have h0: "bin_head (heap w) k \<noteq> 0"
        using l1(1) lseg_first [OF l1(1)] x field_unat(6) [OF A(2) [OF in_A]] by (cases ps) auto
      let ?w = "w1\<lparr>hbytes := put32 (put32 (hbytes w1) (z + 8) (of_nat n)) (n + 12) (of_nat z)\<rparr>"
      have r: "add_node fuel w k (of_nat n) = Inr ?w"
        using start h0 loop pp snoc \<open>post = []\<close> field_unat(6) [OF at [OF z(1)]] at z(1) n(1) by (simp add: st_field)
      have "lseg (hbytes ?w) (bin_head (heap w) k) ps (of_nat z)"
      proof -
        have "lseg (hbytes ?w) (bin_head (heap w) k) ps (of_nat z) = lseg (hbytes w1) (bin_head (heap w) k) ps (of_nat z)"
          by (rule lseg_cong) (use x z in_A n in \<open>auto simp: lp\<close>)
        then show ?thesis using l1(1) x by (simp add: lseg_snoc)
      qed
      moreover have "plinks (hbytes ?w) xs"
        by (rule plinks_keep [OF l1(2)]) (use z in_A n in \<open>auto simp: lp dest!: set_tl\<close>)
      ultimately have "blist (hbytes ?w) (bin_head (heap w) k) (xs @ [n])"
        using x z n n1 by (auto simp: blist_def lseg_append plinks_append lp)
      moreover have "relinked (insert n (set xs)) k w ?w"
        using base x by (auto simp: relinked_def links_of_put h1 w1_def)
      ultimately show ?thesis using r pp snoc \<open>post = []\<close> x h1 by auto
    qed
  next
    case (Cons y ys)
    then have y: "y \<in> A" "y \<noteq> n" "y \<in> set xs" using xpp in_A n by auto
    have h0: "bin_head (heap w) k \<noteq> 0"
      using lseg_first [OF l1(1)] xpp Cons field_unat(6) [OF A(2) [OF in_A]] by (cases pre) auto
    show ?thesis
    proof (cases pre rule: rev_exhaust)
      case Nil
      then have x: "xs = y # ys" using xpp Cons by simp
      then have hd: "bin_head (heap w) k = of_nat y" using lseg_first [OF l1(1)] by simp
      let ?w = "w1\<lparr>hbytes := put32 (put32 (hbytes w1) (n + 8) (of_nat y)) (y + 12) (of_nat n)\<rparr>"
      have r: "add_node fuel w k (of_nat n) = Inr (set_bin ?w k (of_nat n))"
        using start h0 loop pp Nil Cons hd field_unat(6) [OF at [OF y(1)]] at y(1) n(1) h1 by (simp add: st_field)
      have "lseg (hbytes ?w) (of_nat y) xs 0"
        unfolding hd [symmetric] by (rule lseg_keep [OF l1(1)]) (use x y in_A n in \<open>auto simp: lp\<close>)
      moreover have "plinks (hbytes ?w) xs"
        by (rule plinks_keep [OF l1(2)]) (use x y in_A n xs(2) in \<open>auto simp: lp\<close>)
      ultimately have "blist (hbytes ?w) (of_nat n) (n # xs)"
        using x y n by (auto simp: blist_def lp)
      moreover have "relinked (insert n (set xs)) k w (set_bin ?w k (of_nat n))"
        using base y by (auto simp: relinked_def links_of_put h1 w1_def set_bin_def)
      ultimately show ?thesis using r pp Nil Cons x by (auto simp: set_bin_def)
    next
      case (snoc ps z)
      then have x: "xs = ps @ z # y # ys" using xpp Cons by simp
      then have z: "z \<in> A" "z \<noteq> n" "z \<noteq> y" "z \<notin> set ps" "n \<notin> set ps" "z \<in> set xs" "z \<notin> set ys" "y \<notin> set ps" "y \<notin> set ys" "n \<notin> set ys"
        using xs n by auto
      let ?w = "w1\<lparr>hbytes := put32 (put32 (put32 (put32 (hbytes w1) (n + 8) (of_nat y)) (z + 8) (of_nat n)) (n + 12) (of_nat z))
          (y + 12) (of_nat n)\<rparr>"
      have r: "add_node fuel w k (of_nat n) = Inr ?w"
        using start h0 loop pp snoc Cons field_unat(6) [OF at [OF y(1)]] field_unat(6) [OF at [OF z(1)]] at y(1) z(1) n(1)
        by (simp add: st_field)
      have l1': "lseg (hbytes w1) (bin_head (heap w) k) ps (of_nat z)" "lseg (hbytes w1) (of_nat y) (y # ys) 0"
        "plinks (hbytes w1) (ps @ [z])" "plinks (hbytes w1) (y # ys)"
        using l1 x plinks_append [of "hbytes w1" "ps @ [z]" "y # ys"] by (auto simp: lseg_append)
      have "lseg (hbytes ?w) (bin_head (heap w) k) ps (of_nat z)"
        by (rule lseg_keep [OF l1'(1)]) (use x z y in_A n in \<open>auto simp: lp\<close>)
      moreover have "lseg (hbytes ?w) (of_nat y) (y # ys) 0"
        by (rule lseg_keep [OF l1'(2)]) (use x z y in_A n in \<open>auto simp: lp\<close>)
      moreover have "plinks (hbytes ?w) (ps @ [z])"
        by (rule plinks_keep [OF l1'(3)]) (use x z y in_A n in \<open>auto simp: lp dest!: set_tl\<close>)
      moreover have "plinks (hbytes ?w) (y # ys)"
        by (rule plinks_keep [OF l1'(4)]) (use x z y in_A n in \<open>auto simp: lp\<close>)
      ultimately have "blist (hbytes ?w) (bin_head (heap w) k) ((ps @ [z]) @ n # y # ys)"
        using z y n unfolding blist_def lseg_append plinks_append [of _ "ps @ [z]"]
        by (auto simp: lp)
      moreover have "relinked (insert n (set xs)) k w ?w"
        using base y z by (auto simp: relinked_def links_of_put h1 w1_def)
      ultimately show ?thesis using r pp snoc Cons h1 by auto
    qed
  qed
qed

lemma remove_node_loop_ok:
  assumes A: "spaced A" "\<And>a. a \<in> A \<Longrightarrow> heap_node_at w a" and "set (p # xs @ n # ys) \<subseteq> A" and "distinct (p # xs @ n # ys)"
    and "lseg (hbytes w) (nx (hbytes w) p) (xs @ n # ys) 0" and "plinks (hbytes w) (p # xs @ n # ys)" and "length xs < fuel"
  shows "\<exists>w'. remove_node_loop fuel w (of_nat n) (nx (hbytes w) p) = Inr w' \<and>
    links_of (set (p # xs @ ys)) (hbytes w) (hbytes w') \<and> w' = w\<lparr>hbytes := hbytes w'\<rparr> \<and>
    lseg (hbytes w') (nx (hbytes w') p) (xs @ ys) 0 \<and> plinks (hbytes w') (p # xs @ ys) \<and> pv (hbytes w') p = pv (hbytes w) p"
  using assms(3-)
proof (induction xs arbitrary: p fuel)
  case Nil
  then obtain j where j: "fuel = Suc j" by (cases fuel) auto
  note lp = link_put [OF A(1)]
  have at: "heap_node_at w p" "heap_node_at w n" using Nil.prems A by auto
  have f: "nx (hbytes w) p = of_nat n" "pv (hbytes w) n = of_nat p" "(of_nat n :: u32) \<noteq> 0" "of_nat p \<noteq> (0::u32)"
    using Nil.prems field_unat(6) [OF at(1)] field_unat(6) [OF at(2)] by auto
  show ?case
  proof (cases ys)
    case Nil2: Nil
    then have z: "nx (hbytes w) n = 0" using Nil.prems by simp
    let ?w = "w\<lparr>hbytes := put32 (hbytes w) (p + 8) 0\<rparr>"
    have "remove_node_loop fuel w (of_nat n) (nx (hbytes w) p) = Inr ?w"
      using j f z at by (simp add: ld_field st_field)
    moreover have "nx (hbytes ?w) p = 0" using Nil.prems by (simp add: lp)
    moreover have "pv (hbytes ?w) p = pv (hbytes w) p" using Nil.prems by (simp add: lp)
    ultimately show ?thesis using Nil2 by (auto intro!: links_of_put links_of_refl)
  next
    case (Cons y zs)
    then have y: "heap_node_at w y" "y \<in> A" "y \<noteq> n" "y \<noteq> p" "n \<in> A" "p \<in> A" "n \<noteq> p" using Nil.prems A by auto
    have z: "nx (hbytes w) n = of_nat y" "(of_nat y :: u32) \<noteq> 0" using Nil.prems Cons field_unat(6) [OF y(1)] by auto
    let ?m = "put32 (put32 (hbytes w) (p + 8) (of_nat y)) (y + 12) (of_nat p)"
    let ?w = "w\<lparr>hbytes := ?m\<rparr>"
    have "remove_node_loop fuel w (of_nat n) (nx (hbytes w) p) = Inr ?w"
      using j f z at y by (simp add: ld_field st_field lp)
    moreover have "lseg ?m (nx ?m p) ys 0"
    proof -
      have "lseg ?m (of_nat y) ys 0 = lseg (hbytes w) (of_nat y) ys 0"
        by (rule lseg_cong) (use Nil.prems Cons y in \<open>auto simp: lp\<close>)
      then show ?thesis using Nil.prems z y Cons by (simp add: lp)
    qed
    moreover have "plinks ?m (p # ys)"
    proof -
      have "plinks ?m ys = plinks (hbytes w) ys"
        by (rule plinks_cong) (use Nil.prems Cons y in \<open>auto simp: lp\<close>)
      then show ?thesis using Nil.prems y Cons by (simp add: lp)
    qed
    moreover have "links_of (set (p # [] @ ys)) (hbytes w) ?m"
      using Cons by (auto intro!: links_of_put links_of_refl)
    moreover have "pv ?m p = pv (hbytes w) p" using y by (simp add: lp)
    ultimately show ?thesis by auto
  qed
next
  case (Cons x xs)
  then obtain j where j: "fuel = Suc j" "length xs < j" by (cases fuel) auto
  have x: "heap_node_at w x" "nx (hbytes w) p = of_nat x" "x \<noteq> n" using Cons.prems A by auto
  have xn: "(of_nat x :: u32) \<noteq> of_nat n" "(of_nat x :: u32) \<noteq> 0"
    using field_unat(1,6) [OF x(1)] field_unat(1) [of w n] Cons.prems A x by (auto dest: arg_cong [of _ _ unat])
  from Cons.IH [of x j] Cons.prems j obtain w' where
    w': "remove_node_loop j w (of_nat n) (nx (hbytes w) x) = Inr w'" "links_of (set (x # xs @ ys)) (hbytes w) (hbytes w')"
    "w' = w\<lparr>hbytes := hbytes w'\<rparr>" "lseg (hbytes w') (nx (hbytes w') x) (xs @ ys) 0" "plinks (hbytes w') (x # xs @ ys)"
    "pv (hbytes w') x = pv (hbytes w) x" by auto
  have sep: "p + 16 \<le> b \<or> b + 16 \<le> p" if "b \<in> set (x # xs @ ys)" for b
  proof -
    have "p \<in> A" "b \<in> A" "p \<noteq> b" using Cons.prems(1,2) that by auto
    then show ?thesis using A(1) by (auto simp: spaced_def)
  qed
  have "nx (hbytes w') p = nx (hbytes w) p" "pv (hbytes w') p = pv (hbytes w) p"
    by (rule links_of_get32 [OF w'(2)]; use sep in force)+
  moreover have "remove_node_loop fuel w (of_nat n) (nx (hbytes w) p) = Inr w'"
    using w'(1) x xn j by (simp add: ld_field)
  moreover have "links_of (set (p # (x # xs) @ ys)) (hbytes w) (hbytes w')"
    using w'(2) by (auto simp: links_of_def)
  moreover have "pv (hbytes w') x = of_nat p" using w'(6) Cons.prems by simp
  ultimately show ?case using w' x by auto
qed

text \<open>Removing a node takes it out of the list of its bin.\<close>

lemma remove_node_ok:
  assumes A: "spaced A" "\<And>a. a \<in> A \<Longrightarrow> heap_node_at w a" and xs: "set (xs @ n # ys) \<subseteq> A" "distinct (xs @ n # ys)"
    and l: "blist (hbytes w) (bin_head (heap w) k) (xs @ n # ys)" and fuel: "length (xs @ n # ys) < fuel"
  shows "\<exists>w'. remove_node fuel w k (of_nat n) = Inr w' \<and> relinked (set (xs @ ys)) k w w' \<and>
    blist (hbytes w') (bin_head (heap w') k) (xs @ ys)"
proof (cases xs)
  case Nil
  have at: "heap_node_at w n" using A xs by auto
  have hd: "bin_head (heap w) k = of_nat n" using l Nil by (simp add: blist_def)
  have "remove_node fuel w k (of_nat n) = Inr (set_bin w k (nx (hbytes w) n))"
    using hd field_unat(6) [OF at] at by (simp add: remove_node_def ld_field)
  moreover have "blist (hbytes w) (nx (hbytes w) n) ys"
    using l Nil by (cases ys) (auto simp: blist_def)
  ultimately show ?thesis using Nil by (auto simp: relinked_def set_bin_def links_of_refl)
next
  case (Cons p zs)
  have at: "heap_node_at w p" "heap_node_at w n" using A xs Cons by auto
  have hd: "bin_head (heap w) k = of_nat p" "lseg (hbytes w) (nx (hbytes w) p) (zs @ n # ys) 0" "plinks (hbytes w) (p # zs @ n # ys)"
    using l Cons by (auto simp: blist_def)
  have ne: "(of_nat p :: u32) \<noteq> of_nat n"
    using field_unat(1) [OF at(1)] field_unat(1) [OF at(2)] xs(2) Cons by (auto dest: arg_cong [of _ _ unat])
  have "\<exists>w'. remove_node_loop fuel w (of_nat n) (nx (hbytes w) p) = Inr w' \<and>
    links_of (set (p # zs @ ys)) (hbytes w) (hbytes w') \<and> w' = w\<lparr>hbytes := hbytes w'\<rparr> \<and>
    lseg (hbytes w') (nx (hbytes w') p) (zs @ ys) 0 \<and> plinks (hbytes w') (p # zs @ ys) \<and> pv (hbytes w') p = pv (hbytes w) p"
    using xs Cons fuel by (intro remove_node_loop_ok [OF A] hd(2,3)) auto
  then obtain w' where w': "remove_node_loop fuel w (of_nat n) (nx (hbytes w) p) = Inr w'"
    "links_of (set (p # zs @ ys)) (hbytes w) (hbytes w')" "w' = w\<lparr>hbytes := hbytes w'\<rparr>"
    "lseg (hbytes w') (nx (hbytes w') p) (zs @ ys) 0" "plinks (hbytes w') (p # zs @ ys)" by blast
  have "remove_node fuel w k (of_nat n) = Inr w'"
    using hd(1) field_unat(6) [OF at(1)] at ne w'(1) by (simp add: remove_node_def ld_field)
  moreover have h: "heap w' = heap w" using w'(3) by (metis heap_world.select_convs(2) heap_world.surjective heap_world.update_convs(3))
  moreover have "relinked (set (xs @ ys)) k w w'"
    using w'(2,3) Cons h by (cases w; cases w') (auto simp: relinked_def)
  ultimately show ?thesis using w' hd Cons by (auto simp: blist_def)
qed

lemma best_fit_loop_ok:
  assumes "\<And>x. x \<in> set xs \<Longrightarrow> heap_node_at w x" and "lseg (hbytes w) p xs 0" and "length xs < fuel"
  shows "best_fit_loop fuel w n p =
    Inr (case find (\<lambda>x. n \<le> zs (hbytes w) x) xs of None \<Rightarrow> 0 | Some x \<Rightarrow> of_nat x)"
  using assms
proof (induction xs arbitrary: p fuel)
  case Nil
  then obtain k where "fuel = Suc k" by (cases fuel) auto
  with Nil show ?case by simp
next
  case (Cons x xs)
  then obtain k where k: "fuel = Suc k" "length xs < k" by (cases fuel) auto
  have x: "heap_node_at w x" "p = of_nat x" using Cons.prems by auto
  show ?case using Cons.IH [of "nx (hbytes w) x" k] Cons.prems k x field_unat(6) [OF x(1)] by (simp add: ld_field)
qed

subsection \<open>The bin of a size\<close>

lemma bit_index_bounds:
  "n \<noteq> 0 \<Longrightarrow> \<exists>k. bit_index n i = i + k \<and> 2 ^ k \<le> unat n \<and> unat n < 2 ^ Suc k"
proof (induction n i rule: bit_index.induct)
  case (1 n i)
  show ?case
  proof (cases "drop_bit 1 n = 0")
    case True
    then have "unat n div 2 = 0" by (metis power_one_right unat_drop_bit unsigned_0)
    moreover have "0 < unat n" using 1 by (simp add: unat_gt_0)
    ultimately have "unat n = 1" by linarith
    then show ?thesis using True by (subst bit_index.simps) simp
  next
    case False
    from "1.IH" [OF refl False False] obtain k where k: "bit_index (drop_bit 1 n) (Suc i) = Suc i + k"
      "2 ^ k \<le> unat n div 2" "unat n div 2 < 2 ^ Suc k" by (auto simp: unat_drop_bit)
    then have "2 ^ Suc k \<le> unat n" "unat n < 2 ^ Suc (Suc k)" by auto
    with k False show ?thesis by (subst bit_index.simps) (auto simp: Let_def)
  qed
qed

text \<open>Bin \<open>k\<close> holds the sizes with \<open>k + 2\<close> as their logarithm.\<close>

lemma get_bin_index_bounds:
  "get_bin_index n \<le> 8 \<and> 2 ^ (get_bin_index n + 2) \<le> max 4 (unat n) \<and>
   (get_bin_index n < 8 \<longrightarrow> max 4 (unat n) < 2 ^ (get_bin_index n + 3))"
proof -
  define v where "v = (if n < 4 then 4 else n)"
  have v: "unat v = max 4 (unat n)" by (auto simp: v_def u32_less_unat)
  then have "v \<noteq> 0" by auto
  from bit_index_bounds [OF this, of 0] obtain k where k: "bit_index v 0 = k" "2 ^ k \<le> unat v" "unat v < 2 ^ Suc k" by auto
  have "2 \<le> k"
  proof (rule ccontr)
    assume "\<not> 2 \<le> k"
    then have "(2::nat) ^ Suc k \<le> 2 ^ 2" by (intro power_increasing) auto
    with k(3) v show False by simp
  qed
  then obtain j where j: "k = j + 2" by (metis add.commute le_Suc_ex)
  have idx: "get_bin_index n = min j 8"
    using k(1) j by (auto simp: get_bin_index_def v_def BIN_MAX_IDX_def BIN_COUNT_def Let_def)
  have "(2::nat) ^ (min j 8 + 2) \<le> 2 ^ k" using j by (intro power_increasing) auto
  with k v j show ?thesis by (auto simp: idx eval_nat_numeral)
qed

lemma get_bin_index_mono:
  assumes "m \<le> n" shows "get_bin_index m \<le> get_bin_index n"
proof (rule ccontr)
  assume c: "\<not> get_bin_index m \<le> get_bin_index n"
  note m = get_bin_index_bounds [of m] and n = get_bin_index_bounds [of n]
  have "get_bin_index n < 8" using c m by linarith
  then have "max 4 (unat n) < 2 ^ (get_bin_index n + 3)" using n by blast
  also have "\<dots> \<le> (2::nat) ^ (get_bin_index m + 2)" using c by (intro power_increasing) auto
  also have "\<dots> \<le> max 4 (unat m)" using m by blast
  finally show False using assms by (auto simp: u32_le_unat)
qed

subsection \<open>The row of chunks\<close>

type_synonym chunk = "nat \<times> nat \<times> bool"

fun tiled :: "nat \<Rightarrow> chunk list \<Rightarrow> nat \<Rightarrow> bool" where
  "tiled x [] e \<longleftrightarrow> x = e"
| "tiled x ((a, n, h) # cs) e \<longleftrightarrow> a = x \<and> tiled (x + 20 + n) cs e"

abbreviation addrs :: "chunk list \<Rightarrow> nat set" where "addrs cs \<equiv> fst ` set cs"

lemma tiled_append: "tiled x (cs @ ds) e \<longleftrightarrow> (\<exists>y. tiled x cs y \<and> tiled y ds e)"
  by (induction x cs e rule: tiled.induct) auto

lemma tiled_le: "tiled x cs e \<Longrightarrow> x \<le> e"
  by (induction x cs e rule: tiled.induct) auto

lemma tiled_bounds: "tiled x cs e \<Longrightarrow> (a, n, h) \<in> set cs \<Longrightarrow> x \<le> a \<and> a + 20 + n \<le> e"
proof (induction x cs e rule: tiled.induct)
  case (2 x b m i cs e)
  then show ?case using tiled_le [of "x + 20 + m" cs e] by auto
qed simp

text \<open>Two chunks of a row are the same or do not overlap.\<close>

lemma tiled_disjoint:
  "tiled x cs e \<Longrightarrow> (a, n, h) \<in> set cs \<Longrightarrow> (b, m, i) \<in> set cs \<Longrightarrow>
   (a, n, h) = (b, m, i) \<or> a + 20 + n \<le> b \<or> b + 20 + m \<le> a"
proof (induction x cs e rule: tiled.induct)
  case (2 x c l j cs e)
  then show ?case using tiled_bounds [of "x + 20 + l" cs e a n h] tiled_bounds [of "x + 20 + l" cs e b m i] by auto
qed simp

lemma tiled_unique: "tiled x cs e \<Longrightarrow> (a, n, h) \<in> set cs \<Longrightarrow> (a, m, i) \<in> set cs \<Longrightarrow> n = m \<and> h = i"
  using tiled_disjoint [of x cs e a n h a m i] by auto

lemma tiled_spaced: "tiled x cs e \<Longrightarrow> spaced (addrs cs)"
  unfolding spaced_def by (fastforce dest: tiled_disjoint)

end
