(* ===== verification/Heap_Correct.thy ===== *)
theory Heap_Correct
  imports Heap_Allocator
begin

section \<open>Correctness of the kernel heap\<close>

text \<open>
  The invariant of the heap of \<open>Heap_Allocator\<close>, that allocation and freeing keep it, and what they do to the
  row of chunks: an allocation takes the smallest hole that is large enough and splits off the
  rest, a free joins the chunk with the holes beside it. The bytes of the chunks in use are not touched.
\<close>

subsection \<open>The invariant\<close>

text \<open>A chunk is as its node and footer say; a bin lists the holes of its sizes, in order of size.\<close>

definition chunk_ok :: "(nat \<Rightarrow> u8) \<Rightarrow> chunk \<Rightarrow> bool" where
  "chunk_ok m c = (case c of (a, n, h) \<Rightarrow>
     get32 m a = (if h then 1 else 0) \<and> get32 m (a + 4) = of_nat n \<and> get32 m (a + 16 + n) = of_nat a)"

definition row_ok :: "heap_world \<Rightarrow> chunk list \<Rightarrow> bool" where
  "row_ok w cs \<longleftrightarrow>
     16 \<le> unat (h_start (heap w)) \<and> cs \<noteq> [] \<and> tiled (unat (h_start (heap w))) cs (unat (h_end (heap w))) \<and>
     (\<forall>x. unat (h_start (heap w)) \<le> x \<and> x < unat (h_end (heap w)) \<longrightarrow> hmapped w x)"

definition holes :: "chunk list \<Rightarrow> nat \<Rightarrow> nat set" where
  "holes cs k = {a. \<exists>n. (a, n, True) \<in> set cs \<and> get_bin_index (of_nat n) = k}"

definition bin_ok :: "heap_world \<Rightarrow> nat set \<Rightarrow> nat \<Rightarrow> nat list \<Rightarrow> bool" where
  "bin_ok w H k xs \<longleftrightarrow>
     distinct xs \<and> set xs = H \<and> sorted (map (\<lambda>a. unat (zs (hbytes w) a)) xs) \<and> blist (hbytes w) (bin_head (heap w) k) xs"

definition heap_inv :: "heap_world \<Rightarrow> chunk list \<Rightarrow> (nat \<Rightarrow> nat list) \<Rightarrow> bool" where
  "heap_inv w cs L \<longleftrightarrow> row_ok w cs \<and> (\<forall>c \<in> set cs. chunk_ok (hbytes w) c) \<and> (\<forall>k \<le> 8. bin_ok w (holes cs k) k (L k))"

text \<open>The bytes of the chunks in use: from the user's pointer to the footer.\<close>

definition user_same :: "chunk list \<Rightarrow> (nat \<Rightarrow> u8) \<Rightarrow> (nat \<Rightarrow> u8) \<Rightarrow> bool" where
  "user_same cs m m' \<longleftrightarrow> (\<forall>a n. (a, n, False) \<in> set cs \<longrightarrow> (\<forall>x. a + 8 \<le> x \<and> x < a + 16 + n \<longrightarrow> m' x = m x))"

lemma user_same_trans: "user_same cs m m' \<Longrightarrow> user_same cs m' m'' \<Longrightarrow> user_same cs m m''"
  by (auto simp: user_same_def)

lemma user_same_refl: "user_same cs m m"
  by (simp add: user_same_def)

lemma user_same_put:
  assumes "\<And>a n. (a, n, False) \<in> set cs \<Longrightarrow> p + 4 \<le> a + 8 \<or> a + 16 + n \<le> p"
  shows "user_same cs m (put32 m p v)"
  unfolding user_same_def
proof (intro allI impI)
  fix a n x assume "(a, n, False) \<in> set cs" and "a + 8 \<le> x \<and> x < a + 16 + n"
  with assms [of a n] show "put32 m p v x = m x" by (intro put32_byte) auto
qed

lemma user_same_links:
  assumes "tiled x cs e" and "links_of B m m'" and "\<And>b. b \<in> B \<Longrightarrow> \<exists>n. (b, n, True) \<in> set cs"
  shows "user_same cs m m'"
proof -
  have "\<forall>b \<in> B. y < b + 8 \<or> b + 16 \<le> y" if "(a, n, False) \<in> set cs" "a + 8 \<le> y" "y < a + 16 + n" for a n y
  proof
    fix b assume "b \<in> B"
    then obtain l where "(b, l, True) \<in> set cs" using assms(3) by blast
    from tiled_disjoint [OF assms(1) that(1) this] that show "y < b + 8 \<or> b + 16 \<le> y" by auto
  qed
  then show ?thesis using assms(2) by (auto simp: user_same_def links_of_def)
qed

lemma row_nodes:
  assumes "row_ok w cs" and "a \<in> addrs cs"
  shows "heap_node_at w a"
proof -
  from assms(2) obtain n h where c: "(a, n, h) \<in> set cs" by force
  have t: "tiled (unat (h_start (heap w))) cs (unat (h_end (heap w)))" using assms(1) by (simp add: row_ok_def)
  from tiled_bounds [OF t c] u32_unat_lt [of "h_end (heap w)"] assms(1) show ?thesis by (auto simp: heap_node_at_def row_ok_def)
qed

text \<open>Changes of links keep the chunks.\<close>

lemma chunk_links:
  assumes "tiled x cs e" and "links_of B m m'" and "B \<subseteq> addrs cs" and "c \<in> set cs" and "chunk_ok m c"
  shows "chunk_ok m' c"
proof -
  obtain a n h where c: "c = (a, n, h)" by (cases c)
  have "b = a \<or> a + 20 + n \<le> b \<or> b + 20 \<le> a" if "b \<in> B" for b
  proof -
    from that assms(3) obtain l i where "(b, l, i) \<in> set cs" by force
    from tiled_disjoint [OF assms(1) _ this] assms(4) c show ?thesis by fastforce
  qed
  then have "get32 m' a = get32 m a" "get32 m' (a + 4) = get32 m (a + 4)" "get32 m' (a + 16 + n) = get32 m (a + 16 + n)"
    by (intro links_of_get32 [OF assms(2)]; fastforce)+
  then show ?thesis using assms(5) by (simp add: chunk_ok_def c)
qed

lemma links_size:
  assumes "spaced A" and "links_of B m m'" and "B \<subseteq> A" and "a \<in> A"
  shows "zs m' a = zs m a" "get32 m' a = get32 m a" "a \<notin> B \<Longrightarrow> nx m' a = nx m a" "a \<notin> B \<Longrightarrow> pv m' a = pv m a"
proof -
  have "b = a \<or> a + 16 \<le> b \<or> b + 16 \<le> a" if "b \<in> B" for b using that assms by (auto simp: spaced_def)
  then show "zs m' a = zs m a" "get32 m' a = get32 m a" "a \<notin> B \<Longrightarrow> nx m' a = nx m a" "a \<notin> B \<Longrightarrow> pv m' a = pv m a"
    by (intro links_of_get32 [OF assms(2)]; fastforce)+
qed

lemma blist_keep:
  assumes "blist m p xs" and "\<And>x. x \<in> set xs \<Longrightarrow> nx m' x = nx m x \<and> pv m' x = pv m x"
  shows "blist m' p xs"
  using assms lseg_keep [of m p xs 0 m'] plinks_keep [of m xs m'] by (auto simp: blist_def dest: set_tl)

text \<open>A bin whose nodes keep their links and sizes is kept.\<close>

lemma bin_keep:
  assumes "bin_ok w H k xs" and "bin_head (heap w') k = bin_head (heap w) k"
    and "\<And>x. x \<in> H \<Longrightarrow> nx (hbytes w') x = nx (hbytes w) x \<and> pv (hbytes w') x = pv (hbytes w) x \<and> zs (hbytes w') x = zs (hbytes w) x"
  shows "bin_ok w' H k xs"
proof -
  have "map (\<lambda>a. unat (zs (hbytes w') a)) xs = map (\<lambda>a. unat (zs (hbytes w) a)) xs"
    using assms(1,3) by (auto simp: bin_ok_def)
  then have "sorted (map (\<lambda>a. unat (zs (hbytes w') a)) xs)" using assms(1) by (simp only: bin_ok_def)
  moreover have "blist (hbytes w') (bin_head (heap w') k) xs"
    using assms blist_keep [of "hbytes w" "bin_head (heap w) k" xs "hbytes w'"] by (simp add: bin_ok_def)
  ultimately show ?thesis using assms(1) by (simp add: bin_ok_def)
qed

text \<open>Adding a node to its bin and removing one, with the order of the sizes.\<close>

lemma sorted_mid:
  fixes f :: "'a \<Rightarrow> nat"
  assumes "sorted (map f ts)" and "sorted (map f ds)" and "\<And>x. x \<in> set ts \<Longrightarrow> f x \<le> f n" and "\<And>y. y \<in> set ds \<Longrightarrow> f n \<le> f y"
  shows "sorted (map f (ts @ n # ds))"
  using assms by (auto simp: sorted_append intro: order_trans)

lemma sorted_insert:
  fixes f :: "'a \<Rightarrow> nat"
  assumes "sorted (map f xs)"
  shows "sorted (map f (takeWhile (\<lambda>x. f x \<le> f n) xs @ n # dropWhile (\<lambda>x. f x \<le> f n) xs))"
proof -
  have "sorted (map f (takeWhile (\<lambda>x. f x \<le> f n) xs @ dropWhile (\<lambda>x. f x \<le> f n) xs))" using assms by simp
  then have s: "sorted (map f (takeWhile (\<lambda>x. f x \<le> f n) xs))" "sorted (map f (dropWhile (\<lambda>x. f x \<le> f n) xs))"
    "\<forall>x \<in> set (takeWhile (\<lambda>x. f x \<le> f n) xs). \<forall>y \<in> set (dropWhile (\<lambda>x. f x \<le> f n) xs). f x \<le> f y"
    unfolding map_append sorted_append by auto
  have "f n \<le> f y" if "y \<in> set (dropWhile (\<lambda>x. f x \<le> f n) xs)" for y
  proof (cases "dropWhile (\<lambda>x. f x \<le> f n) xs")
    case (Cons z zs)
    then have "f n < f z" by (metis dropWhile_eq_Cons_conv not_le_imp_less)
    moreover have "f z \<le> f y" using s(2) that Cons by auto
    ultimately show ?thesis by simp
  next
    case Nil
    then show ?thesis using that unfolding Nil by simp
  qed
  moreover have "f x \<le> f n" if "x \<in> set (takeWhile (\<lambda>x. f x \<le> f n) xs)" for x using that set_takeWhileD by fastforce
  ultimately show ?thesis by (intro sorted_mid s(1,2))
qed

lemma bin_add:
  assumes A: "spaced A" "\<And>a. a \<in> A \<Longrightarrow> heap_node_at w a" and n: "n \<in> A" "n \<notin> H" and H: "H \<subseteq> A" "card H < fuel"
    and b: "bin_ok w H k xs"
  shows "\<exists>w' ys. add_node fuel w k (of_nat n) = Inr w' \<and> relinked (insert n H) k w w' \<and> bin_ok w' (insert n H) k ys"
proof -
  have x: "set xs = H" "distinct xs" "blist (hbytes w) (bin_head (heap w) k) xs" using b by (auto simp: bin_ok_def)
  then have len: "length xs < fuel" using H(2) distinct_card by fastforce
  let ?P = "\<lambda>x. zs (hbytes w) x \<le> zs (hbytes w) n"
  from add_node_ok [OF A n(1) _ _ x(2,3) len] x n H obtain w' where
    w': "add_node fuel w k (of_nat n) = Inr w'" "relinked (insert n H) k w w'"
      "blist (hbytes w') (bin_head (heap w') k) (takeWhile ?P xs @ n # dropWhile ?P xs)" by auto
  let ?ys = "takeWhile ?P xs @ n # dropWhile ?P xs"
  have lk: "links_of (insert n H) (hbytes w) (hbytes w')" using w'(2) by (simp add: relinked_def)
  have sz: "zs (hbytes w') a = zs (hbytes w) a" if "a \<in> insert n H" for a
    using links_size(1) [OF A(1) lk] n H that by auto
  have set: "set ?ys = insert n H" using x(1) by (metis Un_insert_right list.simps(15) set_append takeWhile_dropWhile_id)
  have "distinct (takeWhile ?P xs @ dropWhile ?P xs)" using x by simp
  moreover have "n \<notin> set (takeWhile ?P xs)" "n \<notin> set (dropWhile ?P xs)"
    using x n by (auto dest: set_takeWhileD set_dropWhileD)
  ultimately have d: "distinct ?ys" by (simp only: distinct_append distinct.simps) auto
  have "sorted (map (\<lambda>a. unat (zs (hbytes w) a)) ?ys)"
    using sorted_insert [of "\<lambda>a. unat (zs (hbytes w) a)" xs n] b by (simp add: bin_ok_def u32_le_unat)
  moreover have "map (\<lambda>a. unat (zs (hbytes w') a)) ?ys = map (\<lambda>a. unat (zs (hbytes w) a)) ?ys"
    using sz set by (intro map_cong refl) auto
  ultimately have "sorted (map (\<lambda>a. unat (zs (hbytes w') a)) ?ys)" by (simp only:)
  with set d w'(3) have "bin_ok w' (insert n H) k ?ys" unfolding bin_ok_def by blast
  with w'(1,2) show ?thesis by blast
qed

lemma bin_remove:
  assumes A: "spaced A" "\<And>a. a \<in> A \<Longrightarrow> heap_node_at w a" and H: "H \<subseteq> A" "n \<in> H" "card H < fuel"
    and xs: "distinct xs" "set xs = H" "blist (hbytes w) (bin_head (heap w) k) xs"
    and s: "sorted (map (\<lambda>a. unat (zs (hbytes w) a)) (filter (\<lambda>a. a \<noteq> n) xs))"
  shows "\<exists>w' ys. remove_node fuel w k (of_nat n) = Inr w' \<and> relinked (H - {n}) k w w' \<and> bin_ok w' (H - {n}) k ys"
proof -
  from H(2) xs(2) obtain ps qs where split: "xs = ps @ n # qs" by (metis in_set_conv_decomp)
  have len: "length xs < fuel" using xs H(3) distinct_card by fastforce
  have rest: "filter (\<lambda>a. a \<noteq> n) xs = ps @ qs" "set (ps @ qs) = H - {n}" "distinct (ps @ qs)"
  proof -
    have "filter (\<lambda>a. a \<noteq> n) ps = ps" "filter (\<lambda>a. a \<noteq> n) qs = qs" using xs split by (auto intro!: filter_True)
    then show "filter (\<lambda>a. a \<noteq> n) xs = ps @ qs" using split by simp
    show "set (ps @ qs) = H - {n}" "distinct (ps @ qs)" using xs split by auto
  qed
  from remove_node_ok [OF A, of ps n qs k fuel] xs split H len obtain w' where
    w': "remove_node fuel w k (of_nat n) = Inr w'" "relinked (set (ps @ qs)) k w w'"
      "blist (hbytes w') (bin_head (heap w') k) (ps @ qs)" by auto
  have lk: "links_of (set (ps @ qs)) (hbytes w) (hbytes w')" using w'(2) by (simp add: relinked_def)
  have "map (\<lambda>a. unat (zs (hbytes w') a)) (ps @ qs) = map (\<lambda>a. unat (zs (hbytes w) a)) (ps @ qs)"
  proof -
    have sub: "set (ps @ qs) \<subseteq> A" using rest(2) H(1) by blast
    have "zs (hbytes w') x = zs (hbytes w) x" if "x \<in> set (ps @ qs)" for x
      using links_size(1) [OF A(1) lk sub] that sub by blast
    then show ?thesis by simp
  qed
  then have "sorted (map (\<lambda>a. unat (zs (hbytes w') a)) (ps @ qs))" using s rest(1) by (simp only:)
  then have "bin_ok w' (H - {n}) k (ps @ qs)" unfolding bin_ok_def by (intro conjI rest(2,3) w'(3))
  moreover have "relinked (H - {n}) k w w'" using w'(2) unfolding rest(2) .
  ultimately show ?thesis using w'(1) by blast
qed

text \<open>The search: the smallest hole that is large enough, or none.\<close>

definition best_hole :: "chunk list \<Rightarrow> nat \<Rightarrow> nat \<Rightarrow> nat \<Rightarrow> bool" where
  "best_hole cs r a n \<longleftrightarrow>
     (a, n, True) \<in> set cs \<and> r \<le> n \<and> (\<forall>b l. (b, l, True) \<in> set cs \<and> r \<le> l \<longrightarrow> n \<le> l)"

lemma heap_inv_size:
  assumes "heap_inv w cs L" and "(a, n, h) \<in> set cs"
  shows "zs (hbytes w) a = of_nat n" "unat (of_nat n :: u32) = n" "a + 20 + n < 4294967296"
proof -
  have "tiled (unat (h_start (heap w))) cs (unat (h_end (heap w)))" using assms(1) by (simp add: heap_inv_def row_ok_def)
  from tiled_bounds [OF this assms(2)] show "a + 20 + n < 4294967296" using u32_unat_lt [of "h_end (heap w)"] by simp
  then show "unat (of_nat n :: u32) = n" by (intro unat_of_nat_u32) simp
  show "zs (hbytes w) a = of_nat n" using assms by (auto simp: heap_inv_def chunk_ok_def)
qed

lemma holes_addrs: "holes cs k \<subseteq> addrs cs"
  by (force simp: holes_def)

lemma card_holes: "card (holes cs k) \<le> length cs"
  by (rule le_trans [OF card_mono [OF _ holes_addrs] le_trans [OF card_image_le card_length]]) auto

lemma search_bin:
  assumes inv: "heap_inv w cs L" and k: "k \<le> 8" and fuel: "length cs < fuel"
  shows "get_best_fit fuel w k r =
    Inr (case find (\<lambda>x. r \<le> zs (hbytes w) x) (L k) of None \<Rightarrow> 0 | Some x \<Rightarrow> of_nat x)"
proof -
  have b: "distinct (L k)" "set (L k) = holes cs k" "blist (hbytes w) (bin_head (heap w) k) (L k)"
    using inv k by (auto simp: heap_inv_def bin_ok_def)
  have "length (L k) < fuel" using b card_holes [of cs k] fuel distinct_card by (metis le_less_trans)
  moreover have "heap_node_at w x" if "x \<in> set (L k)" for x
  proof -
    have "x \<in> addrs cs" using that b(2) holes_addrs [of cs k] by auto
    then show ?thesis using row_nodes inv by (auto simp: heap_inv_def)
  qed
  ultimately show ?thesis
    using b(3) unfolding get_best_fit_def by (intro best_fit_loop_ok) (auto simp: blist_def)
qed

lemma find_sorted_least:
  fixes f :: "'a \<Rightarrow> nat"
  assumes "sorted (map f xs)" and "find (\<lambda>x. r \<le> f x) xs = Some a" and "b \<in> set xs" and "r \<le> f b"
  shows "f a \<le> f b"
  using assms by (induction xs) (auto split: if_splits)

lemma search_bin_found:
  assumes inv: "heap_inv w cs L" and k: "k \<le> 8" and fuel: "length cs < fuel"
    and low: "\<forall>b l. (b, l, True) \<in> set cs \<and> unat r \<le> l \<longrightarrow> k \<le> get_bin_index (of_nat l)"
  shows "(get_best_fit fuel w k r = Inr 0 \<and> (\<forall>b l. (b, l, True) \<in> set cs \<and> get_bin_index (of_nat l) = k \<longrightarrow> l < unat r)) \<or>
    (\<exists>a n. get_best_fit fuel w k r = Inr (of_nat a) \<and> (of_nat a :: u32) \<noteq> 0 \<and> get_bin_index (of_nat n) = k \<and> best_hole cs (unat r) a n)"
proof -
  have b: "set (L k) = holes cs k" "sorted (map (\<lambda>a. unat (zs (hbytes w) a)) (L k))"
    using inv k by (auto simp: heap_inv_def bin_ok_def)
  have sz: "unat (zs (hbytes w) x) = n" if "(x, n, h) \<in> set cs" for x n h
    using heap_inv_size [OF inv that] by simp
  show ?thesis
  proof (cases "find (\<lambda>x. r \<le> zs (hbytes w) x) (L k)")
    case None
    have "l < unat r" if "(b, l, True) \<in> set cs" "get_bin_index (of_nat l) = k" for b l
    proof -
      have "b \<in> set (L k)" using that b(1) by (auto simp: holes_def)
      then have "\<not> r \<le> zs (hbytes w) b" using None by (auto simp: find_None_iff)
      then show ?thesis using sz [OF that(1)] by (simp add: u32_le_unat)
    qed
    then show ?thesis using search_bin [OF inv k fuel, of r] None by auto
  next
    case (Some a)
    then have a: "a \<in> set (L k)" "r \<le> zs (hbytes w) a" by (auto simp: find_Some_iff)
    then obtain n where n: "(a, n, True) \<in> set cs" "get_bin_index (of_nat n) = k" using b(1) by (auto simp: holes_def)
    have "n \<le> l" if "(c, l, True) \<in> set cs" "unat r \<le> l" for c l
    proof (cases "get_bin_index (of_nat l) = k")
      case True
      then have "c \<in> set (L k)" using that b(1) by (auto simp: holes_def)
      from find_sorted_least [OF b(2) _ this, of "unat r" a] Some that sz show ?thesis
        using sz [OF n(1)] sz [OF that(1)] by (simp add: u32_le_unat)
    next
      case False
      then have "k < get_bin_index (of_nat l)" using low that by force
      then have "\<not> (of_nat l :: u32) \<le> of_nat n" using get_bin_index_mono [of "of_nat l" "of_nat n"] n(2) by auto
      then show ?thesis using heap_inv_size(2) [OF inv n(1)] heap_inv_size(2) [OF inv that(1)] by (simp add: u32_le_unat)
    qed
    then have "best_hole cs (unat r) a n" using n a(2) sz [OF n(1)] by (auto simp: best_hole_def u32_le_unat)
    moreover have "heap_node_at w a" using row_nodes inv n(1) by (force simp: heap_inv_def)
    ultimately show ?thesis using search_bin [OF inv k fuel, of r] Some n(2) field_unat(6) by auto
  qed
qed

lemma search_bins_ok:
  assumes inv: "heap_inv w cs L" and fuel: "length cs < fuel" and "k + m = 8"
    and low: "\<forall>b l. (b, l, True) \<in> set cs \<and> unat r \<le> l \<longrightarrow> k \<le> get_bin_index (of_nat l)"
  shows "(search_bins fuel m w r k = Inr (0, 8) \<and> (\<forall>b l. (b, l, True) \<in> set cs \<longrightarrow> l < unat r)) \<or>
    (\<exists>a n. search_bins fuel m w r k = Inr (of_nat a, get_bin_index (of_nat n)) \<and> best_hole cs (unat r) a n)"
  using assms(3,4)
proof (induction m arbitrary: k)
  case 0
  then have k: "k = 8" by simp
  have "get_bin_index (of_nat l) = 8" if "(b, l, True) \<in> set cs" "unat r \<le> l" for b l
    using 0(2) that get_bin_index_bounds [of "of_nat l"] k by force
  then have all: "l < unat r" if "(b, l, True) \<in> set cs" "get_bin_index (of_nat l) = k \<longrightarrow> l < unat r" for b l
    using that k not_less by blast
  from search_bin_found [OF inv _ fuel 0(2)] k have "(get_best_fit fuel w k r = Inr 0 \<and> (\<forall>b l. (b, l, True) \<in> set cs \<and> get_bin_index (of_nat l) = k \<longrightarrow> l < unat r)) \<or>
    (\<exists>a n. get_best_fit fuel w k r = Inr (of_nat a) \<and> (of_nat a :: u32) \<noteq> 0 \<and> get_bin_index (of_nat n) = k \<and> best_hole cs (unat r) a n)" by simp
  then show ?case
  proof (elim disjE)
    assume "get_best_fit fuel w k r = Inr 0 \<and> (\<forall>b l. (b, l, True) \<in> set cs \<and> get_bin_index (of_nat l) = k \<longrightarrow> l < unat r)"
    then show ?thesis using all k by (intro disjI1) auto
  next
    assume "\<exists>a n. get_best_fit fuel w k r = Inr (of_nat a) \<and> (of_nat a :: u32) \<noteq> 0 \<and> get_bin_index (of_nat n) = k \<and> best_hole cs (unat r) a n"
    then obtain a n where "get_best_fit fuel w k r = Inr (of_nat a)" "(of_nat a :: u32) \<noteq> 0" "get_bin_index (of_nat n) = k"
        "best_hole cs (unat r) a n" by blast
    then have "search_bins fuel 0 w r k = Inr (of_nat a, get_bin_index (of_nat n)) \<and> best_hole cs (unat r) a n" by simp
    then show ?thesis by blast
  qed
next
  case (Suc m)
  have k: "k \<le> 8" using Suc.prems by simp
  from search_bin_found [OF inv k fuel Suc.prems(2)] show ?case
  proof (elim disjE)
    assume none: "get_best_fit fuel w k r = Inr 0 \<and> (\<forall>b l. (b, l, True) \<in> set cs \<and> get_bin_index (of_nat l) = k \<longrightarrow> l < unat r)"
    have low': "\<forall>b l. (b, l, True) \<in> set cs \<and> unat r \<le> l \<longrightarrow> Suc k \<le> get_bin_index (of_nat l)"
    proof (intro allI impI)
      fix b l assume bl: "(b, l, True) \<in> set cs \<and> unat r \<le> l"
      have "k \<le> get_bin_index (of_nat l)" using Suc.prems(2) bl by blast
      moreover have "get_bin_index (of_nat l) \<noteq> k" using none bl by fastforce
      ultimately show "Suc k \<le> get_bin_index (of_nat l)" by simp
    qed
    show ?thesis using Suc.IH [OF _ low'] Suc.prems(1) none by simp
  next
    assume "\<exists>a n. get_best_fit fuel w k r = Inr (of_nat a) \<and> (of_nat a :: u32) \<noteq> 0 \<and> get_bin_index (of_nat n) = k \<and> best_hole cs (unat r) a n"
    then obtain a n where "get_best_fit fuel w k r = Inr (of_nat a)" "(of_nat a :: u32) \<noteq> 0" "get_bin_index (of_nat n) = k"
        "best_hole cs (unat r) a n" by blast
    then have "search_bins fuel (Suc m) w r k = Inr (of_nat a, get_bin_index (of_nat n)) \<and> best_hole cs (unat r) a n" by simp
    then show ?thesis by blast
  qed
qed

subsection \<open>Writes inside a chunk\<close>

text \<open>A write inside a chunk changes nothing of the others, and no bytes of a user if the chunk is a hole.\<close>

lemma put_other:
  assumes "tiled x cs e" and "(c, n, h) \<in> set cs" and "c \<le> p" and "p + 4 \<le> c + 20 + n"
    and "(b, l, i) \<in> set cs" and "b \<noteq> c" and "b \<le> q" and "q + 4 \<le> b + 20 + l"
  shows "get32 (put32 m p v) q = get32 m q"
  using tiled_disjoint [OF assms(1,2,5)] assms by (intro get32_put32_other) auto

lemma put_user:
  assumes "tiled x cs e" and "(c, n, True) \<in> set cs" and "c \<le> p" and "p + 4 \<le> c + 20 + n"
  shows "user_same cs m (put32 m p v)"
proof (rule user_same_put)
  fix a l assume "(a, l, False) \<in> set cs"
  from tiled_disjoint [OF assms(1,2) this] assms show "p + 4 \<le> a + 8 \<or> a + 16 + l \<le> p" by auto
qed

lemma put_chunk:
  assumes "tiled x cs e" and "(c, n, h) \<in> set cs" and "c \<le> p" and "p + 4 \<le> c + 20 + n"
    and "(b, l, i) \<in> set cs" and "b \<noteq> c"
  shows "chunk_ok (put32 m p v) (b, l, i) = chunk_ok m (b, l, i)"
    and "nx (put32 m p v) b = nx m b" and "pv (put32 m p v) b = pv m b" and "zs (put32 m p v) b = zs m b"
  using put_other [OF assms(1-6), of _ m v] by (simp_all add: chunk_ok_def)

text \<open>The state between the choice of a hole and its removal from bin \<open>k0\<close>: the chunk may have been made smaller.\<close>

definition taken_ok :: "heap_world \<Rightarrow> chunk list \<Rightarrow> nat \<Rightarrow> nat \<Rightarrow> (nat \<Rightarrow> nat list) \<Rightarrow> bool" where
  "taken_ok w cs a k0 L \<longleftrightarrow>
     row_ok w cs \<and> (\<forall>c \<in> set cs. chunk_ok (hbytes w) c) \<and> (\<exists>n. (a, n, True) \<in> set cs) \<and> k0 \<le> 8 \<and>
     (\<forall>k \<le> 8. distinct (L k) \<and> set (L k) = holes cs k - {a} \<union> (if k = k0 then {a} else {}) \<and>
        blist (hbytes w) (bin_head (heap w) k) (L k) \<and>
        sorted (map (\<lambda>x. unat (zs (hbytes w) x)) (filter (\<lambda>x. x \<noteq> a) (L k))))"

lemma hole_bin:
  assumes "tiled x cs e" and "(a, n, True) \<in> set cs"
  shows "a \<in> holes cs k \<longleftrightarrow> get_bin_index (of_nat n) = k"
proof
  assume "a \<in> holes cs k"
  then obtain l where "(a, l, True) \<in> set cs" "get_bin_index (of_nat l) = k" by (auto simp: holes_def)
  with tiled_unique [OF assms this(1)] show "get_bin_index (of_nat n) = k" by simp
qed (use assms in \<open>auto simp: holes_def\<close>)

lemma tiled_split:
  assumes "tiled x (pre @ (a, n, h) # post) e"
  shows "a \<notin> addrs pre \<and> a \<notin> addrs post"
proof -
  from assms obtain y where t: "tiled x pre y" "y = a" "tiled (a + 20 + n) post e" by (auto simp: tiled_append)
  show ?thesis using tiled_bounds [OF t(1)] tiled_bounds [OF t(3)] t(2) by fastforce
qed

lemma heap_inv_taken:
  assumes inv: "heap_inv w cs L" and a: "(a, n, True) \<in> set cs"
  shows "taken_ok w cs a (get_bin_index (of_nat n)) L"
proof -
  have t: "tiled (unat (h_start (heap w))) cs (unat (h_end (heap w)))" using inv by (simp add: heap_inv_def row_ok_def)
  have "holes cs k = holes cs k - {a} \<union> (if k = get_bin_index (of_nat n) then {a} else {})" for k
    using hole_bin [OF t a] by auto
  moreover have "distinct (L k)" "set (L k) = holes cs k" "blist (hbytes w) (bin_head (heap w) k) (L k)"
      "sorted (map (\<lambda>x. unat (zs (hbytes w) x)) (filter (\<lambda>x. x \<noteq> a) (L k)))" if "k \<le> 8" for k
    using inv that sorted_filter [of "\<lambda>x. unat (zs (hbytes w) x)" "L k"] by (auto simp: heap_inv_def bin_ok_def)
  ultimately show ?thesis
    using inv a get_bin_index_bounds [of "of_nat n"] unfolding taken_ok_def heap_inv_def by simp blast
qed

lemma relinked_fields:
  assumes "relinked B k w w'"
  shows "hmapped w' = hmapped w" "hvm w' = hvm w" "h_start (heap w') = h_start (heap w)" "h_end (heap w') = h_end (heap w)"
    "bytes_allocated (heap w') = bytes_allocated (heap w)" "j \<noteq> k \<Longrightarrow> bin_head (heap w') j = bin_head (heap w) j"
    "links_of B (hbytes w) (hbytes w')"
proof -
  have e: "w' = w\<lparr>hbytes := hbytes w', heap := (heap w)\<lparr>bin_head := (bin_head (heap w))(k := bin_head (heap w') k)\<rparr>\<rparr>"
    and l: "links_of B (hbytes w) (hbytes w')" using assms by (simp_all add: relinked_def)
  show "hmapped w' = hmapped w" "hvm w' = hvm w" "h_start (heap w') = h_start (heap w)" "h_end (heap w') = h_end (heap w)"
    "bytes_allocated (heap w') = bytes_allocated (heap w)"
    by (subst e, simp)+
  show "j \<noteq> k \<Longrightarrow> bin_head (heap w') j = bin_head (heap w) j" by (subst e) simp
  show "links_of B (hbytes w) (hbytes w')" by (rule l)
qed

lemma row_ok_cong:
  "row_ok w cs \<Longrightarrow> hmapped w' = hmapped w \<Longrightarrow> h_start (heap w') = h_start (heap w) \<Longrightarrow> h_end (heap w') = h_end (heap w) \<Longrightarrow>
   tiled (unat (h_start (heap w))) cs' (unat (h_end (heap w))) \<Longrightarrow> cs' \<noteq> [] \<Longrightarrow> row_ok w' cs'"
  by (simp add: row_ok_def)

lemma addrs_card: "card (addrs cs) \<le> length cs"
  by (rule le_trans [OF card_image_le card_length]) simp

lemma hole_bins_disjoint:
  assumes "tiled x cs e" and "a \<in> holes cs k" and "a \<in> holes cs j"
  shows "k = j"
  using assms tiled_unique by (fastforce simp: holes_def)

text \<open>Taking the chunk: it is marked as used and leaves its bin.\<close>

lemma take_hole:
  assumes t: "taken_ok w (pre @ (a, n, True) # post) a k0 L" and fuel: "length (pre @ (a, n, True) # post) < fuel"
  shows "\<exists>w' L'. bindE (st w (f_hole (of_nat a)) 0) (\<lambda>w. remove_node fuel w k0 (of_nat a)) = Inr w' \<and>
    heap_inv w' (pre @ (a, n, False) # post) L' \<and> hmapped w' = hmapped w \<and> hvm w' = hvm w \<and>
    h_start (heap w') = h_start (heap w) \<and> h_end (heap w') = h_end (heap w) \<and>
    bytes_allocated (heap w') = bytes_allocated (heap w) \<and> user_same (pre @ (a, n, True) # post) (hbytes w) (hbytes w')"
proof -
  let ?cs = "pre @ (a, n, True) # post" and ?cs' = "pre @ (a, n, False) # post"
  let ?s = "unat (h_start (heap w))" and ?e = "unat (h_end (heap w))"
  have row: "row_ok w ?cs" and ch: "\<And>c. c \<in> set ?cs \<Longrightarrow> chunk_ok (hbytes w) c" and k0: "k0 \<le> 8"
    and L: "\<And>k. k \<le> 8 \<Longrightarrow> distinct (L k) \<and> set (L k) = holes ?cs k - {a} \<union> (if k = k0 then {a} else {}) \<and>
        blist (hbytes w) (bin_head (heap w) k) (L k) \<and>
        sorted (map (\<lambda>x. unat (zs (hbytes w) x)) (filter (\<lambda>x. x \<noteq> a) (L k)))"
    using t unfolding taken_ok_def by blast+
  have ti: "tiled ?s ?cs ?e" using row by (simp add: row_ok_def)
  then have ti': "tiled ?s ?cs' ?e" by (auto simp: tiled_append)
  have ac: "(a, n, True) \<in> set ?cs" by simp
  have sp: "spaced (addrs ?cs)" by (rule tiled_spaced [OF ti])
  have at: "heap_node_at w x" if "x \<in> addrs ?cs" for x by (rule row_nodes [OF row that])
  let ?m = "put32 (hbytes w) a 0"
  let ?w = "w\<lparr>hbytes := ?m\<rparr>"
  have same: "nx ?m x = nx (hbytes w) x \<and> pv ?m x = pv (hbytes w) x \<and> zs ?m x = zs (hbytes w) x" if x: "x \<in> addrs ?cs" for x
  proof (cases "x = a")
    case True
    then show ?thesis by (simp add: get32_put32_other)
  next
    case False
    from x obtain l i where "(x, l, i) \<in> set ?cs" by force
    from put_chunk(2-4) [OF ti ac _ _ this False, of a] show ?thesis by simp
  qed
  have hs: "holes ?cs' k = holes ?cs k - {a}" for k
    using tiled_split [OF ti] by (force simp: holes_def)
  have ch': "chunk_ok ?m c" if c: "c \<in> set ?cs'" for c
  proof (cases "c = (a, n, False)")
    case True
    then show ?thesis using ch [OF ac] by (simp add: chunk_ok_def get32_put32_same get32_put32_other)
  next
    case False
    then have cc: "c \<in> set ?cs" using c by auto
    obtain b l i where b: "c = (b, l, i)" by (cases c)
    have "b \<noteq> a" using tiled_unique [OF ti', of a n False l i] c b False by auto
    then show ?thesis using put_chunk(1) [OF ti ac _ _ _ \<open>b \<noteq> a\<close>, of a l i] ch [OF cc] cc b by simp
  qed
  have LA: "set (L k) \<subseteq> addrs ?cs" if "k \<le> 8" for k
  proof -
    have "set (L k) = holes ?cs k - {a} \<union> (if k = k0 then {a} else {})" using L [OF that] by blast
    then show ?thesis using holes_addrs [of ?cs k] by (cases "k = k0") auto
  qed
  let ?H = "holes ?cs k0 - {a} \<union> {a}"
  have H: "?H \<subseteq> addrs ?cs" using holes_addrs [of ?cs k0] by auto
  then have "card ?H < fuel" using card_mono [OF _ H] addrs_card [of ?cs] fuel by simp
  moreover have bl: "blist ?m (bin_head (heap w) k) (L k)" if "k \<le> 8" for k
  proof (rule blist_keep)
    show "blist (hbytes w) (bin_head (heap w) k) (L k)" using L [OF that] by blast
    show "nx ?m x = nx (hbytes w) x \<and> pv ?m x = pv (hbytes w) x" if "x \<in> set (L k)" for x
      using same LA [OF \<open>k \<le> 8\<close>] that by blast
  qed
  moreover have so: "sorted (map (\<lambda>x. unat (zs ?m x)) (filter (\<lambda>x. x \<noteq> a) (L k)))" if "k \<le> 8" for k
  proof -
    have "map (\<lambda>x. unat (zs ?m x)) (filter (\<lambda>x. x \<noteq> a) (L k)) = map (\<lambda>x. unat (zs (hbytes w) x)) (filter (\<lambda>x. x \<noteq> a) (L k))"
    proof (intro map_cong refl)
      fix x assume "x \<in> set (filter (\<lambda>x. x \<noteq> a) (L k))"
      then have "x \<in> addrs ?cs" using LA [OF that] by auto
      then show "unat (zs ?m x) = unat (zs (hbytes w) x)" using same by simp
    qed
    then show ?thesis using L [OF that] by (simp only:)
  qed
  ultimately have "\<exists>w' ys. remove_node fuel ?w k0 (of_nat a) = Inr w' \<and> relinked (?H - {a}) k0 ?w w' \<and> bin_ok w' (?H - {a}) k0 ys"
    using at L [OF k0] k0 by (intro bin_remove [OF sp _ H]) auto
  then obtain w' ys where w': "remove_node fuel ?w k0 (of_nat a) = Inr w'" "relinked (?H - {a}) k0 ?w w'" "bin_ok w' (?H - {a}) k0 ys"
    by blast
  note f = relinked_fields [OF w'(2)]
  have B: "?H - {a} = holes ?cs k0 - {a}" by auto
  have Ba: "?H - {a} \<subseteq> addrs ?cs" "?H - {a} \<subseteq> addrs ?cs'" using H by auto
  have "heap_inv w' ?cs' (L(k0 := ys))"
    unfolding heap_inv_def
  proof (intro conjI ballI allI impI)
    show "row_ok w' ?cs'" by (rule row_ok_cong [OF row]) (use f ti' in simp_all)
    show "chunk_ok (hbytes w') c" if "c \<in> set ?cs'" for c
      using chunk_links [OF ti' f(7) Ba(2) that] ch' [OF that] by simp
    fix k :: nat assume k: "k \<le> 8"
    show "bin_ok w' (holes ?cs' k) k ((L(k0 := ys)) k)"
    proof (cases "k = k0")
      case True
      then show ?thesis using w'(3) B hs by simp
    next
      case False
      have "bin_ok ?w (holes ?cs' k) k (L k)"
      proof -
        have s: "set (L k) = holes ?cs' k" "a \<notin> set (L k)" using L [OF k] hs False by auto
        then have "filter (\<lambda>x. x \<noteq> a) (L k) = L k" by (auto intro: filter_True)
        then show ?thesis using L [OF k] bl [OF k] so [OF k] s by (simp add: bin_ok_def)
      qed
      then show ?thesis unfolding fun_upd_apply using False
      proof (simp, elim bin_keep)
        show "bin_head (heap w') k = bin_head (heap ?w) k" using f(6) [OF False] by simp
        fix x assume x: "x \<in> holes ?cs' k"
        then have "x \<notin> ?H - {a}" using hole_bins_disjoint [OF ti, of x k k0] hs False by auto
        moreover have "x \<in> addrs ?cs" using x hs holes_addrs [of ?cs k] by auto
        ultimately show "nx (hbytes w') x = nx (hbytes ?w) x \<and> pv (hbytes w') x = pv (hbytes ?w) x \<and> zs (hbytes w') x = zs (hbytes ?w) x"
          using links_size [OF sp f(7) Ba(1)] by simp
      qed
    qed
  qed
  moreover have "user_same ?cs (hbytes w) (hbytes w')"
  proof (rule user_same_trans)
    show "user_same ?cs (hbytes w) ?m" by (rule put_user [OF ti ac]) simp_all
    have "user_same ?cs (hbytes ?w) (hbytes w')"
      by (rule user_same_links [OF ti f(7)]) (use B in \<open>auto simp: holes_def\<close>)
    then show "user_same ?cs ?m (hbytes w')" by simp
  qed
  moreover have "bindE (st w (f_hole (of_nat a)) 0) (\<lambda>w. remove_node fuel w k0 (of_nat a)) = Inr w'"
    using w'(1) st_field(1) [OF at] by simp
  ultimately show ?thesis using f by auto
qed

subsection \<open>Splitting a hole\<close>

lemma row_word:
  assumes "row_ok w cs" and "unat (h_start (heap w)) \<le> p" and "p + 4 \<le> unat (h_end (heap w))"
  shows "st w (of_nat p) v = Inr (w\<lparr>hbytes := put32 (hbytes w) p v\<rparr>)" and "ld w (of_nat p) = Inr (get32 (hbytes w) p)"
proof -
  have "unat (of_nat p :: u32) = p" using assms(3) u32_unat_lt [of "h_end (heap w)"] by (intro unat_of_nat_u32) simp
  moreover have "word_mapped w p" using assms by (auto simp: word_mapped_def row_ok_def)
  ultimately show "st w (of_nat p) v = Inr (w\<lparr>hbytes := put32 (hbytes w) p v\<rparr>)" "ld w (of_nat p) = Inr (get32 (hbytes w) p)"
    by (simp_all add: st_def ld_def)
qed

lemma create_foot_ok:
  assumes "row_ok w cs" and "heap_node_at w a" and "zs (hbytes w) a = of_nat n"
    and "unat (h_start (heap w)) \<le> a" and "a + 20 + n \<le> unat (h_end (heap w))"
  shows "create_foot w (of_nat a) = Inr (w\<lparr>hbytes := put32 (hbytes w) (a + 16 + n) (of_nat a)\<rparr>)"
    and "get_foot w (of_nat a) = Inr (of_nat (a + 16 + n))"
proof -
  show g: "get_foot w (of_nat a) = Inr (of_nat (a + 16 + n))"
    using assms(2,3) by (simp add: get_foot_def ld_field node_size_def)
  show "create_foot w (of_nat a) = Inr (w\<lparr>hbytes := put32 (hbytes w) (a + 16 + n) (of_nat a)\<rparr>)"
    using row_word(1) [OF assms(1), of "a + 16 + n"] assms(4,5) by (simp add: create_foot_def g del: of_nat_add)
qed

lemma row_ok_bytes [simp]: "row_ok (w\<lparr>hbytes := m\<rparr>) cs = row_ok w cs"
  by (simp add: row_ok_def)

lemma split_chunk_ok:
  assumes inv: "heap_inv w (pre @ (a, n, True) # post) L" and r: "r + 24 < n"
    and fuel: "Suc (length (pre @ (a, n, True) # post)) < fuel"
  defines "cs \<equiv> pre @ (a, n, True) # post" and "cs' \<equiv> pre @ (a, r, True) # (a + 20 + r, n - r - 20, True) # post"
  shows "\<exists>w' L'. split_chunk fuel w (of_nat a) (of_nat r) = Inr w' \<and> taken_ok w' cs' a (get_bin_index (of_nat n)) L' \<and>
    hmapped w' = hmapped w \<and> hvm w' = hvm w \<and> h_start (heap w') = h_start (heap w) \<and> h_end (heap w') = h_end (heap w) \<and>
    bytes_allocated (heap w') = bytes_allocated (heap w) \<and> user_same cs (hbytes w) (hbytes w')"
proof -
  let ?s = "unat (h_start (heap w))" and ?e = "unat (h_end (heap w))"
  define b where "b = a + 20 + r"
  define n' where "n' = n - r - 20"
  have bn: "b + 20 + n' = a + 20 + n" "b = a + 20 + r" "n = n' + r + 20" "4 < n'" using r by (auto simp: b_def n'_def)
  have cs': "cs' = pre @ (a, r, True) # (b, n', True) # post" by (simp add: cs'_def b_def n'_def)
  have inv': "heap_inv w cs L" using inv by (simp add: cs_def)
  have row: "row_ok w cs" and ch: "\<And>c. c \<in> set cs \<Longrightarrow> chunk_ok (hbytes w) c" using inv' by (auto simp: heap_inv_def)
  have ti: "tiled ?s cs ?e" using row by (simp add: row_ok_def)
  have ti': "tiled ?s cs' ?e" using ti bn unfolding cs_def cs' tiled_append by (auto simp: ac_simps)
  have ac: "(a, n, True) \<in> set cs" by (simp add: cs_def)
  have ac': "(a, r, True) \<in> set cs'" "(b, n', True) \<in> set cs'" by (simp_all add: cs')
  note bo = tiled_bounds [OF ti ac] tiled_bounds [OF ti' ac'(2)]
  have row': "row_ok w cs'" using row ti' by (simp add: row_ok_def cs'_def)
  have ad: "addrs cs' = insert b (addrs cs)" by (auto simp: cs' cs_def)
  have na: "b \<notin> addrs cs"
  proof
    assume "b \<in> addrs cs"
    then obtain l i where "(b, l, i) \<in> set cs" by force
    from tiled_disjoint [OF ti ac this] bn show False by auto
  qed
  have aa: "heap_node_at w x" if "x \<in> addrs cs'" for x by (rule row_nodes [OF row' that])
  have na': "heap_node_at w a" "heap_node_at w b" using aa ac' by force+
  \<comment> \<open>the node and the footer of the rest\<close>
  let ?m1 = "put32 (put32 (put32 (hbytes w) (b + 4) (of_nat n')) b 1) (b + 16 + n') (of_nat b)"
  let ?w1 = "w\<lparr>hbytes := ?m1\<rparr>"
  have zb: "zs (put32 (put32 (hbytes w) (b + 4) (of_nat n')) b 1) b = of_nat n'"
    by (simp add: get32_put32_other get32_put32_same)
  have foot1: "create_foot (w\<lparr>hbytes := put32 (put32 (hbytes w) (b + 4) (of_nat n')) b 1\<rparr>) (of_nat b) = Inr ?w1"
    using create_foot_ok(1) [of "w\<lparr>hbytes := put32 (put32 (hbytes w) (b + 4) (of_nat n')) b 1\<rparr>" cs' b n'] row' na' zb bo(2) by simp
  have in1: "get32 ?m1 q = get32 (hbytes w) q" if "(c, l, i) \<in> set cs" "c \<noteq> a" "c \<le> q" "q + 4 \<le> c + 20 + l" for c l i q
    using put_other [OF ti ac _ _ that(1,2,3,4)] bn by simp
  have in1a: "get32 ?m1 q = get32 (hbytes w) q" if "a \<le> q" "q + 4 \<le> b" for q
    using that by (simp add: get32_put32_other)
  have keep1: "nx ?m1 x = nx (hbytes w) x \<and> pv ?m1 x = pv (hbytes w) x \<and> zs ?m1 x = zs (hbytes w) x" if x: "x \<in> addrs cs" for x
  proof (cases "x = a")
    case True
    have "a + 20 \<le> b" using bn(2) by simp
    then show ?thesis unfolding True using in1a [of "a + 8"] in1a [of "a + 12"] in1a [of "a + 4"] by simp
  next
    case False
    from x obtain l i where "(x, l, i) \<in> set cs" by force
    from in1 [OF this False] show ?thesis by simp
  qed
  have b1: "bin_ok ?w1 (holes cs k) k (L k)" if "k \<le> 8" for k
  proof (rule bin_keep [of w])
    show "bin_ok w (holes cs k) k (L k)" using inv' that by (simp add: heap_inv_def)
    fix x assume "x \<in> holes cs k"
    then have "x \<in> addrs cs" using holes_addrs [of cs k] by blast
    from keep1 [OF this] show "nx (hbytes ?w1) x = nx (hbytes w) x \<and> pv (hbytes ?w1) x = pv (hbytes w) x \<and> zs (hbytes ?w1) x = zs (hbytes w) x"
      by simp
  qed simp
  have u1: "user_same cs (hbytes w) ?m1"
    by (intro user_same_trans [OF put_user [OF ti ac] user_same_trans [OF put_user [OF ti ac] put_user [OF ti ac]]]) (use bn in auto)
  \<comment> \<open>the rest enters its bin\<close>
  let ?k = "get_bin_index (of_nat n')"
  have k: "?k \<le> 8" using get_bin_index_bounds by blast
  have nh: "b \<notin> holes cs ?k" using na holes_addrs [of cs ?k] by auto
  have hsub: "holes cs ?k \<subseteq> addrs cs'" "insert b (holes cs ?k) \<subseteq> addrs cs'" using holes_addrs [of cs ?k] ad by auto
  have "card (holes cs ?k) < fuel" using card_holes [of cs ?k] fuel by (simp add: cs_def)
  then have "\<exists>w' ys. add_node fuel ?w1 ?k (of_nat b) = Inr w' \<and> relinked (insert b (holes cs ?k)) ?k ?w1 w' \<and>
      bin_ok w' (insert b (holes cs ?k)) ?k ys"
    using aa ac'(2) hsub nh b1 [OF k] by (intro bin_add [OF tiled_spaced [OF ti']]) force+
  then obtain w2 ys where w2: "add_node fuel ?w1 ?k (of_nat b) = Inr w2" "relinked (insert b (holes cs ?k)) ?k ?w1 w2"
      "bin_ok w2 (insert b (holes cs ?k)) ?k ys" by blast
  note f2 = relinked_fields [OF w2(2)]
  have l2: "links_of (insert b (holes cs ?k)) ?m1 (hbytes w2)" using f2(7) by simp
  note s2 = links_size [OF tiled_spaced [OF ti'] l2 hsub(2)]
  have row2: "row_ok w2 cs'" by (rule row_ok_cong [OF row']) (use f2 ti' row' in \<open>auto simp: row_ok_def\<close>)
  have na2: "heap_node_at w2 a" using row_nodes [OF row2] ac'(1) by force
  have u2: "user_same cs ?m1 (hbytes w2)"
  proof -
    have "user_same cs' ?m1 (hbytes w2)"
      by (rule user_same_links [OF ti' l2]) (use ac'(2) in \<open>auto simp: holes_def cs_def cs'\<close>)
    then show ?thesis by (simp add: user_same_def cs_def cs')
  qed
  \<comment> \<open>the chunk is made smaller\<close>
  let ?m4 = "put32 (put32 (hbytes w2) (a + 4) (of_nat r)) (a + 16 + r) (of_nat a)"
  let ?w4 = "w2\<lparr>hbytes := ?m4\<rparr>"
  have foot4: "create_foot (w2\<lparr>hbytes := put32 (hbytes w2) (a + 4) (of_nat r)\<rparr>) (of_nat a) = Inr ?w4"
    using create_foot_ok(1) [of "w2\<lparr>hbytes := put32 (hbytes w2) (a + 4) (of_nat r)\<rparr>" cs' a r] row2 na2 tiled_bounds [OF ti' ac'(1)] f2
    by (simp add: get32_put32_same)
  have keep4: "nx ?m4 x = nx (hbytes w2) x \<and> pv ?m4 x = pv (hbytes w2) x \<and> (x \<noteq> a \<longrightarrow> zs ?m4 x = zs (hbytes w2) x)"
    if x: "x \<in> addrs cs'" for x
  proof (cases "x = a")
    case True
    then show ?thesis by (simp add: get32_put32_other)
  next
    case False
    from x obtain l i where "(x, l, i) \<in> set cs'" by force
    from put_chunk(2-4) [OF ti' ac'(1) _ _ this False] show ?thesis by simp
  qed
  have u4: "user_same cs (hbytes w2) ?m4"
    by (rule user_same_trans [OF put_user [OF ti ac] put_user [OF ti ac]]) (use bn in auto)
  \<comment> \<open>the chunks of the new row\<close>
  have ch1: "chunk_ok ?m1 c" if "c \<in> set cs'" "fst c \<noteq> a" for c
  proof (cases "c = (b, n', True)")
    case True
    then show ?thesis by (simp add: chunk_ok_def get32_put32_same get32_put32_other)
  next
    case False
    then have c: "c \<in> set cs" using that by (auto simp: cs_def cs')
    obtain x l i where x: "c = (x, l, i)" by (cases c)
    show ?thesis using ch [OF c] in1 [of x l i] c that(2) by (simp add: x chunk_ok_def)
  qed
  have ch4: "chunk_ok ?m4 c" if c: "c \<in> set cs'" for c
  proof (cases "fst c = a")
    case True
    then have ca: "c = (a, r, True)" using tiled_unique [OF ti' ac'(1)] c by (cases c) auto
    have "get32 (hbytes w2) a = get32 ?m1 a" using s2(2) ac'(1) by force
    also have "\<dots> = get32 (hbytes w) a" using bn(2) by (intro in1a) auto
    also have "\<dots> = 1" using ch [OF ac] by (simp add: chunk_ok_def)
    finally have "get32 (hbytes w2) a = 1" .
    then show ?thesis by (simp add: ca chunk_ok_def get32_put32_same get32_put32_other)
  next
    case False
    obtain x l i where x: "c = (x, l, i)" by (cases c)
    have "chunk_ok (hbytes w2) c" by (rule chunk_links [OF ti' l2 hsub(2) c ch1 [OF c False]])
    then show ?thesis using put_chunk(1) [OF ti' ac'(1) _ _ _ False [unfolded x fst_conv]] c x by simp
  qed
  \<comment> \<open>the bins\<close>
  let ?L = "L(?k := ys)"
  have an: "a \<noteq> b" using bn by simp
  have bins: "distinct (?L j) \<and> set (?L j) = holes cs' j - {a} \<union> (if j = get_bin_index (of_nat n) then {a} else {}) \<and>
      blist ?m4 (bin_head (heap ?w4) j) (?L j) \<and>
      sorted (map (\<lambda>x. unat (zs ?m4 x)) (filter (\<lambda>x. x \<noteq> a) (?L j)))" if j: "j \<le> 8" for j
  proof -
    let ?H = "if j = ?k then insert b (holes cs ?k) else holes cs j"
    have bj: "bin_ok w2 ?H j (?L j)"
    proof (cases "j = ?k")
      case True
      then show ?thesis using w2(3) by simp
    next
      case False
      have "bin_ok w2 (holes cs j) j (L j)"
      proof (rule bin_keep [OF b1 [OF j]])
        show "bin_head (heap w2) j = bin_head (heap ?w1) j" using f2(6) [OF False] by simp
        fix x assume x: "x \<in> holes cs j"
        have xa: "x \<in> addrs cs" using x holes_addrs [of cs j] by blast
        have "x \<notin> holes cs ?k" using hole_bins_disjoint [OF ti x, of ?k] False by blast
        then have "x \<notin> insert b (holes cs ?k)" "x \<in> addrs cs'" using xa na ad by auto
        then show "nx (hbytes w2) x = nx (hbytes ?w1) x \<and> pv (hbytes w2) x = pv (hbytes ?w1) x \<and> zs (hbytes w2) x = zs (hbytes ?w1) x"
          using s2 by simp
      qed
      then show ?thesis using False by simp
    qed
    have Hs: "?H \<subseteq> addrs cs'" using holes_addrs [of cs j] hsub(2) ad by (cases "j = ?k") auto
    have set: "?H = holes cs' j - {a} \<union> (if j = get_bin_index (of_nat n) then {a} else {})"
    proof (rule set_eqI)
      fix x
      show "x \<in> ?H \<longleftrightarrow> x \<in> holes cs' j - {a} \<union> (if j = get_bin_index (of_nat n) then {a} else {})"
      proof (cases "x = a")
        case True
        then show ?thesis using hole_bin [OF ti ac, of j] an by auto
      next
        case False
        then have "x \<in> holes cs' j \<longleftrightarrow> x \<in> holes cs j \<or> x = b \<and> j = ?k" by (auto simp: holes_def cs_def cs')
        then show ?thesis using False by auto
      qed
    qed
    have "blist ?m4 (bin_head (heap ?w4) j) (?L j)"
    proof (rule blist_keep)
      show "blist (hbytes w2) (bin_head (heap ?w4) j) (?L j)" using bj by (simp add: bin_ok_def)
      show "nx ?m4 x = nx (hbytes w2) x \<and> pv ?m4 x = pv (hbytes w2) x" if "x \<in> set (?L j)" for x
        using keep4 [of x] that bj Hs unfolding bin_ok_def by blast
    qed
    moreover have "sorted (map (\<lambda>x. unat (zs ?m4 x)) (filter (\<lambda>x. x \<noteq> a) (?L j)))"
    proof -
      have "map (\<lambda>x. unat (zs ?m4 x)) (filter (\<lambda>x. x \<noteq> a) (?L j)) = map (\<lambda>x. unat (zs (hbytes w2) x)) (filter (\<lambda>x. x \<noteq> a) (?L j))"
      proof (intro map_cong refl)
        fix x assume "x \<in> set (filter (\<lambda>x. x \<noteq> a) (?L j))"
        then have "x \<in> addrs cs'" "x \<noteq> a" using bj Hs unfolding bin_ok_def by auto
        then show "unat (zs ?m4 x) = unat (zs (hbytes w2) x)" using keep4 by simp
      qed
      moreover have "sorted (map (\<lambda>x. unat (zs (hbytes w2) x)) (?L j))" using bj by (simp add: bin_ok_def)
      ultimately show ?thesis by (simp only: sorted_filter)
    qed
    ultimately show ?thesis using bj set unfolding bin_ok_def by blast
  qed
  have "taken_ok ?w4 cs' a (get_bin_index (of_nat n)) ?L"
    unfolding taken_ok_def using row2 ch4 ac'(1) bins get_bin_index_bounds [of "of_nat n"] by auto
  moreover have "split_chunk fuel w (of_nat a) (of_nat r) = Inr ?w4"
  proof -
    have sp: "of_nat a + overhead + of_nat r = (of_nat b :: u32)" by (simp add: bn(2) overhead_def footer_size_def node_size_def)
    have rest: "of_nat n - of_nat r - overhead = (of_nat n' :: u32)" by (simp add: bn(3) overhead_def footer_size_def node_size_def)
    have za: "zs (hbytes w) a = of_nat n" by (rule heap_inv_size(1) [OF inv' ac])
    have zb1: "zs ?m1 b = of_nat n'" by (simp add: get32_put32_other get32_put32_same)
    show ?thesis
      unfolding split_chunk_def Let_def sp
      using na' na2 by (simp add: ld_field st_field za rest foot1 zb1 w2(1) foot4)
  qed
  ultimately show ?thesis using f2 user_same_trans [OF u1 user_same_trans [OF u2 u4]]
    by (intro exI [of _ ?w4] exI [of _ ?L]) simp
qed

end
