(* ===== verification/Heap_Operations.thy ===== *)
theory Heap_Operations
  imports Heap_Correct
begin

subsection \<open>Allocation\<close>

text \<open>What an allocation of \<open>r\<close> bytes in the hole at \<open>a\<close> does to the row, and the size of the last chunk.\<close>

definition alloc_row :: "nat \<Rightarrow> nat \<Rightarrow> chunk list \<Rightarrow> chunk list" where
  "alloc_row a r cs = concat (map (\<lambda>(b, n, h).
     if b = a then (if r + 24 < n then [(b, r, False), (b + 20 + r, n - r - 20, True)] else [(b, n, False)])
     else [(b, n, h)]) cs)"

definition wild_size :: "chunk list \<Rightarrow> nat" where
  "wild_size cs = fst (snd (last cs))"

definition wild_ok :: "chunk list \<Rightarrow> bool" where
  "wild_ok cs \<longleftrightarrow> 0x2000 \<le> wild_size cs \<and> wild_size cs \<le> 0x1000000"

lemma alloc_row_split:
  assumes "tiled x (pre @ (a, n, h) # post) e"
  shows "alloc_row a r (pre @ (a, n, h) # post) =
    pre @ (if r + 24 < n then [(a, r, False), (a + 20 + r, n - r - 20, True)] else [(a, n, False)]) @ post"
proof -
  have same: "concat (map (\<lambda>(b, n, h).
     if b = a then (if r + 24 < n then [(b, r, False), (b + 20 + r, n - r - 20, True)] else [(b, n, False)])
     else [(b, n, h)]) ds) = ds" if "a \<notin> addrs ds" for ds :: "chunk list"
    using that by (induction ds) auto
  show ?thesis using tiled_split [OF assms] same [of pre] same [of post] by (simp add: alloc_row_def)
qed

text \<open>The links of a chunk in use belong to the user: writing them keeps the invariant.\<close>

lemma user_links_ok:
  assumes inv: "heap_inv w cs L" and a: "(a, n, False) \<in> set cs"
  shows "heap_inv (w\<lparr>hbytes := put32 (put32 (hbytes w) (a + 12) x) (a + 8) y, heap := (heap w)\<lparr>bytes_allocated := z\<rparr>\<rparr>) cs L"
proof -
  let ?m = "put32 (put32 (hbytes w) (a + 12) x) (a + 8) y"
  let ?w = "w\<lparr>hbytes := ?m, heap := (heap w)\<lparr>bytes_allocated := z\<rparr>\<rparr>"
  have row: "row_ok w cs" using inv by (simp add: heap_inv_def)
  then have ti: "tiled (unat (h_start (heap w))) cs (unat (h_end (heap w)))" by (simp add: row_ok_def)
  have lk: "links_of {a} (hbytes w) ?m" by (simp add: links_of_put links_of_refl)
  have aA: "{a} \<subseteq> addrs cs" using a by force
  have "chunk_ok ?m c" if "c \<in> set cs" for c
    using chunk_links [OF ti lk aA that] inv that by (simp add: heap_inv_def)
  moreover have "bin_ok ?w (holes cs k) k (L k)" if "k \<le> 8" for k
  proof (rule bin_keep [of w])
    show "bin_ok w (holes cs k) k (L k)" using inv that by (simp add: heap_inv_def)
    fix b assume b: "b \<in> holes cs k"
    then have "b \<in> addrs cs" using holes_addrs [of cs k] by blast
    moreover have "b \<notin> {a}" using b tiled_unique [OF ti a] by (auto simp: holes_def)
    ultimately show "nx (hbytes ?w) b = nx (hbytes w) b \<and> pv (hbytes ?w) b = pv (hbytes w) b \<and> zs (hbytes ?w) b = zs (hbytes w) b"
      using links_size [OF tiled_spaced [OF ti] lk aA] by simp
  qed simp
  ultimately show ?thesis using row by (simp add: heap_inv_def row_ok_def)
qed

lemma wilderness:
  assumes inv: "heap_inv w cs L"
  shows "get_wilderness w = Inr (of_nat (fst (last cs)))" and "ld w (f_size (of_nat (fst (last cs)))) = Inr (of_nat (wild_size cs))"
    and "unat (of_nat (wild_size cs) :: u32) = wild_size cs" and "last cs \<in> set cs" and "cs \<noteq> []"
proof -
  have row: "row_ok w cs" using inv by (simp add: heap_inv_def)
  then have ne: "cs \<noteq> []" and ti: "tiled (unat (h_start (heap w))) cs (unat (h_end (heap w)))" by (simp_all add: row_ok_def)
  obtain pre a n h where cs: "cs = pre @ [(a, n, h)]" using ne by (cases cs rule: rev_exhaust) auto
  then have e: "a + 20 + n = unat (h_end (heap w))" "unat (h_start (heap w)) \<le> a"
    using ti tiled_bounds [OF ti, of a n h] by (auto simp: tiled_append)
  have c: "(a, n, h) \<in> set cs" by (simp add: cs)
  have "h_end (heap w) = of_nat (a + 20 + n)" using e(1) by simp
  then have f: "h_end (heap w) - footer_size = of_nat (a + 16 + n)" by (simp add: footer_size_def)
  show "get_wilderness w = Inr (of_nat (fst (last cs)))"
    using row_word(2) [OF row, of "a + 16 + n"] e inv c
    by (auto simp: get_wilderness_def f heap_inv_def chunk_ok_def cs simp del: of_nat_add)
  show "ld w (f_size (of_nat (fst (last cs)))) = Inr (of_nat (wild_size cs))"
    using ld_field(2) [OF row_nodes [OF row, of a]] heap_inv_size(1) [OF inv c] by (force simp: cs wild_size_def)
  show "unat (of_nat (wild_size cs) :: u32) = wild_size cs"
    using heap_inv_size(2) [OF inv c] by (simp add: cs wild_size_def)
  show "last cs \<in> set cs" "cs \<noteq> []" using ne by simp_all
qed

lemma check_wilderness_ok:
  assumes inv: "heap_inv w cs L" and "wild_ok cs"
  shows "check_wilderness w = Inr (True, w)"
  using wilderness [OF inv] assms(2)
  by (simp add: check_wilderness_def wild_ok_def MIN_WILDERNESS_def MAX_WILDERNESS_def u32_less_unat)

text \<open>The hole that was found is marked, taken from its bin and, if it is large, split.\<close>

lemma found_taken:
  assumes inv: "heap_inv w cs L" and a: "best_hole cs (unat r) a n" and fuel: "Suc (length cs) < fuel"
  shows "\<exists>w' L'. bindE (ld w (f_size (of_nat a))) (\<lambda>fs.
       bindE (if fs - r > overhead + MIN_ALLOC_SZ then split_chunk fuel w (of_nat a) r else Inr w) (\<lambda>w.
       bindE (st w (f_hole (of_nat a)) 0) (\<lambda>w. remove_node fuel w (get_bin_index (of_nat n)) (of_nat a)))) = Inr w' \<and>
    heap_inv w' (alloc_row a (unat r) cs) L' \<and> hmapped w' = hmapped w \<and> hvm w' = hvm w \<and>
    h_start (heap w') = h_start (heap w) \<and> h_end (heap w') = h_end (heap w) \<and>
    bytes_allocated (heap w') = bytes_allocated (heap w) \<and> user_same cs (hbytes w) (hbytes w')"
proof -
  have ac: "(a, n, True) \<in> set cs" and rn: "unat r \<le> n" using a by (auto simp: best_hole_def)
  then obtain pre post where cs: "cs = pre @ (a, n, True) # post" by (meson split_list)
  have row: "row_ok w cs" using inv by (simp add: heap_inv_def)
  then have ti: "tiled (unat (h_start (heap w))) (pre @ (a, n, True) # post) (unat (h_end (heap w)))" by (simp add: row_ok_def cs)
  have sz: "ld w (f_size (of_nat a)) = Inr (of_nat n)"
    using ld_field(2) [OF row_nodes [OF row, of a]] heap_inv_size(1) [OF inv ac] ac by force
  have n: "unat (of_nat n :: u32) = n" by (rule heap_inv_size(2) [OF inv ac])
  have "unat (of_nat n - r) = n - unat r"
    using unat_sub_no_wrap [of r "of_nat n"] rn n by (simp add: u32_le_unat)
  then have big: "of_nat n - r > overhead + MIN_ALLOC_SZ \<longleftrightarrow> unat r + 24 < n"
    by (auto simp: u32_less_unat overhead_def MIN_ALLOC_SZ_def footer_size_def node_size_def)
  show ?thesis
  proof (cases "unat r + 24 < n")
    case True
    have len: "length (pre @ (a, unat r, True) # (a + 20 + unat r, n - unat r - 20, True) # post) < fuel" using fuel by (simp add: cs)
    obtain w1 L1 where w1: "split_chunk fuel w (of_nat a) r = Inr w1"
      "taken_ok w1 (pre @ (a, unat r, True) # (a + 20 + unat r, n - unat r - 20, True) # post) a (get_bin_index (of_nat n)) L1"
      "hmapped w1 = hmapped w" "hvm w1 = hvm w" "h_start (heap w1) = h_start (heap w)" "h_end (heap w1) = h_end (heap w)"
      "bytes_allocated (heap w1) = bytes_allocated (heap w)" "user_same cs (hbytes w) (hbytes w1)"
      using split_chunk_ok [OF inv [unfolded cs] True, of fuel] fuel unfolding cs by (simp del: of_nat_add) blast
    obtain w2 L2 where w2: "bindE (st w1 (f_hole (of_nat a)) 0) (\<lambda>w. remove_node fuel w (get_bin_index (of_nat n)) (of_nat a)) = Inr w2"
      "heap_inv w2 (pre @ (a, unat r, False) # (a + 20 + unat r, n - unat r - 20, True) # post) L2"
      "hmapped w2 = hmapped w1" "hvm w2 = hvm w1" "h_start (heap w2) = h_start (heap w1)" "h_end (heap w2) = h_end (heap w1)"
      "bytes_allocated (heap w2) = bytes_allocated (heap w1)"
      "user_same (pre @ (a, unat r, True) # (a + 20 + unat r, n - unat r - 20, True) # post) (hbytes w1) (hbytes w2)"
      using take_hole [OF w1(2), of fuel, OF len] by blast
    have "user_same cs (hbytes w1) (hbytes w2)" using w2(8) by (auto simp: user_same_def cs)
    then show ?thesis
      using w1 w2 sz big True user_same_trans [OF w1(8)] by (auto simp: cs alloc_row_split [OF ti])
  next
    case False
    have "taken_ok w (pre @ (a, n, True) # post) a (get_bin_index (of_nat n)) L"
      using heap_inv_taken [OF inv ac] by (simp add: cs)
    from take_hole [OF this, of fuel] show ?thesis
      using sz big False fuel by (auto simp: cs alloc_row_split [OF ti])
  qed
qed


lemma alloc_row_used:
  assumes ti: "tiled x cs e" and a: "(a, n, True) \<in> set cs" and "r \<le> n"
  shows "\<exists>m. (a, m, False) \<in> set (alloc_row a r cs) \<and> r \<le> m \<and> m \<le> n"
    and "(b, l, False) \<in> set cs \<Longrightarrow> (b, l, False) \<in> set (alloc_row a r cs)"
proof -
  obtain pre post where cs: "cs = pre @ (a, n, True) # post" using a by (meson split_list)
  note e = alloc_row_split [OF ti [unfolded cs], of r, folded cs]
  show "\<exists>m. (a, m, False) \<in> set (alloc_row a r cs) \<and> r \<le> m \<and> m \<le> n"
    by (rule exI [of _ "if r + 24 < n then r else n"]) (use assms(3) in \<open>auto simp: e\<close>)
  assume "(b, l, False) \<in> set cs"
  then show "(b, l, False) \<in> set (alloc_row a r cs)" unfolding e by (auto simp: cs)
qed

text \<open>The search of \<open>heap_alloc\<close>, from the bin of the size asked for up.\<close>

lemma heap_search:
  assumes inv: "heap_inv w cs L" and fuel: "length cs < fuel"
  shows "(search_bins fuel (BIN_MAX_IDX - get_bin_index r) w r (get_bin_index r) = Inr (0, 8) \<and>
      (\<forall>b l. (b, l, True) \<in> set cs \<longrightarrow> l < unat r)) \<or>
    (\<exists>a n. search_bins fuel (BIN_MAX_IDX - get_bin_index r) w r (get_bin_index r) = Inr (of_nat a, get_bin_index (of_nat n)) \<and>
      best_hole cs (unat r) a n)"
proof (rule search_bins_ok [OF inv fuel])
  show "get_bin_index r + (BIN_MAX_IDX - get_bin_index r) = 8"
    using get_bin_index_bounds [of r] by (simp add: BIN_MAX_IDX_def BIN_COUNT_def)
  show "\<forall>b l. (b, l, True) \<in> set cs \<and> unat r \<le> l \<longrightarrow> get_bin_index r \<le> get_bin_index (of_nat l)"
    using heap_inv_size(2) [OF inv] by (auto intro!: get_bin_index_mono simp: u32_le_unat)
qed

lemma heap_alloc_none:
  assumes inv: "heap_inv w cs L" and fuel: "length cs < fuel" and "\<forall>b l. (b, l, True) \<in> set cs \<longrightarrow> l < unat r"
  shows "heap_alloc fuel w r = Inr (NULL, w)"
  using heap_search [OF inv fuel, of r] assms(3) by (force simp: heap_alloc_def best_hole_def)

definition heap_grows :: "heap_world \<Rightarrow> heap_world \<Rightarrow> chunk list \<Rightarrow> chunk list \<Rightarrow> bool" where
  "heap_grows w w' cs cs' \<longleftrightarrow> (\<exists>L'. heap_inv w' cs' L') \<and> user_same cs (hbytes w) (hbytes w') \<and> hmapped w' = hmapped w \<and>
     hvm w' = hvm w \<and> h_start (heap w') = h_start (heap w) \<and> h_end (heap w') = h_end (heap w)"

lemma heap_alloc_found:
  assumes inv: "heap_inv w cs L" and fuel: "Suc (length cs) < fuel" and "(b, l, True) \<in> set cs" and "unat r \<le> l"
  shows "\<exists>a n. best_hole cs (unat r) a n \<and> (wild_ok (alloc_row a (unat r) cs) \<longrightarrow>
    (\<exists>w' m. heap_alloc fuel w r = Inr (of_nat (a + 8), w') \<and> heap_grows w w' cs (alloc_row a (unat r) cs) \<and>
      (a, m, False) \<in> set (alloc_row a (unat r) cs) \<and> unat r \<le> m \<and>
      bytes_allocated (heap w') = bytes_allocated (heap w) + of_nat m))"
proof -
  obtain a n where s: "search_bins fuel (BIN_MAX_IDX - get_bin_index r) w r (get_bin_index r) = Inr (of_nat a, get_bin_index (of_nat n))"
    and a: "best_hole cs (unat r) a n"
    using heap_search [OF inv, of fuel r] fuel assms(3,4) by fastforce
  let ?cs = "alloc_row a (unat r) cs"
  have ac: "(a, n, True) \<in> set cs" "unat r \<le> n" using a by (auto simp: best_hole_def)
  have ti: "tiled (unat (h_start (heap w))) cs (unat (h_end (heap w)))" using inv by (simp add: heap_inv_def row_ok_def)
  obtain m where m: "(a, m, False) \<in> set ?cs" "unat r \<le> m" using alloc_row_used(1) [OF ti ac] by blast
  obtain w1 L1 where w1: "bindE (ld w (f_size (of_nat a))) (\<lambda>fs.
       bindE (if fs - r > overhead + MIN_ALLOC_SZ then split_chunk fuel w (of_nat a) r else Inr w) (\<lambda>w.
       bindE (st w (f_hole (of_nat a)) 0) (\<lambda>w. remove_node fuel w (get_bin_index (of_nat n)) (of_nat a)))) = Inr w1"
    "heap_inv w1 ?cs L1" "hmapped w1 = hmapped w" "hvm w1 = hvm w" "h_start (heap w1) = h_start (heap w)"
    "h_end (heap w1) = h_end (heap w)" "bytes_allocated (heap w1) = bytes_allocated (heap w)" "user_same cs (hbytes w) (hbytes w1)"
    using found_taken [OF inv a fuel] by blast
  have row1: "row_ok w1 ?cs" using w1(2) by (simp add: heap_inv_def)
  have na: "heap_node_at w1 a" using row_nodes [OF row1] m(1) by force
  have nz: "(of_nat a :: u32) \<noteq> NULL" using field_unat(6) [OF na] by simp
  define w2 where "w2 = w1\<lparr>hbytes := put32 (put32 (hbytes w1) (a + 12) NULL) (a + 8) NULL,
    heap := (heap w1)\<lparr>bytes_allocated := bytes_allocated (heap w1) + of_nat m\<rparr>\<rparr>"
  have inv2: "heap_inv w2 ?cs L1" unfolding w2_def by (rule user_links_ok [OF w1(2) m(1)])
  have zm: "zs (hbytes w1) a = of_nat m" by (rule heap_inv_size(1) [OF w1(2) m(1)])
  have "heap_alloc fuel w r = Inr (of_nat (a + 8), w2)" if "wild_ok ?cs"
  proof -
    have "bindE (bindE (ld w (f_size (of_nat a))) (\<lambda>fs.
       bindE (if fs - r > overhead + MIN_ALLOC_SZ then split_chunk fuel w (of_nat a) r else Inr w) (\<lambda>w.
       bindE (st w (f_hole (of_nat a)) 0) (\<lambda>w. remove_node fuel w (get_bin_index (of_nat n)) (of_nat a))))) f = f w1"
      for f :: "heap_world \<Rightarrow> fault + (ptr \<times> heap_world)" using w1(1) by simp
    moreover have fn: "of_nat (a + 8) = f_next (of_nat a)" by (simp add: f_next_def)
    ultimately show ?thesis
      unfolding fn using s nz check_wilderness_ok [OF w1(2) that] na zm
      by (simp add: heap_alloc_def bindE_assoc ld_field st_field w2_def get32_put32_other)
  qed
  moreover have "user_same cs (hbytes w1) (hbytes w2)"
  proof -
    have "user_same cs (hbytes w1) (put32 (put32 (hbytes w1) (a + 12) NULL) (a + 8) NULL)"
      by (rule user_same_trans [OF put_user [OF ti ac(1)] put_user [OF ti ac(1)]]) simp_all
    then show ?thesis by (simp add: w2_def)
  qed
  then have "user_same cs (hbytes w) (hbytes w2)" by (rule user_same_trans [OF w1(8)])
  then have "heap_grows w w2 cs ?cs" using inv2 w1(3-6) by (auto simp: heap_grows_def w2_def)
  moreover have "bytes_allocated (heap w2) = bytes_allocated (heap w) + of_nat m" using w1(7) by (simp add: w2_def)
  ultimately show ?thesis using a m by blast
qed


subsection \<open>Freeing\<close>

text \<open>
  While a chunk is freed, the chunks that will be joined are out of their bins: their sizes and footers
  are as the row says, their flags need not be. \<open>X\<close> are the addresses of these chunks.
\<close>

definition sized_ok :: "(nat \<Rightarrow> u8) \<Rightarrow> chunk \<Rightarrow> bool" where
  "sized_ok m c = (case c of (a, n, h) \<Rightarrow> get32 m (a + 4) = of_nat n \<and> get32 m (a + 16 + n) = of_nat a)"

definition loose_ok :: "heap_world \<Rightarrow> chunk list \<Rightarrow> nat set \<Rightarrow> (nat \<Rightarrow> nat list) \<Rightarrow> bool" where
  "loose_ok w cs X L \<longleftrightarrow> row_ok w cs \<and>
     (\<forall>c \<in> set cs. sized_ok (hbytes w) c \<and> (fst c \<notin> X \<longrightarrow> chunk_ok (hbytes w) c)) \<and>
     (\<forall>k \<le> 8. bin_ok w (holes cs k - X) k (L k))"

definition same_heap :: "heap_world \<Rightarrow> heap_world \<Rightarrow> bool" where
  "same_heap w w' \<longleftrightarrow> hmapped w' = hmapped w \<and> hvm w' = hvm w \<and> h_start (heap w') = h_start (heap w) \<and>
     h_end (heap w') = h_end (heap w) \<and> bytes_allocated (heap w') = bytes_allocated (heap w)"

lemma same_heap_simps [simp]:
  "same_heap w (w\<lparr>hbytes := m\<rparr>)" "same_heap w w"
  by (simp_all add: same_heap_def)

lemma same_heap_trans: "same_heap w w' \<Longrightarrow> same_heap w' w'' \<Longrightarrow> same_heap w w''"
  by (simp add: same_heap_def)

lemma chunk_sized: "chunk_ok m c \<Longrightarrow> sized_ok m c"
  by (auto simp: chunk_ok_def sized_ok_def)

lemma loose_all: "heap_inv w cs L \<longleftrightarrow> loose_ok w cs {} L"
  by (auto simp: heap_inv_def loose_ok_def chunk_sized)

lemma loose_word:
  assumes "loose_ok w cs X L" and "(a, n, h) \<in> set cs"
  shows "heap_node_at w a" "zs (hbytes w) a = of_nat n" "unat (of_nat n :: u32) = n" "a + 20 + n \<le> unat (h_end (heap w))"
    "unat (h_start (heap w)) \<le> a" "a \<notin> X \<Longrightarrow> get32 (hbytes w) a = (if h then 1 else 0)"
    "ld w (f_size (of_nat a)) = Inr (of_nat n)" "get_foot w (of_nat a) = Inr (of_nat (a + 16 + n))"
    "ld w (of_nat (a + 16 + n)) = Inr (of_nat a)"
proof -
  have row: "row_ok w cs" using assms(1) by (simp add: loose_ok_def)
  then have ti: "tiled (unat (h_start (heap w))) cs (unat (h_end (heap w)))" by (simp add: row_ok_def)
  show na: "heap_node_at w a" by (rule row_nodes [OF row]) (use assms(2) in force)
  show z: "zs (hbytes w) a = of_nat n" and "a \<notin> X \<Longrightarrow> get32 (hbytes w) a = (if h then 1 else 0)"
    using assms by (auto simp: loose_ok_def chunk_ok_def sized_ok_def)
  show b: "a + 20 + n \<le> unat (h_end (heap w))" "unat (h_start (heap w)) \<le> a" using tiled_bounds [OF ti assms(2)] by auto
  then show "unat (of_nat n :: u32) = n" using u32_unat_lt [of "h_end (heap w)"] by (intro unat_of_nat_u32) simp
  show "ld w (f_size (of_nat a)) = Inr (of_nat n)" using na z by (simp add: ld_field)
  show "get_foot w (of_nat a) = Inr (of_nat (a + 16 + n))" by (rule create_foot_ok(2) [OF row na z b(2,1)])
  show "ld w (of_nat (a + 16 + n)) = Inr (of_nat a)"
    using row_word(2) [OF row, of "a + 16 + n"] b assms by (auto simp: loose_ok_def sized_ok_def simp del: of_nat_add)
qed

lemma loose_in_use:
  assumes inv: "heap_inv w (pre @ (a, n, False) # post) L"
  shows "loose_ok w (pre @ (a, n, True) # post) {a} L"
proof -
  let ?cs = "pre @ (a, n, False) # post" and ?cs' = "pre @ (a, n, True) # post"
  have ti: "tiled (unat (h_start (heap w))) ?cs (unat (h_end (heap w)))" using inv by (simp add: heap_inv_def row_ok_def)
  have "holes ?cs' k - {a} = holes ?cs k" for k
    using tiled_split [OF ti] by (force simp: holes_def)
  moreover have "row_ok w ?cs'" using inv ti by (auto simp: heap_inv_def row_ok_def tiled_append)
  moreover have "sized_ok (hbytes w) (a, n, True)" "\<forall>c \<in> set pre \<union> set post. chunk_ok (hbytes w) c"
    using inv by (auto simp: heap_inv_def chunk_ok_def sized_ok_def)
  ultimately show ?thesis
    using inv chunk_sized by (auto simp: loose_ok_def heap_inv_def)
qed

text \<open>A hole leaves its bin.\<close>

lemma loose_unbin:
  assumes lo: "loose_ok w cs X L" and y: "(y, l, True) \<in> set cs" "y \<notin> X" and fuel: "length cs < fuel"
  shows "\<exists>w' L'. remove_node fuel w (get_bin_index (of_nat l)) (of_nat y) = Inr w' \<and> loose_ok w' cs (insert y X) L' \<and>
    same_heap w w' \<and> user_same cs (hbytes w) (hbytes w')"
proof -
  let ?k = "get_bin_index (of_nat l)"
  let ?H = "holes cs ?k - X"
  have k: "?k \<le> 8" using get_bin_index_bounds by blast
  have row: "row_ok w cs" using lo by (simp add: loose_ok_def)
  then have ti: "tiled (unat (h_start (heap w))) cs (unat (h_end (heap w)))" by (simp add: row_ok_def)
  note sp = tiled_spaced [OF ti]
  have b: "bin_ok w (holes cs j - X) j (L j)" if "j \<le> 8" for j using lo that by (simp add: loose_ok_def)
  have H: "?H \<subseteq> addrs cs" using holes_addrs [of cs ?k] by blast
  then have "card ?H < fuel" using card_mono [OF _ H] addrs_card [of cs] fuel by simp
  moreover have "y \<in> ?H" using hole_bin [OF ti y(1), of ?k] y(2) by simp
  ultimately have "\<exists>w' ys. remove_node fuel w ?k (of_nat y) = Inr w' \<and> relinked (?H - {y}) ?k w w' \<and> bin_ok w' (?H - {y}) ?k ys"
    using b [OF k] row_nodes [OF row] by (intro bin_remove [OF sp _ H]) (auto simp: bin_ok_def intro: sorted_filter)
  then obtain w' ys where w': "remove_node fuel w ?k (of_nat y) = Inr w'" "relinked (?H - {y}) ?k w w'" "bin_ok w' (?H - {y}) ?k ys"
    by blast
  note f = relinked_fields [OF w'(2)]
  have B: "?H - {y} \<subseteq> addrs cs" using H by blast
  have "loose_ok w' cs (insert y X) (L(?k := ys))"
    unfolding loose_ok_def
  proof (intro conjI ballI allI impI)
    show "row_ok w' cs" by (rule row_ok_cong [OF row]) (use f ti row in \<open>simp_all add: row_ok_def\<close>)
    fix c assume c: "c \<in> set cs"
    have keep: "get32 (hbytes w') q = get32 (hbytes w) q" if "fst c \<le> q" "q + 4 \<le> fst c + 8 \<or> fst c + 16 \<le> q" "q + 4 \<le> fst c + 20 + fst (snd c)" for q
    proof (rule links_of_get32 [OF f(7)])
      fix x assume x: "x \<in> ?H - {y}"
      then obtain m i where "(x, m, i) \<in> set cs" using B by force
      from tiled_disjoint [OF ti _ this, of "fst c" "fst (snd c)" "snd (snd c)"] c
      show "q + 4 \<le> x + 8 \<or> x + 16 \<le> q" using that by fastforce
    qed
    show "sized_ok (hbytes w') c" using lo c keep by (fastforce simp: loose_ok_def sized_ok_def)
    assume "fst c \<notin> insert y X"
    then have "chunk_ok (hbytes w) c" using lo c by (auto simp: loose_ok_def)
    then show "chunk_ok (hbytes w') c" by (rule chunk_links [OF ti f(7) B c])
  next
    fix j :: nat assume j: "j \<le> 8"
    show "bin_ok w' (holes cs j - insert y X) j ((L(?k := ys)) j)"
    proof (cases "j = ?k")
      case True
      have "?H - {y} = holes cs ?k - insert y X" by auto
      with w'(3) True show ?thesis by simp
    next
      case False
      then have yj: "y \<notin> holes cs j" using hole_bin [OF ti y(1), of j] by auto
      then have "holes cs j - insert y X = holes cs j - X" by blast
      moreover have "bin_ok w' (holes cs j - X) j (L j)"
      proof (rule bin_keep [OF b [OF j] f(6) [OF False]])
        fix x assume x: "x \<in> holes cs j - X"
        then have "x \<notin> ?H - {y}" using hole_bins_disjoint [OF ti, of x j ?k] False by auto
        moreover have "x \<in> addrs cs" using x holes_addrs [of cs j] by auto
        ultimately show "nx (hbytes w') x = nx (hbytes w) x \<and> pv (hbytes w') x = pv (hbytes w) x \<and> zs (hbytes w') x = zs (hbytes w) x"
          using links_size [OF sp f(7) B] by simp
      qed
      ultimately show ?thesis using False by simp
    qed
  qed
  moreover have "user_same cs (hbytes w) (hbytes w')"
    by (rule user_same_links [OF ti f(7)]) (auto simp: holes_def)
  ultimately show ?thesis using w'(1) f by (auto simp: same_heap_def)
qed


text \<open>Two chunks that are out of their bins become one: only bytes inside of them change.\<close>

lemma loose_join:
  assumes lo: "loose_ok w (pre @ (a, n, True) # (b, m, True) # post) {a, b} L"
    and same: "\<And>x. x < a \<or> a + 40 + n + m \<le> x \<Longrightarrow> m' x = hbytes w x"
    and sz: "zs m' a = of_nat (n + 20 + m)" and ft: "get32 m' (b + 16 + m) = of_nat a"
  shows "loose_ok (w\<lparr>hbytes := m'\<rparr>) (pre @ (a, n + 20 + m, True) # post) {a} L"
    and "user_same (pre @ (a, n, True) # (b, m, True) # post) (hbytes w) m'"
proof -
  let ?cs = "pre @ (a, n, True) # (b, m, True) # post" and ?cs' = "pre @ (a, n + 20 + m, True) # post"
  have row: "row_ok w ?cs" using lo by (simp add: loose_ok_def)
  then have ti: "tiled (unat (h_start (heap w))) ?cs (unat (h_end (heap w)))" by (simp add: row_ok_def)
  then have b: "b = a + 20 + n" by (auto simp: tiled_append)
  have ti': "tiled (unat (h_start (heap w))) ?cs' (unat (h_end (heap w)))" using ti by (auto simp: tiled_append ac_simps)
  have out: "d + 20 + l \<le> a \<or> a + 40 + n + m \<le> d" if "(d, l, i) \<in> set ?cs" "d \<noteq> a" "d \<noteq> b" for d l i
    using tiled_disjoint [OF ti' _, of a "n + 20 + m" True d l i] that by auto
  have keep: "get32 m' q = get32 (hbytes w) q" if "(d, l, i) \<in> set ?cs" "d \<noteq> a" "d \<noteq> b" "d \<le> q" "q + 4 \<le> d + 20 + l" for d l i q
    using out [OF that(1-3)] that(4,5) by (intro get32_cong same) auto
  have new: "c = (a, n + 20 + m, True) \<or> c \<in> set ?cs \<and> fst c \<noteq> a \<and> fst c \<noteq> b" if "c \<in> set ?cs'" for c
  proof -
    obtain d l i where c: "c = (d, l, i)" by (cases c)
    from tiled_disjoint [OF ti' _ that [unfolded c], of a "n + 20 + m" True] that show ?thesis using b by (auto simp: c)
  qed
  show "loose_ok (w\<lparr>hbytes := m'\<rparr>) ?cs' {a} L"
    unfolding loose_ok_def
  proof (intro conjI ballI allI impI)
    show "row_ok (w\<lparr>hbytes := m'\<rparr>) ?cs'" using row ti' by (simp add: row_ok_def)
    fix c assume c: "c \<in> set ?cs'"
    show "sized_ok (hbytes (w\<lparr>hbytes := m'\<rparr>)) c"
    proof (cases "c = (a, n + 20 + m, True)")
      case True
      have "b + 16 + m = a + 16 + (n + 20 + m)" using b by simp
      with ft have "get32 m' (a + 16 + (n + 20 + m)) = of_nat a" by (simp only:)
      then show ?thesis using sz True by (simp only: sized_ok_def prod.case heap_world.select_convs heap_world.update_convs heap_world.simps) simp
    next
      case False
      obtain d l i where d: "c = (d, l, i)" by (cases c)
      have old: "(d, l, i) \<in> set ?cs" "d \<noteq> a" "d \<noteq> b" using new [OF c] False unfolding d by auto
      then have "sized_ok (hbytes w) (d, l, i)" using lo unfolding loose_ok_def by blast
      then show ?thesis using keep [OF old] by (simp add: d sized_ok_def)
    qed
    assume ca: "fst c \<notin> {a}"
    obtain d l i where d: "c = (d, l, i)" by (cases c)
    have "c \<in> set ?cs" "d \<noteq> a" "d \<noteq> b" using new [OF c] ca by (auto simp: d)
    then have "chunk_ok (hbytes w) c" using lo by (auto simp: loose_ok_def d)
    then show "chunk_ok (hbytes (w\<lparr>hbytes := m'\<rparr>)) c"
      using keep [of d l i] \<open>c \<in> set ?cs\<close> \<open>d \<noteq> a\<close> \<open>d \<noteq> b\<close> by (simp add: d chunk_ok_def)
  next
    fix k :: nat assume "k \<le> 8"
    then have bk: "bin_ok w (holes ?cs k - {a, b}) k (L k)" using lo by (simp add: loose_ok_def)
    have e: "holes ?cs' k - {a} = holes ?cs k - {a, b}"
      using new by (fastforce simp: holes_def)
    show "bin_ok (w\<lparr>hbytes := m'\<rparr>) (holes ?cs' k - {a}) k (L k)"
      unfolding e
    proof (rule bin_keep [OF bk])
      fix x assume "x \<in> holes ?cs k - {a, b}"
      then obtain l where "(x, l, True) \<in> set ?cs" "x \<noteq> a" "x \<noteq> b" by (auto simp: holes_def)
      from keep [OF this] show "nx (hbytes (w\<lparr>hbytes := m'\<rparr>)) x = nx (hbytes w) x \<and>
          pv (hbytes (w\<lparr>hbytes := m'\<rparr>)) x = pv (hbytes w) x \<and> zs (hbytes (w\<lparr>hbytes := m'\<rparr>)) x = zs (hbytes w) x" by simp
    qed simp
  qed
  have "d + 20 + l \<le> a \<or> a + 40 + n + m \<le> d" if "(d, l, False) \<in> set ?cs" for d l
  proof (rule out [OF that])
    show "d \<noteq> a" "d \<noteq> b" using tiled_unique [OF ti that, of n True] tiled_unique [OF ti that, of m True] by auto
  qed
  then show "user_same ?cs (hbytes w) m'" unfolding user_same_def using same by fastforce
qed

lemma merge_prev_ok:
  assumes lo: "loose_ok w (pre @ (c, l, True) # (a, n, True) # post) {a} L"
    and fuel: "length (pre @ (c, l, True) # (a, n, True) # post) < fuel"
  shows "\<exists>w' L'. merge_prev fuel w (of_nat c) (of_nat a) = Inr w' \<and> loose_ok w' (pre @ (c, l + 20 + n, True) # post) {c} L' \<and>
    same_heap w w' \<and> user_same (pre @ (c, l, True) # (a, n, True) # post) (hbytes w) (hbytes w')"
proof -
  let ?cs = "pre @ (c, l, True) # (a, n, True) # post"
  have ti: "tiled (unat (h_start (heap w))) ?cs (unat (h_end (heap w)))" using lo by (simp add: loose_ok_def row_ok_def)
  then have a: "a = c + 20 + l" by (auto simp: tiled_append)
  obtain w1 L1 where w1: "remove_node fuel w (get_bin_index (of_nat l)) (of_nat c) = Inr w1" "loose_ok w1 ?cs {c, a} L1"
    "same_heap w w1" "user_same ?cs (hbytes w) (hbytes w1)"
    using loose_unbin [OF lo, of c l fuel] a fuel by auto
  let ?m1 = "put32 (hbytes w1) (c + 4) (of_nat (l + 20 + n))"
  let ?m = "put32 ?m1 (a + 16 + n) (of_nat c)"
  have c0: "ld w (f_size (of_nat c)) = Inr (of_nat l)" using loose_word(7) [OF lo, of c l True] by simp
  have cc: "(c, l, True) \<in> set ?cs" and aa: "(a, n, True) \<in> set ?cs" by simp_all
  note c1 = loose_word [OF w1(2) cc] and a1 = loose_word [OF w1(2) aa]
  have st1: "st w1 (f_size (of_nat c)) (of_nat l + (overhead + of_nat n)) = Inr (w1\<lparr>hbytes := ?m1\<rparr>)"
    using st_field(2) [OF c1(1)] by (simp add: overhead_def footer_size_def node_size_def ac_simps)
  have row1: "row_ok w1 ?cs" using w1(2) by (simp add: loose_ok_def)
  have "zs ?m1 a = of_nat n" using a1(2) a by (simp add: get32_put32_other)
  then have gf: "get_foot (w1\<lparr>hbytes := ?m1\<rparr>) (of_nat a) = Inr (of_nat (a + 16 + n))"
    using a1 row1 by (intro create_foot_ok(2)) simp_all
  have "st (w1\<lparr>hbytes := ?m1\<rparr>) (of_nat (a + 16 + n)) (of_nat c) = Inr (w1\<lparr>hbytes := ?m\<rparr>)"
    using row_word(1) [of "w1\<lparr>hbytes := ?m1\<rparr>" ?cs "a + 16 + n"] row1 a1 by (simp del: of_nat_add)
  then have "merge_prev fuel w (of_nat c) (of_nat a) = Inr (w1\<lparr>hbytes := ?m\<rparr>)"
    using w1(1) c0 c1(7) a1(7) st1 gf by (simp add: merge_prev_def del: of_nat_add)
  moreover have "loose_ok (w1\<lparr>hbytes := ?m\<rparr>) (pre @ (c, l + 20 + n, True) # post) {c} L1"
    "user_same ?cs (hbytes w1) ?m"
  proof -
    have "zs ?m c = of_nat (l + 20 + n)" "get32 ?m (a + 16 + n) = of_nat c"
      using a by (simp_all add: get32_put32_other get32_put32_same del: of_nat_add)
    moreover have "?m x = hbytes w1 x" if "x < c \<or> c + 40 + l + n \<le> x" for x
      using a that by (auto simp: put32_byte)
    ultimately show "loose_ok (w1\<lparr>hbytes := ?m\<rparr>) (pre @ (c, l + 20 + n, True) # post) {c} L1"
      "user_same ?cs (hbytes w1) ?m" by (intro loose_join [OF w1(2)]; simp)+
  qed
  ultimately show ?thesis using w1(3) user_same_trans [OF w1(4)] same_heap_trans [OF w1(3)] by fastforce
qed

lemma merge_next_ok:
  assumes lo: "loose_ok w (pre @ (a, n, True) # (b, m, True) # post) {a} L"
    and fuel: "length (pre @ (a, n, True) # (b, m, True) # post) < fuel"
  shows "\<exists>w' L'. merge_next fuel w (of_nat b) (of_nat a) = Inr w' \<and> loose_ok w' (pre @ (a, n + 20 + m, True) # post) {a} L' \<and>
    same_heap w w' \<and> user_same (pre @ (a, n, True) # (b, m, True) # post) (hbytes w) (hbytes w')"
proof -
  let ?cs = "pre @ (a, n, True) # (b, m, True) # post"
  have ti: "tiled (unat (h_start (heap w))) ?cs (unat (h_end (heap w)))" using lo by (simp add: loose_ok_def row_ok_def)
  then have b: "b = a + 20 + n" by (auto simp: tiled_append)
  obtain w1 L1 where w1: "remove_node fuel w (get_bin_index (of_nat m)) (of_nat b) = Inr w1" "loose_ok w1 ?cs {b, a} L1"
    "same_heap w w1" "user_same ?cs (hbytes w) (hbytes w1)"
    using loose_unbin [OF lo, of b m fuel] b fuel by auto
  have lo1: "loose_ok w1 ?cs {a, b} L1" using w1(2) by (simp add: insert_commute)
  have aa: "(a, n, True) \<in> set ?cs" and bb: "(b, m, True) \<in> set ?cs" by simp_all
  note b0 = loose_word(7) [OF lo bb] and a1 = loose_word [OF lo1 aa] and b1 = loose_word [OF lo1 bb]
  let ?m1 = "put32 (hbytes w1) (a + 4) (of_nat (n + 20 + m))"
  let ?m2 = "put32 ?m1 (b + 16 + m) 0"
  let ?m4 = "put32 (put32 ?m2 (b + 4) 0) b 0"
  let ?m = "put32 ?m4 (b + 16 + m) (of_nat a)"
  have row1: "row_ok w1 ?cs" using lo1 by (simp add: loose_ok_def)
  have st1: "st w1 (f_size (of_nat a)) (of_nat n + (overhead + of_nat m)) = Inr (w1\<lparr>hbytes := ?m1\<rparr>)"
    using st_field(2) [OF a1(1)] by (simp add: overhead_def footer_size_def node_size_def ac_simps)
  have "zs ?m1 b = of_nat m" using b1(2) b by (simp add: get32_put32_other)
  then have gf: "get_foot (w1\<lparr>hbytes := ?m1\<rparr>) (of_nat b) = Inr (of_nat (b + 16 + m))"
    using b1 row1 by (intro create_foot_ok(2)) simp_all
  have st2: "st (w1\<lparr>hbytes := ?m1\<rparr>) (of_nat (b + 16 + m)) 0 = Inr (w1\<lparr>hbytes := ?m2\<rparr>)"
    using row_word(1) [of "w1\<lparr>hbytes := ?m1\<rparr>" ?cs "b + 16 + m"] row1 b1 by (simp del: of_nat_add)
  have z: "zs ?m4 a = of_nat (n + 20 + m)" "get32 ?m (b + 16 + m) = of_nat a" "zs ?m a = of_nat (n + 20 + m)"
    using b by (simp_all add: get32_put32_other get32_put32_same del: of_nat_add)
  have e: "a + 16 + (n + 20 + m) = b + 16 + m" using b by simp
  have "create_foot (w1\<lparr>hbytes := ?m4\<rparr>) (of_nat a) = Inr (w1\<lparr>hbytes := ?m\<rparr>)"
    using create_foot_ok(1) [of "w1\<lparr>hbytes := ?m4\<rparr>" ?cs a "n + 20 + m"] row1 a1 b1(4) b z(1) unfolding e by simp
  then have "merge_next fuel w (of_nat b) (of_nat a) = Inr (w1\<lparr>hbytes := ?m\<rparr>)"
    using w1(1) b0 a1(7) b1(7) st1 gf st2 st_field [OF b1(1)] b1(1)
    by (simp add: merge_next_def st_field del: of_nat_add)
  moreover have "?m x = hbytes w1 x" if "x < a \<or> a + 40 + n + m \<le> x" for x
    using b that by (auto simp: put32_byte)
  then have "loose_ok (w1\<lparr>hbytes := ?m\<rparr>) (pre @ (a, n + 20 + m, True) # post) {a} L1" "user_same ?cs (hbytes w1) ?m"
    by (intro loose_join [OF lo1]; simp add: z del: of_nat_add)+
  ultimately show ?thesis using user_same_trans [OF w1(4)] same_heap_trans [OF w1(3)] by fastforce
qed


text \<open>The last step: the chunk is marked as a hole and enters its bin.\<close>

lemma enter_hole_ok:
  assumes lo: "loose_ok w cs {a} L" and a: "(a, n, True) \<in> set cs" and fuel: "length cs < fuel"
  shows "\<exists>w' L'. enter_hole fuel w (of_nat a) = Inr w' \<and> heap_inv w' cs L' \<and> same_heap w w' \<and>
    user_same cs (hbytes w) (hbytes w')"
proof -
  let ?k = "get_bin_index (of_nat n)" and ?w = "w\<lparr>hbytes := put32 (hbytes w) a 1\<rparr>"
  let ?H = "holes cs ?k - {a}"
  have k: "?k \<le> 8" using get_bin_index_bounds by blast
  have row: "row_ok w cs" using lo by (simp add: loose_ok_def)
  then have ti: "tiled (unat (h_start (heap w))) cs (unat (h_end (heap w)))" by (simp add: row_ok_def)
  note a0 = loose_word [OF lo a] and sp = tiled_spaced [OF ti]
  have sz: "ld ?w (f_size (of_nat a)) = Inr (of_nat n)" using a0(1,2) by (simp add: ld_field get32_put32_other)
  have ch: "chunk_ok (put32 (hbytes w) a 1) c" if c: "c \<in> set cs" for c
  proof (cases "fst c = a")
    case True
    then have "c = (a, n, True)" using tiled_unique [OF ti a] c by (cases c) auto
    moreover have "sized_ok (hbytes w) (a, n, True)" using lo a by (auto simp: loose_ok_def)
    ultimately show ?thesis by (simp add: chunk_ok_def sized_ok_def get32_put32_same get32_put32_other)
  next
    case False
    obtain d l i where d: "c = (d, l, i)" by (cases c)
    then have "d \<noteq> a" "chunk_ok (hbytes w) c" using lo c False by (auto simp: loose_ok_def)
    with put_chunk(1) [OF ti a _ _ c [unfolded d], of a] show ?thesis by (simp add: d)
  qed
  have b: "bin_ok ?w (holes cs j - {a}) j (L j)" if "j \<le> 8" for j
  proof (rule bin_keep [of w])
    show "bin_ok w (holes cs j - {a}) j (L j)" using lo that by (simp add: loose_ok_def)
    fix x assume "x \<in> holes cs j - {a}"
    then obtain l where "(x, l, True) \<in> set cs" "x \<noteq> a" by (auto simp: holes_def)
    from put_chunk(2-4) [OF ti a _ _ this, of a] show "nx (hbytes ?w) x = nx (hbytes w) x \<and> pv (hbytes ?w) x = pv (hbytes w) x \<and>
      zs (hbytes ?w) x = zs (hbytes w) x" by simp
  qed simp
  have H: "?H \<subseteq> addrs cs" "insert a ?H \<subseteq> addrs cs" using holes_addrs [of cs ?k] a by force+
  then have "card ?H < fuel" using card_mono [OF _ H(1)] addrs_card [of cs] fuel by simp
  then have "\<exists>w' ys. add_node fuel ?w ?k (of_nat a) = Inr w' \<and> relinked (insert a ?H) ?k ?w w' \<and> bin_ok w' (insert a ?H) ?k ys"
    using row_nodes [OF row] H b [OF k] by (intro bin_add [OF sp]) auto
  then obtain w' ys where w': "add_node fuel ?w ?k (of_nat a) = Inr w'" "relinked (insert a ?H) ?k ?w w'" "bin_ok w' (insert a ?H) ?k ys"
    by blast
  note f = relinked_fields [OF w'(2)]
  have ins: "insert a ?H = holes cs ?k" using hole_bin [OF ti a, of ?k] by blast
  have "heap_inv w' cs (L(?k := ys))"
    unfolding heap_inv_def
  proof (intro conjI ballI allI impI)
    show "row_ok w' cs" by (rule row_ok_cong [OF row]) (use f ti row in \<open>simp_all add: row_ok_def\<close>)
    show "chunk_ok (hbytes w') c" if "c \<in> set cs" for c
      using chunk_links [OF ti f(7) H(2) that] ch [OF that] by simp
    fix j :: nat assume j: "j \<le> 8"
    show "bin_ok w' (holes cs j) j ((L(?k := ys)) j)"
    proof (cases "j = ?k")
      case True
      then show ?thesis using w'(3) ins by simp
    next
      case False
      then have "holes cs j - {a} = holes cs j" using hole_bin [OF ti a, of j] by auto
      then have bj: "bin_ok ?w (holes cs j) j (L j)" using b [OF j] by simp
      have "bin_ok w' (holes cs j) j (L j)"
      proof (rule bin_keep [OF bj f(6) [OF False]])
        fix x assume x: "x \<in> holes cs j"
        then have "x \<notin> insert a ?H" using hole_bins_disjoint [OF ti x, of ?k] False ins by blast
        moreover have "x \<in> addrs cs" using x holes_addrs [of cs j] by auto
        ultimately show "nx (hbytes w') x = nx (hbytes ?w) x \<and> pv (hbytes w') x = pv (hbytes ?w) x \<and> zs (hbytes w') x = zs (hbytes ?w) x"
          using links_size [OF sp f(7) H(2)] by simp
      qed
      then show ?thesis using False by simp
    qed
  qed
  moreover have "user_same cs (hbytes w) (hbytes w')"
  proof (rule user_same_trans)
    show "user_same cs (hbytes w) (hbytes ?w)" using put_user [OF ti a] by simp
    show "user_same cs (hbytes ?w) (hbytes w')"
      by (rule user_same_links [OF ti f(7)]) (use ins in \<open>auto simp: holes_def\<close>)
  qed
  moreover have "enter_hole fuel w (of_nat a) = Inr w'"
    using st_field(1) [OF a0(1), of 1] sz w'(1) by (simp add: enter_hole_def)
  ultimately show ?thesis using f by (auto simp: same_heap_def)
qed


text \<open>What \<open>heap_free\<close> does to the row; a chunk at the start of the heap is not joined with the next.\<close>

definition join_next :: "nat \<Rightarrow> nat \<Rightarrow> chunk list \<Rightarrow> chunk list" where
  "join_next a n post = (case post of (b, m, True) # ps \<Rightarrow> (a, n + 20 + m, True) # ps | _ \<Rightarrow> (a, n, True) # post)"

definition free_row :: "chunk list \<Rightarrow> nat \<Rightarrow> nat \<Rightarrow> chunk list \<Rightarrow> chunk list" where
  "free_row pre a n post =
     (if pre = [] then (a, n, True) # post
      else case last pre of
        (c, l, True) \<Rightarrow> butlast pre @ join_next c (l + 20 + n) post
      | _ \<Rightarrow> pre @ join_next a n post)"

lemma user_same_mono: "user_same cs m m' \<Longrightarrow> {c \<in> set ds. \<not> snd (snd c)} \<subseteq> set cs \<Longrightarrow> user_same ds m m'"
  by (fastforce simp: user_same_def)

lemma free_next_ok:
  assumes lo: "loose_ok w (pre @ (x, k, True) # post) {x} L" and post: "post \<noteq> []" and fuel: "length (pre @ (x, k, True) # post) < fuel"
  shows "\<exists>w' L'. bindE (ld w (f_hole (of_nat (x + 20 + k)))) (\<lambda>nh.
      bindE (if nh \<noteq> 0 then merge_next fuel w (of_nat (x + 20 + k)) (of_nat x) else Inr w) (\<lambda>w.
      enter_hole fuel w (of_nat x))) = Inr w' \<and>
    heap_inv w' (pre @ join_next x k post) L' \<and> same_heap w w' \<and> user_same (pre @ post) (hbytes w) (hbytes w')"
proof -
  let ?cs = "pre @ (x, k, True) # post"
  have ti: "tiled (unat (h_start (heap w))) ?cs (unat (h_end (heap w)))" using lo by (simp add: loose_ok_def row_ok_def)
  obtain b m h ps where p: "post = (b, m, h) # ps" using post by (cases post) auto
  then have b: "b = x + 20 + k" using ti by (auto simp: tiled_append)
  have bc: "(b, m, h) \<in> set ?cs" by (simp add: p)
  have hole: "ld w (f_hole (of_nat b)) = Inr (if h then 1 else 0)"
  proof -
    have "b \<notin> {x}" using b by simp
    then show ?thesis using loose_word(6) [OF lo bc] ld_field(1) [OF loose_word(1) [OF lo bc]] by simp
  qed
  show ?thesis
  proof (cases h)
    case True
    obtain w1 L1 where w1: "merge_next fuel w (of_nat b) (of_nat x) = Inr w1" "loose_ok w1 (pre @ (x, k + 20 + m, True) # ps) {x} L1"
      "same_heap w w1" "user_same ?cs (hbytes w) (hbytes w1)"
      using merge_next_ok [of w pre x k b m ps L fuel] lo fuel p True by auto
    obtain w2 L2 where w2: "enter_hole fuel w1 (of_nat x) = Inr w2" "heap_inv w2 (pre @ (x, k + 20 + m, True) # ps) L2"
      "same_heap w1 w2" "user_same (pre @ (x, k + 20 + m, True) # ps) (hbytes w1) (hbytes w2)"
      using enter_hole_ok [OF w1(2), of "k + 20 + m" fuel] fuel p by auto
    have "user_same (pre @ post) (hbytes w) (hbytes w1)" by (rule user_same_mono [OF w1(4)]) (auto simp: p True)
    moreover have "user_same (pre @ post) (hbytes w1) (hbytes w2)" by (rule user_same_mono [OF w2(4)]) (auto simp: p True)
    ultimately have "user_same (pre @ post) (hbytes w) (hbytes w2)" by (rule user_same_trans)
    moreover have "join_next x k post = (x, k + 20 + m, True) # ps" by (simp add: join_next_def p True)
    ultimately show ?thesis
      using w1(1) w2(1,2) hole True same_heap_trans [OF w1(3) w2(3)]
      unfolding b [symmetric] by (intro exI [of _ w2] exI [of _ L2]) simp
  next
    case False
    obtain w2 L2 where w2: "enter_hole fuel w (of_nat x) = Inr w2" "heap_inv w2 ?cs L2" "same_heap w w2" "user_same ?cs (hbytes w) (hbytes w2)"
      using enter_hole_ok [OF lo, of k fuel] fuel by auto
    have "user_same (pre @ post) (hbytes w) (hbytes w2)" by (rule user_same_mono [OF w2(4)]) auto
    then show ?thesis using w2(1-3) hole False unfolding b [symmetric] by (auto simp: join_next_def p)
  qed
qed

lemma loose_ok_counter [simp]:
  "loose_ok (w\<lparr>heap := (heap w)\<lparr>bytes_allocated := z\<rparr>\<rparr>) cs X L = loose_ok w cs X L"
  "ld (w\<lparr>heap := h\<rparr>) a = ld w a" "get_foot (w\<lparr>heap := h\<rparr>) p = get_foot w p"
  by (simp_all add: loose_ok_def row_ok_def bin_ok_def ld_def get_foot_def word_mapped_def)

lemma heap_free_ok:
  assumes inv: "heap_inv w (pre @ (a, n, False) # post) L" and post: "post \<noteq> []"
    and fuel: "length (pre @ (a, n, False) # post) < fuel"
  shows "\<exists>w' L'. heap_free fuel w (of_nat (a + 8)) = Inr w' \<and> heap_inv w' (free_row pre a n post) L' \<and>
    user_same (pre @ post) (hbytes w) (hbytes w') \<and>
    same_heap (w\<lparr>heap := (heap w)\<lparr>bytes_allocated := bytes_allocated (heap w) - of_nat n\<rparr>\<rparr>) w'"
proof -
  let ?w = "w\<lparr>heap := (heap w)\<lparr>bytes_allocated := bytes_allocated (heap w) - of_nat n\<rparr>\<rparr>"
  let ?cs = "pre @ (a, n, True) # post"
  have lo: "loose_ok ?w ?cs {a} L" using loose_in_use [OF inv] by simp
  have ac: "(a, n, True) \<in> set ?cs" by simp
  note a0 = loose_word [OF lo ac]
  have ti: "tiled (unat (h_start (heap w))) ?cs (unat (h_end (heap w)))" using lo by (simp add: loose_ok_def row_ok_def)
  have p: "of_nat (a + 8) \<noteq> (NULL :: u32)" "of_nat (a + 8) - heap_offset = (of_nat a :: u32)"
  proof -
    show "of_nat (a + 8) - heap_offset = (of_nat a :: u32)" by (simp add: heap_offset_def)
    have "unat (of_nat (a + 8) :: u32) = a + 8" using field_unat(4) [OF a0(1)] by (simp add: f_next_def)
    then show "of_nat (a + 8) \<noteq> (NULL :: u32)" by auto
  qed
  have h_start: "of_nat a = h_start (heap w) \<longleftrightarrow> pre = []"
  proof
    assume "of_nat a = h_start (heap w)"
    then have "a = unat (h_start (heap w))" using field_unat(1) [OF a0(1)] by simp
    moreover from ti obtain y where "tiled (unat (h_start (heap w))) pre y" "y = a" by (auto simp: tiled_append)
    ultimately show "pre = []" by (cases pre) (fastforce dest: tiled_le)+
  next
    assume "pre = []"
    then show "of_nat a = h_start (heap w)" using ti by (auto simp flip: of_nat_unat_u32)
  qed
  have len: "length ?cs < fuel" using fuel by simp
  have start: "heap_free fuel w (of_nat (a + 8)) = (if pre = [] then enter_hole fuel ?w (of_nat a) else
      bindE (ld ?w (of_nat a - footer_size)) (\<lambda>prev.
      bindE (ld ?w (f_hole prev)) (\<lambda>ph.
      bindE (if ph \<noteq> 0 then merge_prev fuel ?w prev (of_nat a) else Inr ?w) (\<lambda>w.
      let head = (if ph \<noteq> 0 then prev else of_nat a) in
      bindE (ld w (f_hole (of_nat (a + 20 + n)))) (\<lambda>nh.
      bindE (if nh \<noteq> 0 then merge_next fuel w (of_nat (a + 20 + n)) head else Inr w) (\<lambda>w.
      enter_hole fuel w head))))))"
  proof -
    have "of_nat (a + 16 + n) + footer_size = (of_nat (a + 20 + n) :: u32)" by (simp add: footer_size_def)
    then show ?thesis using p a0(7,8) by (cases "pre = []") (simp_all add: heap_free_def Let_def iffD2 [OF h_start] del: of_nat_add cong: if_cong, simp_all add: h_start)
  qed
  show ?thesis
  proof (cases "pre = []")
    case True
    from enter_hole_ok [OF lo ac len] obtain w' L' where w': "enter_hole fuel ?w (of_nat a) = Inr w'" "heap_inv w' ?cs L'" "same_heap ?w w'"
      "user_same ?cs (hbytes ?w) (hbytes w')" by blast
    have "user_same (pre @ post) (hbytes ?w) (hbytes w')" by (rule user_same_mono [OF w'(4)]) auto
    then show ?thesis using w' start True by (auto simp: free_row_def)
  next
    case False
    then obtain pre1 c l g where pre: "pre = pre1 @ [(c, l, g)]" by (cases pre rule: rev_exhaust) auto
    then have cc: "(c, l, g) \<in> set ?cs" and a: "a = c + 20 + l" using ti by (auto simp: tiled_append)
    note c0 = loose_word [OF lo cc]
    have e: "of_nat a - footer_size = (of_nat (c + 16 + l) :: u32)" by (simp add: a footer_size_def)
    have prev: "ld ?w (of_nat a - footer_size) = Inr (of_nat c)" unfolding e by (rule c0(9))
    have hole: "ld ?w (f_hole (of_nat c)) = Inr (if g then 1 else 0)"
      using c0(1,6) a by (simp add: ld_field)
    note run = start [unfolded if_not_P [OF False] prev bindE.simps hole]
    show ?thesis
    proof (cases g)
      case True
      obtain w1 L1 where w1: "merge_prev fuel ?w (of_nat c) (of_nat a) = Inr w1" "loose_ok w1 (pre1 @ (c, l + 20 + n, True) # post) {c} L1"
        "same_heap ?w w1" "user_same ?cs (hbytes ?w) (hbytes w1)"
        using merge_prev_ok [of ?w pre1 c l a n post L fuel] lo len by (auto simp: pre True)
      have e2: "a + 20 + n = c + 20 + (l + 20 + n)" by (simp add: a)
      obtain w2 L2 where w2: "bindE (ld w1 (f_hole (of_nat (a + 20 + n)))) (\<lambda>nh.
          bindE (if nh \<noteq> 0 then merge_next fuel w1 (of_nat (a + 20 + n)) (of_nat c) else Inr w1) (\<lambda>w.
          enter_hole fuel w (of_nat c))) = Inr w2"
        "heap_inv w2 (pre1 @ join_next c (l + 20 + n) post) L2" "same_heap w1 w2" "user_same (pre1 @ post) (hbytes w1) (hbytes w2)"
        using free_next_ok [OF w1(2) post, of fuel] fuel unfolding e2 by (auto simp: pre)
      have "user_same (pre @ post) (hbytes ?w) (hbytes w1)" by (rule user_same_mono [OF w1(4)]) auto
      moreover have "user_same (pre @ post) (hbytes w1) (hbytes w2)" by (rule user_same_mono [OF w2(4)]) (auto simp: pre True)
      ultimately have "user_same (pre @ post) (hbytes ?w) (hbytes w2)" by (rule user_same_trans)
      then have "user_same (pre @ post) (hbytes w) (hbytes w2)" by simp
      moreover have "heap_free fuel w (of_nat (a + 8)) = Inr w2" using run w1(1) w2(1) True by (simp del: of_nat_add)
      ultimately show ?thesis using w2(2) same_heap_trans [OF w1(3) w2(3)] True by (auto simp: free_row_def pre)
    next
      case g: False
      from free_next_ok [OF lo post len] obtain w2 L2 where w2: "bindE (ld ?w (f_hole (of_nat (a + 20 + n)))) (\<lambda>nh.
          bindE (if nh \<noteq> 0 then merge_next fuel ?w (of_nat (a + 20 + n)) (of_nat a) else Inr ?w) (\<lambda>w.
          enter_hole fuel w (of_nat a))) = Inr w2"
        "heap_inv w2 (pre @ join_next a n post) L2" "same_heap ?w w2" "user_same (pre @ post) (hbytes ?w) (hbytes w2)" by blast
      moreover have "heap_free fuel w (of_nat (a + 8)) = Inr w2" using run w2(1) g by (simp del: of_nat_add)
      ultimately show ?thesis using g by (auto simp: free_row_def pre)
    qed
  qed
qed

end
