(* ===== verification/Mem_Alloc.thy ===== *)
theory Mem_Alloc
  imports Kernel_Objects Heap_Operations
begin

section \<open>The heap of the kernel: \<open>allocator/mem_alloc.c\<close>\<close>


text \<open>
  \<open>init_heap\<close> takes one page for the \<open>heap_t\<close> and its bins, and sixteen for the chunks. The global
  \<open>allocator\<close> is the component \<open>heap\<close> of the world; \<open>heap_end\<close> is returned. \<open>MEM_DEBUG\<close> is defined, as it
  is in test builds, so a \<open>heap_t\<close> has the counter \<open>bytes_allocated\<close>.
\<close>

definition heap_t_size :: u32 where "heap_t_size = 4 * (3 + of_nat BIN_COUNT)"
definition bin_t_size :: u32 where "bin_t_size = 4"

definition ALIGN :: "u32 \<Rightarrow> u32 \<Rightarrow> u32" where
  "ALIGN address n = (address + n - 1) AND NOT (n - 1)"

text \<open>The loop \<open>while (heap_end < heap_start + HEAP_INIT_SIZE)\<close>; up to \<open>bound\<close>. It takes fuel, one for each page.\<close>

primrec heap_pages :: "nat \<Rightarrow> heap_world \<Rightarrow> u32 \<Rightarrow> u32 \<Rightarrow> fault + (u32 \<times> heap_world)" where
  "heap_pages 0 w heap_end bound = Inl Diverges"
| "heap_pages (Suc n) w heap_end bound =
     (if heap_end < bound
      then
        bindE (kernel_page w heap_end) (\<lambda>(page, w).
        if page = NULL then Inl FatalPanic else heap_pages n w (heap_end + PAGE_SIZE) bound)
      else Inr (heap_end, w))"

text \<open>The pages of the heap, cleared; the bins are empty.\<close>

definition reserve_heap :: "heap_world \<Rightarrow> fault + (u32 \<times> heap_world)" where
  "reserve_heap w =
     bindE (kernel_page w KERNEL_HEAP_BASE) (\<lambda>(page, w).
     if page = NULL then Inl FatalPanic
     else
       (let w = w\<lparr>heap := \<lparr>h_start = 0, h_end = 0, bin_head = (\<lambda>_. NULL), bytes_allocated = 0\<rparr>\<rparr>;
            heap_end = KERNEL_HEAP_BASE + heap_t_size + of_nat BIN_COUNT * bin_t_size;
            heap_start = ALIGN heap_end PAGE_SIZE in
        heap_pages 17 w heap_start (heap_start + HEAP_INIT_SIZE)))"

definition init_heap :: "nat \<Rightarrow> heap_world \<Rightarrow> fault + (u32 \<times> heap_world)" where
  "init_heap fuel w =
     bindE (reserve_heap w) (\<lambda>(heap_end, w).
     let heap_start = ALIGN (KERNEL_HEAP_BASE + heap_t_size + of_nat BIN_COUNT * bin_t_size) PAGE_SIZE in
     bindE (assertE (heap_start + HEAP_INIT_SIZE \<le> heap_end)) (\<lambda>_.
     bindE (create_heap fuel w heap_start) (\<lambda>w. Inr (heap_end, w))))"

definition allocate :: "nat \<Rightarrow> heap_world \<Rightarrow> u32 \<Rightarrow> fault + (ptr \<times> heap_world)" where
  "allocate fuel w sz = heap_alloc fuel w sz"

definition deallocate :: "nat \<Rightarrow> heap_world \<Rightarrow> ptr \<Rightarrow> fault + heap_world" where
  "deallocate fuel w p = heap_free fuel w p"

definition allocation_size :: "heap_world \<Rightarrow> ptr \<Rightarrow> fault + u32" where
  "allocation_size w p = get_alloc_size w p"

definition mem_get_heap_size :: "heap_world \<Rightarrow> u32" where
  "mem_get_heap_size w = h_end (heap w) - h_start (heap w)"

subsection \<open>The new heap\<close>

text \<open>A new heap is one hole, in the last bin.\<close>

lemma last_bin: "1024 \<le> n \<Longrightarrow> get_bin_index n = 8"
proof (rule ccontr)
  assume n: "1024 \<le> n" and c: "get_bin_index n \<noteq> 8"
  then have "get_bin_index n < 8" "max 4 (unat n) < 2 ^ (get_bin_index n + 3)" using get_bin_index_bounds [of n] by auto
  moreover from this(1) have "(2::nat) ^ (get_bin_index n + 3) \<le> 2 ^ 10" by (intro power_increasing) auto
  moreover have "1024 \<le> unat n" using n by (simp add: u32_le_unat)
  ultimately show False by simp
qed

lemma create_heap_ok:
  assumes start: "16 \<le> unat start" "unat start + 0x10000 < 4294967296"
    and mapped: "\<And>x. unat start \<le> x \<Longrightarrow> x < unat start + 0x10000 \<Longrightarrow> hmapped w x"
    and bins: "\<And>k. k \<le> 8 \<Longrightarrow> bin_head (heap w) k = NULL"
  shows "\<exists>w' L. create_heap (Suc fuel) w start = Inr w' \<and> heap_inv w' [(unat start, 65516, True)] L \<and>
    hmapped w' = hmapped w \<and> hvm w' = hvm w \<and> h_end (heap w') = start + 0x10000 \<and> h_start (heap w') = start \<and>
    bytes_allocated (heap w') = 0"
proof -
  let ?a = "unat start"
  have at: "heap_node_at w ?a" using start mapped by (auto simp: heap_node_at_def)
  have e: "unat (start + 0x10000) = ?a + 0x10000" using start(2) by (subst unat_add_no_wrap) simp_all
  have init: "HEAP_INIT_SIZE - node_size - footer_size = 65516"
    by (simp add: HEAP_INIT_SIZE_def node_size_def footer_size_def)
  let ?m1 = "put32 (put32 (hbytes w) ?a 1) (?a + 4) 65516"
  let ?m = "put32 ?m1 (?a + 65532) start"
  let ?w = "w\<lparr>hbytes := ?m\<rparr>"
  let ?h = "\<lambda>w. w\<lparr>heap := (heap w)\<lparr>h_start := start, h_end := start + HEAP_INIT_SIZE, bytes_allocated := 0\<rparr>\<rparr>"
  have "get_foot (w\<lparr>hbytes := ?m1\<rparr>) start = Inr (start + 65532)"
    using ld_field(2) [of "w\<lparr>hbytes := ?m1\<rparr>" ?a] at by (simp add: get_foot_def node_size_def get32_put32_same ac_simps)
  moreover have "unat (start + 65532) = ?a + 65532" using start(2) by (subst unat_add_no_wrap) simp_all
  then have "st (w\<lparr>hbytes := ?m1\<rparr>) (start + 65532) start = Inr ?w"
    using mapped by (simp add: st_def word_mapped_def)
  ultimately have foot: "create_foot (w\<lparr>hbytes := ?m1\<rparr>) start = Inr ?w" by (simp add: create_foot_def)
  have ch: "get32 ?m ?a = 1" "zs ?m ?a = 65516" "get32 ?m (?a + 65532) = start"
    by (simp_all add: get32_put32_same get32_put32_other)
  have "bin_ok ?w {} 8 []" using bins [of 8] by (simp add: bin_ok_def blist_def)
  then have "\<exists>w' ys. add_node (Suc fuel) ?w 8 (of_nat ?a) = Inr w' \<and> relinked {?a} 8 ?w w' \<and> bin_ok w' {?a} 8 ys"
    using at bin_add [of "{?a}" ?w ?a "{}" "Suc fuel" 8 "[]"] by (simp add: spaced_def)
  then obtain w1 ys where w1: "add_node (Suc fuel) ?w 8 start = Inr w1" "relinked {?a} 8 ?w w1" "bin_ok w1 {?a} 8 ys" by auto
  note f = relinked_fields [OF w1(2)]
  have l: "links_of {?a} ?m (hbytes w1)" using f(7) by simp
  have ti: "tiled ?a [(?a, 65516, True)] (unat (start + 0x10000))" using e by simp
  have ok: "chunk_ok (hbytes w1) (?a, 65516, True)"
    by (rule chunk_links [OF ti l]) (use ch in \<open>simp_all add: chunk_ok_def add.commute [of _ ?a]\<close>)
  have hs: "holes [(?a, 65516, True)] k = (if k = 8 then {?a} else {})" for k
    using last_bin [of 65516] by (auto simp: holes_def)
  have bok: "bin_ok (?h w1) (holes [(?a, 65516, True)] k) k (if k = 8 then ys else [])" if "k \<le> 8" for k
    using w1(3) f(6) [of k] bins [OF that] by (auto simp: hs bin_ok_def blist_def)
  have "heap_inv (?h w1) [(?a, 65516, True)] (\<lambda>k. if k = 8 then ys else [])"
    using ti start mapped f(1) ok bok by (auto simp: heap_inv_def row_ok_def HEAP_INIT_SIZE_def e)
  moreover have "create_heap (Suc fuel) w start = Inr (?h w1)"
    using st_field [OF at, unfolded of_nat_unat_u32] st_field(2) [of "w\<lparr>hbytes := put32 (hbytes w) ?a 1\<rparr>" ?a] at foot
      ld_field(2) [of ?w ?a] ch(2) w1(1) last_bin [of 65516]
    by (simp add: create_heap_def init)
  ultimately show ?thesis using f by (intro exI [of _ "?h w1"] exI) (auto simp: HEAP_INIT_SIZE_def)
qed


lemma heap_begin: "ALIGN (KERNEL_HEAP_BASE + heap_t_size + of_nat BIN_COUNT * bin_t_size) PAGE_SIZE = 0xC0001000"
  by (simp add: ALIGN_def KERNEL_HEAP_BASE_def Gibibyte_def Mebibyte_def Kibibyte_def heap_t_size_def BIN_COUNT_def bin_t_size_def
      PAGE_SIZE_def)


lemma kernel_page_mapped:
  assumes "kernel_page w v = Inr (page, w')"
  shows "heap w' = heap w" "hmapped w x \<Longrightarrow> hmapped w' x" "page \<noteq> NULL \<Longrightarrow> in_page v x \<Longrightarrow> hmapped w' x"
  using assms by (auto simp: kernel_page_def bindE_Inr_iff split: if_splits)

lemma heap_pages_mapped:
  assumes "unat bound = unat e + 4096 * k" and "unat e mod 4096 = 0" and "heap_pages n w e bound = Inr (e', w')"
  shows "e' = bound \<and> heap w' = heap w \<and> (\<forall>x. hmapped w x \<or> unat e \<le> x \<and> x < unat bound \<longrightarrow> hmapped w' x)"
  using assms
proof (induction k arbitrary: n w e)
  case 0
  then have "bound = e" by (simp add: word_unat_eq_iff)
  with 0 show ?case by (cases n) auto
next
  case (Suc k)
  then obtain m where n: "n = Suc m" by (cases n) auto
  have lt: "e < bound" using Suc.prems(1) by (simp add: u32_less_unat)
  obtain page w1 where p: "kernel_page w e = Inr (page, w1)" "page \<noteq> NULL" "heap_pages m w1 (e + PAGE_SIZE) bound = Inr (e', w')"
    using Suc.prems(3) lt by (auto simp: n bindE_Inr_iff split: if_splits)
  have "unat (e + PAGE_SIZE) = unat e + 4096"
    using Suc.prems(1) u32_unat_lt [of bound] by (subst unat_add_no_wrap) (simp_all add: PAGE_SIZE_def Kibibyte_def)
  then have e1: "unat bound = unat (e + PAGE_SIZE) + 4096 * k" "unat (e + PAGE_SIZE) mod 4096 = 0" "unat (e + PAGE_SIZE) = unat e + 4096"
    using Suc.prems(1,2) by auto
  note ih = Suc.IH [OF e1(1,2) p(3)] and km = kernel_page_mapped [OF p(1)]
  have "hmapped w' x" if "hmapped w x \<or> unat e \<le> x \<and> x < unat bound" for x
  proof (cases "unat e \<le> x \<and> x < unat e + 4096")
    case True
    then have "in_page e x" using Suc.prems(2) by (auto simp: in_page_def)
    then show ?thesis using km(3) [OF p(2)] ih by blast
  next
    case False
    then have "hmapped w1 x \<or> unat (e + PAGE_SIZE) \<le> x \<and> x < unat bound" using that km(2) e1(3) by auto
    then show ?thesis using ih by blast
  qed
  then show ?case using ih km(1) by simp
qed

text \<open>
  \<^bold>\<open>The heap after start-up.\<close> When its pages can be had, \<open>init_heap\<close> succeeds and leaves the heap in
  order: one hole of 65516 bytes from \<open>0xC0001000\<close>, in its bin, with its footer, and all of its bytes
  backed by pages. When they cannot, it fails the way the page allocation does.
\<close>

theorem init_heap_fresh:
  "case reserve_heap w of
     Inl e \<Rightarrow> init_heap (Suc fuel) w = Inl e
   | Inr (heap_end, w1) \<Rightarrow> \<exists>w' L. init_heap (Suc fuel) w = Inr (heap_end, w') \<and> heap_end = 0xC0011000 \<and>
       heap_inv w' [(0xC0001000, 65516, True)] L \<and> mem_get_heap_size w' = HEAP_INIT_SIZE \<and> hvm w' = hvm w1"
proof (cases "reserve_heap w")
  case (Inr r)
  obtain e w1 where r: "r = (e, w1)" by (cases r)
  have b: "HEAP_INIT_SIZE = 0x10000" by (simp add: HEAP_INIT_SIZE_def)
  from Inr obtain page w0 where w0: "heap_pages 17 (w0\<lparr>heap := \<lparr>h_start = 0, h_end = 0, bin_head = (\<lambda>_. NULL), bytes_allocated = 0\<rparr>\<rparr>)
      0xC0001000 (0xC0001000 + 0x10000) = Inr (e, w1)"
    by (auto simp: reserve_heap_def heap_begin Let_def b r bindE_Inr_iff split: if_splits)
  note m = heap_pages_mapped [OF _ _ w0, of 16, simplified]
  obtain w' L where c: "create_heap (Suc fuel) w1 0xC0001000 = Inr w'" "heap_inv w' [(0xC0001000, 65516, True)] L" "hvm w' = hvm w1"
      "h_end (heap w') = 0xC0001000 + 0x10000" "h_start (heap w') = 0xC0001000"
    using create_heap_ok [of "0xC0001000" w1 fuel] m by auto
  then show ?thesis
    using m by (auto simp: Inr r init_heap_def heap_begin Let_def b assertE_def mem_get_heap_size_def)
qed (simp add: init_heap_def)


subsection \<open>The heap as the source of \<open>kmalloc\<close>\<close>

text \<open>
  Whatever \<open>heap_alloc\<close> does about the wilderness, a pointer it returns is that of a chunk of at least
  the size asked for: this is the law of the locale \<open>kheap\<close>, which the containers of the kernel rely on.
\<close>

lemma check_wilderness_bytes:
  assumes "check_wilderness w = Inr (b, w')" and "unat (h_end (heap w)) mod 4096 = 0" and "x < unat (h_end (heap w))"
  shows "hbytes w' x = hbytes w x"
proof -
  have "\<not> in_page (h_end (heap w)) x" using assms(2,3) by (auto simp: in_page_def)
  then show ?thesis
    using assms(1) by (auto simp: check_wilderness_def expand_def kernel_page_def contract_def Let_def bindE_Inr_iff split: if_splits)
qed

lemma heap_alloc_size:
  assumes inv: "heap_inv w cs L" and page: "unat (h_end (heap w)) mod 4096 = 0" and fuel: "Suc (length cs) < fuel"
    and run: "heap_alloc fuel w r = Inr (p, w')" and p: "p \<noteq> NULL"
  shows "\<exists>m. get_alloc_size w' p = Inr m \<and> r \<le> m"
proof -
  from heap_search [OF inv, of fuel r] run p fuel obtain a n where
    s: "search_bins fuel (BIN_MAX_IDX - get_bin_index r) w r (get_bin_index r) = Inr (of_nat a, get_bin_index (of_nat n))"
    and a: "best_hole cs (unat r) a n" by (auto simp: heap_alloc_def)
  let ?cs = "alloc_row a (unat r) cs"
  have ac: "(a, n, True) \<in> set cs" "unat r \<le> n" using a by (auto simp: best_hole_def)
  have ti: "tiled (unat (h_start (heap w))) cs (unat (h_end (heap w)))" using inv by (simp add: heap_inv_def row_ok_def)
  obtain m where m: "(a, m, False) \<in> set ?cs" "unat r \<le> m" using alloc_row_used(1) [OF ti ac] by blast
  obtain w1 L1 where w1: "bindE (ld w (f_size (of_nat a))) (\<lambda>fs.
       bindE (if fs - r > overhead + MIN_ALLOC_SZ then split_chunk fuel w (of_nat a) r else Inr w) (\<lambda>w.
       bindE (st w (f_hole (of_nat a)) 0) (\<lambda>w. remove_node fuel w (get_bin_index (of_nat n)) (of_nat a)))) = Inr w1"
    "heap_inv w1 ?cs L1" "h_end (heap w1) = h_end (heap w)"
    using found_taken [OF inv a fuel] by blast
  have row1: "row_ok w1 ?cs" using w1(2) by (simp add: heap_inv_def)
  have na: "heap_node_at w1 a" using row_nodes [OF row1] m(1) by force
  note zm = heap_inv_size [OF w1(2) m(1)] and f = field_unat [OF na]
  have b: "a + 20 + m \<le> unat (h_end (heap w1))"
    using row1 tiled_bounds [of _ ?cs _ a m False] m(1) by (fastforce simp: row_ok_def)
  have "bindE (bindE (ld w (f_size (of_nat a))) (\<lambda>fs.
       bindE (if fs - r > overhead + MIN_ALLOC_SZ then split_chunk fuel w (of_nat a) r else Inr w) (\<lambda>w.
       bindE (st w (f_hole (of_nat a)) 0) (\<lambda>w. remove_node fuel w (get_bin_index (of_nat n)) (of_nat a))))) g = g w1"
    for g :: "heap_world \<Rightarrow> fault + (ptr \<times> heap_world)" using w1(1) by simp
  then have "bindE (check_wilderness w1) (\<lambda>(success, w).
       if \<not> success then Inr (NULL, w)
       else
         bindE (st w (f_prev (of_nat a)) NULL) (\<lambda>w.
         bindE (st w (f_next (of_nat a)) NULL) (\<lambda>w.
         bindE (ld w (f_size (of_nat a))) (\<lambda>fs.
         Inr (f_next (of_nat a), w\<lparr>heap := (heap w)\<lparr>bytes_allocated := bytes_allocated (heap w) + fs\<rparr>\<rparr>))))) = Inr (p, w')"
    using run s f(6) by (simp add: heap_alloc_def bindE_assoc)
  then obtain ok w2 where "check_wilderness w1 = Inr (ok, w2)" "(if \<not> ok then Inr (NULL, w2)
       else
         bindE (st w2 (f_prev (of_nat a)) NULL) (\<lambda>w.
         bindE (st w (f_next (of_nat a)) NULL) (\<lambda>w.
         bindE (ld w (f_size (of_nat a))) (\<lambda>fs.
         Inr (f_next (of_nat a), w\<lparr>heap := (heap w)\<lparr>bytes_allocated := bytes_allocated (heap w) + fs\<rparr>\<rparr>))))) = Inr (p, w')"
    by (elim bindE_InrE) auto
  then obtain w2 w3 w4 fs where w2: "check_wilderness w1 = Inr (True, w2)" "st w2 (f_prev (of_nat a)) NULL = Inr w3"
    "st w3 (f_next (of_nat a)) NULL = Inr w4" "ld w4 (f_size (of_nat a)) = Inr fs" "p = f_next (of_nat a)"
    "w' = w4\<lparr>heap := (heap w4)\<lparr>bytes_allocated := bytes_allocated (heap w4) + fs\<rparr>\<rparr>"
    using p by (cases ok) (auto elim!: bindE_InrE)
  have "zs (hbytes w2) a = of_nat m"
  proof -
    have "zs (hbytes w2) a = zs (hbytes w1) a"
      by (rule get32_cong, rule check_wilderness_bytes [OF w2(1)]) (use b page w1(3) in simp_all)
    then show ?thesis using zm(1) by simp
  qed
  moreover have "w4 = w2\<lparr>hbytes := put32 (put32 (hbytes w2) (a + 12) NULL) (a + 8) NULL\<rparr>"
    using w2(2,3) by (auto simp: st_def f split: if_splits)
  ultimately have "fs = of_nat m" using w2(4) by (auto simp: ld_def f get32_put32_other split: if_splits)
  moreover have "get_alloc_size w' p = Inr fs"
    using w2(4) by (simp add: get_alloc_size_def w2(5,6) f_next_def heap_offset_def)
  ultimately show ?thesis using m(2) zm(2) by (auto simp: u32_le_unat)
qed

lemma tiled_length: "tiled x cs e \<Longrightarrow> x + 20 * length cs \<le> e"
  by (induction x cs e rule: tiled.induct) auto

text \<open>Fuel for every row: a chunk has at least twenty bytes.\<close>

definition heap_fuel :: nat where "heap_fuel = 0x10000000"

lemma heap_fuel: "heap_inv w cs L \<Longrightarrow> Suc (length cs) < heap_fuel"
  using tiled_length [of "unat (h_start (heap w))" cs "unat (h_end (heap w))"] u32_unat_lt [of "h_end (heap w)"]
  by (simp add: heap_inv_def row_ok_def heap_fuel_def)

definition heap_grant :: "heap_world \<Rightarrow> grant" where
  "heap_grant w n =
     (case bindE (heap_alloc heap_fuel w n) (\<lambda>(p, w').
        if p = NULL then Inr None else bindE (get_alloc_size w' p) (\<lambda>m. Inr (Some m))) of
        Inl e \<Rightarrow> None
      | Inr m \<Rightarrow> m)"

typedef kernel_heap = "{w. (\<exists>cs L. heap_inv w cs L) \<and> unat (h_end (heap w)) mod 4096 = 0}"
proof -
  let ?w = "\<lparr>hvm = undefined, heap = \<lparr>h_start = 0, h_end = 0, bin_head = (\<lambda>_. NULL), bytes_allocated = 0\<rparr>,
    hbytes = (\<lambda>_. 0), hmapped = (\<lambda>_. True)\<rparr>"
  from create_heap_ok [of "0xC0001000" ?w 0] obtain w' L where
    w': "heap_inv w' [(0xC0001000, 65516, True)] L" "h_end (heap w') = 0xC0001000 + 0x10000" by auto
  show ?thesis by (rule exI [of _ w']) (use w' in auto)
qed

interpretation kernel_heap: kheap "heap_grant (Rep_kernel_heap h)" for h
proof unfold_locales
  fix n m assume g: "heap_grant (Rep_kernel_heap h) n = Some m"
  obtain cs L where inv: "heap_inv (Rep_kernel_heap h) cs L" "unat (h_end (heap (Rep_kernel_heap h))) mod 4096 = 0"
    using Rep_kernel_heap [of h] by auto
  from g obtain p w' where run: "heap_alloc heap_fuel (Rep_kernel_heap h) n = Inr (p, w')" "p \<noteq> NULL" "get_alloc_size w' p = Inr m"
    by (auto simp: heap_grant_def bindE_Inr_iff split: if_splits sum.splits)
  from heap_alloc_size [OF inv heap_fuel [OF inv(1)] run(1,2)] run(3) show "n \<le> m" by auto
qed


subsection \<open>An example heap\<close>

text \<open>The bytes of a row of chunks, and a heap of two chunks in use and a hole.\<close>

fun row_bytes :: "chunk list \<Rightarrow> nat \<Rightarrow> u8" where
  "row_bytes [] = (\<lambda>_. 0)"
| "row_bytes ((a, n, h) # cs) =
     put32 (put32 (put32 (row_bytes cs) a (if h then 1 else 0)) (a + 4) (of_nat n)) (a + 16 + n) (of_nat a)"

definition demo_row :: "chunk list" where
  "demo_row = [(0x1000, 100, False), (4216, 200, False), (4436, 65176, True)]"

definition demo_kernel_vm :: vm2_state where
  "demo_kernel_vm = \<lparr>pmm = \<lparr>sinfo = (\<lambda>_. zero_sliceinfo)(0x200030 := zero_sliceinfo\<lparr>slice := 0x206000\<rparr>),
     heads = (\<lambda>l. if l = unused then 0x200030 else NULL), pstart = 0x200000, pend = 0x208000,
     words = (\<lambda>x. if x = kernell1PageTable then 0x204001 else 0)\<rparr>,
     mmio_current_top = KERNEL_MMIO_BASE, mmu_started = True, mmu_log = []\<rparr>"

definition demo_heap :: heap_world where
  "demo_heap = \<lparr>hvm = demo_kernel_vm,
     heap = \<lparr>h_start = 0x1000, h_end = 0x11000, bin_head = (\<lambda>k. if k = 8 then 4436 else NULL), bytes_allocated = 300\<rparr>,
     hbytes = row_bytes demo_row, hmapped = (\<lambda>x. 0x1000 \<le> x \<and> x < 0x11000)\<rparr>"

lemma demo_heap_inv: "heap_inv demo_heap demo_row (\<lambda>k. if k = 8 then [4436] else [])"
proof -
  have hs: "holes demo_row k = (if k = 8 then {4436} else {})" for k
    using last_bin [of 65176] by (auto simp: holes_def demo_row_def)
  have z: "get32 (\<lambda>_. 0) x = 0" for x by (simp add: get32_def)
  have "\<forall>c \<in> set demo_row. chunk_ok (hbytes demo_heap) c"
    by (simp add: demo_heap_def demo_row_def chunk_ok_def get32_put32_same get32_put32_other)
  moreover have "bin_ok demo_heap (holes demo_row k) k (if k = 8 then [4436] else [])" for k
    unfolding hs by (simp add: bin_ok_def blist_def demo_heap_def demo_row_def get32_put32_same get32_put32_other z)
  ultimately show ?thesis by (auto simp: heap_inv_def row_ok_def demo_heap_def demo_row_def)
qed

lemma kernell1PageTable_value: "kernell1PageTable = 0x80004000"
  by (simp add: kernell1PageTable_def VirtualL1PagetableLocation_def KERNEL_VIRTUAL_OFFSET_def Gibibyte_def Mebibyte_def Kibibyte_def)
lemma demo_page: "\<exists>s. vm2_allocate_page demo_kernel_vm kernell1PageTable 0x11000 False perms None = Inr (0x206000, None, s)"
proof -
  have i: "entry_address kernell1PageTable (l1pt_index 0x11000) = 0x80004000" by (simp add: l1pt_index_def entry_address_def kernell1PageTable_value)
  have w0: "words (pmm demo_kernel_vm) = (\<lambda>x. if x = 0x80004000 then 0x204001 else 0)" by (simp add: demo_kernel_vm_def kernell1PageTable_value)
  obtain m where m: "pmm_allocate_page (pmm demo_kernel_vm) = Inr (0x206000, m)"  "words m = zero_words 0x206000 4096 (words (pmm demo_kernel_vm))"
     by (simp add: pmm_allocate_page_def demo_kernel_vm_def pop_from_ll_def sget_def sput_def push_to_ll_def
        zero_sliceinfo_def pmm_clear_def Let_def)
  have w: "words m = (\<lambda>x. if x = 0x80004000 then 0x204001 else 0)"
    by (simp add: m(2) zero_words_def fun_eq_iff demo_kernel_vm_def kernell1PageTable_value)
  have f: "find_l2pt 0x204001 = Inr 0x80204000"
     by (simp add: find_l2pt_def word_fields PHYS2VIRT_def KERNEL_VIRTUAL_OFFSET_def Gibibyte_def Mebibyte_def Kibibyte_def)
  have i2: "l2pt_index 0x11000 = 0x11" by (simp add: l2pt_index_def)
  have t: "se_type (word_section (0x204001)) = 1" by (simp add: word_fields)
  have e2: "entry_address 0x80204000 0x11 = 0x80204044" by (simp add: entry_address_def)
  show ?thesis
    by (simp add: vm2_allocate_page_def i Let_def vm2_map_page_def m(1) read_word_def w0 w f i2 t e2)
qed


subsection \<open>Properties\<close>

text \<open>
  (C6) \<^bold>\<open>Best fit.\<close> If no hole is as large as the request, \<open>heap_alloc\<close> returns \<open>NULL\<close> and changes nothing.
  Otherwise it takes the smallest hole that is large enough, although the holes lie in nine bins: the
  hole becomes a chunk of at least the size asked for, and what is left over, if it is more than 24 bytes,
  a hole of its own. The heap is in order again, the bytes of all chunks in use are as they were, and
  the size is added to the counter. This is so while the last chunk keeps within its bounds;
  what happens otherwise is the matter of \<open>expand_loses_wilderness\<close>.
\<close>

theorem heap_alloc_best_fit:
  assumes "heap_inv w cs L" and "Suc (length cs) < fuel"
  shows "if \<forall>b l. (b, l, True) \<in> set cs \<longrightarrow> l < unat r then heap_alloc fuel w r = Inr (NULL, w)
    else \<exists>a n. best_hole cs (unat r) a n \<and> (wild_ok (alloc_row a (unat r) cs) \<longrightarrow>
      (\<exists>w' m. heap_alloc fuel w r = Inr (of_nat (a + 8), w') \<and> heap_grows w w' cs (alloc_row a (unat r) cs) \<and>
        (a, m, False) \<in> set (alloc_row a (unat r) cs) \<and> unat r \<le> m \<and>
        bytes_allocated (heap w') = bytes_allocated (heap w) + of_nat m))"
proof (cases "\<forall>b l. (b, l, True) \<in> set cs \<longrightarrow> l < unat r")
  case True
  then show ?thesis using heap_alloc_none [OF assms(1)] assms(2) by simp
next
  case False
  then obtain b l where "(b, l, True) \<in> set cs" "unat r \<le> l" by (auto simp: not_less)
  from heap_alloc_found [OF assms this] show ?thesis unfolding if_not_P [OF False] .
qed

lemma demo_alloc_row: "alloc_row 4436 100 demo_row = [(0x1000, 100, False), (4216, 200, False), (4436, 100, False), (4556, 65056, True)]"
  by (simp add: alloc_row_def demo_row_def)

theorem heap_alloc_best_fit_witness:
  "\<exists>w'. heap_alloc 5 demo_heap 100 = Inr (4444, w') \<and> bytes_allocated (heap w') = 400 \<and>
    heap_grows demo_heap w' demo_row [(0x1000, 100, False), (4216, 200, False), (4436, 100, False), (4556, 65056, True)]"
proof -
  have "\<not> (\<forall>b l. (b, l, True) \<in> set demo_row \<longrightarrow> l < unat (100 :: u32))" by (auto simp: demo_row_def)
  then obtain a n where a: "best_hole demo_row 100 a n" "wild_ok (alloc_row a 100 demo_row) \<longrightarrow>
      (\<exists>w' m. heap_alloc 5 demo_heap 100 = Inr (of_nat (a + 8), w') \<and> heap_grows demo_heap w' demo_row (alloc_row a 100 demo_row) \<and>
        (a, m, False) \<in> set (alloc_row a 100 demo_row) \<and> 100 \<le> m \<and>
        bytes_allocated (heap w') = bytes_allocated (heap demo_heap) + of_nat m)"
    using heap_alloc_best_fit [OF demo_heap_inv, of 5 100] by (auto simp: demo_row_def)
  then have "a = 4436" by (auto simp: best_hole_def demo_row_def)
  with a(2) show ?thesis
    by (auto simp: demo_alloc_row wild_ok_def wild_size_def demo_heap_def)
qed

text \<open>
  (C7) \<^bold>\<open>Freeing.\<close> A chunk in use that is not the last one can be freed through the pointer its user has.
  It is a hole afterwards, joined with the hole before it and the hole after it into one, unless it is the
  first chunk, which is joined with nothing. The heap is in order again, the bytes of the other
  chunks in use are as they were, and the size is taken off the counter.
\<close>

theorem heap_free_joins:
  assumes "heap_inv w (pre @ (a, n, False) # post) L" and "post \<noteq> []" and "length (pre @ (a, n, False) # post) < fuel"
  shows "\<exists>w' L'. heap_free fuel w (of_nat (a + 8)) = Inr w' \<and> heap_inv w' (free_row pre a n post) L' \<and>
    user_same (pre @ post) (hbytes w) (hbytes w') \<and>
    same_heap (w\<lparr>heap := (heap w)\<lparr>bytes_allocated := bytes_allocated (heap w) - of_nat n\<rparr>\<rparr>) w'"
  by (rule heap_free_ok [OF assms])

theorem heap_free_joins_witness:
  "\<exists>w' L'. heap_free 4 demo_heap 4224 = Inr w' \<and> heap_inv w' [(0x1000, 100, False), (4216, 65396, True)] L' \<and>
    bytes_allocated (heap w') = 100"
proof -
  have "heap_inv demo_heap ([(0x1000, 100, False)] @ (4216, 200, False) # [(4436, 65176, True)]) (\<lambda>k. if k = 8 then [4436] else [])"
    using demo_heap_inv by (simp add: demo_row_def)
  from heap_free_joins [OF this, of 4] show ?thesis
    by (auto simp: free_row_def join_next_def same_heap_def demo_heap_def)
qed

text \<open>Rows without two holes side by side.\<close>

fun apart :: "chunk list \<Rightarrow> bool" where
  "apart (c # d # cs) \<longleftrightarrow> \<not> (snd (snd c) \<and> snd (snd d)) \<and> apart (d # cs)"
| "apart cs \<longleftrightarrow> True"

lemma apart_mid: "apart (pre @ c # d # post) \<Longrightarrow> \<not> (snd (snd c) \<and> snd (snd d))"
  by (induction pre rule: apart.induct) auto

text \<open>
  (C8) \<^bold>\<open>Allocating and freeing.\<close> In a heap without two holes side by side, whose last chunk is a hole with room to
  spare, an allocation that is freed at once leaves the row of chunks as it was: the part split off is joined again. The one
  exception is the first chunk of the heap: when the best hole is that one, as in a fresh heap, and is split, the two parts stay apart,
  for \<open>heap_free\<close> does not join the first chunk with what follows. In both cases the bytes of the chunks in use
  and the counter are those of before.
\<close>

theorem heap_alloc_free:
  assumes inv: "heap_inv w cs L" and fuel: "Suc (Suc (length cs)) < fuel"
    and last: "snd (snd (last cs))" and ap: "apart cs"
    and room: "unat r + 0x2018 \<le> wild_size cs" "wild_size cs \<le> 0x1000000"
  shows "\<exists>a n w1 w2 L2. best_hole cs (unat r) a n \<and> heap_alloc fuel w r = Inr (of_nat (a + 8), w1) \<and>
    heap_free fuel w1 (of_nat (a + 8)) = Inr w2 \<and>
    heap_inv w2 (if a = unat (h_start (heap w)) \<and> unat r + 24 < n
      then (a, unat r, True) # (a + 20 + unat r, n - unat r - 20, True) # tl cs else cs) L2 \<and>
    user_same cs (hbytes w) (hbytes w2) \<and> bytes_allocated (heap w2) = bytes_allocated (heap w)"
proof -
  have ne: "cs \<noteq> []" using inv by (simp add: heap_inv_def row_ok_def)
  obtain x y where "last cs = (x, y, True)" using last by (cases "last cs") auto
  then have "(x, wild_size cs, True) \<in> set cs" using last_in_set [OF ne] by (simp add: wild_size_def)
  from heap_alloc_found [OF inv _ this, of fuel r] room fuel obtain a n where
    a: "best_hole cs (unat r) a n" and run: "wild_ok (alloc_row a (unat r) cs) \<longrightarrow>
      (\<exists>w' m. heap_alloc fuel w r = Inr (of_nat (a + 8), w') \<and> heap_grows w w' cs (alloc_row a (unat r) cs) \<and>
        (a, m, False) \<in> set (alloc_row a (unat r) cs) \<and> unat r \<le> m \<and>
        bytes_allocated (heap w') = bytes_allocated (heap w) + of_nat m)" by auto
  have ac: "(a, n, True) \<in> set cs" "unat r \<le> n" using a by (auto simp: best_hole_def)
  then obtain pre post where cs: "cs = pre @ (a, n, True) # post" by (meson split_list)
  have ti: "tiled (unat (h_start (heap w))) (pre @ (a, n, True) # post) (unat (h_end (heap w)))" using inv by (simp add: heap_inv_def row_ok_def cs)
  define m where "m = (if unat r + 24 < n then unat r else n)"
  define post' where "post' = (if unat r + 24 < n then (a + 20 + unat r, n - unat r - 20, True) # post else post)"
  have row: "alloc_row a (unat r) cs = pre @ (a, m, False) # post'"
    using alloc_row_split [OF ti, of "unat r"] by (simp add: cs m_def post'_def)
  have big: "post = [] \<Longrightarrow> unat r + 24 < n" using room(1) by (simp add: cs wild_size_def)
  then have p: "post' \<noteq> []" by (auto simp: post'_def)
  let ?row = "if a = unat (h_start (heap w)) \<and> unat r + 24 < n
    then (a, unat r, True) # (a + 20 + unat r, n - unat r - 20, True) # tl cs else cs"
  have first: "a = unat (h_start (heap w)) \<longleftrightarrow> pre = []"
  proof (cases pre)
    case (Cons c pre1)
    then show ?thesis using ti by (cases c) (auto simp: tiled_append dest: tiled_le)
  qed (use ti in simp)
  have rejoin: "free_row pre a m post' = ?row"
  proof (cases pre rule: rev_exhaust)
    case Nil
    then show ?thesis using first by (simp add: free_row_def m_def post'_def cs)
  next
    case (snoc pre1 z)
    then obtain c l g where pre: "pre = pre1 @ [(c, l, g)]" by (cases z) auto
    have g: "\<not> g" using apart_mid [of pre1 "(c, l, g)" "(a, n, True)" post] ap by (simp add: cs pre)
    have "free_row pre a m post' = cs"
    proof (cases "unat r + 24 < n")
      case False
      then obtain b k h ps where "post = (b, k, h) # ps" using big by (cases post) auto
      then show ?thesis using False apart_mid [of pre "(a, n, True)" "(b, k, h)" ps] ap g
        by (simp add: free_row_def pre join_next_def m_def post'_def cs)
    qed (use g in \<open>simp add: free_row_def pre join_next_def m_def post'_def cs\<close>)
    then show ?thesis using first pre by simp
  qed
  have "wild_ok (alloc_row a (unat r) cs)"
    unfolding row using room big by (cases post) (auto simp: wild_ok_def wild_size_def cs post'_def)
  with run obtain w1 m' where w1: "heap_alloc fuel w r = Inr (of_nat (a + 8), w1)" "heap_grows w w1 cs (pre @ (a, m, False) # post')"
    "(a, m', False) \<in> set (pre @ (a, m, False) # post')" "bytes_allocated (heap w1) = bytes_allocated (heap w) + of_nat m'"
    unfolding row by blast
  then obtain L1 where inv1: "heap_inv w1 (pre @ (a, m, False) # post') L1" by (auto simp: heap_grows_def)
  then have m': "m' = m" using tiled_unique [OF _ w1(3)] by (fastforce simp: heap_inv_def row_ok_def)
  have len: "length (pre @ (a, m, False) # post') < fuel" using fuel by (simp add: cs post'_def split: if_splits)
  from heap_free_ok [OF inv1 p len] obtain w2 L2 where w2: "heap_free fuel w1 (of_nat (a + 8)) = Inr w2" "heap_inv w2 ?row L2"
    "user_same (pre @ post') (hbytes w1) (hbytes w2)" "bytes_allocated (heap w2) = bytes_allocated (heap w1) - of_nat m"
    unfolding rejoin by (auto simp: same_heap_def)
  have "user_same cs (hbytes w1) (hbytes w2)" by (rule user_same_mono [OF w2(3)]) (auto simp: cs post'_def)
  then have "user_same cs (hbytes w) (hbytes w2)" using w1(2) user_same_trans by (auto simp: heap_grows_def)
  then show ?thesis using w1(1,4) w2(1,2,4) m' a
    by (intro exI [of _ a] exI [of _ n] exI [of _ w1] exI [of _ w2] exI [of _ L2] conjI) simp_all
qed

theorem heap_alloc_free_witness:
  "\<exists>w1 w2 L2. heap_alloc 6 demo_heap 100 = Inr (4444, w1) \<and> heap_free 6 w1 4444 = Inr w2 \<and> heap_inv w2 demo_row L2 \<and>
    user_same demo_row (hbytes demo_heap) (hbytes w2) \<and> bytes_allocated (heap w2) = 300"
proof -
  have "Suc (Suc (length demo_row)) < 6" "snd (snd (last demo_row))" "apart demo_row"
    "unat (100 :: u32) + 0x2018 \<le> wild_size demo_row" "wild_size demo_row \<le> 0x1000000"
    by (simp_all add: demo_row_def wild_size_def)
  from heap_alloc_free [OF demo_heap_inv this] obtain a n w1 w2 L2 where
    a: "best_hole demo_row (unat (100 :: u32)) a n" and
    w: "heap_alloc 6 demo_heap 100 = Inr (of_nat (a + 8), w1)" "heap_free 6 w1 (of_nat (a + 8)) = Inr w2"
      "heap_inv w2 (if a = unat (h_start (heap demo_heap)) \<and> unat (100 :: u32) + 24 < n
        then (a, unat (100 :: u32), True) # (a + 20 + unat (100 :: u32), n - unat (100 :: u32) - 20, True) # tl demo_row else demo_row) L2"
      "user_same demo_row (hbytes demo_heap) (hbytes w2)" "bytes_allocated (heap w2) = bytes_allocated (heap demo_heap)"
    by blast
  from a have "a = 4436" by (auto simp: best_hole_def demo_row_def)
  with w show ?thesis by (auto simp: demo_heap_def)
qed

text \<open>
  (C15) \<^bold>\<open>Growing the heap loses the last chunk.\<close> When the last chunk falls below its minimum, \<open>expand\<close> adds a page and
  moves the end of the heap, but it makes neither a chunk of the page nor writes a footer. The next
  allocation that finds a hole looks for the footer of the last chunk in the new page, finds zero, and
  follows the null pointer.
\<close>

theorem expand_loses_wilderness:
  assumes "expand w = Inr (1, w')" and "unat (h_end (heap w)) mod 4096 = 0" and "0x1000 \<le> h_end (heap w)"
    and "h_end (heap w) < 0xFFFFF000" and "\<not> hmapped w 4"
  shows "get_wilderness w' = Inr NULL \<and> check_wilderness w' = Inl NullDeref"
proof -
  let ?e = "unat (h_end (heap w))"
  obtain page w1 where w1: "kernel_page w (h_end (heap w)) = Inr (page, w1)" "page \<noteq> NULL"
    "w' = w1\<lparr>heap := (heap w1)\<lparr>h_end := h_end (heap w1) + PAGE_SIZE\<rparr>\<rparr>"
    using assms(1) by (auto simp: expand_def bindE_Inr_iff split: if_splits)
  then have m: "hmapped w' = (\<lambda>x. hmapped w x \<or> in_page (h_end (heap w)) x)"
    "hbytes w' = (\<lambda>x. if in_page (h_end (heap w)) x then 0 else hbytes w x)" "h_end (heap w') = h_end (heap w) + PAGE_SIZE"
    by (auto simp: kernel_page_def bindE_Inr_iff)
  have "h_end (heap w') - footer_size = h_end (heap w) + 4092" by (simp add: m(3) footer_size_def PAGE_SIZE_def Kibibyte_def)
  moreover have "unat (h_end (heap w) + 4092) = ?e + 4092"
    using assms(4) by (subst unat_add_no_wrap) (simp_all add: u32_less_unat)
  moreover have "in_page (h_end (heap w)) (?e + 4092 + k)" if "k < 4" for k
    using assms(2) that by (auto simp: in_page_def)
  from this [of 0] this [of 1] this [of 2] this [of 3]
  have "word_mapped w' (?e + 4092)" "get32 (hbytes w') (?e + 4092) = 0"
    by (simp_all add: word_mapped_def get32_def m)
  ultimately have g: "get_wilderness w' = Inr NULL" by (simp add: get_wilderness_def ld_def)
  have "1 \<le> ?e div 4096" using assms(3) by (simp add: u32_le_unat)
  then have "\<not> word_mapped w' 4" using assms(5) by (simp add: word_mapped_def m in_page_def)
  then show ?thesis
    using g by (simp add: check_wilderness_def ld_def f_size_def bad_address_def)
qed

theorem expand_loses_wilderness_witness:
  "\<exists>w'. expand demo_heap = Inr (1, w') \<and> get_wilderness w' = Inr NULL \<and> check_wilderness w' = Inl NullDeref"
proof -
  obtain s where "vm2_allocate_page demo_kernel_vm kernell1PageTable 0x11000 False \<lparr>access = KernelRW, executable = False\<rparr> None =
    Inr (0x206000, None, s)" using demo_page by blast
  then obtain w' where w': "expand demo_heap = Inr (1, w')" by (simp add: expand_def kernel_page_def demo_heap_def)
  have "unat (h_end (heap demo_heap)) mod 4096 = 0" "0x1000 \<le> h_end (heap demo_heap)" "h_end (heap demo_heap) < 0xFFFFF000"
    "\<not> hmapped demo_heap 4" by (simp_all add: demo_heap_def)
  from expand_loses_wilderness [OF w' this] w' show ?thesis by blast
qed

text \<open>
  \<^bold>\<open>The bins.\<close> A size belongs to one of the nine bins, the one of its logarithm: bin \<open>k\<close> below the last
  holds the sizes from \<open>2 ^ (k + 2)\<close> up to \<open>2 ^ (k + 3)\<close>, with the sizes below 4 in bin 0, and the last bin
  all sizes from 1024 on.
\<close>

theorem get_bin_index_log:
  "get_bin_index n \<le> 8 \<and> 2 ^ (get_bin_index n + 2) \<le> max 4 (unat n) \<and>
   (get_bin_index n = 8 \<or> max 4 (unat n) < 2 ^ (get_bin_index n + 3))"
  using get_bin_index_bounds [of n] by force

end
