(* ===== verification/Klibc_Printf.thy ===== *)
theory Klibc_Printf
  imports Klibc_String
begin

section \<open>Formatted output: \<open>klibc/printf.c\<close>\<close>

text \<open>
  \<open>print_int\<close> writes a number into a buffer, \<open>os_vsnprintf\<close> a format with its arguments, \<open>kprintf\<close>
  sends the result to channel 0 of the UART. A buffer is an object and an offset into it, as in
  \<open>Klibc_String\<close>; the format, the string arguments and the buffer are different objects. The argument
  list of \<open>va_arg\<close> is a list of integers and strings: asking for an argument of the other kind is the fault
  \<open>WrongMember\<close>, asking for more than there are is \<open>OutOfBounds\<close>. Lengths of the buffer are \<open>int\<close>; values that
  can wrap (the number to print, the padding) are words.
\<close>

abbreviation (input) percent :: u8 where "percent \<equiv> 0x25"
abbreviation (input) minus_sign :: u8 where "minus_sign \<equiv> 0x2D"
abbreviation (input) digit_0 :: u8 where "digit_0 \<equiv> 0x30"
abbreviation (input) digit_9 :: u8 where "digit_9 \<equiv> 0x39"

subsection \<open>\<open>print_int\<close>\<close>

definition lower_case_digits :: "u8 list" where
  "lower_case_digits = [0x30, 0x31, 0x32, 0x33, 0x34, 0x35, 0x36, 0x37, 0x38, 0x39, 0x61, 0x62, 0x63, 0x64, 0x65, 0x66]"

definition upper_case_digits :: "u8 list" where
  "upper_case_digits = [0x30, 0x31, 0x32, 0x33, 0x34, 0x35, 0x36, 0x37, 0x38, 0x39, 0x41, 0x42, 0x43, 0x44, 0x45, 0x46]"

text \<open>
  The digits of \<open>temp\<close>, the last one first, as they are put into \<open>tmp_buf\<close>; \<open>room\<close> is what is left of its 64
  bytes. A base above 16 reads past the table of digits.
\<close>

primrec digit_loop :: "nat \<Rightarrow> u32 \<Rightarrow> u32 \<Rightarrow> bool \<Rightarrow> fault + u8 list" where
  "digit_loop 0 temp base is_uppercase = (if temp \<noteq> 0 then Inl OutOfBounds else Inr [])"
| "digit_loop (Suc room) temp base is_uppercase =
     (if temp \<noteq> 0
      then
        (let k = unat (temp mod base) in
         if k < 16
         then
           bindE (digit_loop room (temp div base) base is_uppercase) (\<lambda>ds.
           Inr ((if is_uppercase then upper_case_digits ! k else lower_case_digits ! k) # ds))
         else Inl OutOfBounds)
      else Inr [])"

text \<open>
  Writing characters one by one, up to the one that uses up the buffer; the last component of the result
  says whether that happened.
\<close>

fun emit :: "u8 list \<Rightarrow> u8 kptr \<Rightarrow> nat \<Rightarrow> int \<Rightarrow> fault + (u8 kptr \<times> nat \<times> int \<times> bool)" where
  "emit [] buf off max_len = Inr (buf, off, max_len, False)"
| "emit (c # cs) buf off max_len =
     bindE (wr8 buf off c) (\<lambda>buf.
     if max_len - 1 = 0 then Inr (buf, off + 1, 0, True) else emit cs buf (off + 1) (max_len - 1))"

definition print_int ::
  "u8 kptr \<Rightarrow> nat \<Rightarrow> int \<Rightarrow> u32 \<Rightarrow> u32 \<Rightarrow> bool \<Rightarrow> u32 \<Rightarrow> u8 \<Rightarrow> bool \<Rightarrow> fault + (int \<times> u8 kptr)" where
  "print_int buf off buflen val base is_unsigned padding pad_char is_uppercase =
     (let negate = sint val < 0 \<and> \<not> is_unsigned;
          temp = (if negate then - val else val) in
      if buflen = 0 then Inr (0, buf)
      else
        bindE (emit (if negate then [minus_sign] else []) buf off buflen) (\<lambda>(buf, off, max_len, full).
        if full then Inr (buflen - max_len, buf)
        else
          bindE (digit_loop 64 temp base is_uppercase) (\<lambda>tmp_buf.
          let ndigits = length tmp_buf;
              n_pad = (if sint padding > 0
                       then nat (sint padding - int ndigits - (if negate then 1 else 0)) else 0) in
          bindE (emit (replicate n_pad pad_char) buf off max_len) (\<lambda>(buf, off, max_len, full).
          if full then Inr (buflen, buf)
          else
            bindE (emit (rev tmp_buf) buf off max_len) (\<lambda>(buf, off, max_len, full).
            if full then Inr (buflen, buf)
            else if ndigits = 0 \<and> sint padding \<le> 0
            then
              bindE (emit [digit_0] buf off max_len) (\<lambda>(buf, off, max_len, full).
              if full then Inr (buflen, buf) else Inr (buflen - max_len, buf))
            else Inr (buflen - max_len, buf))))))"

subsection \<open>\<open>os_vsnprintf\<close>\<close>

datatype varg = VInt u32 | VStr "u8 kptr" nat

fun va_int :: "varg list \<Rightarrow> fault + (u32 \<times> varg list)" where
  "va_int [] = Inl OutOfBounds"
| "va_int (VInt v # args) = Inr (v, args)"
| "va_int (VStr p off # args) = Inl WrongMember"

fun va_str :: "varg list \<Rightarrow> fault + ((u8 kptr \<times> nat) \<times> varg list)" where
  "va_str [] = Inl OutOfBounds"
| "va_str (VStr p off # args) = Inr ((p, off), args)"
| "va_str (VInt v # args) = Inl WrongMember"

text \<open>The digits of a width, from offset \<open>off\<close> of the format: the padding and the offset after them.\<close>

function read_padding :: "u8 kptr \<Rightarrow> nat \<Rightarrow> u32 \<Rightarrow> fault + (u32 \<times> nat)" where
  "read_padding str off padding =
     bindE (rd8 str off) (\<lambda>c.
     if c \<le> digit_9 \<and> digit_0 \<le> c then read_padding str (Suc off) (padding * 10 + ucast (c - digit_0))
     else Inr (padding, off))"
  by pat_completeness auto
termination
  by (relation "measure (\<lambda>(str, off, padding). obj_len str - off)") (auto dest!: kread_bound)

declare read_padding.simps [simp del]

lemma read_padding_ge: "read_padding str off padding = Inr (p, off') \<Longrightarrow> off \<le> off'"
proof (induction str off padding rule: read_padding.induct)
  case (1 str off padding)
  from "1.prems" obtain c where c: "rd8 str off = Inr c" by (subst (asm) read_padding.simps) (auto elim!: bindE_InrE)
  show ?case using "1.IH" [OF c] "1.prems" c by (subst (asm) read_padding.simps) (auto split: if_splits)
qed

text \<open>One conversion; a character that is none of them writes nothing.\<close>

definition convert ::
  "u8 \<Rightarrow> u8 kptr \<Rightarrow> nat \<Rightarrow> int \<Rightarrow> u32 \<Rightarrow> u8 \<Rightarrow> varg list \<Rightarrow> fault + (int \<times> u8 kptr \<times> varg list)" where
  "convert c buf off buflen padding pad_char args =
     (let num = (\<lambda>base is_unsigned is_uppercase.
            bindE (va_int args) (\<lambda>(t_arg, args).
            bindE (print_int buf off buflen t_arg base is_unsigned padding pad_char is_uppercase) (\<lambda>(n, buf).
            Inr (n, buf, args)))) in
      if c = 0x58 then num 16 True True
      else if c = 0x78 then num 16 True False
      else if c = 0x64 \<or> c = 0x69 then num 10 False False
      else if c = 0x75 then num 10 True False
      else if c = 0x63
      then
        bindE (va_int args) (\<lambda>(t_arg, args).
        bindE (wr8 buf off (ucast t_arg)) (\<lambda>buf.
        Inr (1, buf, args)))
      else if c = 0x73
      then
        bindE (va_str args) (\<lambda>((str_arg, soff), args).
        bindE (strncpy buf off str_arg soff (nat buflen)) (\<lambda>buf.
        bindE (strlen str_arg soff) (\<lambda>len.
        let n = sint len in
        Inr (if n > buflen then buflen else n, buf, args))))
      else if c = percent
      then bindE (wr8 buf off percent) (\<lambda>buf. Inr (1, buf, args))
      else Inr (0, buf, args))"

text \<open>
  The loop over the format, from offset \<open>s\<close>; \<open>off\<close> is where \<open>buf\<close> points. \<open>pad_char\<close> keeps its value from
  one conversion to the next, \<open>padding\<close> is set to \<open>-1\<close> after each.
\<close>

function vsnprintf_loop ::
  "u8 kptr \<Rightarrow> nat \<Rightarrow> u8 kptr \<Rightarrow> nat \<Rightarrow> int \<Rightarrow> int \<Rightarrow> u8 \<Rightarrow> varg list \<Rightarrow> fault + (int \<times> nat \<times> u8 kptr)" where
  "vsnprintf_loop str s buf off buflen nwritten pad_char args =
     bindE (rd8 str s) (\<lambda>c.
     if c = 0 then Inr (nwritten, off, buf)
     else
       bindE
         (if c = percent
          then
            bindE (rd8 str (Suc s)) (\<lambda>d.
            bindE (if d = digit_0 then bindE (read_padding str (Suc s) 0) (\<lambda>(padding, s). Inr (padding, s, digit_0))
                   else Inr (- 1, Suc s, pad_char)) (\<lambda>(padding, s', pad_char).
            bindE (rd8 str s') (\<lambda>e.
            bindE (convert e buf off buflen padding pad_char args) (\<lambda>(n, buf, args).
            Inr (n, buf, args, s', pad_char)))))
          else bindE (wr8 buf off c) (\<lambda>buf. Inr (1, buf, args, s, pad_char)))
         (\<lambda>(n, buf, args, s', pad_char).
         if buflen - n \<le> 0 then Inr (nwritten + n, off + nat n, buf)
         else vsnprintf_loop str (Suc s') buf (off + nat n) (buflen - n) (nwritten + n) pad_char args))"
  by pat_completeness auto
termination
  by (relation "measure (\<lambda>(str, s, buf, off, buflen, nwritten, pad_char, args). obj_len str - s)")
     (auto dest!: kread_bound read_padding_ge elim!: bindE_InrE split: if_splits)


declare vsnprintf_loop.simps [simp del]

definition os_vsnprintf :: "u8 kptr \<Rightarrow> nat \<Rightarrow> int \<Rightarrow> u8 kptr \<Rightarrow> nat \<Rightarrow> varg list \<Rightarrow> fault + (int \<times> u8 kptr)" where
  "os_vsnprintf buf off buflen str s args =
     (if buflen = 0 then Inr (0, buf)
      else if buflen - 1 = 0 then bindE (wr8 buf off 0) (\<lambda>buf. Inr (1, buf))
      else
        bindE (vsnprintf_loop str s buf off (buflen - 1) 0 0 args) (\<lambda>(nwritten, off, buf).
        bindE (wr8 buf off 0) (\<lambda>buf.
        Inr (nwritten + 1, buf))))"

definition os_snprintf :: "u8 kptr \<Rightarrow> nat \<Rightarrow> int \<Rightarrow> u8 kptr \<Rightarrow> nat \<Rightarrow> varg list \<Rightarrow> fault + (int \<times> u8 kptr)" where
  "os_snprintf buf off buflen fmt s args = os_vsnprintf buf off buflen fmt s args"

text \<open>The characters \<open>puts\<close> hands to \<open>chipset.uart_putc\<close>, all for channel 0.\<close>

function puts :: "u8 kptr \<Rightarrow> nat \<Rightarrow> fault + u8 list" where
  "puts s off =
     bindE (rd8 s off) (\<lambda>c. if c \<noteq> 0 then bindE (puts s (Suc off)) (\<lambda>cs. Inr (c # cs)) else Inr [])"
  by pat_completeness auto
termination
  by (relation "measure (\<lambda>(s, off). obj_len s - off)") (auto dest!: kread_bound)

declare puts.simps [simp del]

text \<open>\<open>kprintf\<close>: its result and the characters sent. The local \<open>char buf[256]\<close> is not initialised.\<close>

definition kprintf :: "u8 kptr \<Rightarrow> nat \<Rightarrow> varg list \<Rightarrow> fault + (int \<times> u8 list)" where
  "kprintf str_buf s args =
     bindE (os_vsnprintf (Some \<lparr>osize = 256, cells = (\<lambda>_. None)\<rparr>) 0 255 str_buf s args) (\<lambda>(n, buf).
     bindE (puts buf 0) (\<lambda>out.
     Inr (n, out)))"

subsection \<open>Writing a list of characters\<close>

definition has_room :: "u8 kptr \<Rightarrow> nat \<Rightarrow> bool" where
  "has_room buf n \<longleftrightarrow> (case buf of None \<Rightarrow> False | Some ob \<Rightarrow> n \<le> unat (osize ob))"

definition store :: "u8 kptr \<Rightarrow> nat \<Rightarrow> u8 list \<Rightarrow> u8 kptr" where
  "store buf off xs = map_option (\<lambda>ob. ob\<lparr>cells := (\<lambda>i.
     if off \<le> i \<and> i < off + length xs then Some (xs ! (i - off)) else cells ob i)\<rparr>) buf"

lemma has_room_store [simp]: "has_room (store buf off xs) n = has_room buf n"
  by (simp add: has_room_def store_def split: option.splits)

lemma has_room_le: "has_room buf n \<Longrightarrow> m \<le> n \<Longrightarrow> has_room buf m"
  by (auto simp: has_room_def split: option.splits)

lemma store_Nil [simp]: "store buf off [] = buf"
  by (cases buf) (auto simp: store_def)

lemma wr8_store: "has_room buf (Suc off) \<Longrightarrow> wr8 buf off c = Inr (store buf off [c])"
  by (auto simp: has_room_def kwrite_def in_object_def store_def fun_eq_iff split: option.splits)

lemma store_append: "store (store buf off xs) (off + length xs) ys = store buf off (xs @ ys)"
proof (cases buf)
  case (Some ob)
  have "(\<lambda>i. if off + length xs \<le> i \<and> i < off + length xs + length ys then Some (ys ! (i - (off + length xs)))
      else if off \<le> i \<and> i < off + length xs then Some (xs ! (i - off)) else cells ob i) =
    (\<lambda>i. if off \<le> i \<and> i < off + length (xs @ ys) then Some ((xs @ ys) ! (i - off)) else cells ob i)"
    by (auto simp: fun_eq_iff nth_append)
  then show ?thesis by (simp add: Some store_def cong: if_cong)
qed (simp add: store_def)

lemma store_Cons: "store (store buf off [c]) (Suc off) cs = store buf off (c # cs)"
  using store_append [of buf off "[c]" cs] by simp

text \<open>What \<open>emit\<close> does.\<close>

lemma emit_store:
  "0 < m \<Longrightarrow> has_room buf (off + min (length cs) (nat m)) \<Longrightarrow>
   emit cs buf off m = Inr (store buf off (take (nat m) cs), off + min (length cs) (nat m), m - int (min (length cs) (nat m)),
     m \<le> int (length cs))"
proof (induction cs buf off m rule: emit.induct)
  case (2 c cs buf off m)
  have w: "wr8 buf off c = Inr (store buf off [c])" using 2 by (intro wr8_store) (auto elim!: has_room_le)
  show ?case
  proof (cases "m = 1")
    case True
    then show ?thesis using w by simp
  next
    case False
    define k where "k = nat (m - 1)"
    then have k: "nat m = Suc k" "0 < k" "nat (m - 1) = k" "m = int (Suc k)" using False 2(2) by auto
    then show ?thesis using "2.IH" [OF w] "2.prems" w by (simp add: store_Cons)
  qed
qed simp

subsection \<open>The text of a number\<close>

text \<open>The digits of \<open>n\<close> in base \<open>b\<close>, the last one first; \<open>horner\<close> reads them back.\<close>

fun digits :: "nat \<Rightarrow> nat \<Rightarrow> nat list" where
  "digits b n = (if n = 0 \<or> b < 2 then [] else n mod b # digits b (n div b))"

declare digits.simps [simp del]

definition horner :: "nat \<Rightarrow> nat list \<Rightarrow> nat" where
  "horner b ds = foldr (\<lambda>d v. d + b * v) ds 0"

lemma horner_digits: "2 \<le> b \<Longrightarrow> horner b (digits b n) = n"
  by (induction b n rule: digits.induct) (subst digits.simps, auto simp: horner_def)

lemma digits_less: "d \<in> set (digits b n) \<Longrightarrow> d < b"
  by (induction b n rule: digits.induct) (subst (asm) digits.simps, auto split: if_splits)

lemma digits_Nil: "2 \<le> b \<Longrightarrow> digits b n = [] \<longleftrightarrow> n = 0"
  by (subst digits.simps) simp

lemma digits_last: "2 \<le> b \<Longrightarrow> n \<noteq> 0 \<Longrightarrow> last (digits b n) \<noteq> 0"
proof (induction b n rule: digits.induct)
  case (1 b n)
  show ?case
  proof (cases "n div b = 0")
    case True
    then have "n mod b = n" using 1 by (simp add: div_eq_0_iff)
    then show ?thesis using True 1 by (subst digits.simps) (simp add: digits_Nil)
  next
    case False
    then show ?thesis using 1 by (subst digits.simps) (simp add: digits_Nil)
  qed
qed

lemma digits_length: "2 \<le> b \<Longrightarrow> n < 2 ^ k \<Longrightarrow> length (digits b n) \<le> k"
proof (induction k arbitrary: n)
  case (Suc k)
  have "n div b \<le> n div 2" using Suc.prems(1) by (rule div_le_mono2 [rotated]) simp
  also have "\<dots> < 2 ^ k" using Suc.prems(2) by simp
  finally show ?case using Suc.IH [OF Suc.prems(1)] by (subst digits.simps) simp
qed (simp add: digits.simps)

definition digit_char :: "bool \<Rightarrow> nat \<Rightarrow> u8" where
  "digit_char is_uppercase k = (if is_uppercase then upper_case_digits ! k else lower_case_digits ! k)"

lemma digit_loop_digits:
  assumes "2 \<le> base" and "base \<le> 16" and "unat temp < 2 ^ room"
  shows "digit_loop room temp base up = Inr (map (digit_char up) (digits (unat base) (unat temp)))"
  using assms(3)
proof (induction room arbitrary: temp)
  case 0
  then show ?case by (auto simp: digits.simps unat_eq_0)
next
  case (Suc room)
  have b: "2 \<le> unat base" "unat base \<le> 16" using assms(1,2) by (simp_all add: u32_le_unat)
  have t: "unat (temp mod base) = unat temp mod unat base" "unat (temp div base) = unat temp div unat base"
    by (simp_all add: unat_mod unat_div)
  have "unat temp mod unat base < 16" using b mod_less_divisor [of "unat base" "unat temp"] by linarith
  moreover have "unat temp div unat base \<le> unat temp div 2" using b(1) by (rule div_le_mono2 [rotated]) simp
  then have "unat (temp div base) < 2 ^ room" using Suc.prems t by simp
  ultimately show ?case
    using Suc.IH [of "temp div base"] b(1) t by (simp add: Let_def digits.simps [of _ "unat temp"] unat_eq_0 digit_char_def)
qed

text \<open>What \<open>print_int\<close> prints when the buffer is large enough.\<close>

definition int_text :: "u32 \<Rightarrow> u32 \<Rightarrow> bool \<Rightarrow> u32 \<Rightarrow> u8 \<Rightarrow> bool \<Rightarrow> u8 list" where
  "int_text val base is_unsigned padding pad_char is_uppercase =
     (let negate = sint val < 0 \<and> \<not> is_unsigned;
          ds = digits (unat base) (unat (if negate then - val else val)) in
      (if negate then [minus_sign] else []) @
      replicate (if sint padding > 0 then nat (sint padding - int (length ds) - (if negate then 1 else 0)) else 0) pad_char @
      map (digit_char is_uppercase) (rev ds) @
      (if ds = [] \<and> sint padding \<le> 0 then [digit_0] else []))"

text \<open>One of the loops of \<open>print_int\<close>: \<open>xs\<close> has been written, the loop writes \<open>ys\<close>.\<close>

lemma emit_step:
  assumes "int (length xs) < m" and "has_room buf (off + min (length (xs @ ys)) (nat m))"
    and full: "m \<le> int (length (xs @ ys)) \<Longrightarrow> F (store buf off (take (nat m) (xs @ ys))) (off + nat m) 0 = R"
    and cont: "int (length (xs @ ys)) < m \<Longrightarrow>
      K (store buf off (xs @ ys)) (off + length (xs @ ys)) (m - int (length (xs @ ys))) = R"
  shows "bindE (emit ys (store buf off xs) (off + length xs) (m - int (length xs)))
    (\<lambda>(b, o', m', is_full). if is_full then F b o' m' else K b o' m') = R"
proof -
  have "nat (m - int (length xs)) = nat m - length xs" by simp
  moreover have "has_room (store buf off xs) (off + length xs + min (length ys) (nat (m - int (length xs))))"
    using has_room_le [OF assms(2)] assms(1) by simp
  ultimately have e: "emit ys (store buf off xs) (off + length xs) (m - int (length xs)) =
    Inr (store buf off (xs @ take (nat m - length xs) ys), off + length xs + min (length ys) (nat m - length xs),
      m - int (length xs) - int (min (length ys) (nat m - length xs)), m \<le> int (length (xs @ ys)))"
    using emit_store [of "m - int (length xs)" "store buf off xs" "off + length xs" ys] assms(1) by (auto simp: store_append)
  show ?thesis
  proof (cases "m \<le> int (length (xs @ ys))")
    case True
    then have "min (length ys) (nat m - length xs) = nat m - length xs" by simp
    then show ?thesis using e full [OF True] True assms(1) by (simp add: of_nat_diff)
  next
    case False
    then show ?thesis using e cont by (simp add: algebra_simps)
  qed
qed


lemma print_int_text:
  assumes b: "2 \<le> base" "base \<le> 16" and m: "0 < m"
    and r: "has_room buf (off + min (length (int_text val base uns p pc up)) (nat m))"
  defines "out \<equiv> take (nat m) (int_text val base uns p pc up)"
  shows "print_int buf off m val base uns p pc up = Inr (int (length out), store buf off out)"
proof -
  define neg where "neg \<longleftrightarrow> sint val < 0 \<and> \<not> uns"
  define ds where "ds = digits (unat base) (unat (if neg then - val else val))"
  define a where "a = (if neg then [minus_sign] else [])"
  define b where "b = replicate (if sint p > 0 then nat (sint p - int (length ds) - (if neg then 1 else 0)) else 0) pc"
  define c where "c = map (digit_char up) (rev ds)"
  define d where "d = (if ds = [] \<and> sint p \<le> 0 then [digit_0] else [])"
  have whole: "int_text val base uns p pc up = a @ b @ c @ d"
    by (simp add: int_text_def Let_def a_def b_def c_def d_def ds_def neg_def)
  note out = out_def [unfolded whole] and room = r [unfolded whole]
  have dl: "digit_loop 64 (if neg then - val else val) base up = Inr (map (digit_char up) ds)"
    unfolding ds_def using u32_unat_lt [of "if neg then - val else val"] by (intro digit_loop_digits assms(1,2)) simp
  let ?R = "Inr (int (length out), store buf off out) :: fault + (int \<times> u8 kptr)"
  have "print_int buf off m val base uns p pc up =
    bindE (emit a (store buf off []) (off + length ([] :: u8 list)) (m - int (length ([] :: u8 list)))) (\<lambda>(buf, off, max_len, full).
        if full then Inr (m - max_len, buf)
        else bindE (emit b buf off max_len) (\<lambda>(buf, off, max_len, full).
          if full then Inr (m, buf)
          else bindE (emit c buf off max_len) (\<lambda>(buf, off, max_len, full).
            if full then Inr (m, buf)
            else bindE (emit d buf off max_len) (\<lambda>(buf, off, max_len, full).
              if full then Inr (m, buf) else Inr (m - max_len, buf)))))"
    using m dl by (simp add: print_int_def Let_def a_def b_def c_def d_def neg_def [symmetric] rev_map cong: if_cong)
  also have "\<dots> = ?R"
  proof (rule emit_step, goal_cases)
    case 4
    show ?case
    proof (rule emit_step, goal_cases)
      case 4
      show ?case
      proof (rule emit_step, goal_cases)
        case 4
        show ?case by (rule emit_step) (use 4 has_room_le [OF room] in \<open>simp_all add: out\<close>)
      qed (use 4 has_room_le [OF room] in \<open>simp_all add: out\<close>)
    qed (use 4 has_room_le [OF room] in \<open>simp_all add: out\<close>)
  qed (use m has_room_le [OF room] in \<open>simp_all add: out\<close>)
  finally show ?thesis .
qed


subsection \<open>What a format means\<close>

text \<open>
  The output of a format on lists of characters: arguments are numbers and strings. A format without meaning
  (one that ends after a \<open>%\<close> or a width, or whose arguments do not match) has the output \<open>None\<close>.
\<close>

datatype farg = FInt u32 | FStr "u8 list"

definition is_digit :: "u8 \<Rightarrow> bool" where
  "is_digit c \<longleftrightarrow> c \<le> digit_9 \<and> digit_0 \<le> c"

definition pad_value :: "u32 \<Rightarrow> u8 list \<Rightarrow> u32" where
  "pad_value = foldl (\<lambda>p c. p * 10 + ucast (c - digit_0))"

definition directive :: "u8 \<Rightarrow> u32 \<Rightarrow> u8 \<Rightarrow> farg list \<Rightarrow> (u8 list \<times> farg list) option" where
  "directive c p pc args =
     (if c \<in> {0x58, 0x78, 0x64, 0x69, 0x75}
      then (case args of
        FInt v # args \<Rightarrow> Some (int_text v (if c \<in> {0x58, 0x78} then 16 else 10) (c \<notin> {0x64, 0x69}) p pc (c = 0x58), args)
      | _ \<Rightarrow> None)
      else if c = 0x63 then (case args of FInt v # args \<Rightarrow> Some ([ucast v], args) | _ \<Rightarrow> None)
      else if c = 0x73 then (case args of FStr xs # args \<Rightarrow> Some (xs, args) | _ \<Rightarrow> None)
      else Some (if c = percent then [percent] else [], args))"

function format :: "u8 \<Rightarrow> u8 list \<Rightarrow> farg list \<Rightarrow> u8 list option" where
  "format pc [] args = Some []"
| "format pc (c # cs) args =
     (if c \<noteq> percent then map_option ((#) c) (format pc cs args)
      else
        let zero = cs \<noteq> [] \<and> hd cs = digit_0;
            p = (if zero then pad_value 0 (takeWhile is_digit cs) else - 1);
            pc = (if zero then digit_0 else pc) in
        case (if zero then dropWhile is_digit cs else cs) of
          [] \<Rightarrow> None
        | e # es \<Rightarrow>
            (case directive e p pc args of
               None \<Rightarrow> None
             | Some (out, args) \<Rightarrow> map_option ((@) out) (format pc es args)))"
  by pat_completeness auto
termination
proof (relation "measure (\<lambda>(pc, cs, args). length cs)", goal_cases)
  case (3 pc c cs args zero p pc' e es out args')
  then have "length (e # es) \<le> length cs" using length_dropWhile_le [of is_digit cs] by (auto split: if_splits)
  then show ?case by simp
qed simp_all

declare format.simps [simp del]

subsection \<open>The formatter computes it\<close>

text \<open>
  \<open>xs\<close> was written at \<open>off\<close>, nothing else but perhaps the byte after it (where \<open>strncpy\<close> puts its terminator).
\<close>

definition wrote :: "u8 kptr \<Rightarrow> nat \<Rightarrow> u8 list \<Rightarrow> u8 kptr \<Rightarrow> bool" where
  "wrote buf off xs buf' \<longleftrightarrow> (\<exists>ob ob'. buf = Some ob \<and> buf' = Some ob' \<and> osize ob' = osize ob \<and>
     (\<forall>i < length xs. cells ob' (off + i) = Some (xs ! i)) \<and>
     (\<forall>i. i < off \<or> off + length xs < i \<longrightarrow> cells ob' i = cells ob i))"

lemma wrote_store: "has_room buf 0 \<Longrightarrow> xs \<in> {ys, ys @ [z]} \<Longrightarrow> wrote buf off ys (store buf off xs)"
  by (cases buf) (auto simp: wrote_def store_def has_room_def nth_append)

lemma wrote_room: "wrote buf off xs buf' \<Longrightarrow> has_room buf' n = has_room buf n"
  by (auto simp: wrote_def has_room_def)

lemma wrote_append:
  assumes "wrote buf off xs buf1" and "wrote buf1 (off + length xs) ys buf2"
  shows "wrote buf off (xs @ ys) buf2"
proof -
  from assms obtain ob ob1 ob2 where ob: "buf = Some ob" "buf1 = Some ob1" "buf2 = Some ob2" "osize ob2 = osize ob"
    and x: "\<forall>i < length xs. cells ob1 (off + i) = Some (xs ! i)" "\<forall>i. i < off \<or> off + length xs < i \<longrightarrow> cells ob1 i = cells ob i"
    and y: "\<forall>i < length ys. cells ob2 (off + length xs + i) = Some (ys ! i)"
      "\<forall>i. i < off + length xs \<or> off + length xs + length ys < i \<longrightarrow> cells ob2 i = cells ob1 i"
    unfolding wrote_def by auto
  have "cells ob2 (off + i) = Some ((xs @ ys) ! i)" if "i < length (xs @ ys)" for i
  proof (cases "i < length xs")
    case False
    then have "i - length xs < length ys" and e: "off + length xs + (i - length xs) = off + i" using that by auto
    then have "cells ob2 (off + length xs + (i - length xs)) = Some (ys ! (i - length xs))" using y(1) by blast
    then show ?thesis using False unfolding e by (simp add: nth_append)
  qed (use x y in \<open>simp add: nth_append\<close>)
  moreover have "cells ob2 i = cells ob i" if "i < off \<or> off + length (xs @ ys) < i" for i
    using that x(2) y(2) by auto
  ultimately show ?thesis unfolding wrote_def using ob by auto
qed

lemma strncpy_store:
  "cstr src s xs \<Longrightarrow> has_room dest (Suc (d + min (length xs) n)) \<Longrightarrow>
   strncpy dest d src s n = Inr (store dest d (take (Suc n) (xs @ [0])))"
proof (induction n arbitrary: dest d s xs)
  case 0
  then have "wr8 dest d c = Inr (store dest d [c])" for c by (intro wr8_store) simp
  then show ?case using cstr_hd [OF 0(1)] by (subst strncpy.simps) (auto split: list.split)
next
  case (Suc n)
  have w: "wr8 dest d c = Inr (store dest d [c])" for c using has_room_le [OF Suc.prems(2)] by (intro wr8_store) simp
  show ?case
  proof (cases xs)
    case Nil
    then show ?thesis using w cstr_hd [OF Suc.prems(1)] by (subst strncpy.simps) simp
  next
    case (Cons x ys)
    have "x \<noteq> 0" "cstr src (Suc s) ys" using Suc.prems(1) Cons cstr_Cons_nonzero cstr_tail by auto
    moreover have "has_room (store dest d [x]) (Suc (Suc d + min (length ys) n))" using Suc.prems(2) Cons by simp
    ultimately show ?thesis
      using w cstr_hd [OF Suc.prems(1)] Suc.IH [of "Suc s" ys "store dest d [x]" "Suc d"] Cons
      by (subst strncpy.simps) (simp add: store_Cons)
  qed
qed

text \<open>Arguments and their meaning.\<close>

fun arg_ok :: "varg \<Rightarrow> farg \<Rightarrow> bool" where
  "arg_ok (VInt v) (FInt v') \<longleftrightarrow> v = v'"
| "arg_ok (VStr p off) (FStr xs) \<longleftrightarrow> cstr p off xs \<and> length xs < 0x80000000"
| "arg_ok _ _ \<longleftrightarrow> False"

lemma arg_ok_FInt: "arg_ok a (FInt v) \<longleftrightarrow> a = VInt v"
  by (cases a) auto

lemma arg_ok_FStr: "arg_ok a (FStr xs) \<longleftrightarrow> (\<exists>p off. a = VStr p off \<and> cstr p off xs \<and> length xs < 0x80000000)"
  by (cases a) auto

lemma sint_small: "n < 0x80000000 \<Longrightarrow> sint (of_nat n :: u32) = int n"
  by (simp add: sint_uint uint_nat unat_of_nat_u32 signed_take_bit_int_eq_self)

lemma convert_directive:
  assumes d: "directive c p pc fargs = Some (out, fargs')" and args: "list_all2 arg_ok args fargs"
    and m: "0 < m" and r: "has_room buf (Suc (off + nat m))"
  shows "\<exists>buf' args'. convert c buf off m p pc args = Inr (int (length (take (nat m) out)), buf', args') \<and>
    list_all2 arg_ok args' fargs' \<and> wrote buf off (take (nat m) out) buf'"
proof -
  have r0: "has_room buf 0" and r1: "has_room buf (Suc off)" using has_room_le [OF r] m by auto
  have number: "\<exists>buf' args'. bindE (va_int args) (\<lambda>(t_arg, args).
            bindE (print_int buf off m t_arg b u p pc up) (\<lambda>(n, buf). Inr (n, buf, args))) = Inr (int (length (take (nat m) out)), buf', args') \<and>
      list_all2 arg_ok args' fargs' \<and> wrote buf off (take (nat m) out) buf'"
    if "fargs = FInt v # fargs'" "out = int_text v b u p pc up" "2 \<le> b" "b \<le> 16" for v b u up
  proof -
    note fa = that(1)
    obtain args' where a: "args = VInt v # args'" "list_all2 arg_ok args' fargs'"
      using args unfolding fa by (auto simp: list_all2_Cons2 arg_ok_FInt)
    have "print_int buf off m v b u p pc up = Inr (int (length (take (nat m) out)), store buf off (take (nat m) out))"
      using has_room_le [OF r] print_int_text [OF that(3,4) m, of buf off v u p pc up] that(2) by simp
    then show ?thesis using a wrote_store [OF r0] by simp
  qed
  consider (num) v where "c \<in> {0x58, 0x78, 0x64, 0x69, 0x75}" "fargs = FInt v # fargs'"
      "out = int_text v (if c \<in> {0x58, 0x78} then 16 else 10) (c \<notin> {0x64, 0x69}) p pc (c = 0x58)"
    | (chr) v where "c = 0x63" "fargs = FInt v # fargs'" "out = [ucast v]"
    | (str) xs where "c = 0x73" "fargs = FStr xs # fargs'" "out = xs"
    | (other) "c \<notin> {0x58, 0x78, 0x64, 0x69, 0x75, 0x63, 0x73}" "fargs' = fargs" "out = (if c = percent then [percent] else [])"
    using d by (auto simp: directive_def split: if_splits list.splits farg.splits)
  then show ?thesis
  proof cases
    case num
    then have b: "2 \<le> (if c \<in> {0x58, 0x78} then 16 else 10 :: u32)" "(if c \<in> {0x58, 0x78} then 16 else 10 :: u32) \<le> 16" by auto
    from number [OF num(2,3) b] show ?thesis using num(1) by (auto simp: convert_def Let_def)
  next
    case chr
    then obtain args' where a: "args = VInt v # args'" "list_all2 arg_ok args' fargs'"
      using args unfolding chr(2) by (auto simp: list_all2_Cons2 arg_ok_FInt)
    have t: "take (nat m) out = [ucast v]" using chr m by (cases "nat m") auto
    have "wrote buf off [ucast v] (store buf off [ucast v])" by (rule wrote_store [OF r0]) simp
    then show ?thesis unfolding t using chr(1) a wr8_store [OF r1] by (simp add: convert_def)
  next
    case str
    then obtain q so args' where a: "args = VStr q so # args'" "list_all2 arg_ok args' fargs'" "cstr q so xs" "length xs < 0x80000000"
      using args unfolding str(2) by (auto simp: list_all2_Cons2 arg_ok_FStr)
    let ?t = "take (nat m) xs"
    have "take (Suc (nat m)) (xs @ [0]) \<in> {?t, ?t @ [if length xs \<le> nat m then 0 else xs ! nat m]}"
      by (auto simp: take_Suc_conv_app_nth not_le)
    then have w: "wrote buf off ?t (store buf off (take (Suc (nat m)) (xs @ [0])))" by (rule wrote_store [OF r0])
    have "strncpy buf off q so (nat m) = Inr (store buf off (take (Suc (nat m)) (xs @ [0])))"
      using has_room_le [OF r] by (intro strncpy_store [OF a(3)]) simp
    then have "convert c buf off m p pc args =
        Inr (int (length ?t), store buf off (take (Suc (nat m)) (xs @ [0])), args')"
      using str(1) a(1) strlen_cstr [OF a(3)] sint_small [OF a(4)] by (simp add: convert_def Let_def del: take_append length_take) (use m in auto)
    then show ?thesis using w a(2) str(3) by auto
  next
    case other
    show ?thesis
    proof (cases "c = percent")
      case True
      have t: "take (nat m) out = [percent]" using other True m by (cases "nat m") auto
      have "wrote buf off [percent] (store buf off [percent])" by (rule wrote_store [OF r0]) simp
      then show ?thesis unfolding t using True args other wr8_store [OF r1] by (simp add: convert_def)
    next
      case False
      have "wrote buf off [] (store buf off [])" by (rule wrote_store [OF r0]) simp
      then show ?thesis using False args other by (simp add: convert_def)
    qed
  qed
qed


text \<open>The width of a conversion.\<close>

lemma read_padding_digits:
  "cstr p off xs \<Longrightarrow> read_padding p off v = Inr (pad_value v (takeWhile is_digit xs), off + length (takeWhile is_digit xs))"
proof (induction xs arbitrary: off v)
  case Nil
  then show ?case using cstr_hd [OF Nil] by (subst read_padding.simps) (simp add: pad_value_def)
next
  case (Cons x xs)
  then show ?case
    using cstr_hd [OF Cons.prems] cstr_tail [OF Cons.prems] by (subst read_padding.simps) (auto simp: pad_value_def simp flip: is_digit_def)
qed

lemma dropWhile_drop: "dropWhile P xs = drop (length (takeWhile P xs)) xs"
  by (induction xs) auto

text \<open>One round: a conversion has written \<open>o1\<close>, the rest of the format means \<open>o2\<close>.\<close>

lemma round_format:
  assumes w: "wrote buf off (take (nat m) o1) buf1" and m: "0 < m" and n: "n = int (length (take (nat m) o1))"
    and rest: "int (length o1) < m \<Longrightarrow> \<exists>buf'. loop buf1 (off + length o1) (m - int (length o1)) (nw + int (length o1)) =
      Inr (nw + int (length o1) + int (length (take (nat (m - int (length o1))) o2)),
        off + length o1 + length (take (nat (m - int (length o1))) o2), buf') \<and>
      wrote buf1 (off + length o1) (take (nat (m - int (length o1))) o2) buf'"
  shows "\<exists>buf'. (if m - n \<le> 0 then Inr (nw + n, off + nat n, buf1) else loop buf1 (off + nat n) (m - n) (nw + n)) =
      Inr (nw + int (length (take (nat m) (o1 @ o2))), off + length (take (nat m) (o1 @ o2)), buf') \<and>
    wrote buf off (take (nat m) (o1 @ o2)) buf'"
proof (cases "m \<le> int (length o1)")
  case True
  then have "n = m" "take (nat m) (o1 @ o2) = take (nat m) o1" using n m by auto
  then show ?thesis using w m True by auto
next
  case False
  then have n': "n = int (length o1)" "take (nat m) o1 = o1" using n by auto
  have t: "take (nat m) (o1 @ o2) = o1 @ take (nat (m - int (length o1))) o2" using False by (simp add: nat_diff_distrib)
  from rest False obtain buf' where b: "loop buf1 (off + length o1) (m - int (length o1)) (nw + int (length o1)) =
      Inr (nw + int (length o1) + int (length (take (nat (m - int (length o1))) o2)),
        off + length o1 + length (take (nat (m - int (length o1))) o2), buf')"
      "wrote buf1 (off + length o1) (take (nat (m - int (length o1))) o2) buf'" by auto
  have "wrote buf off (o1 @ take (nat (m - int (length o1))) o2) buf'" using wrote_append [OF w [unfolded n'(2)] b(2)] .
  then show ?thesis unfolding t using b(1) False n'(1) by (simp add: add.assoc)
qed

text \<open>The loop prints what the format means, as far as the buffer goes.\<close>

lemma vsnprintf_loop_format:
  assumes "format pc fs fargs = Some out" and "cstr str s fs" and "list_all2 arg_ok args fargs"
    and "0 < m" and "has_room buf (Suc (off + nat m))"
  shows "\<exists>buf'. vsnprintf_loop str s buf off m nw pc args =
      Inr (nw + int (length (take (nat m) out)), off + length (take (nat m) out), buf') \<and> wrote buf off (take (nat m) out) buf'"
  using assms
proof (induction pc fs fargs arbitrary: out s args m buf off nw rule: format.induct)
  case (1 pc fargs)
  have "wrote buf off [] (store buf off [])" using 1 has_room_le [of buf _ 0] by (intro wrote_store) auto
  then show ?case using 1 cstr_hd [OF 1(2)] by (subst vsnprintf_loop.simps) (simp add: format.simps)
next
  case (2 pc c cs fargs)
  have r0: "has_room buf 0" and r1: "has_room buf (Suc off)" using has_room_le [OF 2(7)] 2(6) by auto
  have c: "rd8 str s = Inr c" "c \<noteq> 0" "cstr str (Suc s) cs"
    using cstr_hd [OF 2(4)] cstr_Cons_nonzero [OF 2(4)] cstr_tail [OF 2(4)] by auto
  have room: "has_room buf1 (Suc (off + length o1 + nat (m - int (length o1))))"
    if "wrote buf off (take (nat m) o1) buf1" "int (length o1) < m" for buf1 o1
    using wrote_room [OF that(1)] 2(7) that(2) by (simp add: nat_diff_distrib)
  show ?case
  proof (cases "c = percent")
    case False
    then obtain o2 where o: "out = [c] @ o2" "format pc cs fargs = Some o2" using 2(3) by (auto simp: format.simps)
    have w: "wr8 buf off c = Inr (store buf off [c])" by (rule wr8_store [OF r1])
    have t: "take (nat m) [c] = [c]" using 2(6) by (cases "nat m") auto
    have "wrote buf off [c] (store buf off [c])" by (rule wrote_store [OF r0]) simp
    then have w1: "wrote buf off (take (nat m) [c]) (store buf off [c])" unfolding t .
    have eq: "vsnprintf_loop str s buf off m nw pc args = (if m - 1 \<le> 0 then Inr (nw + 1, off + nat 1, store buf off [c])
        else (\<lambda>b f m n. vsnprintf_loop str (Suc s) b f m n pc args) (store buf off [c]) (off + nat 1) (m - 1) (nw + 1))"
      using c False w by (subst vsnprintf_loop.simps) simp
    show ?thesis
      unfolding eq o(1)
    proof (rule round_format [OF w1 2(6)])
      assume "int (length [c]) < m"
      then show "\<exists>buf'. vsnprintf_loop str (Suc s) (store buf off [c]) (off + length [c]) (m - int (length [c])) (nw + int (length [c])) pc args =
        Inr (nw + int (length [c]) + int (length (take (nat (m - int (length [c]))) o2)),
          off + length [c] + length (take (nat (m - int (length [c]))) o2), buf') \<and>
        wrote (store buf off [c]) (off + length [c]) (take (nat (m - int (length [c]))) o2) buf'"
        using room [OF w1] by (intro "2.IH"(1) [OF False o(2) c(3) 2(5)]) simp_all
    qed (simp add: t)
  next
    case True
    define zero where "zero \<longleftrightarrow> cs \<noteq> [] \<and> hd cs = digit_0"
    define p where "p = (if zero then pad_value 0 (takeWhile is_digit cs) else - 1)"
    define pc' where "pc' = (if zero then digit_0 else pc)"
    define k where "k = (if zero then length (takeWhile is_digit cs) else 0)"
    have tail: "(if zero then dropWhile is_digit cs else cs) = drop k cs" by (simp add: k_def dropWhile_drop)
    obtain e es where es: "drop k cs = e # es" using 2(3) True
      by (cases "drop k cs") (auto simp: format.simps Let_def tail zero_def [symmetric])
    obtain o1 fargs' o2 where o: "directive e p pc' fargs = Some (o1, fargs')" "format pc' es fargs' = Some o2" "out = o1 @ o2"
      using 2(3) True es
      by (auto simp: format.simps Let_def tail zero_def [symmetric] p_def [symmetric] pc'_def [symmetric] split: option.splits)
    have k: "k < length cs" using es by (metis drop_all leI list.distinct(1))
    have ce: "cstr str (Suc s + k) (e # es)" using cstr_drop [OF c(3), of k] k es by simp
    have head: "rd8 str (Suc s) = Inr (hd cs)" "cs \<noteq> []" using cstr_hd [OF c(3)] k by (cases cs; simp)+
    have wid: "(if hd cs = digit_0 then bindE (read_padding str (Suc s) 0) (\<lambda>(padding, s). Inr (padding, s, digit_0))
        else Inr (- 1, Suc s, pc)) = Inr (p, Suc s + k, pc')"
      using head(2) read_padding_digits [OF c(3)] by (simp add: p_def pc'_def k_def zero_def)
    obtain buf1 args' where cv: "convert e buf off m p pc' args = Inr (int (length (take (nat m) o1)), buf1, args')"
      "list_all2 arg_ok args' fargs'" "wrote buf off (take (nat m) o1) buf1"
      using convert_directive [OF o(1) 2(5-7)] by blast
    let ?n = "int (length (take (nat m) o1))"
    have eq: "vsnprintf_loop str s buf off m nw pc args = (if m - ?n \<le> 0 then Inr (nw + ?n, off + nat ?n, buf1)
        else (\<lambda>b f m n. vsnprintf_loop str (Suc (Suc s + k)) b f m n pc' args') buf1 (off + nat ?n) (m - ?n) (nw + ?n))"
      using c True head wid cstr_hd [OF ce] cv(1) by (subst vsnprintf_loop.simps) simp
    show ?thesis
      unfolding eq o(3)
    proof (rule round_format [OF cv(3) 2(6) refl])
      assume lt: "int (length o1) < m"
      show "\<exists>buf'. vsnprintf_loop str (Suc (Suc s + k)) buf1 (off + length o1) (m - int (length o1)) (nw + int (length o1)) pc' args' =
        Inr (nw + int (length o1) + int (length (take (nat (m - int (length o1))) o2)),
          off + length o1 + length (take (nat (m - int (length o1))) o2), buf') \<and>
        wrote buf1 (off + length o1) (take (nat (m - int (length o1))) o2) buf'"
        using lt room [OF cv(3) lt] True
        by (intro "2.IH"(2) [OF _ zero_def p_def pc'_def tail [unfolded es] o(1) refl o(2) cstr_tail [OF ce] cv(2)]) simp_all
    qed
  qed
qed


subsection \<open>Properties\<close>

lemma wrote_end:
  assumes w: "wrote buf off xs buf1" and "has_room buf (Suc (off + length xs))"
  shows "wr8 buf1 (off + length xs) c = Inr (store buf off (xs @ [c]))"
proof -
  have "wr8 buf1 (off + length xs) c = Inr (store buf1 (off + length xs) [c])"
    using wr8_store wrote_room [OF w] assms(2) by blast
  moreover from w obtain ob ob1 where ob: "buf = Some ob" "buf1 = Some ob1" "osize ob1 = osize ob"
    "\<forall>i < length xs. cells ob1 (off + i) = Some (xs ! i)" "\<forall>i. i < off \<or> off + length xs < i \<longrightarrow> cells ob1 i = cells ob i"
    unfolding wrote_def by auto
  have "(if off + length xs \<le> i \<and> i < off + length xs + 1 then Some ([c] ! (i - (off + length xs))) else cells ob1 i) =
    (if off \<le> i \<and> i < off + length (xs @ [c]) then Some ((xs @ [c]) ! (i - off)) else cells ob i)" for i
  proof (cases "off \<le> i \<and> i < off + length xs")
    case True
    then have "cells ob1 (off + (i - off)) = Some (xs ! (i - off))" using ob(4) by (metis less_diff_conv2 add.commute)
    moreover have "i - off < length xs" using True by auto
    ultimately show ?thesis using True by (simp add: nth_append)
  qed (use ob(5) in \<open>auto simp: nth_append\<close>)
  then have "(\<lambda>i. if off + length xs \<le> i \<and> i < off + length xs + 1 then Some ([c] ! (i - (off + length xs))) else cells ob1 i) =
    (\<lambda>i. if off \<le> i \<and> i < off + length (xs @ [c]) then Some ((xs @ [c]) ! (i - off)) else cells ob i)" by (rule ext)
  then have "store buf1 (off + length xs) [c] = store buf off (xs @ [c])"
    using ob(1-3) by (simp add: store_def)
  ultimately show ?thesis by simp
qed

lemma os_vsnprintf_format:
  assumes out: "format 0 fs fargs = Some out" and str: "cstr str s fs" and args: "list_all2 arg_ok args fargs"
    and n: "0 < n" and r: "has_room buf (off + nat n)"
  shows "os_vsnprintf buf off n str s args =
    Inr (int (length (take (nat (n - 1)) out)) + 1, store buf off (take (nat (n - 1)) out @ [0]))"
proof (cases "n = 1")
  case True
  then show ?thesis using wr8_store [of buf off 0] r by (simp add: os_vsnprintf_def)
next
  case False
  then have m: "0 < n - 1" "Suc (off + nat (n - 1)) = off + nat n" using n by auto
  obtain buf1 where b: "vsnprintf_loop str s buf off (n - 1) 0 0 args =
      Inr (int (length (take (nat (n - 1)) out)), off + length (take (nat (n - 1)) out), buf1)" "wrote buf off (take (nat (n - 1)) out) buf1"
    using vsnprintf_loop_format [OF out str args m(1), of buf off 0] r m(2) by auto
  have "Suc (off + length (take (nat (n - 1)) out)) \<le> off + nat n" using m by simp
  from wrote_end [OF b(2) has_room_le [OF r this]] show ?thesis
    using n False b(1) by (simp add: os_vsnprintf_def)
qed

text \<open>
  (C32) \<^bold>\<open>Formatted output.\<close> For a format with a meaning, \<open>os_vsnprintf\<close> writes the output cut to one byte less than
  the buffer, then a zero, returns the number of bytes written, and changes no other byte: the \<open>TODO\<close> above it
  (that it may overflow the buffer) does not apply, although \<open>strncpy\<close> writes one byte more than it is allowed to.
\<close>

theorem os_vsnprintf_formats:
  assumes "format 0 fs fargs = Some out" and "cstr str s fs" and "list_all2 arg_ok args fargs"
    and "0 < n" and "has_room buf (off + nat n)"
  shows "os_vsnprintf buf off n str s args =
    Inr (int (length (take (nat (n - 1)) out)) + 1, store buf off (take (nat (n - 1)) out @ [0]))"
  by (rule os_vsnprintf_format [OF assms])

text \<open>The example of \<open>stdio.h\<close>: \<open>'%05d %05d %05u'\<close> of 15, -15 and -15 is \<open>'00015 -0015 4294967281'\<close>.\<close>

definition demo_format :: "u8 list" where
  "demo_format = [0x25, 0x30, 0x35, 0x64, 0x20, 0x25, 0x30, 0x35, 0x64, 0x20, 0x25, 0x30, 0x35, 0x75]"

definition demo_output :: "u8 list" where
  "demo_output = [0x30, 0x30, 0x30, 0x31, 0x35, 0x20, 0x2D, 0x30, 0x30, 0x31, 0x35, 0x20,
     0x34, 0x32, 0x39, 0x34, 0x39, 0x36, 0x37, 0x32, 0x38, 0x31]"

lemma demo_format_output: "format 0 demo_format [FInt 15, FInt (- 15), FInt (- 15)] = Some demo_output"
  by (simp add: demo_format_def demo_output_def format.simps is_digit_def pad_value_def directive_def int_text_def digits.simps
      digit_char_def lower_case_digits_def Let_def)
     (simp add: replicate_app_Cons_same numeral_3_eq_3 numeral_2_eq_2)


theorem os_vsnprintf_formats_witness:
  "let buf = Some \<lparr>osize = 64, cells = (\<lambda>_. None)\<rparr> in
   os_vsnprintf buf 0 64 (cstr_obj demo_format) 0 [VInt 15, VInt (- 15), VInt (- 15)] = Inr (23, store buf 0 (demo_output @ [0]))"
proof -
  have "cstr (cstr_obj demo_format) 0 demo_format" by (rule cstr_obj_cstr) (simp_all add: demo_format_def)
  from os_vsnprintf_formats [OF demo_format_output this, of "[VInt 15, VInt (- 15), VInt (- 15)]" 64 "Some \<lparr>osize = 64, cells = (\<lambda>_. None)\<rparr>" 0]
  show ?thesis by (simp add: has_room_def demo_output_def)
qed

lemma puts_store:
  "has_room buf (off + Suc (length xs)) \<Longrightarrow> puts (store buf off (xs @ [0])) off = Inr (takeWhile (\<lambda>c. c \<noteq> 0) xs)"
proof (induction xs arbitrary: buf off)
  case Nil
  then have "rd8 (store buf off [0]) off = Inr 0"
    by (auto simp: store_def has_room_def kread_def in_object_def split: option.splits)
  then show ?case by (subst puts.simps) simp
next
  case (Cons x xs)
  have "rd8 (store buf off ((x # xs) @ [0])) off = Inr x"
    using Cons.prems by (auto simp: store_def has_room_def kread_def in_object_def split: option.splits)
  moreover have "puts (store buf off ((x # xs) @ [0])) (Suc off) = Inr (takeWhile (\<lambda>c. c \<noteq> 0) xs)"
    using Cons.IH [of "store buf off [x]" "Suc off"] Cons.prems by (simp add: store_Cons)
  ultimately show ?case by (subst puts.simps) simp
qed

lemma kprintf_format:
  assumes "format 0 fs fargs = Some out" and "cstr str s fs" and "list_all2 arg_ok args fargs"
  shows "kprintf str s args = Inr (int (min 254 (length out)) + 1, takeWhile (\<lambda>c. c \<noteq> 0) (take 254 out))"
proof -
  let ?buf = "Some \<lparr>osize = 256, cells = (\<lambda>_. None)\<rparr> :: u8 kptr"
  have r: "has_room ?buf (0 + nat 255)" by (simp add: has_room_def)
  have "os_vsnprintf ?buf 0 255 str s args = Inr (int (length (take 254 out)) + 1, store ?buf 0 (take 254 out @ [0]))"
    using os_vsnprintf_format [OF assms _ r] by simp
  moreover have "puts (store ?buf 0 (take 254 out @ [0])) 0 = Inr (takeWhile (\<lambda>c. c \<noteq> 0) (take 254 out))"
    by (rule puts_store) (simp add: has_room_def)
  ultimately show ?thesis by (simp add: kprintf_def min.commute)
qed

text \<open>
  \<^bold>\<open>Printing.\<close> \<open>kprintf\<close> sends the output of its format to the UART, up to a zero byte in it and at most 254
  characters (\<open>stdio.h\<close> says 256), and returns one more than the number of characters formatted.
\<close>

theorem kprintf_prints:
  assumes "format 0 fs fargs = Some out" and "cstr str s fs" and "list_all2 arg_ok args fargs"
  shows "kprintf str s args = Inr (int (min 254 (length out)) + 1, takeWhile (\<lambda>c. c \<noteq> 0) (take 254 out))"
  by (rule kprintf_format [OF assms])

theorem kprintf_prints_witness:
  "kprintf (cstr_obj demo_format) 0 [VInt 15, VInt (- 15), VInt (- 15)] = Inr (23, demo_output)"
proof -
  have "cstr (cstr_obj demo_format) 0 demo_format" by (rule cstr_obj_cstr) (simp_all add: demo_format_def)
  from kprintf_prints [OF demo_format_output this, of "[VInt 15, VInt (- 15), VInt (- 15)]"]
  show ?thesis by (simp add: demo_output_def)
qed

lemma trailing_percent_loop:
  "cstr str s (fs @ [percent]) \<Longrightarrow> obj_len str = s + length fs + 2 \<Longrightarrow> percent \<notin> set fs \<Longrightarrow>
   int (length fs) < m \<Longrightarrow> has_room buf (off + length fs) \<Longrightarrow> vsnprintf_loop str s buf off m nw pc args = Inl OutOfBounds"
proof (induction fs arbitrary: s buf off m nw)
  case Nil
  have rd: "rd8 str s = Inr percent" "rd8 str (Suc s) = Inr 0"
    using cstr_hd [OF Nil(1)] cstr_tail [of str s percent "[]"] cstr_hd [of str "Suc s" "[]"] Nil(1) by auto
  have "rd8 str (Suc (Suc s)) = Inl OutOfBounds"
    using Nil(1,2) by (auto simp: cstr_def kread_def obj_len_def in_object_def split: option.splits)
  then have "vsnprintf_loop str (Suc (Suc s)) buf off m nw pc args = Inl OutOfBounds"
    by (subst vsnprintf_loop.simps) simp
  then show ?case using rd Nil(4) by (subst vsnprintf_loop.simps) (simp add: convert_def)
next
  case (Cons x xs)
  have rd: "rd8 str s = Inr x" "x \<noteq> 0" "cstr str (Suc s) (xs @ [percent])"
    using cstr_hd [OF Cons.prems(1)] Cons.prems(1) cstr_Cons_nonzero cstr_tail by auto
  have w: "wr8 buf off x = Inr (store buf off [x])"
    by (rule wr8_store, rule has_room_le [OF Cons.prems(5)]) simp
  have "vsnprintf_loop str (Suc s) (store buf off [x]) (Suc off) (m - 1) (nw + 1) pc args = Inl OutOfBounds"
    using Cons.prems rd by (intro Cons.IH) auto
  then show ?case using rd w Cons.prems(3,4) by (subst vsnprintf_loop.simps) simp
qed

text \<open>
  \<^bold>\<open>A percent sign at the end.\<close> A format that ends in a single \<open>%\<close> makes the formatter step over its terminator: the
  conversion character is the zero, which no case treats, and the next character read is past the end of the string.
\<close>

theorem trailing_percent_overruns:
  assumes "0 \<notin> set fs" and "percent \<notin> set fs" and "int (length fs) + 1 < n" and "n < 0x80000000" and "has_room buf (off + length fs)"
  shows "os_vsnprintf buf off n (cstr_obj (fs @ [percent])) 0 args = Inl OutOfBounds"
proof -
  have len: "length fs + 2 < 4294967296" using assms(3,4) by linarith
  have "cstr (cstr_obj (fs @ [percent])) 0 (fs @ [percent])" using assms(1) len by (intro cstr_obj_cstr) auto
  moreover have "obj_len (cstr_obj (fs @ [percent])) = 0 + length fs + 2"
    using len unat_of_nat_u32 [OF len] by (simp add: obj_len_def cstr_obj_def kobj_of_def)
  ultimately show ?thesis using trailing_percent_loop [of _ 0 fs "n - 1" buf off] assms by (simp add: os_vsnprintf_def)
qed

theorem trailing_percent_overruns_witness:
  "os_vsnprintf (Some \<lparr>osize = 64, cells = (\<lambda>_. None)\<rparr>) 0 64 (cstr_obj ([0x31, 0x30, 0x30] @ [percent])) 0 [] = Inl OutOfBounds"
  by (rule trailing_percent_overruns) (simp_all add: has_room_def)

end
