(* ===== verification/Klibc_Misc.thy ===== *)
theory Klibc_Misc
  imports Klibc_Printf
begin

section \<open>The rest of \<open>klibc/klibc.c\<close>: searching, numbers, random numbers\<close>

text \<open>
  \<open>__strchrnul\<close> reads a string a word at a time, also past its end, so its model is on the flat memory of
  the machine: a byte for each address. The number parsers take a pointer into an object as in \<open>Klibc_String\<close>.
  \<open>katof\<close> computes in floating point and is not modelled.
\<close>

subsection \<open>\<open>__strchrnul\<close>\<close>

text \<open>\<open>WORD_ALIGN\<close> is the macro \<open>ALIGN\<close> of this file; \<open>vm/include/vm2.h\<close> has another of that name, in \<open>Mem_Alloc\<close>.\<close>

definition WORD_ALIGN :: u32 where "WORD_ALIGN = 4"
definition UCHAR_MAX :: u32 where "UCHAR_MAX = 0xFF"
definition ONES :: u32 where "ONES = (- 1) div UCHAR_MAX"
definition HIGHS :: u32 where "HIGHS = ONES * (UCHAR_MAX div 2 + 1)"

definition HASZERO :: "u32 \<Rightarrow> bool" where
  "HASZERO x \<longleftrightarrow> (x - ONES) AND (NOT x) AND HIGHS \<noteq> 0"

text \<open>A little endian word of the memory.\<close>

definition word_of_bytes :: "u8 \<Rightarrow> u8 \<Rightarrow> u8 \<Rightarrow> u8 \<Rightarrow> u32" where
  "word_of_bytes b0 b1 b2 b3 = ucast b0 OR push_bit 8 (ucast b1) OR push_bit 16 (ucast b2) OR push_bit 24 (ucast b3)"

definition load_word :: "(ptr \<Rightarrow> u8) \<Rightarrow> ptr \<Rightarrow> u32" where
  "load_word m a = word_of_bytes (m a) (m (a + 1)) (m (a + 2)) (m (a + 3))"

text \<open>
  A loop \<open>for (; !stop(s); s += step)\<close> over memory that does not change. After \<open>2 ^ 32\<close> rounds it is back at an
  address it has been at, so that many rounds decide whether it ends.
\<close>

primrec advance_until :: "nat \<Rightarrow> (ptr \<Rightarrow> bool) \<Rightarrow> u32 \<Rightarrow> ptr \<Rightarrow> fault + ptr" where
  "advance_until 0 stop step s = Inl Diverges"
| "advance_until (Suc n) stop step s = (if stop s then Inr s else advance_until n stop step (s + step))"

definition all_addresses :: nat where "all_addresses = 2 ^ 32"

definition strchrnul :: "(ptr \<Rightarrow> u8) \<Rightarrow> ptr \<Rightarrow> u8 \<Rightarrow> fault + ptr" where
  "strchrnul m s c =
     (if c = 0 then advance_until all_addresses (\<lambda>s. m s = 0) 1 s
      else
        bindE (advance_until all_addresses (\<lambda>s. s mod WORD_ALIGN = 0 \<or> m s = 0 \<or> m s = c) 1 s) (\<lambda>s.
        if s mod WORD_ALIGN \<noteq> 0 then Inr s
        else
          let k = ONES * ucast c in
          bindE (advance_until all_addresses
              (\<lambda>w. HASZERO (load_word m w) \<or> HASZERO (load_word m w XOR k)) WORD_ALIGN s) (\<lambda>w.
          advance_until all_addresses (\<lambda>s. m s = 0 \<or> m s = c) 1 w)))"

text \<open>The constants are the musl ones.\<close>

lemma ONES_value: "ONES = 0x01010101"
  by (simp add: ONES_def UCHAR_MAX_def)

lemma HIGHS_value: "HIGHS = 0x80808080"
  by (simp add: HIGHS_def ONES_value UCHAR_MAX_def)

subsection \<open>The test for a zero byte\<close>

lemma word_of_bytes_sum:
  "word_of_bytes b0 b1 b2 b3 = ucast b0 + 256 * ucast b1 + 65536 * ucast b2 + 16777216 * ucast b3"
proof -
  let ?p1 = "push_bit 8 (ucast b1) :: u32" and ?p2 = "push_bit 16 (ucast b2) :: u32" and ?p3 = "push_bit 24 (ucast b3) :: u32"
  have p: "?p1 = 256 * ucast b1" "?p2 = 65536 * ucast b2" "?p3 = 16777216 * ucast b3"
    by (simp_all add: push_bit_eq_mult mult.commute)
  have b: "\<not> bit (ucast b :: u32) n" if "8 \<le> n" for b :: u8 and n
    using that bit_imp_le_length [of b n] by (auto simp: bit_simps)
  have "?p2 + ?p3 = ?p2 OR ?p3"
    by (rule disjunctive_add) (use b in \<open>auto simp: bit_push_bit_iff\<close>)
  moreover have "?p1 + (?p2 OR ?p3) = ?p1 OR ?p2 OR ?p3"
    by (rule disjunctive_add) (use b in \<open>auto simp: bit_push_bit_iff bit_or_iff\<close>)
  moreover have "ucast b0 + (?p1 OR ?p2 OR ?p3) = ucast b0 OR ?p1 OR ?p2 OR ?p3"
    by (rule disjunctive_add) (use b in \<open>auto simp: bit_push_bit_iff bit_or_iff not_le\<close>)
  ultimately show ?thesis by (simp add: word_of_bytes_def p add.assoc)
qed

lemma unat_word_of_bytes:
  "unat (word_of_bytes b0 b1 b2 b3) = unat b0 + 256 * unat b1 + 65536 * unat b2 + 16777216 * unat b3"
proof -
  have "word_of_bytes b0 b1 b2 b3 = of_nat (unat b0 + 256 * unat b1 + 65536 * unat b2 + 16777216 * unat b3)"
    by (simp add: word_of_bytes_sum)
  moreover have "unat b0 + 256 * unat b1 + 65536 * unat b2 + 16777216 * unat b3 < 4294967296"
    using u8_unat_lt [of b0] u8_unat_lt [of b1] u8_unat_lt [of b2] u8_unat_lt [of b3] by linarith
  ultimately show ?thesis by (metis unat_of_nat_u32)
qed

text \<open>Bit 7 of each byte of the three words \<open>HASZERO\<close> looks at.\<close>

lemma bit_HIGHS: "bit HIGHS n \<longleftrightarrow> n \<in> {7, 15, 23, 31}"
proof (cases "n < 32")
  case True
  then have "n \<in> set [0..<32]" by simp
  then show ?thesis unfolding HIGHS_value upt_conv_Cons_Cons
    by (simp add: upt_rec) (elim disjE; simp add: bit_numeral_rec)
qed (simp add: HIGHS_value bit_simps)

lemma HASZERO_bits:
  "HASZERO x \<longleftrightarrow> (\<exists>n \<in> {7, 15, 23, 31}. bit (x - ONES) n \<and> \<not> bit x n)"
proof -
  have "HASZERO x \<longleftrightarrow> (\<exists>n. bit ((x - ONES) AND (NOT x) AND HIGHS) n)"
    unfolding HASZERO_def by (metis bit_eqI bit_0_eq bot_apply bot_bool_def)
  also have "\<dots> \<longleftrightarrow> (\<exists>n \<in> {7, 15, 23, 31}. bit (x - ONES) n \<and> \<not> bit x n)"
    by (auto simp: bit_and_iff bit_not_iff bit_HIGHS)
  finally show ?thesis .
qed

lemma bit_unat_div: "bit (x :: u32) n \<longleftrightarrow> odd (unat x div 2 ^ n)"
proof -
  have "bit (unat x) n \<longleftrightarrow> bit x n" using bit_imp_le_length [of x n] by (auto simp: bit_simps)
  then show ?thesis by (simp add: bit_iff_odd)
qed

lemma minus_ONES: "\<exists>k. unat (x - ONES) + 16843009 = unat x + 4294967296 * k"
proof (cases "ONES \<le> x")
  case True
  then have "unat (x - ONES) = unat x - 16843009" "16843009 \<le> unat x"
    by (simp_all add: unat_sub_no_wrap u32_le_unat ONES_value)
  then show ?thesis by (intro exI [of _ 0]) simp
next
  case False
  then have "unat x < 16843009" by (simp add: u32_le_unat ONES_value)
  then have "unat (x - ONES) = unat x + 4294967296 - 16843009"
    by (simp add: ONES_value unat_sub_if')
  then show ?thesis by (intro exI [of _ 1]) simp
qed

lemma odd_div: "(y :: nat) = r + d * (2 * q + 1) \<Longrightarrow> r < d \<Longrightarrow> odd (y div d)"
  by (simp only: div_mult_self2 mult.commute div_less) simp

lemma even_div: "(y :: nat) = r + d * (2 * q) \<Longrightarrow> r < d \<Longrightarrow> even (y div d)"
  by simp

lemma HASZERO_complete:
  assumes "b0 = 0 \<or> b1 = 0 \<or> b2 = 0 \<or> b3 = 0"
  shows "HASZERO (word_of_bytes b0 b1 b2 b3)"
proof -
  let ?x = "word_of_bytes b0 b1 b2 b3"
  obtain k where k: "unat (?x - ONES) + 16843009 = unat ?x + 4294967296 * k" using minus_ONES by blast
  define y where "y = unat (?x - ONES)"
  define n0 n1 n2 n3 where n: "n0 = unat b0" "n1 = unat b1" "n2 = unat b2" "n3 = unat b3"
  have x: "unat ?x = n0 + 256 * n1 + 65536 * n2 + 16777216 * n3" by (simp add: unat_word_of_bytes n)
  have y: "y + 16843009 = n0 + 256 * n1 + 65536 * n2 + 16777216 * n3 + 4294967296 * k" using k by (simp add: y_def x)
  have lt: "n0 < 256" "n1 < 256" "n2 < 256" "n3 < 256" using u8_unat_lt by (simp_all add: n)
  have "n0 = 0 \<or> n1 = 0 \<or> n2 = 0 \<or> n3 = 0" using assms by (auto simp: n unat_eq_0)
  then consider "n0 = 0" | "n0 > 0" "n1 = 0" | "n0 > 0" "n1 > 0" "n2 = 0" | "n0 > 0" "n1 > 0" "n2 > 0" "n3 = 0" by blast
  then show ?thesis
  proof cases
    case 1
    define H where "H = n1 + 256 * n2 + 65536 * n3 + 16777216 * k"
    have "65794 \<le> H" using y 1 lt unfolding H_def by linarith
    then obtain q where "H = q + 65794" by (metis add.commute le_Suc_ex)
    then have "y = 127 + 128 * (2 * q + 1)" using y 1 unfolding H_def by simp
    then have "odd (y div 128)" by (rule odd_div) (use lt in linarith)
    moreover have "unat ?x = 0 + 128 * (2 * (n1 + 256 * n2 + 65536 * n3))" using x 1 by (simp add: algebra_simps)
    then have "even (unat ?x div 128)" by (rule even_div) (use lt in linarith)
    ultimately show ?thesis unfolding HASZERO_bits by (intro bexI [of _ 7]) (simp_all add: bit_unat_div y_def)
  next
    case 2
    define H where "H = n2 + 256 * n3 + 65536 * k"
    have "258 \<le> H" using y 2 lt unfolding H_def by linarith
    then obtain q where "H = q + 258" by (metis add.commute le_Suc_ex)
    then have "y = (n0 + 32511) + 32768 * (2 * q + 1)" using y 2 unfolding H_def by simp
    then have "odd (y div 32768)" by (rule odd_div) (use lt in linarith)
    moreover have "unat ?x = n0 + 32768 * (2 * (n2 + 256 * n3))" using x 2 by (simp add: algebra_simps)
    then have "even (unat ?x div 32768)" by (rule even_div) (use lt in linarith)
    ultimately show ?thesis unfolding HASZERO_bits by (intro bexI [of _ 15]) (simp_all add: bit_unat_div y_def)
  next
    case 3
    define H where "H = n3 + 256 * k"
    have "2 \<le> H" using y 3 lt unfolding H_def by linarith
    then obtain q where "H = q + 2" by (metis add.commute le_Suc_ex)
    then have "y = ((n0 + 256 * n1) + 8322815) + 8388608 * (2 * q + 1)" using y 3 unfolding H_def by simp
    then have "odd (y div 8388608)" by (rule odd_div) (use lt in linarith)
    moreover have "unat ?x = (n0 + 256 * n1) + 8388608 * (2 * (n3))" using x 3 by (simp add: algebra_simps)
    then have "even (unat ?x div 8388608)" by (rule even_div) (use lt in linarith)
    ultimately show ?thesis unfolding HASZERO_bits by (intro bexI [of _ 23]) (simp_all add: bit_unat_div y_def)
  next
    case 4
    define H where "H = k"
    have "1 \<le> H" using y 4 lt unfolding H_def by linarith
    then obtain q where "H = q + 1" by (metis add.commute le_Suc_ex)
    then have "y = ((n0 + 256 * n1 + 65536 * n2) + 2130640639) + 2147483648 * (2 * q + 1)" using y 4 unfolding H_def by simp
    then have "odd (y div 2147483648)" by (rule odd_div) (use lt in linarith)
    moreover have "unat ?x = (n0 + 256 * n1 + 65536 * n2) + 2147483648 * (2 * (0))" using x 4 by (simp add: algebra_simps)
    then have "even (unat ?x div 2147483648)" by (rule even_div) (use lt in linarith)
    ultimately show ?thesis unfolding HASZERO_bits by (intro bexI [of _ 31]) (simp_all add: bit_unat_div y_def)
  qed
qed

lemma ONES_times: "ONES * ucast c = word_of_bytes c c c c"
  by (simp add: word_of_bytes_sum ONES_value algebra_simps)

lemma word_of_bytes_xor:
  "word_of_bytes b0 b1 b2 b3 XOR word_of_bytes c0 c1 c2 c3 =
   word_of_bytes (b0 XOR c0) (b1 XOR c1) (b2 XOR c2) (b3 XOR c3)"
proof (rule bit_word_eqI)
  fix n assume n: "n < LENGTH(32)"
  have b: "\<not> bit (b :: u8) n" if "8 \<le> n" for b n
    using that bit_imp_le_length [of b n] by auto
  show "bit (word_of_bytes b0 b1 b2 b3 XOR word_of_bytes c0 c1 c2 c3) n =
    bit (word_of_bytes (b0 XOR c0) (b1 XOR c1) (b2 XOR c2) (b3 XOR c3)) n"
    using n b by (auto simp: word_of_bytes_def bit_simps)
qed

lemma HASZERO_sound:
  assumes "b0 \<noteq> 0" "b1 \<noteq> 0" "b2 \<noteq> 0" "b3 \<noteq> 0"
  shows "\<not> HASZERO (word_of_bytes b0 b1 b2 b3)"
proof -
  have u: "ucast (b - 1) = (ucast b - 1 :: u32)" if "b \<noteq> 0" for b :: u8
  proof -
    have "1 \<le> unat b" using that by (simp add: Suc_le_eq unat_gt_0)
    then have "unat (b - 1) = unat b - 1" using unat_sub_no_wrap [of 1 b] by (simp add: word_le_nat_alt)
    then show ?thesis using \<open>1 \<le> unat b\<close> by (metis of_nat_1 of_nat_diff of_nat_unat)
  qed
  have diff: "word_of_bytes b0 b1 b2 b3 - ONES = word_of_bytes (b0 - 1) (b1 - 1) (b2 - 1) (b3 - 1)"
    using assms by (simp add: word_of_bytes_sum u ONES_value algebra_simps)
  have hi: "\<not> bit (c :: u8) n" if "8 \<le> n" for c n using that bit_imp_le_length [of c n] by auto
  have top: "bit (word_of_bytes c0 c1 c2 c3) 7 = bit c0 7" "bit (word_of_bytes c0 c1 c2 c3) 15 = bit c1 7"
    "bit (word_of_bytes c0 c1 c2 c3) 23 = bit c2 7" "bit (word_of_bytes c0 c1 c2 c3) 31 = bit c3 7" for c0 c1 c2 c3 :: u8
    by (simp_all add: word_of_bytes_def bit_simps hi)
  have "bit b 7" if "bit (b - 1) 7" "b \<noteq> 0" for b :: u8
  proof -
    have b: "bit (a :: u8) 7 \<longleftrightarrow> 128 \<le> a" for a
    proof -
      have "bit a 7 \<longleftrightarrow> bit (unat a) 7" by (simp add: bit_simps)
      also have "\<dots> \<longleftrightarrow> odd (unat a div 128)" by (simp add: bit_iff_odd)
      also have "unat a div 128 = (if 128 \<le> unat a then 1 else 0)"
        using u8_unat_lt [of a] by (auto intro: div_nat_eqI)
      also have "odd \<dots> \<longleftrightarrow> 128 \<le> unat a" by simp
      finally show ?thesis by (simp add: word_le_nat_alt)
    qed
    have "unat (b - 1) = unat b - 1"
      using that(2) unat_sub_no_wrap [of 1 b] by (simp add: word_le_nat_alt Suc_le_eq unat_gt_0)
    then show ?thesis using that(1) unfolding b by (simp add: word_le_nat_alt)
  qed
  then show ?thesis using assms by (auto simp: HASZERO_bits diff top)
qed

lemma HASZERO_iff: "HASZERO (word_of_bytes b0 b1 b2 b3) \<longleftrightarrow> b0 = 0 \<or> b1 = 0 \<or> b2 = 0 \<or> b3 = 0"
  using HASZERO_complete HASZERO_sound by blast

lemma xor_zero_iff: "b XOR c = 0 \<longleftrightarrow> b = (c :: u8)"
  by (metis xor.assoc xor.right_neutral xor_self_eq)

lemma HASZERO_load: "HASZERO (load_word m w) \<longleftrightarrow> 0 \<in> {m w, m (w + 1), m (w + 2), m (w + 3)}"
  by (auto simp: load_word_def HASZERO_iff)

lemma HASZERO_load_xor:
  "HASZERO (load_word m w XOR ONES * ucast c) \<longleftrightarrow> c \<in> {m w, m (w + 1), m (w + 2), m (w + 3)}"
  by (auto simp: load_word_def ONES_times word_of_bytes_xor HASZERO_iff xor_zero_iff)

subsection \<open>The search\<close>

lemma advance_until_first:
  "n < N \<Longrightarrow> stop (s + of_nat n * step) \<Longrightarrow> (\<And>i. i < n \<Longrightarrow> \<not> stop (s + of_nat i * step)) \<Longrightarrow>
   advance_until N stop step s = Inr (s + of_nat n * step)"
proof (induction N arbitrary: s n)
  case (Suc N)
  show ?case
  proof (cases n)
    case 0
    then show ?thesis using Suc.prems by simp
  next
    case (Suc k)
    have "\<not> stop (s + step + of_nat i * step)" if "i < k" for i
      using Suc.prems(3) [of "Suc i"] that \<open>n = Suc k\<close> by (simp add: algebra_simps)
    then have "advance_until N stop step (s + step) = Inr (s + step + of_nat k * step)"
      using Suc.prems \<open>n = Suc k\<close> by (intro Suc.IH) (auto simp: algebra_simps)
    then show ?thesis using Suc.prems(3) [of 0] Suc by (simp add: algebra_simps)
  qed
qed simp

lemma advance_until_never: "(\<And>a. \<not> stop a) \<Longrightarrow> advance_until N stop step s = Inl Diverges"
  by (induction N arbitrary: s) auto

lemma address_reached: "\<exists>n < all_addresses. a = s + of_nat n * (1 :: u32)"
  by (intro exI [of _ "unat (a - s)"]) (use unsigned_less [of "a - s"] in \<open>simp add: all_addresses_def\<close>)

text \<open>The first byte that stops the search, and how far it is.\<close>

lemma first_stop:
  assumes "stop (a :: u32)"
  obtains n where "n < all_addresses" "stop (s + of_nat n)" "\<And>i. i < n \<Longrightarrow> \<not> stop (s + of_nat i)"
proof -
  obtain n where "n < all_addresses" "a = s + of_nat n" using address_reached [of a s] by auto
  with assms have "\<exists>n. n < all_addresses \<and> stop (s + of_nat n)" by blast
  then obtain k where "k < all_addresses \<and> stop (s + of_nat k)" "\<And>i. i < k \<Longrightarrow> \<not> (i < all_addresses \<and> stop (s + of_nat i))"
    using exists_least_iff [of "\<lambda>n. n < all_addresses \<and> stop (s + of_nat n)"] by blast
  then show ?thesis by (intro that [of k]) auto
qed

text \<open>The three loops from an address on, when the first byte that stops the search is \<open>n\<close> bytes away.\<close>

lemma ex_less_4: "(\<exists>j < (4 :: nat). P j) \<longleftrightarrow> P 0 \<or> P 1 \<or> P 2 \<or> P 3"
  by (auto simp: numeral_eq_Suc less_Suc_eq)

lemma word_scan_finds:
  assumes n: "n < all_addresses" "m (s + of_nat n) \<in> {0, c}" and before: "\<And>i. i < n \<Longrightarrow> m (s + of_nat i) \<notin> {0, c}"
  shows "bindE (advance_until all_addresses
      (\<lambda>w. HASZERO (load_word m w) \<or> HASZERO (load_word m w XOR ONES * ucast c)) WORD_ALIGN s) (\<lambda>w.
    advance_until all_addresses (\<lambda>s. m s = 0 \<or> m s = c) 1 w) = Inr (s + of_nat n)"
proof -
  let ?stop = "\<lambda>w. HASZERO (load_word m w) \<or> HASZERO (load_word m w XOR ONES * ucast c)"
  have word: "?stop w \<longleftrightarrow> (\<exists>j < 4. m (w + of_nat j) \<in> {0, c})" for w
    unfolding ex_less_4 HASZERO_load HASZERO_load_xor by auto
  let ?P = "\<lambda>q. ?stop (s + of_nat q * WORD_ALIGN)"
  have "?P (n div 4)"
    unfolding word
  proof (intro exI conjI)
    have "of_nat n = of_nat (n div 4) * 4 + (of_nat (n mod 4) :: u32)"
      by (metis div_mult_mod_eq of_nat_add of_nat_mult of_nat_numeral)
    then show "m (s + of_nat (n div 4) * WORD_ALIGN + of_nat (n mod 4)) \<in> {0, c}"
      using n(2) by (simp only: WORD_ALIGN_def add.assoc)
  qed simp
  then obtain q where q: "?P q" "\<And>i. i < q \<Longrightarrow> \<not> ?P i" and le: "q \<le> n div 4"
    using exists_least_iff [of ?P] by (metis not_le)
  from q le n(1) have w: "advance_until all_addresses ?stop WORD_ALIGN s = Inr (s + of_nat q * WORD_ALIGN)"
    by (intro advance_until_first) (auto simp del: HASZERO_load)
  define k where "k = n - 4 * q"
  have k: "n = 4 * q + k" using le by (simp add: k_def)
  have "advance_until all_addresses (\<lambda>s. m s = 0 \<or> m s = c) 1 (s + of_nat q * WORD_ALIGN) = Inr (s + of_nat q * WORD_ALIGN + of_nat k * 1)"
    using n before [of "4 * q + i" for i] by (intro advance_until_first) (auto simp: k WORD_ALIGN_def algebra_simps)
  then show ?thesis unfolding w bindE.simps by (simp add: k WORD_ALIGN_def algebra_simps)
qed

lemma strchrnul_finds:
  assumes c: "c \<noteq> 0" and n: "n < all_addresses" "m (s + of_nat n) \<in> {0, c}" and before: "\<And>i. i < n \<Longrightarrow> m (s + of_nat i) \<notin> {0, c}"
  shows "strchrnul m s c = Inr (s + of_nat n)"
proof -
  let ?stop = "\<lambda>s. s mod WORD_ALIGN = 0 \<or> m s = 0 \<or> m s = c"
  have "?stop (s + of_nat n)" using n by auto
  then obtain j where j: "?stop (s + of_nat j)" "\<And>i. i < j \<Longrightarrow> \<not> ?stop (s + of_nat i)" and le: "j \<le> n"
    using exists_least_iff [of "\<lambda>i. ?stop (s + of_nat i)"] by (metis not_le)
  have a: "advance_until all_addresses ?stop 1 s = Inr (s + of_nat j)"
    using advance_until_first [of j all_addresses ?stop s 1] j le n(1) by simp
  show ?thesis
  proof (cases "(s + of_nat j) mod WORD_ALIGN = 0")
    case True
    have n': "n = j + (n - j)" using le by simp
    have "bindE (advance_until all_addresses
        (\<lambda>w. HASZERO (load_word m w) \<or> HASZERO (load_word m w XOR ONES * ucast c)) WORD_ALIGN (s + of_nat j)) (\<lambda>w.
      advance_until all_addresses (\<lambda>s. m s = 0 \<or> m s = c) 1 w) = Inr (s + of_nat j + of_nat (n - j))"
      using n before [of "j + i" for i] le by (intro word_scan_finds) (auto simp: add.assoc of_nat_diff)
    then show ?thesis using a c True le by (simp add: strchrnul_def Let_def of_nat_diff)
  next
    case False
    then have "m (s + of_nat j) \<in> {0, c}" using j(1) by auto
    then have "j = n" using before [of j] le by (cases "j = n") auto
    then show ?thesis using a c False by (simp add: strchrnul_def)
  qed
qed

lemma strchrnul_bytes:
  "strchrnul m s c = advance_until all_addresses (\<lambda>s. m s = 0 \<or> m s = c) 1 s"
proof (cases "c = 0 \<or> (\<forall>a. m a \<notin> {0, c})")
  case True
  then show ?thesis
  proof
    assume none: "\<forall>a. m a \<notin> {0, c}"
    have "\<not> (HASZERO (load_word m w) \<or> HASZERO (load_word m w XOR ONES * ucast c))" for w
      using none unfolding HASZERO_load HASZERO_load_xor by auto
    note never = advance_until_never [of "\<lambda>w. HASZERO (load_word m w) \<or> HASZERO (load_word m w XOR ONES * ucast c)", OF this]
      advance_until_never [of "\<lambda>s. m s = 0 \<or> m s = c"] advance_until_never [of "\<lambda>s. m s = 0"]
    obtain n where n: "n < all_addresses" "(s + of_nat n) mod WORD_ALIGN = 0" "\<And>i. i < n \<Longrightarrow> (s + of_nat i) mod WORD_ALIGN \<noteq> 0"
      by (rule first_stop [of "\<lambda>s. s mod WORD_ALIGN = 0" 0 s]) (simp_all add: WORD_ALIGN_def)
    then have "advance_until all_addresses (\<lambda>s. s mod WORD_ALIGN = 0 \<or> m s = 0 \<or> m s = c) 1 s = Inr (s + of_nat n)"
      using none advance_until_first [of n all_addresses "\<lambda>s. s mod WORD_ALIGN = 0 \<or> m s = 0 \<or> m s = c" s 1] by simp
    with n(2) have n: "advance_until all_addresses (\<lambda>s. s mod WORD_ALIGN = 0 \<or> m s = 0 \<or> m s = c) 1 s = Inr (s + of_nat n)"
      "(s + of_nat n) mod WORD_ALIGN = 0" by simp_all
    show ?thesis using none n by (simp add: strchrnul_def Let_def never advance_until_never [of "\<lambda>_. False"])
  qed (simp add: strchrnul_def)
next
  case False
  then obtain a where "m a \<in> {0, c}" and c: "c \<noteq> 0" by blast
  from first_stop [of "\<lambda>a. m a \<in> {0, c}" a s, OF this(1)] obtain n where
    n: "n < all_addresses" "m (s + of_nat n) \<in> {0, c}" "\<And>i. i < n \<Longrightarrow> m (s + of_nat i) \<notin> {0, c}" by blast
  have "advance_until all_addresses (\<lambda>s. m s = 0 \<or> m s = c) 1 s = Inr (s + of_nat n)"
    using advance_until_first [of n all_addresses "\<lambda>s. m s = 0 \<or> m s = c" s 1] n by auto
  moreover have "strchrnul m s c = Inr (s + of_nat n)" by (rule strchrnul_finds) (fact c, fact n(1), fact n(2), fact n(3))
  ultimately show ?thesis by simp
qed

text \<open>
  (C35) \<^bold>\<open>Search by words.\<close> \<open>__strchrnul\<close>, which looks at aligned words and decides by \<open>HASZERO\<close> whether one of their bytes
  is the character or the terminator, computes the same as the search byte by byte: it returns the first address at
  which the character or a zero is, on every memory, and ends unless there is none.
\<close>

theorem strchrnul_equiv:
  "strchrnul m s c = advance_until all_addresses (\<lambda>s. m s = 0 \<or> m s = c) 1 s \<and>
   (\<forall>n < all_addresses. m (s + of_nat n) \<in> {0, c} \<longrightarrow> (\<forall>i < n. m (s + of_nat i) \<notin> {0, c}) \<longrightarrow>
      strchrnul m s c = Inr (s + of_nat n))"
  unfolding strchrnul_bytes using advance_until_first [of _ all_addresses "\<lambda>s. m s = 0 \<or> m s = c" s 1] by auto

text \<open>The string \<open>AB=C\<close> at an odd address.\<close>

definition demo_memory :: "ptr \<Rightarrow> u8" where
  "demo_memory a = (if a = 0x1001 then 0x41 else if a = 0x1002 then 0x42 else if a = 0x1003 then 0x3D
     else if a = 0x1004 then 0x43 else 0)"

lemma less_3: "i < (3 :: nat) \<Longrightarrow> i = 0 \<or> i = 1 \<or> i = 2"
  by arith

lemma less_4: "i < (4 :: nat) \<Longrightarrow> i = 0 \<or> i = 1 \<or> i = 2 \<or> i = 3"
  by arith

theorem strchrnul_equiv_witness:
  "strchrnul demo_memory 0x1001 0x43 = Inr 0x1004 \<and> strchrnul demo_memory 0x1001 0x5A = Inr 0x1005"
proof
  have "strchrnul demo_memory 0x1001 0x43 = Inr (0x1001 + of_nat 3)"
    by (rule strchrnul_equiv [THEN conjunct2, rule_format])
       (auto simp: all_addresses_def demo_memory_def dest!: less_3)
  then show "strchrnul demo_memory 0x1001 0x43 = Inr 0x1004" by simp
  have "strchrnul demo_memory 0x1001 0x5A = Inr (0x1001 + of_nat 4)"
    by (rule strchrnul_equiv [THEN conjunct2, rule_format])
       (auto simp: all_addresses_def demo_memory_def dest!: less_4)
  then show "strchrnul demo_memory 0x1001 0x5A = Inr 0x1005" by simp
qed

subsection \<open>Numbers\<close>

text \<open>
  \<open>katoi\<close>: the loop has no step to the next character, so it may not end; \<open>None\<close> is not returning. \<open>int\<close> arithmetic
  wraps.
\<close>

partial_function (option) katoi_loop :: "u8 kptr \<Rightarrow> nat \<Rightarrow> u32 \<Rightarrow> u32 \<Rightarrow> (fault + u32) option" where
  "katoi_loop string off sign integer =
     (case rd8 string off of
        Inl e \<Rightarrow> Some (Inl e)
      | Inr c \<Rightarrow>
          if c = 0 then Some (Inr (sign * integer))
          else if digit_0 \<le> c \<and> c \<le> digit_9
          then katoi_loop string off sign (integer * 10 + ucast (c - digit_0))
          else Some (Inr 0))"

text \<open>The sign in front of a number: its value and the offset after it.\<close>

definition read_sign :: "u8 \<Rightarrow> nat \<Rightarrow> u32 \<times> nat" where
  "read_sign c off = (if c = minus_sign then (- 1, off + 1) else if c = 0x2B then (1, off + 1) else (1, off))"

definition katoi :: "u8 kptr \<Rightarrow> nat \<Rightarrow> (fault + u32) option" where
  "katoi string off =
     (if string = None then Some (Inr 0)
      else
        case rd8 string off of
          Inl e \<Rightarrow> Some (Inl e)
        | Inr c \<Rightarrow> (case read_sign c off of (sign, off) \<Rightarrow> katoi_loop string off sign 0))"

definition katol :: "u8 kptr \<Rightarrow> nat \<Rightarrow> (fault + u32) option" where
  "katol string off = katoi string off"

text \<open>\<open>kstrtol\<close>; the second result is what \<open>*endptr\<close> is set to, if it is.\<close>

function kstrtol_loop :: "u8 kptr \<Rightarrow> nat \<Rightarrow> u32 \<Rightarrow> fault + (u32 \<times> nat)" where
  "kstrtol_loop string off integer =
     bindE (rd8 string off) (\<lambda>c.
     if digit_0 \<le> c \<and> c \<le> digit_9
     then kstrtol_loop string (Suc off) (integer * 10 + ucast (c - digit_0))
     else Inr (integer, off))"
  by pat_completeness auto
termination
  by (relation "measure (\<lambda>(string, off, integer). obj_len string - off)") (auto dest!: kread_bound)

declare kstrtol_loop.simps [simp del]

definition kstrtol :: "u8 kptr \<Rightarrow> nat \<Rightarrow> fault + (u32 \<times> nat option)" where
  "kstrtol string off =
     (if string = None then Inr (0, None)
      else
        bindE (rd8 string off) (\<lambda>c.
        case read_sign c off of (sign, off) \<Rightarrow>
        bindE (kstrtol_loop string off 0) (\<lambda>(integer, off).
        Inr (sign * integer, Some off))))"

lemma katoi_loop_stuck:
  assumes "rd8 string off = Inr c" and "digit_0 \<le> c" and "c \<le> digit_9"
  shows "katoi_loop string off sign integer = None"
proof -
  have "c \<noteq> 0" using assms(2) by auto
  have "string = p \<and> off = i \<longrightarrow> False" if "katoi_loop p i s n = Some r" for p i s n r
    using that
  proof (induction rule: katoi_loop.raw_induct)
    case (1 f p i s n r)
    show ?case
    proof
      assume here: "string = p \<and> off = i"
      have "katoi_loop p i s n = katoi_loop p i s (n * 10 + ucast (c - digit_0))"
        using here assms \<open>c \<noteq> 0\<close> by (subst katoi_loop.simps) simp
      then have "katoi_loop p i s (n * 10 + ucast (c - digit_0)) = Some r" using 1 by simp
      moreover have "f p i s (n * 10 + ucast (c - digit_0)) = Some r" using 1 here assms \<open>c \<noteq> 0\<close> by auto
      ultimately show False using 1(1) here by blast
    qed
  qed (fact that)
  then show ?thesis by (cases "katoi_loop string off sign integer") blast+
qed

text \<open>
  (C38) \<^bold>\<open>katoi never converts a number.\<close> Whatever the string, \<open>katoi\<close> does not return if a digit follows the optional sign, and
  returns 0 (or faults reading) otherwise: its loop does not advance.
\<close>

theorem katoi_never_converts:
  "katoi string off =
     (if string = None then Some (Inr 0)
      else
        case bindE (rd8 string off) (\<lambda>c. rd8 string (snd (read_sign c off))) of
          Inl e \<Rightarrow> Some (Inl e)
        | Inr d \<Rightarrow> if digit_0 \<le> d \<and> d \<le> digit_9 then None else Some (Inr 0))"
proof (cases "rd8 string off")
  case (Inr c)
  obtain sign i where s: "read_sign c off = (sign, i)" by fastforce
  show ?thesis
  proof (cases "rd8 string i")
    case (Inl e)
    then show ?thesis using Inr s by (simp add: katoi_def katoi_loop.simps [of string i])
  next
    case (Inr d)
    show ?thesis
    proof (cases "digit_0 \<le> d \<and> d \<le> digit_9")
      case True
      then show ?thesis using \<open>rd8 string off = Inr c\<close> s Inr katoi_loop_stuck [OF Inr, of sign 0] by (simp add: katoi_def)
    next
      case False
      then have "katoi_loop string i sign 0 = Some (Inr 0)" using Inr by (subst katoi_loop.simps) auto
      then show ?thesis using False \<open>rd8 string off = Inr c\<close> s Inr by (auto simp: katoi_def)
    qed
  qed
qed (simp add: katoi_def)


subsection \<open>What \<open>kstrtol\<close> reads\<close>

lemma kstrtol_loop_digits:
  "cstr p off (cs @ rest) \<Longrightarrow> \<forall>c \<in> set cs. digit_0 \<le> c \<and> c \<le> digit_9 \<Longrightarrow>
   rest = [] \<or> \<not> (digit_0 \<le> hd rest \<and> hd rest \<le> digit_9) \<Longrightarrow>
   kstrtol_loop p off n = Inr (foldl (\<lambda>n c. n * 10 + ucast (c - digit_0)) n cs, off + length cs)"
proof (induction cs arbitrary: off n)
  case Nil
  then have "rd8 p off = Inr (case rest of [] \<Rightarrow> 0 | x # _ \<Rightarrow> x)" using cstr_hd [of p off rest] by simp
  then show ?case using Nil by (subst kstrtol_loop.simps) (auto split: list.splits)
next
  case (Cons c cs)
  then have "rd8 p off = Inr c" "cstr p (Suc off) (cs @ rest)" using cstr_hd [of p off "c # cs @ rest"] cstr_tail by auto
  then show ?case using Cons by (subst kstrtol_loop.simps) auto
qed

lemma digit_char_range: "d < 10 \<Longrightarrow> digit_char up d = digit_0 + of_nat d"
proof -
  assume "d < 10"
  then have "d \<in> {0, 1, 2, 3, 4, 5, 6, 7, 8, 9}" by auto
  then show ?thesis by (auto simp: digit_char_def upper_case_digits_def lower_case_digits_def)
qed

lemma digit_char_ok: "d < 10 \<Longrightarrow> digit_0 \<le> digit_char up d \<and> digit_char up d \<le> digit_9 \<and> ucast (digit_char up d - digit_0) = (of_nat d :: u32)"
proof -
  assume "d < 10"
  then have "d \<in> {0, 1, 2, 3, 4, 5, 6, 7, 8, 9}" by auto
  then show ?thesis by (auto simp: digit_char_def upper_case_digits_def lower_case_digits_def)
qed

lemma foldl_digits:
  "\<forall>d \<in> set ds. d < 10 \<Longrightarrow>
   foldl (\<lambda>n c. n * 10 + ucast (c - digit_0)) (0 :: u32) (map (digit_char up) (rev ds)) = of_nat (horner 10 ds)"
  by (induction ds) (auto simp: horner_def digit_char_ok)

lemma digits_length_pow: "2 \<le> b \<Longrightarrow> n < b ^ k \<Longrightarrow> length (digits b n) \<le> k"
proof (induction k arbitrary: n)
  case (Suc k)
  then have "n div b < b ^ k" by (simp add: less_mult_imp_div_less mult.commute)
  then show ?case using Suc.IH [OF Suc.prems(1)] by (subst digits.simps) simp
qed (simp add: digits.simps)

text \<open>The text of \<open>%d\<close>: an optional sign and at most ten digits that \<open>kstrtol\<close> reads as the number.\<close>

lemma int_text_parsed:
  fixes v :: u32
  defines "out \<equiv> int_text v 10 False (- 1) 0 False"
  assumes "cstr p off out"
  shows "kstrtol p off = Inr (v, Some (off + length out))"
proof -
  define neg where "neg \<longleftrightarrow> sint v < 0"
  define w where "w = (if neg then - v else v)"
  define cs where "cs = (if v = 0 then [digit_0] else map (digit_char False) (rev (digits 10 (unat w))))"
  have w0: "w = 0 \<longleftrightarrow> v = 0" by (simp add: w_def)
  have out: "out = (if neg then [minus_sign] else []) @ cs"
    by (simp add: out_def int_text_def Let_def neg_def w_def cs_def digits_Nil unat_eq_0)
  have ok: "\<forall>c \<in> set cs. digit_0 \<le> c \<and> c \<le> digit_9"
    using digit_char_ok digits_less [of _ 10] by (auto simp: cs_def)
  have val: "foldl (\<lambda>n c. n * 10 + ucast (c - digit_0)) 0 cs = w"
    using foldl_digits [of "digits 10 (unat w)" False] digits_less [of _ 10] w0
    by (auto simp: cs_def horner_digits)
  have ne: "cs \<noteq> []" using w0 by (simp add: cs_def digits_Nil unat_eq_0)
  have p: "p \<noteq> None" using assms(2) by (auto simp: cstr_def)
  show ?thesis
  proof (cases neg)
    case True
    then have "rd8 p off = Inr minus_sign" "cstr p (Suc off) (cs @ [])"
      using assms(2) cstr_hd [of p off "minus_sign # cs"] cstr_tail by (auto simp: out)
    then show ?thesis using True p val kstrtol_loop_digits [of p "Suc off" cs "[]" 0] ok out
      by (simp add: kstrtol_def read_sign_def w_def)
  next
    case False
    then have "rd8 p off = Inr (hd cs)" "cstr p off (cs @ [])"
      using assms(2) cstr_hd [of p off cs] ne by (auto simp: out split: list.splits)
    moreover have "hd cs \<noteq> minus_sign" "hd cs \<noteq> 0x2B" using ok ne by (auto dest!: bspec [OF _ hd_in_set])
    ultimately show ?thesis using False p val kstrtol_loop_digits [of p off cs "[]" 0] ok out
      by (simp add: kstrtol_def read_sign_def w_def)
  qed
qed


lemma int_text_length: "length (int_text v 10 False (- 1) 0 False) \<le> 11"
proof -
  define w where "w = (if sint v < 0 then - v else v)"
  have "length (digits 10 (unat w)) \<le> 10"
    using u32_unat_lt [of w] by (intro digits_length_pow) simp_all
  then show ?thesis by (auto simp: int_text_def Let_def w_def [symmetric])
qed

lemma int_text_nonzero: "0 \<notin> set (int_text v 10 False (- 1) 0 False)"
proof -
  have "digit_char False d \<noteq> 0" if "d < 10" for d using digit_char_ok [OF that, of False] by auto
  then have "0 \<notin> digit_char False ` set (digits 10 k)" for k using digits_less [of _ 10 k] by (metis imageE)
  then show ?thesis by (simp add: int_text_def Let_def)
qed

text \<open>
  (C36) \<^bold>\<open>Printing and parsing.\<close> Every \<open>int\<close> printed with \<open>%d\<close> into a buffer of at least 12 bytes is read back by \<open>kstrtol\<close>, which
  leaves \<open>endptr\<close> at the terminator; \<open>os_snprintf\<close> has returned the length with it.
\<close>

theorem snprintf_kstrtol:
  assumes "cstr fmt s [percent, 0x64]" and "12 \<le> n" and "has_room buf (off + nat n)"
  shows "\<exists>len buf'. os_snprintf buf off n fmt s [VInt v] = Inr (int len + 1, buf') \<and>
    kstrtol buf' off = Inr (v, Some (off + len))"
proof -
  define out where "out = int_text v 10 False (- 1) 0 False"
  have len: "length out \<le> 11" by (simp add: out_def int_text_length)
  have "format 0 [percent, 0x64] [FInt v] = Some out"
    by (simp add: format.simps directive_def out_def)
  from os_vsnprintf_format [OF this assms(1) _ _ assms(3), of "[VInt v]"] assms(2) len
  have run: "os_snprintf buf off n fmt s [VInt v] = Inr (int (length out) + 1, store buf off (out @ [0]))"
    by (simp add: os_snprintf_def)
  obtain ob where ob: "buf = Some ob" "off + nat n \<le> unat (osize ob)"
    using assms(3) by (auto simp: has_room_def split: option.splits)
  have "0 \<notin> set out" by (simp add: out_def int_text_nonzero)
  then have "cstr (store buf off (out @ [0])) off out"
    using len assms(2) ob by (auto simp: cstr_def store_def nth_append)
  with int_text_parsed have "kstrtol (store buf off (out @ [0])) off = Inr (v, Some (off + length out))"
    unfolding out_def .
  with run show ?thesis by blast
qed

theorem snprintf_kstrtol_witness:
  "\<exists>len buf'. os_snprintf (Some \<lparr>osize = 16, cells = (\<lambda>_. None)\<rparr>) 4 12 (cstr_obj [percent, 0x64]) 0 [VInt 0x80000000] =
      Inr (int len + 1, buf') \<and> kstrtol buf' 4 = Inr (0x80000000, Some (4 + len))"
  by (rule snprintf_kstrtol) (simp_all add: cstr_obj_cstr has_room_def)

subsection \<open>\<open>rand\<close>\<close>

text \<open>The four words of the generator are its \<open>static\<close> variables.\<close>

record rand_state =
  z1 :: u32
  z2 :: u32
  z3 :: u32
  z4 :: u32

definition rand_init :: rand_state where
  "rand_init = \<lparr>z1 = 12345, z2 = 67891, z3 = 11121, z4 = 31415\<rparr>"

definition rand :: "rand_state \<Rightarrow> u32 \<times> rand_state" where
  "rand r =
     (let b = drop_bit 13 (push_bit 6 (z1 r) XOR z1 r);
          z1' = push_bit 18 (z1 r AND 4294967294) XOR b;
          b = drop_bit 27 (push_bit 2 (z2 r) XOR z2 r);
          z2' = push_bit 2 (z2 r AND 4294967288) XOR b;
          b = drop_bit 21 (push_bit 13 (z3 r) XOR z3 r);
          z3' = push_bit 7 (z3 r AND 4294967280) XOR b;
          b = drop_bit 12 (push_bit 3 (z4 r) XOR z4 r);
          z4' = push_bit 13 (z4 r AND 4294967168) XOR b
      in (z1' XOR z2' XOR z3' XOR z4', \<lparr>z1 = z1', z2 = z2', z3 = z3', z4 = z4'\<rparr>))"

text \<open>One of the four shift registers: the lowest \<open>k\<close> bits do not take part in it.\<close>

definition lfsr :: "nat \<Rightarrow> nat \<Rightarrow> nat \<Rightarrow> nat \<Rightarrow> u32 \<Rightarrow> u32" where
  "lfsr k q b s z = push_bit s (z AND NOT (mask k)) XOR drop_bit b (push_bit q z XOR z)"

lemma rand_lfsr:
  "snd (rand r) = \<lparr>z1 = lfsr 1 6 13 18 (z1 r), z2 = lfsr 3 2 27 2 (z2 r), z3 = lfsr 4 13 21 7 (z3 r), z4 = lfsr 7 3 12 13 (z4 r)\<rparr>"
proof -
  have m: "(4294967294 :: u32) = NOT (mask 1)" "(4294967288 :: u32) = NOT (mask 3)"
    "(4294967280 :: u32) = NOT (mask 4)" "(4294967168 :: u32) = NOT (mask 7)"
    by (simp_all add: mask_eq_exp_minus_1)
  show ?thesis unfolding rand_def lfsr_def Let_def m snd_conv by (rule refl)
qed

lemma masked_zero_iff: "z AND NOT (mask k) = 0 \<longleftrightarrow> (\<forall>n. k \<le> n \<longrightarrow> \<not> bit (z :: u32) n)"
  unfolding bit_eq_iff using bit_imp_le_length [of z] by (auto simp: bit_simps not_le) (metis not_le)

lemma lfsr_alive:
  assumes len: "s + b + k = 32" and q: "0 < q" "q \<le> b" and alive: "z AND NOT (mask k) \<noteq> 0"
  shows "lfsr k q b s z AND NOT (mask k) \<noteq> 0"
proof
  assume "lfsr k q b s z AND NOT (mask k) = 0"
  then have dead: "\<not> bit (lfsr k q b s z) n" if "k \<le> n" for n using that unfolding masked_zero_iff by blast
  have out: "bit (lfsr k q b s z) n \<longleftrightarrow> n < 32 \<and> ((s + k \<le> n \<and> bit z (n - s)) \<noteq> ((q \<le> b + n \<and> b + n < 32 \<and> bit z (b + n - q)) \<noteq> bit z (b + n)))" for n
    using bit_imp_le_length [of z "b + n"] bit_imp_le_length [of z "n - s"] by (auto simp: lfsr_def bit_simps)
  have "\<not> bit z m" if "k \<le> m" for m
    using that
  proof (induction m rule: less_induct)
    case (less m)
    consider "32 \<le> m" | "m < k + b" "m < 32" | "k + b \<le> m" "m < 32" by linarith
    then show ?case
    proof cases
      case 1
      then show ?thesis using bit_imp_le_length [of z m] by auto
    next
      case 2
      then show ?thesis using dead [of "m + s"] out [of "m + s"] less.prems len bit_imp_le_length [of z "b + (m + s)"]
          bit_imp_le_length [of z "b + (m + s) - q"] by auto
    next
      case 3
      have "b + (m - b) = m" "k \<le> m - b" "\<not> s + k \<le> m - b" "m - b < 32" "q \<le> m" using 3 q len by linarith+
      moreover have "\<not> bit z (m - q)" using less.IH [of "m - q"] 3 q less.prems by auto
      ultimately show ?thesis using dead [of "m - b"] out [of "m - b"] 3 by simp
    qed
  qed
  with alive show False by (simp add: masked_zero_iff)
qed

definition seeded :: "rand_state \<Rightarrow> bool" where
  "seeded r \<longleftrightarrow> 1 < z1 r \<and> 7 < z2 r \<and> 15 < z3 r \<and> 127 < z4 r"

lemma masked_less: "z AND NOT (mask k) \<noteq> 0 \<longleftrightarrow> 2 ^ k \<le> unat (z :: u32)"
proof -
  have "z AND NOT (mask k) = 0 \<longleftrightarrow> drop_bit k z = 0"
  proof -
    have "drop_bit k z = 0 \<longleftrightarrow> (\<forall>n. \<not> bit (drop_bit k z) n)" by (metis bit_0_eq bit_eqI bot_apply bot_bool_def)
    also have "\<dots> \<longleftrightarrow> (\<forall>n. \<not> bit z (k + n))" by (simp add: bit_drop_bit_eq)
    finally show ?thesis unfolding masked_zero_iff by (metis le_add1 le_Suc_ex)
  qed
  also have "\<dots> \<longleftrightarrow> unat z div 2 ^ k = 0" by (simp flip: unat_drop_bit add: unat_eq_0)
  also have "\<dots> \<longleftrightarrow> unat z < 2 ^ k" by (simp add: div_eq_0_iff)
  finally show ?thesis by auto
qed

lemma seeded_masks:
  "seeded r \<longleftrightarrow> z1 r AND NOT (mask 1) \<noteq> 0 \<and> z2 r AND NOT (mask 3) \<noteq> 0 \<and> z3 r AND NOT (mask 4) \<noteq> 0 \<and> z4 r AND NOT (mask 7) \<noteq> 0"
  unfolding masked_less seeded_def by (auto simp: word_less_nat_alt)

text \<open>
  \<^bold>\<open>The generator does not die out.\<close> The seeds satisfy the conditions on a generator of four shift registers (they exceed
  1, 7, 15 and 127), and every step keeps them: none of the registers ever becomes zero, so \<open>rand\<close> never gets stuck.
\<close>

theorem rand_never_stuck: "seeded (((\<lambda>r. snd (rand r)) ^^ n) rand_init)"
proof (induction n)
  case 0
  show ?case by (simp add: seeded_def rand_init_def)
next
  case (Suc n)
  then show ?case unfolding seeded_masks funpow.simps comp_apply rand_lfsr rand_state.simps
    by (intro conjI lfsr_alive) auto
qed

end
