(* ===== verification/Chipset.thy ===== *)
theory Chipset
  imports Klibc_Misc Vm2 Bcm_Timer
begin

section \<open>The chipset driver: \<open>drivers/chipset\<close>\<close>

text \<open>
  The rest of the kernel reaches the hardware through \<open>chipset\<close>, a struct of function pointers that
  \<open>init_chipset\<close> fills in for the board it runs on. A function pointer is the name of its function, \<open>None\<close>
  for \<open>NULL\<close>. The machine is the virtual memory of \<open>Vm2\<close>, the driver's variables, the processor's registers,
  and the writes devices have seen, as physical addresses and values. A write to a virtual address goes
  where the kernel's table translates it to; an address without translation is a data abort.
\<close>

subsection \<open>The interface and the machine\<close>

datatype chipset_fn =
    Uart_putc_stub
  | Bcm2836_schedule_timer_periodic
  | Bcm2836_schedule_timer_once
  | Bcm2836_deschedule_timer
  | Bcm2836_uart_putc
  | Bcm2836_uart_on_message
  | Bcm2836_irq_handler
  | Bcm2836_fiq_handler
  | Bcm2836_late_init

record ChipsetInterface =
  schedule_timer_periodic :: "chipset_fn option"
  schedule_timer_once :: "chipset_fn option"
  deschedule_timer :: "chipset_fn option"
  uart_putc :: "chipset_fn option"
  uart_on_message :: "chipset_fn option"
  handle_irq :: "chipset_fn option"
  handle_fiq :: "chipset_fn option"
  late_init :: "chipset_fn option"

record machine =
  mvm :: vm2_state
  chipset :: ChipsetInterface
  registers_base :: u32
  peripheral_base :: u32
  uart_address :: "nat \<Rightarrow> u32"
  device_writes :: "(u32 \<times> u32) list"
  cpsr :: u32
  sctlr :: u32

definition no_chipset :: ChipsetInterface where
  "no_chipset = \<lparr>schedule_timer_periodic = None, schedule_timer_once = None, deschedule_timer = None, uart_putc = None,
     uart_on_message = None, handle_irq = None, handle_fiq = None, late_init = None\<rparr>"

text \<open>The initial value of \<open>chipset\<close>: a stub prints nothing.\<close>

definition chipset_stub :: ChipsetInterface where
  "chipset_stub = no_chipset\<lparr>uart_putc := Some Uart_putc_stub\<rparr>"

definition chipset_fields :: "ChipsetInterface \<Rightarrow> chipset_fn option list" where
  "chipset_fields c = [schedule_timer_periodic c, schedule_timer_once c, deschedule_timer c, uart_putc c,
     uart_on_message c, handle_irq c, handle_fiq c, late_init c]"

subsection \<open>The UART\<close>

definition translate :: "machine \<Rightarrow> u32 \<Rightarrow> fault + u32" where
  "translate m v = (case walk (words (pmm (mvm m))) kernell1PageTable v of None \<Rightarrow> Inl OutOfBounds | Some (p, _) \<Rightarrow> Inr p)"

definition device_store :: "machine \<Rightarrow> u32 \<Rightarrow> u32 \<Rightarrow> fault + machine" where
  "device_store m v x = bindE (translate m v) (\<lambda>p. Inr (m\<lparr>device_writes := device_writes m @ [(p, x)]\<rparr>))"

definition bcm2836_uart_init :: "machine \<Rightarrow> machine" where
  "bcm2836_uart_init m =
     m\<lparr>uart_address := (uart_address m)
        (0 := peripheral_base m + 0x201000, 1 := peripheral_base m + 0x202000,
         2 := peripheral_base m + 0x203000, 3 := peripheral_base m + 0x204000)\<rparr>"

text \<open>The data register is the first of the interface.\<close>

definition uart_write_byte :: "machine \<Rightarrow> u32 \<Rightarrow> u8 \<Rightarrow> fault + machine" where
  "uart_write_byte m interface v = device_store m interface (ucast v)"

definition bcm2836_uart_putc :: "machine \<Rightarrow> u8 \<Rightarrow> int \<Rightarrow> fault + machine" where
  "bcm2836_uart_putc m c uartchannel =
     (let uartchannel = (if uartchannel \<ge> 4 then 0 else uartchannel) in
      if uartchannel \<in> {0, 1, 2, 3} then uart_write_byte m (uart_address m (nat uartchannel)) c
      else Inl FatalPanic)"

definition chipset_uart_putc :: "machine \<Rightarrow> u8 \<Rightarrow> int \<Rightarrow> fault + machine" where
  "chipset_uart_putc m c uartchannel =
     (case uart_putc (chipset m) of
        None \<Rightarrow> Inl NullDeref
      | Some Uart_putc_stub \<Rightarrow> Inr m
      | Some Bcm2836_uart_putc \<Rightarrow> bcm2836_uart_putc m c uartchannel
      | Some _ \<Rightarrow> Inl WrongMember)"

text \<open>\<open>kprintf\<close> on the machine: the characters \<open>puts\<close> hands over go to channel 0, one by one.\<close>

primrec putc_all :: "machine \<Rightarrow> u8 list \<Rightarrow> fault + machine" where
  "putc_all m [] = Inr m"
| "putc_all m (c # cs) = bindE (chipset_uart_putc m c 0) (\<lambda>m. putc_all m cs)"

definition kprint :: "machine \<Rightarrow> u8 kptr \<Rightarrow> nat \<Rightarrow> varg list \<Rightarrow> fault + (int \<times> machine)" where
  "kprint m str s args =
     bindE (kprintf str s args) (\<lambda>(n, out).
     bindE (putc_all m out) (\<lambda>m.
     Inr (n, m)))"

text \<open>String literals, and the macro \<open>FATAL\<close>, which prints the place and the message and panics.\<close>

definition ascii :: "string \<Rightarrow> u8 list" where
  "ascii = map of_char"

definition esc :: u8 where "esc = 0x1B"

definition fatal_format :: "string \<Rightarrow> u8 list" where
  "fatal_format fmt =
     esc # ascii ''[38;5;160m[FATAL] '' @ esc # ascii ''[38;5;208m%s:%i'' @ esc # ascii ''[38;5;160m '' @
     ascii fmt @ esc # ascii ''[0m'' @ [0x0A]"

definition FATAL :: "machine \<Rightarrow> string \<Rightarrow> u32 \<Rightarrow> string \<Rightarrow> varg list \<Rightarrow> fault + 'a" where
  "FATAL m file line fmt args =
     bindE (kprint m (cstr_obj (fatal_format fmt)) 0 (VStr (cstr_obj (ascii file)) 0 # VInt line # args)) (\<lambda>_.
     Inl FatalPanic)"

subsection \<open>The Raspberry Pi 2\<close>

definition BCM2836_REGISTERS_PHYSICAL_BASE :: u32 where
  "BCM2836_REGISTERS_PHYSICAL_BASE = 0x40000000"

definition bcm2836_init :: "machine \<Rightarrow> machine" where
  "bcm2836_init m =
     (let m = m\<lparr>chipset := \<lparr>schedule_timer_periodic = Some Bcm2836_schedule_timer_periodic,
                schedule_timer_once = Some Bcm2836_schedule_timer_once,
                deschedule_timer = Some Bcm2836_deschedule_timer,
                uart_putc = Some Bcm2836_uart_putc,
                uart_on_message = Some Bcm2836_uart_on_message,
                handle_irq = Some Bcm2836_irq_handler,
                handle_fiq = Some Bcm2836_fiq_handler,
                late_init = Some Bcm2836_late_init\<rparr>\<rparr>;
          (v, s) = vm2_map_peripheral (mvm m) BCM2836_REGISTERS_PHYSICAL_BASE 4;
          m = m\<lparr>mvm := s, registers_base := v\<rparr>;
          (v, s) = vm2_map_peripheral (mvm m) BCM2836_PERIPHERALS_PHYSICAL_BASE 16;
          m = m\<lparr>mvm := s, peripheral_base := v\<rparr> in
      bcm2836_uart_init m)"

text \<open>
  The interrupt handler compares the register of pending sources with the timer's bit. The timer's state is
  that of \<open>Bcm_Timer\<close>.
\<close>

definition bcm2836_irq_handler ::
    "nat \<Rightarrow> grant \<Rightarrow> (ptr \<Rightarrow> timer_state \<Rightarrow> fault + timer_state) \<Rightarrow> u64 \<Rightarrow> u32 \<Rightarrow> timer_state \<Rightarrow>
     fault + timer_state" where
  "bcm2836_irq_handler fuel g cb current_count pending st =
     (if pending = PHYSICAL_SECURE_TIMER then timer_handle_interrupt fuel g cb current_count st else Inr st)"

definition bcm2836_fiq_handler :: "timer_state \<Rightarrow> timer_state" where
  "bcm2836_fiq_handler st = st"

definition bcm2836_late_init :: "grant \<Rightarrow> grant \<Rightarrow> timer_state \<Rightarrow> fault + timer_state" where
  "bcm2836_late_init g g' st = bcm2836_timer_init g g' st"

subsection \<open>\<open>chipset.c\<close>\<close>

text \<open>The loop that checks the fields, from field \<open>i\<close> on.\<close>

primrec check_fields :: "machine \<Rightarrow> nat \<Rightarrow> chipset_fn option list \<Rightarrow> fault + machine" where
  "check_fields m i [] = Inr m"
| "check_fields m i (f # fs) =
     (if f = None
      then FATAL m ''src/drivers/chipset/chipset.c'' 34
             (''Chipset did not satisfy the required interface. Missing field %i'' @ [CHR 0x0A]) [VInt (of_nat i)]
      else check_fields m (Suc i) fs)"

definition init_chipset :: "HardwareInfo \<Rightarrow> machine \<Rightarrow> fault + machine" where
  "init_chipset info m =
     (let m = m\<lparr>chipset := no_chipset\<rparr> in
      bindE (case boardType info of
               RaspBerryPiTwo \<Rightarrow> Inr (bcm2836_init m)
             | _ \<Rightarrow> FATAL m ''src/drivers/chipset/chipset.c'' 28
                      (''Board type not supported for interrupts '' @ [CHR 0x0A]) [])
        (\<lambda>m. check_fields m 0 (chipset_fields (chipset m))))"

subsection \<open>The UART after initialisation\<close>

lemma bcm2836_init_fields:
  "chipset (bcm2836_init m) = \<lparr>schedule_timer_periodic = Some Bcm2836_schedule_timer_periodic,
     schedule_timer_once = Some Bcm2836_schedule_timer_once, deschedule_timer = Some Bcm2836_deschedule_timer,
     uart_putc = Some Bcm2836_uart_putc, uart_on_message = Some Bcm2836_uart_on_message,
     handle_irq = Some Bcm2836_irq_handler, handle_fiq = Some Bcm2836_fiq_handler, late_init = Some Bcm2836_late_init\<rparr>"
  "device_writes (bcm2836_init m) = device_writes m"
  by (simp_all add: bcm2836_init_def Let_def bcm2836_uart_init_def split: prod.split)

lemma aligned_minus:
  assumes "unat (t :: u32) mod 1048576 = 0"
  shows "unat (t - n * Mebibyte) mod 1048576 = 0"
proof -
  have d: "(1048576 :: nat) dvd 4294967296" by simp
  have "unat (t - n * Mebibyte + n * Mebibyte) mod 1048576 = (unat (t - n * Mebibyte) + unat (n * Mebibyte)) mod 1048576"
    by (rule unat_add_mod [OF d])
  moreover have "unat (n * Mebibyte) mod 1048576 = 0"
    by (simp add: unat_word_ariths Mebibyte_eq mod_mod_cancel)
  ultimately show ?thesis using assms by (simp add: mod_add_eq [symmetric])
qed

text \<open>The addresses of the four channels translate to their registers.\<close>

lemma uart_translate:
  assumes top: "unat (mmio_current_top (mvm m)) mod 1048576 = 0" and ch: "ch < 4"
  shows "translate (bcm2836_init m) (uart_address (bcm2836_init m) ch) = Inr (0x3F201000 + of_nat ch * 0x1000)"
proof -
  obtain v1 s1 where r1: "vm2_map_peripheral (mvm m) BCM2836_REGISTERS_PHYSICAL_BASE 4 = (v1, s1)" by (metis surj_pair)
  obtain v2 s2 where r2: "vm2_map_peripheral s1 BCM2836_PERIPHERALS_PHYSICAL_BASE 16 = (v2, s2)" by (metis surj_pair)
  have "mmio_current_top s1 = mmio_current_top (mvm m) - 4 * Mebibyte"
    using vm2_map_peripheral_walk [OF top _ _ r1, of 0] by (simp add: BCM2836_REGISTERS_PHYSICAL_BASE_def)
  then have t1: "unat (mmio_current_top s1) mod 1048576 = 0" using aligned_minus [OF top] by simp
  have m: "mvm (bcm2836_init m) = s2" "peripheral_base (bcm2836_init m) = v2"
    "uart_address (bcm2836_init m) ch = v2 + (0x201000 + of_nat ch * 0x1000)"
    using less_4 [OF ch] by (auto simp: bcm2836_init_def Let_def r1 r2 bcm2836_uart_init_def)
  have "unat (0x201000 + of_nat ch * 0x1000 :: u32) < unat (16 :: u32) * 1048576"
    using less_4 [OF ch] by auto
  from vm2_map_peripheral_walk [OF t1 _ _ r2 this, THEN conjunct1]
  have "walk (words (pmm s2)) kernell1PageTable (v2 + (0x201000 + of_nat ch * 0x1000)) =
      Some (0x3F000000 + (0x201000 + of_nat ch * 0x1000), ram_section (0x3F000000 + (0x201000 + of_nat ch * 0x1000)))"
    by (simp add: BCM2836_PERIPHERALS_PHYSICAL_BASE_def)
  then show ?thesis unfolding translate_def m by simp
qed

text \<open>Every character goes to the data register of its channel, those of channels from 4 on to channel 0.\<close>

lemma uart_putc_writes:
  assumes "unat (mmio_current_top (mvm m)) mod 1048576 = 0" and "m' = (bcm2836_init m)\<lparr>device_writes := ws\<rparr>"
  shows "chipset_uart_putc m' c ch =
    (if ch < 0 then Inl FatalPanic
     else Inr (m'\<lparr>device_writes := ws @ [(0x3F201000 + of_nat (if ch < 4 then nat ch else 0) * 0x1000, ucast c)]\<rparr>))"
proof -
  have t: "translate m' (uart_address m' k) = Inr (0x3F201000 + of_nat k * 0x1000)" if "k < 4" for k
    using uart_translate [OF assms(1) that] by (simp add: assms(2) translate_def)
  have f: "uart_putc (chipset m') = Some Bcm2836_uart_putc" "device_writes m' = ws"
    by (simp_all add: assms(2) bcm2836_init_fields)
  consider "ch < 0" | "0 \<le> ch" "ch < 4" | "4 \<le> ch" by linarith
  then show ?thesis
  proof cases
    case 1
    then show ?thesis by (simp add: chipset_uart_putc_def f bcm2836_uart_putc_def)
  next
    case 2
    then have "ch \<in> {0, 1, 2, 3}" "nat ch < 4" by auto
    then show ?thesis using 2 t [of "nat ch"]
      by (simp add: chipset_uart_putc_def f bcm2836_uart_putc_def uart_write_byte_def device_store_def)
  next
    case 3
    then show ?thesis using t [of 0]
      by (simp add: chipset_uart_putc_def f bcm2836_uart_putc_def uart_write_byte_def device_store_def)
  qed
qed

lemma putc_all_writes:
  assumes top: "unat (mmio_current_top (mvm m)) mod 1048576 = 0"
  shows "putc_all ((bcm2836_init m)\<lparr>device_writes := ws\<rparr>) cs =
    Inr ((bcm2836_init m)\<lparr>device_writes := ws @ map (\<lambda>c. (0x3F201000, ucast c)) cs\<rparr>)"
  by (induction cs arbitrary: ws) (simp_all add: uart_putc_writes [OF top refl])

text \<open>
  (C33) \<^bold>\<open>Printing reaches the device.\<close> After \<open>bcm2836_init\<close> has mapped the peripherals, the output of a \<open>kprintf\<close> appears, in
  order and nothing else, as writes to physical address \<open>0x3F201000\<close>, the data register of UART 0 of the Raspberry Pi 2. A
  character put to channel \<open>ch\<close> goes to the register of that channel, or of channel 0 if there is none; only a negative channel,
  for which \<open>chipset.h\<close> promises channel 0 too, panics.
\<close>

theorem kprintf_reaches_uart:
  assumes "unat (mmio_current_top (mvm m)) mod 1048576 = 0"
    and "format 0 fs fargs = Some out" and "cstr str s fs" and "list_all2 arg_ok args fargs"
  defines "m' \<equiv> bcm2836_init m"
  shows "kprint m' str s args = Inr (int (min 254 (length out)) + 1,
      m'\<lparr>device_writes := device_writes m @ map (\<lambda>c. (0x3F201000, ucast c)) (takeWhile (\<lambda>c. c \<noteq> 0) (take 254 out))\<rparr>) \<and>
    chipset_uart_putc m' c ch = (if ch < 0 then Inl FatalPanic
      else Inr (m'\<lparr>device_writes := device_writes m @ [(0x3F201000 + of_nat (if ch < 4 then nat ch else 0) * 0x1000, ucast c)]\<rparr>))"
proof -
  have "bcm2836_init m = (bcm2836_init m)\<lparr>device_writes := device_writes (bcm2836_init m)\<rparr>" by simp
  then have m': "m' = (bcm2836_init m)\<lparr>device_writes := device_writes m\<rparr>" unfolding m'_def bcm2836_init_fields(2) .
  have "putc_all m' cs = Inr (m'\<lparr>device_writes := device_writes m @ map (\<lambda>c. (0x3F201000, ucast c)) cs\<rparr>)" for cs
    using putc_all_writes [OF assms(1), of "device_writes m"] by (simp add: m')
  moreover from kprintf_format [OF assms(2-4)] have "kprintf str s args = Inr (int (min 254 (length out)) + 1, takeWhile (\<lambda>c. c \<noteq> 0) (take 254 out))" .
  ultimately show ?thesis using uart_putc_writes [OF assms(1) m', of c ch] by (simp add: kprint_def)
qed

definition demo_machine :: machine where
  "demo_machine = \<lparr>mvm = demo_vm, chipset = chipset_stub, registers_base = 0, peripheral_base = 0, uart_address = (\<lambda>_. NULL),
     device_writes = [], cpsr = 0x1D3, sctlr = 1\<rparr>"

theorem kprintf_reaches_uart_witness:
  "let m' = bcm2836_init demo_machine in
   kprint m' (cstr_obj demo_format) 0 [VInt 15, VInt (- 15), VInt (- 15)] =
     Inr (23, m'\<lparr>device_writes := map (\<lambda>c. (0x3F201000, ucast c)) demo_output\<rparr>) \<and>
   chipset_uart_putc m' 0x41 3 = Inr (m'\<lparr>device_writes := [(0x3F204000, 0x41)]\<rparr>)"
proof -
  have c: "cstr (cstr_obj demo_format) 0 demo_format" by (rule cstr_obj_cstr) (simp_all add: demo_format_def)
  have "unat (mmio_current_top (mvm demo_machine)) mod 1048576 = 0"
    by (simp add: demo_machine_def demo_vm_def KERNEL_MMIO_BASE_def Gibibyte_def Mebibyte_eq)
  from kprintf_reaches_uart [OF this demo_format_output c, of "[VInt 15, VInt (- 15), VInt (- 15)]" "0x41" 3]
  show ?thesis by (simp add: Let_def demo_output_def) (simp add: demo_machine_def)
qed

text \<open>
  \<^bold>\<open>Choosing the chipset.\<close> On a Raspberry Pi 2 \<open>init_chipset\<close> fills in all of the interface. On another board it clears the
  interface before it calls \<open>FATAL\<close>, so the message cannot be printed: the call of \<open>uart_putc\<close> is one of a null pointer.
\<close>

theorem init_chipset_board:
  "init_chipset info m =
     (if boardType info = RaspBerryPiTwo then Inr (bcm2836_init (m\<lparr>chipset := no_chipset\<rparr>)) else Inl NullDeref)"
proof -
  let ?m = "m\<lparr>chipset := no_chipset\<rparr>"
  have put: "out \<noteq> [] \<Longrightarrow> putc_all ?m out = Inl NullDeref" for out
    by (cases out) (simp_all add: chipset_uart_putc_def no_chipset_def)
  let ?fs = "fatal_format (''Board type not supported for interrupts '' @ [CHR 0x0A])"
  let ?file = "ascii ''src/drivers/chipset/chipset.c''"
  let ?args = "[VStr (cstr_obj ?file) 0, VInt 28]"
  obtain out where out: "format 0 ?fs [FStr ?file, FInt 28] = Some (esc # out)"
    by (simp add: fatal_format_def ascii_def esc_def format.simps is_digit_def pad_value_def directive_def)
  have "cstr (cstr_obj ?fs) 0 ?fs" "cstr (cstr_obj ?file) 0 ?file"
    by (rule cstr_obj_cstr; simp add: fatal_format_def ascii_def esc_def)+
  then have "list_all2 arg_ok ?args [FStr ?file, FInt 28]"
    by (simp add: ascii_def)
  from kprintf_format [OF out \<open>cstr (cstr_obj ?fs) 0 ?fs\<close> this]
  have "\<exists>n o'. kprintf (cstr_obj ?fs) 0 ?args = Inr (n, o') \<and> o' \<noteq> []" by (simp add: esc_def)
  then have "FATAL ?m ''src/drivers/chipset/chipset.c'' 28 (''Board type not supported for interrupts '' @ [CHR 0x0A]) [] =
      (Inl NullDeref :: fault + machine)"
    by (auto simp: FATAL_def kprint_def put)
  moreover have "check_fields m' 0 (chipset_fields (chipset m')) = Inr m'" if "m' = bcm2836_init ?m" for m'
    by (simp add: that chipset_fields_def bcm2836_init_fields)
  ultimately show ?thesis by (cases "boardType info") (simp_all add: init_chipset_def Let_def)
qed

end
