(* ===== verification/Kernel_Table.thy ===== *)
theory Kernel_Table
  imports Vm2
begin

section \<open>Pages in the kernel's own table: \<open>vm/vm2.c\<close>\<close>

text \<open>
  The table of the kernel is not a unit of the memory manager: it lies in the memory of the kernel itself. The lemmas say
  what \<open>vm2_allocate_page\<close> does to it, as \<open>init_vector_table\<close> and the heap use it.
\<close>

text \<open>The kernel's first level table: 16 KiB of the kernel's own memory, which no slice of the memory manager covers.\<close>

definition kernel_table :: "u32 set" where
  "kernel_table = {a. unat (a - kernell1PageTable) < 16384}"

definition table_reserved :: "PhysicalMemoryManager \<Rightarrow> bool" where
  "table_reserved p \<longleftrightarrow> (\<forall>x. \<forall>a \<in> kernel_table. 8192 \<le> unat (a - slice (sinfo p x)))"

lemma slot_in_kernel_table: "entry_address kernell1PageTable (l1pt_index v) \<in> kernel_table"
proof -
  have "unat v div 1048576 < 4096" using u32_unat_lt [of v] by simp
  moreover have "unat (4 * l1pt_index v) = 4 * (unat v div 1048576)"
    using unat_mult_no_wrap [of 4 "l1pt_index v"] u32_unat_lt [of v] by (simp add: unat_l1pt_index)
  ultimately show ?thesis by (simp add: kernel_table_def entry_address_def)
qed

lemma live_in_slice:
  assumes "pmm_pool p U" and "u \<in> U" and "a \<in> footprint u"
  shows "\<exists>x. unat (a - slice (sinfo p x)) < 8192"
proof -
  from assms(1,2) obtain Ls l x where "u \<in> units (sinfo p x)" by (auto simp: pmm_pool_def live_def)
  then obtain k where k: "u = unit_at (sinfo p x) k" "k < 8192 div usize (mtype (sinfo p x))"
    by (auto simp: units_def unit_set_def split: if_splits)
  obtain d where d: "d < usize (mtype (sinfo p x))" "a = slice (sinfo p x) + of_nat (usize (mtype (sinfo p x)) * k + d)"
    using footprint_in_unit assms(3) k(1) by metis
  let ?n = "usize (mtype (sinfo p x)) * k + d"
  have n: "?n < 8192" by (rule unit_offset [OF k(2) d(1)])
  have "a - slice (sinfo p x) = of_nat ?n" by (simp only: d(2)) simp
  moreover have "unat (of_nat ?n :: u32) = ?n" using n by (intro unat_of_nat_u32) simp
  ultimately show ?thesis using n by metis
qed

lemma slices_kept:
  "pmm_allocate_page p = Inr (q, p') \<Longrightarrow> slice (sinfo p' y) = slice (sinfo p y)"
  "pmm_allocate_l2_pagetable p = Inr (q, p') \<Longrightarrow> slice (sinfo p' y) = slice (sinfo p y)"
  unfolding pmm_allocate_page_def pmm_allocate_l2_pagetable_def
  by (auto simp: Let_def bindE_Inr_iff pmm_clear_def slices_kept_steps(1) dest!: slices_kept_steps(2,3) [where y = y]
      dest: slices_kept_steps(1) [where y = y] split: if_splits)

lemma reserved_page:
  assumes "table_reserved p" and "pmm_pool p' U" and "u \<in> U" and "\<And>y. slice (sinfo p' y) = slice (sinfo p y)"
  shows "entry_address kernell1PageTable (l1pt_index v) \<notin> footprint u"
proof
  assume "entry_address kernell1PageTable (l1pt_index v) \<in> footprint u"
  from live_in_slice [OF assms(2,3) this] obtain x where
    "unat (entry_address kernell1PageTable (l1pt_index v) - slice (sinfo p x)) < 8192" by (auto simp: assms(4))
  with assms(1) slot_in_kernel_table [of v] show False unfolding table_reserved_def not_less [symmetric] by blast
qed

text \<open>
  \<open>page\<close> is mapped at \<open>v\<close> by the kernel's table, and holds neither of the two entries that say so.
\<close>

definition maps_page :: "(u32 \<Rightarrow> u32) \<Rightarrow> u32 \<Rightarrow> ptr \<Rightarrow> bool" where
  "maps_page m v page \<longleftrightarrow>
     (let e = l1_slot m kernell1PageTable v in
      take_bit 2 e = 1 \<and> take_bit 2 (l2_slot m (l2_table e) v) \<in> {2, 3} \<and>
      push_bit 12 (drop_bit 12 (l2_slot m (l2_table e) v)) = VIRT2PHYS page \<and> unat page mod 4096 = 0 \<and>
      entry_address kernell1PageTable (l1pt_index v) \<notin> footprint (Page, page) \<and>
      entry_address (l2_table e) (ucast (l2pt_index v)) \<notin> footprint (Page, page))"

subsection \<open>The kernel's table in order\<close>

abbreviation all_addresses_ok :: "u32 \<Rightarrow> bool" where "all_addresses_ok v \<equiv> True"

text \<open>There are at least \<open>n\<close> unused slices left.\<close>

definition kernel_ok :: "vm2_state \<Rightarrow> unit_id set \<Rightarrow> nat \<Rightarrow> bool" where
  "kernel_ok s U n \<longleftrightarrow>
     pool_with (pmm s) U n \<and> table_reserved (pmm s) \<and> coarse_ok (words (pmm s)) U all_addresses_ok kernell1PageTable"

lemma kernel_okD:
  assumes "kernel_ok s U n"
  shows "pool_with (pmm s) U n" "pmm_pool (pmm s) U" "table_reserved (pmm s)"
    "coarse_ok (words (pmm s)) U all_addresses_ok kernell1PageTable"
  using assms pool_with_pool by (auto simp: kernel_ok_def)

lemma kernel_ok_mono: "kernel_ok s U n \<Longrightarrow> k \<le> n \<Longrightarrow> kernel_ok s U k"
  by (auto simp: kernel_ok_def intro: pool_with_mono)

text \<open>
  What an operation keeps: the units in use, the translation of the addresses that are not \<open>E\<close>, which of those are
  free to be mapped, and the memory of all units but the second level tables.
\<close>

definition extends :: "(u32 \<Rightarrow> bool) \<Rightarrow> vm2_state \<Rightarrow> unit_id set \<Rightarrow> vm2_state \<Rightarrow> unit_id set \<Rightarrow> bool" where
  "extends E s U s' U' \<longleftrightarrow> U \<subseteq> U' \<and> (\<exists>m. s' = s\<lparr>pmm := m\<rparr>) \<and>
     (\<forall>x. \<not> E x \<longrightarrow> walk (words (pmm s')) kernell1PageTable x = walk (words (pmm s)) kernell1PageTable x) \<and>
     (\<forall>x. \<not> E x \<longrightarrow> mappable (words (pmm s)) kernell1PageTable x False \<longrightarrow> mappable (words (pmm s')) kernell1PageTable x False) \<and>
     (\<forall>t a y. (t, a) \<in> U \<longrightarrow> t \<noteq> L2PageTable \<longrightarrow> y \<in> footprint (t, a) \<longrightarrow> words (pmm s') y = words (pmm s) y)"

lemma extends_refl: "extends E s U s U"
  by (auto simp: extends_def intro: exI [of _ "pmm s"])

lemma extends_trans:
  "extends E s U s1 U1 \<Longrightarrow> extends E' s1 U1 s' U' \<Longrightarrow> extends (\<lambda>x. E x \<or> E' x) s U s' U'"
  unfolding extends_def by (intro conjI) (blast, auto)

lemma extends_mono: "extends E s U s' U' \<Longrightarrow> (\<And>x. E x \<Longrightarrow> E' x) \<Longrightarrow> extends E' s U s' U'"
  unfolding extends_def by blast

lemma slot_not_in_unit:
  assumes "table_reserved p" and "pmm_pool p U" and "u \<in> U"
  shows "entry_address kernell1PageTable (l1pt_index v) \<notin> footprint u"
  by (rule reserved_page [OF assms]) (rule refl)

lemma kernel_slots_apart:
  assumes "table_reserved p" and "pmm_pool p U"
  shows "slots_apart U all_addresses_ok kernell1PageTable"
  using slot_not_in_unit [OF assms] by (simp add: slots_apart_def)

lemma unit_nonnull:
  assumes "pmm_pool p U" and "(t, a) \<in> U"
  shows "a \<noteq> NULL"
proof -
  from assms obtain Ls l x where L: "pmm_rep p Ls" "x \<in> set (Ls l)" "(t, a) \<in> units (sinfo p x)"
    by (auto simp: pmm_pool_def live_def)
  let ?i = "sinfo p x"
  from L(3) obtain k where k: "a = slice ?i + of_nat (usize (mtype ?i) * k)" "k < 8192 div usize (mtype ?i)"
    by (auto simp: units_def unit_set_def unit_at_def split: if_splits)
  have g: "slice ?i \<noteq> NULL" "is_slice (pstart p) (slice ?i)" "unat (pstart p) mod 8192 = 0"
    using pmm_repD(3) [OF L(1,2)] pmm_repD(4) [OF L(1)] by (auto simp: geom_def)
  let ?o = "usize (mtype ?i) * k"
  have o: "?o < 8192" using unit_offset [OF k(2), of 0] by simp
  have al: "unat (slice ?i) mod 8192 = 0"
    using unat_add_mod [of 8192 "slice ?i - pstart p" "pstart p"] g(2,3) by (simp add: is_slice_def mod_add_eq [symmetric])
  have "unat (slice ?i) \<noteq> 0" using g(1) by (simp add: unat_eq_0)
  obtain q where q: "unat (slice ?i) = 8192 * q" using al by (auto simp: mod_eq_0_iff_dvd dvd_def)
  then have "q < 524288" using u32_unat_lt [of "slice ?i"] by simp
  then have "8192 * q + 8192 \<le> 2 ^ 32" by simp
  then have "unat (slice ?i) + 8192 \<le> 2 ^ 32" unfolding q .
  then have "unat a = unat (slice ?i) + ?o"
    unfolding k(1) using o unat_of_nat_u32 [of ?o] by (subst unat_add_no_wrap) (simp_all del: of_nat_mult)
  then show ?thesis using \<open>unat (slice ?i) \<noteq> 0\<close> by auto
qed

lemma vm2_map_page_result:
  "vm2_map_page s e v False perms None arg = Inr (page, c, s') \<Longrightarrow>
   c = None \<and> (\<exists>m w. pmm_allocate_page (pmm s) = Inr (page, m) \<and> s' = s\<lparr>pmm := m\<lparr>words := w\<rparr>\<rparr>)"
  unfolding vm2_map_page_def
  by (elim bindE_InrE) (auto simp: Let_def write_word_def elim!: bindE_InrE split: if_splits)

text \<open>A page below a second level table that is there.\<close>

lemma kernel_map_page:
  assumes ok: "kernel_ok s U (Suc n)"
    and coarse: "take_bit 2 (l1_slot (words (pmm s)) kernell1PageTable v) = 1"
    and l2: "l2 = l2_table (l1_slot (words (pmm s)) kernell1PageTable v)" "arg = NULL \<or> arg = l2"
    and slot: "l2_slot (words (pmm s)) l2 v = 0"
  shows "\<exists>page s'. vm2_map_page s (entry_address kernell1PageTable (l1pt_index v)) v False perms None arg = Inr (page, None, s') \<and>
    page \<noteq> NULL \<and> (Page, page) \<notin> U \<and> maps_page (words (pmm s')) v page \<and> kernel_ok s' (insert (Page, page) U) n \<and>
    extends (\<lambda>x. drop_bit 12 x = drop_bit 12 v) s U s' (insert (Page, page) U)"
proof -
  let ?m = "words (pmm s)" and ?K = kernell1PageTable
  let ?e = "entry_address ?K (l1pt_index v)"
  note K = kernel_okD [OF ok]
  have l2U: "(L2PageTable, l2) \<in> U" unfolding l2(1) by (rule coarse_okD(1) [OF K(4) TrueI coarse])
  have av: "sub_avail pagePartialFree (pmm s)" by (rule pool_with_avail [OF K(1)])
  from alloc_with(1) [OF K(1)] obtain page m where
    a: "pmm_allocate_page (pmm s) = Inr (page, m)" "(Page, page) \<notin> U" "pool_with m (insert (Page, page) U) n" by blast
  let ?U = "insert (Page, page) U"
  have poolm: "pmm_pool m ?U" by (rule pool_with_pool [OF a(3)])
  have res: "table_reserved m" using K(3) slices_kept(1) [OF a(1)] by (simp add: table_reserved_def)
  note off = slot_not_in_unit [OF res poolm]
  have e: "take_bit 2 (?m ?e) = 1" "l2 = l2_table (?m ?e)" using coarse l2(1) by (simp_all add: l1_slot_def)
  have new: "\<forall>p m. pmm_allocate_page (pmm s) = Inr (p, m) \<longrightarrow> ?e \<notin> footprint (Page, p)"
    using off [of "(Page, page)"] a(1) by auto
  from vm2_map_page_ok [OF K(2) av e(1) new e(2) l2(2) l2U disjI1 [OF slot], where remap = False and perms = perms and created = None]
  obtain page' c s' where
    r: "vm2_map_page s ?e v False perms None arg = Inr (page', c, s')" "unat page' mod 4096 = 0"
      "words (pmm s') = (cleared (Page, page') ?m)(entry_address l2 (ucast (l2pt_index v)) := page_descriptor perms page')"
    by (elim exE conjE) (rule that)
  from vm2_map_page_result [OF r(1)] a(1) obtain w where
    s': "page' = page" "c = None" "s' = s\<lparr>pmm := m\<lparr>words := w\<rparr>\<rparr>" by auto
  note r = r [unfolded s'(1,2)]
  have sep: "separate ?U" by (rule pool_separate [OF poolm])
  have apart: "slots_apart ?U all_addresses_ok ?K" by (rule kernel_slots_apart [OF res poolm])
  note c = clear_page [OF K(4) apart sep refl, simplified]
  have l2': "l2 = l2_table (l1_slot (cleared (Page, page) ?m) ?K v)" by (simp add: c(2) l2(1))
  have "take_bit 2 (l1_slot (cleared (Page, page) ?m) ?K v) = 1" by (simp add: c(2) coarse)
  note t = set_slot [OF c(1) apart sep TrueI this l2' r(3), simplified]
  have l1s: "l1_slot (words (pmm s')) ?K x = l1_slot ?m ?K x" for x using t(2) c(2) by simp
  have l2s: "l2_slot (words (pmm s')) t x = (if t = l2 \<and> l2pt_index x = l2pt_index v then page_descriptor perms page else l2_slot ?m t x)"
    if "(L2PageTable, t) \<in> U" for t x using t(4) [of t x] c(4) [OF that] that by simp
  have "kernel_ok s' ?U n"
    unfolding kernel_ok_def
  proof (intro conjI)
    show "pool_with (pmm s') ?U n" using a(3) by (simp add: s'(3))
    show "table_reserved (pmm s')" using res by (simp add: s'(3) table_reserved_def)
  qed (rule t(1))
  moreover have "maps_page (words (pmm s')) v page"
  proof -
    have "entry_address l2 (ucast (l2pt_index v)) \<notin> footprint (Page, page)"
      using separateD [OF sep, of "(L2PageTable, l2)" "(Page, page)"] slot_in_l2 [of l2 v] l2U by auto
    then show ?thesis
      using page_descriptor_fields [OF r(2), of perms] r(2) off [of "(Page, page)"] l2s [OF l2U, of v] coarse
      unfolding maps_page_def Let_def l1s l2(1) [symmetric] by auto
  qed
  moreover have "extends (\<lambda>x. drop_bit 12 x = drop_bit 12 v) s U s' ?U"
    unfolding extends_def
  proof (intro conjI allI impI)
    show "\<exists>m. s' = s\<lparr>pmm := m\<rparr>" using s'(3) by blast
    fix x assume x: "\<not> drop_bit 12 x = drop_bit 12 v"
    then show "walk (words (pmm s')) ?K x = walk ?m ?K x" using t(3) [of x] c(3) [of x] by simp
    assume "mappable ?m ?K x False"
    moreover have "l2_slot (words (pmm s')) (l2_table (l1_slot ?m ?K x)) x = l2_slot ?m (l2_table (l1_slot ?m ?K x)) x"
      if "take_bit 2 (l1_slot ?m ?K x) = 1"
    proof -
      have "\<not> (l2_table (l1_slot ?m ?K x) = l2 \<and> l2pt_index x = l2pt_index v)"
        using coarse_okD(2) [OF K(4) TrueI TrueI that coarse] x same_page_iff [of x v] l2(1) by auto
      then show ?thesis using l2s [OF coarse_okD(1) [OF K(4) TrueI that], of x] by auto
    qed
    ultimately show "mappable (words (pmm s')) ?K x False" by (auto simp: mappable_def Let_def l1s)
  next
    fix ty p y assume u: "(ty, p) \<in> U" "ty \<noteq> L2PageTable" "y \<in> footprint (ty, p)"
    then have "y \<notin> footprint (Page, page)" using separateD [OF sep, of "(ty, p)" "(Page, page)"] a(2) by auto
    moreover have "y \<noteq> entry_address l2 (ucast (l2pt_index v))"
      using separateD [OF sep, of "(ty, p)" "(L2PageTable, l2)" y] u l2U slot_in_l2 [of l2 v] by auto
    ultimately show "words (pmm s') y = ?m y" unfolding r(3) by (simp add: cleared_def)
  qed auto
  moreover have "page \<noteq> NULL" by (rule unit_nonnull [OF poolm, of Page]) simp
  ultimately show ?thesis using r(1) a(2) by blast
qed

text \<open>A page anywhere it may be mapped.\<close>

lemma kernel_map:
  assumes ok: "kernel_ok s U (Suc (Suc n))" and free: "mappable (words (pmm s)) kernell1PageTable v False"
  shows "\<exists>page s' U'. vm2_allocate_page s kernell1PageTable v False perms None = Inr (page, None, s') \<and>
    page \<noteq> NULL \<and> (Page, page) \<in> U' \<and> (Page, page) \<notin> U \<and> maps_page (words (pmm s')) v page \<and> kernel_ok s' U' n \<and>
    extends (\<lambda>x. drop_bit 12 x = drop_bit 12 v) s U s' U'"
proof -
  let ?m = "words (pmm s)" and ?K = kernell1PageTable
  let ?e = "entry_address ?K (l1pt_index v)"
  have ty: "se_type (word_section (read_word s ?e)) = take_bit 2 (l1_slot ?m ?K v)"
    by (simp add: word_fields read_word_def l1_slot_def)
  show ?thesis
  proof (cases "take_bit 2 (l1_slot ?m ?K v) = 1")
    case True
    have eq: "vm2_allocate_page s ?K v False perms None = vm2_map_page s ?e v False perms None NULL"
      unfolding vm2_allocate_page_def Let_def ty True by simp
    have slot: "l2_slot ?m (l2_table (l1_slot ?m ?K v)) v = 0"
      using free True by (auto simp: mappable_def Let_def)
    have ok1: "kernel_ok s U (Suc n)" using kernel_ok_mono [OF ok] by simp
    from kernel_map_page [OF ok1 True refl _ slot, of NULL perms] obtain page s' where
      "vm2_map_page s ?e v False perms None NULL = Inr (page, None, s')" "page \<noteq> NULL" "(Page, page) \<notin> U"
      "maps_page (words (pmm s')) v page" "kernel_ok s' (insert (Page, page) U) n"
      "extends (\<lambda>x. drop_bit 12 x = drop_bit 12 v) s U s' (insert (Page, page) U)" by blast
    then show ?thesis unfolding eq by blast
  next
    case False
    then have z: "take_bit 2 (l1_slot ?m ?K v) = 0" using free by (auto simp: mappable_def Let_def)
    note K = kernel_okD [OF ok]
    from alloc_with(2) [OF K(1)] obtain l2 m where
      a: "pmm_allocate_l2_pagetable (pmm s) = Inr (l2, m)" "(L2PageTable, l2) \<notin> U" "pool_with m (insert (L2PageTable, l2) U) (Suc n)"
        "words m = zero_words l2 (of_nat (usize L2PageTable)) ?m" by blast
    let ?U = "insert (L2PageTable, l2) U"
    have poolm: "pmm_pool m ?U" by (rule pool_with_pool [OF a(3)])
    have w: "words m = cleared (L2PageTable, l2) ?m" using a(4) by (simp add: fun_eq_iff cleared_def l2_tables.zero_words_footprint)
    let ?d = "coarse_word (zero_coarse\<lparr>co_type := 1, co_base_address := drop_bit 10 (VIRT2PHYS l2)\<rparr>)"
    have al: "unat l2 mod 1024 = 0" using pmm_pool_aligned [OF poolm, of "(L2PageTable, l2)"] by (simp add: usize_def)
    note d = coarse_descriptor [OF al]
    define s1 where "s1 = write_word (s\<lparr>pmm := m\<rparr>) ?e ?d"
    have s1: "s1 = s\<lparr>pmm := m\<lparr>words := (words m)(?e := ?d)\<rparr>\<rparr>" by (simp add: s1_def write_word_def)
    have w1: "words (pmm s1) = (cleared (L2PageTable, l2) ?m)(?e := ?d)" by (simp add: s1 w)
    have eq: "vm2_allocate_page s ?K v False perms None = vm2_map_page s1 ?e v False perms None l2"
      unfolding vm2_allocate_page_def Let_def ty z by (simp add: a(1) s1_def)
    have res: "table_reserved m" using K(3) slices_kept(2) [OF a(1)] by (simp add: table_reserved_def)
    have sep: "separate ?U" by (rule pool_separate [OF poolm])
    note t = new_table [OF K(4) kernel_slots_apart [OF res poolm] sep a(2) TrueI z d w1, simplified]
    have ok1: "kernel_ok s1 ?U (Suc n)"
      using a(3) res t(1) by (simp add: kernel_ok_def s1 table_reserved_def)
    have here: "l1_slot (words (pmm s1)) ?K x = ?d" if "l1pt_index x = l1pt_index v" for x using t(3) [of x] that by simp
    have e1: "extends (\<lambda>_. False) s U s1 ?U"
      unfolding extends_def
    proof (intro conjI allI impI)
      show "\<exists>m. s1 = s\<lparr>pmm := m\<rparr>" using s1 by blast
      show "walk (words (pmm s1)) ?K x = walk ?m ?K x" for x by (rule t(5))
      fix x assume x: "mappable ?m ?K x False"
      show "mappable (words (pmm s1)) ?K x False"
      proof (cases "l1pt_index x = l1pt_index v")
        case True
        then show ?thesis using t(2) d by (simp add: mappable_def Let_def here)
      next
        case False
        then have "l1_slot (words (pmm s1)) ?K x = l1_slot ?m ?K x" using t(3) by simp
        then show ?thesis using x t(4) [OF coarse_okD(1) [OF K(4) TrueI]] by (auto simp: mappable_def Let_def)
      qed
    next
      fix ty p y assume u: "(ty, p) \<in> U" "ty \<noteq> L2PageTable" "y \<in> footprint (ty, p)"
      then have "y \<notin> footprint (L2PageTable, l2)" using separateD [OF sep, of "(ty, p)" "(L2PageTable, l2)"] by auto
      moreover have "y \<noteq> ?e" using slot_not_in_unit [OF K(3,2) u(1)] u(3) by auto
      ultimately show "words (pmm s1) y = ?m y" by (simp add: w1 cleared_def)
    qed auto
    have c1: "take_bit 2 (l1_slot (words (pmm s1)) ?K v) = 1" "l2 = l2_table (l1_slot (words (pmm s1)) ?K v)"
      by (simp_all only: here [OF refl] d)
    from kernel_map_page [OF ok1 c1 _ t(2), of l2 perms] obtain page s' where
      r: "vm2_map_page s1 ?e v False perms None l2 = Inr (page, None, s')" "page \<noteq> NULL" "(Page, page) \<notin> ?U"
        "maps_page (words (pmm s')) v page" "kernel_ok s' (insert (Page, page) ?U) n"
        "extends (\<lambda>x. drop_bit 12 x = drop_bit 12 v) s1 ?U s' (insert (Page, page) ?U)" by blast
    have "extends (\<lambda>x. drop_bit 12 x = drop_bit 12 v) s U s' (insert (Page, page) ?U)"
      using extends_trans [OF e1 r(6)] by simp
    with r show ?thesis unfolding eq by blast
  qed
qed

text \<open>Stores into a page of the kernel.\<close>

definition page_written :: "ptr \<Rightarrow> vm2_state \<Rightarrow> vm2_state \<Rightarrow> bool" where
  "page_written page s s' \<longleftrightarrow>
     (\<exists>w. s' = s\<lparr>pmm := (pmm s)\<lparr>words := w\<rparr>\<rparr> \<and> (\<forall>a. a \<notin> footprint (Page, page) \<longrightarrow> w a = words (pmm s) a))"

lemma page_written_refl: "page_written page s s"
  by (auto simp: page_written_def intro!: exI [of _ "words (pmm s)"])

lemma page_written_trans: "page_written page s s1 \<Longrightarrow> page_written page s1 s' \<Longrightarrow> page_written page s s'"
  by (auto simp: page_written_def)

lemma page_written_word: "a \<in> footprint (Page, page) \<Longrightarrow> page_written page s (write_word s a v)"
  by (auto simp: page_written_def write_word_def)

lemma page_written_ok:
  assumes ok: "kernel_ok s U n" and page: "(Page, page) \<in> U" and wr: "page_written page s s'"
  shows "kernel_ok s' U n" "extends E s (U - {(Page, page)}) s' U"
proof -
  from wr obtain w where s': "s' = s\<lparr>pmm := (pmm s)\<lparr>words := w\<rparr>\<rparr>"
    and w: "\<And>a. a \<notin> footprint (Page, page) \<Longrightarrow> w a = words (pmm s) a" by (auto simp: page_written_def)
  note K = kernel_okD [OF ok]
  have sep: "separate U" by (rule pool_separate [OF K(2)])
  have l1: "l1_slot w kernell1PageTable x = l1_slot (words (pmm s)) kernell1PageTable x" for x
    using w [OF slot_not_in_unit [OF K(3,2) page]] by (simp add: l1_slot_def)
  have l2: "l2_slot w t x = l2_slot (words (pmm s)) t x" if "(L2PageTable, t) \<in> U" for t x
    using w separateD [OF sep that page _ slot_in_l2] by (auto simp: l2_slot_def)
  have wk: "walk w kernell1PageTable x = walk (words (pmm s)) kernell1PageTable x"
    "mappable w kernell1PageTable x False = mappable (words (pmm s)) kernell1PageTable x False" for x
    using l2 [OF coarse_okD(1) [OF K(4) TrueI, of x], of x] by (auto simp: walk_def mappable_def Let_def l1)
  have other: "w y = words (pmm s) y" if "(t, a) \<in> U" "(t, a) \<noteq> (Page, page)" "y \<in> footprint (t, a)" for t a y
    using w separateD [OF sep that(1) page that(2,3)] by blast
  show "kernel_ok s' U n"
    using K coarse_ok_cong [OF K(4), of w U] l1 by (simp add: kernel_ok_def s' table_reserved_def)
  have "\<forall>t a y. (t, a) \<in> U - {(Page, page)} \<longrightarrow> t \<noteq> L2PageTable \<longrightarrow> y \<in> footprint (t, a) \<longrightarrow> w y = words (pmm s) y"
    using other by blast
  then show "extends E s (U - {(Page, page)}) s' U" by (auto simp: extends_def s' wk)
qed

lemma extends_subset:
  "extends E s U s1 U1 \<Longrightarrow> extends E' s1 U2 s' U' \<Longrightarrow> U \<subseteq> U2 \<Longrightarrow> extends (\<lambda>x. E x \<or> E' x) s U s' U'"
  unfolding extends_def by (intro conjI) (blast, auto)

lemma demo_table_reserved: "table_reserved (pmm demo_vm)"
proof -
  have "unat (slice (sinfo (pmm demo_vm) x)) \<le> 0x208000" for x
    by (simp add: demo_vm_def zero_sliceinfo_def)
  moreover have "8192 \<le> unat (a - sl)" if a: "a \<in> kernel_table" and sl: "unat sl \<le> 0x208000" for a sl
  proof -
    obtain d where d: "a = 0x80004000 + d" "unat d < 16384"
      using a by (intro that [of "a - 0x80004000"])
        (simp_all add: kernel_table_def kernell1PageTable_def VirtualL1PagetableLocation_def KERNEL_VIRTUAL_OFFSET_def)
    then have "unat a = 0x80004000 + unat d" using unat_add_no_wrap [of "0x80004000" d] by simp
    then show ?thesis using sl unat_sub_no_wrap [of sl a] by (simp add: u32_le_unat)
  qed
  ultimately show ?thesis unfolding table_reserved_def by blast
qed

lemma demo_kernel_ok: "kernel_ok demo_vm demo_units 2"
  unfolding kernel_ok_def
proof (intro conjI demo_table_reserved)
  show "pool_with (pmm demo_vm) demo_units 2"
    using demo_vm_rep unfolding pool_with_def by (intro exI [of _ demo_vm_lists]) (simp add: demo_vm_lists_def)
qed (simp add: coarse_ok_def l1_slot_def)

end
