(* ===== verification/Interrupts.thy ===== *)
theory Interrupts
  imports Chipset Kernel_Table
begin

section \<open>Exceptions and interrupts: \<open>common/interrupt.c\<close>\<close>

text \<open>
  The vector table, the handlers of the exceptions, and the interrupt masks of the processor. The registers a handler
  finds (\<open>lr\<close>, \<open>spsr\<close>, \<open>r0\<close> and so on) are its arguments; \<open>CPSR\<close> and the system control register are part of the machine. The output
  of \<open>INFO\<close> and \<open>DEBUG\<close>, which depends on the log level, is left out; that of \<open>WARN\<close> and \<open>FATAL\<close> is the one of a build
  without tests. \<open>reset_handler\<close> restarts the assembly start-up and the semihosting calls leave the machine; they are not modelled.
\<close>

subsection \<open>Memory accesses of the handlers\<close>

text \<open>The memory at a virtual address is the word at the physical address it translates to.\<close>

definition mmio_write :: "machine \<Rightarrow> u32 \<Rightarrow> u32 \<Rightarrow> fault + machine" where
  "mmio_write m address v =
     bindE (translate m address) (\<lambda>p. Inr (m\<lparr>mvm := write_word (mvm m) (PHYS2VIRT p) v\<rparr>))"

definition mmio_read :: "machine \<Rightarrow> u32 \<Rightarrow> fault + u32" where
  "mmio_read m address = bindE (translate m address) (\<lambda>p. Inr (read_word (mvm m) (PHYS2VIRT p)))"

definition WARN :: "machine \<Rightarrow> string \<Rightarrow> varg list \<Rightarrow> fault + machine" where
  "WARN m fmt args =
     bindE (kprint m (cstr_obj (esc # ascii ''[38;5;208m[WARN] '' @ ascii fmt @ esc # ascii ''[0m'' @ [0x0A])) 0 args) (\<lambda>(_, m).
     Inr m)"

subsection \<open>The vector table\<close>

definition HIGH_VECTOR_LOCATION :: u32 where "HIGH_VECTOR_LOCATION = 0xFFFF0000"

text \<open>\<open>ldr pc, [pc, #0x18]\<close>\<close>

definition BRANCH_INSTRUCTION :: u32 where "BRANCH_INSTRUCTION = 0xe59ff018"

text \<open>The handlers in the order of their vectors; their addresses are an argument, for the linker decides them.\<close>

datatype handler =
    Reset_handler
  | Undef_instruction_handler
  | Software_interrupt_handler
  | Prefetch_abort_handler
  | Data_abort_handler
  | Reserved_handler
  | Irq_handler
  | Fiq_handler

definition vector_order :: "handler list" where
  "vector_order = [Reset_handler, Undef_instruction_handler, Software_interrupt_handler, Prefetch_abort_handler,
     Data_abort_handler, Reserved_handler, Irq_handler, Fiq_handler]"

primrec mmio_writes :: "machine \<Rightarrow> u32 \<Rightarrow> u32 list \<Rightarrow> fault + machine" where
  "mmio_writes m address [] = Inr m"
| "mmio_writes m address (v # vs) = bindE (mmio_write m address v) (\<lambda>m. mmio_writes m (address + 4) vs)"

definition init_vector_table :: "(handler \<Rightarrow> u32) \<Rightarrow> machine \<Rightarrow> fault + machine" where
  "init_vector_table address m =
     bindE (vm2_allocate_page (mvm m) kernell1PageTable HIGH_VECTOR_LOCATION False
              \<lparr>access = KernelRW, executable = True\<rparr> None) (\<lambda>(_, _, s).
     bindE (mmio_writes (m\<lparr>mvm := s\<rparr>) HIGH_VECTOR_LOCATION (replicate 8 BRANCH_INSTRUCTION)) (\<lambda>m.
     bindE (mmio_writes m (HIGH_VECTOR_LOCATION + 0x20) (map address vector_order)) (\<lambda>m.
     Inr (m\<lparr>sctlr := sctlr m OR push_bit 13 1\<rparr>))))"

subsection \<open>Masking interrupts\<close>

text \<open>Bits 7 and 6 of \<open>CPSR\<close> mask \<open>IRQ\<close> and \<open>FIQ\<close>; \<open>cpsid\<close> sets them, \<open>cpsie\<close> clears them.\<close>

definition IRQ :: u32 where "IRQ = 0"
definition FIQ :: u32 where "FIQ = 1"
definition BOTH :: u32 where "BOTH = 2"

definition interrupt_bits :: "u32 \<Rightarrow> u32 option" where
  "interrupt_bits which =
     (if which = IRQ then Some 0x80 else if which = FIQ then Some 0x40 else if which = BOTH then Some 0xC0 else None)"

definition enable_interrupt :: "machine \<Rightarrow> u32 \<Rightarrow> fault + machine" where
  "enable_interrupt m which =
     (case interrupt_bits which of
        Some b \<Rightarrow> Inr (m\<lparr>cpsr := cpsr m AND NOT b\<rparr>)
      | None \<Rightarrow> WARN m ''invalid interrupt mask'' [])"

definition disable_interrupt :: "machine \<Rightarrow> u32 \<Rightarrow> fault + machine" where
  "disable_interrupt m which =
     (case interrupt_bits which of
        Some b \<Rightarrow> Inr (m\<lparr>cpsr := cpsr m OR b\<rparr>)
      | None \<Rightarrow> WARN m ''invalid interrupt mask'' [])"

definition get_proc_status :: "machine \<Rightarrow> u32" where
  "get_proc_status m = cpsr m"

definition disable_interrupt_save :: "machine \<Rightarrow> u32 \<Rightarrow> fault + (u32 \<times> machine)" where
  "disable_interrupt_save m which =
     (let saved = cpsr m in
      bindE (case interrupt_bits which of
               Some b \<Rightarrow> Inr (m\<lparr>cpsr := cpsr m OR b\<rparr>)
             | None \<Rightarrow> WARN m ''invalid interrupt mask'' []) (\<lambda>m.
      Inr (saved, m)))"

text \<open>\<open>msr cpsr_c\<close> writes the lowest byte.\<close>

definition restore_proc_status :: "machine \<Rightarrow> u32 \<Rightarrow> machine" where
  "restore_proc_status m saved = m\<lparr>cpsr := (cpsr m AND NOT 0xFF) OR (saved AND 0xFF)\<rparr>"

subsection \<open>System calls\<close>

definition SYSCALL_CREATE :: u32 where "SYSCALL_CREATE = 0"
definition SYSCALL_DELETE :: u32 where "SYSCALL_DELETE = 2"
definition SYSCALL_OPEN :: u32 where "SYSCALL_OPEN = 3"
definition SYSCALL_READ :: u32 where "SYSCALL_READ = 4"
definition SYSCALL_WRITE :: u32 where "SYSCALL_WRITE = 5"
definition SYSCALL_CLOSE :: u32 where "SYSCALL_CLOSE = 6"
definition SYSCALL_SET_PERM :: u32 where "SYSCALL_SET_PERM = 7"
definition SYSCALL_MEM_MAP :: u32 where "SYSCALL_MEM_MAP = 8"
definition SYSCALL_SEEK :: u32 where "SYSCALL_SEEK = 9"
definition SYSCALL_MKDIR :: u32 where "SYSCALL_MKDIR = 10"
definition SYSCALL_COPY :: u32 where "SYSCALL_COPY = 11"
definition SYSCALL_LS :: u32 where "SYSCALL_LS = 12"
definition SYSCALL_PRINTF :: u32 where "SYSCALL_PRINTF = 16"
definition SYSCALL_DUMMY :: u32 where "SYSCALL_DUMMY = 99"
definition SYSCALL_EXIT :: u32 where "SYSCALL_EXIT = 100"

lemmas syscall_defs = SYSCALL_CREATE_def SYSCALL_DELETE_def SYSCALL_OPEN_def SYSCALL_READ_def SYSCALL_WRITE_def
  SYSCALL_CLOSE_def SYSCALL_SET_PERM_def SYSCALL_MEM_MAP_def SYSCALL_SEEK_def SYSCALL_MKDIR_def SYSCALL_COPY_def
  SYSCALL_LS_def SYSCALL_PRINTF_def SYSCALL_DUMMY_def SYSCALL_EXIT_def

text \<open>\<open>kprintf\<close> of a literal.\<close>

definition say :: "machine \<Rightarrow> string \<Rightarrow> varg list \<Rightarrow> fault + machine" where
  "say m str args = bindE (kprint m (cstr_obj (ascii str)) 0 args) (\<lambda>(_, m). Inr m)"

primrec say_all :: "machine \<Rightarrow> (string \<times> varg list) list \<Rightarrow> fault + machine" where
  "say_all m [] = Inr m"
| "say_all m (x # xs) = bindE (say m (fst x) (snd x)) (\<lambda>m. say_all m xs)"

definition nl :: string where "nl = [CHR 0x0A]"

text \<open>
  What each call prints before it returns. The file system calls are disabled.
\<close>

definition syscall_messages :: "u32 \<Rightarrow> string list" where
  "syscall_messages callNumber =
     (if callNumber = SYSCALL_CREATE then [''Create system call called!'' @ nl]
      else if callNumber = SYSCALL_DELETE then [''Delete system call called!'' @ nl]
      else if callNumber = SYSCALL_OPEN then [''Open system call called!'' @ nl]
      else if callNumber = SYSCALL_MKDIR then [''Mkdir system call called!'' @ nl]
      else if callNumber = SYSCALL_READ then [''Read system call called!'' @ nl]
      else if callNumber = SYSCALL_WRITE then [''Write system call called!'' @ nl]
      else if callNumber = SYSCALL_CLOSE then [''Close system call called!'' @ nl]
      else if callNumber = SYSCALL_SEEK then [''Seek system call called!'' @ nl]
      else if callNumber = SYSCALL_COPY then [''Copy system call called!'' @ nl]
      else if callNumber = SYSCALL_LS then [''Ls system call called!'' @ nl]
      else if callNumber = SYSCALL_SET_PERM
      then [''Set permission system call called!'' @ nl, ''Yet to be implemented'' @ nl]
      else if callNumber = SYSCALL_MEM_MAP then [''Memory map system call called!'' @ nl, ''Yet to be implemented'' @ nl]
      else [''That wasn't a syscall you knob!'' @ nl])"

text \<open>
  The handler. \<open>user\<close> gives the object and offset an address of the caller points to, \<open>stack\<close> what \<open>va_arg\<close> finds when the caller's
  string asks for arguments: \<open>SYSCALL_PRINTF\<close> hands the string to \<open>kprintf\<close> as the format, unchecked. The result is what the C
  function returns. It is declared \<open>__attribute__((interrupt("SWI")))\<close>, so it leaves by an epilogue that restores \<open>r0\<close> to \<open>r3\<close>:
  the caller does not see the result, which is the matter of \<open>svc\<close> in the theory \<open>User_Syscalls\<close>.
\<close>

definition software_interrupt_handler ::
    "(u32 \<Rightarrow> u8 kptr \<times> nat) \<Rightarrow> varg list \<Rightarrow> machine \<Rightarrow> u32 \<Rightarrow> u32 \<Rightarrow> u32 \<Rightarrow> u32 \<Rightarrow> u32 \<Rightarrow> fault + (u32 \<times> machine)" where
  "software_interrupt_handler user stack m callNumber r0 r1 r2 r3 =
     bindE (say_all m
       [(''SOFTWARE INTERRUPT HANDLER'' @ nl, []), (''Syscall #: '', []), (''%d'' @ nl, [VInt callNumber]),
        (''arg0=%d'' @ nl, [VInt r0]), (''arg1=%d'' @ nl, [VInt r1]), (''arg2=%d'' @ nl, [VInt r2]),
        (''arg3=%d'' @ nl, [VInt r3]), (nl, [])]) (\<lambda>m.
     if callNumber = SYSCALL_EXIT then Inl Diverges
     else if callNumber = SYSCALL_DUMMY then Inr (0, m)
     else if callNumber = SYSCALL_PRINTF
     then
       bindE (say m (''Printf system call called!'' @ nl) []) (\<lambda>m.
       bindE (case user r0 of (str, off) \<Rightarrow> kprint m str off stack) (\<lambda>(_, m).
       Inr (0, m)))
     else
       bindE (say_all m (map (\<lambda>s. (s, [])) (syscall_messages callNumber))) (\<lambda>m.
       Inr (- 1, m)))"

subsection \<open>The other handlers\<close>

definition undef_copro :: "u32 \<Rightarrow> u32" where
  "undef_copro instr = drop_bit 24 (instr AND 0xf00000)"

text \<open>\<open>kbase\<close> and \<open>ktop\<close> are the linker's \<open>__KERNEL_BASE\<close> and \<open>__KERNEL_TOP\<close>. The handler ends in \<open>FATAL\<close>.\<close>

definition undef_instruction_handler :: "u32 \<Rightarrow> u32 \<Rightarrow> machine \<Rightarrow> u32 \<Rightarrow> u32 \<Rightarrow> fault + machine" where
  "undef_instruction_handler kbase ktop m spsr lr =
     (let thumb = spsr AND 0x20;
          pc = (if thumb \<noteq> 0 then lr - 2 else lr - 4) in
      bindE (WARN m ''UNDEFINED INSTRUCTION HANDLER'' []) (\<lambda>m.
      bindE (mmio_read m pc) (\<lambda>instr.
      let copro = undef_copro instr in
      bindE (WARN m (if spsr AND 0x20 \<noteq> 0 then ''THUMB mode'' else ''ARM mode'') []) (\<lambda>m.
      bindE (if spsr AND 0x1000000 \<noteq> 0 then WARN m ''JAZELLE enabled'' [] else Inr m) (\<lambda>m.
      bindE (WARN m ''COPRO: 0x%x'' [VInt copro]) (\<lambda>m.
      bindE (WARN m ''violating instruction (at 0x%x): 0x%x'' [VInt pc, VInt instr]) (\<lambda>m.
      bindE (if kbase \<le> pc \<and> pc < ktop then WARN m ''(instruction is in kernel address range)'' [] else Inr m) (\<lambda>m.
      FATAL m ''src/common/interrupt.c'' 76 ''UNDEFINED INSTRUCTION HANDLER'' []))))))))"

definition prefetch_abort_handler :: "machine \<Rightarrow> u32 \<Rightarrow> fault + machine" where
  "prefetch_abort_handler m lr =
     FATAL m ''src/common/interrupt.c'' 184 ''PREFETCH ABORT HANDLER, violating address: 0x%x'' [VInt (lr - 4)]"

definition data_abort_handler :: "machine \<Rightarrow> u32 \<Rightarrow> u32 \<Rightarrow> u32 \<Rightarrow> fault + machine" where
  "data_abort_handler m lr far dfsr =
     (let pc = lr - 8 in
      bindE (WARN m ''DATA ABORT HANDLER (Page Fault)'' []) (\<lambda>m.
      bindE (WARN m ''faulting address: 0x%x'' [VInt far]) (\<lambda>m.
      bindE (mmio_read m pc) (\<lambda>instr.
      bindE (WARN m ''violating instruction (at 0x%x): 0x%x'' [VInt pc, VInt instr]) (\<lambda>m.
      WARN m ''DFSR: 0x%x'' [VInt dfsr])))))"

text \<open>The interrupts go to the chipset; the state of its timers is beside the machine.\<close>

definition irq_handler ::
    "nat \<Rightarrow> grant \<Rightarrow> (ptr \<Rightarrow> timer_state \<Rightarrow> fault + timer_state) \<Rightarrow> u64 \<Rightarrow> u32 \<Rightarrow> machine \<Rightarrow> timer_state \<Rightarrow>
     fault + timer_state" where
  "irq_handler fuel g cb current_count pending m st =
     (case handle_irq (chipset m) of
        None \<Rightarrow> Inl NullDeref
      | Some Bcm2836_irq_handler \<Rightarrow> bcm2836_irq_handler fuel g cb current_count pending st
      | Some _ \<Rightarrow> Inl WrongMember)"

definition fiq_handler :: "machine \<Rightarrow> timer_state \<Rightarrow> fault + timer_state" where
  "fiq_handler m st =
     (case handle_fiq (chipset m) of
        None \<Rightarrow> Inl NullDeref
      | Some Bcm2836_fiq_handler \<Rightarrow> Inr (bcm2836_fiq_handler st)
      | Some _ \<Rightarrow> Inl WrongMember)"

subsection \<open>Properties of the masks\<close>

lemma control_byte: "(b :: u32) AND NOT f = 0 \<Longrightarrow> ((c OR b) AND NOT f) OR (c AND f) = c"
proof -
  assume "b AND NOT f = 0"
  then have "\<not> (bit b n \<and> \<not> bit f n)" if "n < 32" for n
    using that by (auto simp: bit_eq_iff bit_and_iff bit_not_iff)
  then show ?thesis by (intro bit_word_eqI) (auto simp: bit_and_iff bit_or_iff bit_not_iff)
qed

text \<open>
  \<^bold>\<open>Saving and restoring the masks.\<close> \<open>disable_interrupt_save\<close> masks the interrupts it is asked to, and no others, and
  \<open>restore_proc_status\<close> with its result gives the machine back as it was, whether or not they were masked before.
\<close>

theorem disable_save_restore:
  assumes "which \<in> {IRQ, FIQ, BOTH}"
  shows "\<exists>saved m'. disable_interrupt_save m which = Inr (saved, m') \<and>
    (bit (cpsr m') 7 \<longleftrightarrow> which \<noteq> FIQ \<or> bit (cpsr m) 7) \<and> (bit (cpsr m') 6 \<longleftrightarrow> which \<noteq> IRQ \<or> bit (cpsr m) 6) \<and>
    restore_proc_status m' saved = m"
proof -
  obtain b where b: "interrupt_bits which = Some b" "b \<in> {0x80, 0x40, 0xC0}"
    "bit b 7 \<longleftrightarrow> which \<noteq> FIQ" "bit b 6 \<longleftrightarrow> which \<noteq> IRQ"
    using assms by (auto simp: interrupt_bits_def IRQ_def FIQ_def BOTH_def bit_numeral_rec)
  have "b AND NOT 0xFF = 0" using b(2) by auto
  then have "((cpsr m OR b) AND NOT 0xFF) OR (cpsr m AND 0xFF) = cpsr m" by (rule control_byte)
  then show ?thesis using b(1,3,4) by (auto simp: disable_interrupt_save_def restore_proc_status_def bit_or_iff)
qed

theorem disable_save_restore_witness:
  "\<exists>saved m'. disable_interrupt_save demo_machine BOTH = Inr (saved, m') \<and>
    (bit (cpsr m') 7 \<longleftrightarrow> BOTH \<noteq> FIQ \<or> bit (cpsr demo_machine) 7) \<and> (bit (cpsr m') 6 \<longleftrightarrow> BOTH \<noteq> IRQ \<or> bit (cpsr demo_machine) 6) \<and>
    restore_proc_status m' saved = demo_machine"
  by (rule disable_save_restore) simp

subsection \<open>What a system call prints and returns\<close>

text \<open>The machine after \<open>out\<close> was sent to the UART.\<close>

definition uart_ready :: "machine \<Rightarrow> bool" where
  "uart_ready m \<longleftrightarrow> uart_putc (chipset m) = Some Bcm2836_uart_putc \<and> translate m (uart_address m 0) = Inr 0x3F201000"

definition sent :: "machine \<Rightarrow> u8 list \<Rightarrow> machine" where
  "sent m out = m\<lparr>device_writes := device_writes m @ map (\<lambda>c. (0x3F201000, ucast c)) out\<rparr>"

lemma sent_sent [simp]: "sent (sent m xs) ys = sent m (xs @ ys)"
  by (simp add: sent_def)

lemma uart_ready_sent [simp]: "uart_ready (sent m xs) = uart_ready m"
  by (simp add: uart_ready_def sent_def translate_def)

lemma bcm2836_uart_ready: "unat (mmio_current_top (mvm m)) mod 1048576 = 0 \<Longrightarrow> uart_ready (bcm2836_init m)"
  using uart_translate [of m 0] by (simp add: uart_ready_def bcm2836_init_fields)

lemma putc_all_sent: "uart_ready m \<Longrightarrow> putc_all m cs = Inr (sent m cs)"
proof (induction cs arbitrary: m)
  case Nil
  show ?case by (simp add: sent_def)
next
  case (Cons c cs)
  then have "chipset_uart_putc m c 0 = Inr (sent m [c])"
    by (simp add: uart_ready_def chipset_uart_putc_def bcm2836_uart_putc_def uart_write_byte_def device_store_def sent_def)
  then show ?case using Cons by simp
qed

lemma kprint_sent:
  assumes "uart_ready m" and "format 0 fs fargs = Some out" and "cstr str s fs" and "list_all2 arg_ok args fargs"
    and "0 \<notin> set out" and "length out \<le> 254"
  shows "\<exists>n. kprint m str s args = Inr (n, sent m out)"
proof -
  have "\<forall>c \<in> set out. c \<noteq> 0" using assms(5) by blast
  then have "takeWhile (\<lambda>c. c \<noteq> 0) (take 254 out) = out" using assms(6) by simp
  then show ?thesis unfolding kprint_def kprintf_format [OF assms(2-4)] by (simp add: putc_all_sent [OF assms(1)])
qed

lemma say_sent:
  assumes "uart_ready m" and "format 0 (ascii str) fargs = Some out" and "list_all2 arg_ok args fargs"
    and "0 \<notin> set (ascii str)" and "length str \<le> 254" and "0 \<notin> set out" and "length out \<le> 254"
  shows "say m str args = Inr (sent m out)"
proof -
  have "cstr (cstr_obj (ascii str)) 0 (ascii str)" using assms(4,5) by (intro cstr_obj_cstr) (simp_all add: ascii_def)
  from kprint_sent [OF assms(1,2) this assms(3,6,7)] show ?thesis by (auto simp: say_def)
qed

lemma format_plain: "percent \<notin> set xs \<Longrightarrow> format pc xs args = Some xs"
  by (induction xs) (simp_all add: format.simps)

lemma say_plain:
  "uart_ready m \<Longrightarrow> percent \<notin> set (ascii str) \<Longrightarrow> 0 \<notin> set (ascii str) \<Longrightarrow> length str \<le> 254 \<Longrightarrow>
   say m str [] = Inr (sent m (ascii str))"
  by (rule say_sent [OF _ format_plain]) (simp_all add: ascii_def)

text \<open>\<open>%d\<close>\<close>

definition decimal :: "u32 \<Rightarrow> u8 list" where
  "decimal v = int_text v 10 False (- 1) 0 False"

lemma say_number:
  assumes "uart_ready m" and "percent \<notin> set (ascii str)" and "0 \<notin> set (ascii str)" and "length str \<le> 100"
  shows "say m (str @ ''%d'' @ nl) [VInt v] = Inr (sent m (ascii str @ decimal v @ [0x0A]))"
proof (rule say_sent [OF assms(1)])
  have "format 0 (xs @ ascii (''%d'' @ nl)) [FInt v] = Some (xs @ decimal v @ [0x0A])" if "percent \<notin> set xs" for xs
    using that
  proof (induction xs)
    case Nil
    show ?case by (simp add: ascii_def nl_def format.simps directive_def decimal_def)
  qed (simp add: format.simps)
  from this [OF assms(2)] show "format 0 (ascii (str @ ''%d'' @ nl)) [FInt v] = Some (ascii str @ decimal v @ [0x0A])"
    by (simp add: ascii_def)
  show "0 \<notin> set (ascii (str @ ''%d'' @ nl))" "0 \<notin> set (ascii str @ decimal v @ [0x0A])"
    using assms(3) int_text_nonzero [of v] by (simp_all add: ascii_def nl_def decimal_def)
  show "length (str @ ''%d'' @ nl) \<le> 254" "length (ascii str @ decimal v @ [0x0A]) \<le> 254"
    using assms(4) int_text_length [of v] by (simp_all add: ascii_def nl_def decimal_def)
qed simp

definition syscall_text :: "u32 \<Rightarrow> u32 \<Rightarrow> u32 \<Rightarrow> u32 \<Rightarrow> u32 \<Rightarrow> u8 list" where
  "syscall_text n r0 r1 r2 r3 =
     ascii (''SOFTWARE INTERRUPT HANDLER'' @ nl @ ''Syscall #: '') @ decimal n @ [0x0A] @
     ascii ''arg0='' @ decimal r0 @ [0x0A] @ ascii ''arg1='' @ decimal r1 @ [0x0A] @
     ascii ''arg2='' @ decimal r2 @ [0x0A] @ ascii ''arg3='' @ decimal r3 @ [0x0A] @ [0x0A]"

lemma syscall_prologue:
  assumes "uart_ready m"
  shows "say_all m
       [(''SOFTWARE INTERRUPT HANDLER'' @ nl, []), (''Syscall #: '', []), (''%d'' @ nl, [VInt n]),
        (''arg0=%d'' @ nl, [VInt r0]), (''arg1=%d'' @ nl, [VInt r1]), (''arg2=%d'' @ nl, [VInt r2]),
        (''arg3=%d'' @ nl, [VInt r3]), (nl, [])] = Inr (sent m (syscall_text n r0 r1 r2 r3))"
proof -
  have p: "say M (''SOFTWARE INTERRUPT HANDLER'' @ nl) [] = Inr (sent M (ascii (''SOFTWARE INTERRUPT HANDLER'' @ nl)))"
    "say M ''Syscall #: '' [] = Inr (sent M (ascii ''Syscall #: ''))" "say M nl [] = Inr (sent M [0x0A])" if "uart_ready M" for M
    using say_plain [OF that, of "''SOFTWARE INTERRUPT HANDLER'' @ nl"] say_plain [OF that, of "''Syscall #: ''"]
      say_plain [OF that, of nl] by (simp_all add: ascii_def nl_def)
  have d: "say M (''%d'' @ nl) [VInt v] = Inr (sent M (decimal v @ [0x0A]))"
    "say M (''arg0=%d'' @ nl) [VInt v] = Inr (sent M (ascii ''arg0='' @ decimal v @ [0x0A]))"
    "say M (''arg1=%d'' @ nl) [VInt v] = Inr (sent M (ascii ''arg1='' @ decimal v @ [0x0A]))"
    "say M (''arg2=%d'' @ nl) [VInt v] = Inr (sent M (ascii ''arg2='' @ decimal v @ [0x0A]))"
    "say M (''arg3=%d'' @ nl) [VInt v] = Inr (sent M (ascii ''arg3='' @ decimal v @ [0x0A]))" if "uart_ready M" for M v
    using say_number [OF that, of "[]" v] say_number [OF that, of "''arg0=''" v] say_number [OF that, of "''arg1=''" v]
      say_number [OF that, of "''arg2=''" v] say_number [OF that, of "''arg3=''" v] by (simp_all add: ascii_def)
  show ?thesis
    by (simp only: say_all.simps fst_conv snd_conv p d assms uart_ready_sent bindE.simps sent_sent)
       (simp add: syscall_text_def ascii_def)
qed

lemma syscall_messages_plain:
  "s \<in> set (syscall_messages n) \<Longrightarrow> percent \<notin> set (ascii s) \<and> 0 \<notin> set (ascii s) \<and> length s \<le> 254"
  by (auto simp: syscall_messages_def ascii_def nl_def split: if_splits)

lemma say_messages:
  "uart_ready m \<Longrightarrow> (\<And>s. s \<in> set ss \<Longrightarrow> percent \<notin> set (ascii s) \<and> 0 \<notin> set (ascii s) \<and> length s \<le> 254) \<Longrightarrow>
   say_all m (map (\<lambda>s. (s, [])) ss) = Inr (sent m (concat (map ascii ss)))"
proof (induction ss arbitrary: m)
  case Nil
  show ?case by (simp add: sent_def)
next
  case (Cons s ss)
  then have "say m s [] = Inr (sent m (ascii s))" by (intro say_plain) auto
  then show ?case using Cons by simp
qed

lemma handle_syscall:
  assumes "uart_ready m"
  shows "software_interrupt_handler user stack m n r0 r1 r2 r3 =
    (if n = SYSCALL_EXIT then Inl Diverges
     else if n = SYSCALL_DUMMY then Inr (0, sent m (syscall_text n r0 r1 r2 r3))
     else if n = SYSCALL_PRINTF
     then bindE (kprint (sent m (syscall_text n r0 r1 r2 r3 @ ascii (''Printf system call called!'' @ nl))) (fst (user r0)) (snd (user r0)) stack)
            (\<lambda>(_, m). Inr (0, m))
     else Inr (- 1, sent m (syscall_text n r0 r1 r2 r3 @ concat (map ascii (syscall_messages n)))))"
proof -
  define T where "T = syscall_text n r0 r1 r2 r3"
  define M where "M = syscall_messages n"
  have r: "uart_ready (sent m T)" using assms by simp
  have p: "say (sent m T) (''Printf system call called!'' @ nl) [] = Inr (sent m (T @ ascii (''Printf system call called!'' @ nl)))"
    unfolding sent_sent [symmetric] by (rule say_plain [OF r]) (simp_all add: ascii_def nl_def)
  have "say_all (sent m T) (map (\<lambda>s. (s, [])) M) = Inr (sent (sent m T) (concat (map ascii M)))"
    using syscall_messages_plain unfolding M_def by (rule say_messages [OF r])
  then have q: "say_all (sent m T) (map (\<lambda>s. (s, [])) M) = Inr (sent m (T @ concat (map ascii M)))" by simp
  show ?thesis
    unfolding software_interrupt_handler_def syscall_prologue [OF assms] bindE.simps T_def [symmetric] M_def [symmetric] p q
    by (simp only: case_prod_beta)
qed

lemma handle_printf:
  assumes ready: "uart_ready m" and str: "cstr (fst (user r0)) (snd (user r0)) fs"
    and out: "format 0 fs fargs = Some out" and args: "list_all2 arg_ok stack fargs"
  shows "software_interrupt_handler user stack m 16 r0 r1 r2 r3 =
    Inr (0, sent m (syscall_text 16 r0 r1 r2 r3 @ ascii (''Printf system call called!'' @ nl) @ takeWhile (\<lambda>c. c \<noteq> 0) (take 254 out)))"
proof -
  let ?M = "sent m (syscall_text 16 r0 r1 r2 r3 @ ascii (''Printf system call called!'' @ nl))"
  have "uart_ready ?M" using ready by simp
  from kprintf_format [OF out str args] putc_all_sent [OF this] show ?thesis
    by (simp add: handle_syscall [OF ready] syscall_defs kprint_def)
qed

text \<open>
  (C37) \<^bold>\<open>System calls.\<close> With the UART in place, every call first prints its number and arguments. Call 100 (exit) then
  never returns; call 99 returns 0; each of the file system calls, and the calls 7 and 8, prints its own message and returns \<open>-1\<close>; call 16
  prints the caller's string, which it takes as a format with whatever lies on the stack as its arguments, cut to
  254 characters and at the first zero, and returns 0; any other number prints a message and returns \<open>-1\<close>. Nothing else of the
  machine changes.
\<close>

theorem syscall_dispatch:
  assumes "uart_ready m"
  shows "let run = \<lambda>n. software_interrupt_handler user stack m n r0 r1 r2 r3;
      said = \<lambda>n text. sent m (syscall_text n r0 r1 r2 r3 @ ascii text) in
    run 100 = Inl Diverges \<and> run 99 = Inr (0, said 99 []) \<and>
    run 0 = Inr (- 1, said 0 (''Create system call called!'' @ nl)) \<and>
    run 2 = Inr (- 1, said 2 (''Delete system call called!'' @ nl)) \<and>
    run 3 = Inr (- 1, said 3 (''Open system call called!'' @ nl)) \<and>
    run 4 = Inr (- 1, said 4 (''Read system call called!'' @ nl)) \<and>
    run 5 = Inr (- 1, said 5 (''Write system call called!'' @ nl)) \<and>
    run 6 = Inr (- 1, said 6 (''Close system call called!'' @ nl)) \<and>
    run 7 = Inr (- 1, said 7 (''Set permission system call called!'' @ nl @ ''Yet to be implemented'' @ nl)) \<and>
    run 8 = Inr (- 1, said 8 (''Memory map system call called!'' @ nl @ ''Yet to be implemented'' @ nl)) \<and>
    run 9 = Inr (- 1, said 9 (''Seek system call called!'' @ nl)) \<and>
    run 10 = Inr (- 1, said 10 (''Mkdir system call called!'' @ nl)) \<and>
    run 11 = Inr (- 1, said 11 (''Copy system call called!'' @ nl)) \<and>
    run 12 = Inr (- 1, said 12 (''Ls system call called!'' @ nl)) \<and>
    (\<forall>fs fargs out. cstr (fst (user r0)) (snd (user r0)) fs \<and> format 0 fs fargs = Some out \<and> list_all2 arg_ok stack fargs \<longrightarrow>
       run 16 = Inr (0, sent m (syscall_text 16 r0 r1 r2 r3 @ ascii (''Printf system call called!'' @ nl) @
         takeWhile (\<lambda>c. c \<noteq> 0) (take 254 out)))) \<and>
    (\<forall>n. n \<notin> {0, 2, 3, 4, 5, 6, 7, 8, 9, 10, 11, 12, 16, 99, 100} \<longrightarrow>
       run n = Inr (- 1, said n (''That wasn't a syscall you knob!'' @ nl)))"
  unfolding Let_def
  by (intro conjI allI impI; (elim conjE)?; (rule handle_printf [OF assms]; assumption)?)
     (simp_all add: handle_syscall [OF assms] syscall_defs syscall_messages_def ascii_def)

lemma demo_uart_ready: "uart_ready (bcm2836_init demo_machine)"
  by (rule bcm2836_uart_ready) (simp add: demo_machine_def demo_vm_def KERNEL_MMIO_BASE_def Gibibyte_def Mebibyte_eq)

theorem syscall_dispatch_witness:
  "let m = bcm2836_init demo_machine in
   software_interrupt_handler (\<lambda>_. (cstr_obj (ascii ''hello''), 0)) [] m 16 1 2 3 4 =
     Inr (0, sent m (syscall_text 16 1 2 3 4 @ ascii (''Printf system call called!'' @ nl) @ ascii ''hello'')) \<and>
   software_interrupt_handler (\<lambda>_. (cstr_obj (ascii ''hello''), 0)) [] m 5 1 2 3 4 =
     Inr (- 1, sent m (syscall_text 5 1 2 3 4 @ ascii (''Write system call called!'' @ nl)))"
proof -
  have "cstr (cstr_obj (ascii ''hello'')) 0 (ascii ''hello'')" by (intro cstr_obj_cstr) (simp_all add: ascii_def)
  moreover have "format 0 (ascii ''hello'') [] = Some (ascii ''hello'')" by (rule format_plain) (simp add: ascii_def)
  moreover have "takeWhile (\<lambda>c. c \<noteq> 0) (take 254 (ascii ''hello'')) = ascii ''hello''" by (simp add: ascii_def)
  ultimately show ?thesis
    using syscall_dispatch [OF demo_uart_ready, of "\<lambda>_. (cstr_obj (ascii ''hello''), 0)" "[]" 1 2 3 4]
    unfolding Let_def by fastforce
qed

text \<open>The number of the coprocessor that \<open>undef_instruction_handler\<close> prints is 0 for every instruction: the shift is too long.\<close>

lemma undef_copro_zero: "undef_copro instr = 0"
proof -
  have m: "(0xf00000 :: u32) = push_bit 20 (mask 4)" by (simp add: mask_eq_exp_minus_1 push_bit_eq_mult)
  have "\<not> bit (undef_copro instr) n" for n
    unfolding undef_copro_def m by (simp add: bit_drop_bit_eq bit_and_iff bit_push_bit_iff bit_mask_iff)
  then show ?thesis by (metis bit_0_eq bit_eqI bot_apply bot_bool_def)
qed

subsection \<open>The page of the vectors\<close>

text \<open>Accesses to a mapped page, of which \<open>page + k\<close> is word \<open>k\<close>.\<close>

lemma maps_page_translate:
  assumes "maps_page (words (pmm (mvm m))) v page" and "unat v mod 4096 = 0" and "k < 4096"
  shows "translate m (v + of_nat k) = Inr (VIRT2PHYS page + of_nat k)"
proof -
  let ?m = "words (pmm (mvm m))"
  have k: "unat (of_nat k :: u32) = k" using assms(3) by (intro unat_of_nat_u32) simp
  have off: "p + of_nat k = p OR of_nat k" "take_bit 12 (p + of_nat k) = (of_nat k :: u32)" "drop_bit 12 (p + of_nat k) = drop_bit 12 p"
    if "unat p mod 4096 = 0" for p :: u32
  proof -
    have tp: "take_bit 12 p = 0"
      using that by (simp add: word_unat_eq_iff unsigned_take_bit_eq take_bit_nat_def)
    have tk: "take_bit 12 (of_nat k :: u32) = of_nat k"
      using assms(3) by (simp add: word_unat_eq_iff unsigned_take_bit_eq take_bit_nat_def k)
    have dis: "\<not> bit p n \<or> \<not> bit (of_nat k :: u32) n" for n
      using tp tk by (metis bit_0_eq bit_take_bit_iff bot_apply bot_bool_def)
    show or_eq: "p + of_nat k = p OR of_nat k" using dis by (intro disjunctive_add) auto
    show "take_bit 12 (p + of_nat k) = (of_nat k :: u32)" unfolding or_eq by (simp add: take_bit_or tp tk)
    have "drop_bit 12 (of_nat k :: u32) = 0" using assms(3) by (simp add: word_unat_eq_iff unat_drop_bit k)
    then show "drop_bit 12 (p + of_nat k) = drop_bit 12 p" unfolding or_eq by simp
  qed
  have idx: "l1pt_index (v + of_nat k) = l1pt_index v" "l2pt_index (v + of_nat k) = l2pt_index v"
    using off(3) [OF assms(2)] same_page_iff by blast+
  have slots: "l1_slot ?m kernell1PageTable (v + of_nat k) = l1_slot ?m kernell1PageTable v"
    "l2_slot ?m t (v + of_nat k) = l2_slot ?m t v" for t by (simp_all add: l1_slot_def l2_slot_def idx)
  let ?d = "l2_slot ?m (l2_table (l1_slot ?m kernell1PageTable v)) v"
  note P = assms(1) [unfolded maps_page_def Let_def]
  have pg: "unat (VIRT2PHYS page) mod 4096 = 0" using P virt2phys_mod [of 4096 page] by simp
  have "walk ?m kernell1PageTable (v + of_nat k) = Some (VIRT2PHYS page OR of_nat k, ?d)"
    using P off(2) [OF assms(2)] by (auto simp: walk_def Let_def slots walk_l2_def)
  then show ?thesis by (simp add: translate_def off(1) [OF pg])
qed

lemma PHYS2VIRT_add: "PHYS2VIRT (VIRT2PHYS p + x) = p + x"
  by (simp add: PHYS2VIRT_def VIRT2PHYS_def)

lemma in_page: "k < 4096 \<Longrightarrow> page + of_nat k \<in> footprint (Page, page)"
  by (simp add: footprint_def usize_def unat_of_nat_u32)

text \<open>The words of a page.\<close>

definition page_word :: "machine \<Rightarrow> ptr \<Rightarrow> nat \<Rightarrow> u32" where
  "page_word m page k = words (pmm (mvm m)) (page + of_nat k)"

lemma mmio_read_page:
  "maps_page (words (pmm (mvm m))) v page \<Longrightarrow> unat v mod 4096 = 0 \<Longrightarrow> k < 4096 \<Longrightarrow>
   mmio_read m (v + of_nat k) = Inr (page_word m page k)"
  by (simp add: mmio_read_def maps_page_translate PHYS2VIRT_add page_word_def read_word_def)

lemma page_offset_inj: "j < 4096 \<Longrightarrow> k < 4096 \<Longrightarrow> page + of_nat j = page + (of_nat k :: u32) \<longleftrightarrow> j = k"
proof
  assume "j < 4096" "k < 4096" "page + of_nat j = page + (of_nat k :: u32)"
  then have "unat (of_nat j :: u32) = unat (of_nat k :: u32)" by simp
  then show "j = k" using \<open>j < 4096\<close> \<open>k < 4096\<close> unat_of_nat_u32 [of j] unat_of_nat_u32 [of k] by simp
qed simp

lemma mmio_writes_page:
  assumes "maps_page (words (pmm (mvm m))) v page" and "unat v mod 4096 = 0" and "k + 4 * length vs \<le> 4096"
  shows "\<exists>s. mmio_writes m (v + of_nat k) vs = Inr (m\<lparr>mvm := s\<rparr>) \<and> maps_page (words (pmm s)) v page \<and> page_written page (mvm m) s \<and>
    (\<forall>i < length vs. page_word (m\<lparr>mvm := s\<rparr>) page (k + 4 * i) = vs ! i) \<and>
    (\<forall>j < 4096. (\<forall>i < length vs. j \<noteq> k + 4 * i) \<longrightarrow> page_word (m\<lparr>mvm := s\<rparr>) page j = page_word m page j)"
  using assms
proof (induction vs arbitrary: m k)
  case Nil
  then show ?case by (intro exI [of _ "mvm m"]) (simp add: page_written_refl)
next
  case (Cons x xs)
  have k: "k < 4096" "k + 4 + 4 * length xs \<le> 4096" using Cons.prems(3) by simp_all
  let ?a = "page + of_nat k"
  define m1 where "m1 = m\<lparr>mvm := write_word (mvm m) ?a x\<rparr>"
  have w: "words (pmm (mvm m1)) = (words (pmm (mvm m)))(?a := x)" by (simp add: m1_def write_word_def)
  have step: "mmio_write m (v + of_nat k) x = Inr m1"
    by (simp add: mmio_write_def maps_page_translate [OF Cons.prems(1,2) k(1)] PHYS2VIRT_add m1_def)
  note P = Cons.prems(1) [unfolded maps_page_def Let_def]
  have "entry_address kernell1PageTable (l1pt_index v) \<noteq> ?a" using P in_page [OF k(1), of page] by auto
  then have l1: "l1_slot (words (pmm (mvm m1))) kernell1PageTable v = l1_slot (words (pmm (mvm m))) kernell1PageTable v"
    by (simp add: l1_slot_def w)
  have "entry_address (l2_table (l1_slot (words (pmm (mvm m))) kernell1PageTable v)) (ucast (l2pt_index v)) \<noteq> ?a"
    using P in_page [OF k(1), of page] by auto
  then have "maps_page (words (pmm (mvm m1))) v page"
    using P unfolding maps_page_def Let_def l1 by (simp add: l2_slot_def w)
  from Cons.IH [OF this Cons.prems(2) k(2)] obtain s where
    s: "mmio_writes m1 (v + of_nat (k + 4)) xs = Inr (m1\<lparr>mvm := s\<rparr>)" "maps_page (words (pmm s)) v page"
      "page_written page (mvm m1) s"
      "\<forall>i < length xs. page_word (m1\<lparr>mvm := s\<rparr>) page (k + 4 + 4 * i) = xs ! i"
      "\<forall>j < 4096. (\<forall>i < length xs. j \<noteq> k + 4 + 4 * i) \<longrightarrow> page_word (m1\<lparr>mvm := s\<rparr>) page j = page_word m1 page j"
    by blast
  have m1s: "m1\<lparr>mvm := s\<rparr> = m\<lparr>mvm := s\<rparr>" by (simp add: m1_def)
  have old: "page_word m1 page j = (if j = k then x else page_word m page j)" if "j < 4096" for j
    using page_offset_inj [OF that k(1)] by (simp add: page_word_def w)
  have "page_word (m\<lparr>mvm := s\<rparr>) page (k + 4 * i) = (x # xs) ! i" if "i < length (x # xs)" for i
  proof (cases i)
    case 0
    have "page_word (m1\<lparr>mvm := s\<rparr>) page k = page_word m1 page k" using s(5) k(1) by simp
    then show ?thesis using 0 old [OF k(1)] by (simp add: m1s)
  next
    case (Suc i')
    then show ?thesis using s(4) that by (simp add: m1s algebra_simps)
  qed
  moreover have "page_word (m\<lparr>mvm := s\<rparr>) page j = page_word m page j"
    if "j < 4096" "\<forall>i < length (x # xs). j \<noteq> k + 4 * i" for j
  proof -
    have "j \<noteq> k" using that(2) by auto
    moreover have "\<forall>i < length xs. j \<noteq> k + 4 + 4 * i"
    proof (intro allI impI)
      fix i assume "i < length xs"
      then show "j \<noteq> k + 4 + 4 * i" using that(2) [rule_format, of "Suc i"] by simp
    qed
    ultimately show ?thesis using s(5) that(1) old by (simp add: m1s)
  qed
  moreover have "mmio_writes m (v + of_nat k) (x # xs) = Inr (m\<lparr>mvm := s\<rparr>)"
    using s(1) by (simp add: step m1s algebra_simps)
  moreover have "page_written page (mvm m) s"
    using page_written_trans [OF page_written_word [OF in_page [OF k(1)]]] s(3) by (simp add: m1_def)
  ultimately show ?case using s(2) by blast
qed

text \<open>
  What the processor does on exception \<open>i\<close>: with bit 13 of its control register set it fetches an instruction from the high vectors.
  The instruction \<open>ldr pc, [pc, #offset]\<close> jumps to the word that many bytes after the second next instruction.
\<close>

definition exception_entry :: "machine \<Rightarrow> nat \<Rightarrow> fault + u32" where
  "exception_entry m i =
     (let vector = (if bit (sctlr m) 13 then 0xFFFF0000 else 0) + of_nat (4 * i) in
      bindE (mmio_read m vector) (\<lambda>instr.
      if instr AND 0xFFFFF000 = 0xE59FF000 then mmio_read m (vector + 8 + (instr AND 0xFFF)) else Inl WrongMember))"

text \<open>What \<open>init_vector_table\<close> sets up: the page of the vectors is mapped and holds the branches and the handlers' addresses.\<close>

definition vectors_ok :: "(handler \<Rightarrow> u32) \<Rightarrow> machine \<Rightarrow> unit_id set \<Rightarrow> bool" where
  "vectors_ok address m U \<longleftrightarrow> bit (sctlr m) 13 \<and>
     (\<exists>page. (Page, page) \<in> U \<and>
       (\<forall>k < 64. translate m (HIGH_VECTOR_LOCATION + of_nat k) = Inr (VIRT2PHYS page + of_nat k)) \<and>
       (\<forall>i < 8. page_word m page (4 * i) = BRANCH_INSTRUCTION \<and> page_word m page (32 + 4 * i) = address (vector_order ! i)))"

lemma vectors_ok_entry:
  assumes "vectors_ok address m U" and "i < 8"
  shows "exception_entry m i = Inr (address (vector_order ! i))"
proof -
  from assms(1) obtain page where high: "bit (sctlr m) 13"
    and tr: "\<And>k. k < 64 \<Longrightarrow> translate m (HIGH_VECTOR_LOCATION + of_nat k) = Inr (VIRT2PHYS page + of_nat k)"
    and pw: "\<And>i. i < 8 \<Longrightarrow> page_word m page (4 * i) = BRANCH_INSTRUCTION \<and> page_word m page (32 + 4 * i) = address (vector_order ! i)"
    unfolding vectors_ok_def by blast
  let ?V = HIGH_VECTOR_LOCATION
  have rd: "mmio_read m (?V + of_nat k) = Inr (page_word m page k)" if "k < 64" for k
    by (simp add: mmio_read_def tr [OF that] PHYS2VIRT_add page_word_def read_word_def)
  have r1: "mmio_read m (?V + of_nat (4 * i)) = Inr BRANCH_INSTRUCTION" using rd [of "4 * i"] pw [OF assms(2)] assms(2) by simp
  have r2: "mmio_read m (?V + of_nat (32 + 4 * i)) = Inr (address (vector_order ! i))"
    using rd [of "32 + 4 * i"] pw [OF assms(2)] assms(2) by simp
  have e: "?V + of_nat (4 * i) + 8 + (BRANCH_INSTRUCTION AND 0xFFF) = ?V + of_nat (32 + 4 * i)"
    by (simp add: BRANCH_INSTRUCTION_def)
  have "exception_entry m i = bindE (mmio_read m (?V + of_nat (4 * i))) (\<lambda>instr.
      if instr AND 0xFFFFF000 = 0xE59FF000 then mmio_read m (?V + of_nat (4 * i) + 8 + (instr AND 0xFFF)) else Inl WrongMember)"
    using high by (simp only: exception_entry_def Let_def HIGH_VECTOR_LOCATION_def if_True)
  also have "\<dots> = Inr (address (vector_order ! i))"
    unfolding r1 bindE.simps e r2 by (simp add: BRANCH_INSTRUCTION_def)
  finally show ?thesis .
qed

text \<open>Mapping other pages leaves the vectors as they are.\<close>

lemma vectors_ok_extends:
  assumes "vectors_ok address m U" and "extends E (mvm m) U s U'"
    and "\<And>k. k < 64 \<Longrightarrow> \<not> E (HIGH_VECTOR_LOCATION + of_nat k)" and "mvm m' = s" and "sctlr m' = sctlr m"
  shows "vectors_ok address m' U'"
proof -
  from assms(1) obtain page where high: "bit (sctlr m) 13" and p: "(Page, page) \<in> U"
    and tr: "\<And>k. k < 64 \<Longrightarrow> translate m (HIGH_VECTOR_LOCATION + of_nat k) = Inr (VIRT2PHYS page + of_nat k)"
    and pw: "\<And>i. i < 8 \<Longrightarrow> page_word m page (4 * i) = BRANCH_INSTRUCTION \<and> page_word m page (32 + 4 * i) = address (vector_order ! i)"
    unfolding vectors_ok_def by blast
  have "translate m' (HIGH_VECTOR_LOCATION + of_nat k) = Inr (VIRT2PHYS page + of_nat k)" if "k < 64" for k
    using tr [OF that] assms(2) assms(3) [OF that] by (simp add: translate_def extends_def assms(4))
  moreover have "page_word m' page j = page_word m page j" if "j < 4096" for j
  proof -
    have "words (pmm s) y = words (pmm (mvm m)) y" if "y \<in> footprint (Page, page)" for y
      using assms(2) p that unfolding extends_def by blast
    then show ?thesis using in_page [OF that] by (simp add: page_word_def assms(4))
  qed
  moreover have "(Page, page) \<in> U'" using assms(2) p by (auto simp: extends_def)
  ultimately show ?thesis using high pw unfolding vectors_ok_def assms(5) by (intro conjI exI [of _ page]) auto
qed

lemma init_vector_table_ok:
  assumes ok: "kernel_ok (mvm m) U (Suc (Suc n))" and free: "mappable (words (pmm (mvm m))) kernell1PageTable HIGH_VECTOR_LOCATION False"
  shows "\<exists>s U'. init_vector_table address m = Inr (m\<lparr>mvm := s, sctlr := sctlr m OR push_bit 13 1\<rparr>) \<and> kernel_ok s U' n \<and>
    extends (\<lambda>x. drop_bit 12 x = drop_bit 12 HIGH_VECTOR_LOCATION) (mvm m) U s U' \<and>
    vectors_ok address (m\<lparr>mvm := s, sctlr := sctlr m OR push_bit 13 1\<rparr>) U'"
proof -
  let ?V = HIGH_VECTOR_LOCATION
  let ?E = "\<lambda>x. drop_bit 12 x = drop_bit 12 ?V"
  from kernel_map [OF ok free, of "\<lparr>access = KernelRW, executable = True\<rparr>"] obtain page s0 U' where
    a: "vm2_allocate_page (mvm m) kernell1PageTable ?V False \<lparr>access = KernelRW, executable = True\<rparr> None = Inr (page, None, s0)"
      "(Page, page) \<in> U'" "(Page, page) \<notin> U" "maps_page (words (pmm s0)) ?V page" "kernel_ok s0 U' n" "extends ?E (mvm m) U s0 U'"
    by blast
  have al: "unat ?V mod 4096 = 0" by (simp add: HIGH_VECTOR_LOCATION_def)
  define m0 where "m0 = m\<lparr>mvm := s0\<rparr>"
  have "maps_page (words (pmm (mvm m0))) ?V page" using a(4) by (simp add: m0_def)
  from mmio_writes_page [OF this al, of 0 "replicate 8 BRANCH_INSTRUCTION"] obtain s1 where
    w1: "mmio_writes m0 ?V (replicate 8 BRANCH_INSTRUCTION) = Inr (m0\<lparr>mvm := s1\<rparr>)" "maps_page (words (pmm s1)) ?V page"
      "page_written page (mvm m0) s1" "\<forall>i < 8. page_word (m0\<lparr>mvm := s1\<rparr>) page (4 * i) = BRANCH_INSTRUCTION" by auto
  have len: "length vector_order = 8" by (simp add: vector_order_def)
  have "maps_page (words (pmm (mvm (m0\<lparr>mvm := s1\<rparr>)))) ?V page" using w1(2) by simp
  from mmio_writes_page [OF this al, of 32 "map address vector_order"] len obtain s where
    w2: "mmio_writes (m0\<lparr>mvm := s1\<rparr>) (?V + 0x20) (map address vector_order) = Inr (m0\<lparr>mvm := s\<rparr>)"
      "maps_page (words (pmm s)) ?V page" "page_written page s1 s"
      "\<forall>i < 8. page_word (m0\<lparr>mvm := s\<rparr>) page (32 + 4 * i) = address (vector_order ! i)"
      "\<forall>j < 4096. (\<forall>i < 8. j \<noteq> 32 + 4 * i) \<longrightarrow> page_word (m0\<lparr>mvm := s\<rparr>) page j = page_word (m0\<lparr>mvm := s1\<rparr>) page j"
    by auto
  define m' where "m' = m\<lparr>mvm := s, sctlr := sctlr m OR push_bit 13 1\<rparr>"
  have run: "init_vector_table address m = Inr m'"
    using a(1) w1(1) w2(1) by (simp add: init_vector_table_def m0_def m'_def)
  have wr: "page_written page s0 s" using page_written_trans [OF w1(3) w2(3)] by (simp add: m0_def)
  note pw = page_written_ok(1) [OF a(5,2) wr] page_written_ok(2) [OF a(5,2) wr, where E = ?E]
  have U: "U \<subseteq> U' - {(Page, page)}" using a(3,6) by (auto simp: extends_def)
  have ext: "extends ?E (mvm m) U s U'"
    by (rule extends_mono [OF extends_subset [OF a(6) pw(2) U]]) simp
  have pw': "page_word m' page j = page_word (m0\<lparr>mvm := s\<rparr>) page j" for j by (simp add: m'_def page_word_def)
  have "page_word m' page (4 * i) = BRANCH_INSTRUCTION" "page_word m' page (32 + 4 * i) = address (vector_order ! i)" if "i < 8" for i
    using w1(4) w2(4) w2(5) [rule_format, of "4 * i"] that by (simp_all add: pw')
  moreover have "translate m' (?V + of_nat k) = Inr (VIRT2PHYS page + of_nat k)" if "k < 64" for k
    using maps_page_translate [of m' ?V page k] w2(2) al that by (simp add: m'_def)
  ultimately have "vectors_ok address m' U'"
    unfolding vectors_ok_def using a(2) by (auto simp: m'_def bit_or_iff bit_push_bit_iff)
  with run pw(1) ext show ?thesis unfolding m'_def by blast
qed

lemma vectors_ok_entries:
  assumes "vectors_ok address m U"
  shows "exception_entry m 0 = Inr (address Reset_handler)" "exception_entry m 1 = Inr (address Undef_instruction_handler)"
    "exception_entry m 2 = Inr (address Software_interrupt_handler)" "exception_entry m 3 = Inr (address Prefetch_abort_handler)"
    "exception_entry m 4 = Inr (address Data_abort_handler)" "exception_entry m 5 = Inr (address Reserved_handler)"
    "exception_entry m 6 = Inr (address Irq_handler)" "exception_entry m 7 = Inr (address Fiq_handler)"
  using vectors_ok_entry [OF assms, of 0] vectors_ok_entry [OF assms, of 1] vectors_ok_entry [OF assms, of 2] vectors_ok_entry [OF assms, of 3]
    vectors_ok_entry [OF assms, of 4] vectors_ok_entry [OF assms, of 5] vectors_ok_entry [OF assms, of 6] vectors_ok_entry [OF assms, of 7]
  by (simp_all add: vector_order_def)

text \<open>
  (C31) \<^bold>\<open>The vectors lead to the handlers.\<close> While the kernel's table is in order, the vectors' page unmapped and two slices of memory
  are left, \<open>init_vector_table\<close> returns, and then each of the eight exceptions of the processor enters its own handler. The numbers are
  those of the architecture: 0 reset, 1 undefined instruction, 2 software interrupt, 3 prefetch abort, 4 data abort, 5 reserved,
  6 interrupt, 7 fast interrupt. For this the page allocated must be mapped at the high vectors, the branch
  instructions and the handlers' addresses in it lie 32 bytes apart, as the branch needs, and the processor use the high vectors.
\<close>

theorem vectors_lead_to_handlers:
  assumes "kernel_ok (mvm m) U 2" and "mappable (words (pmm (mvm m))) kernell1PageTable HIGH_VECTOR_LOCATION False"
  shows "\<exists>m'. init_vector_table address m = Inr m' \<and>
    exception_entry m' 0 = Inr (address Reset_handler) \<and> exception_entry m' 1 = Inr (address Undef_instruction_handler) \<and>
    exception_entry m' 2 = Inr (address Software_interrupt_handler) \<and> exception_entry m' 3 = Inr (address Prefetch_abort_handler) \<and>
    exception_entry m' 4 = Inr (address Data_abort_handler) \<and> exception_entry m' 5 = Inr (address Reserved_handler) \<and>
    exception_entry m' 6 = Inr (address Irq_handler) \<and> exception_entry m' 7 = Inr (address Fiq_handler)"
proof -
  have "kernel_ok (mvm m) U (Suc (Suc 0))" using assms(1) by (simp add: numeral_2_eq_2)
  from init_vector_table_ok [OF this assms(2), of address] obtain m' U' where
    "init_vector_table address m = Inr m'" "vectors_ok address m' U'" by blast
  then show ?thesis by (intro exI [of _ m']) (simp add: vectors_ok_entries del: One_nat_def)
qed

text \<open>Addresses for the handlers, one after the other.\<close>

primrec demo_address :: "handler \<Rightarrow> u32" where
  "demo_address Reset_handler = 0x80100000"
| "demo_address Undef_instruction_handler = 0x80100020"
| "demo_address Software_interrupt_handler = 0x80100200"
| "demo_address Prefetch_abort_handler = 0x80100600"
| "demo_address Data_abort_handler = 0x80100640"
| "demo_address Reserved_handler = 0x80100700"
| "demo_address Irq_handler = 0x80100720"
| "demo_address Fiq_handler = 0x80100760"

theorem vectors_lead_to_handlers_witness:
  "\<exists>m'. init_vector_table demo_address demo_machine = Inr m' \<and>
    exception_entry m' 2 = Inr 0x80100200 \<and> exception_entry m' 6 = Inr 0x80100720 \<and> exception_entry m' 7 = Inr 0x80100760"
proof -
  have "kernel_ok (mvm demo_machine) demo_units 2" by (simp add: demo_machine_def demo_kernel_ok)
  moreover have "mappable (words (pmm (mvm demo_machine))) kernell1PageTable HIGH_VECTOR_LOCATION False"
    by (simp add: demo_machine_def mappable_def l1_slot_def)
  ultimately show ?thesis using vectors_lead_to_handlers [of demo_machine demo_units demo_address] by auto
qed

end
