(* ===== verification/User_Syscalls.thy ===== *)
theory User_Syscalls
  imports Interrupts
begin

section \<open>The user's side of the system calls: \<open>user/libc/file_system\<close>, \<open>user/libc/malloc\<close>\<close>

text \<open>
  The wrappers with which user programs call the kernel, composed with the handler they enter. A wrapper loads the number of
  the call into \<open>r7\<close> and its arguments into the first registers; the others hold what the caller left in them. \<open>user_context\<close>
  has these left-over values and the caller's memory as \<open>SYSCALL_PRINTF\<close> needs it.
\<close>

record user_context =
  user_memory :: "u32 \<Rightarrow> u8 kptr \<times> nat"
  user_stack :: "varg list"
  left_r1 :: u32
  left_r2 :: u32
  left_r3 :: u32

text \<open>
  One system call as the caller sees it, its result the value of \<open>r0\<close> after \<open>svc 0\<close>. \<open>software_interrupt_handler\<close> is declared
  \<open>__attribute__((interrupt("SWI")))\<close>: the compiler saves the registers \<open>r0\<close> to \<open>r3\<close> on entry and restores them on return, so the
  value the handler returns is lost, and the caller's \<open>r0\<close> is its own argument.
\<close>

definition svc :: "user_context \<Rightarrow> machine \<Rightarrow> u32 \<Rightarrow> u32 \<Rightarrow> u32 \<Rightarrow> u32 \<Rightarrow> u32 \<Rightarrow> fault + (u32 \<times> machine)" where
  "svc u m n r0 r1 r2 r3 =
     bindE (software_interrupt_handler (user_memory u) (user_stack u) m n r0 r1 r2 r3) (\<lambda>(_, m). Inr (r0, m))"

definition syscall1 :: "user_context \<Rightarrow> machine \<Rightarrow> u32 \<Rightarrow> u32 \<Rightarrow> fault + (u32 \<times> machine)" where
  "syscall1 u m n a = svc u m n a (left_r1 u) (left_r2 u) (left_r3 u)"

definition syscall2 :: "user_context \<Rightarrow> machine \<Rightarrow> u32 \<Rightarrow> u32 \<Rightarrow> u32 \<Rightarrow> fault + (u32 \<times> machine)" where
  "syscall2 u m n a b = svc u m n a b (left_r2 u) (left_r3 u)"

definition syscall3 :: "user_context \<Rightarrow> machine \<Rightarrow> u32 \<Rightarrow> u32 \<Rightarrow> u32 \<Rightarrow> u32 \<Rightarrow> fault + (u32 \<times> machine)" where
  "syscall3 u m n a b c = svc u m n a b c (left_r3 u)"

subsection \<open>Files\<close>

text \<open>The letters \<open>r\<close>, \<open>w\<close>, \<open>a\<close>, \<open>b\<close> and \<open>0\<close>.\<close>

abbreviation (input) letter_r :: u8 where "letter_r \<equiv> 0x72"
abbreviation (input) letter_w :: u8 where "letter_w \<equiv> 0x77"
abbreviation (input) letter_a :: u8 where "letter_a \<equiv> 0x61"
abbreviation (input) letter_b :: u8 where "letter_b \<equiv> 0x62"
abbreviation (input) letter_0 :: u8 where "letter_0 \<equiv> 0x30"

definition open_file :: "user_context \<Rightarrow> machine \<Rightarrow> u32 \<Rightarrow> u8 \<Rightarrow> fault + (u32 \<times> machine)" where
  "open_file u m filepath mode =
     (if mode \<noteq> letter_r \<and> mode \<noteq> letter_w \<and> mode \<noteq> letter_a \<and> mode \<noteq> letter_b then Inr (- 1, m)
      else syscall2 u m SYSCALL_OPEN filepath (ucast mode))"

definition create :: "user_context \<Rightarrow> machine \<Rightarrow> u32 \<Rightarrow> u8 \<Rightarrow> fault + (u32 \<times> machine)" where
  "create u m filepath mode =
     (if mode \<noteq> letter_r \<and> mode \<noteq> letter_w \<and> mode \<noteq> letter_a \<and> mode \<noteq> letter_b then Inr (- 1, m)
      else syscall2 u m SYSCALL_CREATE filepath (ucast mode))"

definition mkdir :: "user_context \<Rightarrow> machine \<Rightarrow> u32 \<Rightarrow> fault + (u32 \<times> machine)" where
  "mkdir u m filepath = syscall1 u m SYSCALL_MKDIR filepath"

definition sys_read :: "user_context \<Rightarrow> machine \<Rightarrow> u32 \<Rightarrow> u32 \<Rightarrow> u32 \<Rightarrow> fault + (u32 \<times> machine)" where
  "sys_read u m fd buf numBytes =
     (if sint numBytes \<le> 0 then Inr (- 1, m) else syscall3 u m SYSCALL_READ fd buf numBytes)"

definition sys_write :: "user_context \<Rightarrow> machine \<Rightarrow> u32 \<Rightarrow> u32 \<Rightarrow> u32 \<Rightarrow> fault + (u32 \<times> machine)" where
  "sys_write u m fd buf numBytes =
     (if sint numBytes \<le> 0 then Inr (- 1, m) else syscall3 u m SYSCALL_READ fd buf numBytes)"

definition close :: "user_context \<Rightarrow> machine \<Rightarrow> u32 \<Rightarrow> fault + (u32 \<times> machine)" where
  "close u m fd = syscall1 u m SYSCALL_CLOSE fd"

definition seek :: "user_context \<Rightarrow> machine \<Rightarrow> u32 \<Rightarrow> u32 \<Rightarrow> fault + (u32 \<times> machine)" where
  "seek u m fd numBytes = (if numBytes = 0 then Inr (0, m) else syscall2 u m SYSCALL_SEEK fd numBytes)"

definition delete :: "user_context \<Rightarrow> machine \<Rightarrow> u32 \<Rightarrow> fault + (u32 \<times> machine)" where
  "delete u m filepath = syscall1 u m SYSCALL_DELETE filepath"

definition copy :: "user_context \<Rightarrow> machine \<Rightarrow> u32 \<Rightarrow> u32 \<Rightarrow> u8 \<Rightarrow> fault + (u32 \<times> machine)" where
  "copy u m source dest mode =
     (if mode \<noteq> letter_0 \<and> mode \<noteq> letter_r \<and> mode \<noteq> letter_w then Inr (- 1, m)
      else syscall3 u m SYSCALL_COPY source dest (ucast mode))"

definition ls :: "user_context \<Rightarrow> machine \<Rightarrow> u32 \<Rightarrow> fault + (u32 \<times> machine)" where
  "ls u m filepath = (if filepath = 0 then Inr (- 1, m) else syscall1 u m SYSCALL_LS filepath)"

subsection \<open>Memory\<close>

definition SYSCALL_MALLOC :: u32 where "SYSCALL_MALLOC = 13"
definition SYSCALL_ALIGNED_ALLOC :: u32 where "SYSCALL_ALIGNED_ALLOC = 14"
definition SYSCALL_FREE :: u32 where "SYSCALL_FREE = 15"

definition malloc :: "user_context \<Rightarrow> machine \<Rightarrow> u32 \<Rightarrow> fault + (u32 \<times> machine)" where
  "malloc u m bytes = (if bytes \<le> 0 then Inr (0, m) else syscall1 u m SYSCALL_MALLOC bytes)"

definition aligned_alloc :: "user_context \<Rightarrow> machine \<Rightarrow> u32 \<Rightarrow> u32 \<Rightarrow> fault + (u32 \<times> machine)" where
  "aligned_alloc u m bytes alignment =
     (if bytes \<le> 0 \<or> alignment \<le> 0 then Inr (0, m) else syscall2 u m SYSCALL_ALIGNED_ALLOC bytes alignment)"

definition free :: "user_context \<Rightarrow> machine \<Rightarrow> u32 \<Rightarrow> fault + machine" where
  "free u m p = (if p = 0 then Inr m else bindE (syscall1 u m SYSCALL_FREE p) (\<lambda>(_, m). Inr m))"

subsection \<open>What the calls achieve\<close>

lemma svc_echoes:
  assumes "uart_ready m" and "n \<notin> {SYSCALL_EXIT, SYSCALL_DUMMY, SYSCALL_PRINTF}"
  shows "svc u m n a b c d = Inr (a, sent m (syscall_text n a b c d @ concat (map ascii (syscall_messages n))))"
  using assms(2) by (simp add: svc_def handle_syscall [OF assms(1)])

lemmas user_calls = open_file_def create_def mkdir_def sys_read_def sys_write_def close_def seek_def delete_def copy_def ls_def
  malloc_def aligned_alloc_def free_def syscall1_def syscall2_def syscall3_def

lemmas call_numbers = syscall_defs SYSCALL_MALLOC_def SYSCALL_ALIGNED_ALLOC_def SYSCALL_FREE_def syscall_messages_def

text \<open>
  (C39) \<^bold>\<open>What the file calls of a user program do.\<close> They print. With the UART in place, \<open>open\<close> and \<open>create\<close> of a mode other than \<open>r\<close>, \<open>w\<close>, \<open>a\<close>
  and \<open>b\<close>, \<open>copy\<close> of one other than \<open>0\<close>, \<open>r\<close> and \<open>w\<close>, \<open>read\<close> and \<open>write\<close> of at most 0 bytes and \<open>ls\<close> of the null pointer return \<open>-1\<close>, and \<open>seek\<close> by 0
  bytes returns 0, all without a call. Every other file call enters the kernel, which prints the number, the arguments and one
  message, and nothing else of the machine changes. The \<open>-1\<close> of the kernel does not reach the program: each call returns
  its own first argument, a path or a descriptor. \<open>write\<close> (here \<open>sys_write\<close>) issues the call of \<open>read\<close>.
\<close>

theorem file_calls_echo_argument:
  assumes "uart_ready m"
  shows "let said = \<lambda>n a b c d text. sent m (syscall_text n a b c d @ ascii (text @ nl)); x = left_r1 u; y = left_r2 u; z = left_r3 u in
    open_file u m p mode = (if mode \<in> {0x72, 0x77, 0x61, 0x62} then Inr (p, said 3 p (ucast mode) y z ''Open system call called!'') else Inr (- 1, m)) \<and>
    create u m p mode = (if mode \<in> {0x72, 0x77, 0x61, 0x62} then Inr (p, said 0 p (ucast mode) y z ''Create system call called!'') else Inr (- 1, m)) \<and>
    mkdir u m p = Inr (p, said 10 p x y z ''Mkdir system call called!'') \<and>
    sys_read u m fd p n = (if 0 < sint n then Inr (fd, said 4 fd p n z ''Read system call called!'') else Inr (- 1, m)) \<and>
    sys_write u m fd p n = (if 0 < sint n then Inr (fd, said 4 fd p n z ''Read system call called!'') else Inr (- 1, m)) \<and>
    close u m fd = Inr (fd, said 6 fd x y z ''Close system call called!'') \<and>
    seek u m fd n = (if n \<noteq> 0 then Inr (fd, said 9 fd n y z ''Seek system call called!'') else Inr (0, m)) \<and>
    delete u m p = Inr (p, said 2 p x y z ''Delete system call called!'') \<and>
    copy u m p q mode = (if mode \<in> {0x30, 0x72, 0x77} then Inr (p, said 11 p q (ucast mode) z ''Copy system call called!'') else Inr (- 1, m)) \<and>
    ls u m p = (if p \<noteq> 0 then Inr (p, said 12 p x y z ''Ls system call called!'') else Inr (- 1, m))"
  unfolding Let_def
  by (intro conjI) (simp_all add: user_calls svc_echoes [OF assms] call_numbers)

definition demo_user :: user_context where
  "demo_user = \<lparr>user_memory = (\<lambda>_. (None, 0)), user_stack = [], left_r1 = 7, left_r2 = 8, left_r3 = 9\<rparr>"

theorem file_calls_echo_argument_witness:
  "sys_write demo_user (bcm2836_init demo_machine) 1 0x1000 5 =
     Inr (1, sent (bcm2836_init demo_machine) (syscall_text 4 1 0x1000 5 9 @ ascii (''Read system call called!'' @ nl)))"
  using file_calls_echo_argument [OF demo_uart_ready, where u = demo_user and p = "0x1000" and fd = 1 and n = 5]
  unfolding Let_def by (simp add: demo_user_def)

text \<open>
  (C40) \<^bold>\<open>\<open>malloc\<close> returns its argument as the pointer.\<close> The header promises a pointer to a block, or 0 for size 0. With the UART in place, \<open>malloc\<close>
  of a positive size and \<open>aligned_alloc\<close> of a positive size and alignment enter the kernel, which does not know the calls and
  only prints; the program gets the number of bytes back as the pointer, whatever alignment it asked for. \<open>free\<close> of
  a pointer that is not null only prints too. With size or alignment 0, or the null pointer, there is no call.
\<close>

theorem malloc_returns_size:
  assumes "uart_ready m"
  shows "let said = \<lambda>n a b c d. sent m (syscall_text n a b c d @ ascii (''That wasn't a syscall you knob!'' @ nl));
      x = left_r1 u; y = left_r2 u; z = left_r3 u in
    malloc u m bytes = (if 0 < bytes then Inr (bytes, said 13 bytes x y z) else Inr (NULL, m)) \<and>
    aligned_alloc u m bytes alignment =
      (if 0 < bytes \<and> 0 < alignment then Inr (bytes, said 14 bytes alignment y z) else Inr (NULL, m)) \<and>
    free u m p = (if p \<noteq> NULL then Inr (said 15 p x y z) else Inr m)"
  unfolding Let_def
  by (intro conjI) (auto simp: user_calls svc_echoes [OF assms] call_numbers word_gt_0)

theorem malloc_returns_size_witness:
  "malloc demo_user (bcm2836_init demo_machine) 100 =
     Inr (100, sent (bcm2836_init demo_machine) (syscall_text 13 100 7 8 9 @ ascii (''That wasn't a syscall you knob!'' @ nl)))"
  using malloc_returns_size [OF demo_uart_ready, where u = demo_user and bytes = 100]
  unfolding Let_def by (simp add: demo_user_def)

end
