(* ===== verification/Mmci.thy ===== *)
theory Mmci
  imports Interrupts
begin

section \<open>The SD card driver: \<open>drivers/mmci/mmci.c\<close>\<close>

text \<open>
  The driver talks to the card controller through registers at \<open>MMCI_BASE\<close>. The controller and its card are not part of the
  program: a device is a parameter, a pair of functions that say what a write and a read of a register do to it. Buffers are objects of
  words as in \<open>Kernel_Objects\<close>; the loops move a word for as long as the device asks for one, so they end when it stops or at the end
  of the buffer.
\<close>

record 'd mmci_device =
  dev_write :: "u32 \<Rightarrow> u32 \<Rightarrow> 'd \<Rightarrow> 'd"
  dev_read :: "u32 \<Rightarrow> 'd \<Rightarrow> u32 \<times> 'd"

subsection \<open>Registers and commands\<close>

definition MMCI_BASE :: u32 where "MMCI_BASE = 0x10005000"
definition CMD :: u32 where "CMD = 0x00C"
definition DCTRL :: u32 where "DCTRL = 0x02C"
definition FIFO :: u32 where "FIFO = 0x080"
definition FIFO_CNT :: u32 where "FIFO_CNT = 0x048"
definition STATUS :: u32 where "STATUS = 0x34"
definition ARG :: u32 where "ARG = 0x008"
definition CLR :: u32 where "CLR = 0x038"
definition RESP_0 :: u32 where "RESP_0 = 0x14"
definition DATA_LEN :: u32 where "DATA_LEN = 0x028"

definition EXE :: u32 where "EXE = push_bit 10 1"
definition RESP :: u32 where "RESP = push_bit 6 1"
definition LRESP :: u32 where "LRESP = push_bit 7 1"
definition RCA_MASK :: u32 where "RCA_MASK = 0xFFFF0000"
definition SET_WRITE :: u32 where "SET_WRITE = 1 OR push_bit 4 9"
definition SET_READ :: u32 where "SET_READ = 3 OR push_bit 4 9"
definition DISABLE :: u32 where "DISABLE = 0 OR push_bit 4 9"
definition STATUS_ERR :: u32 where "STATUS_ERR = 0x3F"
definition SD_BLOCK_SIZE :: u32 where "SD_BLOCK_SIZE = 512"

lemmas mmci_registers = CMD_def DCTRL_def FIFO_def FIFO_CNT_def STATUS_def ARG_def CLR_def RESP_0_def DATA_LEN_def
lemmas mmci_bits = EXE_def RESP_def LRESP_def RCA_MASK_def SET_WRITE_def SET_READ_def DISABLE_def STATUS_ERR_def SD_BLOCK_SIZE_def

definition run_mmci :: "'d mmci_device \<Rightarrow> u32 \<Rightarrow> u32 \<Rightarrow> 'd \<Rightarrow> 'd" where
  "run_mmci D cmd args d = dev_write D (MMCI_BASE + cmd) args d"

definition read_mmci :: "'d mmci_device \<Rightarrow> u32 \<Rightarrow> 'd \<Rightarrow> u32 \<times> 'd" where
  "read_mmci D target d = dev_read D (MMCI_BASE + target) d"

definition READ_CNT :: "'d mmci_device \<Rightarrow> 'd \<Rightarrow> bool \<times> 'd" where
  "READ_CNT D d = (case read_mmci D STATUS d of (s, d) \<Rightarrow> (s AND push_bit 21 1 \<noteq> 0, d))"

definition WRITE_CNT :: "'d mmci_device \<Rightarrow> 'd \<Rightarrow> bool \<times> 'd" where
  "WRITE_CNT D d = (case read_mmci D FIFO_CNT d of (n, d) \<Rightarrow> (n > 0, d))"

definition status :: "'d mmci_device \<Rightarrow> 'd \<Rightarrow> u32 \<times> 'd" where
  "status D d = (case read_mmci D STATUS d of (stat, d) \<Rightarrow> (let error = stat AND STATUS_ERR in (NOT error + 1, d)))"

subsection \<open>Moving a block\<close>

function push_loop :: "'d mmci_device \<Rightarrow> u32 kptr \<Rightarrow> nat \<Rightarrow> 'd \<Rightarrow> fault + 'd" where
  "push_loop D buffer i d =
     (case WRITE_CNT D d of (busy, d) \<Rightarrow>
      if busy then bindE (rd32 buffer i) (\<lambda>w. push_loop D buffer (Suc i) (run_mmci D FIFO w d))
      else Inr d)"
  by pat_completeness auto
termination
  by (relation "measure (\<lambda>(D, buffer, i, d). obj_len buffer - i)")
     (auto simp: kread_def in_object_def obj_len_def split: option.splits if_splits)

declare push_loop.simps [simp del]

definition push_bytes :: "'d mmci_device \<Rightarrow> u32 kptr \<Rightarrow> 'd \<Rightarrow> fault + (u32 \<times> 'd)" where
  "push_bytes D buffer d =
     (let d = run_mmci D DCTRL DISABLE d;
          d = run_mmci D DCTRL SET_WRITE d in
      bindE (push_loop D buffer 0 d) (\<lambda>d. Inr (status D d)))"

function pull_loop :: "'d mmci_device \<Rightarrow> u32 kptr \<Rightarrow> nat \<Rightarrow> 'd \<Rightarrow> fault + (u32 kptr \<times> 'd)" where
  "pull_loop D buffer i d =
     (case READ_CNT D d of (busy, d) \<Rightarrow>
      if busy
      then (case read_mmci D FIFO d of (w, d) \<Rightarrow> bindE (wr32 buffer i w) (\<lambda>buffer. pull_loop D buffer (Suc i) d))
      else Inr (buffer, d))"
  by pat_completeness auto
termination
  by (relation "measure (\<lambda>(D, buffer, i, d). obj_len buffer - i)")
     (auto simp: kwrite_def in_object_def obj_len_def split: option.splits if_splits)

declare pull_loop.simps [simp del]

definition pull_bytes :: "'d mmci_device \<Rightarrow> u32 kptr \<Rightarrow> 'd \<Rightarrow> fault + (u32 \<times> u32 kptr \<times> 'd)" where
  "pull_bytes D buffer d =
     bindE (pull_loop D buffer 0 d) (\<lambda>(buffer, d).
     case status D d of (r, d) \<Rightarrow> Inr (r, buffer, d))"

definition sd_transmit :: "'d mmci_device \<Rightarrow> u32 kptr \<Rightarrow> u32 \<Rightarrow> 'd \<Rightarrow> fault + (u32 \<times> 'd)" where
  "sd_transmit D buffer address d =
     (let d = run_mmci D ARG SD_BLOCK_SIZE d;
          d = run_mmci D CMD (16 OR EXE OR RESP) d;
          d = run_mmci D ARG address d;
          d = run_mmci D CMD (24 OR EXE OR RESP) d in
      bindE (push_bytes D buffer d) (\<lambda>(_, d). Inr (status D d)))"

definition sd_receive :: "'d mmci_device \<Rightarrow> u32 kptr \<Rightarrow> u32 \<Rightarrow> 'd \<Rightarrow> fault + (u32 \<times> u32 kptr \<times> 'd)" where
  "sd_receive D buffer address d =
     (let d = run_mmci D DCTRL DISABLE d;
          d = run_mmci D DCTRL SET_READ d;
          d = run_mmci D ARG address d;
          d = run_mmci D CMD (17 OR EXE OR RESP) d in
      bindE (pull_bytes D buffer d) (\<lambda>(_, buffer, d).
      case status D d of (r, d) \<Rightarrow> Inr (r, buffer, d)))"

subsection \<open>The card\<close>

definition clear :: "'d mmci_device \<Rightarrow> 'd \<Rightarrow> u32 \<times> 'd" where
  "clear D d = status D (run_mmci D CLR 0x2FF d)"

definition sd_capacity :: u32 where
  "sd_capacity = 128 * 1024 * 1024"

text \<open>\<open>init_sd\<close> first unmasks the interrupts of the processor; its message goes to the UART of the machine.\<close>

definition init_sd :: "'d mmci_device \<Rightarrow> machine \<Rightarrow> 'd \<Rightarrow> fault + (u32 \<times> machine \<times> 'd)" where
  "init_sd D m d =
     (let m = m\<lparr>cpsr := cpsr m AND NOT 0xC0\<rparr>;
          d = run_mmci D CMD (55 OR EXE) d;
          d = run_mmci D ARG 123 d;
          d = run_mmci D CMD (41 OR EXE) d;
          d = run_mmci D CMD (2 OR EXE OR RESP OR LRESP) d;
          d = run_mmci D CMD (3 OR EXE OR RESP) d;
          (r, d) = read_mmci D RESP_0 d;
          rca = r AND RCA_MASK;
          d = run_mmci D ARG rca d;
          d = run_mmci D CMD (7 OR EXE OR RESP) d;
          d = run_mmci D DATA_LEN SD_BLOCK_SIZE d in
      bindE (say m (nl @ ''SD card ready for transfer'' @ nl) []) (\<lambda>m.
      case status D d of (r, d) \<Rightarrow> Inr (r, m, d)))"

subsection \<open>The dialogue with the device\<close>

text \<open>
  What passes between the driver and a device: the writes, and the reads with the values the device gave. \<open>replays D es d d'\<close>: from the
  state \<open>d\<close> the device takes the writes among \<open>es\<close> and answers the reads among them with the values they name, and is
  in \<open>d'\<close> at the end. Nothing is supposed of the device; every device has its answers.
\<close>

datatype bus_access = Wr u32 u32 | Rd u32 u32

primrec replays :: "'d mmci_device \<Rightarrow> bus_access list \<Rightarrow> 'd \<Rightarrow> 'd \<Rightarrow> bool" where
  "replays D [] d d' \<longleftrightarrow> d' = d"
| "replays D (e # es) d d' \<longleftrightarrow>
     (case e of
        Wr a v \<Rightarrow> replays D es (dev_write D a v d) d'
      | Rd a v \<Rightarrow> fst (dev_read D a d) = v \<and> replays D es (snd (dev_read D a d)) d')"

lemma replays_append: "replays D (es @ fs) d d' \<longleftrightarrow> (\<exists>d1. replays D es d d1 \<and> replays D fs d1 d')"
  by (induction es arbitrary: d) (auto split: bus_access.splits)

text \<open>The operations of the driver on such an answer.\<close>

lemma driver_reads:
  "read_mmci D r d = (fst (dev_read D (MMCI_BASE + r) d), snd (dev_read D (MMCI_BASE + r) d))"
  "READ_CNT D d = (bit (fst (dev_read D 0x10005034 d)) 21, snd (dev_read D 0x10005034 d))"
  "WRITE_CNT D d = (fst (dev_read D 0x10005048 d) > 0, snd (dev_read D 0x10005048 d))"
  "status D d = (- (fst (dev_read D 0x10005034 d) AND 0x3F), snd (dev_read D 0x10005034 d))"
proof -
  show r: "read_mmci D r d = (fst (dev_read D (MMCI_BASE + r) d), snd (dev_read D (MMCI_BASE + r) d))" for r by (simp add: read_mmci_def)
  have "w AND push_bit 21 1 \<noteq> 0 \<longleftrightarrow> bit w 21" for w :: u32 using and_exp_eq_0_iff_not_bit [of w 21] by (simp add: push_bit_of_1)
  then show "READ_CNT D d = (bit (fst (dev_read D 0x10005034 d)) 21, snd (dev_read D 0x10005034 d))"
    unfolding READ_CNT_def r by (simp add: STATUS_def MMCI_BASE_def case_prod_beta)
  show "WRITE_CNT D d = (fst (dev_read D 0x10005048 d) > 0, snd (dev_read D 0x10005048 d))"
    by (simp add: WRITE_CNT_def r FIFO_CNT_def MMCI_BASE_def case_prod_beta)
  show "status D d = (- (fst (dev_read D 0x10005034 d) AND 0x3F), snd (dev_read D 0x10005034 d))"
    by (simp add: status_def r STATUS_def MMCI_BASE_def STATUS_ERR_def Let_def case_prod_beta flip: minus_eq_not_plus_1)
qed

text \<open>As long as the FIFO asks for words, those of the buffer go to it, one by one.\<close>

lemma push_loop_dialogue:
  "replays D (concat (map (\<lambda>(c, w). [Rd 0x10005048 c, Wr 0x10005080 w]) cws) @ Rd 0x10005048 0 # rest) d d' \<Longrightarrow>
   \<forall>j < length cws. 0 < fst (cws ! j) \<and> rd32 buffer (i + j) = Inr (snd (cws ! j)) \<Longrightarrow>
   \<exists>d1. push_loop D buffer i d = Inr d1 \<and> replays D rest d1 d'"
proof (induction cws arbitrary: i d)
  case Nil
  then show ?case by (subst push_loop.simps) (simp add: driver_reads)
next
  case (Cons p cws)
  obtain c w where p: "p = (c, w)" by (cases p) auto
  have "\<forall>j < length cws. 0 < fst (cws ! j) \<and> rd32 buffer (Suc i + j) = Inr (snd (cws ! j))"
  proof (intro allI impI)
    fix j assume "j < length cws"
    then show "0 < fst (cws ! j) \<and> rd32 buffer (Suc i + j) = Inr (snd (cws ! j))" using Cons.prems(2) [rule_format, of "Suc j"] by simp
  qed
  moreover have "0 < c" "rd32 buffer i = Inr w" using Cons.prems(2) [rule_format, of 0] by (simp_all add: p)
  ultimately show ?case using Cons.IH [where i = "Suc i"] Cons.prems(1)
    by (subst push_loop.simps) (simp add: driver_reads p run_mmci_def FIFO_def MMCI_BASE_def)
qed

text \<open>As long as the FIFO has words, they go to the buffer.\<close>

lemma pull_loop_dialogue:
  "replays D (concat (map (\<lambda>(s, w). [Rd 0x10005034 s, Rd 0x10005080 w]) sws) @ Rd 0x10005034 s0 # rest) d d' \<Longrightarrow>
   \<forall>j < length sws. bit (fst (sws ! j)) 21 \<Longrightarrow> \<not> bit s0 21 \<Longrightarrow> 4 * (i + length sws) \<le> unat (osize ob) \<Longrightarrow>
   \<exists>d1. pull_loop D (Some ob) i d =
       Inr (Some (ob\<lparr>cells := (\<lambda>k. if i \<le> k \<and> k < i + length sws then Some (snd (sws ! (k - i))) else cells ob k)\<rparr>), d1) \<and>
     replays D rest d1 d'"
proof (induction sws arbitrary: i d ob)
  case Nil
  then show ?case by (subst pull_loop.simps) (simp add: driver_reads)
next
  case (Cons p sws)
  obtain s w where p: "p = (s, w)" by (cases p) auto
  let ?ob = "ob\<lparr>cells := (cells ob)(i := Some w)\<rparr>"
  let ?d = "snd (dev_read D 0x10005080 (snd (dev_read D 0x10005034 d)))"
  have s: "bit s 21" and rest: "\<forall>j < length sws. bit (fst (sws ! j)) 21" using Cons.prems(2) by (auto simp: p nth_Cons split: nat.splits)
  have wr: "wr32 (Some ob) i w = Inr (Some ?ob)" using Cons.prems(4) by (simp add: kwrite_def in_object_def)
  have "4 * (Suc i + length sws) \<le> unat (osize ?ob)" using Cons.prems(4) by simp
  from Cons.IH [OF _ rest Cons.prems(3) this] Cons.prems(1) obtain d1 where
    d1: "pull_loop D (Some ?ob) (Suc i) ?d =
       Inr (Some (?ob\<lparr>cells := (\<lambda>k. if Suc i \<le> k \<and> k < Suc i + length sws then Some (snd (sws ! (k - Suc i))) else cells ?ob k)\<rparr>), d1)"
      "replays D rest d1 d'" by (auto simp: p)
  have "(\<lambda>k. if Suc i \<le> k \<and> k < Suc i + length sws then Some (snd (sws ! (k - Suc i))) else cells ?ob k) =
      (\<lambda>k. if i \<le> k \<and> k < i + length (p # sws) then Some (snd ((p # sws) ! (k - i))) else cells ob k)"
    by (auto simp: fun_eq_iff nth_Cons' p)
  then show ?case using d1 wr s Cons.prems(1)
    by (subst pull_loop.simps) (auto simp: driver_reads p FIFO_def MMCI_BASE_def case_prod_beta)
qed

text \<open>
  (C34) \<^bold>\<open>The dialogue with the card.\<close> For every device behind the registers. Initialising: the commands 55, 41, 2, 3 and 7 are issued with their response bits,
  the address the card gave in response register 0 selects it, and the data length is a block of 512 bytes. Transmitting: the length and the address
  are set and command 24 issued, then words of the buffer go to the FIFO, in order and each once, for as long as the
  FIFO counter is not 0. Receiving: command 17 is issued for the address, then the words the FIFO gives
  go to the buffer, in order, for as long as bit 21 of the status says that there is one, as far as the buffer reaches; the rest of the buffer is as before. Each returns
  the negated low six bits of the last status read, and that says nothing of the number of words moved: a short block is reported like a whole one.
\<close>

theorem sd_dialogue:
  assumes "uart_ready m"
  shows "(\<forall>r s d d'. replays D
        [Wr 0x1000500C 0x437, Wr 0x10005008 123, Wr 0x1000500C 0x429, Wr 0x1000500C 0x4C2, Wr 0x1000500C 0x443, Rd 0x10005014 r,
         Wr 0x10005008 (r AND 0xFFFF0000), Wr 0x1000500C 0x447, Wr 0x10005028 512, Rd 0x10005034 s] d d' \<longrightarrow>
      init_sd D m d = Inr (- (s AND 0x3F), sent (m\<lparr>cpsr := cpsr m AND NOT 0xC0\<rparr>) (ascii (nl @ ''SD card ready for transfer'' @ nl)), d')) \<and>
    (\<forall>a src cws s1 s2 d d'. replays D
        ([Wr 0x10005008 512, Wr 0x1000500C 0x450, Wr 0x10005008 a, Wr 0x1000500C 0x458, Wr 0x1000502C 0x90, Wr 0x1000502C 0x91] @
         concat (map (\<lambda>(c, w). [Rd 0x10005048 c, Wr 0x10005080 w]) cws) @ [Rd 0x10005048 0, Rd 0x10005034 s1, Rd 0x10005034 s2]) d d' \<and>
        (\<forall>j < length cws. 0 < fst (cws ! j) \<and> rd32 src j = Inr (snd (cws ! j))) \<longrightarrow>
      sd_transmit D src a d = Inr (- (s2 AND 0x3F), d')) \<and>
    (\<forall>a ob sws s0 s1 s2 d d'. replays D
        ([Wr 0x1000502C 0x90, Wr 0x1000502C 0x93, Wr 0x10005008 a, Wr 0x1000500C 0x451] @
         concat (map (\<lambda>(s, w). [Rd 0x10005034 s, Rd 0x10005080 w]) sws) @ [Rd 0x10005034 s0, Rd 0x10005034 s1, Rd 0x10005034 s2]) d d' \<and>
        (\<forall>j < length sws. bit (fst (sws ! j)) 21) \<and> \<not> bit s0 21 \<and> 4 * length sws \<le> unat (osize ob) \<longrightarrow>
      sd_receive D (Some ob) a d =
        Inr (- (s2 AND 0x3F), Some (ob\<lparr>cells := (\<lambda>k. if k < length sws then Some (snd (sws ! k)) else cells ob k)\<rparr>), d'))"
proof (intro conjI allI impI; (elim conjE)?)
  fix r s d d'
  let ?m = "m\<lparr>cpsr := cpsr m AND NOT 0xC0\<rparr>"
  assume "replays D [Wr 0x1000500C 0x437, Wr 0x10005008 123, Wr 0x1000500C 0x429, Wr 0x1000500C 0x4C2, Wr 0x1000500C 0x443, Rd 0x10005014 r,
    Wr 0x10005008 (r AND 0xFFFF0000), Wr 0x1000500C 0x447, Wr 0x10005028 512, Rd 0x10005034 s] d d'"
  moreover have "say ?m (nl @ ''SD card ready for transfer'' @ nl) [] = Inr (sent ?m (ascii (nl @ ''SD card ready for transfer'' @ nl)))"
    by (rule say_plain) (use assms in \<open>simp_all add: ascii_def nl_def uart_ready_def translate_def\<close>)
  ultimately show "init_sd D m d = Inr (- (s AND 0x3F), sent ?m (ascii (nl @ ''SD card ready for transfer'' @ nl)), d')"
    by (auto simp: init_sd_def Let_def run_mmci_def driver_reads mmci_registers mmci_bits MMCI_BASE_def case_prod_beta)
next
  fix a src cws s1 s2 d d'
  assume r: "replays D ([Wr 0x10005008 512, Wr 0x1000500C 0x450, Wr 0x10005008 a, Wr 0x1000500C 0x458, Wr 0x1000502C 0x90, Wr 0x1000502C 0x91] @
      concat (map (\<lambda>(c, w). [Rd 0x10005048 c, Wr 0x10005080 w]) cws) @ [Rd 0x10005048 0, Rd 0x10005034 s1, Rd 0x10005034 s2]) d d'"
    and b: "\<forall>j < length cws. 0 < fst (cws ! j) \<and> rd32 src j = Inr (snd (cws ! j))"
  define d0 where "d0 = dev_write D 0x1000502C 0x91 (dev_write D 0x1000502C 0x90 (dev_write D 0x1000500C 0x458 (dev_write D 0x10005008 a
    (dev_write D 0x1000500C 0x450 (dev_write D 0x10005008 512 d)))))"
  have "replays D (concat (map (\<lambda>(c, w). [Rd 0x10005048 c, Wr 0x10005080 w]) cws) @ Rd 0x10005048 0 # [Rd 0x10005034 s1, Rd 0x10005034 s2]) d0 d'"
    using r by (simp add: d0_def)
  from push_loop_dialogue [OF this, where buffer = src and i = 0] b obtain d1 where
    "push_loop D src 0 d0 = Inr d1" "replays D [Rd 0x10005034 s1, Rd 0x10005034 s2] d1 d'" by auto
  then show "sd_transmit D src a d = Inr (- (s2 AND 0x3F), d')"
    by (simp add: sd_transmit_def push_bytes_def Let_def run_mmci_def mmci_registers mmci_bits MMCI_BASE_def d0_def driver_reads)
next
  fix a sws s0 s1 s2 d d' and ob :: "u32 kobj"
  assume r: "replays D ([Wr 0x1000502C 0x90, Wr 0x1000502C 0x93, Wr 0x10005008 a, Wr 0x1000500C 0x451] @
      concat (map (\<lambda>(s, w). [Rd 0x10005034 s, Rd 0x10005080 w]) sws) @ [Rd 0x10005034 s0, Rd 0x10005034 s1, Rd 0x10005034 s2]) d d'"
    and b: "\<forall>j < length sws. bit (fst (sws ! j)) 21" "\<not> bit s0 21" "4 * length sws \<le> unat (osize ob)"
  define d0 where "d0 = dev_write D 0x1000500C 0x451 (dev_write D 0x10005008 a (dev_write D 0x1000502C 0x93 (dev_write D 0x1000502C 0x90 d)))"
  have "replays D (concat (map (\<lambda>(s, w). [Rd 0x10005034 s, Rd 0x10005080 w]) sws) @ Rd 0x10005034 s0 # [Rd 0x10005034 s1, Rd 0x10005034 s2]) d0 d'"
    using r by (simp add: d0_def)
  from pull_loop_dialogue [OF this b(1,2), where i = 0 and ob = ob] b(3) obtain d1 where
    "pull_loop D (Some ob) 0 d0 = Inr (Some (ob\<lparr>cells := (\<lambda>k. if k < length sws then Some (snd (sws ! k)) else cells ob k)\<rparr>), d1)"
    "replays D [Rd 0x10005034 s1, Rd 0x10005034 s2] d1 d'" by (auto cong: if_cong)
  then show "sd_receive D (Some ob) a d =
      Inr (- (s2 AND 0x3F), Some (ob\<lparr>cells := (\<lambda>k. if k < length sws then Some (snd (sws ! k)) else cells ob k)\<rparr>), d')"
    by (simp add: sd_receive_def pull_bytes_def Let_def run_mmci_def mmci_registers mmci_bits MMCI_BASE_def d0_def driver_reads)
qed

text \<open>A device whose FIFO command 17 fills with two words.\<close>

definition two_words :: "u32 list mmci_device" where
  "two_words = \<lparr>dev_write = (\<lambda>a v q. if a = 0x1000500C \<and> v = 0x451 then [7, 8] else q),
     dev_read = (\<lambda>a q. if a = 0x10005034 then (if q = [] then 0 else 0x200000, q)
       else if a = 0x10005080 then (hd q, tl q) else (0, q))\<rparr>"

theorem sd_dialogue_witness:
  "\<exists>dst. sd_receive two_words (Some \<lparr>osize = 512, cells = (\<lambda>_. None)\<rparr>) 0x200 [] = Inr (0, dst, []) \<and> rd32 dst 0 = Inr 7 \<and> rd32 dst 1 = Inr 8"
proof -
  let ?sws = "[(0x200000, 7), (0x200000, 8)] :: (u32 \<times> u32) list" and ?ob = "\<lparr>osize = 512, cells = (\<lambda>_. None)\<rparr> :: u32 kobj"
  have "replays two_words ([Wr 0x1000502C 0x90, Wr 0x1000502C 0x93, Wr 0x10005008 0x200, Wr 0x1000500C 0x451] @
      concat (map (\<lambda>(s, w). [Rd 0x10005034 s, Rd 0x10005080 w]) ?sws) @ [Rd 0x10005034 0, Rd 0x10005034 0, Rd 0x10005034 0]) [] []"
    by (simp add: two_words_def)
  moreover have "\<forall>j < length ?sws. bit (fst (?sws ! j)) 21"
    by (simp add: less_Suc_eq_0_disj all_conj_distrib bit_numeral_rec)
  moreover have "\<not> bit (0 :: u32) 21 \<and> 4 * length ?sws \<le> unat (osize ?ob)" by simp
  ultimately have "sd_receive two_words (Some ?ob) 0x200 [] =
      Inr (- (0 AND 0x3F), Some (?ob\<lparr>cells := (\<lambda>k. if k < length ?sws then Some (snd (?sws ! k)) else cells ?ob k)\<rparr>), [])"
    by (intro sd_dialogue [OF demo_uart_ready, of two_words, THEN conjunct2, THEN conjunct2, rule_format]) blast
  then show ?thesis by (simp add: kread_def in_object_def)
qed

end
