(* ===== verification/Memory_Detection.thy ===== *)
theory Memory_Detection
  imports Kernel_Prelude
begin

section \<open>The size of RAM: \<open>common/memory.s\<close>\<close>

text \<open>
  \<open>detect_memory\<close>, which the start-up code calls before anything else, finds the end of RAM by writing 42 to an address and reading it
  back. Whether an address reads back is a property of the board, a parameter \<open>reads_back\<close>. The two labels of the loop are one recursive
  function: \<open>r0\<close> is the address reached, \<open>r3\<close> the step. The comparisons of the assembly are signed. The result is \<open>r1\<close>, with
  the addresses the loop wrote to; the second is not a result of the code, but an effect on RAM. The loop is bounded by fuel.
\<close>

definition max_memory_size :: u32 where "max_memory_size = 0x40000000"

definition mmio_regions :: "(u32 \<times> u32) list" where "mmio_regions = [(0x3fe00000, 0x3ff00000)]"

text \<open>The inner loop over the regions: an address inside one is moved to its end.\<close>

primrec leave_region :: "u32 \<Rightarrow> (u32 \<times> u32) list \<Rightarrow> u32" where
  "leave_region r0 [] = r0"
| "leave_region r0 (r # rs) =
     (if sint (fst r) \<le> sint r0 \<and> \<not> sint (snd r) \<le> sint r0 then snd r else leave_region r0 rs)"

primrec detect_memory_loop :: "nat \<Rightarrow> (u32 \<Rightarrow> bool) \<Rightarrow> u32 \<Rightarrow> u32 \<Rightarrow> (u32 \<times> u32 list) option" where
  "detect_memory_loop 0 reads_back r0 r3 = None"
| "detect_memory_loop (Suc fuel) reads_back r0 r3 =
     (let r0 = leave_region (r0 + r3) mmio_regions;
          write = map_option (\<lambda>(r1, ps). (r1, r0 # ps)) in
      if reads_back r0
      then (if sint r0 < sint max_memory_size then write (detect_memory_loop fuel reads_back r0 r3) else Some (r0, [r0]))
      else (let r0 = r0 - r3; r3 = signed_drop_bit 1 r3 in
            if r3 = 0 then write (Some (r0, [])) else write (detect_memory_loop fuel reads_back r0 r3)))"

definition detect_memory :: "(u32 \<Rightarrow> bool) \<Rightarrow> (u32 \<times> u32 list) option" where
  "detect_memory reads_back = detect_memory_loop 100 reads_back 0 0x10000000"

subsection \<open>What it finds\<close>

lemma sint_of_small: "unat (x :: u32) < 2147483648 \<Longrightarrow> sint x = int (unat x)"
proof -
  assume "unat x < 2147483648"
  then have "int (unat x) < 2147483648" by linarith
  then show ?thesis using order_trans [OF _ unsigned_greater_eq [of x], of "- 2147483648 :: int"]
    unfolding sint_uint by (subst signed_take_bit_int_eq_self) simp_all
qed

lemma signed_compare:
  assumes "unat (x :: u32) < 2147483648" and "unat (y :: u32) < 2147483648"
  shows "sint x \<le> sint y \<longleftrightarrow> unat x \<le> unat y" "sint x < sint y \<longleftrightarrow> unat x < unat y"
  using assms by (simp_all only: sint_of_small of_nat_le_iff of_nat_less_iff)

lemma unat_2_power: "k < 32 \<Longrightarrow> unat (2 ^ k :: u32) = 2 ^ k"
  using unat_of_nat_u32 [of "2 ^ k"] power_strict_increasing [of k 32 "2 :: nat"] by simp

text \<open>No address the search tries lies in the region, as long as it stays below the peripherals.\<close>

lemma multiple_misses_region:
  assumes "c mod 2 ^ k = 0" and "c < 0x3F000000 + 2 ^ k"
  shows "\<not> (0x3fe00000 \<le> c \<and> c < (0x3ff00000 :: nat))"
proof
  assume c: "0x3fe00000 \<le> c \<and> c < 0x3ff00000"
  have "24 \<le> k"
  proof (rule ccontr)
    assume "\<not> ?thesis"
    then have "(2 :: nat) ^ k \<le> 2 ^ 23" by (intro power_increasing) simp_all
    then show False using assms(2) c by simp
  qed
  then have "(2 :: nat) ^ 24 dvd 2 ^ k" by (rule le_imp_power_dvd)
  then have "(2 :: nat) ^ 24 dvd c" using assms(1) by (metis mod_0_imp_dvd dvd_trans)
  then obtain q where q: "c = 16777216 * q" by (auto simp: dvd_def)
  have "\<not> 64 \<le> q" "\<not> q \<le> 63" using c unfolding q by linarith+
  then show False by simp
qed

lemma next_probe:
  assumes r0: "unat r0 mod 2 ^ k = 0" "unat r0 < E" and E: "E \<le> 0x3F000000" and k: "k \<le> 28"
  shows "unat (r0 + 2 ^ k) = unat r0 + 2 ^ k" "leave_region (r0 + 2 ^ k) mmio_regions = r0 + 2 ^ k"
    "unat (r0 + 2 ^ k) < 0x4F000000"
proof -
  have p: "(2 :: nat) ^ k \<le> 2 ^ 28" using k by (intro power_increasing) simp_all
  have "unat (2 ^ k :: u32) = 2 ^ k" using k by (intro unat_2_power) simp
  then show u: "unat (r0 + 2 ^ k) = unat r0 + 2 ^ k" using r0(2) E p by (subst unat_add_no_wrap) simp_all
  then show lt: "unat (r0 + 2 ^ k) < 0x4F000000" using r0(2) E p by simp
  have "unat (r0 + 2 ^ k) mod 2 ^ k = 0" unfolding u using r0(1) by simp
  from multiple_misses_region [OF this] r0(2) E u have "\<not> (0x3fe00000 \<le> unat (r0 + 2 ^ k) \<and> unat (r0 + 2 ^ k) < 0x3ff00000)" by simp
  then show "leave_region (r0 + 2 ^ k) mmio_regions = r0 + 2 ^ k"
    using lt signed_compare(1) [of "0x3fe00000" "r0 + 2 ^ k"] signed_compare(1) [of "0x3ff00000" "r0 + 2 ^ k"]
    by (auto simp: mmio_regions_def)
qed

lemma halve_step: "k < 31 \<Longrightarrow> signed_drop_bit 1 (2 ^ k :: u32) = (if k = 0 then 0 else 2 ^ (k - 1))"
proof -
  assume k: "k < 31"
  have u: "unat (2 ^ j :: u32) = 2 ^ j" if "j < 31" for j using that by (intro unat_2_power) simp
  have lt: "(2 :: nat) ^ j < 2147483648" if "j < 31" for j using power_strict_increasing [OF that, of "2 :: nat"] by simp
  have "sint (signed_drop_bit 1 (2 ^ k :: u32)) = 2 ^ k div 2"
    by (simp add: sint_signed_drop_bit_eq drop_bit_eq_div sint_of_small u k lt)
  moreover have "sint (if k = 0 then 0 else 2 ^ (k - 1) :: u32) = 2 ^ k div 2"
    using k by (cases k) (simp_all add: sint_of_small u lt)
  ultimately have "word_of_int (sint (signed_drop_bit 1 (2 ^ k :: u32))) = (word_of_int (sint (if k = 0 then 0 else 2 ^ (k - 1) :: u32)) :: u32)"
    by (simp only:)
  then show ?thesis by (simp only: of_int_sint scast_id)
qed

text \<open>One step of the search for the last of \<open>E\<close> addresses.\<close>

lemma detect_step:
  assumes rb: "\<forall>a. reads_back a \<longleftrightarrow> unat a < E" and r0: "unat r0 mod 2 ^ k = 0" "unat r0 < E" and E: "E \<le> 0x3F000000" and k: "k \<le> 28"
  shows "detect_memory_loop (Suc f) reads_back r0 (2 ^ k) =
    map_option (\<lambda>(r1, ps). (r1, (r0 + 2 ^ k) # ps))
      (if unat r0 + 2 ^ k < E then detect_memory_loop f reads_back (r0 + 2 ^ k) (2 ^ k)
       else if k = 0 then Some (r0, []) else detect_memory_loop f reads_back r0 (2 ^ (k - 1)))"
proof -
  note n = next_probe [OF r0 E k]
  have "sint (r0 + 2 ^ k) < sint max_memory_size \<longleftrightarrow> unat r0 + 2 ^ k < 0x40000000"
    using n(1,3) signed_compare(2) [of "r0 + 2 ^ k" "0x40000000"] by (simp add: max_memory_size_def)
  then have "sint (r0 + 2 ^ k) < sint max_memory_size" if "unat r0 + 2 ^ k < E" using that E by simp
  moreover have "(2 :: u32) ^ (k - 1) \<noteq> 0"
  proof
    assume "(2 :: u32) ^ (k - 1) = 0"
    then show False using unat_2_power [of "k - 1"] k by simp
  qed
  ultimately show ?thesis using rb n(1) k by (simp add: n(2) Let_def halve_step [simplified])
qed

text \<open>With the end less than two steps away, it is reached: each step is taken at most once.\<close>

lemma detect_halving:
  assumes rb: "\<forall>a. reads_back a \<longleftrightarrow> unat a < E" and E: "E \<le> 0x3F000000"
  shows "unat r0 mod 2 ^ k = 0 \<Longrightarrow> unat r0 < E \<Longrightarrow> E \<le> unat r0 + 2 * 2 ^ k \<Longrightarrow> k \<le> 28 \<Longrightarrow> 2 * Suc k \<le> fuel \<Longrightarrow>
    \<exists>ps. detect_memory_loop fuel reads_back r0 (2 ^ k) = Some (of_nat (E - 1), ps) \<and> (\<forall>p \<in> set ps. unat r0 < unat p)"
proof (induction k arbitrary: r0 fuel)
  case k: 0
  have stop: "detect_memory_loop (Suc f) reads_back r (2 ^ 0) = Some (of_nat (E - 1), [r + 2 ^ 0]) \<and> unat r < unat (r + 2 ^ 0)"
    if "unat r < E" "E \<le> unat r + 1" for r f
  proof -
    have "E - 1 = unat r" using that by simp
    then show ?thesis using detect_step [OF rb _ that(1) E, of 0 f] next_probe [OF _ that(1) E, of 0] that(2) by simp
  qed
  obtain f where f: "fuel = Suc (Suc f)" using k(5) by (cases fuel; cases "fuel - 1") auto
  note n = next_probe [OF k(1,2) E k(4)]
  show ?case
  proof (cases "unat r0 + 2 ^ 0 < E")
    case True
    from stop [of "r0 + 2 ^ 0" f] True k(3) n(1) show ?thesis
      using detect_step [OF rb k(1,2) E k(4), of "Suc f"] by (simp add: f)
  qed (use stop [of r0 "Suc f"] k(2) f in simp)
next
  case (Suc k)
  have p: "(2 :: nat) ^ k dvd 2 ^ Suc k" by simp
  have stop: "\<exists>ps. detect_memory_loop (Suc f) reads_back r (2 ^ Suc k) = Some (of_nat (E - 1), ps) \<and> (\<forall>p \<in> set ps. unat r < unat p)"
    if r: "unat r mod 2 ^ Suc k = 0" "unat r < E" "E \<le> unat r + 2 ^ Suc k" and f: "2 * Suc k \<le> f" for r f
  proof -
    have "unat r mod 2 ^ k = 0" using r(1) p by (metis dvd_trans mod_0_imp_dvd dvd_imp_mod_0)
    from Suc.IH [OF this r(2) _ _ f] r(3) Suc.prems(4) obtain ps where
      "detect_memory_loop f reads_back r (2 ^ k) = Some (of_nat (E - 1), ps)" "\<forall>p \<in> set ps. unat r < unat p" by auto
    then show ?thesis using detect_step [OF rb r(1,2) E Suc.prems(4), of f] next_probe(1) [OF r(1,2) E Suc.prems(4)] r(3) by simp
  qed
  obtain f where f: "fuel = Suc (Suc f)" "2 * Suc k \<le> f" using Suc.prems(5) by (cases fuel; cases "fuel - 1") auto
  note n = next_probe(1) [OF Suc.prems(1,2) E Suc.prems(4)]
  show ?case
  proof (cases "unat r0 + 2 ^ Suc k < E")
    case True
    have "unat (r0 + 2 ^ Suc k) mod 2 ^ Suc k = 0" unfolding n using Suc.prems(1) by simp
    from stop [OF this _ _ f(2)] True Suc.prems(3) n obtain ps where
      "detect_memory_loop (Suc f) reads_back (r0 + 2 ^ Suc k) (2 ^ Suc k) = Some (of_nat (E - 1), ps)"
      "\<forall>p \<in> set ps. unat (r0 + 2 ^ Suc k) < unat p" by auto
    then show ?thesis using detect_step [OF rb Suc.prems(1,2) E Suc.prems(4), of "Suc f"] True n f(1) by fastforce
  next
    case False
    then show ?thesis using stop [OF Suc.prems(1,2) _ , of "Suc f"] f by simp
  qed
qed

text \<open>
  \<^bold>\<open>The size of RAM.\<close> When exactly the addresses below \<open>E\<close> read back, and \<open>E\<close> is at most the address of the peripherals, \<open>detect_memory\<close>
  ends with the last of them, one less than the size. With more than 256 MiB it writes to no address below 256 MiB.
\<close>

theorem detect_memory_finds_end:
  assumes rb: "\<forall>a. reads_back a \<longleftrightarrow> unat a < E" and E: "0 < E" "E \<le> 0x3F000000"
  shows "\<exists>ps. detect_memory reads_back = Some (of_nat (E - 1), ps) \<and> (0x10000000 < E \<longrightarrow> (\<forall>p \<in> set ps. 0x10000000 \<le> unat p))"
proof -
  have steps: "\<exists>ps. detect_memory_loop (64 + n) reads_back r (2 ^ 28) = Some (of_nat (E - 1), ps) \<and> (\<forall>p \<in> set ps. unat r < unat p)"
    if "unat r mod 2 ^ 28 = 0" "unat r < E" "E \<le> unat r + (n + 2) * 2 ^ 28" for n r
    using that
  proof (induction n arbitrary: r)
    case 0
    then show ?case using detect_halving [OF rb E(2) 0(1,2)] by simp
  next
    case (Suc n)
    show ?case
    proof (cases "unat r + 2 ^ 28 < E")
      case True
      note n = next_probe(1) [OF Suc.prems(1,2) E(2) order_refl]
      from Suc.IH [of "r + 2 ^ 28"] True Suc.prems n obtain ps where
        "detect_memory_loop (64 + n) reads_back (r + 2 ^ 28) (2 ^ 28) = Some (of_nat (E - 1), ps)" "\<forall>p \<in> set ps. unat (r + 2 ^ 28) < unat p"
        by (auto simp: algebra_simps)
      then show ?thesis using detect_step [OF rb Suc.prems(1,2) E(2), of "64 + n"] True n by fastforce
    next
      case False
      then show ?thesis using detect_halving [OF rb E(2) Suc.prems(1,2), of "64 + Suc n"] by simp
    qed
  qed
  show ?thesis
  proof (cases "0x10000000 < E")
    case False
    from steps [of 0 36] E show ?thesis using False by (auto simp: detect_memory_def)
  next
    case True
    from steps [of "0x10000000" 35] E True obtain ps where
      ps: "detect_memory_loop 99 reads_back 0x10000000 (2 ^ 28) = Some (of_nat (E - 1), ps)" "\<forall>p \<in> set ps. 0x10000000 < unat p" by auto
    have "detect_memory reads_back = Some (of_nat (E - 1), 0x10000000 # ps)"
      using detect_step [OF rb _ _ E(2), of 0 28 99] E(1) True ps(1) by (simp add: detect_memory_def)
    then show ?thesis using ps(2) by fastforce
  qed
qed

text \<open>A board of 1 GiB, as the README starts it: the peripherals end RAM at \<open>0x3F000000\<close>, and a word at the last three bytes reaches over it.\<close>

theorem detect_memory_finds_end_witness:
  "\<exists>ps. detect_memory (\<lambda>a. unat a < 0x3EFFFFFD) = Some (0x3EFFFFFC, ps) \<and> (\<forall>p \<in> set ps. 0x10000000 \<le> unat p)"
  using detect_memory_finds_end [of "\<lambda>a. unat a < 0x3EFFFFFD" "0x3EFFFFFD"] by auto

end
