(* ===== verification/Boot.thy ===== *)
theory Boot
  imports Interrupts Mem_Alloc Memory_Detection
begin

section \<open>The boot sequence: \<open>common/start.c\<close>\<close>

text \<open>
  \<open>start\<close> is what the assembly start-up calls: it brings up one component after the other, each on what those before it
  have set up. The state of the kernel is the machine, the heap and the timers; the virtual memory is part of the first two,
  and handed from one to the other. The theory also holds the texts \<open>start\<close> prints, those of \<open>print_hardwareinfo\<close> and \<open>splash\<close>,
  and the end of the kernel, \<open>panic\<close>. The lines \<open>start\<close> itself prints with \<open>INFO\<close> depend on the log level, which is an argument; what the functions it
  calls print with \<open>INFO\<close>, \<open>DEBUG\<close> and \<open>TRACE\<close> at log level 2 and above is left out, as everywhere.
\<close>

subsection \<open>Texts\<close>

text \<open>\<open>kprintf\<close> of bytes, and of one text after the other.\<close>

definition print_bytes :: "machine \<Rightarrow> u8 list \<Rightarrow> fault + machine" where
  "print_bytes m bs = bindE (kprint m (cstr_obj bs) 0 []) (\<lambda>(_, m). Inr m)"

primrec print_all :: "machine \<Rightarrow> u8 list list \<Rightarrow> fault + machine" where
  "print_all m [] = Inr m"
| "print_all m (bs # rest) = bindE (print_bytes m bs) (\<lambda>m. print_all m rest)"

text \<open>The box drawing characters of the splash screen, three bytes each in UTF-8.\<close>

definition glyph :: "char \<Rightarrow> u8 list" where
  "glyph c =
     (if c = CHR ''#'' then [0xE2, 0x96, 0x88]
      else if c = CHR ''7'' then [0xE2, 0x95, 0x97]
      else if c = CHR ''r'' then [0xE2, 0x95, 0x94]
      else if c = CHR ''j'' then [0xE2, 0x95, 0x9D]
      else if c = CHR ''L'' then [0xE2, 0x95, 0x9A]
      else if c = CHR ''='' then [0xE2, 0x95, 0x90]
      else if c = CHR ''|'' then [0xE2, 0x95, 0x91]
      else [of_char c])"

definition splash_lines :: "string list" where
  "splash_lines =
     [nl @ nl,
      [CHR 0x09] @ '' ######7##7   ##7######7 #######7#######7######7    ######7  ######7'' @ nl,
      [CHR 0x09] @ ''##r====j##|   ##|##r==##7##r====j##r====j##r===##7 ##r===##7##r====j'' @ nl,
      [CHR 0x09] @ ''##|     ##|   ##|######rj#######7#####7  ##|   ##| ##|   ##|#######7'' @ nl,
      [CHR 0x09] @ ''##|     ##|   ##|##r==##7L====##|##r==j  ##|   ##| ##|   ##|L====##|'' @ nl,
      [CHR 0x09] @ ''L######7L######rj##|  ##|#######|#######7######rj  L######rj######|'' @ nl @ nl @ nl]"

definition splash :: "machine \<Rightarrow> fault + machine" where
  "splash m = print_all m (map (\<lambda>l. concat (map glyph l)) splash_lines)"

definition panic_lines :: "string list" where
  "panic_lines =
     [''Kernel panic!'' @ nl,
      nl @ ''     )                        (                     '' @ nl,
      ''  ( /(                   (    )'' @ [CHR 0x5C] @ '' )                  '' @ nl,
      ''  )'' @ [CHR 0x5C] @ ''()) (  (           ( )'' @ [CHR 0x5C] @ ''  (()/(   )      (       '' @ nl,
      ''|((_)'' @ [CHR 0x5C] @ '' ))'' @ [CHR 0x5C] @ '' )(   (     ))((_)  /(_)| /(  (   )'' @ [CHR 0x5C] @ ''  (   '' @ nl,
      ''|_ ((_)((_|()'' @ [CHR 0x5C] @ ''  )'' @ [CHR 0x5C] @ '' ) /((_)   (_)) )(_)) )'' @ [CHR 0x5C] @ '' |(_) )'' @ [CHR 0x5C] @ ''  '' @ nl,
      ''| |/ (_))  ((_)_(_/((_))| |  | _ ((_)_ _(_/((_)((_) '' @ nl,
      ''  '' @ [CHR 0x27] @ '' </ -_)| '' @ [CHR 0x27] @ ''_| '' @ [CHR 0x27] @ '' '' @ [CHR 0x5C] @ '')) -_) |  |  _/ _'' @ [CHR 0x60] @ '' | '' @ [CHR 0x27] @ '' '' @ [CHR 0x5C] @ '')) / _|  '' @ nl,
      '' _|'' @ [CHR 0x5C] @ ''_'' @ [CHR 0x5C] @ ''___||_| |_||_|'' @ [CHR 0x5C] @ ''___|_|  |_| '' @ [CHR 0x5C] @ ''__,_|_||_||_'' @ [CHR 0x5C] @ ''__|'' @ nl]"

text \<open>The state in which \<open>panic\<close> leaves the kernel: it ends in the semihosting call or the loop after it.\<close>

definition panic :: "machine \<Rightarrow> fault + machine" where
  "panic m = bindE (disable_interrupt m BOTH) (\<lambda>m. print_all m (map ascii panic_lines))"

definition print_hardwareinfo :: "HardwareInfo \<Rightarrow> machine \<Rightarrow> fault + machine" where
  "print_hardwareinfo info m =
     bindE (say m (''=============================================='' @ nl) []) (\<lambda>m.
     bindE (say m (''Hardware info detected:'' @ nl) []) (\<lambda>m.
     bindE (case cpuType info of
              ARM1176 \<Rightarrow> say m (''CPU type: %s'' @ nl) [VStr (cstr_obj (ascii ''ARM 1176'')) 0]
            | CortexA7 \<Rightarrow> say m (''CPU type: %s'' @ nl) [VStr (cstr_obj (ascii ''Cortex A7'')) 0]) (\<lambda>m.
     bindE (case boardType info of
              RaspberryPiZero \<Rightarrow> say m (''Board type: %s'' @ nl) [VStr (cstr_obj (ascii ''Raspberry Pi zero or 1b+'')) 0]
            | RaspBerryPiTwo \<Rightarrow> say m (''Board type: %s'' @ nl) [VStr (cstr_obj (ascii ''Raspberry Pi two'')) 0]
            | VersatilePB \<Rightarrow> say m (''Board type: %s'' @ nl) [VStr (cstr_obj (ascii ''Versatile PB'')) 0]) (\<lambda>m.
     say m (''=============================================='' @ nl) []))))"

subsection \<open>\<open>start\<close>\<close>

record kernel_state =
  kmachine :: machine
  kheap_world :: heap_world
  ktimers :: timer_state
  hardware_info :: HardwareInfo

text \<open>The heap works on the tables of the machine.\<close>

definition on_heap :: "(heap_world \<Rightarrow> fault + ('a \<times> heap_world)) \<Rightarrow> kernel_state \<Rightarrow> fault + ('a \<times> kernel_state)" where
  "on_heap f k =
     bindE (f ((kheap_world k)\<lparr>hvm := mvm (kmachine k)\<rparr>)) (\<lambda>(r, w).
     Inr (r, k\<lparr>kmachine := (kmachine k)\<lparr>mvm := hvm w\<rparr>, kheap_world := w\<rparr>))"

definition on_machine :: "(machine \<Rightarrow> fault + machine) \<Rightarrow> kernel_state \<Rightarrow> fault + kernel_state" where
  "on_machine f k = bindE (f (kmachine k)) (\<lambda>m. Inr (k\<lparr>kmachine := m\<rparr>))"

text \<open>
  \<open>chipset.late_init()\<close>. The queue of the timers takes two chunks from the heap: the handle, and the array of eleven pointers.
\<close>

definition kernel_late_init :: "kernel_state \<Rightarrow> fault + kernel_state" where
  "kernel_late_init k =
     (case late_init (chipset (kmachine k)) of
        None \<Rightarrow> Inl NullDeref
      | Some Bcm2836_late_init \<Rightarrow>
          (let g = heap_grant ((kheap_world k)\<lparr>hvm := mvm (kmachine k)\<rparr>) in
           bindE (on_heap (\<lambda>w. allocate heap_fuel w 12) k) (\<lambda>(_, k).
           let g' = heap_grant (kheap_world k) in
           bindE (on_heap (\<lambda>w. allocate heap_fuel w 44) k) (\<lambda>(_, k).
           bindE (bcm2836_late_init g g' (ktimers k)) (\<lambda>t.
           Inr (k\<lparr>ktimers := t\<rparr>)))))
      | Some _ \<Rightarrow> Inl WrongMember)"

text \<open>\<open>INFO\<close> prints at log level 2 and above.\<close>

definition INFO :: "nat \<Rightarrow> machine \<Rightarrow> string \<Rightarrow> varg list \<Rightarrow> fault + machine" where
  "INFO log_level m fmt args =
     (if log_level > 1
      then bindE (kprint m (cstr_obj (esc # ascii ''[96m[INFO]'' @ esc # ascii ''[0m '' @ ascii fmt @ [0x0A])) 0 args) (\<lambda>(_, m). Inr m)
      else Inr m)"

text \<open>
  \<open>midr\<close> is the main ID register, \<open>address\<close> gives the addresses of the handlers, \<open>kernel_top\<close> the end of the kernel, \<open>log_level\<close> the one the kernel is
  built with, \<open>memory_size\<close> what \<open>detect_memory\<close> found. After the last step the processor sleeps, and only interrupts run.
\<close>

definition start :: "nat \<Rightarrow> u32 \<Rightarrow> (handler \<Rightarrow> u32) \<Rightarrow> u32 \<Rightarrow> u32 \<Rightarrow> kernel_state \<Rightarrow> fault + kernel_state" where
  "start log_level midr address kernel_top memory_size k =
     bindE (init_hardwareinfo midr) (\<lambda>info.
     let k = k\<lparr>hardware_info := info\<rparr> in
     bindE (on_machine (init_chipset info) k) (\<lambda>k.
     bindE (on_machine (\<lambda>m. INFO log_level m ''Detected memory size: 0x%x Bytes'' [VInt memory_size]) k) (\<lambda>k.
     bindE (on_machine (\<lambda>m. INFO log_level m ''Started chipset specific handlers'' []) k) (\<lambda>k.
     bindE (on_machine (print_hardwareinfo info) k) (\<lambda>k.
     bindE (detect_boardtype midr) (\<lambda>_.
     bindE (on_machine (\<lambda>m. INFO log_level m ''Initializing the physical and virtual memory managers.'' []) k) (\<lambda>k.
     bindE (on_machine (\<lambda>m. bindE (vm2_start info kernel_top (mvm m) memory_size) (\<lambda>s. Inr (m\<lparr>mvm := s\<rparr>))) k) (\<lambda>k.
     bindE (on_machine (\<lambda>m. INFO log_level m ''Setting up interrupt vector tables'' []) k) (\<lambda>k.
     bindE (on_machine (init_vector_table address) k) (\<lambda>k.
     bindE (on_machine (\<lambda>m. INFO log_level m ''Setting up heap'' []) k) (\<lambda>k.
     bindE (on_heap (init_heap heap_fuel) k) (\<lambda>(_, k).
     bindE (on_machine splash k) (\<lambda>k.
     bindE (on_machine (\<lambda>m. enable_interrupt m BOTH) k) (\<lambda>k.
     bindE (kernel_late_init k) (\<lambda>k.
     bindE (on_machine (\<lambda>m. enable_interrupt m IRQ) k) (\<lambda>k.
     on_machine (\<lambda>m. INFO log_level m (''End of boot sequence.'' @ nl) []) k))))))))))))))))"

subsection \<open>What is printed\<close>

lemma print_bytes_sent:
  assumes "uart_ready m" and "percent \<notin> set bs" and "0 \<notin> set bs" and "length bs \<le> 254"
  shows "print_bytes m bs = Inr (sent m bs)"
proof -
  have "cstr (cstr_obj bs) 0 bs" using assms(3,4) by (intro cstr_obj_cstr) simp_all
  from kprint_sent [OF assms(1) format_plain [OF assms(2), of 0 "[]"] this _ assms(3,4)] show ?thesis by (auto simp: print_bytes_def)
qed

definition printable :: "u8 list \<Rightarrow> bool" where
  "printable bs \<longleftrightarrow> percent \<notin> set bs \<and> 0 \<notin> set bs \<and> length bs \<le> 254"

lemma print_all_sent:
  "uart_ready m \<Longrightarrow> \<forall>bs \<in> set bss. printable bs \<Longrightarrow> print_all m bss = Inr (sent m (concat bss))"
proof (induction bss arbitrary: m)
  case Nil
  show ?case by (simp add: sent_def)
next
  case (Cons bs bss)
  then show ?case using print_bytes_sent [of m bs] by (simp add: printable_def)
qed

lemma glyph_printable:
  assumes "\<forall>c \<in> set l. of_char c \<noteq> percent \<and> of_char c \<noteq> (0 :: u8)" and "length l \<le> 84"
  shows "printable (concat (map glyph l))"
proof -
  have "b \<noteq> percent \<and> b \<noteq> 0" if "c \<in> set l" "b \<in> set (glyph c)" for b c
    using that assms(1) by (auto simp: glyph_def split: if_splits)
  moreover have "length (concat (map glyph l)) \<le> 3 * length l"
    by (induction l) (auto simp: glyph_def)
  ultimately show ?thesis using assms(2) unfolding printable_def by fastforce
qed

text \<open>A line of \<open>INFO\<close> reaches the UART, and there is none below level 2.\<close>

definition prints_line :: "nat \<Rightarrow> (machine \<Rightarrow> fault + machine) \<Rightarrow> bool" where
  "prints_line log_level f \<longleftrightarrow> (\<exists>out. (log_level < 2 \<longrightarrow> out = []) \<and> (\<forall>m. uart_ready m \<longrightarrow> f m = Inr (sent m out)))"

lemma INFO_sent:
  assumes "0 \<notin> set (ascii fmt)" and "length fmt \<le> 200" and args: "list_all2 arg_ok args fargs"
    and out: "format 0 (esc # ascii ''[96m[INFO]'' @ esc # ascii ''[0m '' @ ascii fmt @ [0x0A]) fargs = Some out"
  shows "prints_line lvl (\<lambda>m. INFO lvl m fmt args)"
proof (cases "1 < lvl")
  case True
  let ?f = "esc # ascii ''[96m[INFO]'' @ esc # ascii ''[0m '' @ ascii fmt @ [0x0A]"
  have "cstr (cstr_obj ?f) 0 ?f" using assms(1,2) by (intro cstr_obj_cstr) (simp_all add: ascii_def esc_def)
  from kprintf_format [OF out this args] show ?thesis using True unfolding prints_line_def
    by (intro exI [of _ "takeWhile (\<lambda>c. c \<noteq> 0) (take 254 out)"]) (simp add: INFO_def kprint_def putc_all_sent)
next
  case False
  then show ?thesis unfolding prints_line_def by (intro exI [of _ "[]"]) (simp add: INFO_def sent_def)
qed

lemma INFO_size: "prints_line lvl (\<lambda>m. INFO lvl m ''Detected memory size: 0x%x Bytes'' [VInt v])"
proof -
  have "\<exists>out. format 0 (esc # ascii ''[96m[INFO]'' @ esc # ascii ''[0m '' @ ascii ''Detected memory size: 0x%x Bytes'' @ [0x0A]) [FInt v] = Some out"
    by (simp add: ascii_def esc_def format.simps directive_def)
  then show ?thesis using INFO_sent [of "''Detected memory size: 0x%x Bytes''" "[VInt v]" "[FInt v]" _ lvl]
    by (auto simp: ascii_def)
qed

lemma INFO_lines:
  assumes "fmt \<in> {''Started chipset specific handlers'', ''Initializing the physical and virtual memory managers.'',
      ''Setting up interrupt vector tables'', ''Setting up heap'', ''End of boot sequence.'' @ nl}"
  shows "prints_line lvl (\<lambda>m. INFO lvl m fmt [])"
proof (rule INFO_sent [OF _ _ _ format_plain])
  show "percent \<notin> set (esc # ascii ''[96m[INFO]'' @ esc # ascii ''[0m '' @ ascii fmt @ [0x0A])" "0 \<notin> set (ascii fmt)" "length fmt \<le> 200"
    using assms by (auto simp: ascii_def nl_def esc_def)
qed simp

definition splash_text :: "u8 list" where
  "splash_text = concat (map (\<lambda>l. concat (map glyph l)) splash_lines)"

lemma splash_sent: "uart_ready m \<Longrightarrow> splash m = Inr (sent m splash_text)"
  unfolding splash_def splash_text_def
proof (rule print_all_sent)
  have "\<forall>l \<in> set splash_lines. (\<forall>c \<in> set l. of_char c \<noteq> percent \<and> of_char c \<noteq> (0 :: u8)) \<and> length l \<le> 84"
    by (simp add: splash_lines_def nl_def)
  then show "\<forall>bs \<in> set (map (\<lambda>l. concat (map glyph l)) splash_lines). printable bs" using glyph_printable by simp
qed

lemma panic_sent:
  assumes "uart_ready m"
  shows "panic m = Inr (sent (m\<lparr>cpsr := cpsr m OR 0xC0\<rparr>) (concat (map ascii panic_lines)))"
proof -
  have "\<forall>bs \<in> set (map ascii panic_lines). printable bs"
    by (simp add: panic_lines_def nl_def printable_def ascii_def)
  moreover have "uart_ready (m\<lparr>cpsr := cpsr m OR 0xC0\<rparr>)" using assms by (simp add: uart_ready_def translate_def)
  ultimately show ?thesis
    by (simp add: panic_def disable_interrupt_def interrupt_bits_def BOTH_def IRQ_def FIQ_def print_all_sent)
qed

subsection \<open>The kernel's table at boot\<close>

text \<open>A run of sections from \<open>v\<close> on makes sections of the entries of its mebibytes.\<close>

lemma sections_type:
  assumes "n \<le> 4096"
  shows "take_bit 2 (l1_slot (map_sections n m v p) kernell1PageTable w) \<in> {2, take_bit 2 (l1_slot m kernell1PageTable w)}"
proof (cases "\<exists>k < n. l1pt_index w = l1pt_index (v + of_nat k * Mebibyte)")
  case True
  then obtain k where k: "k < n" "l1pt_index w = l1pt_index (v + of_nat k * Mebibyte)" by blast
  then have "l1_slot (map_sections n m v p) kernell1PageTable w = ram_section (p + of_nat k * Mebibyte)"
    using map_sections_slot [OF assms k(1), of m v p] by (simp add: l1_slot_def)
  then show ?thesis by (simp add: ram_section_def stored_section take_bit_small)
next
  case False
  then show ?thesis using map_sections_other [of n w v m p] by (simp add: l1_slot_def)
qed

lemma walk_slot:
  "l1_slot m' t v = l1_slot m t v \<Longrightarrow> take_bit 2 (l1_slot m t v) \<noteq> 1 \<Longrightarrow> walk m' t v = walk m t v"
  by (simp add: walk_def)

lemma mappable_slot:
  "l1_slot m' t v = l1_slot m t v \<Longrightarrow> take_bit 2 (l1_slot m t v) = 0 \<Longrightarrow> mappable m' t v b"
  by (simp add: mappable_def Let_def)

text \<open>What \<open>bcm2836_init\<close> does to the table and the UART.\<close>

lemma peripheral_loop_pmm:
  "pmm (vm2_map_peripheral_loop n s p) = (pmm s)\<lparr>words := map_sections n (words (pmm s)) (mmio_current_top s) p\<rparr>"
  by (induction n arbitrary: s p) (simp_all add: write_word_def ram_section_def Let_def)

lemma bcm2836_init_boot:
  assumes "mmio_current_top (mvm m) = KERNEL_MMIO_BASE"
  shows "words (pmm (mvm (bcm2836_init m))) = map_sections 16 (map_sections 4 (words (pmm (mvm m))) 0xFFB00000 0x40000000) 0xFEB00000 0x3F000000"
    "sinfo (pmm (mvm (bcm2836_init m))) = sinfo (pmm (mvm m))" "uart_address (bcm2836_init m) 0 = 0xFED01000"
    "cpsr (bcm2836_init m) = cpsr m" "sctlr (bcm2836_init m) = sctlr m"
  using assms
  by (simp_all add: bcm2836_init_def bcm2836_uart_init_def vm2_map_peripheral_def Let_def vm2_map_peripheral_loop_words peripheral_loop_pmm
      KERNEL_MMIO_BASE_def Gibibyte_def Mebibyte_eq BCM2836_REGISTERS_PHYSICAL_BASE_def BCM2836_PERIPHERALS_PHYSICAL_BASE_def)

text \<open>\<open>vm2_start\<close> succeeds, with at least 36 slices left.\<close>

lemma table_apart:
  assumes "unat (sl :: u32) \<ge> 0x80008000 \<or> sl = 0" and "a \<in> kernel_table"
  shows "8192 \<le> unat (a - sl)"
proof -
  obtain d where d: "a = 0x80004000 + d" "unat d < 16384"
    using assms(2) by (intro that [of "a - 0x80004000"])
      (simp_all add: kernel_table_def kernell1PageTable_def VirtualL1PagetableLocation_def KERNEL_VIRTUAL_OFFSET_def)
  then have a: "unat a = 0x80004000 + unat d" using unat_add_no_wrap [of "0x80004000" d] by simp
  show ?thesis
  proof (cases "sl = 0")
    case False
    then have sl: "unat a < unat sl" using assms(1) a d(2) by simp
    have "unat a = (unat (a - sl) + unat sl) mod 4294967296" using unat_word_ariths(1) [of "a - sl" sl] by simp
    moreover have "unat a = unat (a - sl) + unat sl - 4294967296" if "4294967296 \<le> unat (a - sl) + unat sl" "unat (a - sl) < 8192"
      using calculation that u32_unat_lt [of sl] by (simp add: le_mod_geq)
    moreover have "unat a = unat (a - sl) + unat sl" if "unat (a - sl) + unat sl < 4294967296"
      using calculation(1) that by simp
    ultimately show ?thesis using a sl u32_unat_lt [of sl] by linarith
  qed (simp add: a)
qed

lemma vm2_start_ok:
  assumes hw: "boardType hw = RaspBerryPiTwo" "peripheral_base_address hw = 0x3F000000"
    and top: "unat kernel_top mod 8192 = 0" "0x80008000 \<le> unat kernel_top"
    and size: "unat kernel_top + 8192 * 40 \<le> 0x80000000 + unat memory_size" "unat memory_size \<le> 0x3F000000"
    and ram: "\<forall>x. sinfo (pmm s) x = zero_sliceinfo"
    and coarse: "\<And>v. take_bit 2 (l1_slot (words (pmm s)) kernell1PageTable v) \<noteq> 1"
  shows "\<exists>s' U. vm2_start hw kernel_top s memory_size = Inr s' \<and> kernel_ok s' U 36 \<and> mmu_started s' \<and>
    words (pmm s') = map_sections 1024 ((words (pmm s))(entry_address kernell1PageTable 0 := 0)) 0x80000000 0"
proof -
  let ?s0 = "write_word s (entry_address kernell1PageTable 0) 0"
  let ?fin = "KERNEL_VIRTUAL_OFFSET + memory_size"
  let ?n = "pmm_init_rounds kernel_top ?fin"
  have a: "available_RAM hw memory_size = 0x40000000" by (simp add: available_RAM_def hw(1) Gibibyte_def Mebibyte_eq)
  from vm2_map_ram_words [of "0x40000000" 1024 0 4097 ?s0] obtain s1 where
    s1: "vm2_map_ram 4097 ?s0 0 0x40000000 = Inr s1" "sinfo (pmm s1) = sinfo (pmm s)"
      "words (pmm s1) = map_sections 1024 ((words (pmm s))(entry_address kernell1PageTable 0 := 0)) 0x80000000 0"
    by (auto simp: write_word_def KERNEL_VIRTUAL_OFFSET_def)
  have fin: "unat ?fin = 0x80000000 + unat memory_size"
    using size(2) by (subst unat_add_no_wrap) (simp_all add: KERNEL_VIRTUAL_OFFSET_def)
  have st: "unat (kernel_top + slice_size) = unat kernel_top + 8192"
    using size by (subst unat_add_no_wrap) (simp_all add: slice_size_def)
  have "kernel_top + slice_size < ?fin" using size(1) by (simp add: u32_less_unat fin st)
  moreover from this have "unat (?fin - (kernel_top + slice_size)) = unat ?fin - (unat kernel_top + 8192)"
    using st by (subst unat_sub_no_wrap) simp_all
  ultimately have n: "?n = (unat ?fin - (unat kernel_top + 8192) + 8191) div 8192" by (simp add: pmm_init_rounds_def)
  have n40: "39 \<le> ?n" using size(1) unfolding n fin by simp
  have n8: "8192 * ?n \<le> unat ?fin - (unat kernel_top + 8192) + 8191" unfolding n by simp
  then have nb: "unat kernel_top + 8192 * Suc ?n \<le> unat ?fin + 8191" using size(1) fin by simp
  have off: "unat (slice_at kernel_top k) = unat kernel_top + 8192 * k" if "k < Suc ?n" for k
  proof -
    have "unat kernel_top + 8192 * k < 2 ^ 32" using that nb fin size(2) by simp
    moreover from this have "unat (of_nat (8192 * k) :: u32) = 8192 * k" by (intro unat_of_nat_u32) simp
    ultimately show ?thesis unfolding slice_at_def by (subst unat_add_no_wrap) simp_all
  qed
  have free: "\<forall>k < Suc ?n. \<not> address_in_reserved_region hw (slice_at kernel_top k)"
  proof (intro allI impI)
    fix k assume k: "k < Suc ?n"
    have "unat (slice_at kernel_top k - KERNEL_VIRTUAL_OFFSET) = unat kernel_top + 8192 * k - 0x80000000"
      using off [OF k] top(2) by (subst unat_sub_no_wrap) (simp_all add: KERNEL_VIRTUAL_OFFSET_def u32_le_unat)
    moreover have "unat kernel_top + 8192 * k < unat ?fin" using k n8 size(1) fin by simp
    ultimately have "\<not> 0x3F000000 \<le> unat (slice_at kernel_top k - KERNEL_VIRTUAL_OFFSET)" using size(2) fin by linarith
    then show "\<not> address_in_reserved_region hw (slice_at kernel_top k)"
      by (simp add: address_in_reserved_region_def hw(2) u32_le_unat)
  qed
  have nn: "36 + Suc ?n div 512 \<le> ?n" using n40 by simp
  have "\<exists>p. pmm_init hw (sinfo (pmm s1)) (words (pmm s1)) kernel_top ?fin = Inr p \<and>
      pool_with p (insert (BucketInfo, kernel_top) (new_buckets kernel_top 1 ?n)) 36"
  proof (rule pmm_init_with [OF _ top(1) _ _ free nn])
    show "kernel_top \<noteq> NULL" using top(2) by auto
    show "unat kernel_top + 8192 * Suc ?n < 2 ^ 32" using nb fin size(2) by simp
  qed (simp add: s1(2) ram zero_sliceinfo_def)
  then obtain p where p: "pmm_init hw (sinfo (pmm s1)) (words (pmm s1)) kernel_top ?fin = Inr p"
    "pool_with p (insert (BucketInfo, kernel_top) (new_buckets kernel_top 1 ?n)) 36" by blast
  let ?s' = "(vm2_flush_caches (vm2_set_user_pagetable (s1\<lparr>pmm := p\<rparr>) NULL))\<lparr>mmu_started := True\<rparr>"
  have run: "vm2_start hw kernel_top s memory_size = Inr ?s'" using s1(1) p(1) by (simp add: vm2_start_def Let_def a)
  have ps: "pmm ?s' = p" by (simp add: vm2_flush_caches_def vm2_set_user_pagetable_def)
  have w: "words p = map_sections 1024 ((words (pmm s))(entry_address kernell1PageTable 0 := 0)) 0x80000000 0"
    using pmm_init_words [OF p(1)] s1(3) by simp
  have "table_reserved p"
    unfolding table_reserved_def
  proof (intro allI ballI)
    fix x a assume a: "a \<in> kernel_table"
    have "unat (slice (sinfo p x)) \<ge> 0x80008000 \<or> slice (sinfo p x) = 0"
      using pmm_init_slices [OF p(1), of x] off top(2) by (auto simp: s1(2) ram zero_sliceinfo_def less_Suc_eq_le)
    then show "8192 \<le> unat (a - slice (sinfo p x))" by (rule table_apart [OF _ a])
  qed
  moreover have "take_bit 2 (l1_slot (words p) kernell1PageTable v) \<noteq> 1" for v
  proof -
    let ?W = "(words (pmm s))(entry_address kernell1PageTable 0 := 0)"
    have "take_bit 2 (l1_slot ?W kernell1PageTable v) \<noteq> 1" using coarse [of v] by (simp add: l1_slot_def)
    then show ?thesis using sections_type [of 1024 ?W "0x80000000" 0 v] unfolding w by auto
  qed
  ultimately have "kernel_ok ?s' (insert (BucketInfo, kernel_top) (new_buckets kernel_top 1 ?n)) 36"
    using p(2) by (simp add: kernel_ok_def coarse_ok_def ps)
  then show ?thesis using run w ps by (intro exI [of _ ?s'] exI conjI) (simp_all del: map_sections.simps)
qed

subsection \<open>The pages of the heap\<close>

lemma same_page_unat: "drop_bit 12 x = drop_bit 12 (y :: u32) \<longleftrightarrow> unat x div 4096 = unat y div 4096"
  by (simp add: word_unat_eq_iff unat_drop_bit)

lemma div_page: "(n :: nat) div 4096 = q \<longleftrightarrow> 4096 * q \<le> n \<and> n < 4096 * q + 4096"
proof
  assume "n div 4096 = q"
  then show "4096 * q \<le> n \<and> n < 4096 * q + 4096"
    using div_mult_mod_eq [of n 4096] mod_less_divisor [of 4096 n] by (simp add: algebra_simps)
qed (intro div_nat_eqI; simp)

lemma extendsD:
  assumes "extends E s U s' U'" and "\<not> E x"
  shows "walk (words (pmm s')) kernell1PageTable x = walk (words (pmm s)) kernell1PageTable x"
    "mappable (words (pmm s)) kernell1PageTable x False \<Longrightarrow> mappable (words (pmm s')) kernell1PageTable x False"
  using assms by (auto simp: extends_def)

lemma kernel_page_ok:
  assumes "kernel_ok (hvm w) U (Suc (Suc n))" and "mappable (words (pmm (hvm w))) kernell1PageTable v False"
  shows "\<exists>page w' U'. kernel_page w v = Inr (page, w') \<and> page \<noteq> NULL \<and> kernel_ok (hvm w') U' n \<and>
    extends (\<lambda>x. drop_bit 12 x = drop_bit 12 v) (hvm w) U (hvm w') U'"
proof -
  from kernel_map [OF assms, of "\<lparr>access = KernelRW, executable = False\<rparr>"] obtain page s' U' where
    "vm2_allocate_page (hvm w) kernell1PageTable v False \<lparr>access = KernelRW, executable = False\<rparr> None = Inr (page, None, s')"
    "page \<noteq> NULL" "kernel_ok s' U' n" "extends (\<lambda>x. drop_bit 12 x = drop_bit 12 v) (hvm w) U s' U'" by blast
  then show ?thesis by (simp add: kernel_page_def) blast
qed

lemma heap_pages_ok:
  assumes "kernel_ok (hvm w) U (2 * k + n)" and "unat bound = unat e + 4096 * k" and "unat e mod 4096 = 0" and "k < fuel"
    and "\<forall>x. unat e \<le> unat x \<and> unat x < unat bound \<longrightarrow> mappable (words (pmm (hvm w))) kernell1PageTable x False"
  shows "\<exists>w' U'. heap_pages fuel w e bound = Inr (bound, w') \<and> kernel_ok (hvm w') U' n \<and>
    extends (\<lambda>x. unat e \<le> unat x \<and> unat x < unat bound) (hvm w) U (hvm w') U'"
  using assms
proof (induction k arbitrary: w U e fuel)
  case 0
  then have "bound = e" by (simp add: word_unat_eq_iff)
  with 0 show ?case by (cases fuel) (auto intro: extends_refl)
next
  case (Suc k)
  then obtain f where f: "fuel = Suc f" by (cases fuel) auto
  have lt: "e < bound" using Suc.prems(2) by (simp add: u32_less_unat)
  have "kernel_ok (hvm w) U (Suc (Suc (2 * k + n)))" using Suc.prems(1) by simp
  moreover have "mappable (words (pmm (hvm w))) kernell1PageTable e False" using Suc.prems(2,5) by simp
  ultimately obtain page w1 U1 where
    p: "kernel_page w e = Inr (page, w1)" "page \<noteq> NULL" "kernel_ok (hvm w1) U1 (2 * k + n)"
      "extends (\<lambda>x. drop_bit 12 x = drop_bit 12 e) (hvm w) U (hvm w1) U1" using kernel_page_ok by blast
  have e1: "unat (e + PAGE_SIZE) = unat e + 4096"
    using Suc.prems(2) u32_unat_lt [of bound] by (subst unat_add_no_wrap) (simp_all add: PAGE_SIZE_def Kibibyte_def)
  obtain q where q: "unat e = 4096 * q" using Suc.prems(3) by (auto simp: mod_eq_0_iff_dvd dvd_def)
  have pg: "drop_bit 12 x = drop_bit 12 e \<longleftrightarrow> unat e \<le> unat x \<and> unat x < unat e + 4096" for x :: u32
    unfolding same_page_unat by (simp add: div_page q)
  have rest: "\<forall>x. unat (e + PAGE_SIZE) \<le> unat x \<and> unat x < unat bound \<longrightarrow> mappable (words (pmm (hvm w1))) kernell1PageTable x False"
    using Suc.prems(5) extendsD(2) [OF p(4)] pg by (auto simp: e1)
  have "unat bound = unat (e + PAGE_SIZE) + 4096 * k" "unat (e + PAGE_SIZE) mod 4096 = 0" "k < f"
    using Suc.prems(2-4) by (simp_all add: e1 f)
  from Suc.IH [OF p(3) this rest] obtain w' U' where
    r: "heap_pages f w1 (e + PAGE_SIZE) bound = Inr (bound, w')" "kernel_ok (hvm w') U' n"
      "extends (\<lambda>x. unat (e + PAGE_SIZE) \<le> unat x \<and> unat x < unat bound) (hvm w1) U1 (hvm w') U'" by blast
  have "extends (\<lambda>x. unat e \<le> unat x \<and> unat x < unat bound) (hvm w) U (hvm w') U'"
  proof (rule extends_mono [OF extends_trans [OF p(4) r(3)]])
    fix x assume "drop_bit 12 x = drop_bit 12 e \<or> unat (e + PAGE_SIZE) \<le> unat x \<and> unat x < unat bound"
    then show "unat e \<le> unat x \<and> unat x < unat bound" unfolding pg e1 using Suc.prems(2) by (elim disjE; simp)
  qed
  moreover have "heap_pages fuel w e bound = Inr (bound, w')" using lt p(1,2) r(1) by (simp add: f)
  ultimately show ?case using r(2) by blast
qed

abbreviation in_heap :: "u32 \<Rightarrow> bool" where "in_heap x \<equiv> 0xC0000000 \<le> unat x \<and> unat x < 0xC0011000"

lemma init_heap_ok:
  assumes ok: "kernel_ok (hvm w) U 34" and free: "\<forall>x. in_heap x \<longrightarrow> mappable (words (pmm (hvm w))) kernell1PageTable x False"
  shows "\<exists>w' L U'. init_heap heap_fuel w = Inr (0xC0011000, w') \<and> heap_inv w' [(0xC0001000, 65516, True)] L \<and>
    unat (h_end (heap w')) = 0xC0011000 \<and> kernel_ok (hvm w') U' 0 \<and> extends in_heap (hvm w) U (hvm w') U'"
proof -
  have hb: "KERNEL_HEAP_BASE = 0xC0000000" by (simp add: KERNEL_HEAP_BASE_def Gibibyte_def Mebibyte_eq)
  have "kernel_ok (hvm w) U (Suc (Suc 32))" using ok by simp
  moreover have "mappable (words (pmm (hvm w))) kernell1PageTable 0xC0000000 False" using free by simp
  ultimately obtain page w1 U1 where
    p: "kernel_page w 0xC0000000 = Inr (page, w1)" "page \<noteq> NULL" "kernel_ok (hvm w1) U1 32"
      "extends (\<lambda>x. drop_bit 12 x = drop_bit 12 0xC0000000) (hvm w) U (hvm w1) U1" using kernel_page_ok by blast
  have pg: "drop_bit 12 x = drop_bit 12 (0xC0000000 :: u32) \<longleftrightarrow> 0xC0000000 \<le> unat x \<and> unat x < 0xC0001000" for x :: u32
    unfolding same_page_unat by (simp add: div_page)
  let ?w1 = "w1\<lparr>heap := \<lparr>h_start = 0, h_end = 0, bin_head = (\<lambda>_. NULL), bytes_allocated = 0\<rparr>\<rparr>"
  have "kernel_ok (hvm ?w1) U1 (2 * 16 + 0)" using p(3) by simp
  moreover have "\<forall>x. unat (0xC0001000 :: u32) \<le> unat x \<and> unat x < unat (0xC0011000 :: u32) \<longrightarrow>
      mappable (words (pmm (hvm ?w1))) kernell1PageTable x False"
    using free extendsD(2) [OF p(4)] pg by auto
  ultimately obtain w2 U2 where
    r: "heap_pages 17 ?w1 0xC0001000 0xC0011000 = Inr (0xC0011000, w2)" "kernel_ok (hvm w2) U2 0"
      "extends (\<lambda>x. unat (0xC0001000 :: u32) \<le> unat x \<and> unat x < unat (0xC0011000 :: u32)) (hvm ?w1) U1 (hvm w2) U2"
    using heap_pages_ok [of ?w1 U1 16 0 "0xC0011000" "0xC0001000" 17] by auto
  have res: "reserve_heap w = Inr (0xC0011000, w2)"
    using p(1,2) r(1) by (simp add: reserve_heap_def heap_begin [unfolded hb] Let_def HEAP_INIT_SIZE_def hb)
  have "extends in_heap (hvm w) U (hvm w2) U2"
  proof (rule extends_mono)
    show "extends (\<lambda>x. drop_bit 12 x = drop_bit 12 0xC0000000 \<or> unat (0xC0001000 :: u32) \<le> unat x \<and> unat x < unat (0xC0011000 :: u32))
        (hvm w) U (hvm w2) U2" by (rule extends_trans [OF p(4)]) (use r(3) in simp)
    fix x :: u32 assume "drop_bit 12 x = drop_bit 12 0xC0000000 \<or> unat (0xC0001000 :: u32) \<le> unat x \<and> unat x < unat (0xC0011000 :: u32)"
    then show "in_heap x" unfolding pg by (elim disjE; simp)
  qed
  moreover have "heap_fuel \<noteq> 0" by (simp add: heap_fuel_def)
  then obtain f where "heap_fuel = Suc f" using not0_implies_Suc by blast
  then obtain w' L where h: "init_heap heap_fuel w = Inr (0xC0011000, w')" "heap_inv w' [(0xC0001000, 65516, True)] L" "hvm w' = hvm w2"
    using init_heap_fresh [where w = w and fuel = f] by (auto simp: res)
  moreover have "unat (h_end (heap w')) = 0xC0011000" using h(2) by (simp add: heap_inv_def row_ok_def)
  ultimately show ?thesis using r(2) by auto
qed

subsection \<open>The first allocations\<close>

lemma heap_grant_kheap:
  assumes "heap_inv w cs L" and "unat (h_end (heap w)) mod 4096 = 0"
  shows "kheap (heap_grant w)"
proof -
  have "w \<in> {w. (\<exists>cs L. heap_inv w cs L) \<and> unat (h_end (heap w)) mod 4096 = 0}" using assms by blast
  then obtain h where "w = Rep_kernel_heap h" by (rule Rep_kernel_heap_cases) blast
  then show ?thesis using kernel_heap.kheap_axioms by simp
qed

text \<open>An allocation from the hole at the end of a heap without other holes.\<close>

lemma take_from_last:
  assumes inv: "heap_inv w (pre @ [(a, n, True)]) L" and used: "\<forall>c \<in> set pre. \<not> snd (snd c)"
    and page: "unat (h_end (heap w)) mod 4096 = 0" and room: "unat r + 0x2018 \<le> n" "n \<le> 0x1000000" and a: "0 < a"
  shows "\<exists>w' m. heap_alloc heap_fuel w r = Inr (of_nat (a + 8), w') \<and> heap_grant w r = Some m \<and> r \<le> m \<and>
    heap_grows w w' (pre @ [(a, n, True)]) (pre @ [(a, unat r, False), (a + 20 + unat r, n - unat r - 20, True)])"
proof -
  let ?cs = "pre @ [(a, n, True)]"
  have ti: "tiled (unat (h_start (heap w))) (pre @ (a, n, True) # []) (unat (h_end (heap w)))" using inv by (simp add: heap_inv_def row_ok_def)
  have row: "alloc_row a (unat r) ?cs = pre @ [(a, unat r, False), (a + 20 + unat r, n - unat r - 20, True)]"
    using alloc_row_split [OF ti, of "unat r"] room by simp
  have wild: "wild_ok (alloc_row a (unat r) ?cs)" unfolding row using room by (simp add: wild_ok_def wild_size_def) linarith
  have in_cs: "(a, n, True) \<in> set ?cs" by simp
  from heap_alloc_found [OF inv heap_fuel [OF inv] in_cs, of r] room obtain b k where
    b: "best_hole ?cs (unat r) b k" "wild_ok (alloc_row b (unat r) ?cs) \<longrightarrow>
      (\<exists>w' m. heap_alloc heap_fuel w r = Inr (of_nat (b + 8), w') \<and> heap_grows w w' ?cs (alloc_row b (unat r) ?cs) \<and>
        (b, m, False) \<in> set (alloc_row b (unat r) ?cs) \<and> unat r \<le> m \<and>
        bytes_allocated (heap w') = bytes_allocated (heap w) + of_nat m)" by auto
  have ba: "b = a" using b(1) used by (auto simp: best_hole_def)
  with b(2) wild obtain w' where w': "heap_alloc heap_fuel w r = Inr (of_nat (a + 8), w')" "heap_grows w w' ?cs (alloc_row a (unat r) ?cs)"
    by blast
  have "a + 20 + n < 4294967296" by (rule heap_inv_size(3) [OF inv in_cs])
  then have "unat (of_nat (a + 8) :: u32) = a + 8" using room(1) by (intro unat_of_nat_u32) simp
  then have p: "(of_nat (a + 8) :: u32) \<noteq> NULL" by auto
  from heap_alloc_size [OF inv page heap_fuel [OF inv] w'(1) p] obtain m where m: "get_alloc_size w' (of_nat (a + 8)) = Inr m" "r \<le> m"
    by blast
  have "heap_grant w r = Some m" using p by (simp add: heap_grant_def w'(1) m(1) del: of_nat_add)
  then show ?thesis using w' m(2) unfolding row by blast
qed

lemma kernel_late_init_ok:
  assumes inv: "heap_inv (kheap_world k) [(0xC0001000, 65516, True)] L" and page: "unat (h_end (heap (kheap_world k))) mod 4096 = 0"
    and fn: "late_init (chipset (kmachine k)) = Some Bcm2836_late_init" and vm: "hvm (kheap_world k) = mvm (kmachine k)"
  shows "\<exists>w q L'. kernel_late_init k = Inr (k\<lparr>kheap_world := w, ktimers := (ktimers k)\<lparr>core0_timers_control := PHYSICAL_SECURE_TIMER,
      scheduled_timers := q, cntp_ctl := 3\<rparr>\<rparr>) \<and>
    heap_inv w [(0xC0001000, 12, False), (0xC0001020, 44, False), (0xC0001060, 65420, True)] L' \<and> hvm w = mvm (kmachine k) \<and>
    prq_inv S q A \<and> prq_elems q = {}"
proof -
  let ?w = "kheap_world k"
  have "heap_inv ?w ([] @ [(0xC0001000, 65516, True)]) L" using inv by simp
  from take_from_last [OF this _ page, of 12] obtain w1 m1 where
    w1: "heap_alloc heap_fuel ?w 12 = Inr (0xC0001008, w1)" "heap_grant ?w 12 = Some m1"
      "heap_grows ?w w1 [(0xC0001000, 65516, True)] [(0xC0001000, 12, False), (0xC0001020, 65484, True)]" by auto
  then obtain L1 where inv1: "heap_inv w1 ([(0xC0001000, 12, False)] @ [(0xC0001020, 65484, True)]) L1"
    and f1: "hvm w1 = hvm ?w" "h_end (heap w1) = h_end (heap ?w)" by (auto simp: heap_grows_def)
  from take_from_last [OF inv1, of 44] page f1 obtain w2 m2 where
    w2: "heap_alloc heap_fuel w1 44 = Inr (0xC0001028, w2)" "heap_grant w1 44 = Some m2"
      "heap_grows w1 w2 [(0xC0001000, 12, False), (0xC0001020, 65484, True)]
         [(0xC0001000, 12, False), (0xC0001020, 44, False), (0xC0001060, 65420, True)]" by auto
  then obtain L2 where inv2: "heap_inv w2 [(0xC0001000, 12, False), (0xC0001020, 44, False), (0xC0001060, 65420, True)] L2"
    and f2: "hvm w2 = hvm ?w" using f1 by (auto simp: heap_grows_def)
  have "kheap (heap_grant w1)" using heap_grant_kheap [OF inv1] page f1 by simp
  from prq_create_ok [OF this, of 10 "heap_grant ?w" S A] obtain q where
    q: "prq_create (heap_grant ?w) (heap_grant w1) = Inr q" "prq_inv S q A" "prq_elems q = {}"
    using w1(2) w2(2) by (auto simp: prq_create_def)
  have w: "?w\<lparr>hvm := mvm (kmachine k)\<rparr> = ?w" "w1\<lparr>hvm := mvm (kmachine k)\<rparr> = w1" "w1\<lparr>hvm := hvm (kheap_world k)\<rparr> = w1"
    "(kmachine k)\<lparr>mvm := mvm (kmachine k)\<rparr> = kmachine k" "(kmachine k)\<lparr>mvm := hvm (kheap_world k)\<rparr> = kmachine k"
    "k\<lparr>kmachine := kmachine k, kheap_world := x, ktimers := y\<rparr> = k\<lparr>kheap_world := x, ktimers := y\<rparr>" for x y
    using vm f1 by simp_all
  have "kernel_late_init k = Inr (k\<lparr>kheap_world := w2, ktimers := (ktimers k)\<lparr>core0_timers_control := PHYSICAL_SECURE_TIMER,
      scheduled_timers := q, cntp_ctl := 3\<rparr>\<rparr>)"
    by (simp add: kernel_late_init_def fn on_heap_def Let_def allocate_def w w1(1) w2(1) f1 f2 bcm2836_late_init_def
        bcm2836_timer_init_def q(1) mask_and_enable_timer_def)
  then show ?thesis using inv2 q(2,3) f2 vm by auto
qed

subsection \<open>The whole sequence\<close>

text \<open>
  What the boot sequence needs of memory when \<open>start\<close> is called. The window for devices starts at its initial value. The rest is an assumption on RAM, which no
  code makes true: \<open>startup.s\<close> writes two entries of the first level table and clears neither the other entries nor the memory that becomes the
  structs of the memory manager, and \<open>pmm.c\<close> does not initialise all of their fields. The structs must be zero, so none may lie where \<open>detect_memory\<close> wrote its 42; no entry of the table
  may point to a second level table; the mebibytes of the heap and the vectors must be unmapped. RAM that is zero at power-on, as
  in an emulator, has all this.
\<close>

definition boot_ready :: "machine \<Rightarrow> bool" where
  "boot_ready m \<longleftrightarrow> (\<forall>x. sinfo (pmm (mvm m)) x = zero_sliceinfo) \<and> mmio_current_top (mvm m) = KERNEL_MMIO_BASE \<and>
     (\<forall>v. take_bit 2 (l1_slot (words (pmm (mvm m))) kernell1PageTable v) \<noteq> 1) \<and>
     (\<forall>v. 0xC0000000 \<le> unat v \<and> unat v < 0xC0100000 \<or> 0xFFF00000 \<le> unat v \<longrightarrow>
        take_bit 2 (l1_slot (words (pmm (mvm m))) kernell1PageTable v) = 0)"

text \<open>The table that \<open>startup.s\<close> writes: two sections, for the low mebibyte and for the one of the kernel.\<close>

definition startup_table :: "u32 \<Rightarrow> (u32 \<Rightarrow> u32) \<Rightarrow> u32 \<Rightarrow> u32" where
  "startup_table kernel_base m =
     (let entry = (0 OR 0x02) OR 0x400 in
      (m(PHYS2VIRT 0x4000 := entry))(PHYS2VIRT (0x4000 + push_bit 2 (drop_bit 20 kernel_base)) := entry))"

text \<open>The tables after \<open>bcm2836_init\<close> and after \<open>vm2_start\<close>: entries outside RAM and the devices are the old ones.\<close>

lemma ram_miss:
  assumes "1048576 \<le> unat v" and "unat v < 0x80000000 \<or> 0xC0000000 \<le> unat v"
  shows "l1_slot (map_sections 1024 (m(entry_address kernell1PageTable 0 := 0)) 0x80000000 0) kernell1PageTable v =
    l1_slot m kernell1PageTable v"
  using sections_miss [of "0x80000000" 1024 v "m(entry_address kernell1PageTable 0 := 0)" 0] assms
    l1_slot_zeroed [OF assms(1), of m 0] by (simp add: div_less_iff_less_mult less_eq_div_iff_mult_less_eq)

lemma devices_miss:
  assumes "unat v < 0xFEB00000 \<or> 0xFFF00000 \<le> unat v"
  shows "l1_slot (map_sections 16 (map_sections 4 m 0xFFB00000 0x40000000) 0xFEB00000 0x3F000000) kernell1PageTable v =
    l1_slot m kernell1PageTable v"
  using sections_miss [of "0xFEB00000" 16 v "map_sections 4 m 0xFFB00000 0x40000000" "0x3F000000"]
    sections_miss [of "0xFFB00000" 4 v m "0x40000000"] assms
  by (auto simp: div_less_iff_less_mult less_eq_div_iff_mult_less_eq)

lemma devices_type:
  "take_bit 2 (l1_slot (map_sections 16 (map_sections 4 m 0xFFB00000 0x40000000) 0xFEB00000 0x3F000000) kernell1PageTable v) \<in>
     {2, take_bit 2 (l1_slot m kernell1PageTable v)}"
  using sections_type [of 16 "map_sections 4 m 0xFFB00000 0x40000000" "0xFEB00000" "0x3F000000" v]
    sections_type [of 4 m "0xFFB00000" "0x40000000" v] by auto

definition hardware_text :: string where
  "hardware_text =
     ''=============================================='' @ nl @ ''Hardware info detected:'' @ nl @ ''CPU type: ARM 1176'' @ nl @
     ''Board type: Raspberry Pi two'' @ nl @ ''=============================================='' @ nl"

lemma print_hardwareinfo_sent:
  assumes "uart_ready m" and "info = \<lparr>cpuType = ARM1176, boardType = RaspBerryPiTwo, peripheral_base_address = b, peripheral_region_size = r\<rparr>"
  shows "print_hardwareinfo info m = Inr (sent m (ascii hardware_text))"
proof -
  have str: "say m (label @ ''%s'' @ nl) [VStr (cstr_obj (ascii t)) 0] = Inr (sent m (ascii (label @ t @ nl)))"
    if "uart_ready m" "percent \<notin> set (ascii label)" "0 \<notin> set (ascii label)" "0 \<notin> set (ascii t)" "length label + length t \<le> 100" for m label t
  proof (rule say_sent [OF that(1)])
    have "format 0 (xs @ ascii (''%s'' @ nl)) [FStr (ascii t)] = Some (xs @ ascii t @ [0x0A])" if "percent \<notin> set xs" for xs
      using that
    proof (induction xs)
      case Nil
      show ?case by (simp add: ascii_def nl_def format.simps directive_def)
    qed (simp add: format.simps)
    from this [OF that(2)] show "format 0 (ascii (label @ ''%s'' @ nl)) [FStr (ascii t)] = Some (ascii (label @ t @ nl))"
      by (simp add: ascii_def nl_def)
    have "cstr (cstr_obj (ascii t)) 0 (ascii t)" using that(4,5) by (intro cstr_obj_cstr) (simp_all add: ascii_def)
    then show "list_all2 arg_ok [VStr (cstr_obj (ascii t)) 0] [FStr (ascii t)]" using that(5) by (simp add: ascii_def)
  qed (use that in \<open>simp_all add: ascii_def nl_def\<close>)
  have l: "ascii (x @ y) = ascii x @ ascii y" for x y by (simp add: ascii_def)
  have "say m (''=============================================='' @ nl) [] = Inr (sent m (ascii (''=============================================='' @ nl)))"
    if "uart_ready m" for m by (rule say_plain [OF that]) (simp_all add: ascii_def nl_def)
  moreover have "say m (''Hardware info detected:'' @ nl) [] = Inr (sent m (ascii (''Hardware info detected:'' @ nl)))"
    if "uart_ready m" for m by (rule say_plain [OF that]) (simp_all add: ascii_def nl_def)
  moreover have "say m (''CPU type: %s'' @ nl) [VStr (cstr_obj (ascii ''ARM 1176'')) 0] = Inr (sent m (ascii (''CPU type: ARM 1176'' @ nl)))"
    if "uart_ready m" for m using str [OF that, of "''CPU type: ''" "''ARM 1176''"] by (simp add: ascii_def)
  moreover have "say m (''Board type: %s'' @ nl) [VStr (cstr_obj (ascii ''Raspberry Pi two'')) 0] =
      Inr (sent m (ascii (''Board type: Raspberry Pi two'' @ nl)))"
    if "uart_ready m" for m using str [OF that, of "''Board type: ''" "''Raspberry Pi two''"] by (simp add: ascii_def)
  ultimately show ?thesis using assms(1) by (simp only: print_hardwareinfo_def assms(2) HardwareInfo.simps bindE.simps
      CpuType.case BoardType.case hardware_text_def uart_ready_sent sent_sent l append_assoc)
qed

text \<open>The three steps that set up the memory, with the UART in use.\<close>

lemma boot_memory:
  assumes ready: "boot_ready m0" and m1: "m1 = sent (bcm2836_init (m0\<lparr>chipset := no_chipset\<rparr>)) out"
    and hw: "boardType hw = RaspBerryPiTwo" "peripheral_base_address hw = 0x3F000000"
    and top: "unat kernel_top mod 8192 = 0" "0x80008000 \<le> unat kernel_top"
    and size: "unat kernel_top + 8192 * 40 \<le> 0x80000000 + unat memory_size" "unat memory_size \<le> 0x3F000000"
  shows "\<exists>s1 s2 w' L U. vm2_start hw kernel_top (mvm m1) memory_size = Inr s1 \<and>
    init_vector_table address (sent (m1\<lparr>mvm := s1\<rparr>) t) = Inr (sent (m1\<lparr>mvm := s2, sctlr := sctlr m1 OR push_bit 13 1\<rparr>) t) \<and>
    init_heap heap_fuel (w\<lparr>hvm := s2\<rparr>) = Inr (0xC0011000, w') \<and> heap_inv w' [(0xC0001000, 65516, True)] L \<and>
    unat (h_end (heap w')) = 0xC0011000 \<and> mmu_started (hvm w') \<and>
    vectors_ok address (m1\<lparr>mvm := hvm w', sctlr := sctlr m1 OR push_bit 13 1\<rparr>) U \<and>
    (\<forall>s \<in> {s1, s2, hvm w'}. translate (m1\<lparr>mvm := s\<rparr>) (uart_address m1 0) = Inr 0x3F201000) \<and>
    (\<forall>p. unat p < 0x40000000 \<longrightarrow> translate (m1\<lparr>mvm := hvm w'\<rparr>) (PHYS2VIRT p) = Inr p)"
proof -
  let ?W = "words (pmm (mvm m0))" and ?K = kernell1PageTable
  let ?D = "map_sections 16 (map_sections 4 ?W 0xFFB00000 0x40000000) 0xFEB00000 0x3F000000"
  have "mmio_current_top (mvm (m0\<lparr>chipset := no_chipset\<rparr>)) = KERNEL_MMIO_BASE" using ready by (simp add: boot_ready_def)
  note b = bcm2836_init_boot [OF this]
  have mv: "words (pmm (mvm m1)) = ?D" "sinfo (pmm (mvm m1)) = sinfo (pmm (mvm m0))" "uart_address m1 0 = 0xFED01000"
    using b by (simp_all add: m1 sent_def)
  have D1: "take_bit 2 (l1_slot ?D ?K v) \<noteq> 1" for v using devices_type [of ?W v] ready by (auto simp: boot_ready_def)
  have "\<forall>x. sinfo (pmm (mvm m1)) x = zero_sliceinfo" using ready by (simp add: mv boot_ready_def)
  from vm2_start_ok [OF hw top size this] D1 obtain s1 U1 where
    s1: "vm2_start hw kernel_top (mvm m1) memory_size = Inr s1" "kernel_ok s1 U1 36" "mmu_started s1"
      "words (pmm s1) = map_sections 1024 (?D(entry_address ?K 0 := 0)) 0x80000000 0" unfolding mv(1) by blast
  have old: "mappable (words (pmm s1)) ?K v False"
    if "0xC0000000 \<le> unat v \<and> unat v < 0xC0100000 \<or> 0xFFF00000 \<le> unat v" for v
  proof (rule mappable_slot)
    show "l1_slot (words (pmm s1)) ?K v = l1_slot ?W ?K v"
      unfolding s1(4) using that by (subst ram_miss) (auto intro: devices_miss)
  qed (use ready that in \<open>auto simp: boot_ready_def\<close>)
  let ?m1 = "sent (m1\<lparr>mvm := s1\<rparr>) t" and ?V = HIGH_VECTOR_LOCATION
  have m1s: "mvm ?m1 = s1" "?m1\<lparr>mvm := s, sctlr := sctlr ?m1 OR push_bit 13 1\<rparr> = sent (m1\<lparr>mvm := s, sctlr := sctlr m1 OR push_bit 13 1\<rparr>) t" for s
    by (simp_all add: sent_def)
  have "mappable (words (pmm (mvm ?m1))) ?K ?V False" unfolding m1s by (rule old) (simp add: HIGH_VECTOR_LOCATION_def)
  with init_vector_table_ok [of ?m1 U1 34 address, unfolded m1s] s1(2) obtain s2 U2 where
    v: "init_vector_table address ?m1 = Inr (sent (m1\<lparr>mvm := s2, sctlr := sctlr m1 OR push_bit 13 1\<rparr>) t)" "kernel_ok s2 U2 34"
      "extends (\<lambda>x. drop_bit 12 x = drop_bit 12 ?V) s1 U1 s2 U2" "vectors_ok address (sent (m1\<lparr>mvm := s2, sctlr := sctlr m1 OR push_bit 13 1\<rparr>) t) U2"
    by (auto simp: m1s)
  have pv: "drop_bit 12 x = drop_bit 12 ?V \<longleftrightarrow> 0xFFFF0000 \<le> unat x \<and> unat x < 0xFFFF1000" for x
    unfolding same_page_unat by (simp add: div_page HIGH_VECTOR_LOCATION_def)
  have "\<forall>x. in_heap x \<longrightarrow> mappable (words (pmm (hvm (w\<lparr>hvm := s2\<rparr>)))) ?K x False"
  proof (intro allI impI)
    fix x assume x: "in_heap x"
    then have "\<not> drop_bit 12 x = drop_bit 12 ?V" unfolding pv by simp
    from extendsD(2) [OF v(3) this old] x show "mappable (words (pmm (hvm (w\<lparr>hvm := s2\<rparr>)))) ?K x False" by simp
  qed
  with init_heap_ok [of "w\<lparr>hvm := s2\<rparr>" U2] v(2) obtain w' L U where
    h: "init_heap heap_fuel (w\<lparr>hvm := s2\<rparr>) = Inr (0xC0011000, w')" "heap_inv w' [(0xC0001000, 65516, True)] L"
      "unat (h_end (heap w')) = 0xC0011000" "extends in_heap s2 U2 (hvm w') U" by auto
  have vec: "vectors_ok address (m1\<lparr>mvm := hvm w', sctlr := sctlr m1 OR push_bit 13 1\<rparr>) U"
  proof (rule vectors_ok_extends [OF v(4)])
    show "extends in_heap (mvm (sent (m1\<lparr>mvm := s2, sctlr := sctlr m1 OR push_bit 13 1\<rparr>) t)) U2 (hvm w') U" using h(4) by (simp add: sent_def)
    fix k :: nat assume "k < 64"
    moreover from this have "unat (of_nat k :: u32) = k" by (intro unat_of_nat_u32) simp
    ultimately have "unat (?V + of_nat k) = 0xFFFF0000 + k"
      by (subst unat_add_no_wrap) (simp_all add: HIGH_VECTOR_LOCATION_def)
    then show "\<not> in_heap (?V + of_nat k)" by simp
  qed (simp_all add: sent_def)
  have w2: "walk (words (pmm s2)) ?K x = walk (words (pmm s1)) ?K x" if "\<not> (0xFFFF0000 \<le> unat x \<and> unat x < 0xFFFF1000)" for x
    using extendsD(1) [OF v(3), of x] that by (simp add: pv)
  have wk: "walk (words (pmm (hvm w'))) ?K x = walk (words (pmm s1)) ?K x"
    if "\<not> in_heap x" "\<not> (0xFFFF0000 \<le> unat x \<and> unat x < 0xFFFF1000)" for x
    using w2 [OF that(2)] extendsD(1) [OF h(4) that(1)] by simp
  have uart: "\<forall>s \<in> {s1, s2, hvm w'}. translate (m1\<lparr>mvm := s\<rparr>) (uart_address m1 0) = Inr 0x3F201000"
  proof -
    have "uart_ready m1" using ready by (simp add: m1 boot_ready_def bcm2836_uart_ready KERNEL_MMIO_BASE_def Gibibyte_def Mebibyte_eq)
    then have "translate m1 0xFED01000 = Inr 0x3F201000" by (simp add: uart_ready_def mv)
    moreover have "walk (words (pmm s1)) ?K 0xFED01000 = walk ?D ?K 0xFED01000"
      by (rule walk_slot) (simp_all add: s1(4) ram_miss D1)
    ultimately show ?thesis using wk [of "0xFED01000"] w2 [of "0xFED01000"] by (simp add: translate_def mv)
  qed
  have ram: "translate (m1\<lparr>mvm := hvm w'\<rparr>) (PHYS2VIRT p) = Inr p" if p: "unat p < 0x40000000" for p
  proof -
    have "walk (words (pmm s1)) ?K (0x80000000 + p) = Some (0 + p, ram_section (0 + p))"
      unfolding s1(4) by (rule map_sections_walk) (use p in simp_all)
    moreover have "unat (0x80000000 + p) = 0x80000000 + unat p" using p by (subst unat_add_no_wrap) simp_all
    ultimately show ?thesis using wk [of "0x80000000 + p"] p
      by (simp add: translate_def PHYS2VIRT_def KERNEL_VIRTUAL_OFFSET_def add.commute)
  qed
  have "mmu_started (hvm w')" using s1(3) v(3) h(4) by (auto simp: extends_def)
  then show ?thesis using s1(1) v(1) h(1-3) vec uart ram by blast
qed

lemma interrupts_on:
  "enable_interrupt m BOTH = Inr (m\<lparr>cpsr := cpsr m AND NOT 0xC0\<rparr>)" "enable_interrupt m IRQ = Inr (m\<lparr>cpsr := cpsr m AND NOT 0x80\<rparr>)"
  "\<not> bit ((c AND NOT 0xC0) AND NOT 0x80 :: u32) 7" "\<not> bit ((c AND NOT 0xC0) AND NOT 0x80 :: u32) 6"
  by (simp_all add: enable_interrupt_def interrupt_bits_def BOTH_def IRQ_def FIQ_def bit_simps)

lemma mvm_sent [simp]: "mvm (sent m xs) = mvm m"
  by (simp add: sent_def)

lemma start_runs:
  assumes board: "detect_boardtype midr = Inr RaspBerryPiTwo" and ready: "boot_ready (kmachine k)"
    and top: "unat kernel_top mod 8192 = 0" "0x80008000 \<le> unat kernel_top"
    and size: "unat kernel_top + 8192 * 40 \<le> 0x80000000 + unat memory_size" "unat memory_size \<le> 0x3F000000"
  shows "\<exists>k' pre mid post L A U. start lvl midr address kernel_top memory_size k = Inr k' \<and> vectors_ok address (kmachine k') U \<and>
    device_writes (kmachine k') = device_writes (kmachine k) @
      map (\<lambda>c. (0x3F201000, ucast c)) (pre @ ascii hardware_text @ mid @ splash_text @ post) \<and>
    (lvl < 2 \<longrightarrow> pre = [] \<and> mid = [] \<and> post = []) \<and>
    (\<forall>p. unat p < 0x40000000 \<longrightarrow> translate (kmachine k') (PHYS2VIRT p) = Inr p) \<and> uart_ready (kmachine k') \<and>
    mmu_started (mvm (kmachine k')) \<and> \<not> bit (cpsr (kmachine k')) 7 \<and> \<not> bit (cpsr (kmachine k')) 6 \<and>
    heap_inv (kheap_world k') [(0xC0001000, 12, False), (0xC0001020, 44, False), (0xC0001060, 65420, True)] L \<and>
    prq_inv (nodes (ktimers k')) (scheduled_timers (ktimers k')) A \<and> prq_elems (scheduled_timers (ktimers k')) = {} \<and>
    cntp_ctl (ktimers k') = 3"
proof -
  let ?info = "\<lparr>cpuType = ARM1176, boardType = RaspBerryPiTwo, peripheral_base_address = 0x3F000000, peripheral_region_size = 21 * Mebibyte\<rparr>"
  have info: "init_hardwareinfo midr = Inr ?info"
    by (simp add: init_hardwareinfo_def board BCM2836_PERIPHERALS_PHYSICAL_BASE_def)
  obtain o1 where o1: "lvl < 2 \<longrightarrow> o1 = []" "\<And>m. uart_ready m \<Longrightarrow> INFO lvl m ''Detected memory size: 0x%x Bytes'' [VInt memory_size] = Inr (sent m o1)"
    using INFO_size unfolding prints_line_def by blast
  have lines: "\<exists>out. (lvl < 2 \<longrightarrow> out = []) \<and> (\<forall>m. uart_ready m \<longrightarrow> INFO lvl m fmt [] = Inr (sent m out))"
    if "fmt \<in> {''Started chipset specific handlers'', ''Initializing the physical and virtual memory managers.'',
      ''Setting up interrupt vector tables'', ''Setting up heap'', ''End of boot sequence.'' @ nl}" for fmt
    using INFO_lines [OF that] unfolding prints_line_def .
  obtain o2 where o2: "lvl < 2 \<longrightarrow> o2 = []" "\<And>m. uart_ready m \<Longrightarrow> INFO lvl m ''Started chipset specific handlers'' [] = Inr (sent m o2)"
    using lines [of "''Started chipset specific handlers''"] by blast
  obtain o3 where o3: "lvl < 2 \<longrightarrow> o3 = []"
    "\<And>m. uart_ready m \<Longrightarrow> INFO lvl m ''Initializing the physical and virtual memory managers.'' [] = Inr (sent m o3)"
    using lines [of "''Initializing the physical and virtual memory managers.''"] by blast
  obtain o4 where o4: "lvl < 2 \<longrightarrow> o4 = []" "\<And>m. uart_ready m \<Longrightarrow> INFO lvl m ''Setting up interrupt vector tables'' [] = Inr (sent m o4)"
    using lines [of "''Setting up interrupt vector tables''"] by blast
  obtain o5 where o5: "lvl < 2 \<longrightarrow> o5 = []" "\<And>m. uart_ready m \<Longrightarrow> INFO lvl m ''Setting up heap'' [] = Inr (sent m o5)"
    using lines [of "''Setting up heap''"] by blast
  obtain o6 where o6: "lvl < 2 \<longrightarrow> o6 = []" "\<And>m. uart_ready m \<Longrightarrow> INFO lvl m (''End of boot sequence.'' @ nl) [] = Inr (sent m o6)"
    using lines [of "''End of boot sequence.'' @ nl"] by blast
  define m0 where "m0 = bcm2836_init ((kmachine k)\<lparr>chipset := no_chipset\<rparr>)"
  have chip: "init_chipset ?info (kmachine k) = Inr m0" by (simp add: init_chipset_board m0_def)
  have u0: "uart_ready m0"
    using ready unfolding m0_def by (intro bcm2836_uart_ready) (simp add: boot_ready_def KERNEL_MMIO_BASE_def Gibibyte_def Mebibyte_eq)
  define m1 where "m1 = sent m0 (o1 @ o2 @ ascii hardware_text @ o3)"
  have first: "INFO lvl m0 ''Detected memory size: 0x%x Bytes'' [VInt memory_size] = Inr (sent m0 o1)"
    "INFO lvl (sent m0 o1) ''Started chipset specific handlers'' [] = Inr (sent m0 (o1 @ o2))"
    "print_hardwareinfo ?info (sent m0 (o1 @ o2)) = Inr (sent m0 (o1 @ o2 @ ascii hardware_text))"
    "INFO lvl (sent m0 (o1 @ o2 @ ascii hardware_text)) ''Initializing the physical and virtual memory managers.'' [] = Inr m1"
    using o1(2) o2(2) o3(2) u0 print_hardwareinfo_sent [OF _ refl, of "sent m0 (o1 @ o2)"] by (simp_all add: m1_def)
  have m1: "uart_putc (chipset m1) = Some Bcm2836_uart_putc" "late_init (chipset m1) = Some Bcm2836_late_init"
    "device_writes m1 = device_writes (kmachine k) @ map (\<lambda>c. (0x3F201000, ucast c)) (o1 @ o2 @ ascii hardware_text @ o3)"
    by (simp_all add: m1_def m0_def sent_def bcm2836_init_fields)
  from boot_memory [OF ready m1_def [unfolded m0_def], of ?info kernel_top memory_size address o4 "kheap_world k"] top size obtain s1 s2 w L U where
    mem: "vm2_start ?info kernel_top (mvm m1) memory_size = Inr s1"
      "init_vector_table address (sent (m1\<lparr>mvm := s1\<rparr>) o4) = Inr (sent (m1\<lparr>mvm := s2, sctlr := sctlr m1 OR push_bit 13 1\<rparr>) o4)"
      "init_heap heap_fuel ((kheap_world k)\<lparr>hvm := s2\<rparr>) = Inr (0xC0011000, w)" "heap_inv w [(0xC0001000, 65516, True)] L"
      "unat (h_end (heap w)) = 0xC0011000" "mmu_started (hvm w)"
      "vectors_ok address (m1\<lparr>mvm := hvm w, sctlr := sctlr m1 OR push_bit 13 1\<rparr>) U"
      "\<forall>s \<in> {s1, s2, hvm w}. translate (m1\<lparr>mvm := s\<rparr>) (uart_address m1 0) = Inr 0x3F201000"
      "\<forall>p. unat p < 0x40000000 \<longrightarrow> translate (m1\<lparr>mvm := hvm w\<rparr>) (PHYS2VIRT p) = Inr p" by auto
  define T where "T s = translate (m1\<lparr>mvm := s\<rparr>)" for s
  note T = mem(8,9) [folded T_def]
  have tr: "translate m v = T s v" if "mvm m = s" for m v s using that by (simp add: T_def translate_def)
  have ur: "uart_ready m" if "chipset m = chipset m1" "uart_address m = uart_address m1" "mvm m \<in> {s1, s2, hvm w}" for m
    using that T(1) m1(1) unfolding uart_ready_def tr [OF refl] by auto
  define v2 where "v2 = m1\<lparr>mvm := s2, sctlr := sctlr m1 OR push_bit 13 1\<rparr>"
  define m2 where "m2 = (sent v2 (o4 @ o5))\<lparr>mvm := hvm w\<rparr>"
  have v2: "mvm v2 = s2" by (simp add: v2_def)
  have second: "INFO lvl (m1\<lparr>mvm := s1\<rparr>) ''Setting up interrupt vector tables'' [] = Inr (sent (m1\<lparr>mvm := s1\<rparr>) o4)"
    "INFO lvl (sent v2 o4) ''Setting up heap'' [] = Inr (sent v2 (o4 @ o5))" "splash m2 = Inr (sent m2 splash_text)"
    using o4(2) [OF ur] o5(2) [OF ur, of "sent v2 o4"] splash_sent [OF ur, of m2] by (simp_all add: v2_def m2_def sent_def)
  let ?m3 = "(sent m2 splash_text)\<lparr>cpsr := cpsr (sent m2 splash_text) AND NOT 0xC0\<rparr>"
  let ?k3 = "k\<lparr>hardware_info := ?info, kheap_world := w, kmachine := ?m3\<rparr>"
  have m3: "chipset ?m3 = chipset m1" "mvm ?m3 = hvm w" "uart_address ?m3 = uart_address m1" "sctlr ?m3 = sctlr m1 OR push_bit 13 1"
    "device_writes ?m3 = device_writes (kmachine k) @
      map (\<lambda>c. (0x3F201000, ucast c)) ((o1 @ o2) @ ascii hardware_text @ (o3 @ o4 @ o5) @ splash_text)"
    by (simp_all add: sent_def m2_def v2_def m1(3))
  obtain w' q L' where late: "kernel_late_init ?k3 = Inr (?k3\<lparr>kheap_world := w', ktimers := (ktimers k)\<lparr>
      core0_timers_control := PHYSICAL_SECURE_TIMER, scheduled_timers := q, cntp_ctl := 3\<rparr>\<rparr>)"
    "heap_inv w' [(0xC0001000, 12, False), (0xC0001020, 44, False), (0xC0001060, 65420, True)] L'" "hvm w' = hvm w"
    "prq_inv (nodes (ktimers k)) q (\<lambda>_. NULL)" "prq_elems q = {}"
    using kernel_late_init_ok [of ?k3 L "nodes (ktimers k)" "\<lambda>_. NULL"] mem(4,5) m1(2) m3(1,2) by auto
  let ?m4 = "?m3\<lparr>cpsr := cpsr ?m3 AND NOT 0x80\<rparr>"
  let ?k4 = "?k3\<lparr>kheap_world := w', ktimers := (ktimers k)\<lparr>
      core0_timers_control := PHYSICAL_SECURE_TIMER, scheduled_timers := q, cntp_ctl := 3\<rparr>, kmachine := sent ?m4 o6\<rparr>"
  have fin: "INFO lvl ?m4 (''End of boot sequence.'' @ nl) [] = Inr (sent ?m4 o6)" by (rule o6(2) [OF ur]) (use m3 in simp_all)
  have run: "start lvl midr address kernel_top memory_size k = Inr ?k4"
    using late(1) fin by (simp add: start_def on_machine_def on_heap_def info chip first board mem(1-3) [folded v2_def] v2 m2_def [symmetric]
      second interrupts_on(1,2) Let_def)
  define M where "M = sent ?m4 o6"
  define k4 where "k4 = ?k4"
  have k4: "kmachine k4 = M" "kheap_world k4 = w'" "nodes (ktimers k4) = nodes (ktimers k)"
    "scheduled_timers (ktimers k4) = q" "cntp_ctl (ktimers k4) = 3" by (simp_all add: k4_def M_def)
  have M: "mvm M = hvm w" "cpsr M = (cpsr m2 AND NOT 0xC0) AND NOT 0x80"
    "device_writes M = device_writes (kmachine k) @
      map (\<lambda>c. (0x3F201000, ucast c)) ((o1 @ o2) @ ascii hardware_text @ (o3 @ o4 @ o5) @ splash_text @ o6)"
    using m3(2,5) by (simp_all add: M_def sent_def)
  have vec: "vectors_ok address M U" unfolding M_def
    by (rule vectors_ok_extends [OF mem(7) extends_refl [of "\<lambda>_. False"]]) (use m3(2,4) in \<open>simp_all add: sent_def\<close>)
  have uart: "uart_ready M" unfolding M_def by (rule ur) (use m3 in \<open>simp_all add: sent_def\<close>)
  have trans: "\<forall>p. unat p < 0x40000000 \<longrightarrow> translate M (PHYS2VIRT p) = Inr p" unfolding tr [OF M(1)] by (rule T(2))
  have quiet: "lvl < 2 \<longrightarrow> o1 @ o2 = [] \<and> o3 @ o4 @ o5 = [] \<and> o6 = []" using o1(1) o2(1) o3(1) o4(1) o5(1) o6(1) by simp
  have on: "mmu_started (mvm M)" "\<not> bit (cpsr M) 7" "\<not> bit (cpsr M) 6" using mem(6) interrupts_on(3,4) by (simp_all only: M not_False_eq_True)
  show ?thesis
    by (rule exI [of _ k4], rule exI [of _ "o1 @ o2"], rule exI [of _ "o3 @ o4 @ o5"], rule exI [of _ o6], rule exI [of _ L'],
        rule exI [of _ "\<lambda>_. NULL"], rule exI [of _ U], unfold k4)
      (intro conjI run [folded k4_def] vec M(3) quiet trans uart on late(2,4,5) refl)
qed

text \<open>
  (C1) \<^bold>\<open>The kernel boots.\<close> Suppose: the board is a Raspberry Pi 2; exactly the addresses below \<open>E\<close> read back what was written to them, with
  \<open>E\<close> at most \<open>0x3F000000\<close>, where the peripherals begin; the kernel ends on a slice, and RAM has more than 40 slices behind it; memory is as
  \<open>boot_ready\<close> says, an assumption on what RAM holds. Then \<open>detect_memory\<close> finds a size and \<open>start\<close>, called with it, comes to its end.
  The two texts were printed on the UART; at log level 0 and 1 nothing else was, at higher levels there are further lines around
  them. Then all of RAM is mapped at \<open>PHYS2VIRT\<close>, the UART can be reached, each exception enters its handler, the MMU is on and
  interrupts are unmasked. The heap is in order: it holds the two chunks of the timer queue, of 12 and 44 bytes, and one hole; the queue is
  empty and the timer masked.
\<close>

theorem start_boots:
  assumes board: "detect_boardtype midr = Inr RaspBerryPiTwo" and ready: "boot_ready (kmachine k)"
    and ram: "\<forall>a. reads_back a \<longleftrightarrow> unat a < E" "E \<le> 0x3F000000"
    and top: "unat kernel_top mod 8192 = 0" "0x80008000 \<le> unat kernel_top" "unat kernel_top + 8192 * 40 < 0x80000000 + E"
  shows "\<exists>memory_size probes k' pre mid post L A. detect_memory reads_back = Some (memory_size, probes) \<and>
    start log_level midr address kernel_top memory_size k = Inr k' \<and>
    device_writes (kmachine k') = device_writes (kmachine k) @
      map (\<lambda>c. (0x3F201000, ucast c)) (pre @ ascii hardware_text @ mid @ splash_text @ post) \<and>
    (log_level < 2 \<longrightarrow> pre = [] \<and> mid = [] \<and> post = []) \<and>
    (\<forall>p. unat p < 0x40000000 \<longrightarrow> translate (kmachine k') (0x80000000 + p) = Inr p) \<and> uart_ready (kmachine k') \<and>
    exception_entry (kmachine k') 0 = Inr (address Reset_handler) \<and> exception_entry (kmachine k') 1 = Inr (address Undef_instruction_handler) \<and>
    exception_entry (kmachine k') 2 = Inr (address Software_interrupt_handler) \<and> exception_entry (kmachine k') 3 = Inr (address Prefetch_abort_handler) \<and>
    exception_entry (kmachine k') 4 = Inr (address Data_abort_handler) \<and> exception_entry (kmachine k') 5 = Inr (address Reserved_handler) \<and>
    exception_entry (kmachine k') 6 = Inr (address Irq_handler) \<and> exception_entry (kmachine k') 7 = Inr (address Fiq_handler) \<and>
    mmu_started (mvm (kmachine k')) \<and> \<not> bit (cpsr (kmachine k')) 7 \<and> \<not> bit (cpsr (kmachine k')) 6 \<and>
    heap_inv (kheap_world k') [(0xC0001000, 12, False), (0xC0001020, 44, False), (0xC0001060, 65420, True)] L \<and>
    prq_inv (nodes (ktimers k')) (scheduled_timers (ktimers k')) A \<and> prq_elems (scheduled_timers (ktimers k')) = {} \<and>
    cntp_ctl (ktimers k') = 3"
proof -
  have E: "0 < E" using top(2,3) by simp
  from detect_memory_finds_end [OF ram(1) E ram(2)] obtain probes where probes: "detect_memory reads_back = Some (of_nat (E - 1), probes)" by blast
  have size: "unat (of_nat (E - 1) :: u32) = E - 1" using ram(2) by (intro unat_of_nat_u32) simp
  have "unat kernel_top + 8192 * 40 \<le> 0x80000000 + unat (of_nat (E - 1) :: u32)" "unat (of_nat (E - 1) :: u32) \<le> 0x3F000000"
    using top(3) ram(2) unfolding size by linarith+
  from start_runs [OF board ready top(1,2) this, of log_level address] obtain k' pre mid post L A U where
    run: "start log_level midr address kernel_top (of_nat (E - 1)) k = Inr k'" "vectors_ok address (kmachine k') U" and
    rest: "device_writes (kmachine k') = device_writes (kmachine k) @
      map (\<lambda>c. (0x3F201000, ucast c)) (pre @ ascii hardware_text @ mid @ splash_text @ post)"
      "log_level < 2 \<longrightarrow> pre = [] \<and> mid = [] \<and> post = []" "\<forall>p. unat p < 0x40000000 \<longrightarrow> translate (kmachine k') (PHYS2VIRT p) = Inr p"
      "uart_ready (kmachine k')" "mmu_started (mvm (kmachine k'))" "\<not> bit (cpsr (kmachine k')) 7" "\<not> bit (cpsr (kmachine k')) 6"
      "heap_inv (kheap_world k') [(0xC0001000, 12, False), (0xC0001020, 44, False), (0xC0001060, 65420, True)] L"
      "prq_inv (nodes (ktimers k')) (scheduled_timers (ktimers k')) A" "prq_elems (scheduled_timers (ktimers k')) = {}" "cntp_ctl (ktimers k') = 3"
    by blast
  have "PHYS2VIRT p = 0x80000000 + p" for p by (simp add: PHYS2VIRT_def KERNEL_VIRTUAL_OFFSET_def)
  note rest = rest [unfolded this]
  show ?thesis
    by (intro exI [of _ "of_nat (E - 1)"] exI [of _ probes] exI [of _ k'] exI [of _ pre] exI [of _ mid] exI [of _ post] exI [of _ L] exI [of _ A] conjI
      probes run(1) rest vectors_ok_entries [OF run(2)])
qed

text \<open>A kernel at 2 MiB with 16 MiB of memory, which is zero but for the two entries of \<open>startup.s\<close>.\<close>

definition demo_kernel :: kernel_state where
  "demo_kernel = \<lparr>kmachine = \<lparr>
       mvm = \<lparr>pmm = \<lparr>sinfo = (\<lambda>_. zero_sliceinfo), heads = (\<lambda>_. NULL), pstart = 0, pend = 0, words = startup_table 0x80008200 (\<lambda>_. 0)\<rparr>,
         mmio_current_top = KERNEL_MMIO_BASE, mmu_started = False, mmu_log = []\<rparr>,
       chipset = chipset_stub, registers_base = 0, peripheral_base = 0, uart_address = (\<lambda>_. NULL), device_writes = [], cpsr = 0x1D3, sctlr = 1\<rparr>,
     kheap_world = demo_heap,
     ktimers = \<lparr>nodes = Map.empty, scheduled_timers = \<lparr>prq_heap = None, prq_cnt = 0, prq_heap_size = 0\<rparr>, timers = Map.empty, cntp_ctl = 0,
       cntp_cval = 0, core0_timers_control = 0, fired = []\<rparr>,
     hardware_info = \<lparr>cpuType = CortexA7, boardType = VersatilePB, peripheral_base_address = 0, peripheral_region_size = 0\<rparr>\<rparr>"

lemma demo_boot_ready: "boot_ready (kmachine demo_kernel)"
proof -
  have w: "words (pmm (mvm (kmachine demo_kernel))) = (\<lambda>a. if a = 0x80006000 then 0x402 else if a = 0x80004000 then 0x402 else 0)"
    by (simp add: demo_kernel_def startup_table_def Let_def PHYS2VIRT_def KERNEL_VIRTUAL_OFFSET_def fun_eq_iff)
  have "take_bit 2 (0x402 :: u32) = 2" by simp
  then have "take_bit 2 (l1_slot (words (pmm (mvm (kmachine demo_kernel)))) kernell1PageTable v) \<noteq> 1" for v
    by (auto simp: w l1_slot_def)
  moreover have "l1_slot (words (pmm (mvm (kmachine demo_kernel)))) kernell1PageTable v = 0"
    if "0xC0000000 \<le> unat v \<and> unat v < 0xC0100000 \<or> 0xFFF00000 \<le> unat v" for v
  proof -
    have "unat v div 1048576 = 3072 \<or> unat v div 1048576 = 4095"
      using that u32_unat_lt [of v] div_nat_eqI [of 3072 1048576 "unat v"] div_nat_eqI [of 4095 1048576 "unat v"] by auto
    then have "l1pt_index v = 0xC00 \<or> l1pt_index v = 0xFFF" by (simp add: word_unat_eq_iff unat_l1pt_index)
    then show ?thesis by (auto simp: l1_slot_def w entry_address_def kernell1PageTable_value)
  qed
  ultimately show ?thesis by (simp add: boot_ready_def) (simp add: demo_kernel_def)
qed

theorem start_boots_witness:
  "\<exists>memory_size probes k' L. detect_memory (\<lambda>a. unat a < 0x1000000) = Some (memory_size, probes) \<and>
    start 1 0x410FC075 demo_address 0x80200000 memory_size demo_kernel = Inr k' \<and>
    device_writes (kmachine k') = map (\<lambda>c. (0x3F201000, ucast c)) (ascii hardware_text @ splash_text) \<and>
    translate (kmachine k') 0x81234567 = Inr 0x1234567 \<and> exception_entry (kmachine k') 6 = Inr 0x80100720 \<and>
    heap_inv (kheap_world k') [(0xC0001000, 12, False), (0xC0001020, 44, False), (0xC0001060, 65420, True)] L"
proof -
  have "detect_boardtype 0x410FC075 = Inr RaspBerryPiTwo" by (simp add: detect_boardtype_def)
  from start_boots [OF this demo_boot_ready, where reads_back = "\<lambda>a. unat a < 0x1000000" and E = "0x1000000" and kernel_top = "0x80200000"
      and log_level = 1 and address = demo_address]
  obtain memory_size probes k' pre mid post L where
    k: "detect_memory (\<lambda>a. unat a < 0x1000000) = Some (memory_size, probes)" "start 1 0x410FC075 demo_address 0x80200000 memory_size demo_kernel = Inr k'"
      "device_writes (kmachine k') = device_writes (kmachine demo_kernel) @
        map (\<lambda>c. (0x3F201000, ucast c)) (pre @ ascii hardware_text @ mid @ splash_text @ post)"
      "pre = [] \<and> mid = [] \<and> post = []"
      "\<forall>p. unat p < 0x40000000 \<longrightarrow> translate (kmachine k') (0x80000000 + p) = Inr p"
      "exception_entry (kmachine k') 6 = Inr (demo_address Irq_handler)"
      "heap_inv (kheap_world k') [(0xC0001000, 12, False), (0xC0001020, 44, False), (0xC0001060, 65420, True)] L"
    by auto
  have "translate (kmachine k') 0x81234567 = Inr 0x1234567"
    using k(5) [rule_format, of "0x1234567"] by simp
  moreover have "device_writes (kmachine demo_kernel) = []" by (simp add: demo_kernel_def)
  ultimately show ?thesis using k by auto
qed

end
