(* ===== verification/Fs_Types.thy ===== *)
theory Fs_Types
  imports Tmpfs
begin

section \<open>Types of inodes: the union in \<open>fs/tmpfs/include/tmpfs.h\<close>\<close>

text \<open>
  The data of an inode is a union, and \<open>inode_type\<close> says which member it holds. The operations of the file system are the steps of
  a relation; in every state they reach the types agree with the members. What the operations do with the union is then decided by
  the types: creating, opening, closing and freeing never use the wrong member, and reading, writing and listing do exactly
  when they are given an inode of the other type, which they do not check.
\<close>

definition inode_typed :: "TmpfsInode \<Rightarrow> bool" where
  "inode_typed i \<longleftrightarrow> inode_type i = (case inode_data i of Direntries _ \<Rightarrow> DIRECTORY | Filedata _ \<Rightarrow> FILE)"

definition fs_typed :: "fs_state \<Rightarrow> bool" where
  "fs_typed st \<longleftrightarrow> (\<forall>p i. inodes st p = Some i \<longrightarrow> inode_typed i)"

inductive fs_step :: "fs_state \<Rightarrow> fs_state \<Rightarrow> bool" where
  Register: "tmpfs_init g st = Inr (e, st') \<Longrightarrow> fs_step st st'"
| Root: "create_tmpfs_root g g' entry root st = Inr (r, st') \<Longrightarrow> fs_step st st'"
| Direntry: "create_direntry st entry name parent = Inr st' \<Longrightarrow> fs_step st st'"
| Create_dir: "tmpfs_create_dir g g' st inode parent entry err = Inr (r, err', st') \<Longrightarrow> fs_step st st'"
| Create_file: "tmpfs_create_file g g' st inode parent entry err = Inr (r, err', st') \<Longrightarrow> fs_step st st'"
| Open: "tmpfs_open_file st fp inode err = Inr (r, err', st') \<Longrightarrow> fs_step st st'"
| Close: "tmpfs_close_file st fp err = Inr (err', st') \<Longrightarrow> fs_step st st'"
| Read: "tmpfs_read_file st fp buf cnt = Inr (n, buf', st') \<Longrightarrow> fs_step st st'"
| Write: "tmpfs_write_file g st fp buf cnt = Inr (n, st') \<Longrightarrow> fs_step st st'"
| Free_inode: "tmpfs_free_inode st inode = Inr st' \<Longrightarrow> fs_step st st'"
| Free_direntry: "free_direntry st entry = Inr st' \<Longrightarrow> fs_step st st'"

subsection \<open>Every step keeps the types\<close>

lemma typed_put_inode: "fs_typed st \<Longrightarrow> inode_typed i \<Longrightarrow> fs_typed (put_inode st p i)"
  by (simp add: fs_typed_def put_inode_def)

lemma typed_inodes: "fs_typed st \<Longrightarrow> inodes st' = inodes st \<Longrightarrow> fs_typed st'"
  by (simp add: fs_typed_def)

lemma typed_deref: "fs_typed st \<Longrightarrow> deref (inodes st) p = Inr i \<Longrightarrow> inode_typed i"
  by (auto simp: fs_typed_def deref_def split: if_splits option.splits)

lemma typed_file_inode: "fs_typed st \<Longrightarrow> file_inode st f = Inr (p, i) \<Longrightarrow> inode_typed i"
  by (auto simp: file_inode_def bindE_Inr_iff dest: typed_deref)

lemma typed_same [simp]:
  "inode_typed (i\<lparr>inode_next := n\<rparr>) = inode_typed i" "inode_typed (i\<lparr>refcount := k\<rparr>) = inode_typed i"
  by (simp_all add: inode_typed_def)

lemma fs_typed_same [simp]:
  "fs_typed (put_dirent st p d) = fs_typed st" "fs_typed (put_file st fp f) = fs_typed st" "fs_typed (st\<lparr>vfs := v\<rparr>) = fs_typed st"
  "fs_typed (st\<lparr>inode_cnt := c\<rparr>) = fs_typed st" "fs_typed (st\<lparr>files := fs\<rparr>) = fs_typed st"
  "fs_typed (st\<lparr>dirents := ds\<rparr>) = fs_typed st"
  by (simp_all add: fs_typed_def put_dirent_def put_file_def)

lemma add_entry_typed:
  assumes "add_entry_to_directory g st parent child err = Inr (err', st')" and "fs_typed st"
  shows "fs_typed st'"
  using assms
  by (auto simp: add_entry_to_directory_def bindE_Inr_iff Let_def dir_list_def inode_typed_def split: if_splits tmpfs_data.splits
      intro!: typed_put_inode)

lemma vfs_add_typed: "vfs_add_inode st p = Inr (e, st') \<Longrightarrow> fs_typed st \<Longrightarrow> fs_typed st'"
  by (auto simp: vfs_add_inode_def bindE_Inr_iff split: if_splits intro!: typed_put_inode dest: typed_deref)

lemma enter_typed:
  assumes "tmpfs_enter g st inode parent entry ty d err = Inr (r, err', st')" and "fs_typed st"
    and "case d of Direntries _ \<Rightarrow> ty = DIRECTORY | Filedata _ \<Rightarrow> ty = FILE"
  shows "fs_typed st'"
proof -
  have "inode_typed (tmpfs_inode \<lparr>inode_type = ty, inode_id = k, refcount = 0, fs_identifier = FS_TMPFS, direntry = entry, inode_next = NULL,
      should_delete = False\<rparr> d)" for k using assms(3) by (simp add: inode_typed_def split: tmpfs_data.splits)
  then show ?thesis using assms(1,2)
    by (auto simp: tmpfs_enter_def create_inode_base_def Let_def bindE_Inr_iff simp del: tmpfs_inode_simps split: if_splits
        dest!: add_entry_typed vfs_add_typed intro!: typed_put_inode)
qed

lemma root_typed:
  assumes "create_tmpfs_root g g' entry root st = Inr (r, st')" and "fs_typed st"
  shows "fs_typed st'"
  using assms
  by (auto simp: create_tmpfs_root_def create_direntry_def create_inode_base_def bindE_Inr_iff Let_def inode_typed_def
      split: if_splits intro!: typed_put_inode)

lemma write_typed:
  assumes "tmpfs_write_file g st fp buf cnt = Inr (n, st')" and "fs_typed st"
  shows "fs_typed st'"
proof -
  from assms(1) obtain f p i a a' pos where fi: "file_inode st f = Inr (p, i)" and a: "file_bytes i = Inr a"
    and st': "st' = put_file (put_inode st p (i\<lparr>inode_data := Filedata a'\<rparr>)) fp (f\<lparr>file_position := pos\<rparr>)"
    by (auto simp: tmpfs_write_file_def bindE_Inr_iff Let_def)
  have "inode_typed (i\<lparr>inode_data := Filedata a'\<rparr>)"
    using typed_file_inode [OF assms(2) fi] a by (simp add: inode_typed_def file_bytes_def split: tmpfs_data.splits)
  then show ?thesis using assms(2) by (simp add: st' typed_put_inode)
qed

lemma step_typed: "fs_step st st' \<Longrightarrow> fs_typed st \<Longrightarrow> fs_typed st'"
proof (induction rule: fs_step.induct)
  case (Create_dir g g' st inode parent entry err r err' st')
  then show ?case by (auto simp: tmpfs_create_dir_def bindE_Inr_iff split: if_splits dest!: enter_typed)
next
  case (Create_file g g' st inode parent entry err r err' st')
  then show ?case by (auto simp: tmpfs_create_file_def bindE_Inr_iff split: if_splits dest!: enter_typed)
next
  case (Open st fp inode err r err' st')
  then show ?case by (auto simp: tmpfs_open_file_def bindE_Inr_iff split: if_splits intro!: typed_put_inode) (erule (1) typed_deref)
next
  case (Close st fp err err' st')
  then show ?case
    by (auto simp: tmpfs_close_file_def bindE_Inr_iff Let_def op_remove_file_def tmpfs_remove_file_def split: if_splits FsIdentifier.splits
        intro!: typed_put_inode) (erule (1) typed_file_inode)+
next
  case (Free_inode st inode st')
  then show ?case by (auto simp: tmpfs_free_inode_def bindE_Inr_iff fs_typed_def split: if_splits)
qed (auto simp: tmpfs_init_def create_direntry_def free_direntry_def tmpfs_read_file_def bindE_Inr_iff Let_def
      dest: root_typed write_typed split: if_splits intro: typed_inodes)

lemma reachable_typed: "fs_step\<^sup>*\<^sup>* st0 st \<Longrightarrow> inodes st0 = Map.empty \<Longrightarrow> fs_typed st"
proof (induction rule: rtranclp_induct)
  case base
  then show ?case by (simp add: fs_typed_def)
qed (blast intro: step_typed)

subsection \<open>The wrong member\<close>

text \<open>The faults of the parts that know nothing of the union.\<close>

lemma other_faults:
  "deref m p \<noteq> Inl WrongMember" "inode_of d \<noteq> Inl WrongMember" "err_of err \<noteq> Inl WrongMember"
  "vpa_create g g' n \<noteq> Inl WrongMember" "u8a_create g g' n \<noteq> Inl WrongMember" "vpa_push g l c \<noteq> Inl WrongMember"
  "vpa_free l False \<noteq> Inl WrongMember" "vfs_add_inode st q \<noteq> Inl WrongMember"
proof -
  show d: "deref m p \<noteq> Inl WrongMember" for m :: "ptr \<Rightarrow> 'b option" and p by (auto simp: deref_def split: option.splits)
  show "vpa_push g l c \<noteq> Inl WrongMember"
    by (auto simp: vpa_push_def bindE_Inl_iff kwrite_def assertE_def Let_def split: option.splits if_splits)
  show "vfs_add_inode st q \<noteq> Inl WrongMember" by (auto simp: vfs_add_inode_def bindE_Inl_iff d split: if_splits)
qed (auto simp: inode_of_def err_of_def vpa_create_def u8a_create_def vpa_free_def split: option.splits)

lemma memcpy_faults: "memcpy d dp s sp n \<noteq> Inl WrongMember"
  by (induction d dp s sp n rule: memcpy.induct)
    (auto simp: bindE_Inl_iff kcell_def kput_def split: option.splits if_splits)

lemma file_inode_faults: "file_inode st f \<noteq> Inl WrongMember"
  by (auto simp: file_inode_def bindE_Inl_iff other_faults)

lemma typed_member:
  assumes "inode_typed i"
  shows "dir_list i = Inl WrongMember \<longleftrightarrow> inode_type i = FILE" "file_bytes i = Inl WrongMember \<longleftrightarrow> inode_type i = DIRECTORY"
  using assms by (auto simp: inode_typed_def dir_list_def file_bytes_def split: tmpfs_data.splits)

lemma enter_faults:
  assumes "fs_typed st" and "case d of Direntries _ \<Rightarrow> ty = DIRECTORY | Filedata _ \<Rightarrow> ty = FILE"
  shows "tmpfs_enter g st inode parent entry ty d err \<noteq> Inl WrongMember"
proof -
  have add: "add_entry_to_directory g s parent entry err \<noteq> Inl WrongMember" if "fs_typed s" for s
    using that by (auto simp: add_entry_to_directory_def bindE_Inl_iff other_faults Let_def typed_member [OF typed_deref [OF that]]
        split: if_splits)
  have new: "inode_typed (tmpfs_inode \<lparr>inode_type = ty, inode_id = k, refcount = 0, fs_identifier = FS_TMPFS, direntry = entry, inode_next = NULL,
      should_delete = False\<rparr> d)" for k using assms(2) by (simp add: inode_typed_def split: tmpfs_data.splits)
  show ?thesis using assms(1)
    by (auto simp: tmpfs_enter_def create_inode_base_def Let_def bindE_Inl_iff other_faults add typed_put_inode new
        simp del: tmpfs_inode_simps split: if_splits)
qed

lemma read_write_faults:
  assumes "fs_typed st"
  shows "tmpfs_read_file st fp buf cnt = Inl WrongMember \<longleftrightarrow>
      (\<exists>f p i. deref (files st) fp = Inr f \<and> file_inode st f = Inr (p, i) \<and> inode_type i = DIRECTORY)"
    "tmpfs_write_file g st fp buf cnt = Inl WrongMember \<longleftrightarrow>
      (\<exists>f p i. deref (files st) fp = Inr f \<and> file_inode st f = Inr (p, i) \<and> inode_type i = DIRECTORY)"
  unfolding tmpfs_read_file_def tmpfs_write_file_def
  by (auto simp: bindE_Inl_iff other_faults file_inode_faults Let_def memcpy_faults typed_member [OF typed_file_inode [OF assms(1)]])

text \<open>
  (C26) \<^bold>\<open>The file system is typed, up to what it does not check.\<close> In every state the operations reach, creating a
  directory or a file, opening, closing and freeing never use the member of the union that was not stored. Reading and writing do
  so exactly when the open file belongs to a directory, for \<open>tmpfs_open_file\<close> opens anything, and listing exactly when the
  entry is that of a file.
\<close>

theorem tmpfs_types_sound:
  assumes "fs_step\<^sup>*\<^sup>* st0 st" and "inodes st0 = Map.empty"
  shows "tmpfs_create_dir g g' st inode parent entry err \<noteq> Inl WrongMember \<and>
    tmpfs_create_file g g' st inode parent entry err \<noteq> Inl WrongMember \<and>
    tmpfs_open_file st fp inode err \<noteq> Inl WrongMember \<and> tmpfs_close_file st fp err \<noteq> Inl WrongMember \<and>
    tmpfs_free_inode st inode \<noteq> Inl WrongMember \<and>
    (tmpfs_read_file st fp buf cnt = Inl WrongMember \<longleftrightarrow>
       (\<exists>f p i. deref (files st) fp = Inr f \<and> file_inode st f = Inr (p, i) \<and> inode_type i = DIRECTORY)) \<and>
    (tmpfs_write_file g st fp buf cnt = Inl WrongMember \<longleftrightarrow>
       (\<exists>f p i. deref (files st) fp = Inr f \<and> file_inode st f = Inr (p, i) \<and> inode_type i = DIRECTORY)) \<and>
    (tmpfs_list_dir st entry err = Inl WrongMember \<longleftrightarrow>
       (\<exists>d p i. deref (dirents st) entry = Inr d \<and> inode_of d = Inr p \<and> deref (inodes st) p = Inr i \<and> inode_type i = FILE))"
proof (intro conjI)
  note ty = reachable_typed [OF assms]
  note member = typed_member [OF typed_deref [OF ty]] typed_member [OF typed_file_inode [OF ty]]
  show "tmpfs_create_dir g g' st inode parent entry err \<noteq> Inl WrongMember"
  proof -
    have "tmpfs_enter g st inode parent entry DIRECTORY (Direntries l) err \<noteq> Inl WrongMember" for l by (rule enter_faults [OF ty]) simp
    then show ?thesis by (auto simp: tmpfs_create_dir_def bindE_Inl_iff other_faults split: if_splits)
  qed
  show "tmpfs_create_file g g' st inode parent entry err \<noteq> Inl WrongMember"
  proof -
    have "tmpfs_enter g st inode parent entry FILE (Filedata l) err \<noteq> Inl WrongMember" for l by (rule enter_faults [OF ty]) simp
    then show ?thesis by (auto simp: tmpfs_create_file_def bindE_Inl_iff other_faults split: if_splits)
  qed
  show "tmpfs_open_file st fp inode err \<noteq> Inl WrongMember"
    by (auto simp: tmpfs_open_file_def bindE_Inl_iff other_faults split: if_splits)
  show "tmpfs_close_file st fp err \<noteq> Inl WrongMember"
    by (auto simp: tmpfs_close_file_def bindE_Inl_iff other_faults file_inode_faults Let_def op_remove_file_def tmpfs_remove_file_def split: FsIdentifier.splits)
  show "tmpfs_free_inode st inode \<noteq> Inl WrongMember"
    by (auto simp: tmpfs_free_inode_def bindE_Inl_iff other_faults member split: if_splits intro: InodeType.exhaust)
  show "tmpfs_list_dir st entry err = Inl WrongMember \<longleftrightarrow>
      (\<exists>d p i. deref (dirents st) entry = Inr d \<and> inode_of d = Inr p \<and> deref (inodes st) p = Inr i \<and> inode_type i = FILE)"
    by (auto simp: tmpfs_list_dir_def bindE_Inl_iff other_faults member)
qed (rule read_write_faults [OF reachable_typed [OF assms]])+

text \<open>An empty file system, whose root is opened and read.\<close>

definition no_fs :: fs_state where
  "no_fs = \<lparr>vfs = \<lparr>filesystems_size = 10, filesystems_filled = 0, filesystems = kobj_of 4 (replicate 10 FS_TMPFS), vfs_head = NULL, vfs_tail = NULL\<rparr>,
     inodes = Map.empty, dirents = Map.empty, files = Map.empty, inode_cnt = 0\<rparr>"

theorem tmpfs_types_sound_witness:
  "\<exists>st1 st2. create_tmpfs_root (\<lambda>n. Some n) (\<lambda>n. Some n) 0x100 0x200 no_fs = Inr (0x200, st1) \<and>
    tmpfs_open_file st1 0x300 0x200 (Some OK) = Inr (0x300, Some OK, st2) \<and>
    tmpfs_read_file st2 0x300 None 1 = Inl WrongMember \<and> tmpfs_close_file st2 0x300 (Some OK) \<noteq> Inl WrongMember"
proof -
  obtain st1 where r: "create_tmpfs_root (\<lambda>n. Some n) (\<lambda>n. Some n) 0x100 0x200 no_fs = Inr (0x200, st1)"
    using create_tmpfs_root_ok [OF kheap_exact _ kheap_exact, of "0x100" "0x200" no_fs] by auto
  then obtain i d where i: "inodes st1 0x200 = Some i" "inode_type i = DIRECTORY" "direntry i = 0x100"
    and d: "dirents st1 0x100 = Some d" "de_inode d = Some 0x200"
    by (auto simp: create_tmpfs_root_def create_direntry_def create_inode_base_def bindE_Inr_iff Let_def put_inode_def put_dirent_def)
  let ?f = "\<lparr>dentry = direntry i, file_position = 0, file_operations = fs_identifier i\<rparr>"
  define st2 where "st2 = put_file (put_inode st1 0x200 (i\<lparr>refcount := refcount i + 1\<rparr>)) 0x300 ?f"
  have o: "tmpfs_open_file st1 0x300 0x200 (Some OK) = Inr (0x300, Some OK, st2)"
    by (simp add: tmpfs_open_file_def deref_def i(1) st2_def)
  have "fs_step no_fs st1" "fs_step st1 st2" using r o by (auto intro: fs_step.intros)
  then have st2: "fs_step\<^sup>*\<^sup>* no_fs st2" by auto
  have "deref (files st2) 0x300 = Inr ?f" "file_inode st2 ?f = Inr (0x200, i\<lparr>refcount := refcount i + 1\<rparr>)"
    using d by (simp_all add: st2_def put_file_def put_inode_def deref_def file_inode_def inode_of_def i(3))
  moreover have "inode_type (i\<lparr>refcount := refcount i + 1\<rparr>) = DIRECTORY" using i(2) by simp
  moreover have "inodes no_fs = Map.empty" by (simp add: no_fs_def)
  ultimately show ?thesis
    using r o tmpfs_types_sound [OF st2, where fp = "0x300" and buf = None and cnt = 1 and err = "Some OK"] by blast
qed

end
