(* ===== verification/Spec2Isabelle.thy ===== *)
theory Spec2Isabelle
  imports Array_Lists Linked_List Asid_Allocator Qstr_Model Bcm_Timer Hash_Map Vas2 Fs_Lookup Mem_Alloc Klibc_Printf Klibc_Misc User_Syscalls Mmci Boot Fs_Types
begin

text \<open>
  A verification of \<open>course_os\<close>, a kernel in C for the Raspberry Pi 2, by shallow embedding: its functions are
  translated into Isabelle functions and the theorems are about those. File names below are relative to
  \<open>src/kernel/src\<close> of the repository.

  \<^bold>\<open>The program.\<close> \<open>common/startup.s\<close> finds the size of RAM (\<open>common/memory.s\<close>), turns the MMU on with a table of two sections and calls
  \<open>start\<close> in \<open>common/start.c\<close>. This detects the board, installs the chipset driver (the UART from then on carries the output of \<open>kprintf\<close>), starts the virtual memory on
  top of the physical memory manager, installs the exception vectors, makes the heap out of pages, and lets the driver set up its timer
  queue in the heap. Afterwards the kernel runs in exceptions: interrupts reach the timer, system calls the dispatcher in
  \<open>common/interrupt.c\<close>, which the library of the user programs calls. The file system (a virtual layer and \<open>tmpfs\<close>), the SD card
  driver, the address spaces of processes with their ASIDs and the containers in \<open>ds/\<close> are parts the start does not use yet.

  \<^bold>\<open>The model.\<close> A fault is a value: an operation that can follow a null pointer, leave its object, read what was not written, use the
  wrong member of a union, fail an \<open>assert\<close>, panic or not end returns \<open>fault + 'a\<close>, and \<open>Inl\<close> says which it was
  (\<open>Kernel_Prelude\<close>). Integers have their width (\<open>u8\<close>, \<open>u32\<close>, \<open>u64\<close> are words, \<open>int\<close> of C is an \<open>int\<close> where the source does not
  let it overflow, else a word). Structs are records, enums and unions datatypes, bit fields records with functions to and from the word.
  There are three models of memory, by what the code does with it. The page tables and pages are words at addresses
  (\<open>words\<close> of the memory manager), and the heap is bytes at addresses, for there the layout matters. Arrays that belong
  to one structure are objects of their own, with the size the heap granted (\<open>kobj\<close> in \<open>Kernel_Objects\<close>). Structs that
  point to each other (slice infos, list links, queue nodes, inodes) lie in stores from addresses to records. Devices are parameters, or
  lists of the writes they have seen; instructions of the coprocessor are entries of a log or fields of the machine.

  \<^bold>\<open>Theories.\<close>
  \<^item> \<open>Kernel_Prelude\<close>: faults, sequencing, words. \<open>Kernel_Objects\<close>: memory objects, \<open>klibc/alloc.c\<close>, \<open>klibc/mem.c\<close>, and \<open>kheap\<close>, the law of the heap the
    containers rely on. \<open>Klibc_String\<close>: \<open>klibc/string.c\<close> and the tokeniser of \<open>klibc/klibc.c\<close>. \<open>Klibc_Printf\<close>: \<open>klibc/printf.c\<close>.
    \<open>Klibc_Misc\<close>: the rest of \<open>klibc/klibc.c\<close>.
  \<^item> \<open>Array_Lists\<close>, \<open>Linked_List\<close>, \<open>Qstr_Model\<close>, \<open>Priority_Queue\<close>, \<open>Hash_Map\<close>: the files of \<open>ds/\<close>.
  \<^item> \<open>Hardware_Info\<close>: \<open>common/hardwareinfo.c\<close> and the constants of the memory layout. \<open>Bit_Fields\<close>: C bit fields.
    \<open>Pmm\<close>: \<open>vm/pmm.c\<close>. \<open>Vm2\<close>: \<open>vm/vm2.c\<close>. \<open>Kernel_Table\<close>: the kernel's own table, on which the vectors and the heap are mapped.
    \<open>Asid_Allocator\<close> and \<open>Vas2\<close>: the files of those names in \<open>vm/\<close>.
  \<^item> \<open>Heap_Allocator\<close>, \<open>Heap_Correct\<close>, \<open>Heap_Operations\<close>: \<open>allocator/allocator.c\<close> and \<open>allocator/llist.c\<close>, first the code,
    then bins and searching, then the operations. \<open>Mem_Alloc\<close>: \<open>allocator/mem_alloc.c\<close> and the properties.
  \<^item> \<open>Bcm_Timer\<close>, \<open>Chipset\<close>, \<open>Mmci\<close>: the drivers in \<open>drivers/\<close>. \<open>Interrupts\<close>: \<open>common/interrupt.c\<close>. \<open>User_Syscalls\<close>: the file and
    memory calls of the user library, composed with the kernel's dispatcher. \<open>Memory_Detection\<close>: \<open>common/memory.s\<close>.
    \<open>Boot\<close>: \<open>common/start.c\<close> with \<open>panic\<close> and \<open>splash\<close>.
  \<^item> \<open>Fs_Path\<close>, \<open>Vfs_Model\<close>, \<open>Tmpfs\<close>, \<open>Fs_Lookup\<close>, \<open>Fs_Types\<close>: paths, inodes and entries, the in-memory file system, looking up
    and freeing a tree, and what keeps the union of the inodes typed.

  \<^bold>\<open>Interfaces.\<close> Where one part relies on another, or several operations share a contract, it is a locale that the code's model
  interprets: \<open>kheap\<close> (a block is at least as large as asked for) by the allocator of \<open>Mem_Alloc\<close>; \<open>unit_pool\<close> (what a
  set of disjoint, cleared units promises) by pages and the two kinds of tables in \<open>Pmm\<close>; \<open>min_queue\<close> by the priority queue;
  \<open>growable_array\<close> by both array lists; \<open>hash_laws\<close> by the functions of the map's own test.

  \<^bold>\<open>What is shown.\<close>
  \<^item> Memory. The manager hands out units that are new, disjoint and cleared, takes back exactly what was allocated, and starts with all of
    memory but its own structs (\<open>Pmm\<close>). Mapping a page changes the translation of that page only and gives the permissions asked for,
    unmapping undoes it, and after the start RAM is mapped for the kernel only and the identity mapping is gone (\<open>Vm2\<close>); address spaces do not share pages, and a switch leaves no stale
    translation (\<open>Vas2\<close>, \<open>Asid_Allocator\<close>). The heap allocates by best fit, joins holes, keeps the bytes of its users, and undoes an
    allocation by freeing, as long as its last chunk stays within its bounds and but for the first chunk, which is never joined (\<open>Mem_Alloc\<close>). The invariants are \<open>pmm_pool\<close>, \<open>coarse_ok\<close>, \<open>kernel_ok\<close> and \<open>heap_inv\<close>.
  \<^item> Containers. The queue drains in order of priority and any node can be removed; the map finds what was set last and nothing that
    was deleted; comparison of hashed strings is comparison of their contents; arrays and lists represent sequences.
  \<^item> The timer fires what is due, when no timer is periodic; printing reaches the UART; formatting keeps within its buffer and is undone by \<open>kstrtol\<close>;
    the SD driver's dialogue with any device is fixed access by access; each exception enters its own handler; each system call prints and returns
    what the theorem lists for its number. What a user program gets back from a call is another matter: the epilogue of
    the handler restores \<open>r0\<close>, so the wrappers of the library return their own first argument (\<open>User_Syscalls\<close>).
  \<^item> Files. Creation and writing do to the tree what they should and nothing else; a lookup computes the abstract resolution of a path;
    freeing a tree ends and leaves nothing; the union of inodes is used as typed.
  \<^item> Composition. \<open>Boot.start_boots\<close> finds the size of RAM and runs the parts one after the other up to the sleeping kernel, with every
    invariant in place. That RAM is zero where the structs of the memory manager come to lie, and that the rest of the first table is unmapped, is an
    assumption (\<open>boot_ready\<close>): nothing in the code clears either. Its frame is \<open>extends\<close> of \<open>Kernel_Table\<close>: what an operation on the kernel's table leaves as it was.
  \<^item> Where the code does not do what it means to, the theorem says what it does instead: \<open>expand_loses_wilderness\<close>, \<open>free_vas_leaks_l2_table\<close>,
    \<open>katoi_never_converts\<close>, \<open>file_calls_echo_argument\<close>, \<open>malloc_returns_size\<close>, and lemmas next to the definitions.

  \<^bold>\<open>Loops and bounds.\<close> Loops over a count or a list are structural recursions, or functions with a measure. Loops over linked
  structures, which do not end on a cyclic one, take fuel, and running out is the fault \<open>Diverges\<close>; each theorem about
  such a loop shows that it returns, with a fuel above the length of the structure. \<open>heap_fuel\<close> is larger than the number of chunks that fit in
  the address space (\<open>heap_fuel\<close> in \<open>Mem_Alloc\<close>); mapping RAM has 4097 rounds for at most 4095 mebibytes; the loop over the heap's pages 17 for 16
  pages; a search for a byte goes through the address space once. A loop without end in the source, as in \<open>katoi\<close>, runs out of every fuel.
  The bounds in hypotheses (lengths below \<open>10^9\<close> and the like) keep indices and sizes from wrapping around. The search for
  the end of RAM has 100 rounds, of which it takes at most 60. \<open>start_boots\<close> asks for RAM that ends
  below the devices and 40 slices of it behind the kernel: two are for the vectors, 34 for the heap, the others for the structs.

  \<^bold>\<open>Not modelled.\<close> The assembly start-up (\<open>startup.s\<close>, \<open>stacks.s\<close>) but for its table and the search for the end of RAM; \<open>katof\<close>, whose results are
  rounded floating point numbers; the semihosting calls and the reset handler, which leave the machine or start it again; the output of
  \<open>INFO\<close>, \<open>DEBUG\<close> and \<open>TRACE\<close>, which depends on the log level, but for the \<open>INFO\<close> lines of \<open>start\<close> itself, and \<open>path_print\<close>; \<open>bcm2835.c\<close>, which is empty; the tests; headers
  without code. Of the user side the C library and its headers are those of musl, and the programs are examples. Concurrency does not
  arise: one core runs, and an exception is a step between two others. Caches are not modelled but for the flushes that are logged, and the
  TLB only by the ASIDs that may be stale in it.
\<close>

end
